(* ===== verification/Iw_Prelude.thy ===== *)
theory Iw_Prelude
  imports Main "HOL-Library.Word"
begin

text \<open>
  Prelude of the development: the C integer types, the results of calls that may end the
  process, errno values, the byte order macros and little-endian layouts of integers in memory,
  byte-addressed memory, and the generic lemmas the components share.
\<close>

unbundle bit_operations_syntax

section \<open>Machine types\<close>

type_synonym u8 = "8 word"
type_synonym u16 = "16 word"
type_synonym u32 = "32 word"
type_synonym u64 = "64 word"

text \<open>Lemma collections: unfolding of encodings, facts about \<open>outcome\<close>.\<close>

named_theorems wire_simps
named_theorems outcome_simps

section \<open>Results of calls\<close>

text \<open>
  \<open>Exit\<close> stands for a call that does not come back to its caller: \<open>error\<close> and its kin end the
  process with \<open>exit(1)\<close>, and so do a null dereference or a division by zero (the signal).
\<close>

datatype 'a outcome = Done 'a | Exit

fun bindO :: "'a outcome \<Rightarrow> ('a \<Rightarrow> 'b outcome) \<Rightarrow> 'b outcome" where
  "bindO (Done x) f = f x"
| "bindO Exit f = Exit"

lemma bindO_Done_iff [outcome_simps]: "bindO m f = Done y \<longleftrightarrow> (\<exists>x. m = Done x \<and> f x = Done y)"
  by (cases m) auto

lemma bindO_Exit_iff [outcome_simps]: "bindO m f = Exit \<longleftrightarrow> m = Exit \<or> (\<exists>x. m = Done x \<and> f x = Exit)"
  by (cases m) auto

lemma bindO_assoc: "bindO (bindO m f) g = bindO m (\<lambda>x. bindO (f x) g)"
  by (cases m) auto

lemma bindO_cong [fundef_cong]:
  "m = m' \<Longrightarrow> (\<And>x. m' = Done x \<Longrightarrow> f x = f' x) \<Longrightarrow> bindO m f = bindO m' f'"
  by (cases m') auto

text \<open>
  What holds of the result of a call that comes back: \<open>okO P m\<close>. The rules take a body apart along its
  structure.
\<close>

definition okO :: "('a \<Rightarrow> bool) \<Rightarrow> 'a outcome \<Rightarrow> bool" where
  "okO P m \<longleftrightarrow> (\<forall>x. m = Done x \<longrightarrow> P x)"

named_theorems okO_intros

lemma okO_Done [okO_intros]: "P x \<Longrightarrow> okO P (Done x)"
  and okO_Exit [okO_intros]: "okO P Exit"
  and okO_if [okO_intros]: "(c \<Longrightarrow> okO P a) \<Longrightarrow> (\<not> c \<Longrightarrow> okO P b) \<Longrightarrow> okO P (if c then a else b)"
  and okO_let [okO_intros]: "okO P (lf lx) \<Longrightarrow> okO P (Let lx lf)"
  and okO_pair [okO_intros]: "(\<And>u v. pr = (u, v) \<Longrightarrow> okO P (g u v)) \<Longrightarrow> okO P (case pr of (u, v) \<Rightarrow> g u v)"
  and okO_option [okO_intros]: "(y = None \<Longrightarrow> okO P n) \<Longrightarrow> (\<And>z. y = Some z \<Longrightarrow> okO P (k z)) \<Longrightarrow>
    okO P (case y of None \<Rightarrow> n | Some z \<Rightarrow> k z)"
  and okO_list [okO_intros]: "(ys = [] \<Longrightarrow> okO P n) \<Longrightarrow> (\<And>e es. ys = e # es \<Longrightarrow> okO P (l e es)) \<Longrightarrow>
    okO P (case ys of [] \<Rightarrow> n | e # es \<Rightarrow> l e es)"
  by (simp_all add: okO_def split: prod.split option.split list.split)

lemma okO_bind: "okO Q m \<Longrightarrow> (\<And>x. Q x \<Longrightarrow> okO P (f x)) \<Longrightarrow> okO P (bindO m f)"
  by (cases m) (simp_all add: okO_def)

lemma okO_bind_any [okO_intros]: "(\<And>x. m = Done x \<Longrightarrow> okO P (f x)) \<Longrightarrow> okO P (bindO m f)"
  by (cases m) (simp_all add: okO_def)

lemma okO_D: "okO P m \<Longrightarrow> m = Done x \<Longrightarrow> P x"
  by (simp add: okO_def)

lemma okO_mono: "okO Q m \<Longrightarrow> (\<And>x. Q x \<Longrightarrow> P x) \<Longrightarrow> okO P m"
  by (simp add: okO_def)

text \<open>The errno values the code returns (negated), as Linux defines them.\<close>

abbreviation ENOENT :: int where "ENOENT \<equiv> 2"
abbreviation EBADF :: int where "EBADF \<equiv> 9"
abbreviation EAGAIN :: int where "EAGAIN \<equiv> 11"
abbreviation ENOMEM :: int where "ENOMEM \<equiv> 12"
abbreviation EFAULT :: int where "EFAULT \<equiv> 14"
abbreviation EBUSY :: int where "EBUSY \<equiv> 16"
abbreviation EEXIST :: int where "EEXIST \<equiv> 17"
abbreviation EINVAL :: int where "EINVAL \<equiv> 22"
abbreviation ENOSPC :: int where "ENOSPC \<equiv> 28"
abbreviation ENOSYS :: int where "ENOSYS \<equiv> 38"
abbreviation EBADMSG :: int where "EBADMSG \<equiv> 74"
abbreviation EOVERFLOW :: int where "EOVERFLOW \<equiv> 75"
abbreviation ENOTSOCK :: int where "ENOTSOCK \<equiv> 88"
abbreviation EMSGSIZE :: int where "EMSGSIZE \<equiv> 90"
abbreviation EPROTOTYPE :: int where "EPROTOTYPE \<equiv> 91"
abbreviation ECONNRESET :: int where "ECONNRESET \<equiv> 104"
abbreviation ENOBUFS :: int where "ENOBUFS \<equiv> 105"
abbreviation ENOTSYNC :: int where "ENOTSYNC \<equiv> 522"

section \<open>Equality of words, bit by bit\<close>

lemma All_less_numeral:
  "(\<forall>n<numeral k. P n) \<longleftrightarrow> P (pred_numeral k) \<and> (\<forall>n<pred_numeral k. P n)"
  by (simp add: numeral_eq_Suc All_less_Suc)

lemma word8_eqI: "(\<forall>n<8. bit (a :: u8) n = bit b n) \<Longrightarrow> a = b"
  by (rule bit_word_eqI) simp

lemma word16_eqI: "(\<forall>n<16. bit (a :: u16) n = bit b n) \<Longrightarrow> a = b"
  by (rule bit_word_eqI) simp

lemma word32_eqI: "(\<forall>n<32. bit (a :: u32) n = bit b n) \<Longrightarrow> a = b"
  by (rule bit_word_eqI) simp

lemma word64_eqI: "(\<forall>n<64. bit (a :: u64) n = bit b n) \<Longrightarrow> a = b"
  by (rule bit_word_eqI) simp

lemma bit_high [simp]:
  "8 \<le> n \<Longrightarrow> \<not> bit (a :: u8) n" "16 \<le> n \<Longrightarrow> \<not> bit (b :: u16) n"
  "32 \<le> n \<Longrightarrow> \<not> bit (c :: u32) n" "64 \<le> n \<Longrightarrow> \<not> bit (d :: u64) n"
  using bit_imp_le_length [of a n] bit_imp_le_length [of b n] bit_imp_le_length [of c n]
    bit_imp_le_length [of d n]
  by auto

lemmas bit_expand = All_less_numeral bit_simps

section \<open>Byte order\<close>

text \<open>\<open>htons\<close>, \<open>htonl\<close> and their inverses on a little-endian host: byte swaps.\<close>

definition htons :: "u16 \<Rightarrow> u16" where
  "htons x = push_bit 8 x OR drop_bit 8 x"

definition htonl :: "u32 \<Rightarrow> u32" where
  "htonl x = push_bit 24 (x AND 0xff) OR push_bit 8 (x AND 0xff00)
     OR (drop_bit 8 x AND 0xff00) OR drop_bit 24 x"

abbreviation ntohs :: "u16 \<Rightarrow> u16" where "ntohs \<equiv> htons"
abbreviation ntohl :: "u32 \<Rightarrow> u32" where "ntohl \<equiv> htonl"

lemma htons_htons [simp]: "htons (htons x) = x"
  by (rule bit_word_eqI) (auto simp: htons_def bit_simps)

lemma htonl_htonl [simp]: "htonl (htonl x) = x"
  by (rule word32_eqI) (simp add: htonl_def bit_expand bit_numeral_word_iff)

section \<open>Integers in memory\<close>

text \<open>The bytes of an integer as a little-endian host stores them, and the integer read back.\<close>

definition le16 :: "u16 \<Rightarrow> u8 list" where
  "le16 w = [ucast w, ucast (drop_bit 8 w)]"

definition le32 :: "u32 \<Rightarrow> u8 list" where
  "le32 w = [ucast w, ucast (drop_bit 8 w), ucast (drop_bit 16 w), ucast (drop_bit 24 w)]"

definition le64 :: "u64 \<Rightarrow> u8 list" where
  "le64 w = le32 (ucast w) @ le32 (ucast (drop_bit 32 w))"

fun of_le :: "u8 list \<Rightarrow> 'a::len word" where
  "of_le [] = 0"
| "of_le (b # bs) = ucast b OR push_bit 8 (of_le bs)"

lemma length_le [simp]: "length (le16 w) = 2" "length (le32 v) = 4" "length (le64 u) = 8"
  by (simp_all add: le16_def le32_def le64_def)

lemma of_le_le16 [simp]: "of_le (le16 w) = w"
  by (rule word16_eqI) (simp add: le16_def bit_expand)

lemma of_le_le32 [simp]: "of_le (le32 w) = w"
  by (rule word32_eqI) (simp add: le32_def bit_expand)

lemma of_le_le64 [simp]: "of_le (le64 w) = w"
  by (rule word64_eqI) (simp add: le64_def le32_def bit_expand)

lemma le16_of_le [simp]: "le16 (of_le [a, b]) = [a, b]"
  by (simp add: le16_def) (intro conjI word8_eqI; simp add: bit_expand)

lemma le32_of_le [simp]: "le32 (of_le [a, b, c, d]) = [a, b, c, d]"
  by (simp add: le32_def) (intro conjI word8_eqI; simp add: bit_expand)

lemma le32_inject [simp]: "le32 a = le32 b \<longleftrightarrow> a = b"
  by (metis of_le_le32)

lemma le16_inject [simp]: "le16 a = le16 b \<longleftrightarrow> a = b"
  by (metis of_le_le16)

text \<open>Network order is the reverse of the host's.\<close>

lemma le16_htons: "le16 (htons w) = rev (le16 w)"
  by (simp add: le16_def htons_def) (intro conjI word8_eqI; simp add: bit_expand)

lemma le32_htonl: "le32 (htonl w) = rev (le32 w)"
  by (simp add: le32_def htonl_def)
     (intro conjI word8_eqI; simp add: bit_expand bit_numeral_word_iff)

section \<open>Byte-addressed memory\<close>

type_synonym memory = "u64 \<Rightarrow> u8"

definition read_bytes :: "memory \<Rightarrow> u64 \<Rightarrow> nat \<Rightarrow> u8 list" where
  "read_bytes m a n = map (\<lambda>i. m (a + of_nat i)) [0..<n]"

fun write_bytes :: "memory \<Rightarrow> u64 \<Rightarrow> u8 list \<Rightarrow> memory" where
  "write_bytes m a [] = m"
| "write_bytes m a (b # bs) = write_bytes (m(a := b)) (a + 1) bs"

lemma length_read_bytes [simp]: "length (read_bytes m a n) = n"
  by (simp add: read_bytes_def)

lemma read_bytes_0 [simp]: "read_bytes m a 0 = []"
  by (simp add: read_bytes_def)

lemma read_bytes_nth [simp]: "i < n \<Longrightarrow> read_bytes m a n ! i = m (a + of_nat i)"
  by (simp add: read_bytes_def)

lemma read_bytes_add: "read_bytes m a (i + j) = read_bytes m a i @ read_bytes m (a + of_nat i) j"
  by (rule nth_equalityI) (auto simp: nth_append add_ac simp flip: of_nat_add)

text \<open>An address is outside the \<open>n\<close> bytes at \<open>a\<close> when its distance from \<open>a\<close> is at least \<open>n\<close>.\<close>

lemma unat_minus_Suc_addr:
  assumes "x \<noteq> (a :: u64)"
  shows "unat (x - (a + 1)) + 1 = unat (x - a)"
proof -
  have "x - a \<noteq> 0" using assms by simp
  then have "unat (x - a - 1) = unat (x - a) - 1"
    by (simp add: unat_minus_one)
  moreover have "unat (x - a) \<noteq> 0"
    using \<open>x - a \<noteq> 0\<close> by (simp add: unat_eq_0)
  ultimately show ?thesis by (simp add: algebra_simps)
qed

lemma write_bytes_outside:
  "length bs \<le> unat (x - a) \<Longrightarrow> write_bytes m a bs x = m x"
proof (induction bs arbitrary: m a)
  case (Cons b bs)
  then have "x \<noteq> a" by auto
  with Cons.prems unat_minus_Suc_addr [of x a] have "length bs \<le> unat (x - (a + 1))" by simp
  then have "write_bytes (m(a := b)) (a + 1) bs x = (m(a := b)) x" by (rule Cons.IH)
  with \<open>x \<noteq> a\<close> show ?case by simp
qed simp

lemma unat_minus_one_u64: "unat (- 1 :: u64) = 2 ^ 64 - 1"
  by (simp add: unsigned_minus_1_eq_mask mask_eq_exp_minus_1)

lemma write_bytes_nth:
  "i < length bs \<Longrightarrow> length bs \<le> 2 ^ 64 \<Longrightarrow> write_bytes m a bs (a + of_nat i) = bs ! i"
proof (induction bs arbitrary: m a i)
  case (Cons b bs)
  show ?case
  proof (cases i)
    case 0
    have "length bs \<le> unat (a - (a + 1))" using Cons.prems by (simp add: unat_minus_one_u64)
    then have "write_bytes (m(a := b)) (a + 1) bs a = (m(a := b)) a"
      by (rule write_bytes_outside)
    with 0 show ?thesis by simp
  next
    case (Suc j)
    with Cons have "write_bytes (m(a := b)) (a + 1) bs (a + 1 + of_nat j) = bs ! j"
      by (simp del: fun_upd_apply)
    with Suc show ?thesis by (simp add: add_ac)
  qed
qed simp

lemma read_write_bytes:
  "length bs \<le> 2 ^ 64 \<Longrightarrow> read_bytes (write_bytes m a bs) a (length bs) = bs"
  by (rule nth_equalityI) (simp_all add: write_bytes_nth)

lemma write_bytes_append:
  "write_bytes m a (bs @ cs) = write_bytes (write_bytes m a bs) (a + of_nat (length bs)) cs"
  by (induction bs arbitrary: m a) (simp_all add: add_ac del: fun_upd_apply)

end
