(* ===== verification/Iw_Crc32c.thy ===== *)
theory Iw_Crc32c
  imports Iw_Prelude
begin

text \<open>
  CRC-32C (\<open>iwarp/crc32c.c\<close>): the table of 256 remainders, the byte-at-a-time loop over one buffer
  and over an i/o vector. A buffer is the list of its bytes, an \<open>iovec\<close> the list of its buffers; the
  \<open>int len\<close> of the inner loop holds every length that occurs (a segment is at most 64 KiB).
  The table is proved to be the one of the reflected polynomial 0x1EDC6F41, and the table-driven
  loop to be the bit-serial division; the sum is shown to detect every error confined to 32 bits.
\<close>

section \<open>The code\<close>

definition crc32c_table :: "u32 list" where
  "crc32c_table = [
   0x00000000, 0xF26B8303, 0xE13B70F7, 0x1350F3F4,
   0xC79A971F, 0x35F1141C, 0x26A1E7E8, 0xD4CA64EB,
   0x8AD958CF, 0x78B2DBCC, 0x6BE22838, 0x9989AB3B,
   0x4D43CFD0, 0xBF284CD3, 0xAC78BF27, 0x5E133C24,
   0x105EC76F, 0xE235446C, 0xF165B798, 0x030E349B,
   0xD7C45070, 0x25AFD373, 0x36FF2087, 0xC494A384,
   0x9A879FA0, 0x68EC1CA3, 0x7BBCEF57, 0x89D76C54,
   0x5D1D08BF, 0xAF768BBC, 0xBC267848, 0x4E4DFB4B,
   0x20BD8EDE, 0xD2D60DDD, 0xC186FE29, 0x33ED7D2A,
   0xE72719C1, 0x154C9AC2, 0x061C6936, 0xF477EA35,
   0xAA64D611, 0x580F5512, 0x4B5FA6E6, 0xB93425E5,
   0x6DFE410E, 0x9F95C20D, 0x8CC531F9, 0x7EAEB2FA,
   0x30E349B1, 0xC288CAB2, 0xD1D83946, 0x23B3BA45,
   0xF779DEAE, 0x05125DAD, 0x1642AE59, 0xE4292D5A,
   0xBA3A117E, 0x4851927D, 0x5B016189, 0xA96AE28A,
   0x7DA08661, 0x8FCB0562, 0x9C9BF696, 0x6EF07595,
   0x417B1DBC, 0xB3109EBF, 0xA0406D4B, 0x522BEE48,
   0x86E18AA3, 0x748A09A0, 0x67DAFA54, 0x95B17957,
   0xCBA24573, 0x39C9C670, 0x2A993584, 0xD8F2B687,
   0x0C38D26C, 0xFE53516F, 0xED03A29B, 0x1F682198,
   0x5125DAD3, 0xA34E59D0, 0xB01EAA24, 0x42752927,
   0x96BF4DCC, 0x64D4CECF, 0x77843D3B, 0x85EFBE38,
   0xDBFC821C, 0x2997011F, 0x3AC7F2EB, 0xC8AC71E8,
   0x1C661503, 0xEE0D9600, 0xFD5D65F4, 0x0F36E6F7,
   0x61C69362, 0x93AD1061, 0x80FDE395, 0x72966096,
   0xA65C047D, 0x5437877E, 0x4767748A, 0xB50CF789,
   0xEB1FCBAD, 0x197448AE, 0x0A24BB5A, 0xF84F3859,
   0x2C855CB2, 0xDEEEDFB1, 0xCDBE2C45, 0x3FD5AF46,
   0x7198540D, 0x83F3D70E, 0x90A324FA, 0x62C8A7F9,
   0xB602C312, 0x44694011, 0x5739B3E5, 0xA55230E6,
   0xFB410CC2, 0x092A8FC1, 0x1A7A7C35, 0xE811FF36,
   0x3CDB9BDD, 0xCEB018DE, 0xDDE0EB2A, 0x2F8B6829,
   0x82F63B78, 0x709DB87B, 0x63CD4B8F, 0x91A6C88C,
   0x456CAC67, 0xB7072F64, 0xA457DC90, 0x563C5F93,
   0x082F63B7, 0xFA44E0B4, 0xE9141340, 0x1B7F9043,
   0xCFB5F4A8, 0x3DDE77AB, 0x2E8E845F, 0xDCE5075C,
   0x92A8FC17, 0x60C37F14, 0x73938CE0, 0x81F80FE3,
   0x55326B08, 0xA759E80B, 0xB4091BFF, 0x466298FC,
   0x1871A4D8, 0xEA1A27DB, 0xF94AD42F, 0x0B21572C,
   0xDFEB33C7, 0x2D80B0C4, 0x3ED04330, 0xCCBBC033,
   0xA24BB5A6, 0x502036A5, 0x4370C551, 0xB11B4652,
   0x65D122B9, 0x97BAA1BA, 0x84EA524E, 0x7681D14D,
   0x2892ED69, 0xDAF96E6A, 0xC9A99D9E, 0x3BC21E9D,
   0xEF087A76, 0x1D63F975, 0x0E330A81, 0xFC588982,
   0xB21572C9, 0x407EF1CA, 0x532E023E, 0xA145813D,
   0x758FE5D6, 0x87E466D5, 0x94B49521, 0x66DF1622,
   0x38CC2A06, 0xCAA7A905, 0xD9F75AF1, 0x2B9CD9F2,
   0xFF56BD19, 0x0D3D3E1A, 0x1E6DCDEE, 0xEC064EED,
   0xC38D26C4, 0x31E6A5C7, 0x22B65633, 0xD0DDD530,
   0x0417B1DB, 0xF67C32D8, 0xE52CC12C, 0x1747422F,
   0x49547E0B, 0xBB3FFD08, 0xA86F0EFC, 0x5A048DFF,
   0x8ECEE914, 0x7CA56A17, 0x6FF599E3, 0x9D9E1AE0,
   0xD3D3E1AB, 0x21B862A8, 0x32E8915C, 0xC083125F,
   0x144976B4, 0xE622F5B7, 0xF5720643, 0x07198540,
   0x590AB964, 0xAB613A67, 0xB831C993, 0x4A5A4A90,
   0x9E902E7B, 0x6CFBAD78, 0x7FAB5E8C, 0x8DC0DD8F,
   0xE330A81A, 0x115B2B19, 0x020BD8ED, 0xF0605BEE,
   0x24AA3F05, 0xD6C1BC06, 0xC5914FF2, 0x37FACCF1,
   0x69E9F0D5, 0x9B8273D6, 0x88D28022, 0x7AB90321,
   0xAE7367CA, 0x5C18E4C9, 0x4F48173D, 0xBD23943E,
   0xF36E6F75, 0x0105EC76, 0x12551F82, 0xE03E9C81,
   0x34F4F86A, 0xC69F7B69, 0xD5CF889D, 0x27A40B9E,
   0x79B737BA, 0x8BDCB4B9, 0x988C474D, 0x6AE7C44E,
   0xBE2DA0A5, 0x4C4623A6, 0x5F16D052, 0xAD7D5351]"

definition crc32c_byte :: "u32 \<Rightarrow> u8 \<Rightarrow> u32" where
  "crc32c_byte crc b = crc32c_table ! unat ((crc XOR ucast b) AND 0xFF) XOR drop_bit 8 crc"

fun crc32c_loop :: "u32 \<Rightarrow> u8 list \<Rightarrow> u32" where
  "crc32c_loop crc [] = crc"
| "crc32c_loop crc (b # bs) = crc32c_loop (crc32c_byte crc b) bs"

definition crc32c :: "u8 list \<Rightarrow> u32" where
  "crc32c data = htonl (crc32c_loop (NOT 0) data XOR NOT 0)"

fun crc32c_vec_loop :: "u32 \<Rightarrow> u8 list list \<Rightarrow> u32" where
  "crc32c_vec_loop crc [] = crc"
| "crc32c_vec_loop crc (v # vec) = crc32c_vec_loop (crc32c_loop crc v) vec"

definition crc32c_vec :: "u8 list list \<Rightarrow> u32" where
  "crc32c_vec vec = htonl (crc32c_vec_loop (NOT 0) vec XOR NOT 0)"

section \<open>The specification: division by the polynomial, one bit at a time\<close>

text \<open>One step of the shift register; 0x82F63B78 is 0x1EDC6F41 with its bits reversed.\<close>

definition crc_bit :: "u32 \<Rightarrow> u32" where
  "crc_bit c = (if bit c 0 then drop_bit 1 c XOR 0x82F63B78 else drop_bit 1 c)"

definition crc_bits :: "nat \<Rightarrow> u32 \<Rightarrow> u32" where
  "crc_bits n = crc_bit ^^ n"

definition crc_serial :: "u32 \<Rightarrow> u8 list \<Rightarrow> u32" where
  "crc_serial = foldl (\<lambda>crc b. crc_bits 8 (crc XOR ucast b))"

lemma crc_bits_0 [simp]: "crc_bits 0 c = c"
  by (simp add: crc_bits_def)

lemma crc_bits_Suc: "crc_bits (Suc n) c = crc_bits n (crc_bit c)"
  by (simp add: crc_bits_def funpow_swap1)

lemma crc_bits_add: "crc_bits (m + n) c = crc_bits m (crc_bits n c)"
  by (simp add: crc_bits_def funpow_add)

text \<open>The register is linear over exclusive or, and invertible.\<close>

lemma crc_bit_xor: "crc_bit (a XOR b) = crc_bit a XOR crc_bit b"
  by (rule bit_word_eqI) (auto simp: crc_bit_def bit_simps)

lemma crc_bits_xor: "crc_bits n (a XOR b) = crc_bits n a XOR crc_bits n b"
  by (induction n arbitrary: a b) (simp_all add: crc_bits_Suc crc_bit_xor)

lemma bit_crc_bit:
  "n < 32 \<Longrightarrow> bit (crc_bit c) n = ((n < 31 \<and> bit c (Suc n)) \<noteq> (bit c 0 \<and> bit (0x82F63B78 :: u32) n))"
  by (cases "n < 31") (auto simp: crc_bit_def bit_simps)

lemma crc_bit_eq_0: "crc_bit c = 0 \<Longrightarrow> c = 0"
proof (rule bit_word_eqI)
  fix n assume z: "crc_bit c = 0" and n: "n < LENGTH(32)"
  have b: "((k < 31 \<and> bit c (Suc k)) \<noteq> (bit c 0 \<and> bit (0x82F63B78 :: u32) k)) = False"
    if "k < 32" for k
    using bit_crc_bit [of k c] that z by simp
  have c0: "\<not> bit c 0" using b [of 31] by (simp add: bit_numeral_word_iff)
  show "bit c n = bit (0 :: u32) n"
    using c0 b [of "n - 1"] n by (cases n) auto
qed

lemma crc_bits_eq_0: "crc_bits n c = 0 \<Longrightarrow> c = 0"
  by (induction n arbitrary: c) (auto simp: crc_bits_Suc dest: crc_bit_eq_0)

lemma xor_right_inject: "a XOR c = b XOR c \<longleftrightarrow> a = (b :: u32)"
proof
  assume "a XOR c = b XOR c"
  then have "(a XOR c) XOR c = (b XOR c) XOR c" by simp
  then show "a = b" by (simp add: xor.assoc)
qed simp

lemma crc_bits_inject: "crc_bits n a = crc_bits n b \<longleftrightarrow> a = b"
proof
  assume "crc_bits n a = crc_bits n b"
  then have "crc_bits n (a XOR b) = 0" by (simp add: crc_bits_xor)
  then have "a XOR b = 0" by (rule crc_bits_eq_0)
  then show "a = b" by (metis xor_right_inject xor_self_eq)
qed simp

text \<open>Zero bits at the low end are only shifted out.\<close>

lemma crc_bits_low_zero: "\<forall>k<n. \<not> bit c k \<Longrightarrow> crc_bits n c = drop_bit n c"
proof (induction n arbitrary: c)
  case (Suc n)
  from Suc.prems have "crc_bit c = drop_bit 1 c" by (auto simp: crc_bit_def)
  with Suc.prems have "crc_bits (Suc n) c = drop_bit n (drop_bit 1 c)"
    by (simp add: crc_bits_Suc Suc.IH bit_simps)
  then show ?case by (simp add: drop_bit_drop_bit)
qed simp

lemma crc_bits_push:
  assumes "\<And>k. 32 - n \<le> k \<Longrightarrow> \<not> bit v k" "n \<le> 32"
  shows "crc_bits n (push_bit n v) = v"
proof -
  have "drop_bit n (push_bit n v) = v"
  proof (rule bit_word_eqI)
    fix k assume "k < LENGTH(32)"
    show "bit (drop_bit n (push_bit n v)) k = bit v k"
      using assms(1) [of k] assms(2) by (cases "k < 32 - n") (auto simp: bit_simps)
  qed
  then show ?thesis by (subst crc_bits_low_zero) (auto simp: bit_simps)
qed

section \<open>The table and the byte step\<close>

lemma crc_bits_8:
  "crc_bits 8 c = crc_bit (crc_bit (crc_bit (crc_bit (crc_bit (crc_bit (crc_bit (crc_bit c)))))))"
  by (simp add: crc_bits_def eval_nat_numeral)

lemma upt_256: "[0..<256] = [
   0, 1, 2, 3, 4, 5, 6, 7, 8, 9, 10, 11, 12, 13, 14, 15, 16, 17, 18, 19,
   20, 21, 22, 23, 24, 25, 26, 27, 28, 29, 30, 31, 32, 33, 34, 35, 36, 37, 38, 39,
   40, 41, 42, 43, 44, 45, 46, 47, 48, 49, 50, 51, 52, 53, 54, 55, 56, 57, 58, 59,
   60, 61, 62, 63, 64, 65, 66, 67, 68, 69, 70, 71, 72, 73, 74, 75, 76, 77, 78, 79,
   80, 81, 82, 83, 84, 85, 86, 87, 88, 89, 90, 91, 92, 93, 94, 95, 96, 97, 98, 99,
   100, 101, 102, 103, 104, 105, 106, 107, 108, 109, 110, 111, 112, 113, 114, 115, 116, 117, 118, 119,
   120, 121, 122, 123, 124, 125, 126, 127, 128, 129, 130, 131, 132, 133, 134, 135, 136, 137, 138, 139,
   140, 141, 142, 143, 144, 145, 146, 147, 148, 149, 150, 151, 152, 153, 154, 155, 156, 157, 158, 159,
   160, 161, 162, 163, 164, 165, 166, 167, 168, 169, 170, 171, 172, 173, 174, 175, 176, 177, 178, 179,
   180, 181, 182, 183, 184, 185, 186, 187, 188, 189, 190, 191, 192, 193, 194, 195, 196, 197, 198, 199,
   200, 201, 202, 203, 204, 205, 206, 207, 208, 209, 210, 211, 212, 213, 214, 215, 216, 217, 218, 219,
   220, 221, 222, 223, 224, 225, 226, 227, 228, 229, 230, 231, 232, 233, 234, 235, 236, 237, 238, 239,
   240, 241, 242, 243, 244, 245, 246, 247, 248, 249, 250, 251, 252, 253, 254, 255 :: nat]"
  by code_simp

lemma crc32c_table_entries:
  "crc32c_table = map (crc_bits 8) (map of_nat [0..<256])"
  unfolding upt_256 crc32c_table_def
  by (simp add: crc_bits_8 crc_bit_def bit_numeral_word_iff)

lemma length_crc32c_table [simp]: "length crc32c_table = 256"
  by (simp add: crc32c_table_def)

lemma crc32c_table_nth: "i < 256 \<Longrightarrow> crc32c_table ! i = crc_bits 8 (of_nat i)"
  by (simp only: crc32c_table_entries nth_map_upt map_map) simp

lemma unat_and_255: "unat (w AND 0xFF :: u32) < 256"
proof -
  have "(w AND 0xFF) \<le> (0xFF :: u32)" by (rule word_and_le1)
  then have "unat (w AND 0xFF) \<le> unat (0xFF :: u32)" by (simp only: word_le_nat_alt)
  then show ?thesis by simp
qed

lemma crc32c_byte_serial: "crc32c_byte crc b = crc_bits 8 (crc XOR ucast b)"
proof -
  let ?x = "crc XOR ucast b"
  let ?hi = "?x AND NOT 0xFF"
  have split: "?x = (?x AND 0xFF) XOR ?hi"
    by (rule bit_word_eqI) (auto simp: bit_simps)
  have low: "\<forall>k<8. \<not> bit ?hi k"
    by (simp add: bit_expand bit_numeral_word_iff)
  have "crc_bits 8 ?x = crc_bits 8 (?x AND 0xFF) XOR crc_bits 8 ?hi"
    by (subst split) (rule crc_bits_xor)
  moreover have "crc_bits 8 (?x AND 0xFF) = crc32c_table ! unat (?x AND 0xFF)"
    by (simp only: crc32c_table_nth [OF unat_and_255]) simp
  moreover have "crc_bits 8 ?hi = drop_bit 8 crc"
    unfolding crc_bits_low_zero [OF low]
    by (rule word32_eqI) (simp add: bit_expand bit_numeral_word_iff)
  ultimately show ?thesis by (simp add: crc32c_byte_def)
qed

lemma crc32c_loop_serial: "crc32c_loop crc bs = crc_serial crc bs"
  by (induction bs arbitrary: crc) (simp_all add: crc_serial_def crc32c_byte_serial)

lemma crc32c_loop_append: "crc32c_loop c (xs @ ys) = crc32c_loop (crc32c_loop c xs) ys"
  by (induction xs arbitrary: c) simp_all

lemma crc32c_vec_loop_concat: "crc32c_vec_loop c vec = crc32c_loop c (concat vec)"
  by (induction vec arbitrary: c) (simp_all add: crc32c_loop_append)

lemma crc32c_vec_concat: "crc32c_vec vec = crc32c (concat vec)"
  by (simp add: crc32c_vec_def crc32c_def crc32c_vec_loop_concat)

lemma htonl_inject [simp]: "htonl a = htonl b \<longleftrightarrow> a = b"
  by (metis htonl_htonl)

lemma crc32c_inject: "crc32c xs = crc32c ys \<longleftrightarrow> crc32c_loop (NOT 0) xs = crc32c_loop (NOT 0) ys"
  by (simp add: crc32c_def)

section \<open>Error detection\<close>

text \<open>Up to four bytes are one division of the register combined with them.\<close>

lemma bit_of_le_high: "8 * length bs \<le> k \<Longrightarrow> \<not> bit (of_le bs :: u32) k"
  by (induction bs arbitrary: k) (auto simp: bit_simps)

lemma of_le_Cons_xor: "(of_le (b # bs) :: u32) = ucast b XOR push_bit 8 (of_le bs)"
  by (rule bit_word_eqI) (auto simp: bit_simps)

lemma crc32c_loop_short:
  "length bs \<le> 4 \<Longrightarrow> crc32c_loop c bs = crc_bits (8 * length bs) (c XOR of_le bs)"
proof (induction bs arbitrary: c)
  case (Cons b bs)
  have "crc_bits 8 (push_bit 8 (of_le bs :: u32)) = of_le bs"
    using Cons.prems by (intro crc_bits_push bit_of_le_high) auto
  then have "crc_bits (8 * length (b # bs)) (c XOR of_le (b # bs))
    = crc_bits (8 * length bs) (crc_bits 8 (c XOR ucast b) XOR of_le bs)"
    by (simp add: of_le_Cons_xor add.commute [of 8] crc_bits_add crc_bits_xor xor.assoc
             del: of_le.simps)
  with Cons show ?case by (simp add: crc32c_byte_serial del: of_le.simps)
qed simp

lemma of_le_inject:
  "length xs \<le> 4 \<Longrightarrow> length ys = length xs \<Longrightarrow> (of_le xs :: u32) = of_le ys \<Longrightarrow> xs = ys"
proof (induction xs arbitrary: ys)
  case (Cons x xs)
  then obtain y ys' where ys: "ys = y # ys'" by (cases ys) auto
  have eq: "bit (of_le (x # xs) :: u32) k = bit (of_le (y # ys') :: u32) k" for k
    using Cons.prems ys by simp
  have "x = y"
  proof (rule bit_word_eqI)
    fix k assume "k < LENGTH(8)"
    with eq [of k] show "bit x k = bit y k" by (simp add: bit_simps)
  qed
  moreover have "(of_le xs :: u32) = of_le ys'"
  proof (rule bit_word_eqI)
    fix k assume "k < LENGTH(32)"
    show "bit (of_le xs :: u32) k = bit (of_le ys' :: u32) k"
    proof (cases "k < 24")
      case True
      with eq [of "k + 8"] show ?thesis by (simp add: bit_simps)
    next
      case False
      with Cons.prems ys show ?thesis by (simp add: bit_of_le_high)
    qed
  qed
  ultimately show ?case using Cons ys by simp
qed simp

lemma crc32c_loop_inj: "crc32c_loop c bs = crc32c_loop d bs \<longleftrightarrow> c = d"
  by (induction bs arbitrary: c d) (simp_all add: crc32c_byte_serial crc_bits_inject xor_right_inject)

lemma crc32c_burst_loop:
  assumes "length ys = length xs" "length xs \<le> 4"
    and "crc32c_loop c (xs @ post) = crc32c_loop c (ys @ post)"
  shows "xs = ys"
proof -
  from assms(3) have "crc32c_loop c xs = crc32c_loop c ys"
    by (simp add: crc32c_loop_append crc32c_loop_inj)
  with assms(1,2) have "(of_le xs :: u32) = of_le ys"
    by (simp add: crc32c_loop_short crc_bits_inject xor.commute [of c] xor_right_inject)
  with assms(1,2) show ?thesis by (intro of_le_inject)
qed

lemma crc32c_burst_differs:
  assumes "length ys = length xs" "length xs \<le> 4" "xs \<noteq> ys"
  shows "crc32c (pre @ xs @ post) \<noteq> crc32c (pre @ ys @ post)"
  using assms crc32c_burst_loop [of ys xs "crc32c_loop (NOT 0) pre" post]
  by (auto simp: crc32c_inject crc32c_loop_append)

section \<open>Properties\<close>

text \<open>
  C1. \<open>crc32c\<close> computes CRC-32C: for every buffer the table-driven loop gives the complement of the
  remainder of the bit-serial division by the reflected polynomial, in network byte order.
\<close>

theorem crc32c_is_serial_division: "crc32c data = htonl (NOT (crc_serial (NOT 0) data))"
  by (simp add: crc32c_def crc32c_loop_serial)

text \<open>
  The sum over an i/o vector is the sum over the concatenation of its buffers, however the bytes
  are cut up: the sender (header, payload pieces, markers, pad) and the receiver agree.
\<close>

theorem crc32c_vec_is_crc_of_concat: "crc32c_vec vec = crc32c (concat vec)"
  by (rule crc32c_vec_concat)

text \<open>
  C2. The sum detects every corruption confined to at most four consecutive bytes: two messages that
  differ only there have different sums.
\<close>

theorem crc32c_detects_burst:
  assumes "length ys = length xs" and "length xs \<le> 4" and "xs \<noteq> ys"
  shows "crc32c (pre @ xs @ post) \<noteq> crc32c (pre @ ys @ post)"
  using assms by (rule crc32c_burst_differs)

theorem crc32c_detects_burst_witness:
  "crc32c ([1] @ [2, 3] @ [4, 5]) \<noteq> crc32c ([1] @ [0x82, 7] @ [4, 5])"
  by (rule crc32c_detects_burst) simp_all

end
