(* ===== verification/Iw_Cq.thy ===== *)
theory Iw_Cq
  imports Iw_Prelude
begin

text \<open>
  Completion queues (\<open>iwarp/cq.c\<close>, \<open>iwarp/cq.h\<close>): a circular array of completion entries with a
  producer and a consumer index. The interface \<open>bounded_fifo\<close> states what a queue of bounded size
  promises and proves that a run of operations delivers exactly what it accepted, in order; the ring
  of the code is interpreted in it.
\<close>

section \<open>The interface: a bounded first-in first-out queue\<close>

datatype 'e qop = Put 'e | Get

text \<open>
  A run of operations of a queue given by its two functions: the entries it accepted, those it
  delivered, and the queue at the end.
\<close>

fun run_ops :: "('e \<Rightarrow> 'q \<Rightarrow> int \<times> 'q) \<Rightarrow> ('q \<Rightarrow> int \<times> 'e option \<times> 'q) \<Rightarrow> 'e qop list \<Rightarrow> 'q
    \<Rightarrow> 'e list \<times> 'e list \<times> 'q" where
  "run_ops put get [] q = ([], [], q)"
| "run_ops put get (Put e # ops) q =
     (let (ret, q') = put e q; (acc, del, q'') = run_ops put get ops q'
      in (if ret = 0 then e # acc else acc, del, q''))"
| "run_ops put get (Get # ops) q =
     (let (ret, r, q') = get q; (acc, del, q'') = run_ops put get ops q'
      in (acc, (case r of None \<Rightarrow> del | Some e \<Rightarrow> e # del), q''))"

locale bounded_fifo =
  fixes put :: "'e \<Rightarrow> 'q \<Rightarrow> int \<times> 'q"
    and get :: "'q \<Rightarrow> int \<times> 'e option \<times> 'q"
    and entries :: "'q \<Rightarrow> 'e list"
    and room :: "'q \<Rightarrow> nat"
    and inv :: "'q \<Rightarrow> bool"
    and full_err :: int and empty_err :: int
  assumes put_room: "inv q \<Longrightarrow> length (entries q) < room q \<Longrightarrow>
      \<exists>q'. put e q = (0, q') \<and> inv q' \<and> entries q' = entries q @ [e] \<and> room q' = room q"
    and put_full: "inv q \<Longrightarrow> length (entries q) = room q \<Longrightarrow> put e q = (full_err, q)"
    and get_some: "inv q \<Longrightarrow> entries q = e # es \<Longrightarrow>
      \<exists>q'. get q = (0, Some e, q') \<and> inv q' \<and> entries q' = es \<and> room q' = room q"
    and get_none: "inv q \<Longrightarrow> entries q = [] \<Longrightarrow> get q = (empty_err, None, q)"
    and bounded: "inv q \<Longrightarrow> length (entries q) \<le> room q"
    and full_err_nz: "full_err \<noteq> 0"
begin

lemma put_cases:
  assumes "inv q" "put e q = (ret, q')"
  shows "inv q' \<and> room q' = room q \<and> entries q' = entries q @ (if ret = 0 then [e] else [])
    \<and> (ret = 0 \<longleftrightarrow> length (entries q) < room q)"
proof (cases "length (entries q) < room q")
  case True
  from put_room [OF assms(1) True, of e] assms show ?thesis using True by auto
next
  case False
  with bounded [OF assms(1)] have "length (entries q) = room q" by simp
  from put_full [OF assms(1) this, of e] assms full_err_nz False show ?thesis by auto
qed

lemma get_cases:
  assumes "inv q" "get q = (ret, r, q')"
  shows "inv q' \<and> room q' = room q \<and> entries q = (case r of None \<Rightarrow> [] | Some e \<Rightarrow> [e]) @ entries q'"
proof (cases "entries q")
  case Nil
  with get_none [OF assms(1)] assms show ?thesis by auto
next
  case (Cons e es)
  from get_some [OF assms(1) this] assms Cons show ?thesis by auto
qed

text \<open>What was in the queue and what was accepted is what was delivered and what is left, in order.\<close>

lemma run_fifo:
  assumes "inv q" "run_ops put get ops q = (acc, del, q')"
  shows "inv q' \<and> room q' = room q \<and> entries q @ acc = del @ entries q'"
  using assms
proof (induction ops arbitrary: q acc del)
  case (Cons x ops)
  show ?case
  proof (cases x)
    case (Put e)
    obtain ret q1 where 1: "put e q = (ret, q1)" by force
    obtain acc1 del1 where 2: "run_ops put get ops q1 = (acc1, del1, q')"
      using Cons.prems(2) Put 1 by (force split: prod.splits)
    from put_cases [OF Cons.prems(1) 1] Cons.IH [OF _ 2] show ?thesis
      using Cons.prems(2) Put 1 2 by auto
  next
    case Get
    obtain ret r q1 where 1: "get q = (ret, r, q1)" by (cases "get q") force
    obtain acc1 del1 where 2: "run_ops put get ops q1 = (acc1, del1, q')"
      using Cons.prems(2) Get 1 by (force split: prod.splits)
    from get_cases [OF Cons.prems(1) 1] Cons.IH [OF _ 2] show ?thesis
      using Cons.prems(2) Get 1 2 by (auto split: option.splits)
  qed
qed simp

end

section \<open>The ring of \<open>cq.c\<close>\<close>

record cqe =
  cqe_op :: int
  cqe_status :: int
  cqe_id :: u64
  cqe_msg_len :: u32

record cq =
  cqe :: "cqe list"
  num_cqe :: int
  cq_prod :: int
  cq_cons :: int

definition next_index :: "int \<Rightarrow> int \<Rightarrow> int" where
  "next_index cur num = (let next = cur + 1 in if next = num then 0 else next)"

text \<open>
  \<open>cq_create\<close>: the two arguments before \<open>num\<close> are what the two calls of \<open>malloc\<close> return, the second
  one with the bytes the fresh array happens to hold.
\<close>

definition cq_create :: "bool \<Rightarrow> cqe option \<Rightarrow> int \<Rightarrow> cq option" where
  "cq_create malloc_cq malloc_cqe num =
     (if num \<le> 0 then None
      else if \<not> malloc_cq then None
      else case malloc_cqe of
        None \<Rightarrow> None
      | Some junk \<Rightarrow> Some \<lparr>cqe = replicate (nat num) junk, num_cqe = num, cq_prod = 0, cq_cons = 0\<rparr>)"

definition cq_num_occupied :: "cq \<Rightarrow> int" where
  "cq_num_occupied cq =
     (let prod = cq_prod cq;
          prod = (if prod < cq_cons cq then prod + num_cqe cq else prod)
      in prod - cq_cons cq)"

definition cq_isfull :: "cq \<Rightarrow> bool" where
  "cq_isfull cq \<longleftrightarrow> cq_num_occupied cq \<ge> num_cqe cq - 1"

definition cq_produce :: "cqe \<Rightarrow> cq \<Rightarrow> int \<times> cq" where
  "cq_produce e cq =
     (let nextprod = next_index (cq_prod cq) (num_cqe cq)
      in if nextprod = cq_cons cq then (- ENOSPC, cq)
         else (0, cq\<lparr>cqe := (cqe cq)[nat (cq_prod cq) := e], cq_prod := nextprod\<rparr>))"

definition cq_consume :: "cq \<Rightarrow> int \<times> cqe option \<times> cq" where
  "cq_consume cq =
     (if cq_prod cq = cq_cons cq then (- ENOENT, None, cq)
      else (0, Some (cqe cq ! nat (cq_cons cq)),
            cq\<lparr>cq_cons := next_index (cq_cons cq) (num_cqe cq)\<rparr>))"

section \<open>The ring implements the interface\<close>

definition cq_inv :: "cq \<Rightarrow> bool" where
  "cq_inv cq \<longleftrightarrow> int (length (cqe cq)) = num_cqe cq \<and> 0 \<le> cq_prod cq \<and> cq_prod cq < num_cqe cq
     \<and> 0 \<le> cq_cons cq \<and> cq_cons cq < num_cqe cq"

text \<open>Slot \<open>i\<close> after the consumer, and the entries from the consumer up to the producer.\<close>

definition cq_slot :: "cq \<Rightarrow> nat \<Rightarrow> nat" where
  "cq_slot cq i = nat ((cq_cons cq + int i) mod num_cqe cq)"

definition cq_entries :: "cq \<Rightarrow> cqe list" where
  "cq_entries cq = map (\<lambda>i. cqe cq ! cq_slot cq i) [0..<nat (cq_num_occupied cq)]"

definition cq_room :: "cq \<Rightarrow> nat" where
  "cq_room cq = nat (num_cqe cq - 1)"

lemma mod_once: "0 \<le> x \<Longrightarrow> x < 2 * n \<Longrightarrow> x mod n = (if x < n then x else x - n)" for x n :: int
  using minus_mod_self2 [of x n] by (auto simp: mod_pos_pos_trivial simp del: minus_mod_self2)

lemma cq_slot_eq:
  "cq_inv cq \<Longrightarrow> int i < num_cqe cq \<Longrightarrow>
   cq_slot cq i = nat (if cq_cons cq + int i < num_cqe cq then cq_cons cq + int i
                       else cq_cons cq + int i - num_cqe cq)"
  by (simp add: cq_slot_def cq_inv_def mod_once)

lemma next_index_cases:
  "next_index cur num = (if cur + 1 = num then 0 else cur + 1)"
  by (simp add: next_index_def)

lemma cq_num_occupied_cases:
  "cq_num_occupied cq = (if cq_prod cq < cq_cons cq then cq_prod cq + num_cqe cq - cq_cons cq
                         else cq_prod cq - cq_cons cq)"
  by (simp add: cq_num_occupied_def)

lemma length_cq_entries [simp]: "length (cq_entries cq) = nat (cq_num_occupied cq)"
  by (simp add: cq_entries_def)

lemma cq_occupied_bounds:
  "cq_inv cq \<Longrightarrow> 0 \<le> cq_num_occupied cq \<and> cq_num_occupied cq \<le> num_cqe cq - 1"
  by (auto simp: cq_inv_def cq_num_occupied_cases)

lemma cq_full_iff:
  "cq_inv cq \<Longrightarrow> next_index (cq_prod cq) (num_cqe cq) = cq_cons cq \<longleftrightarrow>
     cq_num_occupied cq = num_cqe cq - 1"
  by (auto simp: cq_inv_def cq_num_occupied_cases next_index_cases)

lemma cq_produce_entries:
  assumes inv: "cq_inv cq" and nf: "cq_num_occupied cq < num_cqe cq - 1"
    and p: "cq_produce e cq = (ret, cq')"
  shows "ret = 0 \<and> cq_inv cq' \<and> cq_entries cq' = cq_entries cq @ [e] \<and> num_cqe cq' = num_cqe cq"
proof -
  let ?n = "next_index (cq_prod cq) (num_cqe cq)"
  have cq': "ret = 0" "cq' = cq\<lparr>cqe := (cqe cq)[nat (cq_prod cq) := e], cq_prod := ?n\<rparr>"
    using p nf cq_full_iff [OF inv] by (auto simp: cq_produce_def Let_def split: if_splits)
  have inv': "cq_inv cq'"
    using inv by (auto simp: cq' cq_inv_def next_index_cases)
  have occ: "cq_num_occupied cq' = cq_num_occupied cq + 1"
    using inv nf by (auto simp: cq' cq_inv_def cq_num_occupied_cases next_index_cases split: if_splits)
  have slot: "cq_slot cq' i = cq_slot cq i" for i
    by (simp add: cq_slot_def cq')
  have last: "cq_slot cq (nat (cq_num_occupied cq)) = nat (cq_prod cq)"
    using inv nf cq_occupied_bounds [OF inv]
    by (subst cq_slot_eq) (auto simp: cq_inv_def cq_num_occupied_cases)
  have old: "nat (cq_prod cq) \<noteq> cq_slot cq i" if "i < nat (cq_num_occupied cq)" for i
    using inv nf that cq_occupied_bounds [OF inv]
    by (subst cq_slot_eq) (auto simp: cq_inv_def cq_num_occupied_cases split: if_splits)
  have "nat (cq_prod cq) < length (cqe cq)" using inv by (simp add: cq_inv_def nat_less_iff)
  then have "cq_entries cq' = cq_entries cq @ [e]"
    using occ old last cq_occupied_bounds [OF inv]
    by (simp add: cq_entries_def slot nat_add_distrib) (simp add: cq')
  with cq' inv' show ?thesis by simp
qed

lemma cq_consume_entries:
  assumes inv: "cq_inv cq" and ne: "cq_entries cq = e # es"
    and c: "cq_consume cq = (ret, r, cq')"
  shows "ret = 0 \<and> r = Some e \<and> cq_inv cq' \<and> cq_entries cq' = es \<and> num_cqe cq' = num_cqe cq"
proof -
  let ?n = "next_index (cq_cons cq) (num_cqe cq)"
  from ne have pos: "0 < cq_num_occupied cq"
    by (metis length_cq_entries length_Cons nat_0_iff not_le old.nat.distinct(2))
  then have "cq_prod cq \<noteq> cq_cons cq" by (auto simp: cq_num_occupied_cases)
  then have cq': "ret = 0" "r = Some (cqe cq ! nat (cq_cons cq))" "cq' = cq\<lparr>cq_cons := ?n\<rparr>"
    using c by (auto simp: cq_consume_def)
  have inv': "cq_inv cq'"
    using inv by (auto simp: cq' cq_inv_def next_index_cases)
  have occ: "cq_num_occupied cq = cq_num_occupied cq' + 1"
    using inv pos by (auto simp: cq' cq_inv_def cq_num_occupied_cases next_index_cases split: if_splits)
  have first: "cq_slot cq 0 = nat (cq_cons cq)"
    using inv by (simp add: cq_slot_eq cq_inv_def)
  have shift: "cq_slot cq (Suc i) = cq_slot cq' i" for i
  proof (cases "cq_cons cq + 1 = num_cqe cq")
    case True
    then have "cq_cons cq + int (Suc i) = int i + num_cqe cq" by simp
    then have "(cq_cons cq + int (Suc i)) mod num_cqe cq = int i mod num_cqe cq"
      by (simp only: mod_add_self2)
    with True show ?thesis by (simp add: cq_slot_def cq' next_index_cases)
  next
    case False
    then show ?thesis by (simp add: cq_slot_def cq' next_index_cases add.assoc)
  qed
  have "cq_entries cq = cqe cq ! nat (cq_cons cq) # cq_entries cq'"
  proof -
    have "nat (cq_num_occupied cq) = Suc (nat (cq_num_occupied cq'))"
      using occ cq_occupied_bounds [OF inv'] by (simp add: Suc_nat_eq_nat_zadd1)
    then have "cq_entries cq = map (\<lambda>i. cqe cq ! cq_slot cq i) [0..<Suc (nat (cq_num_occupied cq'))]"
      by (simp add: cq_entries_def)
    also have "\<dots> = cqe cq ! nat (cq_cons cq) # cq_entries cq'"
      unfolding map_upt_Suc by (simp add: first shift cq_entries_def) (simp add: cq')
    finally show ?thesis .
  qed
  with ne cq' inv' show ?thesis by simp
qed

interpretation cq: bounded_fifo cq_produce cq_consume cq_entries cq_room cq_inv "- ENOSPC" "- ENOENT"
proof unfold_locales
  fix q :: cq and e
  assume i: "cq_inv q" and "length (cq_entries q) < cq_room q"
  then have r: "cq_num_occupied q < num_cqe q - 1" by (simp add: cq_room_def)
  show "\<exists>q'. cq_produce e q = (0, q') \<and> cq_inv q' \<and> cq_entries q' = cq_entries q @ [e]
      \<and> cq_room q' = cq_room q"
    using cq_produce_entries [OF i r] by (cases "cq_produce e q") (auto simp: cq_room_def)
next
  fix q :: cq and e
  assume "cq_inv q" "length (cq_entries q) = cq_room q"
  then show "cq_produce e q = (- ENOSPC, q)"
    using cq_occupied_bounds [of q] cq_full_iff [of q]
    by (auto simp: cq_produce_def cq_room_def eq_nat_nat_iff)
next
  fix q :: cq and e es
  assume "cq_inv q" "cq_entries q = e # es"
  then show "\<exists>q'. cq_consume q = (0, Some e, q') \<and> cq_inv q' \<and> cq_entries q' = es
      \<and> cq_room q' = cq_room q"
    using cq_consume_entries [of q e es] by (cases "cq_consume q") (auto simp: cq_room_def)
next
  fix q :: cq
  assume i: "cq_inv q" and "cq_entries q = []"
  then have "nat (cq_num_occupied q) = 0" by (metis length_cq_entries list.size(3))
  with i have "cq_prod q = cq_cons q"
    by (auto simp: cq_inv_def cq_num_occupied_cases split: if_splits)
  then show "cq_consume q = (- ENOENT, None, q)" by (simp add: cq_consume_def)
next
  fix q :: cq
  assume "cq_inv q"
  then show "length (cq_entries q) \<le> cq_room q"
    using cq_occupied_bounds [of q] by (simp add: cq_room_def nat_mono)
qed simp

lemma cq_create_inv:
  "cq_create m (Some junk) num = Some cq \<Longrightarrow> cq_inv cq \<and> cq_entries cq = [] \<and> cq_room cq = nat (num - 1)"
  by (auto simp: cq_create_def cq_inv_def cq_entries_def cq_num_occupied_def cq_room_def split: if_splits)

section \<open>Properties\<close>

text \<open>
  C3. A completion queue created with \<open>num\<close> entries is a first-in first-out queue: whatever sequence
  of produce and consume calls is made, the entries accepted are the entries delivered, in order,
  followed by those still queued, and never more than \<open>num - 1\<close> are queued.
\<close>

theorem cq_fifo:
  assumes "cq_create True (Some junk) num = Some q"
    and "run_ops cq_produce cq_consume ops q = (acc, del, q')"
  shows "acc = del @ cq_entries q' \<and> length (cq_entries q') \<le> nat (num - 1)"
  using cq_create_inv [OF assms(1)] cq.run_fifo [OF _ assms(2)] cq.bounded [of q']
  by auto

text \<open>
  The fullness test agrees with production: \<open>cq_isfull\<close> holds exactly when the next
  \<open>cq_produce\<close> fails, and then production reports \<open>-ENOSPC\<close> and leaves the queue unchanged.
\<close>

theorem cq_isfull_iff_produce_fails:
  assumes "cq_inv q"
  shows "cq_produce e q = (if cq_isfull q then (- ENOSPC, q) else (0, snd (cq_produce e q)))"
proof -
  have "cq_isfull q \<longleftrightarrow> next_index (cq_prod q) (num_cqe q) = cq_cons q"
    using cq_full_iff [OF assms] cq_occupied_bounds [OF assms] by (auto simp: cq_isfull_def)
  then show ?thesis by (simp add: cq_produce_def Let_def)
qed

definition cq_example :: cq where
  "cq_example = the (cq_create True (Some \<lparr>cqe_op = 0, cqe_status = 0, cqe_id = 0, cqe_msg_len = 0\<rparr>) 3)"

text \<open>A queue of three slots takes two of three entries, and gives the first one back.\<close>

abbreviation cqe_nr :: "u64 \<Rightarrow> cqe" where
  "cqe_nr i \<equiv> \<lparr>cqe_op = 1, cqe_status = 0, cqe_id = i, cqe_msg_len = 0\<rparr>"

theorem cq_fifo_witness:
  "let (acc, del, q') = run_ops cq_produce cq_consume
         [Put (cqe_nr 7), Put (cqe_nr 8), Put (cqe_nr 9), Get] cq_example
   in acc = [cqe_nr 7, cqe_nr 8] \<and> acc = del @ cq_entries q' \<and> length (cq_entries q') \<le> nat (3 - 1)"
proof -
  let ?ops = "[Put (cqe_nr 7), Put (cqe_nr 8), Put (cqe_nr 9), Get]"
  define r where "r = run_ops cq_produce cq_consume ?ops cq_example"
  have "cq_create True (Some \<lparr>cqe_op = 0, cqe_status = 0, cqe_id = 0, cqe_msg_len = 0\<rparr>) 3 = Some cq_example"
    by (simp add: cq_example_def cq_create_def)
  from cq_fifo [OF this, of ?ops "fst r" "fst (snd r)" "snd (snd r)"]
  have "fst r = fst (snd r) @ cq_entries (snd (snd r)) \<and> length (cq_entries (snd (snd r))) \<le> nat (3 - 1)"
    by (simp del: run_ops.simps flip: r_def)
  moreover have "fst r = [cqe_nr 7, cqe_nr 8]"
    by (simp add: r_def cq_example_def cq_create_def cq_produce_def cq_consume_def next_index_def)
  ultimately show ?thesis by (simp add: case_prod_beta del: run_ops.simps flip: r_def)
qed

theorem cq_isfull_iff_produce_fails_witness:
  "cq_produce (cqe_nr 1) cq_example
   = (if cq_isfull cq_example then (- ENOSPC, cq_example) else (0, snd (cq_produce (cqe_nr 1) cq_example)))"
  by (rule cq_isfull_iff_produce_fails)
     (simp add: cq_example_def cq_create_def cq_inv_def)

end
