(* ===== verification/Iw_Ht.thy ===== *)
theory Iw_Ht
  imports Iw_Prelude "HOL-Library.Multiset"
begin

text \<open>
  The hash table from socket numbers to connection state (\<open>iwarp/ht.c\<close>, \<open>iwarp/ht.h\<close>): an array of
  \<open>sz\<close> singly linked chains. A chain is the list of its nodes; a pointer to a link, which
  \<open>ht_lookup_node\<close> returns, is the bucket and the position in its chain. Keys are the 32 bits of the
  C \<open>int\<close>, which \<open>k % sz\<close> reads as an unsigned number. \<open>assoc_table\<close> is the interface of a table
  whose insertions and deletions end the process when the key is already there or missing.
\<close>

section \<open>The interface: a table from keys to values\<close>

datatype ('k, 'v) top = Ins 'k 'v | Del 'k

text \<open>What a sequence of insertions and deletions does to the map, \<open>None\<close> when one of them fails.\<close>

fun map_run :: "('k, 'v) top list \<Rightarrow> ('k \<rightharpoonup> 'v) \<Rightarrow> ('k \<rightharpoonup> 'v) option" where
  "map_run [] m = Some m"
| "map_run (Ins k v # ops) m = (if m k = None then map_run ops (m(k \<mapsto> v)) else None)"
| "map_run (Del k # ops) m = (if m k = None then None else map_run ops (m(k := None)))"

fun table_run :: "('t \<Rightarrow> 'k \<Rightarrow> 'v \<Rightarrow> 't outcome) \<Rightarrow> ('t \<Rightarrow> 'k \<Rightarrow> 't outcome) \<Rightarrow> ('k, 'v) top list
    \<Rightarrow> 't \<Rightarrow> 't outcome" where
  "table_run ins del [] t = Done t"
| "table_run ins del (Ins k v # ops) t = bindO (ins t k v) (table_run ins del ops)"
| "table_run ins del (Del k # ops) t = bindO (del t k) (table_run ins del ops)"

locale assoc_table =
  fixes look :: "'t \<Rightarrow> 'k \<Rightarrow> 'v option outcome"
    and ins :: "'t \<Rightarrow> 'k \<Rightarrow> 'v \<Rightarrow> 't outcome"
    and del :: "'t \<Rightarrow> 'k \<Rightarrow> 't outcome"
    and abs_map :: "'t \<Rightarrow> 'k \<rightharpoonup> 'v"
    and inv :: "'t \<Rightarrow> bool"
  assumes look_abs: "inv t \<Longrightarrow> look t k = Done (abs_map t k)"
    and ins_new: "inv t \<Longrightarrow> abs_map t k = None \<Longrightarrow>
      \<exists>t'. ins t k v = Done t' \<and> inv t' \<and> abs_map t' = (abs_map t)(k \<mapsto> v)"
    and ins_dup: "inv t \<Longrightarrow> abs_map t k = Some w \<Longrightarrow> ins t k v = Exit"
    and del_old: "inv t \<Longrightarrow> abs_map t k = Some w \<Longrightarrow>
      \<exists>t'. del t k = Done t' \<and> inv t' \<and> abs_map t' = (abs_map t)(k := None)"
    and del_none: "inv t \<Longrightarrow> abs_map t k = None \<Longrightarrow> del t k = Exit"
begin

lemma run_refines:
  "inv t \<Longrightarrow> (case map_run ops (abs_map t) of
      None \<Rightarrow> table_run ins del ops t = Exit
    | Some m \<Rightarrow> \<exists>t'. table_run ins del ops t = Done t' \<and> inv t' \<and> abs_map t' = m)"
proof (induction ops arbitrary: t)
  case (Cons x ops)
  show ?case
  proof (cases x)
    case (Ins k v)
    show ?thesis
    proof (cases "abs_map t k")
      case None
      from ins_new [OF Cons.prems None, of v] obtain t' where
        "ins t k v = Done t'" "inv t'" "abs_map t' = (abs_map t)(k \<mapsto> v)" by auto
      with Cons.IH [of t'] Ins None show ?thesis by (auto simp del: fun_upd_apply split: option.splits)
    next
      case (Some w)
      with ins_dup [OF Cons.prems Some] Ins show ?thesis by simp
    qed
  next
    case (Del k)
    show ?thesis
    proof (cases "abs_map t k")
      case None
      with del_none [OF Cons.prems None] Del show ?thesis by simp
    next
      case (Some w)
      from del_old [OF Cons.prems Some] obtain t' where
        "del t k = Done t'" "inv t'" "abs_map t' = (abs_map t)(k := None)" by auto
      with Cons.IH [of t'] Del Some show ?thesis by (auto simp del: fun_upd_apply split: option.splits)
    qed
  qed
qed simp

lemma look_after_ins:
  assumes "inv t" "ins t k v = Done t'"
  shows "inv t'" "look t' j = (if j = k then Done (Some v) else look t j)"
proof -
  have "abs_map t k = None" using assms ins_dup by (cases "abs_map t k") auto
  with ins_new [OF assms(1), of k v] assms have i: "inv t'" and a: "abs_map t' = (abs_map t)(k \<mapsto> v)"
    by auto
  show "inv t'" by (rule i)
  show "look t' j = (if j = k then Done (Some v) else look t j)"
    by (simp add: look_abs i assms(1) a)
qed

end

section \<open>The table of \<open>ht.c\<close>\<close>

record 'v ht =
  ht_sz :: u32
  ht_nnodes :: u32
  ht_nodes :: "(u32 \<times> 'v) list list"

text \<open>
  What stands for a pointer to no table (\<open>NULL\<close>, or a table that is freed): it has no chain, and every
  operation on it is undefined.
\<close>

definition ht_null :: "'v ht" where
  "ht_null = \<lparr>ht_sz = 0, ht_nnodes = 0, ht_nodes = []\<rparr>"

text \<open>
  \<open>Malloc\<close> takes the size of the array of chains as an \<open>unsigned int\<close>: it ends the process when the low 32
  bits are zero, and when they are less than the size the \<open>memset\<close> runs past the block.
\<close>

definition ht_create :: "u32 \<Rightarrow> 'v ht outcome" where
  "ht_create sz =
     (let size = ucast sz * 8 :: u64; n = ucast size :: u32
      in if n = 0 then Exit
         else if ucast n < size then Exit
         else Done \<lparr>ht_sz = sz, ht_nnodes = 0, ht_nodes = replicate (unat sz) []\<rparr>)"

text \<open>\<open>k % sz\<close>: a zero divisor is a trap.\<close>

definition ht_bucket :: "'v ht \<Rightarrow> u32 \<Rightarrow> nat outcome" where
  "ht_bucket ht k = (if ht_sz ht = 0 then Exit else Done (unat (k mod ht_sz ht)))"

text \<open>The walk \<open>while (*n && (*n)->key != k)\<close>: the position of the link it stops at.\<close>

fun chain_walk :: "u32 \<Rightarrow> (u32 \<times> 'v) list \<Rightarrow> nat" where
  "chain_walk k [] = 0"
| "chain_walk k (c # cs) = (if fst c \<noteq> k then Suc (chain_walk k cs) else 0)"

definition ht_lookup_node :: "'v ht \<Rightarrow> u32 \<Rightarrow> (nat \<times> nat) outcome" where
  "ht_lookup_node ht k = bindO (ht_bucket ht k) (\<lambda>b. Done (b, chain_walk k (ht_nodes ht ! b)))"

definition ht_insert :: "'v ht \<Rightarrow> u32 \<Rightarrow> 'v \<Rightarrow> 'v ht outcome" where
  "ht_insert ht k v = bindO (ht_lookup_node ht k) (\<lambda>(b, i).
     let chain = ht_nodes ht ! b
     in if i = length chain
        then Done (ht\<lparr>ht_nodes := (ht_nodes ht)[b := chain @ [(k, v)]], ht_nnodes := ht_nnodes ht + 1\<rparr>)
        else Exit)"

text \<open>
  \<open>ht_delete\<close> unlinks the node the walk stops at, whether it is the first of its chain or not, and
  hands its value to the destructor; the value is part of the result.
\<close>

definition ht_delete :: "'v ht \<Rightarrow> u32 \<Rightarrow> ('v \<times> 'v ht) outcome" where
  "ht_delete ht k = bindO (ht_bucket ht k) (\<lambda>b.
     let chain = ht_nodes ht ! b; i = chain_walk k chain
     in if i < length chain
        then Done (snd (chain ! i),
                   ht\<lparr>ht_nodes := (ht_nodes ht)[b := take i chain @ drop (Suc i) chain],
                      ht_nnodes := ht_nnodes ht - 1\<rparr>)
        else Exit)"

definition ht_lookup :: "'v ht \<Rightarrow> u32 \<Rightarrow> 'v option outcome" where
  "ht_lookup ht k = bindO (ht_lookup_node ht k) (\<lambda>(b, i).
     let chain = ht_nodes ht ! b
     in Done (if i < length chain then Some (snd (chain ! i)) else None))"

text \<open>
  \<open>ht_destroy\<close>: the values handed to the destructor, in order. Its count of nodes goes only into
  \<open>iw_assert\<close>, which \<open>util.h\<close> defines to be nothing.
\<close>

definition ht_destroy :: "'v ht \<Rightarrow> 'v list outcome" where
  "ht_destroy ht = (if ht_sz ht = 0 then Exit else Done (concat (map (map snd) (ht_nodes ht))))"

section \<open>The table is a map\<close>

definition ht_inv :: "'v ht \<Rightarrow> bool" where
  "ht_inv ht \<longleftrightarrow> ht_sz ht \<noteq> 0 \<and> length (ht_nodes ht) = unat (ht_sz ht)
     \<and> (\<forall>b < length (ht_nodes ht). distinct (map fst (ht_nodes ht ! b))
          \<and> (\<forall>c \<in> set (ht_nodes ht ! b). unat (fst c mod ht_sz ht) = b))
     \<and> ht_nnodes ht = of_nat (length (concat (ht_nodes ht)))"

definition ht_map :: "'v ht \<Rightarrow> u32 \<rightharpoonup> 'v" where
  "ht_map ht k = map_of (ht_nodes ht ! unat (k mod ht_sz ht)) k"

lemma chain_walk_le: "chain_walk k cs \<le> length cs"
  by (induction cs) auto

lemma chain_walk_found:
  "chain_walk k cs < length cs \<Longrightarrow> fst (cs ! chain_walk k cs) = k"
  by (induction cs) auto

lemma chain_walk_map_of:
  "map_of cs k = (if chain_walk k cs < length cs then Some (snd (cs ! chain_walk k cs)) else None)"
  by (induction cs) auto

lemma chain_walk_append: "map_of cs k = None \<Longrightarrow> map_of (cs @ [(k, v)]) = (map_of cs)(k \<mapsto> v)"
  by (auto simp: map_of_append map_add_def fun_eq_iff split: option.splits)

lemma chain_remove_map_of:
  "distinct (map fst cs) \<Longrightarrow> chain_walk k cs < length cs \<Longrightarrow>
   map_of (take (chain_walk k cs) cs @ drop (Suc (chain_walk k cs)) cs) = (map_of cs)(k := None)"
proof (induction cs)
  case (Cons c cs)
  show ?case
  proof (cases "fst c = k")
    case True
    with Cons.prems have "map_of cs k = None" by (auto simp: map_of_eq_None_iff)
    with True show ?thesis by (cases c) (auto simp: fun_eq_iff)
  next
    case False
    with Cons show ?thesis by (cases c) (auto simp: fun_eq_iff)
  qed
qed simp

lemma ht_bucket_inv:
  "ht_inv ht \<Longrightarrow> ht_bucket ht k = Done (unat (k mod ht_sz ht)) \<and> unat (k mod ht_sz ht) < length (ht_nodes ht)"
  by (auto simp: ht_bucket_def ht_inv_def unat_mod_distrib unat_gt_0 intro!: mod_less_divisor)

lemma concat_update_length:
  "b < length xss \<Longrightarrow> length (concat (xss[b := ys])) + length (xss ! b) = length (concat xss) + length ys"
  by (induction xss arbitrary: b) (auto split: nat.splits)

lemma concat_update_mset:
  "b < length xss \<Longrightarrow> mset (concat (xss[b := ys])) + mset (xss ! b) = mset (concat xss) + mset ys"
  by (induction xss arbitrary: b) (auto split: nat.splits)

lemma ht_map_update:
  assumes "ht_inv ht" "b = unat (k mod ht_sz ht)" "map_of chain = (map_of (ht_nodes ht ! b))(k := r)"
  shows "ht_map (ht\<lparr>ht_nodes := (ht_nodes ht)[b := chain], ht_nnodes := n\<rparr>) = (ht_map ht)(k := r)"
proof
  fix j
  have "unat (j mod ht_sz ht) < length (ht_nodes ht)" using ht_bucket_inv [OF assms(1)] by simp
  with assms(2,3) show "ht_map (ht\<lparr>ht_nodes := (ht_nodes ht)[b := chain], ht_nnodes := n\<rparr>) j
    = ((ht_map ht)(k := r)) j"
    by (cases "unat (j mod ht_sz ht) = b") (auto simp: ht_map_def)
qed

lemma ht_inv_update:
  assumes "ht_inv ht" "b < length (ht_nodes ht)" "distinct (map fst chain)"
    and "\<forall>c \<in> set chain. unat (fst c mod ht_sz ht) = b"
    and "n = of_nat (length (concat ((ht_nodes ht)[b := chain])))"
  shows "ht_inv (ht\<lparr>ht_nodes := (ht_nodes ht)[b := chain], ht_nnodes := n\<rparr>)"
  using assms by (auto simp: ht_inv_def nth_list_update)

interpretation ht: assoc_table ht_lookup ht_insert "\<lambda>t k. bindO (ht_delete t k) (\<lambda>r. Done (snd r))"
  ht_map ht_inv
proof unfold_locales
  fix t :: "'a ht" and k
  assume "ht_inv t"
  then show "ht_lookup t k = Done (ht_map t k)"
    by (simp add: ht_lookup_def ht_lookup_node_def ht_bucket_inv ht_map_def chain_walk_map_of
        Let_def)
next
  fix t :: "'a ht" and k v
  assume i: "ht_inv t" and n: "ht_map t k = None"
  let ?b = "unat (k mod ht_sz t)"
  let ?c = "ht_nodes t ! ?b @ [(k, v)]"
  let ?t = "t\<lparr>ht_nodes := (ht_nodes t)[?b := ?c], ht_nnodes := ht_nnodes t + 1\<rparr>"
  have b: "?b < length (ht_nodes t)" using ht_bucket_inv [OF i] by simp
  from n have fresh: "map_of (ht_nodes t ! ?b) k = None" by (simp add: ht_map_def)
  then have "ht_insert t k v = Done ?t"
    using chain_walk_le [of k "ht_nodes t ! ?b"]
    by (simp add: ht_insert_def ht_lookup_node_def ht_bucket_inv [OF i] chain_walk_map_of
        split: if_splits)
  moreover have "ht_inv ?t"
  proof (rule ht_inv_update [OF i b])
    have "distinct (map fst (ht_nodes t ! ?b)) \<and> (\<forall>c\<in>set (ht_nodes t ! ?b). unat (fst c mod ht_sz t) = ?b)"
      using i b by (simp add: ht_inv_def)
    then show "distinct (map fst ?c)" "\<forall>c\<in>set ?c. unat (fst c mod ht_sz t) = ?b"
      using fresh by (auto simp: map_of_eq_None_iff image_iff)
    have "length (concat ((ht_nodes t)[?b := ?c])) = Suc (length (concat (ht_nodes t)))"
      using concat_update_length [OF b, of ?c] by simp
    then show "ht_nnodes t + 1 = of_nat (length (concat ((ht_nodes t)[?b := ?c])))"
      using i by (simp add: ht_inv_def)
  qed
  moreover have "ht_map ?t = (ht_map t)(k \<mapsto> v)"
    by (rule ht_map_update [OF i refl]) (rule chain_walk_append [OF fresh])
  ultimately show "\<exists>t'. ht_insert t k v = Done t' \<and> ht_inv t' \<and> ht_map t' = (ht_map t)(k \<mapsto> v)"
    by blast
next
  fix t :: "'a ht" and k v w
  assume i: "ht_inv t" and "ht_map t k = Some w"
  then show "ht_insert t k v = Exit"
    by (auto simp: ht_insert_def ht_lookup_node_def ht_bucket_inv ht_map_def chain_walk_map_of
        split: if_splits)
next
  fix t :: "'a ht" and k w
  assume i: "ht_inv t" and "ht_map t k = Some w"
  let ?b = "unat (k mod ht_sz t)"
  let ?old = "ht_nodes t ! ?b"
  let ?i = "chain_walk k ?old"
  let ?c = "take ?i ?old @ drop (Suc ?i) ?old"
  let ?t = "t\<lparr>ht_nodes := (ht_nodes t)[?b := ?c], ht_nnodes := ht_nnodes t - 1\<rparr>"
  have b: "?b < length (ht_nodes t)" using ht_bucket_inv [OF i] by simp
  have f: "?i < length ?old"
    using \<open>ht_map t k = Some w\<close> by (auto simp: ht_map_def chain_walk_map_of split: if_splits)
  have old: "distinct (map fst ?old)" "\<forall>c\<in>set ?old. unat (fst c mod ht_sz t) = ?b"
    using i b by (simp_all add: ht_inv_def)
  have "bindO (ht_delete t k) (\<lambda>r. Done (snd r)) = Done ?t"
    using f by (simp add: ht_delete_def ht_bucket_inv [OF i] Let_def)
  moreover have "ht_inv ?t"
  proof (rule ht_inv_update [OF i b])
    show "distinct (map fst ?c)"
      using old(1) by (simp add: take_map drop_map distinct_take distinct_drop
        set_take_disj_set_drop_if_distinct flip: take_map drop_map)
    show "\<forall>c\<in>set ?c. unat (fst c mod ht_sz t) = ?b"
      using old(2) by (auto dest: in_set_takeD in_set_dropD)
    have "Suc (length (concat ((ht_nodes t)[?b := ?c]))) = length (concat (ht_nodes t))"
      using concat_update_length [OF b, of ?c] f by simp
    then have "of_nat (Suc (length (concat ((ht_nodes t)[?b := ?c])))) = ht_nnodes t"
      using i by (simp only: ht_inv_def)
    then show "ht_nnodes t - 1 = of_nat (length (concat ((ht_nodes t)[?b := ?c])))"
      by (metis add_diff_cancel_left' of_nat_Suc)
  qed
  moreover have "ht_map ?t = (ht_map t)(k := None)"
    by (rule ht_map_update [OF i refl]) (rule chain_remove_map_of [OF old(1) f])
  ultimately show "\<exists>t'. bindO (ht_delete t k) (\<lambda>r. Done (snd r)) = Done t' \<and> ht_inv t'
      \<and> ht_map t' = (ht_map t)(k := None)"
    by blast
next
  fix t :: "'a ht" and k
  assume "ht_inv t" "ht_map t k = None"
  then show "bindO (ht_delete t k) (\<lambda>r. Done (snd r)) = Exit"
    by (simp add: ht_delete_def ht_bucket_inv ht_map_def chain_walk_map_of split: if_splits)
qed

lemma set_mset_concat_inv:
  "ht_inv t \<Longrightarrow> b < length (ht_nodes t) \<Longrightarrow> c \<in> set (ht_nodes t ! b) \<Longrightarrow> ht_map t (fst c) = Some (snd c)"
  by (auto simp: ht_inv_def ht_map_def)

lemma ht_create_Done:
  assumes "0 < sz" "sz < 2 ^ 29"
  shows "ht_create sz = Done \<lparr>ht_sz = sz, ht_nnodes = 0, ht_nodes = replicate (unat sz) []\<rparr>"
proof -
  have b: "0 < unat sz" "unat sz < 2 ^ 29" using assms by (simp_all add: word_less_nat_alt unat_gt_0)
  have m: "unat (ucast sz * 8 :: u64) = unat sz * 8"
    using b by (simp add: unat_word_ariths unsigned_ucast_eq take_bit_nat_eq_self)
  then have n: "unat (ucast (ucast sz * 8 :: u64) :: u32) = unat sz * 8"
    using b by (simp add: unsigned_ucast_eq take_bit_nat_eq_self)
  have "unat (ucast x :: u64) = unat x" for x :: u32
    by (simp add: unsigned_ucast_eq take_bit_nat_eq_self order_less_trans [OF unsigned_less [of x, where ?'a = nat]])
  with n have "unat (ucast (ucast (ucast sz * 8 :: u64) :: u32) :: u64) = unat sz * 8" by metis
  moreover have "(ucast (ucast sz * 8 :: u64) :: u32) \<noteq> 0" using n b(1) by (metis mult_is_0 neq0_conv unat_0 zero_neq_numeral)
  ultimately show ?thesis using m by (simp add: ht_create_def Let_def word_less_nat_alt)
qed

lemma ht_create_inv:
  assumes "0 < sz" "sz < 2 ^ 29"
  shows "\<exists>t. ht_create sz = Done t \<and> ht_inv t \<and> ht_map t = Map.empty"
  unfolding ht_create_Done [OF assms]
  using assms by (auto simp: ht_inv_def ht_map_def fun_eq_iff unat_mod unat_gt_0)

text \<open>The sizes at which the product is cut: the array would be too small, or there would be none.\<close>

lemma ht_create_too_big:
  "ht_create 0x20000000 = Exit" "ht_create 0x20000001 = Exit" "ht_create 0 = Exit"
  by (simp_all add: ht_create_def Let_def)

text \<open>Destroying the table hands over the values of the map, and no others.\<close>

lemma ht_destroy_all:
  assumes "ht_inv t"
  shows "\<exists>vs. ht_destroy t = Done vs \<and> set vs = ran (ht_map t)"
proof -
  have "set (concat (map (map snd) (ht_nodes t))) = ran (ht_map t)"
  proof
    show "set (concat (map (map snd) (ht_nodes t))) \<subseteq> ran (ht_map t)"
    proof
      fix v assume "v \<in> set (concat (map (map snd) (ht_nodes t)))"
      then obtain chain c where "chain \<in> set (ht_nodes t)" and c: "c \<in> set chain" "v = snd c" by auto
      then obtain b where "b < length (ht_nodes t)" "chain = ht_nodes t ! b" by (metis in_set_conv_nth)
      with c have "b < length (ht_nodes t)" "c \<in> set (ht_nodes t ! b)" "v = snd c" by simp_all
      with set_mset_concat_inv [OF assms, of b c] show "v \<in> ran (ht_map t)" by (auto intro: ranI)
    qed
    show "ran (ht_map t) \<subseteq> set (concat (map (map snd) (ht_nodes t)))"
    proof
      fix v assume "v \<in> ran (ht_map t)"
      then obtain k where "map_of (ht_nodes t ! unat (k mod ht_sz t)) k = Some v" by (auto simp: ran_def ht_map_def)
      then have "(k, v) \<in> set (ht_nodes t ! unat (k mod ht_sz t))" by (rule map_of_SomeD)
      with ht_bucket_inv [OF assms, of k] show "v \<in> set (concat (map (map snd) (ht_nodes t)))"
        by (force intro: nth_mem)
    qed
  qed
  then show ?thesis using assms by (simp add: ht_destroy_def ht_inv_def)
qed

section \<open>Properties\<close>

text \<open>
  C4. The hash table is a map: after any sequence of insertions and deletions on a new table, of less than
  2 to the 29 chains, either the sequence inserts a key that is there or deletes one that is not and the
  process ends, or every lookup returns what the same sequence leaves in a map.
\<close>

theorem ht_refines_map:
  fixes ops :: "(u32, 'v) top list"
  assumes "0 < sz" and "sz < 2 ^ 29"
  shows "\<exists>t0. ht_create sz = Done t0 \<and> (case map_run ops Map.empty of
      None \<Rightarrow> table_run ht_insert (\<lambda>t k. bindO (ht_delete t k) (\<lambda>r. Done (snd r))) ops t0 = Exit
    | Some m \<Rightarrow> \<exists>t. table_run ht_insert (\<lambda>t k. bindO (ht_delete t k) (\<lambda>r. Done (snd r))) ops t0 = Done t
        \<and> (\<forall>k. ht_lookup t k = Done (m k)))"
proof -
  obtain t0 :: "'v ht" where t0: "ht_create sz = Done t0" "ht_inv t0" "ht_map t0 = Map.empty"
    using ht_create_inv [OF assms] by blast
  with ht.run_refines [OF t0(2), of ops] ht.look_abs show ?thesis
    by (intro exI [of _ t0]) (auto split: option.splits)
qed

theorem ht_refines_map_witness:
  "\<exists>t0 t. ht_create 2 = Done t0 \<and> table_run ht_insert (\<lambda>t k. bindO (ht_delete t k) (\<lambda>r. Done (snd r)))
     [Ins 3 (''a''), Ins 5 ''b'', Del 3] t0 = Done t \<and> ht_lookup t 5 = Done (Some ''b'')"
proof -
  have "map_run [Ins (3 :: u32) ''a'', Ins 5 ''b'', Del 3] Map.empty
    = Some (Map.empty(3 \<mapsto> ''a'', 5 \<mapsto> ''b'', 3 := None))"
    by simp
  with ht_refines_map [of 2 "[Ins 3 ''a'', Ins 5 ''b'', Del 3]"] show ?thesis
    by (auto simp del: table_run.simps)
qed

end
