(* ===== verification/Iw_Avl.thy ===== *)
theory Iw_Avl
  imports Iw_Prelude
begin

text \<open>
  The balanced tree (\<open>iwarp/avl.c\<close>, \<open>iwarp/avl.h\<close>) that indexes the steering tags. A node is its two
  links, its data and its balance factor; the code's descent keeps the nodes it passes (the
  parent pointers \<open>z\<close>, \<open>y\<close> and the array \<open>da\<close> in \<open>avl_probe\<close>, the arrays \<open>pa\<close> and \<open>da\<close> in
  \<open>avl_delete\<close>), and the model keeps the same nodes as frames: the direction taken, and the node
  without the subtree entered. A store through a kept pointer is the frame put back around the new
  subtree. \<open>Exit\<close> stands for the failures of C: a null link followed in a rotation, and a write
  past the \<open>AVL_MAX_HEIGHT\<close> elements of the arrays. The lemmas show that neither happens while the
  table holds fewer than 5702886 items.
\<close>

section \<open>The code\<close>

abbreviation AVL_MAX_HEIGHT :: nat where "AVL_MAX_HEIGHT \<equiv> 32"

datatype 'a avl_node = Leaf | Node (link0: "'a avl_node") (avl_data: 'a) (avl_balance: int) (link1: "'a avl_node")

record 'a avl_table =
  avl_root :: "'a avl_node"
  avl_compare :: "'a \<Rightarrow> 'a \<Rightarrow> int"
  avl_count :: u64
  avl_generation :: u64

definition avl_create :: "('a \<Rightarrow> 'a \<Rightarrow> int) \<Rightarrow> 'a avl_table" where
  "avl_create compare = \<lparr>avl_root = Leaf, avl_compare = compare, avl_count = 0, avl_generation = 0\<rparr>"

fun avl_find_from :: "('a \<Rightarrow> 'a \<Rightarrow> int) \<Rightarrow> 'a \<Rightarrow> 'a avl_node \<Rightarrow> 'a option" where
  "avl_find_from compare item Leaf = None"
| "avl_find_from compare item (Node l x b r) =
     (let cmp = compare item x
      in if cmp < 0 then avl_find_from compare item l
         else if cmp > 0 then avl_find_from compare item r
         else Some x)"

definition avl_find :: "'a avl_table \<Rightarrow> 'a \<Rightarrow> 'a option" where
  "avl_find tree item = avl_find_from (avl_compare tree) item (avl_root tree)"

text \<open>A node on the path: \<open>True\<close> for link 1, the other subtree, the data and the balance.\<close>

type_synonym 'a frame = "bool \<times> 'a avl_node \<times> 'a \<times> int"

fun plug :: "'a avl_node \<Rightarrow> 'a frame list \<Rightarrow> 'a avl_node" where
  "plug t [] = t"
| "plug t ((True, s, x, b) # fs) = plug (Node s x b t) fs"
| "plug t ((False, s, x, b) # fs) = plug (Node t x b s) fs"

subsection \<open>\<open>avl_probe\<close>\<close>

text \<open>
  The descent: \<open>outer\<close> are the frames above \<open>y\<close>, \<open>inner\<close> those from \<open>y\<close> down (their directions are
  \<open>da[0..k-1]\<close>). A node with a balance other than 0 becomes the new \<open>y\<close>.
\<close>

datatype 'a probe_end = Found 'a | Gap "'a frame list" "'a frame list" | Overrun

fun probe_descend :: "('a \<Rightarrow> 'a \<Rightarrow> int) \<Rightarrow> 'a \<Rightarrow> 'a avl_node \<Rightarrow> 'a frame list \<Rightarrow> 'a frame list
    \<Rightarrow> 'a probe_end" where
  "probe_descend compare item Leaf inner outer = Gap inner outer"
| "probe_descend compare item (Node l x b r) inner outer =
     (let cmp = compare item x
      in if cmp = 0 then Found x
         else let (inner, outer) = (if b \<noteq> 0 then ([], inner @ outer) else (inner, outer))
              in if length inner \<ge> AVL_MAX_HEIGHT then Overrun
                 else if cmp > 0 then probe_descend compare item r ((True, l, x, b) # inner) outer
                 else probe_descend compare item l ((False, r, x, b) # inner) outer)"

text \<open>The loop from \<open>y\<close> to the new node that adjusts the balance factors on the way.\<close>

fun bump_path :: "'a avl_node \<Rightarrow> 'a frame list \<Rightarrow> 'a avl_node" where
  "bump_path n [] = n"
| "bump_path n ((True, s, x, b) # fs) = bump_path (Node s x (b + 1) n) fs"
| "bump_path n ((False, s, x, b) # fs) = bump_path (Node n x (b - 1) s) fs"

text \<open>The four rotations; the result says whether the subtree got a new root \<open>w\<close>.\<close>

fun rotate_ins :: "'a avl_node \<Rightarrow> ('a avl_node \<times> bool) outcome" where
  "rotate_ins Leaf = Exit"
| "rotate_ins (Node yl y yb yr) =
     (if yb = -2 then
        (case yl of
           Leaf \<Rightarrow> Exit
         | Node xl x xb xr \<Rightarrow>
             if xb = -1 then Done (Node xl x 0 (Node xr y 0 yr), True)
             else if xb \<noteq> 1 then Exit
             else (case xr of
                Leaf \<Rightarrow> Exit
              | Node wl w wb wr \<Rightarrow>
                  let (xb, yb) = (if wb = -1 then (0, 1) else if wb = 0 then (0, 0) else (-1, 0))
                  in Done (Node (Node xl x xb wl) w 0 (Node wr y yb yr), True)))
      else if yb = 2 then
        (case yr of
           Leaf \<Rightarrow> Exit
         | Node xl x xb xr \<Rightarrow>
             if xb = 1 then Done (Node (Node yl y 0 xl) x 0 xr, True)
             else if xb \<noteq> -1 then Exit
             else (case xl of
                Leaf \<Rightarrow> Exit
              | Node wl w wb wr \<Rightarrow>
                  let (xb, yb) = (if wb = 1 then (0, -1) else if wb = 0 then (0, 0) else (1, 0))
                  in Done (Node (Node yl y yb wl) w 0 (Node wr x xb xr), True)))
      else Done (Node yl y yb yr, False))"

text \<open>\<open>Inl\<close> is the duplicate found (the tree is unchanged), \<open>Inr\<close> the tree with the new node.\<close>

definition avl_probe :: "'a avl_table \<Rightarrow> 'a \<Rightarrow> ('a + 'a avl_table) outcome" where
  "avl_probe tree item =
     (case probe_descend (avl_compare tree) item (avl_root tree) [] [] of
        Found x \<Rightarrow> Done (Inl x)
      | Overrun \<Rightarrow> Exit
      | Gap inner outer \<Rightarrow>
          let n = Node Leaf item 0 Leaf; tree = tree\<lparr>avl_count := avl_count tree + 1\<rparr>
          in if inner = [] \<and> outer = [] then Done (Inr (tree\<lparr>avl_root := n\<rparr>))
             else bindO (rotate_ins (bump_path n inner)) (\<lambda>(w, rotated).
               let tree = tree\<lparr>avl_root := plug w outer\<rparr>
               in Done (Inr (if rotated then tree\<lparr>avl_generation := avl_generation tree + 1\<rparr> else tree))))"

text \<open>
  \<open>avl_insert\<close> returns the duplicate, if it is not the very item given, and the tree. Items carry
  their identity, as pointers do.
\<close>

definition avl_insert :: "'a avl_table \<Rightarrow> 'a \<Rightarrow> ('a option \<times> 'a avl_table) outcome" where
  "avl_insert tree item = bindO (avl_probe tree item) (\<lambda>r. case r of
       Inl dup \<Rightarrow> Done (if dup = item then None else Some dup, tree)
     | Inr tree' \<Rightarrow> Done (None, tree'))"

subsection \<open>\<open>avl_delete\<close>\<close>

text \<open>
  The search keeps every node it passes. \<open>pa[0]\<close> is the pseudo-node of the root pointer, so that the
  node that \<open>length path\<close> others precede goes to \<open>pa[length path + 1]\<close>.
\<close>

fun delete_search :: "('a \<Rightarrow> 'a \<Rightarrow> int) \<Rightarrow> 'a \<Rightarrow> 'a avl_node \<Rightarrow> 'a frame list
    \<Rightarrow> ('a avl_node \<times> 'a frame list) option outcome" where
  "delete_search compare item Leaf path = Done None"
| "delete_search compare item (Node l x b r) path =
     (let cmp = compare item x
      in if cmp = 0 then Done (Some (Node l x b r, path))
         else if length path + 1 \<ge> AVL_MAX_HEIGHT then Exit
         else if cmp > 0 then delete_search compare item r ((True, l, x, b) # path)
         else delete_search compare item l ((False, r, x, b) # path))"

text \<open>The leftmost node \<open>s\<close> of the right subtree: its data, its right subtree, the nodes above it.\<close>

fun delete_succ :: "'a avl_node \<Rightarrow> 'a \<Rightarrow> int \<Rightarrow> 'a avl_node \<Rightarrow> 'a frame list \<Rightarrow> 'a \<times> 'a avl_node \<times> 'a frame list"
  where
  "delete_succ Leaf x b r fs = (x, r, fs)"
| "delete_succ (Node sl s sb sr) x b r fs = delete_succ sl s sb sr ((False, r, x, b) # fs)"

text \<open>The rotations of deletion; the result says whether the loop goes on (the subtree is lower).\<close>

fun rotate_del_right :: "'a avl_node \<Rightarrow> 'a \<Rightarrow> 'a avl_node \<Rightarrow> ('a avl_node \<times> bool) outcome" where
  "rotate_del_right yl y Leaf = Exit"
| "rotate_del_right yl y (Node xl x xb xr) =
     (if xb = -1 then
        (case xl of
           Leaf \<Rightarrow> Exit
         | Node wl w wb wr \<Rightarrow>
             let (xb, yb) = (if wb = 1 then (0, -1) else if wb = 0 then (0, 0) else (1, 0))
             in Done (Node (Node yl y yb wl) w 0 (Node wr x xb xr), True))
      else if xb = 0 then Done (Node (Node yl y 1 xl) x (-1) xr, False)
      else Done (Node (Node yl y 0 xl) x 0 xr, True))"

fun rotate_del_left :: "'a avl_node \<Rightarrow> 'a \<Rightarrow> 'a avl_node \<Rightarrow> ('a avl_node \<times> bool) outcome" where
  "rotate_del_left Leaf y yr = Exit"
| "rotate_del_left (Node xl x xb xr) y yr =
     (if xb = 1 then
        (case xr of
           Leaf \<Rightarrow> Exit
         | Node wl w wb wr \<Rightarrow>
             let (xb, yb) = (if wb = -1 then (0, 1) else if wb = 0 then (0, 0) else (-1, 0))
             in Done (Node (Node xl x xb wl) w 0 (Node wr y yb yr), True))
      else if xb = 0 then Done (Node xl x 1 (Node xr y (-1) yr), False)
      else Done (Node xl x 0 (Node xr y 0 yr), True))"

text \<open>The loop \<open>while (--k > 0)\<close>: \<open>t\<close> has become lower, the frames are adjusted from it upwards.\<close>

fun delete_up :: "'a avl_node \<Rightarrow> 'a frame list \<Rightarrow> 'a avl_node outcome" where
  "delete_up t [] = Done t"
| "delete_up t ((False, yr, y, b) # fs) =
     (let yb = b + 1
      in if yb = 1 then Done (plug (Node t y yb yr) fs)
         else if yb = 2 then
           bindO (rotate_del_right t y yr) (\<lambda>(w, go). if go then delete_up w fs else Done (plug w fs))
         else delete_up (Node t y yb yr) fs)"
| "delete_up t ((True, yl, y, b) # fs) =
     (let yb = b - 1
      in if yb = -1 then Done (plug (Node yl y yb t) fs)
         else if yb = -2 then
           bindO (rotate_del_left yl y t) (\<lambda>(w, go). if go then delete_up w fs else Done (plug w fs))
         else delete_up (Node yl y yb t) fs)"

text \<open>Taking the node out: what stands in the gap, and the nodes above it.\<close>

fun delete_unlink :: "'a avl_node \<Rightarrow> 'a frame list \<Rightarrow> 'a avl_node \<times> 'a frame list" where
  "delete_unlink Leaf path = (Leaf, path)"
| "delete_unlink (Node l p b Leaf) path = (l, path)"
| "delete_unlink (Node l p b (Node rl r rb rr)) path =
     (case delete_succ rl r rb rr [] of
        (s, sr, fs) \<Rightarrow> (sr, fs @ (True, l, s, b) # path))"

definition avl_delete :: "'a avl_table \<Rightarrow> 'a \<Rightarrow> ('a option \<times> 'a avl_table) outcome" where
  "avl_delete tree item =
     bindO (delete_search (avl_compare tree) item (avl_root tree) []) (\<lambda>found. case found of
        None \<Rightarrow> Done (None, tree)
      | Some (p, path) \<Rightarrow>
          let (t, fs) = delete_unlink p path
          in if length fs \<ge> AVL_MAX_HEIGHT then Exit
             else bindO (delete_up t fs) (\<lambda>root.
               Done (Some (avl_data p),
                     tree\<lparr>avl_root := root, avl_count := avl_count tree - 1,
                          avl_generation := avl_generation tree + 1\<rparr>)))"

text \<open>
  \<open>avl_destroy\<close> rotates left subtrees away until the root has none, hands its data over and goes to
  its right subtree. The items are handed over in the order of the result.
\<close>

function avl_destroy_loop :: "'a avl_node \<Rightarrow> 'a list" where
  "avl_destroy_loop Leaf = []"
| "avl_destroy_loop (Node Leaf x b r) = x # avl_destroy_loop r"
| "avl_destroy_loop (Node (Node ql q qb qr) x b r) = avl_destroy_loop (Node ql q qb (Node qr x b r))"
  by pat_completeness auto

termination
  by (relation "measures [size, \<lambda>t. case t of Leaf \<Rightarrow> 0 | Node l x b r \<Rightarrow> size l]") auto

definition avl_destroy :: "'a avl_table \<Rightarrow> 'a list" where
  "avl_destroy tree = avl_destroy_loop (avl_root tree)"

section \<open>Shape: order and balance\<close>

fun inorder :: "'a avl_node \<Rightarrow> 'a list" where
  "inorder Leaf = []"
| "inorder (Node l x b r) = inorder l @ x # inorder r"

fun ht_of :: "'a avl_node \<Rightarrow> nat" where
  "ht_of Leaf = 0"
| "ht_of (Node l x b r) = max (ht_of l) (ht_of r) + 1"

text \<open>Every balance factor is the difference of the heights, at most 1.\<close>

fun avl :: "'a avl_node \<Rightarrow> bool" where
  "avl Leaf = True"
| "avl (Node l x b r) \<longleftrightarrow> avl l \<and> avl r \<and> b = int (ht_of r) - int (ht_of l) \<and> b \<in> {-1, 0, 1}"

text \<open>What stands left and right of the gap of a path.\<close>

fun before :: "'a frame list \<Rightarrow> 'a list" where
  "before [] = []"
| "before ((True, s, x, b) # fs) = before fs @ inorder s @ [x]"
| "before ((False, s, x, b) # fs) = before fs"

fun after :: "'a frame list \<Rightarrow> 'a list" where
  "after [] = []"
| "after ((True, s, x, b) # fs) = after fs"
| "after ((False, s, x, b) # fs) = x # inorder s @ after fs"

lemma inorder_plug: "inorder (plug t fs) = before fs @ inorder t @ after fs"
  by (induction t fs rule: plug.induct) simp_all

lemma plug_append: "plug t (fs @ gs) = plug (plug t fs) gs"
  by (induction t fs rule: plug.induct) simp_all

lemma before_append: "before (fs @ gs) = before gs @ before fs"
  by (induction fs rule: before.induct) simp_all

lemma after_append: "after (fs @ gs) = after fs @ after gs"
  by (induction fs rule: after.induct) simp_all

lemma ht_of_0 [simp]: "ht_of t = 0 \<longleftrightarrow> t = Leaf"
  by (cases t) auto

lemma length_inorder_0 [simp]: "inorder t = [] \<longleftrightarrow> t = Leaf"
  by (cases t) auto

lemma avl_plugD: "avl (plug t fs) \<Longrightarrow> avl t"
  by (induction t fs rule: plug.induct) simp_all

lemma plug_same_height:
  "avl (plug t fs) \<Longrightarrow> avl u \<Longrightarrow> ht_of u = ht_of t \<Longrightarrow>
   avl (plug u fs) \<and> ht_of (plug u fs) = ht_of (plug t fs)"
proof (induction t fs arbitrary: u rule: plug.induct)
  case (2 t s x b fs)
  from 2(2) have "avl (Node s x b t)" by (auto dest: avl_plugD)
  with 2(3,4) have "avl (Node s x b u)" "ht_of (Node s x b u) = ht_of (Node s x b t)" by auto
  then show ?case unfolding plug.simps by (rule 2(1) [OF 2(2) [unfolded plug.simps]])
next
  case (3 t s x b fs)
  from 3(2) have "avl (Node t x b s)" by (auto dest: avl_plugD)
  with 3(3,4) have "avl (Node u x b s)" "ht_of (Node u x b s) = ht_of (Node t x b s)" by auto
  then show ?case unfolding plug.simps by (rule 3(1) [OF 3(2) [unfolded plug.simps]])
qed simp

lemma path_le_ht: "ht_of t + length fs \<le> ht_of (plug t fs)"
  by (induction t fs rule: plug.induct) simp_all

subsection \<open>The order of the items\<close>

text \<open>
  The comparison function orders the items of a set as their keys. (The code's comparison is a
  difference of 32-bit numbers and orders only keys that are close enough, hence the set.)
\<close>

definition cmp_key :: "('a \<Rightarrow> 'a \<Rightarrow> int) \<Rightarrow> ('a \<Rightarrow> nat) \<Rightarrow> 'a set \<Rightarrow> bool" where
  "cmp_key compare key S \<longleftrightarrow> (\<forall>a\<in>S. \<forall>b\<in>S.
     (compare a b < 0 \<longleftrightarrow> key a < key b) \<and> (compare a b > 0 \<longleftrightarrow> key a > key b))"

definition key_sorted :: "('a \<Rightarrow> nat) \<Rightarrow> 'a list \<Rightarrow> bool" where
  "key_sorted key xs \<longleftrightarrow> sorted_wrt (<) (map key xs)"

lemma key_sorted_append:
  "key_sorted key (xs @ ys) \<longleftrightarrow> key_sorted key xs \<and> key_sorted key ys
     \<and> (\<forall>x\<in>set xs. \<forall>y\<in>set ys. key x < key y)"
  by (auto simp: key_sorted_def sorted_wrt_append)

lemma key_sorted_Cons:
  "key_sorted key (x # xs) \<longleftrightarrow> (\<forall>y\<in>set xs. key x < key y) \<and> key_sorted key xs"
  by (auto simp: key_sorted_def)

lemma key_sorted_Nil [simp]: "key_sorted key []"
  by (simp add: key_sorted_def)

lemmas key_sorted_simps = key_sorted_append key_sorted_Cons

lemma cmp_keyD:
  assumes "cmp_key compare key S" "a \<in> S" "b \<in> S"
  shows "compare a b < 0 \<longleftrightarrow> key a < key b" "compare a b > 0 \<longleftrightarrow> key a > key b"
    "compare a b = 0 \<longleftrightarrow> key a = key b"
  using assms unfolding cmp_key_def by (metis linorder_less_linear less_irrefl)+

lemma avl_find_from_key:
  "cmp_key compare key (insert item (set (inorder t))) \<Longrightarrow> key_sorted key (inorder t) \<Longrightarrow>
   avl_find_from compare item t = find (\<lambda>x. key x = key item) (inorder t)"
proof (induction t)
  case (Node l x b r)
  let ?S = "insert item (set (inorder (Node l x b r)))"
  note c = cmp_keyD [OF Node.prems(1), of item x]
  have sub: "cmp_key compare key (insert item (set (inorder l)))"
    "cmp_key compare key (insert item (set (inorder r)))"
    using Node.prems(1) by (auto simp: cmp_key_def)
  have o: "\<forall>y\<in>set (inorder l). key y < key x" "\<forall>y\<in>set (inorder r). key x < key y"
    "key_sorted key (inorder l)" "key_sorted key (inorder r)"
    using Node.prems(2) by (auto simp: key_sorted_simps)
  have nl: "find (\<lambda>x. key x = key item) (inorder l) = None" if "key item \<ge> key x"
    using o(1) that by (auto simp: find_None_iff)
  have nr: "find (\<lambda>x. key x = key item) (inorder r) = None" if "key item < key x"
    using o(2) that by (auto simp: find_None_iff)
  have app: "find P (xs @ ys) = (case find P xs of None \<Rightarrow> find P ys | Some z \<Rightarrow> Some z)" for P and xs ys :: "'a list"
    by (induction xs) auto
  consider "key item < key x" | "key item = key x" | "key item > key x" by linarith
  then show ?case
  proof cases
    case 1
    with c Node.IH(1) [OF sub(1) o(3)] nr show ?thesis by (auto simp: app split: option.splits)
  next
    case 2
    with c nl show ?thesis by (auto simp: app)
  next
    case 3
    with c Node.IH(2) [OF sub(2) o(4)] nl show ?thesis by (auto simp: app)
  qed
qed simp

lemma avl_find_from_sound:
  "avl_find_from compare item t = Some x \<Longrightarrow> x \<in> set (inorder t) \<and> compare item x = 0"
  by (induction t) (auto simp: Let_def split: if_splits)

subsection \<open>The descent of \<open>avl_probe\<close>\<close>

abbreviation frame_balance :: "'a frame \<Rightarrow> int" where
  "frame_balance f \<equiv> snd (snd (snd f))"

text \<open>Below \<open>y\<close> every balance is 0, and \<open>y\<close>'s is not unless \<open>y\<close> is the root.\<close>

definition probe_shape :: "'a frame list \<Rightarrow> 'a frame list \<Rightarrow> bool" where
  "probe_shape inner outer \<longleftrightarrow> (inner = [] \<longrightarrow> outer = [])
     \<and> (\<forall>f\<in>set (butlast inner). frame_balance f = 0)
     \<and> (inner \<noteq> [] \<longrightarrow> frame_balance (last inner) \<noteq> 0 \<or> outer = [])"

lemma probe_shape_push:
  "probe_shape inner outer \<Longrightarrow> b = 0 \<Longrightarrow> probe_shape ((d, s, x, b) # inner) outer"
  "b \<noteq> 0 \<Longrightarrow> probe_shape [(d, s, x, b)] outer'"
  by (auto simp: probe_shape_def)

lemma probe_descend_Found:
  "probe_descend compare item t inner outer = Found x \<Longrightarrow> x \<in> set (inorder t) \<and> compare item x = 0"
  by (induction compare item t inner outer rule: probe_descend.induct)
     (auto simp: Let_def split: if_splits)

lemma probe_descend_no_overrun:
  "length inner + ht_of t \<le> AVL_MAX_HEIGHT \<Longrightarrow> probe_descend compare item t inner outer \<noteq> Overrun"
proof (induction t arbitrary: inner outer)
  case (Node l x b r)
  from Node.prems have "length inner < AVL_MAX_HEIGHT" "length inner + 1 + ht_of l \<le> AVL_MAX_HEIGHT"
    "length inner + 1 + ht_of r \<le> AVL_MAX_HEIGHT" "1 + ht_of l \<le> AVL_MAX_HEIGHT" "1 + ht_of r \<le> AVL_MAX_HEIGHT"
    by auto
  then show ?case by (simp add: Let_def Node.IH)
qed simp

lemma probe_descend_plug:
  "probe_descend compare item t inner outer = Gap inner' outer' \<Longrightarrow> probe_shape inner outer \<Longrightarrow>
   plug Leaf (inner' @ outer') = plug t (inner @ outer) \<and> probe_shape inner' outer'"
proof (induction compare item t inner outer rule: probe_descend.induct)
  case (2 compare item l x b r inner outer)
  show ?case
  proof (cases "b = 0")
    case True
    with 2 show ?thesis by (auto simp: Let_def probe_shape_push split: if_splits)
  next
    case False
    with 2 show ?thesis by (auto simp: Let_def probe_shape_push split: if_splits)
  qed
qed simp

lemma probe_descend_order:
  assumes "cmp_key compare key S" "item \<in> S"
  shows "probe_descend compare item t inner outer = Gap inner' outer' \<Longrightarrow> set (inorder t) \<subseteq> S \<Longrightarrow>
   key_sorted key (inorder t) \<Longrightarrow>
   (\<forall>b\<in>set (before (inner @ outer)). key b < key item) \<and> (\<forall>a\<in>set (after (inner @ outer)). key item < key a) \<Longrightarrow>
   (\<forall>b\<in>set (before (inner' @ outer')). key b < key item) \<and> (\<forall>a\<in>set (after (inner' @ outer')). key item < key a)"
proof (induction t arbitrary: inner outer)
  case (Node l x b r)
  note c = cmp_keyD [OF assms(1) assms(2), of x]
  have x: "x \<in> S" and sub: "set (inorder l) \<subseteq> S" "set (inorder r) \<subseteq> S" using Node.prems(2) by auto
  have o: "\<forall>y\<in>set (inorder l). key y < key x" "\<forall>y\<in>set (inorder r). key x < key y"
    "key_sorted key (inorder l)" "key_sorted key (inorder r)"
    using Node.prems(3) by (auto simp: key_sorted_simps)
  let ?fs = "if b \<noteq> 0 then ([], inner @ outer) else (inner, outer)"
  have app: "fst ?fs @ snd ?fs = inner @ outer" by simp
  have ba: "before (fst ?fs @ snd ?fs) = before (inner @ outer)"
    "after (fst ?fs @ snd ?fs) = after (inner @ outer)" by simp_all
  show ?case
  proof (cases "compare item x > 0")
    case True
    have p: "probe_descend compare item r ((True, l, x, b) # fst ?fs) (snd ?fs) = Gap inner' outer'"
      using Node.prems(1) True by (auto simp: Let_def split: if_splits)
    have lt: "key x < key item" using c x True by auto
    show ?thesis
    proof (rule Node.IH(2) [OF p sub(2) o(4)])
      show "(\<forall>b'\<in>set (before (((True, l, x, b) # fst ?fs) @ snd ?fs)). key b' < key item)
        \<and> (\<forall>a\<in>set (after (((True, l, x, b) # fst ?fs) @ snd ?fs)). key item < key a)"
        using Node.prems(4) lt o(1) unfolding append_Cons before.simps after.simps app by fastforce
    qed
  next
    case False
    have ne: "compare item x \<noteq> 0" using Node.prems(1) by (auto simp: Let_def)
    have p: "probe_descend compare item l ((False, r, x, b) # fst ?fs) (snd ?fs) = Gap inner' outer'"
      using Node.prems(1) False ne by (auto simp: Let_def split: if_splits)
    have lt: "key item < key x" using c x False ne by auto
    show ?thesis
    proof (rule Node.IH(1) [OF p sub(1) o(3)])
      show "(\<forall>b'\<in>set (before (((False, r, x, b) # fst ?fs) @ snd ?fs)). key b' < key item)
        \<and> (\<forall>a\<in>set (after (((False, r, x, b) # fst ?fs) @ snd ?fs)). key item < key a)"
        using Node.prems(4) lt o(2) unfolding append_Cons before.simps after.simps app by fastforce
    qed
  qed
qed simp

subsection \<open>Insertion keeps the balance\<close>

lemma inorder_bump_path: "inorder (bump_path n fs) = before fs @ inorder n @ after fs"
  by (induction n fs rule: bump_path.induct) simp_all

text \<open>Below \<open>y\<close>: a path of balanced nodes whose lowest subtree has grown by one.\<close>

lemma bump_path_zero:
  "avl (plug t fs) \<Longrightarrow> avl n \<Longrightarrow> ht_of n = ht_of t + 1 \<Longrightarrow> \<forall>f\<in>set fs. frame_balance f = 0 \<Longrightarrow>
   avl (bump_path n fs) \<and> ht_of (bump_path n fs) = ht_of (plug t fs) + 1"
proof (induction n fs arbitrary: t rule: bump_path.induct)
  case (2 n s x b fs)
  from 2(2) have "avl (Node s x b t)" by (auto dest: avl_plugD)
  with 2 have "avl (Node s x (b + 1) n)" "ht_of (Node s x (b + 1) n) = ht_of (Node s x b t) + 1"
    by auto
  with 2 show ?case unfolding plug.simps bump_path.simps by (intro 2(1)) auto
next
  case (3 n s x b fs)
  from 3(2) have "avl (Node t x b s)" by (auto dest: avl_plugD)
  with 3 have "avl (Node n x (b - 1) s)" "ht_of (Node n x (b - 1) s) = ht_of (Node t x b s) + 1"
    by auto
  with 3 show ?case unfolding plug.simps bump_path.simps by (intro 3(1)) auto
qed simp

lemma bump_path_append: "bump_path n (fs @ gs) = bump_path (bump_path n fs) gs"
  by (induction n fs rule: bump_path.induct) simp_all

lemma frames_snocE:
  fixes fs :: "'a frame list"
  assumes "fs \<noteq> []"
  obtains gs d s x b where "fs = gs @ [(d, s, x, b)]"
  using assms by (cases fs rule: rev_cases) auto

text \<open>A subtree that a step of the path was taken in leans to the side of the step.\<close>

lemma bump_path_leans:
  assumes "fs \<noteq> []" "\<forall>f\<in>set fs. frame_balance f = 0"
  obtains l x b r where "bump_path n fs = Node l x b r" "b \<noteq> 0"
proof -
  obtain gs d s x b where fs: "fs = gs @ [(d, s, x, b)]"
    using frames_snocE [OF assms(1)] by metis
  with assms(2) have "b = 0" by simp
  with that show thesis by (cases d) (auto simp: fs bump_path_append)
qed

lemma rotate_ins_right:
  assumes "avl s" "avl n" "n = Node xl x xb xr" "xb \<noteq> 0" "ht_of n = ht_of s + 2"
  shows "\<exists>w. rotate_ins (Node s y 2 n) = Done (w, True) \<and> avl w \<and> ht_of w = ht_of s + 2
    \<and> inorder w = inorder s @ y # inorder n"
proof (cases "xb = 1")
  case True
  with assms show ?thesis by (auto simp: max_def split: if_splits)
next
  case False
  with assms have xb: "xb = -1" by auto
  with assms obtain wl w wb wr where xl: "xl = Node wl w wb wr" by (cases xl) auto
  show ?thesis using assms unfolding assms(3) xl xb
    by (auto simp: max_def split: if_splits)
qed

lemma rotate_ins_left:
  assumes "avl s" "avl n" "n = Node xl x xb xr" "xb \<noteq> 0" "ht_of n = ht_of s + 2"
  shows "\<exists>w. rotate_ins (Node n y (-2) s) = Done (w, True) \<and> avl w \<and> ht_of w = ht_of s + 2
    \<and> inorder w = inorder n @ y # inorder s"
proof (cases "xb = -1")
  case True
  with assms show ?thesis by (auto simp: max_def split: if_splits)
next
  case False
  with assms have xb: "xb = 1" by auto
  with assms obtain wl w wb wr where xr: "xr = Node wl w wb wr" by (cases xr) auto
  show ?thesis using assms unfolding assms(3) xr xb
    by (auto simp: max_def split: if_splits)
qed

lemma rotate_ins_none:
  "b \<noteq> 2 \<Longrightarrow> b \<noteq> -2 \<Longrightarrow> rotate_ins (Node l x b r) = Done (Node l x b r, False)"
  by simp

text \<open>At \<open>y\<close>: the rotation gives a balanced tree, as high as before unless \<open>y\<close> was level.\<close>

definition leans :: "'a avl_node \<Rightarrow> bool" where
  "leans t \<longleftrightarrow> (\<exists>l x b r. t = Node l x b r \<and> b \<noteq> 0)"

lemma rotate_at_right:
  assumes y: "avl (Node s y b t)" and n: "avl n" "ht_of n = ht_of t + 1" and l: "t \<noteq> Leaf \<Longrightarrow> leans n"
  shows "\<exists>w rot. rotate_ins (Node s y (b + 1) n) = Done (w, rot) \<and> avl w
    \<and> inorder w = inorder s @ y # inorder n \<and> (b \<noteq> 0 \<longrightarrow> ht_of w = ht_of (Node s y b t))"
proof -
  from y have b: "b = int (ht_of t) - int (ht_of s)" "b \<in> {-1, 0, 1}" "avl s" by auto
  show ?thesis
  proof (cases "b = 1")
    case True
    with b have "t \<noteq> Leaf" by auto
    from l [OF this] obtain xl x xb xr where x: "n = Node xl x xb xr" "xb \<noteq> 0"
      by (auto simp: leans_def)
    have "ht_of n = ht_of s + 2" using True b n by simp
    from rotate_ins_right [OF b(3) n(1) x this, of y] True b show ?thesis by auto
  next
    case False
    with b n show ?thesis by auto
  qed
qed

lemma rotate_at_left:
  assumes y: "avl (Node t y b s)" and n: "avl n" "ht_of n = ht_of t + 1" and l: "t \<noteq> Leaf \<Longrightarrow> leans n"
  shows "\<exists>w rot. rotate_ins (Node n y (b - 1) s) = Done (w, rot) \<and> avl w
    \<and> inorder w = inorder n @ y # inorder s \<and> (b \<noteq> 0 \<longrightarrow> ht_of w = ht_of (Node t y b s))"
proof -
  from y have b: "b = int (ht_of s) - int (ht_of t)" "b \<in> {-1, 0, 1}" "avl s" by auto
  show ?thesis
  proof (cases "b = -1")
    case True
    with b have "t \<noteq> Leaf" by auto
    from l [OF this] obtain xl x xb xr where x: "n = Node xl x xb xr" "xb \<noteq> 0"
      by (auto simp: leans_def)
    have "ht_of n = ht_of s + 2" using True b n by simp
    from rotate_ins_left [OF b(3) n(1) x this, of y] True b show ?thesis by auto
  next
    case False
    with b n show ?thesis by auto
  qed
qed

lemma insert_balance:
  assumes shape: "probe_shape inner outer" and ne: "inner \<noteq> []"
    and bal: "avl (plug Leaf (inner @ outer))"
  shows "\<exists>w rot. rotate_ins (bump_path (Node Leaf item 0 Leaf) inner) = Done (w, rot)
    \<and> avl (plug w outer) \<and> inorder w = before inner @ [item] @ after inner"
proof -
  let ?n = "Node Leaf item 0 Leaf"
  obtain zs d s y b where inner: "inner = zs @ [(d, s, y, b)]"
    using frames_snocE [OF ne] by metis
  have zero: "\<forall>f\<in>set zs. frame_balance f = 0" and out: "b \<noteq> 0 \<or> outer = []"
    using shape by (auto simp: probe_shape_def inner)
  let ?t = "plug Leaf zs" and ?b = "bump_path ?n zs"
  let ?y = "if d then Node s y b ?t else Node ?t y b s"
  have py: "plug Leaf (inner @ outer) = plug ?y outer" by (simp add: inner plug_append)
  have y: "avl ?y" using bal unfolding py by (rule avl_plugD)
  then have t: "avl ?t" by (auto split: if_splits)
  have nb: "avl ?b" "ht_of ?b = ht_of ?t + 1"
    using bump_path_zero [of Leaf zs ?n] t zero by auto
  have ord: "inorder ?b = before zs @ [item] @ after zs" by (simp add: inorder_bump_path)
  have l: "leans ?b" if "?t \<noteq> Leaf"
  proof -
    from that have "zs \<noteq> []" by auto
    then show ?thesis unfolding leans_def using bump_path_leans [OF _ zero] by metis
  qed
  obtain w rot where w: "rotate_ins (bump_path ?n inner) = Done (w, rot)" "avl w"
    "inorder w = before inner @ [item] @ after inner" "b \<noteq> 0 \<longrightarrow> ht_of w = ht_of ?y"
    using y rotate_at_right [OF _ nb l, of s y b] rotate_at_left [OF _ nb l, of y b s]
    by (cases d) (auto simp: inner bump_path_append before_append after_append ord)
  have "avl (plug w outer)"
    using out w(2,4) plug_same_height [OF bal [unfolded py], of w] by auto
  with w show ?thesis by auto
qed

lemma avl_probe_new:
  assumes bal: "avl (avl_root tree)" and ht: "ht_of (avl_root tree) \<le> AVL_MAX_HEIGHT"
    and key: "cmp_key (avl_compare tree) key (insert item (set (inorder (avl_root tree))))"
    and srt: "key_sorted key (inorder (avl_root tree))"
    and new: "\<forall>x\<in>set (inorder (avl_root tree)). key x \<noteq> key item"
  shows "\<exists>tree' pre post. avl_probe tree item = Done (Inr tree') \<and> avl (avl_root tree')
    \<and> avl_compare tree' = avl_compare tree \<and> avl_count tree' = avl_count tree + 1
    \<and> inorder (avl_root tree) = pre @ post \<and> inorder (avl_root tree') = pre @ item # post
    \<and> key_sorted key (inorder (avl_root tree'))"
proof -
  let ?S = "insert item (set (inorder (avl_root tree)))"
  let ?d = "probe_descend (avl_compare tree) item (avl_root tree) [] []"
  have "?d \<noteq> Found x" for x
    using probe_descend_Found [of "avl_compare tree" item "avl_root tree" "[]" "[]" x]
      cmp_keyD(3) [OF key, of item x] new by auto
  moreover have "?d \<noteq> Overrun" using probe_descend_no_overrun [of "[]" "avl_root tree"] ht by simp
  ultimately obtain inner outer where d: "?d = Gap inner outer" by (cases ?d) auto
  have p: "plug Leaf (inner @ outer) = avl_root tree" and sh: "probe_shape inner outer"
    using probe_descend_plug [OF d] by (auto simp: probe_shape_def)
  let ?pre = "before (inner @ outer)" and ?post = "after (inner @ outer)"
  have old: "inorder (avl_root tree) = ?pre @ ?post" using inorder_plug [of Leaf "inner @ outer"] p by simp
  have ks: "key_sorted key (?pre @ item # ?post)"
    using probe_descend_order [OF key _ d] srt unfolding old by (auto simp: key_sorted_simps)
  show ?thesis
  proof (cases "inner = []")
    case True
    then have "outer = []" using sh by (simp add: probe_shape_def)
    with True d old ks show ?thesis by (simp add: avl_probe_def Let_def key_sorted_def)
  next
    case False
    from insert_balance [OF sh False, of item] bal p obtain w rot where
      w: "rotate_ins (bump_path (Node Leaf item 0 Leaf) inner) = Done (w, rot)" "avl (plug w outer)"
        "inorder w = before inner @ [item] @ after inner" by auto
    then have "inorder (plug w outer) = ?pre @ item # ?post"
      by (simp add: inorder_plug before_append after_append)
    with d w False old ks show ?thesis
      by (intro exI [of _ "tree\<lparr>avl_count := avl_count tree + 1, avl_root := plug w outer,
          avl_generation := avl_generation tree + (if rot then 1 else 0)\<rparr>"] exI [of _ ?pre] exI [of _ ?post])
         (simp add: avl_probe_def Let_def)
  qed
qed

lemma probe_descend_find:
  "probe_descend compare item t inner outer \<noteq> Overrun \<Longrightarrow>
   (\<forall>x. probe_descend compare item t inner outer = Found x \<longleftrightarrow> avl_find_from compare item t = Some x)"
  by (induction t arbitrary: inner outer) (auto simp: Let_def split: if_splits)

lemma avl_probe_old:
  assumes ht: "ht_of (avl_root tree) \<le> AVL_MAX_HEIGHT"
    and key: "cmp_key (avl_compare tree) key (insert item (set (inorder (avl_root tree))))"
    and srt: "key_sorted key (inorder (avl_root tree))"
    and x: "x \<in> set (inorder (avl_root tree))" "key x = key item"
  shows "avl_probe tree item = Done (Inl x)"
proof -
  let ?d = "probe_descend (avl_compare tree) item (avl_root tree) [] []"
  have "find (\<lambda>x. key x = key item) (inorder (avl_root tree)) = Some x"
  proof -
    obtain ys zs where "inorder (avl_root tree) = ys @ x # zs" using x by (meson split_list)
    moreover from this srt x(2) have "\<forall>y\<in>set ys. key y \<noteq> key item" by (auto simp: key_sorted_simps)
    then have "find (\<lambda>x. key x = key item) (ys @ x # zs) = Some x"
      using x(2) by (induction ys) auto
    ultimately show ?thesis by simp
  qed
  with avl_find_from_key [OF key srt]
  have f: "avl_find_from (avl_compare tree) item (avl_root tree) = Some x" by simp
  have "?d \<noteq> Overrun" using probe_descend_no_overrun [of "[]" "avl_root tree"] ht by simp
  from probe_descend_find [OF this] f have "?d = Found x" by simp
  then show ?thesis by (simp add: avl_probe_def)
qed

subsection \<open>The arrays are long enough\<close>

fun min_nodes :: "nat \<Rightarrow> nat" where
  "min_nodes 0 = 0"
| "min_nodes (Suc 0) = 1"
| "min_nodes (Suc (Suc n)) = min_nodes (Suc n) + min_nodes n + 1"

lemma min_nodes_mono: "m \<le> n \<Longrightarrow> min_nodes m \<le> min_nodes n"
proof (rule lift_Suc_mono_le [of min_nodes])
  fix n show "min_nodes n \<le> min_nodes (Suc n)" by (induction n rule: min_nodes.induct) auto
qed

lemma min_nodes_le: "avl t \<Longrightarrow> min_nodes (ht_of t) \<le> length (inorder t)"
proof (induction t)
  case (Node l x b r)
  then have lr: "min_nodes (ht_of l) \<le> length (inorder l)" "min_nodes (ht_of r) \<le> length (inorder r)"
    and b: "b = int (ht_of r) - int (ht_of l)" "b \<in> {-1, 0, 1}" by auto
  let ?h = "max (ht_of l) (ht_of r)"
  have "min_nodes (Suc ?h) \<le> min_nodes (ht_of l) + min_nodes (ht_of r) + 1"
  proof (cases ?h)
    case (Suc k)
    with b consider "ht_of l = Suc k" "ht_of r = Suc k" | "ht_of l = Suc k" "ht_of r = k"
      | "ht_of l = k" "ht_of r = Suc k" by (auto simp: max_def split: if_splits)
    then show ?thesis
    proof cases
      case 1
      with min_nodes_mono [of k "Suc k"] Suc show ?thesis by simp
    qed (simp_all add: Suc)
  qed auto
  with lr show ?case by simp
qed simp

text \<open>5702886 is the least number of nodes of a balanced tree of height 32.\<close>

abbreviation AVL_MAX_NODES :: nat where "AVL_MAX_NODES \<equiv> 5702886"

lemma min_nodes_8:
  "min_nodes (n + 8) = 21 * min_nodes (n + 1) + 13 * min_nodes n + 33"
  "min_nodes (n + 9) = 34 * min_nodes (n + 1) + 21 * min_nodes n + 54"
  by (simp_all add: eval_nat_numeral)

lemma min_nodes_32: "min_nodes 32 = AVL_MAX_NODES"
  using min_nodes_8 [of 0] min_nodes_8 [of 8] min_nodes_8 [of 16] min_nodes_8(1) [of 24] by simp

lemma avl_height_bound:
  assumes "avl t" "length (inorder t) < AVL_MAX_NODES"
  shows "ht_of t < AVL_MAX_HEIGHT"
proof (rule ccontr)
  assume "\<not> ht_of t < AVL_MAX_HEIGHT"
  then have "min_nodes 32 \<le> min_nodes (ht_of t)" by (intro min_nodes_mono) simp
  with min_nodes_le [OF assms(1)] assms(2) show False by (simp add: min_nodes_32)
qed

subsection \<open>Deletion keeps the balance\<close>

lemma rotate_del_right_ok:
  assumes "avl yl" "avl yr" "ht_of yr = ht_of yl + 2"
  shows "\<exists>w go. rotate_del_right yl y yr = Done (w, go) \<and> avl w
    \<and> ht_of w = (if go then ht_of yr else ht_of yr + 1) \<and> inorder w = inorder yl @ y # inorder yr"
proof -
  obtain xl x xb xr where yr: "yr = Node xl x xb xr" using assms(3) by (cases yr) auto
  show ?thesis
  proof (cases "xb = -1")
    case True
    with assms obtain wl w wb wr where "xl = Node wl w wb wr" unfolding yr by (cases xl) auto
    with assms True show ?thesis unfolding yr by (auto simp: max_def split: if_splits)
  next
    case False
    with assms consider "xb = 0" | "xb = 1" unfolding yr by auto
    then show ?thesis
      using assms unfolding yr by cases (auto simp: max_def split: if_splits)
  qed
qed

lemma rotate_del_left_ok:
  assumes "avl yl" "avl yr" "ht_of yl = ht_of yr + 2"
  shows "\<exists>w go. rotate_del_left yl y yr = Done (w, go) \<and> avl w
    \<and> ht_of w = (if go then ht_of yl else ht_of yl + 1) \<and> inorder w = inorder yl @ y # inorder yr"
proof -
  obtain xl x xb xr where yl: "yl = Node xl x xb xr" using assms(3) by (cases yl) auto
  show ?thesis
  proof (cases "xb = 1")
    case True
    with assms obtain wl w wb wr where xr: "xr = Node wl w wb wr" unfolding yl by (cases xr) auto
    with assms consider "wb = 0" | "wb = 1" | "wb = -1" unfolding yl by auto
    then show ?thesis
      using assms True unfolding yl xr by cases (auto simp: max_def split: if_splits)
  next
    case False
    with assms consider "xb = 0" | "xb = -1" unfolding yl by auto
    then show ?thesis
      using assms unfolding yl by cases (auto simp: max_def split: if_splits)
  qed
qed

lemma delete_up_ok:
  "avl (plug t0 fs) \<Longrightarrow> avl t \<Longrightarrow> ht_of t0 = ht_of t + 1 \<Longrightarrow>
   \<exists>u. delete_up t fs = Done u \<and> avl u \<and> inorder u = before fs @ inorder t @ after fs"
proof (induction t fs arbitrary: t0 rule: delete_up.induct)
  case (2 t yr y b fs)
  let ?y = "Node t0 y b yr"
  have p: "avl (plug ?y fs)" using 2(3) by simp
  then have y: "avl ?y" by (rule avl_plugD)
  note same = plug_same_height [OF p]
  consider "b = 0" | "b = 1" | "b = -1" using y by auto
  then show ?case
  proof cases
    case 1
    with 2 y same [of "Node t y 1 yr"] show ?thesis by (auto simp: inorder_plug)
  next
    case 2
    then have "ht_of yr = ht_of t + 2" using y \<open>ht_of t0 = ht_of t + 1\<close> by auto
    from rotate_del_right_ok [OF \<open>avl t\<close> _ this, of y] y obtain w go where
      w: "rotate_del_right t y yr = Done (w, go)" "avl w" "ht_of w = (if go then ht_of yr else ht_of yr + 1)"
        "inorder w = inorder t @ y # inorder yr" by auto
    have hy: "ht_of ?y = ht_of yr + 1" using 2 y by auto
    show ?thesis
    proof (cases go)
      case True
      with 2 w hy p show ?thesis using "2.IH"(1) [of 2 "(w, True)" w True ?y] by simp
    next
      case False
      with 2 w hy same [of w] show ?thesis by (simp add: inorder_plug)
    qed
  next
    case 3
    then have "avl (Node t y 0 yr)" "ht_of ?y = ht_of (Node t y 0 yr) + 1" using y 2 by auto
    with 3 p show ?thesis using "2.IH"(2) [of 0 ?y] by simp
  qed
next
  case (3 t yl y b fs)
  let ?y = "Node yl y b t0"
  have p: "avl (plug ?y fs)" using 3(3) by simp
  then have y: "avl ?y" by (rule avl_plugD)
  note same = plug_same_height [OF p]
  consider "b = 0" | "b = -1" | "b = 1" using y by auto
  then show ?case
  proof cases
    case 1
    with 3 y same [of "Node yl y (-1) t"] show ?thesis by (auto simp: inorder_plug)
  next
    case 2
    then have "ht_of yl = ht_of t + 2" using y \<open>ht_of t0 = ht_of t + 1\<close> by auto
    from rotate_del_left_ok [OF _ \<open>avl t\<close> this, of y] y obtain w go where
      w: "rotate_del_left yl y t = Done (w, go)" "avl w" "ht_of w = (if go then ht_of yl else ht_of yl + 1)"
        "inorder w = inorder yl @ y # inorder t" by auto
    have hy: "ht_of ?y = ht_of yl + 1" using 2 y by auto
    show ?thesis
    proof (cases go)
      case True
      with 2 w hy p show ?thesis using "3.IH"(1) [of "-2" "(w, True)" w True ?y] by simp
    next
      case False
      with 2 w hy same [of w] show ?thesis by (simp add: inorder_plug)
    qed
  next
    case 3
    then have "avl (Node yl y 0 t)" "ht_of ?y = ht_of (Node yl y 0 t) + 1" using y \<open>ht_of t0 = ht_of t + 1\<close> \<open>avl t\<close> by auto
    with 3 p show ?thesis using "3.IH"(2) [of 0 ?y] by simp
  qed
qed simp

subsection \<open>\<open>avl_delete\<close>\<close>

lemma delete_search_ok:
  "length path + ht_of t < AVL_MAX_HEIGHT \<Longrightarrow>
   (case avl_find_from compare item t of
      None \<Rightarrow> delete_search compare item t path = Done None
    | Some x \<Rightarrow> \<exists>l b r path'. delete_search compare item t path = Done (Some (Node l x b r, path'))
        \<and> plug (Node l x b r) path' = plug t path)"
proof (induction t arbitrary: path)
  case (Node l x b r)
  have lt: "length ((d, s, x, b) # path) + ht_of l < AVL_MAX_HEIGHT"
    "length ((d, s, x, b) # path) + ht_of r < AVL_MAX_HEIGHT" for d :: bool and s :: "'a avl_node"
    using Node.prems by auto
  show ?case
    using Node.IH(1) [OF lt(1), of False r] Node.IH(2) [OF lt(2), of True l] Node.prems
    by (auto simp: Let_def split: option.splits)
qed simp

lemma delete_succ_ok:
  "delete_succ xl x b r fs = (s, sr, fs') \<Longrightarrow>
   \<exists>sb. plug (Node Leaf s sb sr) fs' = plug (Node xl x b r) fs \<and> before fs' = before fs"
  by (induction xl x b r fs rule: delete_succ.induct) auto

lemma delete_unlink_ok:
  assumes bal: "avl (plug (Node l x b r) path)" and u: "delete_unlink (Node l x b r) path = (t, fs)"
  shows "\<exists>t0. avl (plug t0 fs) \<and> ht_of (plug t0 fs) = ht_of (plug (Node l x b r) path)
    \<and> ht_of t0 = ht_of t + 1 \<and> avl t
    \<and> before fs @ inorder t @ after fs = before path @ inorder l @ inorder r @ after path"
proof (cases r)
  case Leaf
  with u have "t = l" "fs = path" by auto
  with Leaf bal avl_plugD [OF bal] show ?thesis by (intro exI [of _ "Node l x b r"]) auto
next
  case (Node rl y rb rr)
  obtain s sr gs where d: "delete_succ rl y rb rr [] = (s, sr, gs)" by (metis prod_cases3)
  with Node u have t: "t = sr" "fs = gs @ (True, l, s, b) # path" by auto
  obtain sb where s: "plug (Node Leaf s sb sr) gs = r" "before gs = []"
    using delete_succ_ok [OF d] Node by auto
  let ?t0 = "Node Leaf s sb sr"
  have pl: "plug ?t0 fs = plug (Node l s b r) path" by (simp add: t plug_append s)
  have n: "avl (Node l x b r)" using bal by (rule avl_plugD)
  then have "avl (Node l s b r)" "ht_of (Node l s b r) = ht_of (Node l x b r)" by auto
  from plug_same_height [OF bal this] pl
  have "avl (plug ?t0 fs)" "ht_of (plug ?t0 fs) = ht_of (plug (Node l x b r) path)" by simp_all
  moreover have "avl sr" using \<open>avl (plug ?t0 fs)\<close> by (auto dest: avl_plugD)
  moreover have "inorder r = s # inorder sr @ after gs"
    using inorder_plug [of ?t0 gs] s by simp
  then have "before fs @ inorder t @ after fs = before path @ inorder l @ inorder r @ after path"
    by (simp add: t before_append after_append s)
  ultimately show ?thesis using t by (intro exI [of _ ?t0]) auto
qed

lemma avl_delete_found:
  assumes bal: "avl (avl_root tree)" and ht: "ht_of (avl_root tree) < AVL_MAX_HEIGHT"
    and f: "avl_find tree item = Some x"
  shows "\<exists>tree' pre post. avl_delete tree item = Done (Some x, tree') \<and> avl (avl_root tree')
    \<and> avl_compare tree' = avl_compare tree \<and> avl_count tree' = avl_count tree - 1
    \<and> inorder (avl_root tree) = pre @ x # post \<and> inorder (avl_root tree') = pre @ post"
proof -
  from ht have "length ([] :: 'a frame list) + ht_of (avl_root tree) < AVL_MAX_HEIGHT" by simp
  from delete_search_ok [OF this, of "avl_compare tree" item] f
  obtain l b r path where
    s: "delete_search (avl_compare tree) item (avl_root tree) [] = Done (Some (Node l x b r, path))"
    and p: "plug (Node l x b r) path = avl_root tree" by (auto simp: avl_find_def)
  obtain t fs where u: "delete_unlink (Node l x b r) path = (t, fs)" by force
  from delete_unlink_ok [OF _ u] bal p obtain t0 where
    t0: "avl (plug t0 fs)" "ht_of (plug t0 fs) = ht_of (avl_root tree)" "ht_of t0 = ht_of t + 1" "avl t"
      "before fs @ inorder t @ after fs = before path @ inorder l @ inorder r @ after path" by auto
  from delete_up_ok [OF t0(1,4,3)] obtain u where
    "delete_up t fs = Done u" "avl u" "inorder u = before fs @ inorder t @ after fs" by auto
  moreover have "length fs < AVL_MAX_HEIGHT" using path_le_ht [of t0 fs] t0(2,3) ht by simp
  moreover have "inorder (avl_root tree) = (before path @ inorder l) @ x # (inorder r @ after path)"
    using inorder_plug [of "Node l x b r" path] p by simp
  ultimately show ?thesis
    using s u t0(5) by (intro exI [of _ "tree\<lparr>avl_root := u, avl_count := avl_count tree - 1,
        avl_generation := avl_generation tree + 1\<rparr>"] exI [of _ "before path @ inorder l"]
        exI [of _ "inorder r @ after path"]) (simp add: avl_delete_def)
qed

lemma avl_delete_missing:
  assumes "ht_of (avl_root tree) < AVL_MAX_HEIGHT" "avl_find tree item = None"
  shows "avl_delete tree item = Done (None, tree)"
proof -
  from assms(1) have "length ([] :: 'a frame list) + ht_of (avl_root tree) < AVL_MAX_HEIGHT" by simp
  from delete_search_ok [OF this, of "avl_compare tree" item] assms(2)
  show ?thesis by (simp add: avl_find_def avl_delete_def)
qed

lemma avl_destroy_loop_inorder: "avl_destroy_loop t = inorder t"
  by (induction t rule: avl_destroy_loop.induct) simp_all

section \<open>The table as a set of items with distinct keys\<close>

text \<open>
  The invariant: balanced, in order, the count right. \<open>S\<close> is a set of items that the comparison
  function orders by \<open>key\<close>.
\<close>

definition avl_ok :: "('a \<Rightarrow> nat) \<Rightarrow> 'a set \<Rightarrow> 'a avl_table \<Rightarrow> bool" where
  "avl_ok key S tree \<longleftrightarrow> avl (avl_root tree) \<and> key_sorted key (inorder (avl_root tree))
     \<and> set (inorder (avl_root tree)) \<subseteq> S \<and> cmp_key (avl_compare tree) key S
     \<and> avl_count tree = of_nat (length (inorder (avl_root tree)))"

definition avl_items :: "'a avl_table \<Rightarrow> 'a set" where
  "avl_items tree = set (inorder (avl_root tree))"

definition avl_room :: "'a avl_table \<Rightarrow> bool" where
  "avl_room tree \<longleftrightarrow> length (inorder (avl_root tree)) < AVL_MAX_NODES"

lemma cmp_key_subset: "cmp_key compare key S \<Longrightarrow> T \<subseteq> S \<Longrightarrow> cmp_key compare key T"
  by (auto simp: cmp_key_def)

lemma key_sorted_inj: "key_sorted key xs \<Longrightarrow> inj_on key (set xs) \<and> distinct xs"
  by (induction xs) (auto simp: key_sorted_Cons)

lemma avl_ok_cmp:
  "avl_ok key S tree \<Longrightarrow> item \<in> S \<Longrightarrow>
   cmp_key (avl_compare tree) key (insert item (set (inorder (avl_root tree))))"
  by (rule cmp_key_subset [of _ _ S]) (auto simp: avl_ok_def)

lemma avl_ok_height: "avl_ok key S tree \<Longrightarrow> avl_room tree \<Longrightarrow> ht_of (avl_root tree) < AVL_MAX_HEIGHT"
  by (simp add: avl_ok_def avl_room_def avl_height_bound)

lemma avl_ok_card: "avl_ok key S tree \<Longrightarrow> card (avl_items tree) = length (inorder (avl_root tree))"
  using key_sorted_inj [of key "inorder (avl_root tree)"]
  by (auto simp: avl_ok_def avl_items_def distinct_card)

lemma find_key_Some:
  "key_sorted key xs \<Longrightarrow> find (\<lambda>x. key x = k) xs = Some x \<longleftrightarrow> x \<in> set xs \<and> key x = k"
  by (induction xs) (auto simp: key_sorted_Cons)

lemma avl_find_ok:
  assumes "avl_ok key S tree" "item \<in> S"
  shows "avl_find tree item = Some x \<longleftrightarrow> x \<in> avl_items tree \<and> key x = key item"
  using avl_find_from_key [OF avl_ok_cmp [OF assms]] assms
    find_key_Some [of key "inorder (avl_root tree)" "key item" x]
  by (simp add: avl_find_def avl_ok_def avl_items_def)

lemma avl_insert_new:
  assumes ok: "avl_ok key S tree" and room: "avl_room tree" and item: "item \<in> S"
    and new: "\<forall>x\<in>avl_items tree. key x \<noteq> key item"
  shows "\<exists>tree'. avl_insert tree item = Done (None, tree') \<and> avl_ok key S tree'
    \<and> avl_items tree' = insert item (avl_items tree) \<and> avl_compare tree' = avl_compare tree"
proof -
  have "avl (avl_root tree)" "key_sorted key (inorder (avl_root tree))" using ok by (simp_all add: avl_ok_def)
  moreover have "ht_of (avl_root tree) \<le> AVL_MAX_HEIGHT" using avl_ok_height [OF ok room] by simp
  ultimately obtain tree' pre post where t: "avl_probe tree item = Done (Inr tree')" "avl (avl_root tree')"
      "avl_compare tree' = avl_compare tree" "avl_count tree' = avl_count tree + 1"
      "inorder (avl_root tree) = pre @ post" "inorder (avl_root tree') = pre @ item # post"
      "key_sorted key (inorder (avl_root tree'))"
    using avl_probe_new [OF _ _ avl_ok_cmp [OF ok item]] new unfolding avl_items_def by metis
  with ok item show ?thesis
    by (auto simp: avl_insert_def avl_ok_def avl_items_def)
qed

lemma avl_insert_dup:
  assumes ok: "avl_ok key S tree" and room: "avl_room tree" and item: "item \<in> S"
    and x: "x \<in> avl_items tree" "key x = key item"
  shows "avl_insert tree item = Done (if x = item then None else Some x, tree)"
  using avl_probe_old [OF _ avl_ok_cmp [OF ok item], of x] ok x avl_ok_height [OF ok room]
  by (simp add: avl_insert_def avl_ok_def avl_items_def)

lemma avl_delete_old:
  assumes ok: "avl_ok key S tree" and room: "avl_room tree" and f: "avl_find tree item = Some x"
  shows "\<exists>tree'. avl_delete tree item = Done (Some x, tree') \<and> avl_ok key S tree'
    \<and> avl_items tree' = avl_items tree - {x} \<and> avl_compare tree' = avl_compare tree"
proof -
  from avl_delete_found [OF _ avl_ok_height [OF ok room] f] ok obtain tree' pre post where
    t: "avl_delete tree item = Done (Some x, tree')" "avl (avl_root tree')"
      "avl_compare tree' = avl_compare tree" "avl_count tree' = avl_count tree - 1"
      "inorder (avl_root tree) = pre @ x # post" "inorder (avl_root tree') = pre @ post"
    by (auto simp: avl_ok_def)
  moreover have "key_sorted key (pre @ x # post)" "set (pre @ x # post) \<subseteq> S"
    using ok t(5) by (simp_all add: avl_ok_def)
  ultimately show ?thesis using ok key_sorted_inj [of key "pre @ x # post"]
    by (auto simp: avl_ok_def avl_items_def key_sorted_simps)
qed

lemma avl_create_ok: "cmp_key compare key S \<Longrightarrow> avl_ok key S (avl_create compare)"
  by (simp add: avl_ok_def avl_create_def)

section \<open>Properties\<close>

text \<open>
  C5. Insertion in a balanced, ordered table of fewer than 5702886 items neither follows a null link
  nor overruns the array of directions: it returns the item with the same key, if there is one, and
  leaves the table alone, or adds the item; the table stays balanced and ordered, and searches find
  exactly the items it holds.
\<close>

theorem avl_insert_correct:
  assumes "avl_ok key S tree" and "avl_room tree" and "item \<in> S"
  shows "\<exists>r tree'. avl_insert tree item = Done (r, tree') \<and> avl_ok key S tree'
    \<and> (if \<exists>x\<in>avl_items tree. key x = key item
        then tree' = tree \<and> (\<exists>x\<in>avl_items tree. key x = key item \<and> r = (if x = item then None else Some x))
        else r = None \<and> avl_items tree' = insert item (avl_items tree))
    \<and> (\<forall>j\<in>S. \<forall>x. avl_find tree' j = Some x \<longleftrightarrow> x \<in> avl_items tree' \<and> key x = key j)"
proof (cases "\<exists>x\<in>avl_items tree. key x = key item")
  case True
  then obtain x where "x \<in> avl_items tree" "key x = key item" by auto
  with avl_insert_dup [OF assms this] assms avl_find_ok [of key S tree] show ?thesis by auto
next
  case False
  with avl_insert_new [OF assms] obtain tree' where
    "avl_insert tree item = Done (None, tree')" "avl_ok key S tree'"
    "avl_items tree' = insert item (avl_items tree)" by auto
  with False avl_find_ok [of key S tree'] show ?thesis by auto
qed

text \<open>
  C6. Deletion under the same bound removes the item with the given key and returns it, or reports
  that there is none and changes nothing; no array is overrun, and the table stays balanced and
  ordered.
\<close>

theorem avl_delete_correct:
  assumes "avl_ok key S tree" and "avl_room tree" and "item \<in> S"
  shows "\<exists>tree'. avl_delete tree item = Done (avl_find tree item, tree') \<and> avl_ok key S tree'
    \<and> avl_items tree' = {x \<in> avl_items tree. key x \<noteq> key item}"
proof (cases "avl_find tree item")
  case None
  then have "{x \<in> avl_items tree. key x \<noteq> key item} = avl_items tree"
    using avl_find_ok [OF assms(1,3)] by auto
  with avl_delete_missing [OF avl_ok_height [OF assms(1,2)] None] None assms(1) show ?thesis by auto
next
  case (Some x)
  with avl_find_ok [OF assms(1,3)] have x: "x \<in> avl_items tree" "key x = key item" by auto
  have "inj_on key (avl_items tree)"
    using assms(1) key_sorted_inj unfolding avl_ok_def avl_items_def by blast
  with x have "avl_items tree - {x} = {x \<in> avl_items tree. key x \<noteq> key item}"
    by (auto simp: inj_on_def)
  with avl_delete_old [OF assms(1,2) Some] Some show ?thesis by auto
qed

text \<open>
  C7. Destroying a table hands every item to the destructor exactly once, in ascending order; the
  loop that rotates the left subtrees away ends.
\<close>

theorem avl_destroy_in_order: "avl_destroy tree = inorder (avl_root tree)"
  by (simp add: avl_destroy_def avl_destroy_loop_inorder)

abbreviation compare_nat :: "nat \<Rightarrow> nat \<Rightarrow> int" where
  "compare_nat a b \<equiv> int a - int b"

lemma avl_example_ok: "avl_ok id UNIV (avl_create compare_nat)"
  by (rule avl_create_ok) (auto simp: cmp_key_def)

theorem avl_insert_correct_witness:
  "\<exists>tree'. avl_insert (avl_create compare_nat) 5 = Done (None, tree') \<and> avl_ok id UNIV tree'
    \<and> avl_items tree' = {5} \<and> avl_find tree' 5 = Some 5"
  using avl_insert_correct [OF avl_example_ok, of 5]
  by (auto simp: avl_room_def avl_create_def avl_items_def)

theorem avl_delete_correct_witness:
  "let tree = \<lparr>avl_root = Node (Node Leaf 1 0 Leaf) (3 :: nat) 1 (Node Leaf 5 1 (Node Leaf 7 0 Leaf)),
     avl_compare = compare_nat, avl_count = 4, avl_generation = 0\<rparr>
   in \<exists>tree'. avl_delete tree 1 = Done (Some 1, tree') \<and> avl_ok id UNIV tree' \<and> avl_items tree' = {3, 5, 7}"
proof -
  let ?t = "\<lparr>avl_root = Node (Node Leaf 1 0 Leaf) (3 :: nat) 1 (Node Leaf 5 1 (Node Leaf 7 0 Leaf)),
     avl_compare = compare_nat, avl_count = 4, avl_generation = 0\<rparr>"
  have "avl_ok id UNIV ?t" by (auto simp: avl_ok_def cmp_key_def key_sorted_def)
  from avl_delete_correct [OF this, of 1] show ?thesis
    by (auto simp: avl_room_def avl_items_def avl_find_def Let_def) 
qed

end
