(* ===== verification/Iw_Mem.thy ===== *)
theory Iw_Mem
  imports Iw_Avl
begin

text \<open>
  Memory registration and steering tags (\<open>iwarp/mem.c\<close>, \<open>iwarp/mem.h\<close>): the table of registered
  regions, the tree of live tags, and the check that DDP makes before it places a tagged segment.
  A pointer into the region table is the identity of the array it points into and an index, so that
  a descriptor handed out before the table was enlarged is told from one of the new table; the
  descriptor of a tag carries the identity of its allocation, and the list that hangs off a region
  is the list of those identities. The tag comparison is the C subtraction of two 32-bit integers.
\<close>

section \<open>Data\<close>

type_synonym stag = u32
type_synonym mem_desc = "nat \<times> nat"

abbreviation STAG_R :: u32 where "STAG_R \<equiv> 1"
abbreviation STAG_W :: u32 where "STAG_W \<equiv> 2"
abbreviation STAG_RW :: u32 where "STAG_RW \<equiv> 3"

record stag_desc =
  sd_ptr :: nat
  sd_mr :: mem_desc
  sd_start :: u64
  sd_end :: u64
  sd_stag :: stag
  sd_sk :: u32
  sd_rw :: u32
  sd_pd :: u32

record mem_region =
  mr_addr :: u64
  mr_len :: u64
  mr_valid :: bool
  mr_stags :: "nat list"

text \<open>The variables of the file; \<open>next_alloc\<close> names the next allocation.\<close>

record mem_state =
  mem_region_id :: nat
  mem_regions :: "mem_region list"
  stag_avl :: "stag_desc avl_table"
  stag_next_counter :: stag
  next_alloc :: nat

definition mem_avl_stag_comp :: "stag_desc \<Rightarrow> stag_desc \<Rightarrow> int" where
  "mem_avl_stag_comp a b = sint (sd_stag a - sd_stag b)"

text \<open>\<open>stag_desc_t sdtest = { .stag = stag }\<close>\<close>

definition sdtest :: "stag \<Rightarrow> stag_desc" where
  "sdtest stag = \<lparr>sd_ptr = 0, sd_mr = (0, 0), sd_start = 0, sd_end = 0, sd_stag = stag, sd_sk = 0,
     sd_rw = 0, sd_pd = 0\<rparr>"

section \<open>Operations\<close>

definition mem_init :: mem_state where
  "mem_init = \<lparr>mem_region_id = 0, mem_regions = [], stag_avl = avl_create mem_avl_stag_comp,
     stag_next_counter = 1, next_alloc = 1\<rparr>"

fun first_free :: "mem_region list \<Rightarrow> nat" where
  "first_free [] = 0"
| "first_free (r # rs) = (if \<not> mr_valid r then 0 else Suc (first_free rs))"

text \<open>A region that the enlarged table does not use yet; only its \<open>valid\<close> is written.\<close>

definition unused_region :: mem_region where
  "unused_region = \<lparr>mr_addr = 0, mr_len = 0, mr_valid = False, mr_stags = []\<rparr>"

definition mem_enlarge :: "mem_state \<Rightarrow> mem_state" where
  "mem_enlarge m = m\<lparr>mem_region_id := next_alloc m, next_alloc := next_alloc m + 1,
     mem_regions := mem_regions m @ replicate 10 unused_region\<rparr>"

definition mem_register :: "u64 \<Rightarrow> u64 \<Rightarrow> mem_state \<Rightarrow> mem_desc \<times> mem_state" where
  "mem_register addr len m =
     (let i = first_free (mem_regions m);
          m = (if i = length (mem_regions m) then mem_enlarge m else m);
          mr = \<lparr>mr_addr = addr, mr_len = len, mr_valid = True, mr_stags = []\<rparr>
      in ((mem_region_id m, i), m\<lparr>mem_regions := (mem_regions m)[i := mr]\<rparr>))"

definition mr_from_md :: "mem_desc \<Rightarrow> mem_state \<Rightarrow> mem_region option" where
  "mr_from_md md m =
     (if fst md = mem_region_id m \<and> snd md < length (mem_regions m)
      then Some (mem_regions m ! snd md) else None)"

definition mem_deregister :: "mem_desc \<Rightarrow> mem_state \<Rightarrow> int \<times> mem_state" where
  "mem_deregister md m =
     (case mr_from_md md m of
        None \<Rightarrow> (- EINVAL, m)
      | Some mr \<Rightarrow>
          if mr_stags mr \<noteq> [] then (- EBUSY, m)
          else (0, m\<lparr>mem_regions := (mem_regions m)[snd md := mr\<lparr>mr_valid := False\<rparr>]\<rparr>))"

text \<open>
  \<open>while (avl_insert(stag_avl, sd)) sd->stag = stag_next_counter++\<close>. The tags tried are consecutive,
  and a tree of \<open>n\<close> items holds at most \<open>n\<close> of them, so that \<open>n + 1\<close> attempts are enough.
\<close>

fun stag_insert_loop :: "nat \<Rightarrow> stag_desc \<Rightarrow> stag \<Rightarrow> stag_desc avl_table
    \<Rightarrow> (stag_desc \<times> stag \<times> stag_desc avl_table) outcome" where
  "stag_insert_loop 0 sd ctr tree = Exit"
| "stag_insert_loop (Suc n) sd ctr tree = bindO (avl_insert tree sd) (\<lambda>(dup, tree').
     case dup of
       None \<Rightarrow> Done (sd, ctr, tree')
     | Some _ \<Rightarrow> stag_insert_loop n (sd\<lparr>sd_stag := ctr\<rparr>) (ctr + 1) tree')"

definition mem_stag_create :: "u32 \<Rightarrow> mem_desc \<Rightarrow> u64 \<Rightarrow> u64 \<Rightarrow> u32 \<Rightarrow> u32 \<Rightarrow> mem_state
    \<Rightarrow> (stag \<times> mem_state) outcome" where
  "mem_stag_create sk md start end rw prot_domain m =
     (case mr_from_md md m of
        None \<Rightarrow> Done (of_int (- EINVAL), m)
      | Some mr \<Rightarrow>
          if start \<ge> end then Done (of_int (- EINVAL), m)
          else if end > mr_len mr then Done (of_int (- EINVAL), m)
          else
            let p = next_alloc m;
                m = m\<lparr>next_alloc := p + 1,
                      mem_regions := (mem_regions m)[snd md := mr\<lparr>mr_stags := p # mr_stags mr\<rparr>]\<rparr>;
                buffer_start = mr_addr mr;
                sd = \<lparr>sd_ptr = p, sd_mr = md, sd_start = buffer_start + start, sd_end = buffer_start + end,
                      sd_stag = stag_next_counter m, sd_sk = sk, sd_rw = rw, sd_pd = prot_domain\<rparr>
            in bindO (stag_insert_loop (length (inorder (avl_root (stag_avl m))) + 1) sd
                        (stag_next_counter m + 1) (stag_avl m))
                 (\<lambda>(sd, ctr, tree). Done (sd_stag sd, m\<lparr>stag_next_counter := ctr, stag_avl := tree\<rparr>)))"

text \<open>
  \<open>mem_stag_destroy\<close> unlinks the descriptor from its region through \<open>sd->mr\<close>; when that pointer is
  into a table that has since been freed, the access is undefined.
\<close>

definition mem_stag_destroy :: "stag \<Rightarrow> mem_state \<Rightarrow> (int \<times> mem_state) outcome" where
  "mem_stag_destroy stag m =
     bindO (avl_delete (stag_avl m) (sdtest stag)) (\<lambda>(found, tree). case found of
        None \<Rightarrow> Done (- EINVAL, m)
      | Some sd \<Rightarrow>
          case mr_from_md (sd_mr sd) m of
            None \<Rightarrow> Exit
          | Some mr \<Rightarrow>
              let mr' = mr\<lparr>mr_stags := remove1 (sd_ptr sd) (mr_stags mr)\<rparr>
              in Done (0, m\<lparr>stag_avl := tree, mem_regions := (mem_regions m)[snd (sd_mr sd) := mr']\<rparr>))"

definition mem_stag_is_enabled :: "stag \<Rightarrow> mem_state \<Rightarrow> bool" where
  "mem_stag_is_enabled stag m \<longleftrightarrow> avl_find (stag_avl m) (sdtest stag) \<noteq> None"

text \<open>
  \<open>sk\<close> is whether the socket argument is not null. The result is the address, and 0 (the null
  pointer) when the placement is refused.
\<close>

definition mem_stag_location :: "bool \<Rightarrow> stag \<Rightarrow> u64 \<Rightarrow> u64 \<Rightarrow> u32 \<Rightarrow> mem_state \<Rightarrow> u64" where
  "mem_stag_location sk stag off len rw m =
     (case avl_find (stag_avl m) (sdtest stag) of
        None \<Rightarrow> 0
      | Some sd \<Rightarrow>
          if \<not> sk then 0
          else if rw AND STAG_R \<noteq> 0 \<and> sd_rw sd AND STAG_R = 0 then 0
          else if rw AND STAG_W \<noteq> 0 \<and> sd_rw sd AND STAG_W = 0 then 0
          else if off < sd_start sd \<or> off \<ge> sd_end sd then 0
          else if off + len < sd_start sd \<or> off + len > sd_end sd then 0
          else off)"

text \<open>\<open>mem_fini\<close>: the tags of the valid regions are destroyed, then the tree and the table.\<close>

fun destroy_stags :: "nat list \<Rightarrow> mem_state \<Rightarrow> mem_state outcome" where
  "destroy_stags [] m = Done m"
| "destroy_stags (p # ps) m =
     (case find (\<lambda>sd. sd_ptr sd = p) (inorder (avl_root (stag_avl m))) of
        None \<Rightarrow> Exit
      | Some sd \<Rightarrow> bindO (mem_stag_destroy (sd_stag sd) m) (\<lambda>(_, m'). destroy_stags ps m'))"

fun fini_regions :: "nat list \<Rightarrow> mem_state \<Rightarrow> mem_state outcome" where
  "fini_regions [] m = Done m"
| "fini_regions (i # is) m =
     (if \<not> mr_valid (mem_regions m ! i) then fini_regions is m
      else bindO (destroy_stags (mr_stags (mem_regions m ! i)) m) (\<lambda>m.
        fini_regions is (m\<lparr>mem_regions := (mem_regions m)[i := (mem_regions m ! i)\<lparr>mr_valid := False\<rparr>]\<rparr>)))"

definition mem_fini :: "mem_state \<Rightarrow> (stag_desc list \<times> mem_state) outcome" where
  "mem_fini m = bindO (fini_regions [0..<length (mem_regions m)] m) (\<lambda>m.
     Done (avl_destroy (stag_avl m), m\<lparr>mem_region_id := 0, mem_regions := []\<rparr>))"

section \<open>The insertion loop ends\<close>

lemma sint_eq_0 [simp]: "sint (w :: u32) = 0 \<longleftrightarrow> w = 0"
  using signed_eq_0_iff [of w] by simp

lemma avl_insert_dup_stag:
  "avl_insert tree sd = Done (Some x, tree') \<Longrightarrow> avl_compare tree = mem_avl_stag_comp \<Longrightarrow>
   x \<in> avl_items tree \<and> sd_stag x = sd_stag sd \<and> tree' = tree"
  using probe_descend_Found [of mem_avl_stag_comp sd "avl_root tree" "[]" "[]"]
  by (auto simp: avl_insert_def avl_probe_def Let_def avl_items_def mem_avl_stag_comp_def bindO_Done_iff
      split: probe_end.splits if_splits sum.splits)

text \<open>The values of a counter from \<open>c\<close> on that are tags of the tree, at most one per item.\<close>

lemma stag_run_length:
  fixes c :: stag and tree :: "stag_desc avl_table"
  assumes "\<forall>k<n. c + of_nat k \<in> sd_stag ` avl_items tree" "n \<le> 2 ^ 32"
  shows "n \<le> length (inorder (avl_root tree))"
proof -
  have "inj_on (\<lambda>k. c + of_nat k) {..<n}"
    using assms(2) by (intro inj_onI) (simp add: word_of_nat_eq_iff take_bit_nat_eq_self)
  then have "n = card ((\<lambda>k. c + of_nat k) ` {..<n})" by (simp add: card_image)
  also have "\<dots> \<le> card (sd_stag ` avl_items tree)"
    using assms(1) by (intro card_mono) (auto simp: avl_items_def)
  also have "\<dots> \<le> card (avl_items tree)" by (rule card_image_le) (simp add: avl_items_def)
  also have "\<dots> \<le> length (inorder (avl_root tree))" by (simp add: avl_items_def card_length)
  finally show ?thesis .
qed

text \<open>With more attempts than items, further attempts make no difference.\<close>

lemma stag_insert_loop_fuel:
  assumes "avl_compare tree = mem_avl_stag_comp" "\<forall>j<k. c + of_nat j \<in> sd_stag ` avl_items tree"
    and "sd_stag sd = c + of_nat k" "ctr = c + of_nat (Suc k)"
    and "length (inorder (avl_root tree)) < k + n" "length (inorder (avl_root tree)) < 2 ^ 32" "n \<le> n'"
  shows "stag_insert_loop n sd ctr tree = stag_insert_loop n' sd ctr tree"
  using assms(2-5,7)
proof (induction n arbitrary: k sd ctr n')
  case 0
  have "k \<le> 2 ^ 32 \<or> (\<forall>j<2 ^ 32. c + of_nat j \<in> sd_stag ` avl_items tree)" using 0(1) by force
  then have False
    using stag_run_length [of k c tree] stag_run_length [of "2 ^ 32" c tree] 0 assms(6) by auto
  then show ?case ..
next
  case (Suc n)
  then obtain n'' where n': "n' = Suc n''" "n \<le> n''" by (cases n') auto
  have "stag_insert_loop n (sd\<lparr>sd_stag := ctr\<rparr>) (ctr + 1) tree = stag_insert_loop n'' (sd\<lparr>sd_stag := ctr\<rparr>) (ctr + 1) tree"
    if "avl_insert tree sd = Done (Some x, tree')" for x tree'
  proof (rule Suc.IH [of "Suc k"])
    have "c + of_nat k \<in> sd_stag ` avl_items tree"
      using avl_insert_dup_stag [OF that assms(1)] Suc.prems(2) by (metis image_eqI)
    then show "\<forall>j<Suc k. c + of_nat j \<in> sd_stag ` avl_items tree"
      using Suc.prems(1) less_Suc_eq by auto
  qed (use Suc.prems n' in auto)
  then show ?case
    using avl_insert_dup_stag [OF _ assms(1), of sd]
    by (auto simp: n' split: option.splits intro!: bindO_cong)
qed

section \<open>The invariant\<close>

text \<open>
  Tags are handed out in ascending order, below the sign bit, so that the subtraction orders them.
\<close>

definition stag_key :: "stag_desc \<Rightarrow> nat" where
  "stag_key sd = unat (sd_stag sd)"

definition low_stags :: "stag_desc set" where
  "low_stags = {sd. unat (sd_stag sd) < 2 ^ 31}"

lemma uint_low:
  assumes "unat (a :: u32) < 2 ^ 31"
  shows "0 \<le> uint a" "uint a < 2147483648"
proof -
  have "int (unat a) < int (2 ^ 31)" using assms by (simp only: of_nat_less_iff)
  then show "uint a < 2147483648" by simp
qed simp

lemma sint_low: "unat (a :: u32) < 2 ^ 31 \<Longrightarrow> sint a = uint a"
  using uint_low [of a] unfolding sint_uint
  by (intro signed_take_bit_int_eq_self) (auto intro: order_trans [of _ 0])

lemma sint_diff_low:
  assumes "unat (a :: u32) < 2 ^ 31" "unat b < 2 ^ 31"
  shows "sint (a - b) = uint a - uint b"
proof -
  have "- 2147483648 \<le> uint a - uint b" "uint a - uint b < 2147483648"
    using uint_low [OF assms(1)] uint_low [OF assms(2)] by linarith+
  then show ?thesis
    unfolding sint_word_diff sint_low [OF assms(1)] sint_low [OF assms(2)]
    by (intro signed_take_bit_int_eq_self) auto
qed

lemma comp_key: "cmp_key mem_avl_stag_comp stag_key low_stags"
  by (auto simp: cmp_key_def mem_avl_stag_comp_def stag_key_def low_stags_def sint_diff_low
      simp flip: word_less_nat_alt word_less_iff_unsigned [where 'a = int])

definition mem_live :: "mem_state \<Rightarrow> stag_desc set" where
  "mem_live m = avl_items (stag_avl m)"

text \<open>
  Each live tag belongs to a valid region, is on its list, and its range is inside the region; lists
  name live tags only. Tags and identities handed out are below the counters.
\<close>

definition sd_in_region :: "stag_desc \<Rightarrow> mem_region \<Rightarrow> bool" where
  "sd_in_region sd mr \<longleftrightarrow> unat (mr_addr mr) \<le> unat (sd_start sd) \<and> sd_start sd < sd_end sd
     \<and> unat (sd_end sd) \<le> unat (mr_addr mr) + unat (mr_len mr)"

definition tags_ok :: "mem_state \<Rightarrow> bool" where
  "tags_ok m \<longleftrightarrow> avl_ok stag_key low_stags (stag_avl m) \<and> avl_compare (stag_avl m) = mem_avl_stag_comp
     \<and> (\<forall>sd\<in>mem_live m. sd_stag sd < stag_next_counter m \<and> sd_ptr sd < next_alloc m)
     \<and> inj_on sd_ptr (mem_live m)"

definition regions_ok :: "mem_state \<Rightarrow> bool" where
  "regions_ok m \<longleftrightarrow>
     (\<forall>sd\<in>mem_live m. snd (sd_mr sd) < length (mem_regions m)
        \<and> (let mr = mem_regions m ! snd (sd_mr sd)
           in mr_valid mr \<and> sd_ptr sd \<in> set (mr_stags mr) \<and> sd_in_region sd mr))
     \<and> (\<forall>i<length (mem_regions m). distinct (mr_stags (mem_regions m ! i))
        \<and> (\<forall>p\<in>set (mr_stags (mem_regions m ! i)). \<exists>sd\<in>mem_live m. sd_ptr sd = p \<and> snd (sd_mr sd) = i)
        \<and> unat (mr_addr (mem_regions m ! i)) + unat (mr_len (mem_regions m ! i)) < 2 ^ 64)"

definition mem_inv :: "mem_state \<Rightarrow> bool" where
  "mem_inv m \<longleftrightarrow> tags_ok m \<and> regions_ok m"

lemma mem_init_inv: "mem_inv mem_init"
  using avl_create_ok [OF comp_key]
  by (simp add: mem_inv_def tags_ok_def regions_ok_def mem_init_def mem_live_def avl_items_def)
     (simp add: avl_create_def)

lemma stag_key_sdtest [simp]: "stag_key (sdtest stag) = unat stag"
  by (simp add: stag_key_def sdtest_def)

text \<open>A search finds the tag, wherever the tag asked for lies.\<close>

lemma mem_find_sound:
  assumes "avl_find (stag_avl m) (sdtest stag) = Some sd" "avl_compare (stag_avl m) = mem_avl_stag_comp"
  shows "sd \<in> mem_live m" "sd_stag sd = stag"
  using avl_find_from_sound [of mem_avl_stag_comp "sdtest stag" "avl_root (stag_avl m)" sd] assms
  by (auto simp: avl_find_def mem_live_def avl_items_def mem_avl_stag_comp_def sdtest_def)

lemma low_stagsI: "tags_ok m \<Longrightarrow> sd \<in> mem_live m \<Longrightarrow> sd \<in> low_stags"
  by (auto simp: tags_ok_def avl_ok_def mem_live_def avl_items_def)

lemma mem_find_iff:
  assumes ok: "tags_ok m"
  shows "avl_find (stag_avl m) (sdtest stag) = Some sd \<longleftrightarrow> sd \<in> mem_live m \<and> sd_stag sd = stag"
proof
  assume "avl_find (stag_avl m) (sdtest stag) = Some sd"
  then show "sd \<in> mem_live m \<and> sd_stag sd = stag"
    using mem_find_sound [of m stag sd] ok by (simp add: tags_ok_def)
next
  assume sd: "sd \<in> mem_live m \<and> sd_stag sd = stag"
  with low_stagsI [OF ok] have "sdtest stag \<in> low_stags"
    by (auto simp: low_stags_def sdtest_def)
  with sd ok show "avl_find (stag_avl m) (sdtest stag) = Some sd"
    by (auto simp: tags_ok_def avl_find_ok mem_live_def stag_key_def sdtest_def)
qed

lemma mem_stag_unique:
  "tags_ok m \<Longrightarrow> sd \<in> mem_live m \<Longrightarrow> sd' \<in> mem_live m \<Longrightarrow> sd_stag sd = sd_stag sd' \<Longrightarrow> sd = sd'"
  using mem_find_iff [of m "sd_stag sd'"] by (metis option.inject)

lemma mem_live_simps [simp]:
  "mem_live (m\<lparr>mem_regions := rs\<rparr>) = mem_live m" "mem_live (m\<lparr>mem_region_id := i\<rparr>) = mem_live m"
  "mem_live (m\<lparr>next_alloc := n\<rparr>) = mem_live m" "mem_live (m\<lparr>stag_next_counter := c\<rparr>) = mem_live m"
  "mem_live (m\<lparr>stag_avl := tree\<rparr>) = avl_items tree"
  by (simp_all add: mem_live_def)

subsection \<open>Registration\<close>

lemma first_free_le: "first_free rs \<le> length rs"
  by (induction rs) auto

lemma first_free_invalid: "first_free rs < length rs \<Longrightarrow> \<not> mr_valid (rs ! first_free rs)"
  by (induction rs) auto

lemma regions_ok_invalid_empty:
  "regions_ok m \<Longrightarrow> i < length (mem_regions m) \<Longrightarrow> \<not> mr_valid (mem_regions m ! i) \<Longrightarrow>
   mr_stags (mem_regions m ! i) = []"
  unfolding regions_ok_def Let_def by (metis list.set_intros(1) neq_Nil_conv)

lemma mem_enlarge_inv: "mem_inv m \<Longrightarrow> mem_inv (mem_enlarge m)"
  by (auto simp: mem_inv_def tags_ok_def regions_ok_def mem_enlarge_def nth_append unused_region_def
      Let_def less_Suc_eq)

lemma regions_okD:
  assumes "regions_ok m"
  shows "sd \<in> mem_live m \<Longrightarrow> snd (sd_mr sd) < length (mem_regions m)"
    "sd \<in> mem_live m \<Longrightarrow> mr_valid (mem_regions m ! snd (sd_mr sd))"
    "sd \<in> mem_live m \<Longrightarrow> sd_ptr sd \<in> set (mr_stags (mem_regions m ! snd (sd_mr sd)))"
    "sd \<in> mem_live m \<Longrightarrow> sd_in_region sd (mem_regions m ! snd (sd_mr sd))"
    "i < length (mem_regions m) \<Longrightarrow> distinct (mr_stags (mem_regions m ! i))"
    "i < length (mem_regions m) \<Longrightarrow> unat (mr_addr (mem_regions m ! i)) + unat (mr_len (mem_regions m ! i)) < 2 ^ 64"
    "i < length (mem_regions m) \<Longrightarrow> p \<in> set (mr_stags (mem_regions m ! i)) \<Longrightarrow>
     \<exists>sd. sd \<in> mem_live m \<and> sd_ptr sd = p \<and> snd (sd_mr sd) = i"
  using assms unfolding regions_ok_def Let_def by blast+

text \<open>One region rewritten, and the tags of that region with it.\<close>

lemma regions_ok_rewrite:
  assumes ok: "regions_ok m" and i: "i < length (mem_regions m)"
    and rs: "mem_regions m' = (mem_regions m)[i := mr]"
    and own: "\<And>sd. sd \<in> mem_live m' \<Longrightarrow> snd (sd_mr sd) = i \<Longrightarrow>
      mr_valid mr \<and> sd_ptr sd \<in> set (mr_stags mr) \<and> sd_in_region sd mr"
    and other: "\<And>sd. snd (sd_mr sd) \<noteq> i \<Longrightarrow> sd \<in> mem_live m' \<longleftrightarrow> sd \<in> mem_live m"
    and lst: "distinct (mr_stags mr)"
      "\<And>p. p \<in> set (mr_stags mr) \<Longrightarrow> \<exists>sd\<in>mem_live m'. sd_ptr sd = p \<and> snd (sd_mr sd) = i"
    and fit: "unat (mr_addr mr) + unat (mr_len mr) < 2 ^ 64"
  shows "regions_ok m'"
  unfolding regions_ok_def
proof (intro conjI ballI allI impI)
  fix sd assume sd: "sd \<in> mem_live m'"
  show "snd (sd_mr sd) < length (mem_regions m')"
    using sd i ok other [of sd] by (cases "snd (sd_mr sd) = i") (auto simp: rs regions_ok_def)
  show "let mr = mem_regions m' ! snd (sd_mr sd) in mr_valid mr \<and> sd_ptr sd \<in> set (mr_stags mr) \<and> sd_in_region sd mr"
    using sd i ok own [of sd] other [of sd]
    by (cases "snd (sd_mr sd) = i") (auto simp: rs regions_ok_def Let_def)
next
  fix j assume j: "j < length (mem_regions m')"
  show "distinct (mr_stags (mem_regions m' ! j))"
    using j ok lst(1) by (cases "j = i") (auto simp: rs regions_ok_def)
  show "unat (mr_addr (mem_regions m' ! j)) + unat (mr_len (mem_regions m' ! j)) < 2 ^ 64"
    using j ok fit by (cases "j = i") (auto simp: rs regions_ok_def)
  fix p assume p: "p \<in> set (mr_stags (mem_regions m' ! j))"
  show "\<exists>sd\<in>mem_live m'. sd_ptr sd = p \<and> snd (sd_mr sd) = j"
  proof (cases "j = i")
    case True
    then show ?thesis using p j lst(2) by (simp add: rs)
  next
    case False
    with p j regions_okD(7) [OF ok, of j p]
    obtain sd where "sd \<in> mem_live m" "sd_ptr sd = p" "snd (sd_mr sd) = j"
      by (auto simp: rs)
    with other [of sd] False show ?thesis by auto
  qed
qed

lemma regions_ok_set_empty:
  assumes "regions_ok m" "i < length (mem_regions m)" "mr_stags (mem_regions m ! i) = []"
    and "mr_stags mr = []" "unat (mr_addr mr) + unat (mr_len mr) < 2 ^ 64"
  shows "regions_ok (m\<lparr>mem_regions := (mem_regions m)[i := mr]\<rparr>)"
proof -
  have "snd (sd_mr sd) \<noteq> i" if "sd \<in> mem_live m" for sd
    using assms(1-3) that by (auto simp: regions_ok_def Let_def)
  with assms show ?thesis
    by (auto simp: regions_ok_def Let_def nth_list_update)
qed

lemma tags_ok_regions [simp]: "tags_ok (m\<lparr>mem_regions := rs\<rparr>) = tags_ok m"
  by (simp add: tags_ok_def)

lemma mem_register_inv:
  assumes inv: "mem_inv m" and fit: "unat addr + unat len < 2 ^ 64"
  shows "mem_inv (snd (mem_register addr len m))"
proof -
  let ?i = "first_free (mem_regions m)"
  let ?m = "if ?i = length (mem_regions m) then mem_enlarge m else m"
  have i: "?i < length (mem_regions ?m)"
    using first_free_le [of "mem_regions m"] by (auto simp: mem_enlarge_def)
  have inv': "mem_inv ?m" using inv mem_enlarge_inv by simp
  have "\<not> mr_valid (mem_regions ?m ! ?i)"
    using first_free_invalid [of "mem_regions m"] first_free_le [of "mem_regions m"]
    by (auto simp: mem_enlarge_def nth_append unused_region_def)
  with inv' i have "mr_stags (mem_regions ?m ! ?i) = []"
    by (auto simp: mem_inv_def intro: regions_ok_invalid_empty)
  with inv' i fit show ?thesis
    by (simp add: mem_register_def Let_def mem_inv_def regions_ok_set_empty del: if_split)
qed

lemma mem_register_md:
  assumes "mem_register addr len m = (md, m')"
  shows "mr_from_md md m' = Some \<lparr>mr_addr = addr, mr_len = len, mr_valid = True, mr_stags = []\<rparr>
    \<and> mem_live m' = mem_live m"
proof -
  have "first_free (mem_regions m) < length (mem_regions m) + 10"
    using first_free_le [of "mem_regions m"] by simp
  moreover have "first_free (mem_regions m) < length (mem_regions m)"
    if "first_free (mem_regions m) \<noteq> length (mem_regions m)"
    using that first_free_le [of "mem_regions m"] by simp
  ultimately show ?thesis
    using assms by (auto simp: mem_register_def Let_def mr_from_md_def mem_enlarge_def split: if_splits)
qed

lemma mem_deregister_inv: "mem_inv m \<Longrightarrow> mem_inv (snd (mem_deregister md m))"
  by (auto simp: mem_deregister_def mr_from_md_def mem_inv_def regions_ok_def[of m]
      intro!: regions_ok_set_empty split: option.splits if_splits)

subsection \<open>Tags\<close>

lemma no_wrap_add: "unat a + unat b < 2 ^ 64 \<Longrightarrow> unat (a + b :: u64) = unat a + unat b"
  by (simp add: unat_word_ariths)

lemma sd_in_regionI:
  assumes fit: "unat (mr_addr mr) + unat (mr_len mr) < 2 ^ 64" and rng: "start < end" "end \<le> mr_len mr"
    and sd: "sd_start sd = mr_addr mr + start" "sd_end sd = mr_addr mr + end"
  shows "sd_in_region sd mr"
proof -
  have se: "unat start < unat end" "unat end \<le> unat (mr_len mr)"
    using rng by (simp_all add: word_less_nat_alt word_le_nat_alt)
  with fit have "unat (mr_addr mr + start) = unat (mr_addr mr) + unat start"
    "unat (mr_addr mr + end) = unat (mr_addr mr) + unat end" by (simp_all add: no_wrap_add)
  with se sd show ?thesis by (simp add: sd_in_region_def word_less_nat_alt)
qed

text \<open>A new tag linked into its region.\<close>

lemma regions_ok_link:
  assumes r: "regions_ok m" and i: "i < length (mem_regions m)" and mr: "mem_regions m ! i = mr" "mr_valid mr"
    and sd: "sd_in_region sd mr" "snd (sd_mr sd) = i"
    and fresh: "\<forall>s\<in>mem_live m. sd_ptr s < sd_ptr sd"
    and live: "mem_live m' = insert sd (mem_live m)"
    and rs: "mem_regions m' = (mem_regions m)[i := mr\<lparr>mr_stags := sd_ptr sd # mr_stags mr\<rparr>]"
  shows "regions_ok m'"
proof (rule regions_ok_rewrite [OF r i rs])
  let ?mr = "mr\<lparr>mr_stags := sd_ptr sd # mr_stags mr\<rparr>"
  fix s :: stag_desc assume s: "s \<in> mem_live m'" "snd (sd_mr s) = i"
  show "mr_valid ?mr \<and> sd_ptr s \<in> set (mr_stags ?mr) \<and> sd_in_region s ?mr"
  proof (cases "s = sd")
    case True
    then show ?thesis using sd(1) mr(2) by (simp add: sd_in_region_def)
  next
    case False
    with s have "s \<in> mem_live m" by (simp add: live)
    with regions_okD(2-4) [OF r this] s(2) mr show ?thesis by (simp add: sd_in_region_def)
  qed
next
  fix p assume "p \<in> set (mr_stags (mr\<lparr>mr_stags := sd_ptr sd # mr_stags mr\<rparr>))"
  then show "\<exists>s\<in>mem_live m'. sd_ptr s = p \<and> snd (sd_mr s) = i"
    using regions_okD(7) [OF r i, of p] mr sd(2) by (auto simp: live)
next
  have "sd_ptr sd \<notin> set (mr_stags mr)"
    using regions_okD(7) [OF r i, of "sd_ptr sd"] fresh mr by fastforce
  then show "distinct (mr_stags (mr\<lparr>mr_stags := sd_ptr sd # mr_stags mr\<rparr>))"
    using regions_okD(5) [OF r i] mr by simp
qed (use sd(2) live regions_okD(6) [OF r i] mr in auto)

lemma tags_ok_link:
  assumes t: "tags_ok m" and tree: "avl_ok stag_key low_stags tree" "avl_compare tree = mem_avl_stag_comp"
    and items: "avl_items tree = insert sd (mem_live m)"
    and sd: "sd_ptr sd = next_alloc m" "sd_stag sd = stag_next_counter m"
    and ctr: "stag_next_counter m < stag_next_counter m + 1"
    and m': "stag_avl m' = tree" "stag_next_counter m' = stag_next_counter m + 1" "next_alloc m' = next_alloc m + 1"
  shows "tags_ok m'"
proof -
  have old: "sd_stag s < stag_next_counter m" "sd_ptr s < next_alloc m" if "s \<in> mem_live m" for s
    using t that by (auto simp: tags_ok_def)
  have "sd_stag s < stag_next_counter m + 1 \<and> sd_ptr s < next_alloc m + 1" if "s \<in> mem_live m" for s
    using old [OF that] ctr by auto
  moreover have "inj_on sd_ptr (insert sd (mem_live m))"
    using t old(2) sd(1) by (fastforce simp: tags_ok_def)
  ultimately show ?thesis
    using tree sd ctr by (auto simp: tags_ok_def mem_live_def [of m'] m' items)
qed

lemma mem_stag_create_ok:
  assumes inv: "mem_inv m" and md: "mr_from_md md m = Some mr" "mr_valid mr"
    and rng: "start < end" "end \<le> mr_len mr"
    and room: "avl_room (stag_avl m)" and ctr: "unat (stag_next_counter m) < 2 ^ 31"
  shows "\<exists>sd m'. mem_stag_create sk md start end rw pd m = Done (stag_next_counter m, m')
    \<and> mem_live m' = insert sd (mem_live m) \<and> mem_inv m' \<and> sd_stag sd = stag_next_counter m
    \<and> sd_start sd = mr_addr mr + start \<and> sd_end sd = mr_addr mr + end \<and> sd_rw sd = rw \<and> sd_mr sd = md
    \<and> stag_next_counter m' = stag_next_counter m + 1 \<and> mem_region_id m' = mem_region_id m
    \<and> sd_pd sd = pd \<and> sd_sk sd = sk"
proof -
  let ?p = "next_alloc m" and ?c = "stag_next_counter m" and ?i = "snd md"
  let ?mr = "mr\<lparr>mr_stags := ?p # mr_stags mr\<rparr>"
  define sd where "sd = \<lparr>sd_ptr = ?p, sd_mr = md, sd_start = mr_addr mr + start, sd_end = mr_addr mr + end,
      sd_stag = ?c, sd_sk = sk, sd_rw = rw, sd_pd = pd\<rparr>"
  have i: "?i < length (mem_regions m)" and mr: "mem_regions m ! ?i = mr"
    using md(1) by (auto simp: mr_from_md_def split: if_splits)
  have t: "tags_ok m" and r: "regions_ok m" using inv by (simp_all add: mem_inv_def)
  have old: "sd_stag s < ?c" "sd_ptr s < ?p" if "s \<in> mem_live m" for s
    using t that by (auto simp: tags_ok_def)
  have "\<forall>x\<in>avl_items (stag_avl m). stag_key x \<noteq> stag_key sd"
    using old(1) by (fastforce simp: sd_def stag_key_def mem_live_def word_less_nat_alt)
  moreover have "sd \<in> low_stags" using ctr by (simp add: low_stags_def sd_def)
  ultimately obtain tree where tree: "avl_insert (stag_avl m) sd = Done (None, tree)"
      "avl_ok stag_key low_stags tree" "avl_items tree = insert sd (avl_items (stag_avl m))"
      "avl_compare tree = avl_compare (stag_avl m)"
    using avl_insert_new [OF _ room] t unfolding tags_ok_def by metis
  let ?m = "m\<lparr>next_alloc := ?p + 1, mem_regions := (mem_regions m)[?i := ?mr],
    stag_next_counter := ?c + 1, stag_avl := tree\<rparr>"
  have cmp: "avl_compare tree = mem_avl_stag_comp" using tree(4) t by (simp add: tags_ok_def)
  have items: "avl_items tree = insert sd (mem_live m)" using tree(3) by (simp add: mem_live_def)
  have "?c < ?c + 1" using ctr by (simp add: word_less_nat_alt unat_word_ariths)
  then have "tags_ok ?m"
    by (intro tags_ok_link [OF t tree(2) cmp items]) (simp_all add: sd_def)
  moreover have "sd_in_region sd mr"
    using regions_okD(6) [OF r i] mr rng by (intro sd_in_regionI) (simp_all add: sd_def)
  then have "regions_ok ?m"
    using old(2) by (intro regions_ok_link [OF r i mr md(2)]) (auto simp: sd_def items)
  moreover have "\<not> start \<ge> end" "\<not> end > mr_len mr" using rng by auto
  then have "mem_stag_create sk md start end rw pd m = Done (?c, ?m)"
    using md(1) tree(1) [unfolded sd_def] by (simp add: mem_stag_create_def Let_def)
  ultimately show ?thesis
    by (intro exI [of _ sd] exI [of _ ?m]) (simp add: mem_inv_def items sd_def)
qed

lemma mem_stag_destroy_ok:
  assumes inv: "mem_inv m" and room: "avl_room (stag_avl m)"
    and sd: "sd \<in> mem_live m" "sd_stag sd = stag" and cur: "fst (sd_mr sd) = mem_region_id m"
  shows "\<exists>m'. mem_stag_destroy stag m = Done (0, m') \<and> mem_inv m' \<and> mem_live m' = mem_live m - {sd}
    \<and> mem_region_id m' = mem_region_id m
    \<and> mr_stags (mem_regions m' ! snd (sd_mr sd)) = remove1 (sd_ptr sd) (mr_stags (mem_regions m ! snd (sd_mr sd)))"
proof -
  have t: "tags_ok m" and r: "regions_ok m" using inv by (simp_all add: mem_inv_def)
  let ?i = "snd (sd_mr sd)"
  let ?mr = "mem_regions m ! ?i"
  have i: "?i < length (mem_regions m)" "sd_ptr sd \<in> set (mr_stags ?mr)" "mr_valid ?mr"
    using r sd(1) by (auto simp: regions_ok_def Let_def)
  have f: "avl_find (stag_avl m) (sdtest stag) = Some sd" using mem_find_iff [OF t] sd by simp
  from avl_delete_old [OF _ room this, of stag_key low_stags] t obtain tree where
    tree: "avl_delete (stag_avl m) (sdtest stag) = Done (Some sd, tree)" "avl_ok stag_key low_stags tree"
      "avl_items tree = avl_items (stag_avl m) - {sd}" "avl_compare tree = avl_compare (stag_avl m)"
    by (auto simp: tags_ok_def)
  have cmp: "avl_compare tree = mem_avl_stag_comp" using tree(4) t by (simp add: tags_ok_def)
  let ?m = "m\<lparr>stag_avl := tree, mem_regions := (mem_regions m)[?i := ?mr\<lparr>mr_stags := remove1 (sd_ptr sd) (mr_stags ?mr)\<rparr>]\<rparr>"
  have items: "avl_items tree = mem_live m - {sd}" using tree(3) by (simp add: mem_live_def)
  have "mem_stag_destroy stag m = Done (0, ?m)"
    using tree(1) cur i(1) by (simp add: mem_stag_destroy_def mr_from_md_def Let_def)
  moreover have "tags_ok ?m"
    using t tree(2) cmp by (auto simp: tags_ok_def items inj_on_def)
  moreover have "regions_ok ?m"
  proof -
    have ne: "sd_ptr s \<noteq> sd_ptr sd" if "s \<in> mem_live m" "s \<noteq> sd" for s
      using t that sd(1) by (auto simp: tags_ok_def inj_on_def)
    moreover have "distinct (mr_stags ?mr)" using r i(1) by (simp add: regions_ok_def)
    ultimately have rm: "set (remove1 (sd_ptr sd) (mr_stags ?mr)) = set (mr_stags ?mr) - {sd_ptr sd}"
      by simp
    let ?mr' = "?mr\<lparr>mr_stags := remove1 (sd_ptr sd) (mr_stags ?mr)\<rparr>"
    show ?thesis
    proof (rule regions_ok_rewrite [OF r i(1), of _ ?mr'])
      fix s :: stag_desc assume "s \<in> mem_live ?m" "snd (sd_mr s) = ?i"
      with ne [of s] regions_okD(2-4) [OF r, of s] rm
      show "mr_valid ?mr' \<and> sd_ptr s \<in> set (mr_stags ?mr') \<and> sd_in_region s ?mr'"
        by (simp add: items sd_in_region_def)
    next
      fix s :: stag_desc assume "snd (sd_mr s) \<noteq> ?i"
      then show "s \<in> mem_live ?m \<longleftrightarrow> s \<in> mem_live m" by (auto simp: items)
    next
      fix p assume "p \<in> set (mr_stags ?mr')"
      then show "\<exists>s\<in>mem_live ?m. sd_ptr s = p \<and> snd (sd_mr s) = ?i"
        using regions_okD(7) [OF r i(1), of p] rm by (auto simp: items)
    qed (use regions_okD(5,6) [OF r i(1)] in simp_all)
  qed
  ultimately show ?thesis using i(1) by (intro exI [of _ ?m]) (simp add: mem_inv_def items)
qed

lemma mem_stag_destroy_unknown:
  assumes "mem_inv m" "avl_room (stag_avl m)" "\<forall>sd\<in>mem_live m. sd_stag sd \<noteq> stag"
  shows "mem_stag_destroy stag m = Done (- EINVAL, m)"
proof -
  have "avl_find (stag_avl m) (sdtest stag) = None"
    using mem_find_iff [of m stag] assms by (cases "avl_find (stag_avl m) (sdtest stag)") (auto simp: mem_inv_def)
  with avl_delete_missing [OF avl_ok_height [of stag_key low_stags]] assms(1,2)
  show ?thesis by (simp add: mem_stag_destroy_def mem_inv_def tags_ok_def)
qed

text \<open>What the check of a placement lets through, for any state of the table.\<close>

lemma mem_stag_location_sound:
  assumes "mem_stag_location sk stag off len rw m \<noteq> 0" "avl_compare (stag_avl m) = mem_avl_stag_comp"
  shows "\<exists>sd\<in>mem_live m. sd_stag sd = stag \<and> mem_stag_location sk stag off len rw m = off
    \<and> (rw AND STAG_R \<noteq> 0 \<longrightarrow> sd_rw sd AND STAG_R \<noteq> 0) \<and> (rw AND STAG_W \<noteq> 0 \<longrightarrow> sd_rw sd AND STAG_W \<noteq> 0)
    \<and> sd_start sd \<le> off \<and> off < sd_end sd \<and> sd_start sd \<le> off + len \<and> off + len \<le> sd_end sd"
  using assms mem_find_sound [of m stag]
  by (auto simp: mem_stag_location_def not_less not_le split: option.splits if_splits)

text \<open>A tag's lookup after the table changed elsewhere.\<close>

lemma mem_stag_location_live:
  assumes "tags_ok m" "sd \<in> mem_live m" "sd_stag sd = stag"
  shows "mem_stag_location True stag off len rw m =
    (if (rw AND STAG_R \<noteq> 0 \<and> sd_rw sd AND STAG_R = 0) \<or> (rw AND STAG_W \<noteq> 0 \<and> sd_rw sd AND STAG_W = 0)
        \<or> off < sd_start sd \<or> off \<ge> sd_end sd \<or> off + len < sd_start sd \<or> off + len > sd_end sd
     then 0 else off)"
proof -
  have "avl_find (stag_avl m) (sdtest stag) = Some sd" using mem_find_iff [OF assms(1)] assms(2,3) by simp
  then show ?thesis by (simp add: mem_stag_location_def)
qed

text \<open>The tag that lets an access through, when the access does not wrap around.\<close>

definition stag_grants :: "stag \<Rightarrow> u64 \<Rightarrow> u64 \<Rightarrow> u32 \<Rightarrow> stag_desc \<Rightarrow> bool" where
  "stag_grants stag off len rw sd \<longleftrightarrow> sd_stag sd = stag
     \<and> (rw AND STAG_R \<noteq> 0 \<longrightarrow> sd_rw sd AND STAG_R \<noteq> 0) \<and> (rw AND STAG_W \<noteq> 0 \<longrightarrow> sd_rw sd AND STAG_W \<noteq> 0)
     \<and> unat (sd_start sd) \<le> unat off \<and> unat off < unat (sd_end sd) \<and> unat off + unat len \<le> unat (sd_end sd)"

lemma mem_stag_location_iff:
  assumes t: "tags_ok m" and wrap: "unat off + unat len < 2 ^ 64"
  shows "mem_stag_location sk stag off len rw m =
      (if sk \<and> (\<exists>sd\<in>mem_live m. stag_grants stag off len rw sd) then off else 0)"
proof -
  have w: "unat (off + len) = unat off + unat len" using wrap by (rule no_wrap_add)
  show ?thesis
  proof (cases "avl_find (stag_avl m) (sdtest stag)")
    case None
    then have "\<not> (sd \<in> mem_live m \<and> sd_stag sd = stag)" for sd using mem_find_iff [OF t, of stag sd] by simp
    with None show ?thesis by (auto simp: mem_stag_location_def stag_grants_def)
  next
    case (Some sd)
    then have only: "sd' \<in> mem_live m \<and> sd_stag sd' = stag \<longleftrightarrow> sd' = sd" for sd'
      using mem_find_iff [OF t, of stag sd'] by auto
    then have "(\<exists>sd\<in>mem_live m. stag_grants stag off len rw sd) \<longleftrightarrow> stag_grants stag off len rw sd"
      using only [of sd] by (metis stag_grants_def)
    with Some only [of sd] w show ?thesis
      by (auto simp: mem_stag_location_def stag_grants_def word_le_nat_alt word_less_nat_alt)
  qed
qed

lemma mem_stag_location_same:
  assumes "tags_ok m" "tags_ok m'" "\<forall>sd. sd_stag sd = stag \<longrightarrow> (sd \<in> mem_live m' \<longleftrightarrow> sd \<in> mem_live m)"
  shows "mem_stag_location sk stag off len rw m' = mem_stag_location sk stag off len rw m"
proof -
  have "avl_find (stag_avl m') (sdtest stag) = avl_find (stag_avl m) (sdtest stag)"
    using mem_find_iff [OF assms(1), of stag] mem_find_iff [OF assms(2), of stag] assms(3)
    by (metis option.exhaust)
  then show ?thesis by (simp add: mem_stag_location_def)
qed

section \<open>Findings\<close>

text \<open>
  The end of the range is compared after a 64-bit addition: a length that wraps it around is let
  through although it reaches past the end of the tag's range.
\<close>

definition mem_example :: mem_state where
  "mem_example = \<lparr>mem_region_id = 1,
     mem_regions = [\<lparr>mr_addr = 0x1000, mr_len = 0x1000, mr_valid = True, mr_stags = [2]\<rparr>],
     stag_avl = \<lparr>avl_root = Node Leaf \<lparr>sd_ptr = 2, sd_mr = (1, 0), sd_start = 0x1000, sd_end = 0x2000,
         sd_stag = 1, sd_sk = 3, sd_rw = STAG_RW, sd_pd = 0\<rparr> 0 Leaf,
       avl_compare = mem_avl_stag_comp, avl_count = 1, avl_generation = 0\<rparr>,
     stag_next_counter = 2, next_alloc = 3\<rparr>"

lemma mem_stag_location_wraps:
  "mem_stag_location True 1 0x1800 0xFFFFFFFFFFFFFC00 STAG_W mem_example = 0x1800"
  by (simp add: mem_stag_location_def mem_example_def avl_find_def mem_avl_stag_comp_def sdtest_def)

text \<open>Enlarging the table moves it: every descriptor handed out before is refused from then on.\<close>

lemma mem_register_moves:
  assumes "mem_regions m \<noteq> []" "\<forall>r\<in>set (mem_regions m). mr_valid r" "fst md = mem_region_id m" "mem_region_id m < next_alloc m"
  shows "fst (mem_deregister md (snd (mem_register addr len m))) = - EINVAL"
proof -
  have "first_free (mem_regions m) = length (mem_regions m)"
    using assms(2) by (induction "mem_regions m" arbitrary: m) (auto, metis first_free.simps(2) first_free_invalid first_free_le le_neq_implies_less nth_mem)
  with assms(3,4) show ?thesis
    by (simp add: mem_register_def mem_enlarge_def mem_deregister_def mr_from_md_def Let_def)
qed

text \<open>The comparison of tags more than \<open>2 ^ 31\<close> apart is not an order.\<close>

lemma mem_avl_stag_comp_cyclic:
  "mem_avl_stag_comp (sdtest 0) (sdtest 0x60000000) < 0"
  "mem_avl_stag_comp (sdtest 0x60000000) (sdtest 0xC0000000) < 0"
  "mem_avl_stag_comp (sdtest 0xC0000000) (sdtest 0) < 0"
  by (simp_all add: mem_avl_stag_comp_def sdtest_def)

section \<open>Properties\<close>


text \<open>
  C9. Creating a tag on a registered region returns a tag that is not in use; from then on the tag
  is enabled and gives access exactly to the addresses of the range it was created for, with the
  rights given, and the placement check of every other tag is as before.
\<close>

theorem mem_stag_create_correct:
  assumes "mem_inv m" and "mr_from_md md m = Some mr" and "mr_valid mr" and "start < end" and "end \<le> mr_len mr"
    and "avl_room (stag_avl m)" and "unat (stag_next_counter m) < 2 ^ 31"
  shows "\<exists>m' stag. mem_stag_create sk md start end rw pd m = Done (stag, m') \<and> mem_inv m'
    \<and> \<not> mem_stag_is_enabled stag m \<and> mem_stag_is_enabled stag m'
    \<and> (\<forall>off len acc. mem_stag_location True stag off len acc m' =
        (if (acc AND STAG_R \<noteq> 0 \<and> rw AND STAG_R = 0) \<or> (acc AND STAG_W \<noteq> 0 \<and> rw AND STAG_W = 0)
            \<or> off < mr_addr mr + start \<or> off \<ge> mr_addr mr + end
            \<or> off + len < mr_addr mr + start \<or> off + len > mr_addr mr + end
         then 0 else off))
    \<and> (\<forall>other s off len acc. other \<noteq> stag \<longrightarrow>
        mem_stag_location s other off len acc m' = mem_stag_location s other off len acc m)"
proof -
  from mem_stag_create_ok [OF assms, of sk rw pd] obtain sd m' where
    c: "mem_stag_create sk md start end rw pd m = Done (stag_next_counter m, m')" "mem_inv m'"
      "mem_live m' = insert sd (mem_live m)" "sd_stag sd = stag_next_counter m"
      "sd_start sd = mr_addr mr + start" "sd_end sd = mr_addr mr + end" "sd_rw sd = rw" by blast
  have t: "tags_ok m" "tags_ok m'" using assms(1) c(2) by (simp_all add: mem_inv_def)
  have new: "sd_stag s \<noteq> sd_stag sd" if "s \<in> mem_live m" for s
    using t(1) that c(4) by (auto simp: tags_ok_def)
  have "\<not> mem_stag_is_enabled (sd_stag sd) m"
    using mem_find_iff [OF t(1)] new by (auto simp: mem_stag_is_enabled_def)
  moreover have "mem_stag_is_enabled (sd_stag sd) m'"
    using mem_find_iff [OF t(2), of "sd_stag sd" sd] c(3) by (auto simp: mem_stag_is_enabled_def)
  moreover have "mem_stag_location s other off len acc m' = mem_stag_location s other off len acc m"
    if "other \<noteq> sd_stag sd" for other s off len acc
    by (rule mem_stag_location_same [OF t]) (use that c(3) in auto)
  moreover have "sd \<in> mem_live m'" using c(3) by simp
  note loc = mem_stag_location_live [OF t(2) this refl, unfolded c(5-7)]
  ultimately show ?thesis
    unfolding c(4) by (intro exI [of _ m'] exI [of _ "stag_next_counter m"] conjI allI impI)
      (simp_all only: c(1,2) loc [unfolded c(4)] not_False_eq_True)
qed

text \<open>
  Destroying a live tag succeeds: the tag is not enabled any more and every placement under it
  is refused, while every other tag keeps its access; destroying an unknown tag returns \<open>-EINVAL\<close>
  and changes nothing.
\<close>

theorem mem_stag_destroy_correct:
  assumes "mem_inv m" and "avl_room (stag_avl m)" and "\<forall>sd\<in>mem_live m. fst (sd_mr sd) = mem_region_id m"
  shows "if mem_stag_is_enabled stag m
    then \<exists>m'. mem_stag_destroy stag m = Done (0, m') \<and> mem_inv m' \<and> \<not> mem_stag_is_enabled stag m'
      \<and> (\<forall>sk off len acc. mem_stag_location sk stag off len acc m' = 0)
      \<and> (\<forall>other sk off len acc. other \<noteq> stag \<longrightarrow>
          mem_stag_location sk other off len acc m' = mem_stag_location sk other off len acc m)
    else mem_stag_destroy stag m = Done (- EINVAL, m)"
proof (cases "mem_stag_is_enabled stag m")
  case False
  have t: "tags_ok m" using assms(1) by (simp add: mem_inv_def)
  from False have "\<forall>sd\<in>mem_live m. sd_stag sd \<noteq> stag"
    using mem_find_iff [OF t, of stag] by (auto simp: mem_stag_is_enabled_def)
  with False mem_stag_destroy_unknown [OF assms(1,2)] show ?thesis by simp
next
  case True
  have t: "tags_ok m" using assms(1) by (simp add: mem_inv_def)
  from True obtain sd where sd: "sd \<in> mem_live m" "sd_stag sd = stag"
    using mem_find_iff [OF t, of stag] by (auto simp: mem_stag_is_enabled_def)
  from mem_stag_destroy_ok [OF assms(1,2) sd] assms(3) sd(1) obtain m' where
    m': "mem_stag_destroy stag m = Done (0, m')" "mem_inv m'" "mem_live m' = mem_live m - {sd}" by auto
  have t': "tags_ok m'" using m'(2) by (simp add: mem_inv_def)
  have gone: "avl_find (stag_avl m') (sdtest stag) = None"
  proof (cases "avl_find (stag_avl m') (sdtest stag)")
    case (Some s)
    then have "s \<in> mem_live m - {sd}" "sd_stag s = stag"
      using mem_find_iff [OF t', of stag s] m'(3) by auto
    with mem_stag_unique [OF t, of s sd] sd show ?thesis by auto
  qed
  have "mem_stag_location sk other off len acc m' = mem_stag_location sk other off len acc m"
    if "other \<noteq> stag" for other sk off len acc
    by (rule mem_stag_location_same [OF t t']) (use that sd(2) m'(3) in auto)
  moreover have "mem_stag_location sk stag off len acc m' = 0" for sk off len acc
    by (simp add: mem_stag_location_def gone)
  moreover have "\<not> mem_stag_is_enabled stag m'" by (simp add: mem_stag_is_enabled_def gone)
  ultimately show ?thesis using True m'(1,2) by simp
qed

text \<open>
  A region is deregistered exactly when no tag is live on it: otherwise the call returns
  \<open>-EBUSY\<close> and changes nothing.
\<close>

theorem mem_deregister_busy:
  assumes "mem_inv m" and "mr_from_md md m = Some mr"
  shows "mem_deregister md m = (if \<exists>sd\<in>mem_live m. snd (sd_mr sd) = snd md then (- EBUSY, m)
      else (0, m\<lparr>mem_regions := (mem_regions m)[snd md := mr\<lparr>mr_valid := False\<rparr>]\<rparr>))
    \<and> mem_inv (snd (mem_deregister md m))"
proof -
  have r: "regions_ok m" and i: "snd md < length (mem_regions m)" "mem_regions m ! snd md = mr"
    using assms by (auto simp: mem_inv_def mr_from_md_def split: if_splits)
  have "mr_stags mr \<noteq> [] \<longleftrightarrow> (\<exists>sd\<in>mem_live m. snd (sd_mr sd) = snd md)"
  proof
    assume "mr_stags mr \<noteq> []"
    then obtain p where "p \<in> set (mr_stags mr)" by (cases "mr_stags mr") auto
    with regions_okD(7) [OF r i(1), of p] i(2) show "\<exists>sd\<in>mem_live m. snd (sd_mr sd) = snd md" by auto
  next
    assume "\<exists>sd\<in>mem_live m. snd (sd_mr sd) = snd md"
    with regions_okD(3) [OF r] i(2) show "mr_stags mr \<noteq> []" by fastforce
  qed
  with assms(2) mem_deregister_inv [OF assms(1), of md] show ?thesis by (simp add: mem_deregister_def)
qed

section \<open>Witnesses\<close>

lemma mem_example_live: "mem_live mem_example = {\<lparr>sd_ptr = 2, sd_mr = (1, 0), sd_start = 0x1000,
    sd_end = 0x2000, sd_stag = 1, sd_sk = 3, sd_rw = STAG_RW, sd_pd = 0\<rparr>}"
  by (simp add: mem_live_def mem_example_def avl_items_def)

lemma mem_example_inv: "mem_inv mem_example"
proof -
  have "tags_ok mem_example"
    using comp_key by (simp add: tags_ok_def mem_example_live)
      (simp add: mem_example_def avl_ok_def low_stags_def key_sorted_def)
  moreover have "regions_ok mem_example"
    by (simp add: regions_ok_def mem_example_live) (simp add: mem_example_def sd_in_region_def)
  ultimately show ?thesis by (simp add: mem_inv_def)
qed

lemma mem_example_room: "avl_room (stag_avl mem_example)"
  by (simp add: mem_example_def avl_room_def)


theorem mem_stag_create_correct_witness:
  "\<exists>m' stag. mem_stag_create 3 (1, 0) 0x10 0x20 STAG_R 0 mem_example = Done (stag, m')
    \<and> mem_stag_is_enabled stag m' \<and> mem_stag_location True stag 0x1010 0x10 STAG_R m' = 0x1010"
proof -
  have "mr_from_md (1, 0) mem_example
      = Some \<lparr>mr_addr = 0x1000, mr_len = 0x1000, mr_valid = True, mr_stags = [2]\<rparr>"
    by (simp add: mr_from_md_def mem_example_def)
  from mem_stag_create_correct [OF mem_example_inv this _ _ _ mem_example_room,
      of "0x10" "0x20" 3 STAG_R 0]
  have "\<exists>m' stag. mem_stag_create 3 (1, 0) 0x10 0x20 STAG_R 0 mem_example = Done (stag, m')
    \<and> mem_stag_is_enabled stag m'
    \<and> mem_stag_location True stag 0x1010 0x10 STAG_R m' = 0x1010"
    by (fastforce simp: mem_example_def)
  then show ?thesis .
qed

theorem mem_stag_destroy_correct_witness:
  "\<exists>m'. mem_stag_destroy 1 mem_example = Done (0, m') \<and> \<not> mem_stag_is_enabled 1 m'"
proof -
  have "\<forall>sd\<in>mem_live mem_example. fst (sd_mr sd) = mem_region_id mem_example"
    by (simp add: mem_example_live) (simp add: mem_example_def)
  moreover have "mem_stag_is_enabled 1 mem_example"
    by (simp add: mem_stag_is_enabled_def mem_example_def avl_find_def mem_avl_stag_comp_def sdtest_def)
  ultimately show ?thesis
    using mem_stag_destroy_correct [OF mem_example_inv mem_example_room, of 1] by auto
qed

theorem mem_deregister_busy_witness:
  "mem_deregister (1, 0) mem_example = (- EBUSY, mem_example)"
proof -
  have "mr_from_md (1, 0) mem_example
      = Some \<lparr>mr_addr = 0x1000, mr_len = 0x1000, mr_valid = True, mr_stags = [2]\<rparr>"
    by (simp add: mr_from_md_def mem_example_def)
  from mem_deregister_busy [OF mem_example_inv this] show ?thesis by (simp add: mem_example_live)
qed

end
