(* ===== verification/Iw_Util.thy ===== *)
theory Iw_Util
  imports Iw_Prelude
begin

text \<open>
  The full-transfer loops over \<open>read\<close>, \<open>write\<close>, \<open>readv\<close> and \<open>writev\<close> (\<open>iwarp/util.c\<close>). The kernel may
  move fewer bytes than asked for: each call takes its count from a list of answers, clamped to what
  the interface allows (at least one byte if there is something to move, at most what was asked for
  and what is there); a negative answer is an error, and when the list is used up calls move all they
  can. A peer's stream is the list of bytes that will still arrive. A vector is the list of the
  lengths of its blocks, laid out one after the other in a buffer. The loops are shown to move exactly
  the bytes asked for, in order, however the kernel cuts the transfer up. Counts are C's: a call moves at most
  \<open>0x7ffff000\<close> bytes and takes at most 1024 blocks, as Linux documents, so \<open>int cc\<close> holds its value; an
  \<open>int\<close> offset that overflows is \<open>Exit\<close>, and comparisons and differences are cut to the width they have.
  The \<open>iw_assert\<close>s of the file are nothing: \<open>util.h\<close> defines the macro so. The rest of the file but its
  printing is at the end.
\<close>

section \<open>The system calls\<close>

datatype sysret = SysErr | Moved nat

definition sys_count :: "int list \<Rightarrow> nat \<Rightarrow> nat \<Rightarrow> sysret" where
  "sys_count ans n avail =
     (case ans of
        [] \<Rightarrow> Moved (min n avail)
      | a # _ \<Rightarrow> if a < 0 then SysErr else Moved (min (max 1 (nat a)) (min n avail)))"

definition no_errors :: "int list \<Rightarrow> bool" where
  "no_errors ans \<longleftrightarrow> (\<forall>a\<in>set ans. 0 \<le> a)"

text \<open>\<open>read\<close> and \<open>write\<close> move at most \<open>MAX_RW_COUNT\<close> bytes a call.\<close>

definition rw_count :: "int list \<Rightarrow> nat \<Rightarrow> nat \<Rightarrow> sysret" where
  "rw_count ans n avail = sys_count ans (min n 0x7ffff000) avail"

text \<open>\<open>readv\<close> and \<open>writev\<close> refuse more than \<open>IOV_MAX\<close> blocks and a total over \<open>SSIZE_MAX\<close>.\<close>

abbreviation IOV_MAX :: nat where "IOV_MAX \<equiv> 1024"

definition iov_count :: "int list \<Rightarrow> nat list \<Rightarrow> nat \<Rightarrow> sysret" where
  "iov_count ans vec avail =
     (if IOV_MAX < length vec \<or> 2 ^ 63 \<le> sum_list vec then SysErr else rw_count ans (sum_list vec) avail)"

text \<open>The value a number gets in a C \<open>int\<close>.\<close>

definition c_int :: "int \<Rightarrow> int" where
  "c_int x = signed_take_bit 31 x"

section \<open>The loops\<close>

text \<open>
  \<open>read_full\<close>: the bytes read, those still to arrive, the answers left. At the end of the file the
  process ends (or, for a multiple of 2 to the 32 bytes, whose \<open>int total\<close> is zero, the loop does not).
\<close>

function read_full_loop :: "int list \<Rightarrow> nat \<Rightarrow> int \<Rightarrow> u8 list \<Rightarrow> (u8 list \<times> u8 list \<times> int list) outcome" where
  "read_full_loop ans num offset rx =
     (if num = 0 then Done ([], rx, ans)
      else case rw_count ans num (length rx) of
        SysErr \<Rightarrow> Exit
      | Moved cc \<Rightarrow>
          if cc = 0 then Exit
          else if offset + int cc \<ge> 2 ^ 31 then Exit
          else bindO (read_full_loop (tl ans) (num - cc) (offset + int cc) (drop cc rx)) (\<lambda>(bs, rx', ans').
            Done (take cc rx @ bs, rx', ans')))"
  by pat_completeness auto

termination by (relation "measure (\<lambda>(ans, num, offset, rx). num)") auto

definition read_full :: "int list \<Rightarrow> nat \<Rightarrow> u8 list \<Rightarrow> (u8 list \<times> u8 list \<times> int list) outcome" where
  "read_full ans num rx = read_full_loop ans num 0 rx"

lemma rw_count_le:
  "rw_count ans n avail = Moved cc \<Longrightarrow> cc \<le> n \<and> cc \<le> avail \<and> (0 < n \<and> 0 < avail \<longrightarrow> 0 < cc) \<and> cc < 2 ^ 31"
  by (auto simp: rw_count_def sys_count_def min_def max_def split: list.splits if_splits)

text \<open>
  \<open>write_full\<close>: whether all was written, the bytes written so far and the answers left. The peer's
  window always opens again, so that a call moves at least one byte or fails.
\<close>

function write_full_loop :: "int list \<Rightarrow> u8 list \<Rightarrow> int \<Rightarrow> (bool \<times> u8 list \<times> int list) outcome" where
  "write_full_loop ans buf ptr =
     (if buf = [] then Done (True, [], ans)
      else case rw_count ans (length buf) (length buf) of
        SysErr \<Rightarrow> Done (False, [], tl ans)
      | Moved cc \<Rightarrow>
          if ptr + int cc \<ge> 2 ^ 31 then Exit
          else bindO (write_full_loop (tl ans) (drop cc buf) (ptr + int cc)) (\<lambda>(ok, bs, ans').
            Done (ok, take cc buf @ bs, ans')))"
  by pat_completeness auto

termination
  by (relation "measure (\<lambda>(ans, buf, ptr). length buf)") (auto dest!: rw_count_le)

definition write_full :: "int list \<Rightarrow> u8 list \<Rightarrow> (int \<times> u8 list \<times> int list) outcome" where
  "write_full ans buf =
     bindO (write_full_loop ans buf 0) (\<lambda>(ok, bs, ans').
       Done (if ok then c_int (int (length buf)) else - 1, bs, ans'))"

text \<open>
  \<open>while (vi < vec_sz && vec[vi].iov_len < (size_t)cc)\<close>: how many blocks it passes, and what is left of
  \<open>cc\<close>.
\<close>

fun iov_skip :: "nat list \<Rightarrow> nat \<Rightarrow> nat \<times> nat" where
  "iov_skip [] cc = (0, cc)"
| "iov_skip (l # ls) cc = (if l < cc then (let (k, c) = iov_skip ls (cc - l) in (Suc k, c)) else (0, cc))"

text \<open>The same walk in \<open>writev_full\<close>, which compares \<open>(int)vec[vi].iov_len < cc\<close>.\<close>

fun iov_skip_int :: "nat list \<Rightarrow> int \<Rightarrow> nat \<times> int" where
  "iov_skip_int [] cc = (0, cc)"
| "iov_skip_int (l # ls) cc =
     (if c_int (int l) < cc then (let (k, c) = iov_skip_int ls (c_int (cc - int l)) in (Suc k, c)) else (0, cc))"

definition put :: "u8 list \<Rightarrow> nat \<Rightarrow> u8 list \<Rightarrow> u8 list" where
  "put buf off bs = take off buf @ bs @ drop (off + length bs) buf"

text \<open>\<open>vec\<close> are the blocks from \<open>vi\<close> on, \<open>off\<close> is where the first of them lies.\<close>

function readv_full :: "int list \<Rightarrow> nat list \<Rightarrow> nat \<Rightarrow> int \<Rightarrow> u8 list \<Rightarrow> u8 list
    \<Rightarrow> (u8 list \<times> u8 list \<times> int list) outcome" where
  "readv_full ans vec off len rx buf =
     (if len \<le> 0 then Done (buf, rx, ans)
      else case iov_count ans vec (length rx) of
        SysErr \<Rightarrow> Exit
      | Moved cc \<Rightarrow>
          let buf = put buf off (take cc rx); rx = drop cc rx; len = len - int cc
          in if len \<le> 0 then Done (buf, rx, tl ans)
             else let (k, c) = iov_skip vec cc
             in if k \<ge> length vec then Exit
                else bindO (read_full (tl ans) (vec ! k - c) rx) (\<lambda>(bs, rx, ans).
                  readv_full ans (drop (Suc k) vec) (off + sum_list (take (Suc k) vec))
                    (len - int (vec ! k - c)) rx (put buf (off + sum_list (take k vec) + c) bs)))"
  by pat_completeness auto

termination by (relation "measure (\<lambda>(ans, vec, off, len, rx, buf). length vec)") auto

text \<open>
  \<open>writev_full\<close> over the bytes of the blocks; \<open>ret\<close> is its local variable. \<open>len\<close> is a \<open>size_t\<close>: when
  more is written than it says it wraps around, and the loop runs past the end of the vector. A negative
  rest of \<open>cc\<close> points before the block.
\<close>

function writev_full :: "int list \<Rightarrow> u8 list list \<Rightarrow> nat \<Rightarrow> int \<Rightarrow> (int \<times> u8 list \<times> int list) outcome" where
  "writev_full ans vec len ret =
     (if len = 0 then Done (ret, [], ans)
      else case iov_count ans (map length vec) (length (concat vec)) of
        SysErr \<Rightarrow> Done (- 1, [], tl ans)
      | Moved cc \<Rightarrow>
          let out = take cc (concat vec)
          in if cc > len then Exit
             else if len = cc then Done (ret, out, tl ans)
             else let (k, c) = iov_skip_int (map length vec) (int cc)
             in if k \<ge> length vec \<or> c < 0 then Exit
                else bindO (write_full (tl ans) (drop (nat c) (vec ! k))) (\<lambda>(ret, bs, ans').
                  let n = length (vec ! k) - nat c
                  in if ret < 0 then Done (ret, out @ bs, ans')
                     else if n > len - cc then Exit
                     else bindO (writev_full ans' (drop (Suc k) vec) (len - cc - n) ret) (\<lambda>(ret, bs', ans'').
                          Done (ret, out @ bs @ bs', ans''))))"
  by pat_completeness auto

termination by (relation "measure (\<lambda>(ans, vec, len, ret). length vec)") auto

declare read_full_loop.simps [simp del] write_full_loop.simps [simp del] readv_full.simps [simp del]
  writev_full.simps [simp del]

section \<open>They move what was asked for\<close>

lemma sys_count_Moved:
  "no_errors ans \<Longrightarrow> \<exists>cc. sys_count ans n avail = Moved cc \<and> cc \<le> n \<and> cc \<le> avail
     \<and> (0 < n \<and> 0 < avail \<longrightarrow> 0 < cc)"
  by (cases ans) (auto simp: sys_count_def no_errors_def min_def max_def)

lemma sys_count_le:
  "sys_count ans n avail = Moved cc \<Longrightarrow> cc \<le> n \<and> cc \<le> avail \<and> (0 < n \<and> 0 < avail \<longrightarrow> 0 < cc)"
  by (auto simp: sys_count_def min_def max_def split: list.splits if_splits)

lemma no_errors_tl: "no_errors ans \<Longrightarrow> no_errors (tl ans)"
  by (cases ans) (auto simp: no_errors_def)

lemma rw_count_Moved:
  "no_errors ans \<Longrightarrow> \<exists>cc. rw_count ans n avail = Moved cc \<and> cc \<le> n \<and> cc \<le> avail
     \<and> (0 < n \<and> 0 < avail \<longrightarrow> 0 < cc) \<and> cc < 2 ^ 31"
  using sys_count_Moved [of ans "min n 0x7ffff000" avail] rw_count_le [of ans n avail]
  by (auto simp: rw_count_def)

lemma iov_count_le:
  "iov_count ans vec avail = Moved cc \<Longrightarrow> cc \<le> sum_list vec \<and> cc \<le> avail \<and> cc < 2 ^ 31"
  using rw_count_le [of ans "sum_list vec" avail] by (simp add: iov_count_def split: if_splits)

text \<open>Vectors whose blocks a C \<open>int\<close> measures, few enough for one call.\<close>

definition iov_ok :: "nat list \<Rightarrow> bool" where
  "iov_ok vec \<longleftrightarrow> length vec \<le> IOV_MAX \<and> (\<forall>l\<in>set vec. l < 2 ^ 31)"

lemma iov_ok_drop: "iov_ok vec \<Longrightarrow> iov_ok (drop n vec)"
  by (auto simp: iov_ok_def dest: in_set_dropD)

lemma iov_ok_concat: "length vec \<le> IOV_MAX \<Longrightarrow> length (concat vec) < 2 ^ 31 \<Longrightarrow> iov_ok (map length vec)"
  by (induction vec) (auto simp: iov_ok_def)

lemma iov_ok_sum: "iov_ok vec \<Longrightarrow> sum_list vec < 2 ^ 63"
proof -
  assume v: "iov_ok vec"
  have "sum_list vec \<le> length vec * 2 ^ 31" if "\<forall>l\<in>set vec. l < 2 ^ 31" using that by (induction vec) auto
  with v have "sum_list vec \<le> length vec * 2 ^ 31" "length vec \<le> 1024" by (auto simp: iov_ok_def)
  then show ?thesis by simp
qed

lemma iov_count_Moved:
  "no_errors ans \<Longrightarrow> iov_ok vec \<Longrightarrow> \<exists>cc. iov_count ans vec avail = Moved cc \<and> cc \<le> sum_list vec \<and> cc \<le> avail
     \<and> cc < 2 ^ 31"
  using rw_count_Moved [of ans "sum_list vec" avail] iov_ok_sum [of vec]
  by (auto simp: iov_count_def iov_ok_def)

lemma c_int_id: "- (2 ^ 31) \<le> x \<Longrightarrow> x < 2 ^ 31 \<Longrightarrow> c_int x = x"
  by (simp add: c_int_def signed_take_bit_int_eq_self)

lemma iov_skip_int_eq:
  "\<forall>l\<in>set ls. l < 2 ^ 31 \<Longrightarrow> cc < 2 ^ 31 \<Longrightarrow>
   iov_skip_int ls (int cc) = (fst (iov_skip ls cc), int (snd (iov_skip ls cc)))"
proof (induction ls cc rule: iov_skip.induct)
  case (2 l ls cc)
  then have "c_int (int l) = int l" "l < cc \<Longrightarrow> c_int (int cc - int l) = int (cc - l)"
    by (auto simp: of_nat_diff intro!: c_int_id)
  with 2 show ?case by (auto split: prod.splits)
qed simp

lemma read_full_loop_ok:
  "no_errors ans \<Longrightarrow> num \<le> length rx \<Longrightarrow> 0 \<le> offset \<Longrightarrow> offset + int num < 2 ^ 31 \<Longrightarrow>
   \<exists>ans'. read_full_loop ans num offset rx = Done (take num rx, drop num rx, ans') \<and> no_errors ans'"
proof (induction ans num offset rx rule: read_full_loop.induct)
  case (1 ans num offset rx)
  show ?case
  proof (cases "num = 0")
    case False
    from rw_count_Moved [OF 1(2), of num "length rx"] False 1(3) obtain cc where
      cc: "rw_count ans num (length rx) = Moved cc" "cc \<le> num" "0 < cc" by auto
    then have le: "cc \<noteq> 0" "\<not> offset + int cc \<ge> 2 ^ 31" using 1(5) by auto
    have fit: "num - cc \<le> length (drop cc rx)" "0 \<le> offset + int cc" "offset + int cc + int (num - cc) < 2 ^ 31"
      using cc 1(3-5) by auto
    from 1(1) [OF False cc(1) le no_errors_tl [OF 1(2)] fit] obtain ans' where
      "read_full_loop (tl ans) (num - cc) (offset + int cc) (drop cc rx)
        = Done (take (num - cc) (drop cc rx), drop (num - cc) (drop cc rx), ans')"
      "no_errors ans'" by auto
    then show ?thesis
      using False cc le by (subst read_full_loop.simps) (auto simp: take_add [symmetric] add.commute)
  qed (use 1 in \<open>simp add: read_full_loop.simps\<close>)
qed

lemma read_full_ok:
  "no_errors ans \<Longrightarrow> num \<le> length rx \<Longrightarrow> num < 2 ^ 31 \<Longrightarrow>
   \<exists>ans'. read_full ans num rx = Done (take num rx, drop num rx, ans') \<and> no_errors ans'"
  using read_full_loop_ok [of ans num rx 0] by (simp add: read_full_def)

lemma read_full_loop_short: "length rx < num \<Longrightarrow> read_full_loop ans num offset rx = Exit"
proof (induction ans num offset rx rule: read_full_loop.induct)
  case (1 ans num offset rx)
  show ?case
  proof (cases "rw_count ans num (length rx)")
    case (Moved cc)
    then have "cc \<le> length rx" using rw_count_le by blast
    then show ?thesis using 1 Moved by (subst read_full_loop.simps) auto
  qed (use 1 in \<open>simp add: read_full_loop.simps\<close>)
qed

lemma read_full_short: "length rx < num \<Longrightarrow> read_full ans num rx = Exit"
  by (simp add: read_full_def read_full_loop_short)

text \<open>No read of 2 GB or more comes back.\<close>

lemma read_full_loop_big: "offset + int num \<ge> 2 ^ 31 \<Longrightarrow> offset < 2 ^ 31 \<Longrightarrow> read_full_loop ans num offset rx = Exit"
proof (induction ans num offset rx rule: read_full_loop.induct)
  case (1 ans num offset rx)
  show ?case
  proof (cases "rw_count ans num (length rx)")
    case (Moved cc)
    then have "cc \<le> num" using rw_count_le by blast
    then show ?thesis using 1 Moved by (subst read_full_loop.simps) auto
  qed (use 1 in \<open>simp add: read_full_loop.simps\<close>)
qed

lemma read_full_big: "2 ^ 31 \<le> num \<Longrightarrow> read_full ans num rx = Exit"
  by (simp add: read_full_def read_full_loop_big)

lemma write_full_loop_prefix:
  "write_full_loop ans buf ptr = Done (ok, bs, ans') \<Longrightarrow> (\<exists>rest. buf = bs @ rest \<and> (ok \<longrightarrow> rest = []))"
proof (induction ans buf ptr arbitrary: ok bs ans' rule: write_full_loop.induct)
  case (1 ans buf ptr)
  show ?case
  proof (cases "buf = []")
    case False
    show ?thesis
    proof (cases "rw_count ans (length buf) (length buf)")
      case (Moved cc)
      have p: "\<not> ptr + int cc \<ge> 2 ^ 31" using 1(2) False Moved by (auto simp: write_full_loop.simps [of ans buf])
      with 1(2) False Moved obtain bs1 where
        r: "write_full_loop (tl ans) (drop cc buf) (ptr + int cc) = Done (ok, bs1, ans')" "bs = take cc buf @ bs1"
        by (auto simp: write_full_loop.simps [of ans buf] outcome_simps)
      from 1(1) [OF False Moved p r(1)] obtain rest where "drop cc buf = bs1 @ rest" "ok \<longrightarrow> rest = []" by auto
      then show ?thesis
        using append_take_drop_id [of cc buf] by (auto simp: r(2) intro!: exI [of _ rest])
    qed (use 1(2) False in \<open>auto simp: write_full_loop.simps [of ans buf]\<close>)
  qed (use 1 in \<open>auto simp: write_full_loop.simps\<close>)
qed

lemma write_full_loop_ok:
  "no_errors ans \<Longrightarrow> 0 \<le> ptr \<Longrightarrow> ptr + int (length buf) < 2 ^ 31 \<Longrightarrow>
   \<exists>ans'. write_full_loop ans buf ptr = Done (True, buf, ans') \<and> no_errors ans'"
proof (induction ans buf ptr rule: write_full_loop.induct)
  case (1 ans buf ptr)
  show ?case
  proof (cases "buf = []")
    case False
    from rw_count_Moved [OF 1(2), of "length buf" "length buf"] obtain cc where
      cc: "rw_count ans (length buf) (length buf) = Moved cc" "cc \<le> length buf" by auto
    then have p: "\<not> ptr + int cc \<ge> 2 ^ 31" using 1(4) by auto
    have fit: "0 \<le> ptr + int cc" "ptr + int cc + int (length (drop cc buf)) < 2 ^ 31" using cc 1(3,4) by auto
    from 1(1) [OF False cc(1) p no_errors_tl [OF 1(2)] fit] False cc(1) p show ?thesis
      by (auto simp: write_full_loop.simps [of ans buf])
  qed (use 1 in \<open>auto simp: write_full_loop.simps\<close>)
qed

lemma write_full_prefix:
  assumes "write_full ans buf = Done (ret, bs, ans')"
  shows "\<exists>rest. buf = bs @ rest \<and> (0 \<le> ret \<longrightarrow> rest = [])"
proof -
  from assms obtain ok where w: "write_full_loop ans buf 0 = Done (ok, bs, ans')"
      "ret = (if ok then c_int (int (length buf)) else - 1)"
    by (auto simp: write_full_def outcome_simps)
  with write_full_loop_prefix [OF w(1)] show ?thesis by auto
qed

lemma write_full_ok:
  "no_errors ans \<Longrightarrow> length buf < 2 ^ 31 \<Longrightarrow>
   \<exists>ans'. write_full ans buf = Done (int (length buf), buf, ans') \<and> no_errors ans'"
  using write_full_loop_ok [of ans 0 buf] by (auto simp: write_full_def c_int_id)

lemma iov_skip_spec:
  "iov_skip ls cc = (k, c) \<Longrightarrow> k \<le> length ls \<and> cc = sum_list (take k ls) + c \<and> (k < length ls \<longrightarrow> c \<le> ls ! k)"
  by (induction ls cc arbitrary: k c rule: iov_skip.induct) (auto split: if_splits prod.splits)

lemma iov_skip_inside: "cc < sum_list ls \<Longrightarrow> fst (iov_skip ls cc) < length ls"
  by (induction ls cc rule: iov_skip.induct) (auto split: prod.splits)

lemma put_put:
  "off + length xs + length ys \<le> length buf \<Longrightarrow>
   put (put buf off xs) (off + length xs) ys = put buf off (xs @ ys)"
  by (cases "off = length buf") (auto simp: put_def min_def ac_simps)

lemma put_take_drop:
  "off + m + n \<le> length buf \<Longrightarrow> m + n \<le> length rx \<Longrightarrow>
   put (put buf off (take m rx)) (off + m) (take n (drop m rx)) = put buf off (take (m + n) rx)"
  using put_put [of off "take m rx" "take n (drop m rx)" buf] by (simp add: take_add)

lemma length_put [simp]: "off + length xs \<le> length buf \<Longrightarrow> length (put buf off xs) = length buf"
  by (simp add: put_def)

lemma put_Nil [simp]: "put buf off [] = buf"
  by (simp add: put_def)

lemma sum_list_take_Suc: "k < length ls \<Longrightarrow> sum_list (take (Suc k) ls) = sum_list (take k ls) + ls ! k"
  by (simp add: take_Suc_conv_app_nth)

lemma sum_list_split: "sum_list (take n ls) + sum_list (drop n ls) = sum_list (ls :: nat list)"
  by (metis append_take_drop_id sum_list.append)

lemma readv_full_ok:
  "no_errors ans \<Longrightarrow> len = int (sum_list vec) \<Longrightarrow> sum_list vec \<le> length rx \<Longrightarrow>
   off + sum_list vec \<le> length buf \<Longrightarrow> iov_ok vec \<Longrightarrow>
   \<exists>ans'. readv_full ans vec off len rx buf
      = Done (put buf off (take (sum_list vec) rx), drop (sum_list vec) rx, ans') \<and> no_errors ans'"
proof (induction ans vec off len rx buf rule: readv_full.induct)
  case (1 ans vec off len rx buf)
  let ?s = "sum_list vec"
  show ?case
  proof (cases "len \<le> 0")
    case True
    with 1(3) have "?s = 0" by simp
    with True 1(2) show ?thesis by (simp add: readv_full.simps del: sum_list_eq_0_iff)
  next
    case pos: False
    from iov_count_Moved [OF 1(2,6), of "length rx"] obtain cc where
      cc: "iov_count ans vec (length rx) = Moved cc" "cc \<le> ?s" by auto
    note unf = readv_full.simps [of ans vec off len rx buf]
    show ?thesis
    proof (cases "cc = ?s")
      case True
      then have "\<not> len \<le> 0" "len - int cc \<le> 0" using pos 1(3) by auto
      then show ?thesis using True cc(1) no_errors_tl [OF 1(2)] by (subst unf) (simp add: Let_def del: sum_list_eq_0_iff)
    next
      case False
      with cc have lt: "cc < ?s" by simp
      obtain k c where kc: "iov_skip vec cc = (k, c)" by force
      from iov_skip_spec [OF this] iov_skip_inside [OF lt] kc have
        k: "k < length vec" "cc = sum_list (take k vec) + c" "c \<le> vec ! k" by auto
      let ?n = "vec ! k - c"
      have s: "?s = cc + ?n + sum_list (drop (Suc k) vec)"
        using sum_list_split [of "Suc k" vec] sum_list_take_Suc [OF k(1)] k by simp
      have "?n \<le> length (drop cc rx)" using s 1(4) by simp
      moreover have "?n < 2 ^ 31" using 1(6) nth_mem [OF k(1)] by (auto simp: iov_ok_def)
      ultimately obtain ans1 where
        r: "read_full (tl ans) ?n (drop cc rx) = Done (take ?n (drop cc rx), drop ?n (drop cc rx), ans1)"
          "no_errors ans1" using read_full_ok [OF no_errors_tl [OF 1(2)]] by blast
      let ?rest = "drop (Suc k) vec" and ?rx2 = "drop ?n (drop cc rx)"
      let ?b2 = "put (put buf off (take cc rx)) (off + sum_list (take k vec) + c) (take ?n (drop cc rx))"
      have le: "\<not> len \<le> 0" "\<not> len - int cc \<le> 0" "\<not> length vec \<le> k" using pos lt 1(3) k(1) by auto
      have offs: "off + sum_list (take k vec) + c = off + cc" using k(2) by simp
      have offS: "off + sum_list (take (Suc k) vec) = off + (cc + ?n)"
        using sum_list_take_Suc [OF k(1)] k(2,3) by simp
      have b2: "?b2 = put buf off (take (cc + ?n) rx)"
        using put_take_drop [of off cc ?n buf rx] s 1(4,5) unfolding offs by linarith
      have lb: "length (put buf off (take (cc + ?n) rx)) = length buf" using s 1(4,5) by simp
      have step: "readv_full ans vec off len rx buf
        = readv_full ans1 ?rest (off + sum_list (take (Suc k) vec)) (len - int cc - int ?n) ?rx2 ?b2"
        using le cc(1) kc r(1) by (subst unf) (simp add: Let_def del: drop_drop)
      have ints: "len - int cc - int ?n = int (sum_list ?rest)" using s 1(3) by simp
      have fit: "sum_list ?rest \<le> length ?rx2" "off + (cc + ?n) + sum_list ?rest \<le> length buf"
        using s 1(4,5) by auto
      have "\<exists>ans'. readv_full ans1 ?rest (off + sum_list (take (Suc k) vec)) (len - int cc - int ?n) ?rx2 ?b2
        = Done (put ?b2 (off + sum_list (take (Suc k) vec)) (take (sum_list ?rest) ?rx2),
            drop (sum_list ?rest) ?rx2, ans') \<and> no_errors ans'"
        by (rule 1(1) [OF le(1) cc(1) refl refl refl le(2) kc [symmetric] refl le(3) r(1) refl refl r(2) ints fit(1) _ iov_ok_drop [OF 1(6)]])
           (unfold b2 lb offS, rule fit(2))
      moreover have "put ?b2 (off + sum_list (take (Suc k) vec)) (take (sum_list ?rest) ?rx2)
        = put buf off (take ?s rx)"
        using put_take_drop [of off "cc + ?n" "sum_list ?rest" buf rx] s 1(4,5)
        unfolding b2 offS by (simp add: add.commute [of ?n])
      moreover have "drop (sum_list ?rest) ?rx2 = drop ?s rx" by (simp add: s ac_simps)
      ultimately show ?thesis unfolding step by simp
    qed
  qed
qed

lemma writev_full_prefix:
  "writev_full ans vec len ret = Done (ret', out, ans') \<Longrightarrow> 0 \<le> ret \<Longrightarrow> \<forall>b\<in>set vec. length b < 2 ^ 31 \<Longrightarrow>
   (\<exists>rest. concat vec = out @ rest) \<and> (0 \<le> ret' \<longrightarrow> length out = len)"
proof (induction ans vec len ret arbitrary: ret' out ans' rule: writev_full.induct)
  case (1 ans vec len ret)
  note unf = writev_full.simps [of ans vec len ret]
  show ?case
  proof (cases "len = 0")
    case pos: False
    show ?thesis
    proof (cases "iov_count ans (map length vec) (length (concat vec))")
      case SysErr
      then show ?thesis using 1(2) pos by (auto simp: unf)
    next
      case (Moved cc)
      have ccl: "cc \<le> length (concat vec)" "cc < 2 ^ 31" using iov_count_le [OF Moved] by simp_all
      have nle: "\<not> cc > len" using 1(2) pos Moved by (auto simp: unf split: if_splits)
      show ?thesis
      proof (cases "len = cc")
        case True
        have "out = take cc (concat vec)"
          using 1(2) pos Moved unfolding True by (simp add: writev_full.simps [of ans vec cc ret])
        then show ?thesis using True ccl
          by (auto intro: exI [of _ "drop cc (concat vec)"] simp del: length_concat)
      next
        case False
        obtain k c where kc: "iov_skip (map length vec) cc = (k, c)" by force
        then have kc': "iov_skip_int (map length vec) (int cc) = (k, int c)"
          using iov_skip_int_eq [of "map length vec" cc] 1(4) ccl(2) by simp
        have k: "\<not> k \<ge> length vec" using 1(2) pos Moved nle False kc' by (auto simp: unf Let_def split: if_splits)
        have sp: "cc = length (concat (take k vec)) + c" "c \<le> length (vec ! k)"
          using iov_skip_spec [OF kc] k by (auto simp: length_concat take_map)
        obtain r1 b1 a1 where w: "write_full (tl ans) (drop c (vec ! k)) = Done (r1, b1, a1)"
          using 1(2) pos Moved nle False kc' k by (auto simp: unf Let_def outcome_simps)
        from write_full_prefix [OF w] obtain rest where
          b1: "drop c (vec ! k) = b1 @ rest" "0 \<le> r1 \<longrightarrow> rest = []" by auto
        have cat: "concat vec = take cc (concat vec) @ drop c (vec ! k) @ concat (drop (Suc k) vec)"
        proof -
          have v: "vec = take k vec @ vec ! k # drop (Suc k) vec" using k by (simp add: id_take_nth_drop)
          have "concat vec = concat (take k vec) @ (take c (vec ! k) @ drop c (vec ! k)) @ concat (drop (Suc k) vec)"
            by (subst v) simp
          moreover have "take cc (concat vec) = concat (take k vec) @ take c (vec ! k)"
            by (subst v) (simp add: sp(1) sp(2))
          ultimately show ?thesis by simp
        qed
        show ?thesis
        proof (cases "r1 < 0")
          case True
          then have "ret' = r1" "out = take cc (concat vec) @ b1"
            using 1(2) pos Moved nle False kc' k w by (auto simp: unf Let_def)
          then show ?thesis using True cat b1(1) by (auto intro!: exI [of _ "rest @ concat (drop (Suc k) vec)"]) 
        next
          case ok: False
          let ?n = "length (vec ! k) - c"
          have n: "\<not> ?n > len - cc" using 1(2) pos Moved nle False kc' k w ok by (auto simp: unf Let_def split: if_splits)
          obtain ret2 bs2 ans2 where rec: "writev_full a1 (drop (Suc k) vec) (len - cc - ?n) r1 = Done (ret2, bs2, ans2)"
            and eq: "ret' = ret2" "out = take cc (concat vec) @ b1 @ bs2"
            using 1(2) pos Moved nle False kc' k w ok n by (auto simp: unf Let_def bindO_Done_iff)
          have "\<not> (length vec \<le> k \<or> int c < 0)" "\<forall>b\<in>set (drop (Suc k) vec). length b < 2 ^ 31"
            using k 1(4) by (auto dest: in_set_dropD)
          note ih = 1(1) [OF pos Moved refl nle False kc' [symmetric] refl this(1) _ refl refl refl ok _ _ _ this(2),
              unfolded nat_int, OF w n rec]
          from ih ok obtain rest2 where
            r2: "concat (drop (Suc k) vec) = bs2 @ rest2" "0 \<le> ret2 \<longrightarrow> length bs2 = len - cc - ?n"
            by auto
          have "b1 = drop c (vec ! k)" using b1 ok by simp
          then show ?thesis
            using cat r2 eq n nle ccl sp(2) by (auto intro!: exI [of _ rest2] simp: min_def simp del: length_concat)
        qed
      qed
    qed
  next
    case True
    with 1(2) show ?thesis by (simp add: writev_full.simps [of ans vec 0 ret])
  qed
qed

lemma writev_full_total:
  "no_errors ans \<Longrightarrow> len = length (concat vec) \<Longrightarrow> 0 \<le> ret \<Longrightarrow> iov_ok (map length vec) \<Longrightarrow>
   \<exists>ret' ans'. writev_full ans vec len ret = Done (ret', concat vec, ans') \<and> no_errors ans' \<and> 0 \<le> ret'"
proof (induction ans vec len ret rule: writev_full.induct)
  case (1 ans vec len ret)
  note unf = writev_full.simps [of ans vec len ret]
  show ?case
  proof (cases "len = 0")
    case pos: False
    from iov_count_Moved [OF 1(2,5), of "length (concat vec)"] 1(3) obtain cc where
      cc: "iov_count ans (map length vec) (length (concat vec)) = Moved cc" "cc \<le> len" "cc < 2 ^ 31" by auto
    show ?thesis
    proof (cases "len = cc")
      case True
      then show ?thesis using cc 1(2-4) pos no_errors_tl unfolding unf by (simp add: Let_def)
    next
      case False
      obtain k c where kc: "iov_skip (map length vec) cc = (k, c)" by force
      then have kc': "iov_skip_int (map length vec) (int cc) = (k, int c)"
        using iov_skip_int_eq [of "map length vec" cc] 1(5) cc(3) by (simp add: iov_ok_def)
      have k: "k < length vec" "cc = length (concat (take k vec)) + c" "c \<le> length (vec ! k)"
        using iov_skip_spec [OF kc] iov_skip_inside [of cc "map length vec"] kc False cc(2) 1(3)
        by (auto simp: length_concat take_map)
      let ?b1 = "drop c (vec ! k)"
      have "length (vec ! k) < 2 ^ 31" using 1(5) k(1) by (simp add: iov_ok_def)
      then have "length ?b1 < 2 ^ 31" by simp
      from write_full_ok [OF no_errors_tl [OF 1(2)] this] obtain a1 where
        w: "write_full (tl ans) ?b1 = Done (int (length ?b1), ?b1, a1)" "no_errors a1" by blast
      have cat: "concat vec = concat (take k vec) @ take c (vec ! k) @ ?b1 @ concat (drop (Suc k) vec)"
        using id_take_nth_drop [OF k(1)] by (metis append.assoc append_take_drop_id concat.simps(2) concat_append)
      let ?n = "length (vec ! k) - c"
      have out: "take cc (concat vec) = concat (take k vec) @ take c (vec ! k)"
        using k(2,3) by (subst cat) simp
      have n: "\<not> ?n > len - cc" "len - cc - ?n = length (concat (drop (Suc k) vec))"
        using 1(3) k(2,3) by (subst (asm) cat, simp)+
      have rest: "iov_ok (map length (drop (Suc k) vec))" using iov_ok_drop [OF 1(5)] by (simp add: drop_map)
      have nb: "\<not> (length vec \<le> k \<or> int c < 0)" "\<not> cc > len" using k(1) cc(2) by auto
      have "\<exists>ret' ans'. writev_full a1 (drop (Suc k) vec) (len - cc - ?n) (int (length ?b1))
        = Done (ret', concat (drop (Suc k) vec), ans') \<and> no_errors ans' \<and> 0 \<le> ret'"
        using 1(1) [OF pos cc(1) refl nb(2) False kc' [symmetric] refl nb(1) _ refl refl refl _ _ w(2) _ _ rest,
            unfolded nat_int, OF w(1)] n by simp
      then obtain ret' ans' where "writev_full a1 (drop (Suc k) vec) (len - cc - ?n) (int (length ?b1))
        = Done (ret', concat (drop (Suc k) vec), ans')" "no_errors ans'" "0 \<le> ret'" by auto
      moreover have "concat vec = take cc (concat vec) @ ?b1 @ concat (drop (Suc k) vec)"
        unfolding out by (subst cat) simp
      ultimately show ?thesis
        using pos cc False kc' nb w n(1) unfolding unf by (simp add: Let_def)
    qed
  qed (use 1 in \<open>auto simp: writev_full.simps\<close>)
qed

section \<open>Properties\<close>

text \<open>
  C10. \<open>readv_full\<close>, given at most 1024 blocks that are each shorter than 2 GB (what \<open>readv\<close> takes and
  an \<open>int\<close> counts), fills them with exactly the next bytes of the stream, whatever counts the kernel
  answers with, when no call fails and the bytes arrive; it reads nothing beyond them.
\<close>

theorem readv_full_exact:
  assumes "no_errors ans" and "sum_list vec \<le> length rx" and "length buf = sum_list vec"
    and "length vec \<le> 1024" and "\<forall>l\<in>set vec. l < 2 ^ 31"
  shows "\<exists>ans'. readv_full ans vec 0 (int (sum_list vec)) rx buf
    = Done (take (sum_list vec) rx, drop (sum_list vec) rx, ans')"
  using readv_full_ok [OF assms(1) refl assms(2), of 0 buf] assms(2-5) by (auto simp: put_def iov_ok_def)

theorem readv_full_exact_witness:
  "\<exists>ans'. readv_full [2, 1] [3, 2, 1] 0 6 [1, 2, 3, 4, 5, 6, 7] [0, 0, 0, 0, 0, 0]
    = Done ([1, 2, 3, 4, 5, 6], [7], ans')"
  using readv_full_exact [of "[2, 1]" "[3, 2, 1]" "[1, 2, 3, 4, 5, 6, 7]" "[0, 0, 0, 0, 0, 0]"]
  by (simp add: no_errors_def)

text \<open>
  C11. \<open>writev_full\<close>, given the length of its blocks, each shorter than 2 GB (so that an \<open>int\<close> holds it),
  comes back only with a prefix of them written, in order and with nothing repeated or left out, and all of
  them when it does not report an error; and it comes back without an error whenever no call fails and there
  are at most 1024 blocks (what \<open>writev\<close> takes).
\<close>

theorem writev_full_exact:
  assumes "\<forall>b\<in>set vec. length b < 2 ^ 31"
  shows "(\<forall>ret out ans'. writev_full ans vec (length (concat vec)) 0 = Done (ret, out, ans') \<longrightarrow>
      (\<exists>rest. concat vec = out @ rest) \<and> (0 \<le> ret \<longrightarrow> out = concat vec))
    \<and> (no_errors ans \<and> length vec \<le> 1024 \<longrightarrow>
        (\<exists>ret ans'. writev_full ans vec (length (concat vec)) 0 = Done (ret, concat vec, ans') \<and> 0 \<le> ret))"
proof (intro conjI allI impI)
  fix ret out ans'
  assume w: "writev_full ans vec (length (concat vec)) 0 = Done (ret, out, ans')"
  from writev_full_prefix [OF w order_refl assms] obtain rest where
    r: "concat vec = out @ rest" "0 \<le> ret \<longrightarrow> length out = length (concat vec)" by blast
  then show "\<exists>rest. concat vec = out @ rest" by blast
  assume "0 \<le> ret"
  then have "length out = length (out @ rest)" using r(2) unfolding r(1) by simp
  then show "out = concat vec" using r(1) by simp
next
  assume "no_errors ans \<and> length vec \<le> 1024"
  then show "\<exists>ret ans'. writev_full ans vec (length (concat vec)) 0 = Done (ret, concat vec, ans') \<and> 0 \<le> ret"
    using writev_full_total [of ans _ vec 0] assms by (auto simp: iov_ok_def)
qed

theorem writev_full_exact_witness:
  "(\<exists>rest. concat [[1, 2], [3, 4 :: u8]] = [1, 2, 3, 4] @ rest) \<and> [1, 2, 3, 4 :: u8] = concat [[1, 2], [3, 4]]
    \<and> (\<exists>ret ans'. writev_full [2, 1] [[1, 2], [3, 4]] (Suc (Suc (Suc (Suc 0)))) 0 = Done (ret, [1, 2, 3, 4], ans') \<and> 0 \<le> ret)"
proof -
  have "writev_full [2, 1] [[1, 2], [3, 4]] (length (concat [[1, 2], [3, 4 :: u8]])) 0 = Done (1, [1, 2, 3, 4], [])"
    by (simp add: writev_full.simps write_full_def write_full_loop.simps iov_count_def rw_count_def sys_count_def
      c_int_def signed_take_bit_int_eq_self Let_def)
  with writev_full_exact [of "[[1, 2], [3, 4]]" "[2, 1]"] show ?thesis by (auto simp: no_errors_def)
qed

section \<open>The name of the program and the allocator\<close>

text \<open>The loop looks for \<open>/\<close> from the start on; the name is what follows the last one.\<close>

fun progname_loop :: "string \<Rightarrow> string \<Rightarrow> string" where
  "progname_loop progname [] = progname"
| "progname_loop progname (c # cp) = progname_loop (if c = CHR ''/'' then cp else progname) cp"

definition set_progname :: "string \<Rightarrow> string" where
  "set_progname argv0 = progname_loop argv0 argv0"

lemma progname_loop_slash: "CHR ''/'' \<notin> set name \<Longrightarrow> progname_loop p (dir @ CHR ''/'' # name) = name"
proof -
  assume n: "CHR ''/'' \<notin> set name"
  then have "progname_loop p name = p" for p by (induction name arbitrary: p) auto
  then show ?thesis by (induction dir arbitrary: p) simp_all
qed

lemma set_progname_base:
  assumes "CHR ''/'' \<notin> set name"
  shows "set_progname name = name" "set_progname (dir @ CHR ''/'' # name) = name"
proof -
  have "progname_loop p name = p" for p using assms by (induction name arbitrary: p) auto
  then show "set_progname name = name" by (simp add: set_progname_def)
  show "set_progname (dir @ CHR ''/'' # name) = name" using assms by (simp add: set_progname_def progname_loop_slash)
qed

text \<open>\<open>Malloc\<close> ends the process when it is asked for nothing or gets nothing; \<open>got\<close> is what \<open>malloc\<close> returns.\<close>

definition Malloc :: "u32 \<Rightarrow> u64 option \<Rightarrow> u64 outcome" where
  "Malloc n got = (if n = 0 then Exit else case got of None \<Rightarrow> Exit | Some x \<Rightarrow> Done x)"

text \<open>The length is cut to 32 bits by the call, so a string of 4 GB is copied past the end of its block.\<close>

definition strsave :: "string \<Rightarrow> u64 option \<Rightarrow> (u64 \<times> string) outcome" where
  "strsave s got =
     bindO (Malloc (of_nat (length s + 1)) got) (\<lambda>t.
       if length s + 1 > unat (of_nat (length s + 1) :: u32) then Exit else Done (t, s))"

lemma strsave_saves:
  assumes "length s + 1 < 2 ^ 32"
  shows "strsave s (Some t) = Done (t, s)"
proof -
  have u: "unat (of_nat (length s + 1) :: u32) = length s + 1" using assms by (simp add: unat_of_nat del: of_nat_Suc of_nat_add)
  then have "(of_nat (length s + 1) :: u32) \<noteq> 0" by (metis add_is_0 one_neq_zero unat_0)
  with u show ?thesis by (simp add: strsave_def Malloc_def del: of_nat_Suc of_nat_add)
qed

end
