(* ===== verification/Iw_State.thy ===== *)
theory Iw_State
  imports Iw_Cq Iw_Ht Iw_Mem Iw_Util
begin

text \<open>
  The state of the user-level stack: the per-socket structures of \<open>iwarp/iwsk.h\<close>, the list entries
  that hang off them (\<open>iwarp/ddp.c\<close>, \<open>iwarp/rdmap.c\<close>), the global variables of the layers, the
  completion queues, and the sockets as the kernel sees them. The functions of the layers take the
  socket structure and return it updated, and the table of sockets (\<open>iwarp/iwsk.c\<close>) is read and
  written by the entry points. Lists kept with \<open>list.h\<close> are HOL lists here; \<open>Iw_List\<close> shows that the
  pointer operations are the list operations.
\<close>

section \<open>Per-socket structures\<close>

type_synonym sock = u32
type_synonym bool_t = u8

record mpa_sk_ent =
  use_crc :: bool_t
  use_mrkr :: bool_t
  recv_mp :: u32
  send_mp :: u32
  recv_sp :: u32
  send_sp :: u32
  mss :: u32
  skidx :: u32

record ddp_tag_msg =
  tm_len :: u32
  tm_stag :: stag

record ddp_untag_msg =
  um_len :: u32
  um_msn :: u32
  um_qn :: u32

record ddp_sk_ent =
  recv_msn :: u32
  send_msn :: u32
  ddp_sgmnt_len :: u32
  outst_tag :: "ddp_tag_msg list"
  outst_untag :: "ddp_untag_msg list"

record rdmap_untag_wrd =
  uw_id :: u64
  uw_buf :: u64
  uw_len :: u64

record rdmap_tag_wrd =
  tw_id :: u64
  tw_stag :: stag
  tw_complete :: bool
  tw_len :: u32

text \<open>
  The three untagged queues: receive buffers of the user, and the entries made up for incoming read
  requests and terminate messages, whose buffer is the message itself.
\<close>

record rdmap_sk_ent =
  send_q :: "rdmap_untag_wrd list"
  rdmareq_q :: "u8 list list"
  term_q :: "u8 list list"
  rwrq :: "rdmap_tag_wrd list"
  sink_msn :: u32

text \<open>
  \<open>lists_set\<close> holds when the heads of the lists are initialised. In a zeroed structure they are \<open>NULL\<close>, and
  what appends to such a list or asks whether it is empty goes wrong.
\<close>

record iwsk =
  sk_fd :: sock
  lists_set :: bool
  scq :: "nat option"
  rcq :: "nat option"
  rdmapsk :: rdmap_sk_ent
  ddpsk :: ddp_sk_ent
  mpask :: mpa_sk_ent

section \<open>Sockets and globals\<close>

text \<open>
  A connection: the bytes that will still arrive, those accepted for sending, the counts the kernel
  answers reads and writes with, the socket options read at registration (\<open>None\<close>: the
  option is not available), and whether \<open>setsockopt\<close> grants \<open>TCP_NODELAY\<close>.
\<close>

record conn =
  rx :: "u8 list"
  tx :: "u8 list"
  rd_ans :: "int list"
  wr_ans :: "int list"
  ip_mtu :: "u32 option"
  tcp_maxseg :: u32
  nodelay_ok :: bool

text \<open>\<open>mpa_freed\<close>: the blocks that \<open>mpa_init\<close> allocated are freed, the array of \<open>poll\<close> among them.\<close>

record world =
  mem :: memory
  conns :: "sock \<Rightarrow> conn"
  iwht :: "iwsk ht"
  cqs :: "nat \<Rightarrow> cq"
  mm :: mem_state
  last_send_sk :: "sock option"
  last_recv_sk :: "sock option"
  untagged_payld_len :: u16
  tagged_payld_len :: u16
  pollsks :: "sock list"
  mpa_freed :: bool
  rdma_write_count :: u32
  mpa_send_cntr :: u32
  mpa_recv_cntr :: u32
  mrkr_rsvd :: "nat \<Rightarrow> u16"

definition set_conn :: "sock \<Rightarrow> conn \<Rightarrow> world \<Rightarrow> world" where
  "set_conn s c w = w\<lparr>conns := (conns w)(s := c)\<rparr>"

definition set_cq :: "nat \<Rightarrow> cq \<Rightarrow> world \<Rightarrow> world" where
  "set_cq i q w = w\<lparr>cqs := (cqs w)(i := q)\<rparr>"

section \<open>The socket calls\<close>

definition sock_read :: "sock \<Rightarrow> nat \<Rightarrow> world \<Rightarrow> (u8 list \<times> world) outcome" where
  "sock_read s n w =
     (let c = conns w s
      in bindO (read_full (rd_ans c) n (rx c)) (\<lambda>(bs, rx', ans).
           Done (bs, set_conn s (c\<lparr>rx := rx', rd_ans := ans\<rparr>) w)))"

text \<open>\<open>readv_full\<close> into blocks of the lengths \<open>vec\<close>, whose bytes are \<open>old\<close> before.\<close>

definition sock_readv :: "sock \<Rightarrow> nat list \<Rightarrow> int \<Rightarrow> u8 list \<Rightarrow> world \<Rightarrow> (u8 list \<times> world) outcome" where
  "sock_readv s vec len old w =
     (let c = conns w s
      in bindO (readv_full (rd_ans c) vec 0 len (rx c) old) (\<lambda>(bs, rx', ans).
           Done (bs, set_conn s (c\<lparr>rx := rx', rd_ans := ans\<rparr>) w)))"

definition sock_write :: "sock \<Rightarrow> u8 list \<Rightarrow> world \<Rightarrow> (int \<times> world) outcome" where
  "sock_write s bs w =
     (let c = conns w s
      in bindO (write_full (wr_ans c) bs) (\<lambda>(ret, out, ans).
           Done (ret, set_conn s (c\<lparr>tx := tx c @ out, wr_ans := ans\<rparr>) w)))"

definition sock_writev :: "sock \<Rightarrow> u8 list list \<Rightarrow> nat \<Rightarrow> world \<Rightarrow> (int \<times> world) outcome" where
  "sock_writev s vec len w =
     (let c = conns w s
      in bindO (writev_full (wr_ans c) vec len 0) (\<lambda>(ret, out, ans).
           Done (ret, set_conn s (c\<lparr>tx := tx c @ out, wr_ans := ans\<rparr>) w)))"

section \<open>The table of sockets\<close>

abbreviation MAX_SOCKETS :: nat where "MAX_SOCKETS \<equiv> 128"

definition iwsk_init :: "world \<Rightarrow> world outcome" where
  "iwsk_init w = bindO (ht_create (of_nat MAX_SOCKETS)) (\<lambda>t. Done (w\<lparr>iwht := t\<rparr>))"

text \<open>The table that \<open>iwsk_fin\<close> frees stays pointed to; what uses it afterwards is undefined.\<close>

definition iwsk_fin :: "world \<Rightarrow> world outcome" where
  "iwsk_fin w = bindO (ht_destroy (iwht w)) (\<lambda>_. Done (w\<lparr>iwht := ht_null\<rparr>))"

definition iwht_new :: "iwsk ht" where
  "iwht_new = \<lparr>ht_sz = 128, ht_nnodes = 0, ht_nodes = replicate 128 []\<rparr>"

lemma iwsk_init_eq: "iwsk_init w = Done (w\<lparr>iwht := iwht_new\<rparr>)"
  by (simp add: iwsk_init_def ht_create_Done iwht_new_def)

lemma iwht_new_inv: "ht_inv iwht_new" "ht_map iwht_new = Map.empty"
  using ht_create_inv [of 128] by (auto simp: ht_create_Done iwht_new_def)

text \<open>The structure of a new socket, all bytes zero.\<close>

definition iwsk_zero :: "sock \<Rightarrow> iwsk" where
  "iwsk_zero s = \<lparr>sk_fd = s, lists_set = False, scq = None, rcq = None,
     rdmapsk = \<lparr>send_q = [], rdmareq_q = [], term_q = [], rwrq = [], sink_msn = 0\<rparr>,
     ddpsk = \<lparr>recv_msn = 0, send_msn = 0, ddp_sgmnt_len = 0, outst_tag = [], outst_untag = []\<rparr>,
     mpask = \<lparr>use_crc = 0, use_mrkr = 0, recv_mp = 0, send_mp = 0, recv_sp = 0, send_sp = 0, mss = 0, skidx = 0\<rparr>\<rparr>"

definition iwsk_insert :: "sock \<Rightarrow> world \<Rightarrow> world outcome" where
  "iwsk_insert s w = bindO (ht_insert (iwht w) s (iwsk_zero s)) (\<lambda>t. Done (w\<lparr>iwht := t\<rparr>))"

definition iwsk_delete :: "sock \<Rightarrow> world \<Rightarrow> world outcome" where
  "iwsk_delete s w = bindO (ht_delete (iwht w) s) (\<lambda>(_, t). Done (w\<lparr>iwht := t\<rparr>))"

definition iwsk_lookup :: "sock \<Rightarrow> world \<Rightarrow> iwsk option outcome" where
  "iwsk_lookup s w = ht_lookup (iwht w) s"

text \<open>Stores through a pointer to a structure in the table: the node of that key gets the new value.\<close>

definition iwsk_store :: "iwsk \<Rightarrow> world \<Rightarrow> world" where
  "iwsk_store s w = w\<lparr>iwht := (iwht w)\<lparr>ht_nodes :=
     map (map (\<lambda>(k, v). if k = sk_fd s then (k, s) else (k, v))) (ht_nodes (iwht w))\<rparr>\<rparr>"

definition sk_map :: "world \<Rightarrow> sock \<rightharpoonup> iwsk" where
  "sk_map w = ht_map (iwht w)"

definition table_ok :: "world \<Rightarrow> bool" where
  "table_ok w \<longleftrightarrow> ht_inv (iwht w) \<and> (\<forall>k s. sk_map w k = Some s \<longrightarrow> sk_fd s = k)"

lemma iwsk_lookup_map: "table_ok w \<Longrightarrow> iwsk_lookup s w = Done (sk_map w s)"
  by (simp add: iwsk_lookup_def table_ok_def sk_map_def ht.look_abs)

lemma map_of_store:
  "map_of (map (\<lambda>(k, v). if k = a then (k, s) else (k, v)) xs) j
   = (if j = a \<and> map_of xs j \<noteq> None then Some s else map_of xs j)"
  by (induction xs) auto

lemma sk_map_store:
  "ht_inv (iwht w) \<Longrightarrow>
   sk_map (iwsk_store s w) = (\<lambda>k. if k = sk_fd s \<and> sk_map w k \<noteq> None then Some s else sk_map w k)"
  using ht_bucket_inv [of "iwht w"]
  by (auto simp: sk_map_def iwsk_store_def ht_map_def map_of_store fun_eq_iff)

lemma ht_inv_map:
  assumes inv: "ht_inv t" and f: "\<And>c. fst (f c) = fst c"
  shows "ht_inv (t\<lparr>ht_nodes := map (map f) (ht_nodes t)\<rparr>)"
proof -
  have "length (concat (map (map f) xss)) = length (concat xss)" for xss
    by (induction xss) auto
  moreover have "map fst (map f xs) = map fst xs" for xs
    by (simp add: f comp_def)
  ultimately show ?thesis using inv f by (auto simp: ht_inv_def simp del: map_map)
qed

lemma ht_inv_store: "ht_inv (iwht w) \<Longrightarrow> ht_inv (iwht (iwsk_store s w))"
  by (auto simp: iwsk_store_def intro!: ht_inv_map)

lemma table_ok_store:
  "table_ok w \<Longrightarrow> table_ok (iwsk_store s w)"
  using ht_inv_store [of w s] by (auto simp: table_ok_def sk_map_store split: if_splits)

lemma iwsk_store_simps [simp]:
  "mem (iwsk_store s w) = mem w" "conns (iwsk_store s w) = conns w" "cqs (iwsk_store s w) = cqs w"
  "mm (iwsk_store s w) = mm w" "last_send_sk (iwsk_store s w) = last_send_sk w"
  "last_recv_sk (iwsk_store s w) = last_recv_sk w" "rdma_write_count (iwsk_store s w) = rdma_write_count w"
  "untagged_payld_len (iwsk_store s w) = untagged_payld_len w"
  "tagged_payld_len (iwsk_store s w) = tagged_payld_len w"
  by (simp_all add: iwsk_store_def)

text \<open>The state of a process at its start, all globals zero but for the new table of \<open>iwsk_init\<close>.\<close>

definition world_start :: "(sock \<Rightarrow> conn) \<Rightarrow> world" where
  "world_start cs = \<lparr>mem = (\<lambda>_. 0), conns = cs, iwht = iwht_new, cqs = (\<lambda>_. \<lparr>cqe = [], num_cqe = 0, cq_prod = 0, cq_cons = 0\<rparr>),
     mm = mem_init, last_send_sk = None, last_recv_sk = None, untagged_payld_len = 0, tagged_payld_len = 0,
     pollsks = [], mpa_freed = False, rdma_write_count = 0, mpa_send_cntr = 0, mpa_recv_cntr = 0, mrkr_rsvd = (\<lambda>_. 0)\<rparr>"

definition conn_start :: "u8 list \<Rightarrow> conn" where
  "conn_start bs = \<lparr>rx = bs, tx = [], rd_ans = [], wr_ans = [], ip_mtu = Some 1500, tcp_maxseg = 1448,
     nodelay_ok = True\<rparr>"

lemma world_start_simps [simp]:
  "conns (world_start cs) = cs" "mem (world_start cs) = (\<lambda>_. 0)" "mm (world_start cs) = mem_init"
  "mrkr_rsvd (world_start cs) = (\<lambda>_. 0)" "rx (conn_start bs) = bs" "tx (conn_start bs) = []"
  "pollsks (world_start cs) = []" "mpa_freed (world_start cs) = False" "iwht (world_start cs) = iwht_new"
  by (simp_all add: world_start_def conn_start_def)

section \<open>Transfers without errors\<close>

text \<open>A connection on which no read or write fails.\<close>

definition conn_ok :: "conn \<Rightarrow> bool" where
  "conn_ok c \<longleftrightarrow> no_errors (rd_ans c) \<and> no_errors (wr_ans c)"

lemma sock_read_ok:
  assumes "conn_ok (conns w s)" "rx (conns w s) = bs @ rest" "length bs = n" "n < 2 ^ 31"
  shows "\<exists>c. sock_read s n w = Done (bs, set_conn s c w) \<and> conn_ok c \<and> rx c = rest \<and> tx c = tx (conns w s)"
  using read_full_ok [of "rd_ans (conns w s)" n "rx (conns w s)"] assms
  by (auto simp: sock_read_def conn_ok_def)

lemma sock_readv_ok:
  assumes "conn_ok (conns w s)" "rx (conns w s) = bs @ rest" "length bs = sum_list vec"
    and "len = int (sum_list vec)" "length old = sum_list vec" "iov_ok vec"
  shows "\<exists>c. sock_readv s vec len old w = Done (bs, set_conn s c w) \<and> conn_ok c \<and> rx c = rest
    \<and> tx c = tx (conns w s)"
proof -
  have "no_errors (rd_ans (conns w s))" "0 + sum_list vec \<le> length old"
    "sum_list vec \<le> length (rx (conns w s))" using assms by (auto simp: conn_ok_def)
  from readv_full_ok [OF this(1) assms(4) this(3,2) assms(6)] obtain ans' where
    "readv_full (rd_ans (conns w s)) vec 0 len (rx (conns w s)) old = Done (bs, rest, ans')" "no_errors ans'"
    using assms by (auto simp: put_def)
  then show ?thesis using assms(1)
    by (intro exI [of _ "(conns w s)\<lparr>rx := rest, rd_ans := ans'\<rparr>"])
      (simp add: sock_readv_def conn_ok_def Let_def)
qed

lemma sock_writev_ok:
  assumes "conn_ok (conns w s)" "len = length (concat vec)" "iov_ok (map length vec)"
  shows "\<exists>c ret. sock_writev s vec len w = Done (ret, set_conn s c w) \<and> conn_ok c \<and> 0 \<le> ret
    \<and> tx c = tx (conns w s) @ concat vec \<and> rx c = rx (conns w s)
    \<and> ip_mtu c = ip_mtu (conns w s) \<and> tcp_maxseg c = tcp_maxseg (conns w s)
    \<and> nodelay_ok c = nodelay_ok (conns w s)"
proof -
  from writev_full_total [of "wr_ans (conns w s)" len vec 0] assms obtain ret ans' where
    "writev_full (wr_ans (conns w s)) vec len 0 = Done (ret, concat vec, ans')" "no_errors ans'" "0 \<le> ret"
    by (auto simp: conn_ok_def)
  with assms(1) show ?thesis
    by (intro exI [of _ "(conns w s)\<lparr>tx := tx (conns w s) @ concat vec, wr_ans := ans'\<rparr>"] exI [of _ ret])
      (simp add: sock_writev_def conn_ok_def Let_def)
qed

lemma sock_write_ok:
  assumes "conn_ok (conns w s)" "length bs < 2 ^ 31"
  shows "\<exists>c. sock_write s bs w = Done (int (length bs), set_conn s c w) \<and> conn_ok c
    \<and> tx c = tx (conns w s) @ bs \<and> rx c = rx (conns w s)"
  using assms write_full_ok [of "wr_ans (conns w s)" bs]
  by (force simp: sock_write_def conn_ok_def Let_def)

lemma conn_ok_start [simp]: "conn_ok (conn_start bs)"
  by (simp add: conn_ok_def no_errors_def conn_start_def)

end
