(* ===== verification/Iw_Mpa.thy ===== *)
theory Iw_Mpa
  imports Iw_State Iw_Crc32c
begin

text \<open>
  MPA, the framing layer over TCP (\<open>iwarp/mpa.c\<close>, \<open>iwarp/mpa.h\<close>), except for reception, which calls
  back into DDP and is in \<open>Iw_Mpa_Recv\<close>: registration of sockets, the exchange of the start-up frames,
  and the sending of frames with and without markers. A frame is the list of the blocks that
  \<open>mpa_fill_blk\<close> collects; its counter \<open>cp\<close> is kept as the code keeps it.
\<close>

section \<open>Registration\<close>

definition mpa_get_mtu :: "sock \<Rightarrow> world \<Rightarrow> u32 option" where
  "mpa_get_mtu s w = ip_mtu (conns w s)"

text \<open>
  \<open>mpa_register_sock\<close>: the table of polled sockets has room for \<open>MAX_SOCKETS\<close>, which is not checked;
  writing past it is undefined. The process ends when \<open>setsockopt\<close> does not turn off the delay of small
  segments.
\<close>

definition mpa_register_sock :: "iwsk \<Rightarrow> world \<Rightarrow> (int \<times> iwsk \<times> world) outcome" where
  "mpa_register_sock s w =
     (let m = (mpask s)\<lparr>use_crc := 0, use_mrkr := 0, recv_mp := 0, send_mp := 0, send_sp := 0, recv_sp := 0\<rparr>
      in case mpa_get_mtu (sk_fd s) w of
           None \<Rightarrow> Done (- 1, s\<lparr>mpask := m\<rparr>, w)
         | Some mtu \<Rightarrow>
             let m = m\<lparr>mss := mtu - 60 - 60 - 8\<rparr>;
                 m = m\<lparr>skidx := of_nat (length (pollsks w))\<rparr>
             in if mpa_freed w \<or> length (pollsks w) \<ge> MAX_SOCKETS then Exit
                else if \<not> nodelay_ok (conns w (sk_fd s)) then Exit
                else Done (0, s\<lparr>mpask := m\<rparr>, w\<lparr>pollsks := pollsks w @ [sk_fd s]\<rparr>))"

definition mpa_deregister_sock :: "iwsk \<Rightarrow> world \<Rightarrow> world outcome" where
  "mpa_deregister_sock s w =
     (let n = length (pollsks w); i = unat (skidx (mpask s))
      in if n = 0 then Exit
         else if i < n - 1 then Done (w\<lparr>pollsks := take i (pollsks w) @ drop (Suc i) (pollsks w)\<rparr>)
         else Done (w\<lparr>pollsks := take (n - 1) (pollsks w)\<rparr>))"

definition mpa_get_mulpdu :: "sock \<Rightarrow> world \<Rightarrow> u32" where
  "mpa_get_mulpdu s w = tcp_maxseg (conns w s) - 4"

section \<open>The start-up frames\<close>

definition mpa_get_M :: "u32 \<Rightarrow> u32" where "mpa_get_M c = drop_bit 7 (c AND 0x80)"
definition mpa_get_C :: "u32 \<Rightarrow> u32" where "mpa_get_C c = drop_bit 6 (c AND 0x40)"
definition mpa_get_R :: "u32 \<Rightarrow> u32" where "mpa_get_R c = drop_bit 5 (c AND 0x20)"
definition mpa_get_Rev :: "u32 \<Rightarrow> u32" where "mpa_get_Rev c = drop_bit 8 (c AND 0xff00)"
definition mpa_get_PD_Length :: "u32 \<Rightarrow> u16" where "mpa_get_PD_Length c = ntohs (ucast (drop_bit 16 c))"

definition mpa_set_M :: "u32 \<Rightarrow> u32" where "mpa_set_M c = c OR 0x80"
definition mpa_unset_M :: "u32 \<Rightarrow> u32" where "mpa_unset_M c = c AND NOT 0x80"
definition mpa_set_C :: "u32 \<Rightarrow> u32" where "mpa_set_C c = c OR 0x40"
definition mpa_unset_C :: "u32 \<Rightarrow> u32" where "mpa_unset_C c = c AND NOT 0x40"
definition mpa_unset_R :: "u32 \<Rightarrow> u32" where "mpa_unset_R c = c AND NOT 0x20"
definition mpa_set_Res :: "u32 \<Rightarrow> u32" where "mpa_set_Res c = c AND 0xe0"
definition mpa_set_Rev :: "u32 \<Rightarrow> u32 \<Rightarrow> u32" where "mpa_set_Rev c v = c OR push_bit 8 v"
definition mpa_set_PD_Length :: "u32 \<Rightarrow> u16 \<Rightarrow> u32" where
  "mpa_set_PD_Length c v = c OR push_bit 16 (ucast (htons v))"

lemmas mpa_ctl_defs = mpa_get_M_def mpa_get_C_def mpa_get_R_def mpa_get_Rev_def mpa_get_PD_Length_def
  mpa_set_M_def mpa_unset_M_def mpa_set_C_def mpa_unset_C_def mpa_unset_R_def mpa_set_Res_def
  mpa_set_Rev_def mpa_set_PD_Length_def

text \<open>The keys, without the terminating zero: \<open>MPA ID Req Frame\<close> and \<open>MPA ID Rep Frame\<close>.\<close>

definition MPA_REQ_KEY :: "u8 list" where
  "MPA_REQ_KEY = map (of_nat \<circ> of_char) ''MPA ID Req Frame''"

definition MPA_REP_KEY :: "u8 list" where
  "MPA_REP_KEY = map (of_nat \<circ> of_char) ''MPA ID Rep Frame''"

lemma length_keys [simp]: "length MPA_REQ_KEY = 16" "length MPA_REP_KEY = 16"
  by (simp_all add: MPA_REQ_KEY_def MPA_REP_KEY_def)

lemma keys_differ [simp]: "MPA_REQ_KEY \<noteq> MPA_REP_KEY"
  by (simp add: MPA_REQ_KEY_def MPA_REP_KEY_def)

text \<open>
  The frame: key, control word, private data. A private string goes with its terminating zero, an
  empty one as nothing.
\<close>

definition pd_bytes :: "u8 list \<Rightarrow> u8 list" where
  "pd_bytes pd = (if pd = [] then [] else pd @ [0])"

definition mpa_cntl :: "u8 list \<Rightarrow> bool \<Rightarrow> bool \<Rightarrow> u32 \<Rightarrow> u32" where
  "mpa_cntl pd mrkr crc vers =
     (let c = 0;
          c = (if mrkr then mpa_set_M c else mpa_unset_M c);
          c = (if crc then mpa_set_C c else mpa_unset_C c)
      in mpa_set_PD_Length (mpa_set_Rev (mpa_set_Res (mpa_unset_R c)) vers) (of_nat (length (pd_bytes pd))))"

definition mpa_frame :: "u8 list \<Rightarrow> u8 list \<Rightarrow> bool \<Rightarrow> bool \<Rightarrow> u32 \<Rightarrow> u8 list" where
  "mpa_frame key pd mrkr crc vers = key @ le32 (mpa_cntl pd mrkr crc vers) @ pd_bytes pd"

text \<open>
  \<open>mpa_init_startup\<close>. \<open>pd_in\<close> is the string (\<open>None\<close> for the null pointer, of which \<open>strlen\<close> is taken
  before the test for it), \<open>pd_out\<close> the address of the buffer for the peer's string. The block for the
  frame has room for \<open>pd_in_len\<close> bytes of it, a 16-bit number. The initiator copies the string with its
  terminating zero whether that is zero or not: an empty string, and one of 65535 bytes or more, whose length
  wraps around, run past the block. The responder copies it only when the length is not zero.
\<close>

definition mpa_init_startup :: "bool \<Rightarrow> u8 list option \<Rightarrow> u64 \<Rightarrow> u16 \<Rightarrow> iwsk \<Rightarrow> world
    \<Rightarrow> (int \<times> iwsk \<times> world) outcome" where
  "mpa_init_startup is_initiator pd_in pd_out rpd_len s w =
    (case pd_in of
       None \<Rightarrow> Exit
     | Some pd \<Rightarrow>
       let pd_in_len = (of_nat (length (pd_bytes pd)) :: u16) in
       if pd_out = 0 then Done (- EINVAL, s, w)
       else if is_initiator then
         if unat pd_in_len < length pd + 1 then Exit
         else bindO (sock_write (sk_fd s)
               (mpa_frame MPA_REQ_KEY pd (use_mrkr (mpask s) \<noteq> 0) (use_crc (mpask s) \<noteq> 0) 0) w) (\<lambda>(ret, w).
            if ret < 0 then Done (ret, s, w)
            else bindO (sock_read (sk_fd s) 20 w) (\<lambda>(rrf, w).
              let cntl = of_le (take 4 (drop 16 rrf)); pd_out_len = mpa_get_PD_Length cntl
              in if pd_out_len > rpd_len then Done (- EMSGSIZE, s, w)
                 else bindO (sock_read (sk_fd s) (unat pd_out_len) w) (\<lambda>(pd', w).
                   let w = w\<lparr>mem := write_bytes (mem w) pd_out pd'\<rparr>;
                       s = s\<lparr>mpask := (mpask s)\<lparr>use_mrkr := (if mpa_get_M cntl \<noteq> 0 then 1 else 0),
                                               use_crc := (if mpa_get_C cntl \<noteq> 0 then 1 else 0)\<rparr>\<rparr>
                   in if take 16 rrf \<noteq> MPA_REP_KEY then Done (- EBADMSG, s, w) else Done (0, s, w))))
       else
         bindO (sock_read (sk_fd s) 20 w) (\<lambda>(rrf, w).
           let cntl = of_le (take 4 (drop 16 rrf)) in
           if use_mrkr (mpask s) \<noteq> 0 \<and> mpa_get_M cntl = 0 then Done (- EBADMSG, s, w)
           else
             let s = (if use_mrkr (mpask s) = 0
                      then s\<lparr>mpask := (mpask s)\<lparr>use_mrkr := (if mpa_get_M cntl \<noteq> 0 then 1 else 0)\<rparr>\<rparr> else s) in
             if use_crc (mpask s) \<noteq> 0 \<and> mpa_get_C cntl = 0 then Done (- EBADMSG, s, w)
             else
               let s = (if use_crc (mpask s) = 0
                        then s\<lparr>mpask := (mpask s)\<lparr>use_crc := (if mpa_get_C cntl \<noteq> 0 then 1 else 0)\<rparr>\<rparr> else s);
                   pd_out_len = mpa_get_PD_Length cntl
               in bindO (sock_read (sk_fd s) (unat pd_out_len) w) (\<lambda>(pd', w).
                    let w = w\<lparr>mem := write_bytes (mem w) pd_out pd'\<rparr>
                    in if take 16 rrf \<noteq> MPA_REQ_KEY then Done (- EBADMSG, s, w)
                       else if pd_in_len \<noteq> 0 \<and> unat pd_in_len < length pd + 1 then Exit
                       else bindO (sock_write (sk_fd s)
                              (mpa_frame MPA_REP_KEY (if pd_in_len = 0 then [] else pd)
                                 (use_mrkr (mpask s) \<noteq> 0) (use_crc (mpask s) \<noteq> 0) 1) w) (\<lambda>(ret, w).
                              if ret < 0 then Done (ret, s, w) else Done (0, s, w)))))"

section \<open>Sending\<close>

abbreviation CRC_SZ :: nat where "CRC_SZ \<equiv> 4"
abbreviation MARKER_SZ :: nat where "MARKER_SZ \<equiv> 4"
abbreviation MARKER_PERIOD :: nat where "MARKER_PERIOD \<equiv> 512"
abbreviation PAYLD_CHNK :: nat where "PAYLD_CHNK \<equiv> 508"
abbreviation MAX_BLKS :: nat where "MAX_BLKS \<equiv> 262"
abbreviation MAX_MRKRS :: nat where "MAX_MRKRS \<equiv> 130"

text \<open>\<open>WORD_SZ*((len+WORD_SZ-1)/WORD_SZ) - len\<close>\<close>

definition mpa_pad :: "nat \<Rightarrow> nat" where
  "mpa_pad len = 4 * ((len + 3) div 4) - len"

text \<open>The first two bytes of the header make up the MPA header, its length field.\<close>

definition mpa_put_len :: "u8 list \<Rightarrow> u16 \<Rightarrow> u8 list" where
  "mpa_put_len hdr len = le16 (htons (len - 2)) @ drop 2 hdr"

definition mpa_wrt_plain_fpdu :: "u8 list \<Rightarrow> u8 list \<Rightarrow> iwsk \<Rightarrow> world \<Rightarrow> (int \<times> iwsk \<times> world) outcome" where
  "mpa_wrt_plain_fpdu ddp_hdr ddp_payld s w =
     (let len = (of_nat (length ddp_payld + length ddp_hdr) :: u16);
          ddp_hdr = mpa_put_len ddp_hdr len;
          pad = mpa_pad (unat len);
          fpdu_len = unat len + pad;
          blks = [ddp_hdr, ddp_payld] @ (if pad \<noteq> 0 then [replicate pad 0] else []);
          (blks, fpdu_len) =
            (if use_crc (mpask s) \<noteq> 0 then (blks @ [le32 (htonl (crc32c_vec blks))], fpdu_len + CRC_SZ)
             else (blks, fpdu_len));
          cp = (of_nat (length (concat blks)) :: u32);
          s = s\<lparr>mpask := (mpask s)\<lparr>send_sp := send_sp (mpask s) + cp\<rparr>\<rparr>
      in bindO (sock_writev (sk_fd s) blks fpdu_len w) (\<lambda>(ret, w). Done (ret, s, w)))"

text \<open>
  A marker block: the reserved half is what the static array holds there (zero, or what a received
  marker left), the other the low half of the marker position.
\<close>

definition mrkr :: "(nat \<Rightarrow> u16) \<Rightarrow> nat \<Rightarrow> u32 \<Rightarrow> u8 list" where
  "mrkr rsvd i mp = le16 (rsvd i) @ le16 (ucast mp)"

text \<open>
  The loop over the body of the payload: blocks, next marker, position and counter. A chunk of no
  bytes would repeat for ever.
\<close>

function mrkr_body :: "(nat \<Rightarrow> u16) \<Rightarrow> u8 list \<Rightarrow> nat \<Rightarrow> u32 \<Rightarrow> u32
    \<Rightarrow> (u8 list list \<times> nat \<times> u32 \<times> u32) outcome" where
  "mrkr_body rsvd pp i cp mp =
     (if pp = [] then Done ([], i, cp, mp)
      else let m = mrkr rsvd i mp; cp = cp + 4; i = Suc i; mp = mp + 512; f = unat (mp - cp);
               f = (if f > length pp then length pp else f)
           in if f = 0 then Exit
              else bindO (mrkr_body rsvd (drop f pp) i (cp + of_nat f) mp) (\<lambda>(blks, i, cp, mp).
                Done ([m, take f pp] @ blks, i, cp, mp)))"
  by pat_completeness auto

termination by (relation "measure (\<lambda>(rsvd, pp, i, cp, mp). length pp)") (auto split: if_splits)

declare mrkr_body.simps [simp del]

text \<open>The blocks of a frame with markers up to the sum, and the counters \<open>i\<close>, \<open>cp\<close> and \<open>mp\<close>.\<close>

definition mrkr_blocks :: "(nat \<Rightarrow> u16) \<Rightarrow> u8 list \<Rightarrow> u8 list \<Rightarrow> nat \<Rightarrow> u32
    \<Rightarrow> (u8 list list \<times> nat \<times> u32 \<times> u32) outcome" where
  "mrkr_blocks rsvd ddp_hdr pp pad mp =
     (let hl = length ddp_hdr; n = unat mp;
          (blks, i, cp, mp) =
            (if n < hl then
               (if mp = 0 then [mrkr rsvd 0 mp, ddp_hdr] else [take n ddp_hdr, mrkr rsvd 0 mp, drop n ddp_hdr],
                1, of_nat hl + 4, mp + 512)
             else ([ddp_hdr], 0, of_nat hl, mp));
          h = unat (mp - cp);
          h = (if h > length pp then length pp else h);
          (blks, cp) = (if h \<noteq> 0 then (blks @ [take h pp], cp + of_nat h) else (blks, cp))
      in bindO (mrkr_body rsvd (drop h pp) i cp mp) (\<lambda>(body, i, cp, mp).
           let blks = blks @ body;
               (blks, cp) = (if pad \<noteq> 0 then (blks @ [replicate pad 0], cp + of_nat pad) else (blks, cp));
               (blks, i, cp) = (if cp = mp then (blks @ [mrkr rsvd i mp], Suc i, cp + 4) else (blks, i, cp))
           in Done (blks, i, cp, mp)))"

definition mpa_wrt_mrkr_fpdu :: "u8 list \<Rightarrow> u8 list \<Rightarrow> iwsk \<Rightarrow> world \<Rightarrow> (int \<times> iwsk \<times> world) outcome" where
  "mpa_wrt_mrkr_fpdu ddp_hdr ddp_payld s w =
     (let w = w\<lparr>mpa_send_cntr := mpa_send_cntr w + 1\<rparr>;
          len = (of_nat (length ddp_payld + length ddp_hdr) :: u16);
          ddp_hdr = mpa_put_len ddp_hdr len;
          mp = send_mp (mpask s) - send_sp (mpask s);
          pad = mpa_pad (unat len);
          l = (of_nat (unat len + pad) :: u32);
          num_mrkrs = (if l > mp then 1 + (l - mp) div 508 else 0);
          fpdu_len = l + num_mrkrs * 4 + 4;
          s = s\<lparr>mpask := (mpask s)\<lparr>send_mp := send_mp (mpask s) + num_mrkrs * 512\<rparr>\<rparr>
      in bindO (mrkr_blocks (mrkr_rsvd w) ddp_hdr ddp_payld pad mp) (\<lambda>(blks, i, cp, mp).
           let s = s\<lparr>mpask := (mpask s)\<lparr>send_sp := send_sp (mpask s) + cp\<rparr>\<rparr>;
               blks = (if use_crc (mpask s) \<noteq> 0 then blks @ [le32 (htonl (crc32c_vec blks))] else blks)
           in if length blks > MAX_BLKS \<or> i > MAX_MRKRS then Exit
              else bindO (sock_writev (sk_fd s) blks (unat fpdu_len) w) (\<lambda>(ret, w). Done (ret, s, w))))"

definition mpa_send :: "u8 list \<Rightarrow> u8 list \<Rightarrow> iwsk \<Rightarrow> world \<Rightarrow> (int \<times> iwsk \<times> world) outcome" where
  "mpa_send ddp_hdr ddp_payld s w =
     (if use_mrkr (mpask s) \<noteq> 0 then mpa_wrt_mrkr_fpdu ddp_hdr ddp_payld s w
      else mpa_wrt_plain_fpdu ddp_hdr ddp_payld s w)"

section \<open>The control word\<close>

text \<open>What is put into the control word is what is read from it.\<close>

lemma mpa_get_M_bit: "mpa_get_M c = (if bit c 7 then 1 else 0)"
  and mpa_get_C_bit: "mpa_get_C c = (if bit c 6 then 1 else 0)"
  unfolding mpa_ctl_defs
  by (rule word32_eqI, simp add: bit_expand bit_numeral_word_iff)+

lemma mpa_cntl_bits:
  "bit (mpa_cntl pd m c v) 7 = (m \<or> bit (push_bit 8 v) 7)" "bit (mpa_cntl pd m c v) 6 = c"
  by (auto simp: mpa_cntl_def mpa_ctl_defs Let_def bit_simps bit_numeral_word_iff)

lemma mpa_get_M_cntl [simp]: "mpa_get_M (mpa_cntl pd m c v) = 0 \<longleftrightarrow> \<not> m"
  and mpa_get_C_cntl [simp]: "mpa_get_C (mpa_cntl pd m c v) = 0 \<longleftrightarrow> \<not> c"
  by (simp_all add: mpa_get_M_bit mpa_get_C_bit mpa_cntl_bits bit_simps)

lemma mpa_get_set_PD_Length:
  assumes "drop_bit 16 c = 0"
  shows "mpa_get_PD_Length (mpa_set_PD_Length c w) = w"
proof -
  have "\<not> bit c (n + 16)" for n
    using arg_cong [OF assms, of "\<lambda>x. bit x n"] by (simp add: bit_drop_bit_eq add.commute)
  then have "ucast (drop_bit 16 (mpa_set_PD_Length c w)) = htons w"
    by (intro bit_word_eqI) (auto simp: mpa_set_PD_Length_def bit_simps add.commute)
  then show ?thesis by (simp add: mpa_get_PD_Length_def)
qed

lemma mpa_cntl_length:
  assumes "v = 0 \<or> v = 1"
  shows "mpa_get_PD_Length (mpa_cntl pd m c v) = of_nat (length (pd_bytes pd))"
  unfolding mpa_cntl_def Let_def
  by (rule mpa_get_set_PD_Length, rule word32_eqI)
     (use assms in \<open>auto simp: mpa_ctl_defs bit_expand bit_numeral_word_iff\<close>)

lemma length_mpa_frame [simp]: "length key = 16 \<Longrightarrow> length (mpa_frame key pd m c v) = 20 + length (pd_bytes pd)"
  by (simp add: mpa_frame_def)

section \<open>The start-up exchange\<close>

lemma conns_set_conn [simp]: "conns (set_conn s c w) s = c"
  by (simp add: set_conn_def)

lemma set_conn_set_conn [simp]: "set_conn s c' (set_conn s c w) = set_conn s c' w"
  by (simp add: set_conn_def)

lemma set_conn_simps [simp]:
  "mem (set_conn s c w) = mem w" "cqs (set_conn s c w) = cqs w" "mm (set_conn s c w) = mm w"
  "iwht (set_conn s c w) = iwht w" "mrkr_rsvd (set_conn s c w) = mrkr_rsvd w"
  "untagged_payld_len (set_conn s c w) = untagged_payld_len w" "tagged_payld_len (set_conn s c w) = tagged_payld_len w"
  "last_send_sk (set_conn s c w) = last_send_sk w" "last_recv_sk (set_conn s c w) = last_recv_sk w"
  "rdma_write_count (set_conn s c w) = rdma_write_count w"
  by (simp_all add: set_conn_def)

text \<open>The part of a frame that both sides read first, and its control word.\<close>

lemma frame_head:
  assumes "length key = 16"
  shows "\<exists>rrf. mpa_frame key pd m c v = rrf @ pd_bytes pd \<and> length rrf = 20 \<and> take 16 rrf = key
    \<and> of_le (take 4 (drop 16 rrf)) = mpa_cntl pd m c v"
  using assms by (intro exI [of _ "key @ le32 (mpa_cntl pd m c v)"]) (simp add: mpa_frame_def)

lemma unat_pd_length: "length pd < 65535 \<Longrightarrow> unat (of_nat (length (pd_bytes pd)) :: u16) = length (pd_bytes pd)"
  by (simp add: pd_bytes_def unat_of_nat)

lemma pd_len_zero: "length pd < 65535 \<Longrightarrow> (of_nat (length (pd_bytes pd)) :: u16) = 0 \<longleftrightarrow> pd = []"
proof
  assume "length pd < 65535" "(of_nat (length (pd_bytes pd)) :: u16) = 0"
  then have "length (pd_bytes pd) = 0" by (metis unat_0 unat_pd_length)
  then show "pd = []" by (simp add: pd_bytes_def split: if_splits)
qed (simp add: pd_bytes_def)

lemma length_pd_bytes: "pd \<noteq> [] \<Longrightarrow> length (pd_bytes pd) = length pd + 1"
  by (simp add: pd_bytes_def)

text \<open>Reading a frame: its head, then the private data its control word announces.\<close>

lemma sock_read_frame:
  assumes c: "conn_ok (conns w s)" "rx (conns w s) = mpa_frame key pd m cr v @ rest" "length key = 16"
    and v: "v = 0 \<or> v = 1" and pd: "length pd < 65535"
  shows "\<exists>rrf c1 c2. sock_read s 20 w = Done (rrf, set_conn s c1 w) \<and> take 16 rrf = key
    \<and> of_le (take 4 (drop 16 rrf)) = mpa_cntl pd m cr v
    \<and> sock_read s (unat (mpa_get_PD_Length (mpa_cntl pd m cr v))) (set_conn s c1 w) = Done (pd_bytes pd, set_conn s c2 w)
    \<and> conn_ok c2 \<and> rx c2 = rest \<and> tx c2 = tx (conns w s)"
proof -
  obtain rrf where f: "mpa_frame key pd m cr v = rrf @ pd_bytes pd" "length rrf = 20" "take 16 rrf = key"
    "of_le (take 4 (drop 16 rrf)) = mpa_cntl pd m cr v" using frame_head [OF c(3)] by blast
  have "rx (conns w s) = rrf @ pd_bytes pd @ rest" using c(2) f(1) by simp
  from sock_read_ok [OF c(1) this f(2)] f(2) obtain c1 where
    c1: "sock_read s 20 w = Done (rrf, set_conn s c1 w)" "conn_ok c1" "rx c1 = pd_bytes pd @ rest"
      "tx c1 = tx (conns w s)" by auto
  have "length (pd_bytes pd) = unat (mpa_get_PD_Length (mpa_cntl pd m cr v))"
    using mpa_cntl_length [OF v] unat_pd_length [OF pd] by simp
  moreover have "unat (mpa_get_PD_Length (mpa_cntl pd m cr v)) < 2 ^ 31"
    using unsigned_less [of "mpa_get_PD_Length (mpa_cntl pd m cr v)", where ?'a = nat] by simp
  ultimately obtain c2 where
    "sock_read s (unat (mpa_get_PD_Length (mpa_cntl pd m cr v))) (set_conn s c1 w)
      = Done (pd_bytes pd, set_conn s c2 w)" "conn_ok c2" "rx c2 = rest" "tx c2 = tx (conns w s)"
    using sock_read_ok [of "set_conn s c1 w" s "pd_bytes pd" rest] c1 by auto
  with f c1 show ?thesis by blast
qed

lemma set_conn_mem: "(set_conn s c w)\<lparr>mem := m\<rparr> = set_conn s c (w\<lparr>mem := m\<rparr>)"
  by (simp add: set_conn_def)

lemma conns_mem [simp]: "conns (w\<lparr>mem := m\<rparr>) = conns w"
  by simp

lemma frame_short: "length key = 16 \<Longrightarrow> length pd < 65535 \<Longrightarrow> length (mpa_frame key pd m c v) < 2 ^ 31"
  by (simp add: pd_bytes_def)

lemma startup_responder:
  assumes c: "conn_ok (conns w (sk_fd s))" "rx (conns w (sk_fd s)) = mpa_frame MPA_REQ_KEY pd' m cr 0 @ rest"
    and pd: "length pd < 65535" "length pd' < 65535" "pd_out \<noteq> 0"
    and want: "use_mrkr (mpask s) \<noteq> 0 \<longrightarrow> m" "use_crc (mpask s) \<noteq> 0 \<longrightarrow> cr"
  shows "\<exists>s' w'. mpa_init_startup False (Some pd) pd_out rpd s w = Done (0, s', w')
    \<and> (use_mrkr (mpask s') \<noteq> 0) = m \<and> (use_crc (mpask s') \<noteq> 0) = cr
    \<and> tx (conns w' (sk_fd s)) = tx (conns w (sk_fd s)) @ mpa_frame MPA_REP_KEY pd m cr 1
    \<and> rx (conns w' (sk_fd s)) = rest \<and> mem w' = write_bytes (mem w) pd_out (pd_bytes pd')"
proof -
  let ?fd = "sk_fd s" and ?k = "mpa_cntl pd' m cr 0"
  obtain rrf c1 c2 where r: "sock_read ?fd 20 w = Done (rrf, set_conn ?fd c1 w)" "take 16 rrf = MPA_REQ_KEY"
      "of_le (take 4 (drop 16 rrf)) = ?k"
      "sock_read ?fd (unat (mpa_get_PD_Length ?k)) (set_conn ?fd c1 w) = Done (pd_bytes pd', set_conn ?fd c2 w)"
      "conn_ok c2" "rx c2 = rest" "tx c2 = tx (conns w ?fd)"
    using sock_read_frame [OF c _ _ pd(2)] by auto
  let ?w = "set_conn ?fd c2 (w\<lparr>mem := write_bytes (mem w) pd_out (pd_bytes pd')\<rparr>)"
  have "conn_ok (conns ?w ?fd)" using r(5) by simp
  from sock_write_ok [OF this frame_short [OF length_keys(2) pd(1), of m cr 1]] obtain c3 where wr: "sock_write ?fd (mpa_frame MPA_REP_KEY pd m cr 1) ?w
      = Done (int (length (mpa_frame MPA_REP_KEY pd m cr 1)), set_conn ?fd c3 ?w)" "conn_ok c3"
      "tx c3 = tx c2 @ mpa_frame MPA_REP_KEY pd m cr 1" "rx c3 = rx c2"
    by auto
  have body: "(if (of_nat (length (pd_bytes pd)) :: u16) = 0 then [] else pd) = pd"
      "\<not> ((of_nat (length (pd_bytes pd)) :: u16) \<noteq> 0 \<and> unat (of_nat (length (pd_bytes pd)) :: u16) < length pd + 1)"
    unfolding pd_len_zero [OF pd(1)] unat_pd_length [OF pd(1)] by (auto simp: length_pd_bytes)
  have "(mpa_get_M ?k = 0) = (\<not> m)" "(mpa_get_C ?k = 0) = (\<not> cr)" by simp_all
  then show ?thesis
    using want r wr pd(1,3) body by (cases m; cases cr) (auto simp: mpa_init_startup_def Let_def set_conn_mem)
qed

lemma startup_initiator:
  assumes c: "conn_ok (conns w (sk_fd s))" "rx (conns w (sk_fd s)) = mpa_frame MPA_REP_KEY pd' m cr 1 @ rest"
    and pd: "length pd < 65535" "length pd' < 65535" "pd_out \<noteq> 0" "length (pd_bytes pd') \<le> unat rpd" "pd \<noteq> []"
  shows "\<exists>s' w'. mpa_init_startup True (Some pd) pd_out rpd s w = Done (0, s', w')
    \<and> (use_mrkr (mpask s') \<noteq> 0) = m \<and> (use_crc (mpask s') \<noteq> 0) = cr
    \<and> tx (conns w' (sk_fd s)) = tx (conns w (sk_fd s))
        @ mpa_frame MPA_REQ_KEY pd (use_mrkr (mpask s) \<noteq> 0) (use_crc (mpask s) \<noteq> 0) 0
    \<and> rx (conns w' (sk_fd s)) = rest \<and> mem w' = write_bytes (mem w) pd_out (pd_bytes pd')"
proof -
  let ?fd = "sk_fd s" and ?k = "mpa_cntl pd' m cr 1"
  let ?req = "mpa_frame MPA_REQ_KEY pd (use_mrkr (mpask s) \<noteq> 0) (use_crc (mpask s) \<noteq> 0) 0"
  obtain c0 where wr: "sock_write ?fd ?req w = Done (int (length ?req), set_conn ?fd c0 w)" "conn_ok c0"
      "tx c0 = tx (conns w ?fd) @ ?req" "rx c0 = rx (conns w ?fd)"
    using sock_write_ok [OF c(1), OF frame_short [OF _ pd(1)]] by (meson length_keys)
  obtain rrf c1 c2 where r: "sock_read ?fd 20 (set_conn ?fd c0 w) = Done (rrf, set_conn ?fd c1 w)"
      "take 16 rrf = MPA_REP_KEY" "of_le (take 4 (drop 16 rrf)) = ?k"
      "sock_read ?fd (unat (mpa_get_PD_Length ?k)) (set_conn ?fd c1 w) = Done (pd_bytes pd', set_conn ?fd c2 w)"
      "conn_ok c2" "rx c2 = rest" "tx c2 = tx c0"
    using sock_read_frame [of "set_conn ?fd c0 w" ?fd MPA_REP_KEY pd' m cr 1 rest] wr c(2) pd(2) by auto
  have "\<not> mpa_get_PD_Length ?k > rpd"
    using mpa_cntl_length [of 1 pd' m cr] unat_pd_length [OF pd(2)] pd(4) by (simp add: word_less_nat_alt)
  moreover have "(mpa_get_M ?k = 0) = (\<not> m)" "(mpa_get_C ?k = 0) = (\<not> cr)"
    by simp_all
  moreover have "\<not> unat (of_nat (length (pd_bytes pd)) :: u16) < length pd + 1"
    unfolding unat_pd_length [OF pd(1)] using pd(5) by (simp add: length_pd_bytes)
  ultimately show ?thesis
    using r wr pd(1,3) by (cases m; cases cr) (auto simp: mpa_init_startup_def Let_def set_conn_mem)
qed

section \<open>Frames without markers\<close>

text \<open>The bytes of a frame: header with its length, payload, pad to a word, and the sum if it is used.\<close>

definition plain_fpdu :: "bool \<Rightarrow> u8 list \<Rightarrow> u8 list \<Rightarrow> u8 list" where
  "plain_fpdu crc hdr payld =
     (let len = length hdr + length payld;
          body = mpa_put_len hdr (of_nat len) @ payld @ replicate (mpa_pad len) 0
      in body @ (if crc then le32 (htonl (crc32c body)) else []))"

lemma length_put_len [simp]: "2 \<le> length hdr \<Longrightarrow> length (mpa_put_len hdr len) = length hdr"
  by (simp add: mpa_put_len_def)

lemma mpa_pad_lt: "mpa_pad len < 4"
  by (simp add: mpa_pad_def)

lemma mpa_pad_dvd: "(len + mpa_pad len) mod 4 = 0"
  by (simp add: mpa_pad_def)

lemma unat_of_nat16: "n < 65536 \<Longrightarrow> unat (of_nat n :: u16) = n"
  and unat_of_nat32: "n < 4294967296 \<Longrightarrow> unat (of_nat n :: u32) = n"
  and unat_of_nat64: "n < 18446744073709551616 \<Longrightarrow> unat (of_nat n :: u64) = n"
  by (simp_all add: unat_of_nat take_bit_nat_eq_self)

definition plain_blks :: "bool \<Rightarrow> u8 list \<Rightarrow> u8 list \<Rightarrow> u8 list list" where
  "plain_blks crc hdr payld =
     (let len = length payld + length hdr; pad = mpa_pad len;
          b = [mpa_put_len hdr (of_nat len), payld] @ (if pad \<noteq> 0 then [replicate pad 0] else [])
      in b @ (if crc then [le32 (htonl (crc32c_vec b))] else []))"

lemma concat_plain_blks: "concat (plain_blks crc hdr payld) = plain_fpdu crc hdr payld"
  unfolding plain_blks_def plain_fpdu_def Let_def crc32c_vec_concat add.commute [of "length payld"]
  by simp

lemma mpa_wrt_plain_eq:
  fixes s :: iwsk
  assumes "2 \<le> length hdr" "length payld + length hdr < 65536"
  defines "B \<equiv> plain_blks (use_crc (mpask s) \<noteq> 0) hdr payld"
  shows "mpa_wrt_plain_fpdu hdr payld s w
    = bindO (sock_writev (sk_fd s) B (length (concat B)) w) (\<lambda>(ret, w).
        Done (ret, s\<lparr>mpask := (mpask s)\<lparr>send_sp := send_sp (mpask s) + of_nat (length (concat B))\<rparr>\<rparr>, w))"
proof -
  have u: "unat (of_nat (length payld + length hdr) :: u16) = length payld + length hdr"
    using assms(2) by (rule unat_of_nat16)
  show ?thesis
    unfolding mpa_wrt_plain_fpdu_def Let_def u B_def plain_blks_def
    using assms(1) by (cases "mpa_pad (length payld + length hdr) = 0"; cases "use_crc (mpask s) = 0")
      (simp_all add: ac_simps del: of_nat_add)
qed

lemma plain_blks_iov:
  assumes "2 \<le> length hdr" "length payld + length hdr < 65536"
  shows "iov_ok (map length (plain_blks crc hdr payld))"
proof (rule iov_ok_concat)
  show "length (plain_blks crc hdr payld) \<le> IOV_MAX" by (simp add: plain_blks_def Let_def)
  show "length (concat (plain_blks crc hdr payld)) < 2 ^ 31"
    using assms mpa_pad_lt [of "length payld + length hdr"] by (simp add: plain_blks_def Let_def)
qed

lemma mpa_wrt_plain_ok:
  assumes c: "conn_ok (conns w (sk_fd s))" and len: "2 \<le> length hdr" "length payld + length hdr < 65536"
  shows "\<exists>c ret sp. mpa_wrt_plain_fpdu hdr payld s w
      = Done (ret, s\<lparr>mpask := (mpask s)\<lparr>send_sp := sp\<rparr>\<rparr>, set_conn (sk_fd s) c w) \<and> 0 \<le> ret \<and> conn_ok c
    \<and> tx c = tx (conns w (sk_fd s)) @ plain_fpdu (use_crc (mpask s) \<noteq> 0) hdr payld
    \<and> rx c = rx (conns w (sk_fd s))"
  using sock_writev_ok [OF c refl, of "plain_blks (use_crc (mpask s) \<noteq> 0) hdr payld"] plain_blks_iov [OF len]
  unfolding mpa_wrt_plain_eq [OF len] concat_plain_blks by fastforce

section \<open>Frames with markers\<close>

text \<open>
  The layout: a marker when \<open>k\<close> more bytes have gone out, and then one after every 508 bytes, each
  with its position; a marker that falls on the end of the bytes is there too.
\<close>

function insert_mrkrs :: "(nat \<Rightarrow> u16) \<Rightarrow> nat \<Rightarrow> u32 \<Rightarrow> nat \<Rightarrow> u8 list \<Rightarrow> u8 list" where
  "insert_mrkrs rsvd i mp k bs =
     (if k \<le> length bs then take k bs @ mrkr rsvd i mp @ insert_mrkrs rsvd (Suc i) (mp + 512) 508 (drop k bs)
      else bs)"
  by pat_completeness auto

termination
  by (relation "measure (\<lambda>(rsvd, i, mp, k, bs). 2 * length bs + (if k = 0 then 1 else 0))") auto

declare insert_mrkrs.simps [simp del]

lemma length_mrkr [simp]: "length (mrkr rsvd i mp) = 4"
  by (simp add: mrkr_def)

lemma length_insert_mrkrs:
  "length (insert_mrkrs rsvd i mp k bs) =
   length bs + 4 * (if k \<le> length bs then 1 + (length bs - k) div 508 else 0)"
proof (induction rsvd i mp k bs rule: insert_mrkrs.induct)
  case (1 rsvd i mp k bs)
  show ?case
  proof (cases "k \<le> length bs")
    case True
    have d: "(length bs - k) div 508 = (if 508 \<le> length bs - k then 1 + (length bs - k - 508) div 508 else 0)"
      by (simp add: le_div_geq)
    show ?thesis
      using 1 [OF True] True d by (subst insert_mrkrs.simps) (cases "508 \<le> length bs - k", simp_all)
  next
    case False
    then show ?thesis by (subst insert_mrkrs.simps) simp
  qed
qed

text \<open>The trailing part of a frame: pad, and a marker if the pad ends where one is due.\<close>

definition mrkr_tail :: "(nat \<Rightarrow> u16) \<Rightarrow> nat \<Rightarrow> nat \<Rightarrow> u32 \<Rightarrow> u32 \<Rightarrow> u8 list" where
  "mrkr_tail rsvd pad i cp mp = replicate pad 0 @ (if cp + of_nat pad = mp then mrkr rsvd i mp else [])"

lemma of_nat_eq_u32: "a < 2 ^ 32 \<Longrightarrow> b < 2 ^ 32 \<Longrightarrow> (of_nat a :: u32) = of_nat b \<longleftrightarrow> a = b"
  by (simp add: word_of_nat_eq_iff take_bit_nat_eq_self)

lemma mod4_diff:
  assumes "g mod 4 = (a + b) mod 4" "g \<le> a"
  shows "(a - g + b) mod 4 = (0::nat)"
proof -
  have "g \<le> a + b" using assms(2) by (rule trans_le_add1)
  then have "4 dvd a + b - g" using mod_eq_dvd_iff_nat [of g "a + b" 4] assms(1) by simp
  moreover have "a + b - g = a - g + b" using assms(2) by simp
  ultimately show ?thesis by simp
qed

lemma mod4_eq:
  assumes "g mod 4 = (a + b) mod 4" "a \<le> g" "b < 4"
  shows "g \<le> a + b \<longleftrightarrow> g = a + (b::nat)"
proof -
  obtain d where g: "g = a + d" using assms(2) le_Suc_ex by blast
  have "d = b" if d: "d \<le> b"
  proof -
    have "4 dvd (a + b) - (a + d)" using mod_eq_dvd_iff_nat [of "a + d" "a + b" 4] assms(1) d g by simp
    then have "4 dvd b - d" by simp
    then show ?thesis using d assms(3) by (cases "b = d") (auto dest: dvd_imp_le)
  qed
  then show ?thesis unfolding g by auto
qed

lemma mod4_rest:
  assumes "n mod 4 = 0" "(h + p + q) mod 4 = 0" "h mod 4 = 0" 
  shows "n \<ge> h \<Longrightarrow> (n - h) mod 4 = (p + q) mod (4::nat)" "h \<le> 508 \<Longrightarrow> (n + 508 - h) mod 4 = (p + q) mod (4::nat)"
proof -
  obtain a b c where e: "n = 4 * a" "h = 4 * b" "h + (p + q) = 4 * c"
    using assms unfolding add.assoc by (auto simp: mod_eq_0_iff_dvd elim!: dvdE)
  then have "p + q = 4 * (c - b)" by simp
  moreover have "n - h = 4 * (a - b)" "n + 508 - h = 4 * (a + 127 - b)" using e(1,2) by simp_all
  ultimately show "n \<ge> h \<Longrightarrow> (n - h) mod 4 = (p + q) mod (4::nat)" "h \<le> 508 \<Longrightarrow> (n + 508 - h) mod 4 = (p + q) mod (4::nat)"
    by (simp_all only: mod_mult_self1_is_0)
qed
lemma mrkr_body_layout:
  assumes "pp \<noteq> []" "(length pp + pad) mod 4 = 0" "pad < 4" "length pp < 65536"
  shows "\<exists>blks i' cp' mp'. mrkr_body rsvd pp i mp mp = Done (blks, i', cp', mp')
    \<and> concat blks @ mrkr_tail rsvd pad i' cp' mp'
      = mrkr rsvd i mp @ insert_mrkrs rsvd (Suc i) (mp + 512) 508 (pp @ replicate pad 0)
    \<and> cp' = mp + of_nat (length (concat blks))"
  using assms
proof (induction "length pp" arbitrary: pp i mp rule: less_induct)
  case less
  let ?f = "if unat (mp + 512 - (mp + 4)) > length pp then length pp else 508"
  have u: "unat (mp + 512 - (mp + 4)) = 508" by simp
  show ?case
  proof (cases "length pp \<le> 508")
    case True
    have body: "mrkr_body rsvd pp i mp mp
      = Done ([mrkr rsvd i mp, pp], Suc i, mp + 4 + of_nat (length pp), mp + 512)"
      using True less(2) by (subst mrkr_body.simps) (simp add: Let_def mrkr_body.simps [of _ "[]"])
    have p: "length pp + pad \<le> 508" using True less(3,4) by presburger
    have eq: "mp + 4 + of_nat (length pp) + of_nat pad = mp + 512 \<longleftrightarrow> length pp + pad = 508"
      using of_nat_eq_u32 [of "length pp + pad" 508] p by (simp add: algebra_simps)
    have eq': "(of_nat (length pp) + of_nat pad :: u32) = 508 \<longleftrightarrow> length pp + pad = 508"
      using of_nat_eq_u32 [of "length pp + pad" 508] p by simp
    have "insert_mrkrs rsvd (Suc i) (mp + 512) 508 (pp @ replicate pad 0)
      = pp @ replicate pad 0 @ (if length pp + pad = 508 then mrkr rsvd (Suc i) (mp + 512) else [])"
      using p by (subst insert_mrkrs.simps) (auto simp: insert_mrkrs.simps [of _ _ _ _ "[]"])
    then show ?thesis unfolding body mrkr_tail_def by (simp add: eq')
  next
    case False
    let ?q = "drop 508 pp"
    have q: "length ?q < length pp" "?q \<noteq> []" "length ?q < 65536" "(length ?q + pad) mod 4 = 0"
      using False less(3,5) by (simp_all, presburger)
    obtain blks i' cp' mp' where
      r: "mrkr_body rsvd ?q (Suc i) (mp + 512) (mp + 512) = Done (blks, i', cp', mp')"
        "concat blks @ mrkr_tail rsvd pad i' cp' mp'
          = mrkr rsvd (Suc i) (mp + 512) @ insert_mrkrs rsvd (Suc (Suc i)) (mp + 512 + 512) 508 (?q @ replicate pad 0)"
        "cp' = mp + 512 + of_nat (length (concat blks))"
      using less(1) [OF q(1,2,4) less(4) q(3)] by blast
    have "mrkr_body rsvd pp i mp mp = Done ([mrkr rsvd i mp, take 508 pp] @ blks, i', cp', mp')"
      using False less(2) r(1) by (subst mrkr_body.simps) (simp add: Let_def add.assoc)
    moreover have "insert_mrkrs rsvd (Suc i) (mp + 512) 508 (pp @ replicate pad 0)
      = take 508 pp @ mrkr rsvd (Suc i) (mp + 512) @ insert_mrkrs rsvd (Suc (Suc i)) (mp + 512 + 512) 508 (?q @ replicate pad 0)"
      using False by (subst insert_mrkrs.simps) simp
    ultimately show ?thesis using r(2,3) False by (simp add: add.assoc)
  qed
qed

text \<open>From the header on: what is left of the payload, up to the next marker and beyond it.\<close>

lemma mrkr_rest_layout:
  assumes al: "unat (mp - cp) mod 4 = (length pp + pad) mod 4" and len: "pad < 4" "length pp < 65536"
  defines "h \<equiv> min (unat (mp - cp)) (length pp)"
  shows "\<exists>body i' cp' mp'. mrkr_body rsvd (drop h pp) i (cp + of_nat h) mp = Done (body, i', cp', mp')
    \<and> take h pp @ concat body @ mrkr_tail rsvd pad i' cp' mp'
      = insert_mrkrs rsvd i mp (unat (mp - cp)) (pp @ replicate pad 0)
    \<and> cp' = cp + of_nat (h + length (concat body))"
proof -
  define g where "g = unat (mp - cp)"
  have mp: "mp = cp + of_nat g" by (simp add: g_def)
  have g32: "g < 2 ^ 32" unfolding g_def by (rule order_less_le_trans [OF unsigned_less]) simp
  show ?thesis
  proof (cases "g < length pp")
    case True
    then have h: "h = g" by (simp add: h_def flip: g_def)
    have q: "drop g pp \<noteq> []" "(length (drop g pp) + pad) mod 4 = 0" "length (drop g pp) < 65536"
      using True len mod4_diff [OF al] by (simp_all add: g_def [symmetric])
    obtain blks i' cp' mp' where
      "mrkr_body rsvd (drop g pp) i mp mp = Done (blks, i', cp', mp')"
      "concat blks @ mrkr_tail rsvd pad i' cp' mp'
         = mrkr rsvd i mp @ insert_mrkrs rsvd (Suc i) (mp + 512) 508 (drop g pp @ replicate pad 0)"
      "cp' = mp + of_nat (length (concat blks))"
      using mrkr_body_layout [OF q(1,2) len(1) q(3)] by blast
    moreover have "insert_mrkrs rsvd i mp g (pp @ replicate pad 0)
      = take g pp @ mrkr rsvd i mp @ insert_mrkrs rsvd (Suc i) (mp + 512) 508 (drop g pp @ replicate pad 0)"
      using True by (subst insert_mrkrs.simps) simp
    ultimately show ?thesis unfolding h g_def [symmetric] mp [symmetric] by (simp add: mp)
  next
    case False
    then have h: "h = length pp" by (simp add: h_def flip: g_def)
    have fits: "g \<le> length pp + pad \<longleftrightarrow> g = length pp + pad"
      using False mod4_eq [OF al] len(1) by (simp add: g_def [symmetric])
    have eq: "(of_nat (length pp) + of_nat pad :: u32) = of_nat g \<longleftrightarrow> length pp + pad = g"
      using of_nat_eq_u32 [of "length pp + pad" g] len g32 by simp
    have "insert_mrkrs rsvd i mp g (pp @ replicate pad 0)
      = pp @ replicate pad 0 @ (if length pp + pad = g then mrkr rsvd i mp else [])"
      using fits by (subst insert_mrkrs.simps) (auto simp: insert_mrkrs.simps [of _ _ _ _ "[]"])
    then show ?thesis
      unfolding h g_def [symmetric] by (simp add: mrkr_body.simps [of _ "[]"] mrkr_tail_def mp add.assoc eq)
  qed
qed

lemma mrkr_body_step:
  assumes "mrkr_body rsvd pp i cp mp = Done (blks, i', cp', mp')" "pp \<noteq> []"
  shows "\<exists>f b. 0 < f \<and> f \<le> length pp \<and> blks = [mrkr rsvd i mp, take f pp] @ b
    \<and> mrkr_body rsvd (drop f pp) (Suc i) (cp + 4 + of_nat f) (mp + 512) = Done (b, i', cp', mp')"
  using assms by (subst (asm) mrkr_body.simps) (auto simp: Let_def outcome_simps split: if_splits)

lemma mrkr_body_count:
  "mrkr_body rsvd pp i cp mp = Done (blks, i', cp', mp') \<Longrightarrow> length blks = 2 * (i' - i) \<and> i \<le> i'
     \<and> length (concat blks) = length pp + 4 * (i' - i)"
proof (induction "length pp" arbitrary: pp i cp mp blks rule: less_induct)
  case less
  show ?case
  proof (cases "pp = []")
    case True
    then show ?thesis using less(2) by (simp add: mrkr_body.simps [of _ "[]"])
  next
    case False
    then obtain f b where f: "0 < f" "f \<le> length pp" "blks = [mrkr rsvd i mp, take f pp] @ b"
      "mrkr_body rsvd (drop f pp) (Suc i) (cp + 4 + of_nat f) (mp + 512) = Done (b, i', cp', mp')"
      using mrkr_body_step [OF less(2)] by blast
    from less(1) [OF _ f(4)] f False have "length b = 2 * (i' - Suc i) \<and> Suc i \<le> i'
      \<and> length (concat b) = length (drop f pp) + 4 * (i' - Suc i)" by simp
    then show ?thesis using f by auto
  qed
qed

lemma insert_mrkrs_skip: "insert_mrkrs rsvd i m (length a + k) (a @ b) = a @ insert_mrkrs rsvd i m k b"
  by (subst (1 2) insert_mrkrs.simps) simp

text \<open>The whole frame: the markers where the layout puts them, the counters, the number of blocks.\<close>

lemma mrkr_blocks_layout:
  assumes al: "unat mp mod 4 = 0" and len: "pad < 4" "(length hdr + length pp + pad) mod 4 = 0" "length hdr mod 4 = 0"
    "hdr \<noteq> []" "length hdr \<le> 508" "length pp < 65536"
  shows "\<exists>blks i' mp'. mrkr_blocks rsvd hdr pp pad mp = Done (blks, i', of_nat (length (concat blks)), mp')
    \<and> concat blks = insert_mrkrs rsvd 0 mp (unat mp) (hdr @ pp @ replicate pad 0)
    \<and> length blks \<le> 2 * i' + 3
    \<and> 4 * i' + length hdr + length pp + pad = length (concat blks)"
proof -
  let ?n = "unat mp" and ?hl = "length hdr"
  define c where "c = (if ?n < ?hl then of_nat ?hl + 4 else (of_nat ?hl :: u32))"
  define m where "m = (if ?n < ?hl then mp + 512 else mp)"
  define i where "i = (if ?n < ?hl then Suc 0 else 0)"
  define pre where "pre = (if ?n < ?hl then if mp = 0 then [mrkr rsvd 0 mp, hdr] else [take ?n hdr, mrkr rsvd 0 mp, drop ?n hdr]
    else [hdr])"
  have mn: "mp = of_nat ?n" by simp
  have g: "unat (m - c) = (if ?n < ?hl then ?n + 508 - ?hl else ?n - ?hl)"
  proof (cases "?n < ?hl")
    case True
    have "m - c = of_nat (?n + 508 - ?hl)"
      using len(5) True by (simp add: m_def c_def of_nat_diff)
    moreover have "?n + 508 - ?hl < 2 ^ 32" using len(5) True by simp
    ultimately show ?thesis using True by (simp only: unat_of_nat32) (simp add: unat_of_nat32)
  next
    case False
    then have "of_nat ?hl \<le> mp" using len(5) by (simp add: word_le_nat_alt unat_of_nat32)
    then show ?thesis using False len(5) by (simp add: m_def c_def unat_sub unat_of_nat32)
  qed
  have al': "unat (m - c) mod 4 = (length pp + pad) mod 4"
    using mod4_rest [OF al len(2,3)] len(5) by (simp add: g)
  obtain body i' cp' mp' where
    r: "mrkr_body rsvd (drop (min (unat (m - c)) (length pp)) pp) i (c + of_nat (min (unat (m - c)) (length pp))) m
          = Done (body, i', cp', mp')"
      "take (min (unat (m - c)) (length pp)) pp @ concat body @ mrkr_tail rsvd pad i' cp' mp'
          = insert_mrkrs rsvd i m (unat (m - c)) (pp @ replicate pad 0)"
      "cp' = c + of_nat (min (unat (m - c)) (length pp) + length (concat body))"
    using mrkr_rest_layout [OF al' len(1,6)] by blast
  have lay: "insert_mrkrs rsvd 0 mp ?n (hdr @ pp @ replicate pad 0)
     = concat pre @ insert_mrkrs rsvd i m (unat (m - c)) (pp @ replicate pad 0)"
  proof (cases "?n < ?hl")
    case True
    have "?n + 508 - ?hl + length (drop ?n hdr) = 508" using True len(5) by simp
    with insert_mrkrs_skip [of rsvd "Suc 0" "mp + 512" "drop ?n hdr" "?n + 508 - ?hl" "pp @ replicate pad 0"]
    have "insert_mrkrs rsvd (Suc 0) (mp + 512) 508 (drop ?n hdr @ pp @ replicate pad 0)
      = drop ?n hdr @ insert_mrkrs rsvd (Suc 0) (mp + 512) (?n + 508 - ?hl) (pp @ replicate pad 0)"
      by (simp add: add.commute)
    then show ?thesis using True unfolding g
      by (subst insert_mrkrs.simps) (auto simp: i_def m_def pre_def unat_eq_0)
  next
    case False
    with insert_mrkrs_skip [of rsvd 0 mp hdr "?n - ?hl" "pp @ replicate pad 0"] show ?thesis
      unfolding g by (simp add: i_def m_def pre_def)
  qed
  define h where "h = min (unat (m - c)) (length pp)"
  define blks where "blks = pre @ (if h \<noteq> 0 then [take h pp] else []) @ body @ (if pad \<noteq> 0 then [replicate pad 0] else [])"
  have code: "mrkr_blocks rsvd hdr pp pad mp = Done
    (if cp' + of_nat pad = mp' then (blks @ [mrkr rsvd i' mp'], Suc i', cp' + of_nat pad + 4, mp')
     else (blks, i', cp' + of_nat pad, mp'))"
  proof -
    have head: "(if ?n < ?hl then
        (if mp = 0 then [mrkr rsvd 0 mp, hdr] else [take ?n hdr, mrkr rsvd 0 mp, drop ?n hdr], 1, of_nat ?hl + 4, mp + 512)
        else ([hdr], 0, of_nat ?hl, mp)) = (pre, i, c, m)"
      by (simp add: pre_def i_def c_def m_def)
    have hh: "(if unat (m - c) > length pp then length pp else unat (m - c)) = h"
      by (simp add: h_def)
    show ?thesis
      using r(1) unfolding mrkr_blocks_def Let_def head prod.case hh h_def [symmetric] blks_def
      by (cases "h = 0"; cases "pad = 0") simp_all
  qed
  have n: "length body = 2 * (i' - i)" "i \<le> i'" "length (concat body) = length (drop h pp) + 4 * (i' - i)"
    using mrkr_body_count [OF r(1) [folded h_def]] by auto
  have pre: "length pre \<le> 2 * i + 1" "length (concat pre) = ?hl + 4 * i" "of_nat (length (concat pre)) = c"
    by (auto simp: pre_def i_def c_def)
  have cc: "concat blks = concat pre @ take h pp @ concat body @ replicate pad 0"
    by (simp add: blks_def)
  have cnt: "length blks \<le> 2 * i' + 3" "4 * i' + ?hl + length pp + pad = length (concat blks)"
  proof -
    have "length blks \<le> length pre + 1 + length body + 1" by (simp add: blks_def)
    then show "length blks \<le> 2 * i' + 3" using n(1,2) pre(1) by linarith
    have "h \<le> length pp" by (simp add: h_def)
    then show "4 * i' + ?hl + length pp + pad = length (concat blks)" using n(2,3) pre(2) unfolding cc by simp
  qed
  have cp: "cp' + of_nat pad = of_nat (length (concat blks))"
    unfolding cc r(3) h_def [symmetric] using pre(3) by (simp add: h_def)
  have "concat blks @ (if cp' + of_nat pad = mp' then mrkr rsvd i' mp' else [])
    = insert_mrkrs rsvd 0 mp ?n (hdr @ pp @ replicate pad 0)"
    unfolding lay cc r(2) [symmetric] h_def [symmetric] by (simp add: mrkr_tail_def)
  then have F: "insert_mrkrs rsvd 0 mp ?n (hdr @ pp @ replicate pad 0)
    = concat blks @ (if of_nat (length (concat blks)) = mp' then mrkr rsvd i' mp' else [])"
    unfolding cp by (rule sym)
  show ?thesis
    using cnt unfolding code cp F by (cases "of_nat (length (concat blks)) = mp'") (simp_all add: ac_simps)
qed

text \<open>
  The frame as the sender of a marker connection writes it, and its length: \<open>fpdu_len\<close> counts the
  markers that are there, unless the frame ends exactly where a marker is due.
\<close>

definition mrkr_fpdu :: "(nat \<Rightarrow> u16) \<Rightarrow> u32 \<Rightarrow> u8 list \<Rightarrow> u8 list \<Rightarrow> u8 list" where
  "mrkr_fpdu rsvd mp hdr payld =
     (let len = length hdr + length payld;
          body = insert_mrkrs rsvd 0 mp (unat mp) (mpa_put_len hdr (of_nat len) @ payld @ replicate (mpa_pad len) 0)
      in body @ le32 (htonl (crc32c body)))"

lemma mpa_fpdu_len:
  assumes "l \<noteq> n" "l < 65540" "unat mp = n"
  defines "L \<equiv> (of_nat l :: u32)"
  shows "unat (L + (if L > mp then 1 + (L - mp) div 508 else 0) * 4 + 4)
    = l + 4 * (if n \<le> l then 1 + (l - n) div 508 else 0) + 4"
proof -
  have L: "unat L = l" using assms(2) by (simp add: L_def unat_of_nat32)
  have gt: "L > mp \<longleftrightarrow> n \<le> l" using assms(1,3) L by (auto simp: word_less_nat_alt)
  show ?thesis
  proof (cases "n \<le> l")
    case True
    let ?k = "1 + (l - n) div 508"
    have "(l - n) div 508 \<le> l" by (meson diff_le_self div_le_dividend le_trans)
    then have k: "?k < 65541" using assms(2) by simp
    have "unat (L - mp) = l - n" using True gt L assms(3) by (simp add: unat_sub)
    then have "unat ((L - mp) div 508) = (l - n) div 508" by (simp add: unat_div)
    moreover have "1 + (L - mp) div 508 = of_nat (1 + unat ((L - mp) div 508))" by simp
    ultimately have "1 + (L - mp) div 508 = of_nat ?k" by (simp only:)
    then have "L + (1 + (L - mp) div 508) * 4 + 4 = of_nat (l + 4 * ?k + 4)" by (simp add: L_def)
    moreover have "l + 4 * ?k + 4 < 4294967296" using k assms(2) by simp
    ultimately show ?thesis using True gt by (simp only: unat_of_nat32 if_True)
  next
    case False
    have "L + 4 = of_nat (l + 4)" by (simp add: L_def)
    moreover have "l + 4 < 4294967296" using assms(2) by simp
    ultimately have "unat (L + 4) = l + 4" by (simp only: unat_of_nat32)
    then show ?thesis using False gt by simp
  qed
qed

lemma mpa_wrt_mrkr_ok:
  fixes s :: iwsk
  defines "mp \<equiv> send_mp (mpask s) - send_sp (mpask s)"
  assumes c: "conn_ok (conns w (sk_fd s))" and crc: "use_crc (mpask s) \<noteq> 0"
    and hdr: "2 \<le> length hdr" "length hdr mod 4 = 0" "length hdr \<le> 508"
    and len: "length payld + length hdr \<le> 32768" and al: "unat mp mod 4 = 0"
    and off: "unat mp \<noteq> length payld + length hdr + mpa_pad (length payld + length hdr)"
  shows "\<exists>c ret n sp. mpa_wrt_mrkr_fpdu hdr payld s w
      = Done (ret, s\<lparr>mpask := (mpask s)\<lparr>send_mp := send_mp (mpask s) + n * 512, send_sp := sp\<rparr>\<rparr>,
              set_conn (sk_fd s) c (w\<lparr>mpa_send_cntr := mpa_send_cntr w + 1\<rparr>))
    \<and> 0 \<le> ret \<and> conn_ok c
    \<and> tx c = tx (conns w (sk_fd s)) @ mrkr_fpdu (mrkr_rsvd w) mp hdr payld
    \<and> rx c = rx (conns w (sk_fd s))"
proof -
  let ?len = "length payld + length hdr" and ?w = "w\<lparr>mpa_send_cntr := mpa_send_cntr w + 1\<rparr>"
  let ?pad = "mpa_pad ?len" and ?hdr = "mpa_put_len hdr (of_nat ?len)"
  have u: "unat (of_nat ?len :: u16) = ?len" using len by (simp only: unat_of_nat16)
  have pad: "?pad < 4" "(?len + ?pad) mod 4 = 0" by (rule mpa_pad_lt, rule mpa_pad_dvd)
  have hl: "length ?hdr = length hdr" using hdr(1) by simp
  have ne: "?hdr \<noteq> []" using hl hdr(1) by (metis list.size(3) not_numeral_le_zero)
  have al': "(length ?hdr + length payld + ?pad) mod 4 = 0" using pad(2) unfolding hl by (simp add: ac_simps)
  obtain blks i' mp' where
    b: "mrkr_blocks (mrkr_rsvd w) ?hdr payld ?pad mp = Done (blks, i', of_nat (length (concat blks)), mp')"
      "concat blks = insert_mrkrs (mrkr_rsvd w) 0 mp (unat mp) (?hdr @ payld @ replicate ?pad 0)"
      "length blks \<le> 2 * i' + 3" "4 * i' + length ?hdr + length payld + ?pad = length (concat blks)"
    using mrkr_blocks_layout [OF al pad(1) al' _ ne] hdr len hl by fastforce
  let ?N = "if unat mp \<le> ?len + ?pad then 1 + (?len + ?pad - unat mp) div 508 else 0"
  have cl: "length (concat blks) = ?len + ?pad + 4 * ?N"
  proof -
    have "length (?hdr @ payld @ replicate ?pad 0) = ?len + ?pad"
      unfolding length_append hl length_replicate by simp
    then show ?thesis unfolding b(2) length_insert_mrkrs by (simp only:)
  qed
  have "i' = ?N" using b(4) cl hl by simp
  moreover have "(?len + ?pad - unat mp) div 508 \<le> 64"
  proof -
    have "?len + ?pad - unat mp < 65 * 508" using len pad(1) by linarith
    then show ?thesis by (simp add: less_mult_imp_div_less less_Suc_eq_le [symmetric])
  qed
  ultimately have i: "i' \<le> 65" by (simp split: if_splits)
  let ?F = "mrkr_fpdu (mrkr_rsvd w) mp hdr payld"
  let ?B = "blks @ [le32 (htonl (crc32c_vec blks))]"
  have F: "concat ?B = ?F"
    unfolding mrkr_fpdu_def Let_def crc32c_vec_concat concat_append b(2) by (simp add: ac_simps del: of_nat_add)
  define L where "L = (of_nat (?len + ?pad) :: u32)"
  define n where "n = (if L > mp then 1 + (L - mp) div 508 else 0)"
  have l: "unat (L + n * 4 + 4) = length (concat ?B)"
    unfolding n_def L_def using mpa_fpdu_len [of "?len + ?pad" "unat mp" mp] off len pad(1) cl by simp
  let ?s = "s\<lparr>mpask := (mpask s)\<lparr>send_mp := send_mp (mpask s) + n * 512,
    send_sp := send_sp (mpask s) + of_nat (length (concat blks))\<rparr>\<rparr>"
  have "mpa_wrt_mrkr_fpdu hdr payld s w
    = bindO (sock_writev (sk_fd s) ?B (length (concat ?B)) ?w) (\<lambda>(ret, w). Done (ret, ?s, w))"
  proof -
    have "length blks + 1 \<le> MAX_BLKS" "i' \<le> MAX_MRKRS" using b(3) i by simp_all
    then show ?thesis
      using crc unfolding mpa_wrt_mrkr_fpdu_def Let_def u mp_def [symmetric] L_def [symmetric] n_def [symmetric] l
      by (simp add: b(1) del: of_nat_add concat_append)
  qed
  moreover have iov: "iov_ok (map length ?B)"
  proof (rule iov_ok_concat)
    show "length ?B \<le> IOV_MAX" using b(3) i by simp
    have "length (concat ?B) = length (concat blks) + 4" by simp
    then show "length (concat ?B) < 2 ^ 31" unfolding cl using len pad(1) i b(4) cl hl by simp
  qed
  moreover obtain c' ret where
    "sock_writev (sk_fd s) ?B (length (concat ?B)) ?w = Done (ret, set_conn (sk_fd s) c' ?w)" "conn_ok c'" "0 \<le> ret"
    "tx c' = tx (conns w (sk_fd s)) @ ?F" "rx c' = rx (conns w (sk_fd s))"
    using sock_writev_ok [of ?w "sk_fd s", OF _ refl iov] c unfolding F by auto
  ultimately show ?thesis by (intro exI [of _ c'] exI [of _ ret] exI [of _ n] exI) simp
qed

text \<open>Where the markers are in a frame.\<close>

lemma insert_mrkrs_nth:
  "k + 508 * j \<le> length bs \<Longrightarrow>
   take 4 (drop (k + 512 * j) (insert_mrkrs rsvd i mp k bs)) = mrkr rsvd (i + j) (mp + 512 * of_nat j)"
proof (induction j arbitrary: i mp k bs)
  case 0
  then show ?case by (subst insert_mrkrs.simps) simp
next
  case (Suc j)
  have "508 + 508 * j \<le> length (drop k bs)" using Suc.prems by simp
  from Suc.IH [OF this, of "Suc i" "mp + 512"] Suc.prems show ?case
    by (subst insert_mrkrs.simps) (simp add: algebra_simps)
qed

section \<open>Properties\<close>

text \<open>
  C12. Start-up. When the initiator has private data (not the empty string, which it copies past its block) and
  offers at least what the responder insists on, the responder, reading
  the frame that the initiator writes, accepts, and its reply makes the initiator succeed as well. Both
  then have the same marker and checksum settings, which are the initiator's, and each has the other's
  private data in its buffer.
\<close>

theorem mpa_startup_agree:
  assumes "conn_ok (conns wR (sk_fd sR))"
    and "rx (conns wR (sk_fd sR)) = mpa_frame MPA_REQ_KEY pdI (use_mrkr (mpask sI) \<noteq> 0) (use_crc (mpask sI) \<noteq> 0) 0"
    and "use_mrkr (mpask sR) \<noteq> 0 \<longrightarrow> use_mrkr (mpask sI) \<noteq> 0" "use_crc (mpask sR) \<noteq> 0 \<longrightarrow> use_crc (mpask sI) \<noteq> 0"
    and "pdI \<noteq> []" "length pdI < 65535" "length pdR < 65535" "length (pd_bytes pdR) \<le> unat rpdI" "outI \<noteq> 0" "outR \<noteq> 0"
  shows "\<exists>sR' wR' reply. mpa_init_startup False (Some pdR) outR rpdR sR wR = Done (0, sR', wR')
    \<and> tx (conns wR' (sk_fd sR)) = tx (conns wR (sk_fd sR)) @ reply
    \<and> mem wR' = write_bytes (mem wR) outR (pd_bytes pdI)
    \<and> (\<forall>wI. conn_ok (conns wI (sk_fd sI)) \<and> rx (conns wI (sk_fd sI)) = reply \<longrightarrow>
         (\<exists>sI' wI'. mpa_init_startup True (Some pdI) outI rpdI sI wI = Done (0, sI', wI')
           \<and> tx (conns wI' (sk_fd sI)) = tx (conns wI (sk_fd sI)) @ rx (conns wR (sk_fd sR))
           \<and> mem wI' = write_bytes (mem wI) outI (pd_bytes pdR)
           \<and> (use_mrkr (mpask sI') \<noteq> 0) = (use_mrkr (mpask sI) \<noteq> 0) \<and> (use_crc (mpask sI') \<noteq> 0) = (use_crc (mpask sI) \<noteq> 0)
           \<and> (use_mrkr (mpask sI') \<noteq> 0) = (use_mrkr (mpask sR') \<noteq> 0) \<and> (use_crc (mpask sI') \<noteq> 0) = (use_crc (mpask sR') \<noteq> 0)))"
proof -
  let ?m = "use_mrkr (mpask sI) \<noteq> 0" and ?c = "use_crc (mpask sI) \<noteq> 0"
  let ?reply = "mpa_frame MPA_REP_KEY pdR ?m ?c 1"
  obtain sR' wR' where R: "mpa_init_startup False (Some pdR) outR rpdR sR wR = Done (0, sR', wR')"
    "(use_mrkr (mpask sR') \<noteq> 0) = ?m" "(use_crc (mpask sR') \<noteq> 0) = ?c"
    "tx (conns wR' (sk_fd sR)) = tx (conns wR (sk_fd sR)) @ ?reply"
    "mem wR' = write_bytes (mem wR) outR (pd_bytes pdI)"
    using startup_responder [of wR sR pdI ?m ?c "[]" pdR outR rpdR] assms by auto
  have "\<exists>sI' wI'. mpa_init_startup True (Some pdI) outI rpdI sI wI = Done (0, sI', wI')
      \<and> (use_mrkr (mpask sI') \<noteq> 0) = ?m \<and> (use_crc (mpask sI') \<noteq> 0) = ?c
      \<and> tx (conns wI' (sk_fd sI)) = tx (conns wI (sk_fd sI)) @ rx (conns wR (sk_fd sR))
      \<and> mem wI' = write_bytes (mem wI) outI (pd_bytes pdR)"
    if "conn_ok (conns wI (sk_fd sI))" "rx (conns wI (sk_fd sI)) = ?reply" for wI
    using startup_initiator [of wI sI pdR ?m ?c "[]" pdI outI rpdI] that assms by auto
  then show ?thesis
    using R by (intro exI [of _ sR'] exI [of _ wR'] exI [of _ ?reply]) (simp, blast)
qed

text \<open>
  C13. A frame with markers. On a connection with markers and checksum, whose next marker is a multiple of
  four bytes ahead and not right at the end of the frame, the sender writes header, payload and pad with a
  marker at that position and after every 508 bytes further, each holding its position in the frame,
  and then the checksum of all that; the length it gives to \<open>writev\<close> is the length of the frame.
\<close>

theorem mpa_mrkr_frame:
  assumes "conn_ok (conns w (sk_fd s))" "use_crc (mpask s) \<noteq> 0"
    and "2 \<le> length hdr" "length hdr mod 4 = 0" "length hdr \<le> 508" "length payld + length hdr \<le> 32768"
    and "mp = send_mp (mpask s) - send_sp (mpask s)" "unat mp mod 4 = 0"
    and "n = length payld + length hdr + mpa_pad (length payld + length hdr)" "unat mp \<noteq> n"
  shows "\<exists>c ret k sp body. mpa_wrt_mrkr_fpdu hdr payld s w
      = Done (ret, s\<lparr>mpask := (mpask s)\<lparr>send_mp := send_mp (mpask s) + k * 512, send_sp := sp\<rparr>\<rparr>,
              set_conn (sk_fd s) c (w\<lparr>mpa_send_cntr := mpa_send_cntr w + 1\<rparr>))
    \<and> 0 \<le> ret \<and> tx c = tx (conns w (sk_fd s)) @ body @ le32 (htonl (crc32c body))
    \<and> body = insert_mrkrs (mrkr_rsvd w) 0 mp (unat mp)
        (mpa_put_len hdr (of_nat (length payld + length hdr)) @ payld
         @ replicate (mpa_pad (length payld + length hdr)) 0)
    \<and> length body = n + 4 * (if unat mp \<le> n then 1 + (n - unat mp) div 508 else 0)
    \<and> (\<forall>j. unat mp + 508 * j \<le> n \<longrightarrow>
         take 4 (drop (unat mp + 512 * j) body) = mrkr (mrkr_rsvd w) j (mp + 512 * of_nat j))"
proof -
  let ?bs = "mpa_put_len hdr (of_nat (length payld + length hdr)) @ payld @ replicate (mpa_pad (length payld + length hdr)) 0"
  have n: "length ?bs = n" using assms(3) unfolding assms(9) length_append length_put_len [OF assms(3)] by simp
  have F: "mrkr_fpdu (mrkr_rsvd w) mp hdr payld
      = insert_mrkrs (mrkr_rsvd w) 0 mp (unat mp) ?bs
        @ le32 (htonl (crc32c (insert_mrkrs (mrkr_rsvd w) 0 mp (unat mp) ?bs)))"
    unfolding mrkr_fpdu_def Let_def add.commute [of "length hdr"] by (rule refl)
  have "\<And>j. unat mp + 508 * j \<le> n \<Longrightarrow>
     take 4 (drop (unat mp + 512 * j) (insert_mrkrs (mrkr_rsvd w) 0 mp (unat mp) ?bs))
     = mrkr (mrkr_rsvd w) j (mp + 512 * of_nat j)"
    using insert_mrkrs_nth [of "unat mp" _ ?bs "mrkr_rsvd w" 0 mp] unfolding n by simp
  moreover obtain c ret k sp where
    "mpa_wrt_mrkr_fpdu hdr payld s w
      = Done (ret, s\<lparr>mpask := (mpask s)\<lparr>send_mp := send_mp (mpask s) + k * 512, send_sp := sp\<rparr>\<rparr>,
              set_conn (sk_fd s) c (w\<lparr>mpa_send_cntr := mpa_send_cntr w + 1\<rparr>))" "0 \<le> ret"
    "tx c = tx (conns w (sk_fd s)) @ mrkr_fpdu (mrkr_rsvd w) mp hdr payld"
    using mpa_wrt_mrkr_ok [OF assms(1-6), folded assms(7), OF assms(8), folded assms(9), OF assms(10)] by blast
  ultimately show ?thesis
    using length_insert_mrkrs [of "mrkr_rsvd w" 0 mp "unat mp" ?bs] unfolding n F
    by (intro exI [of _ c] exI [of _ ret] exI [of _ k] exI [of _ sp] exI conjI) (assumption | rule refl | blast)+
qed

text \<open>An initiator with checksum on socket 2 and a responder without wishes on socket 1.\<close>

definition sk_crc :: iwsk where
  "sk_crc = (iwsk_zero 2)\<lparr>mpask := (mpask (iwsk_zero 2))\<lparr>use_crc := 1\<rparr>\<rparr>"

theorem mpa_startup_agree_witness:
  "\<exists>sR' wR' reply. mpa_init_startup False (Some [104, 105]) 0x200 0 (iwsk_zero 1)
      (world_start (\<lambda>_. conn_start (mpa_frame MPA_REQ_KEY [104] False True 0))) = Done (0, sR', wR')
    \<and> mem wR' = write_bytes (\<lambda>_. 0) 0x200 [104, 0]
    \<and> (\<forall>wI. conn_ok (conns wI 2) \<and> rx (conns wI 2) = reply \<longrightarrow>
         (\<exists>sI' wI'. mpa_init_startup True (Some [104]) 0x100 16 sk_crc wI = Done (0, sI', wI')
           \<and> mem wI' = write_bytes (mem wI) 0x100 [104, 105, 0] \<and> use_crc (mpask sI') \<noteq> 0))"
  using mpa_startup_agree [of "world_start (\<lambda>_. conn_start (mpa_frame MPA_REQ_KEY [104] False True 0))"
    "iwsk_zero 1" "[104]" sk_crc "[104, 105]" 16 "0x100" "0x200" 0]
  by (simp add: sk_crc_def iwsk_zero_def pd_bytes_def) blast

theorem mpa_mrkr_frame_witness:
  "\<exists>c ret s'. mpa_wrt_mrkr_fpdu (replicate 16 0) (replicate 600 7) sk_crc (world_start (\<lambda>_. conn_start []))
      = Done (ret, s', set_conn 2 c ((world_start (\<lambda>_. conn_start []))\<lparr>mpa_send_cntr := 1\<rparr>))
    \<and> 0 \<le> ret \<and> take 4 (tx c) = mrkr (\<lambda>_. 0) 0 0 \<and> take 4 (drop 512 (tx c)) = mrkr (\<lambda>_. 0) 1 512"
proof -
  let ?w = "world_start (\<lambda>_. conn_start [])"
  have w: "mpa_send_cntr ?w = 0" by (simp add: world_start_def)
  have s: "send_mp (mpask sk_crc) = 0" "send_sp (mpask sk_crc) = 0" "use_crc (mpask sk_crc) = 1" "sk_fd sk_crc = 2"
    by (simp_all add: sk_crc_def iwsk_zero_def)
  define H P :: "u8 list" where "H = replicate 16 0" and "P = replicate 600 7"
  have l: "length H = 16" "length P = 600" by (simp_all add: H_def P_def)
  have p: "conn_ok (conns ?w (sk_fd sk_crc))" "use_crc (mpask sk_crc) \<noteq> 0" "2 \<le> length H" "length H mod 4 = 0"
    "length H \<le> 508" "length P + length H \<le> 32768" "0 = send_mp (mpask sk_crc) - send_sp (mpask sk_crc)"
    "unat (0 :: u32) mod 4 = 0" "616 = length P + length H + mpa_pad (length P + length H)" "unat (0 :: u32) \<noteq> 616"
    by (simp_all add: s l mpa_pad_def)
  obtain c ret k sp body where
    r: "mpa_wrt_mrkr_fpdu H P sk_crc ?w = Done (ret,
        sk_crc\<lparr>mpask := (mpask sk_crc)\<lparr>send_mp := send_mp (mpask sk_crc) + k * 512, send_sp := sp\<rparr>\<rparr>,
        set_conn (sk_fd sk_crc) c (?w\<lparr>mpa_send_cntr := mpa_send_cntr ?w + 1\<rparr>))"
      "0 \<le> ret" "tx c = tx (conns ?w (sk_fd sk_crc)) @ body @ le32 (htonl (crc32c body))"
      "length body = 616 + 4 * (if unat (0 :: u32) \<le> 616 then 1 + (616 - unat (0 :: u32)) div 508 else 0)"
      "\<forall>j. unat (0 :: u32) + 508 * j \<le> 616 \<longrightarrow>
         take 4 (drop (unat (0 :: u32) + 512 * j) body) = mrkr (mrkr_rsvd ?w) j (0 + 512 * of_nat j)"
    using mpa_mrkr_frame [OF p] by blast
  have len: "length body = 624" using r(4) by simp
  have "take 4 body = mrkr (\<lambda>_. 0) 0 0" "take 4 (drop 512 body) = mrkr (\<lambda>_. 0) 1 512"
    using r(5) [rule_format, of 0] r(5) [rule_format, of 1] by simp_all
  then have "take 4 (tx c) = mrkr (\<lambda>_. 0) 0 0" "take 4 (drop 512 (tx c)) = mrkr (\<lambda>_. 0) 1 512"
    using r(3) len by (simp_all add: s)
  moreover have "mpa_wrt_mrkr_fpdu H P sk_crc ?w = Done (ret,
        sk_crc\<lparr>mpask := (mpask sk_crc)\<lparr>send_mp := send_mp (mpask sk_crc) + k * 512, send_sp := sp\<rparr>\<rparr>,
        set_conn 2 c (?w\<lparr>mpa_send_cntr := 1\<rparr>))"
    using r(1) unfolding s(4) w by simp
  ultimately show ?thesis using r(2) unfolding H_def [symmetric] P_def [symmetric] by blast
qed

text \<open>
  A frame that ends where the next marker is due: the marker is written, but not counted in the length,
  and \<open>writev_full\<close>, which has written more than it was to, does not come back.
\<close>

lemma mpa_mrkr_frame_short:
  "mpa_wrt_mrkr_fpdu (replicate 16 0) [] (sk_crc\<lparr>mpask := (mpask sk_crc)\<lparr>send_mp := 16\<rparr>\<rparr>)
     (world_start (\<lambda>_. conn_start [])) = Exit"
  by (simp add: mpa_wrt_mrkr_fpdu_def Let_def mpa_put_len_def mpa_pad_def mrkr_blocks_def sk_crc_def
    iwsk_zero_def mrkr_body.simps [of _ "[]"] sock_writev_def conn_start_def writev_full.simps [of "[]"]
    iov_count_def rw_count_def sys_count_def mrkr_def le16_def)

end
