(* ===== verification/Iw_Ddp.thy ===== *)
theory Iw_Ddp
  imports Iw_Mpa
begin

text \<open>
  DDP, the placement layer (\<open>iwarp/ddp.c\<close>, \<open>iwarp/ddp.h\<close>), sending side: registration, the segment
  headers, and the cutting of a message into segments, tagged and untagged. A message is the function from
  the offset to the byte found there. Reception is in \<open>Iw_Ddp_Recv\<close>.
\<close>

section \<open>Headers\<close>

definition swab64 :: "u64 \<Rightarrow> u64" where
  "swab64 x = (let h = (ucast (drop_bit 32 x) :: u32); l = (ucast (x AND 0xFFFFFFFF) :: u32)
     in push_bit 32 (ucast (ntohl l)) OR ucast (ntohl h))"

abbreviation ntohq :: "u64 \<Rightarrow> u64" where "ntohq \<equiv> swab64"
abbreviation htonq :: "u64 \<Rightarrow> u64" where "htonq \<equiv> swab64"

definition DDP_CF_DV :: u8 where "DDP_CF_DV = 0x1"
definition DDP_CF_TAGGED :: u8 where "DDP_CF_TAGGED = 0x80"
definition ddp_is_TAGGED :: "u8 \<Rightarrow> bool" where "ddp_is_TAGGED c \<longleftrightarrow> c AND 0x80 \<noteq> 0"
definition ddp_get_TAGGED :: "u8 \<Rightarrow> u8" where "ddp_get_TAGGED c = drop_bit 7 (c AND 0x80)"
definition ddp_is_LAST :: "u8 \<Rightarrow> bool" where "ddp_is_LAST c \<longleftrightarrow> c AND 0x40 \<noteq> 0"
definition ddp_set_LAST :: "u8 \<Rightarrow> u8" where "ddp_set_LAST c = c OR 0x40"

lemmas ddp_cf_defs = DDP_CF_DV_def DDP_CF_TAGGED_def ddp_is_TAGGED_def ddp_get_TAGGED_def ddp_is_LAST_def
  ddp_set_LAST_def

text \<open>The header structures; the first field belongs to MPA.\<close>

record ddp_tagged_hdr =
  th_llp_hdr :: u16
  th_cf :: u8
  th_rsvdulp :: u8
  th_stag :: u32
  th_to :: u64

record ddp_untagged_hdr =
  uh_llp_hdr :: u16
  uh_cf :: u8
  uh_ulp_ctrl :: u8
  uh_ulp_payld :: u32
  uh_qn :: u32
  uh_msn :: u32
  uh_mo :: u32

definition UNTAGGED_HDR_SZ :: nat where "UNTAGGED_HDR_SZ = 20"
definition TAGGED_HDR_SZ :: nat where "TAGGED_HDR_SZ = 16"

text \<open>The structures as they lie in memory, on a little-endian host.\<close>

definition tagged_bytes :: "ddp_tagged_hdr \<Rightarrow> u8 list" where
  "tagged_bytes h = le16 (th_llp_hdr h) @ [th_cf h, th_rsvdulp h] @ le32 (th_stag h) @ le64 (th_to h)"

definition untagged_bytes :: "ddp_untagged_hdr \<Rightarrow> u8 list" where
  "untagged_bytes h = le16 (uh_llp_hdr h) @ [uh_cf h, uh_ulp_ctrl h] @ le32 (uh_ulp_payld h)
     @ le32 (uh_qn h) @ le32 (uh_msn h) @ le32 (uh_mo h)"

definition tagged_of_bytes :: "u8 list \<Rightarrow> ddp_tagged_hdr" where
  "tagged_of_bytes bs = \<lparr>th_llp_hdr = of_le (take 2 bs), th_cf = bs ! 2, th_rsvdulp = bs ! 3,
     th_stag = of_le (take 4 (drop 4 bs)), th_to = of_le (take 8 (drop 8 bs))\<rparr>"

definition untagged_of_bytes :: "u8 list \<Rightarrow> ddp_untagged_hdr" where
  "untagged_of_bytes bs = \<lparr>uh_llp_hdr = of_le (take 2 bs), uh_cf = bs ! 2, uh_ulp_ctrl = bs ! 3,
     uh_ulp_payld = of_le (take 4 (drop 4 bs)), uh_qn = of_le (take 4 (drop 8 bs)),
     uh_msn = of_le (take 4 (drop 12 bs)), uh_mo = of_le (take 4 (drop 16 bs))\<rparr>"

definition ddp_get_max_hdr_sz :: nat where
  "ddp_get_max_hdr_sz = (if UNTAGGED_HDR_SZ > TAGGED_HDR_SZ then UNTAGGED_HDR_SZ else TAGGED_HDR_SZ)"

definition ddp_get_hdr_sz :: "u8 list \<Rightarrow> nat" where
  "ddp_get_hdr_sz b = (if ddp_is_TAGGED (b ! 2) then TAGGED_HDR_SZ else UNTAGGED_HDR_SZ)"

section \<open>Registration\<close>

text \<open>The payload lengths are variables of the process, set by the latest registration.\<close>

definition ddp_register_sock :: "iwsk \<Rightarrow> world \<Rightarrow> (int \<times> iwsk \<times> world) outcome" where
  "ddp_register_sock s w =
     bindO (mpa_register_sock s w) (\<lambda>(ret, s, w).
       if ret < 0 then Done (ret, s, w)
       else let len = mpa_get_mulpdu (sk_fd s) w;
                d = (ddpsk s)\<lparr>recv_msn := 1, send_msn := 1, ddp_sgmnt_len := len, outst_tag := [], outst_untag := []\<rparr>
            in Done (0, s\<lparr>ddpsk := d\<rparr>,
                 w\<lparr>untagged_payld_len := ucast (len - of_nat UNTAGGED_HDR_SZ),
                   tagged_payld_len := ucast (len - of_nat TAGGED_HDR_SZ)\<rparr>))"

definition ddp_deregister_sock :: "iwsk \<Rightarrow> world \<Rightarrow> world outcome" where
  "ddp_deregister_sock s w =
     (if outst_tag (ddpsk s) \<noteq> [] then Exit
      else if outst_untag (ddpsk s) \<noteq> [] then Exit
      else mpa_deregister_sock s w)"

definition ddp_get_ddpseg_len :: "iwsk \<Rightarrow> u32" where
  "ddp_get_ddpseg_len s = ddp_sgmnt_len (ddpsk s)"

section \<open>Sending\<close>

type_synonym msg = "u64 \<Rightarrow> u8"

definition msg_part :: "msg \<Rightarrow> u64 \<Rightarrow> u16 \<Rightarrow> u8 list" where
  "msg_part msg off len = map (\<lambda>i. msg (off + of_nat i)) [0..<unat len]"

text \<open>
  The loops, by the number of segments still to go: the last one carries the flag and the rest of the
  message.
\<close>

fun untagged_loop :: "nat \<Rightarrow> msg \<Rightarrow> u32 \<Rightarrow> ddp_untagged_hdr \<Rightarrow> u32 \<Rightarrow> iwsk \<Rightarrow> world \<Rightarrow> (int \<times> iwsk \<times> world) outcome" where
  "untagged_loop 0 msg msg_len h mo s w = Done (0, s, w)"
| "untagged_loop (Suc n) msg msg_len h mo s w =
     (let h = h\<lparr>uh_mo := htonl mo\<rparr>;
          pp = ucast mo;
          (h, len, mo) =
            (if n = 0 then (h\<lparr>uh_cf := ddp_set_LAST (uh_cf h)\<rparr>, ucast (msg_len - mo), mo)
             else (h, untagged_payld_len w, mo + ucast (untagged_payld_len w)))
      in bindO (mpa_send (untagged_bytes h) (msg_part msg pp len) s w) (\<lambda>(ret, s, w).
           if ret < 0 then Done (ret, s, w) else untagged_loop n msg msg_len h mo s w))"

definition ddp_send_untagged :: "msg \<Rightarrow> u32 \<Rightarrow> u32 \<Rightarrow> u8 \<Rightarrow> u32 \<Rightarrow> iwsk \<Rightarrow> world \<Rightarrow> (int \<times> iwsk \<times> world) outcome" where
  "ddp_send_untagged msg msg_len qn ulp_ctrl ulp_payld s w =
     (let h = \<lparr>uh_llp_hdr = 0, uh_cf = DDP_CF_DV, uh_ulp_ctrl = ulp_ctrl, uh_ulp_payld = htonl ulp_payld,
               uh_qn = htonl qn, uh_msn = htonl (send_msn (ddpsk s)), uh_mo = 0\<rparr>;
          P = (ucast (untagged_payld_len w) :: u32)
      in if P = 0 then Exit
         else let num_sgmnts = (msg_len + P - 1) div P;
                  num_sgmnts = (if num_sgmnts = 0 then 1 else num_sgmnts)
              in bindO (untagged_loop (unat num_sgmnts) msg msg_len h 0 s w) (\<lambda>(ret, s, w).
                   if ret < 0 then Done (ret, s, w)
                   else Done (0, s\<lparr>ddpsk := (ddpsk s)\<lparr>send_msn := send_msn (ddpsk s) + 1\<rparr>\<rparr>, w)))"

fun tagged_loop :: "nat \<Rightarrow> msg \<Rightarrow> u32 \<Rightarrow> u64 \<Rightarrow> ddp_tagged_hdr \<Rightarrow> u64 \<Rightarrow> iwsk \<Rightarrow> world \<Rightarrow> (int \<times> iwsk \<times> world) outcome" where
  "tagged_loop 0 msg msg_len to h off s w = Done (0, s, w)"
| "tagged_loop (Suc n) msg msg_len to h off s w =
     (let h = h\<lparr>th_to := htonq (to + off)\<rparr>;
          pp = off;
          (h, len, off) =
            (if n = 0 then (h\<lparr>th_cf := ddp_set_LAST (th_cf h)\<rparr>, ucast (ucast msg_len - off), off)
             else (h, tagged_payld_len w, off + ucast (tagged_payld_len w)))
      in bindO (mpa_send (tagged_bytes h) (msg_part msg pp len) s w) (\<lambda>(ret, s, w).
           if ret < 0 then Done (ret, s, w) else tagged_loop n msg msg_len to h off s w))"

definition ddp_send_tagged :: "msg \<Rightarrow> u32 \<Rightarrow> u8 \<Rightarrow> u32 \<Rightarrow> u64 \<Rightarrow> iwsk \<Rightarrow> world \<Rightarrow> (int \<times> iwsk \<times> world) outcome" where
  "ddp_send_tagged msg msg_len rsvdulp stag to s w =
     (let P = (ucast (tagged_payld_len w) :: u32)
      in if P = 0 then Exit
         else let num_sgmnts = (msg_len + P - 1) div P;
                  h = \<lparr>th_llp_hdr = 0, th_cf = DDP_CF_TAGGED OR DDP_CF_DV, th_rsvdulp = rsvdulp,
                       th_stag = htonl stag, th_to = 0\<rparr>
              in tagged_loop (unat num_sgmnts) msg msg_len to h 0 s w)"

section \<open>The headers, read back\<close>

lemma swab64_halves:
  "(ucast (drop_bit 32 (swab64 x)) :: u32) = ntohl (ucast x)"
  "(ucast (swab64 x) :: u32) = ntohl (ucast (drop_bit 32 x))"
proof -
  have h: "(ucast (drop_bit 32 (push_bit 32 (ucast a :: u64) OR ucast b)) :: u32) = a"
    and l: "(ucast (push_bit 32 (ucast a :: u64) OR ucast b) :: u32) = b" for a b :: u32
    by (rule word32_eqI, simp add: bit_expand)+
  have "(ucast (x AND 0xFFFFFFFF) :: u32) = ucast x"
    by (rule word32_eqI) (simp add: bit_expand bit_numeral_word_iff)
  then show "(ucast (drop_bit 32 (swab64 x)) :: u32) = ntohl (ucast x)"
    "(ucast (swab64 x) :: u32) = ntohl (ucast (drop_bit 32 x))"
    by (simp_all only: swab64_def Let_def h l)
qed

lemma le64_swab64: "le64 (swab64 x) = rev (le64 x)"
  by (simp add: le64_def swab64_halves le32_htonl)

lemma le64_inject [simp]: "le64 a = le64 b \<longleftrightarrow> a = b"
  by (metis of_le_le64)

lemma swab64_swab64 [simp]: "swab64 (swab64 x) = x"
proof -
  have "le64 (swab64 (swab64 x)) = le64 x" by (simp only: le64_swab64 rev_rev_ident)
  then show ?thesis by simp
qed

lemma length_hdr_bytes [simp]: "length (tagged_bytes h) = 16" "length (untagged_bytes u) = 20"
  by (simp_all add: tagged_bytes_def untagged_bytes_def)

lemma tagged_of_tagged_bytes [simp]: "tagged_of_bytes (tagged_bytes h) = h"
  by (cases h) (simp add: tagged_of_bytes_def tagged_bytes_def nth_append)

lemma untagged_of_untagged_bytes [simp]: "untagged_of_bytes (untagged_bytes h) = h"
  by (cases h) (simp add: untagged_of_bytes_def untagged_bytes_def nth_append)

lemma ddp_cf_bits: "ddp_is_TAGGED c \<longleftrightarrow> bit c 7" "ddp_is_LAST c \<longleftrightarrow> bit c 6" "ddp_get_TAGGED c \<noteq> 0 \<longleftrightarrow> bit c 7"
proof -
  have "c AND 0x80 = (if bit c 7 then 0x80 else 0)" "c AND 0x40 = (if bit c 6 then 0x40 else 0)"
    by (rule word8_eqI, simp add: bit_expand bit_numeral_word_iff)+
  then show "ddp_is_TAGGED c \<longleftrightarrow> bit c 7" "ddp_is_LAST c \<longleftrightarrow> bit c 6" "ddp_get_TAGGED c \<noteq> 0 \<longleftrightarrow> bit c 7"
    by (simp_all add: ddp_cf_defs)
qed

section \<open>Segmentation\<close>

text \<open>The segments of a message: offset, bytes, and whether it is the last.\<close>

function segments :: "nat \<Rightarrow> nat \<Rightarrow> u8 list \<Rightarrow> (nat \<times> u8 list \<times> bool) list" where
  "segments P off bs =
     (if P = 0 \<or> length bs \<le> P then [(off, bs, True)]
      else (off, take P bs, False) # segments P (off + P) (drop P bs))"
  by pat_completeness auto

termination by (relation "measure (\<lambda>(P, off, bs). length bs)") auto

declare segments.simps [simp del]

lemma segments_not_Nil [simp]: "segments P off bs \<noteq> []"
  by (subst segments.simps) simp

lemma segments_concat: "concat (map (\<lambda>(off, pl, fin). pl) (segments P off bs)) = bs"
  by (induction P off bs rule: segments.induct) (subst segments.simps, simp)

lemma segments_max: "0 < P \<Longrightarrow> (k, pl, fin) \<in> set (segments P off bs) \<Longrightarrow> length pl \<le> P"
  by (induction P off bs rule: segments.induct) (subst (asm) (2) segments.simps, auto split: if_splits)

lemma segments_at:
  "(k, pl, fin) \<in> set (segments P off bs) \<Longrightarrow> off \<le> k \<and> pl = take (length pl) (drop (k - off) bs)
     \<and> k + length pl \<le> off + length bs \<and> (fin \<longleftrightarrow> k + length pl = off + length bs)"
proof (induction P off bs rule: segments.induct)
  case (1 P off bs)
  show ?case
  proof (cases "P = 0 \<or> length bs \<le> P")
    case True
    with 1(2) show ?thesis by (subst (asm) segments.simps) simp
  next
    case False
    with 1 show ?thesis by (subst (asm) (2) segments.simps) (auto simp: min_def split: if_splits)
  qed
qed

lemma segments_count:
  "0 < P \<Longrightarrow> length (segments P off bs) = (if bs = [] then 1 else (length bs + P - 1) div P)"
proof (induction P off bs rule: segments.induct)
  case (1 P off bs)
  show ?case
  proof (cases "length bs \<le> P")
    case True
    then have "bs \<noteq> [] \<Longrightarrow> (length bs + P - 1) div P = 1"
      using 1(2) by (cases bs) (auto intro!: div_nat_eqI)
    with True show ?thesis by (subst segments.simps) simp
  next
    case False
    have "length bs + P - 1 = (length bs - P + P - 1) + P" using False 1(2) by simp
    then have "(length bs + P - 1) div P = Suc ((length bs - P + P - 1) div P)"
      using 1(2) by (simp only: div_add_self2)
    with False 1 show ?thesis by (subst segments.simps) auto
  qed
qed

definition msg_bytes :: "msg \<Rightarrow> nat \<Rightarrow> u8 list" where
  "msg_bytes msg n = map (\<lambda>i. msg (of_nat i)) [0..<n]"

lemma length_msg_bytes [simp]: "length (msg_bytes msg n) = n"
  by (simp add: msg_bytes_def)

lemma msg_part_bytes:
  "k + unat len \<le> n \<Longrightarrow> msg_part msg (of_nat k) len = take (unat len) (drop k (msg_bytes msg n))"
  by (rule nth_equalityI) (simp_all add: msg_part_def msg_bytes_def)

text \<open>Frames given to MPA one after the other, until one fails.\<close>

fun mpa_send_list :: "(u8 list \<times> u8 list) list \<Rightarrow> iwsk \<Rightarrow> world \<Rightarrow> (int \<times> iwsk \<times> world) outcome" where
  "mpa_send_list [] s w = Done (0, s, w)"
| "mpa_send_list ((hdr, payld) # fs) s w =
     bindO (mpa_send hdr payld s w) (\<lambda>(ret, s, w). if ret < 0 then Done (ret, s, w) else mpa_send_list fs s w)"

text \<open>What sending leaves alone.\<close>

definition send_keeps :: "iwsk \<Rightarrow> world \<Rightarrow> iwsk \<Rightarrow> world \<Rightarrow> bool" where
  "send_keeps s w s' w' \<longleftrightarrow>
     untagged_payld_len w' = untagged_payld_len w \<and> tagged_payld_len w' = tagged_payld_len w
   \<and> sk_fd s' = sk_fd s \<and> ddpsk s' = ddpsk s \<and> rdmapsk s' = rdmapsk s \<and> scq s' = scq s \<and> rcq s' = rcq s
   \<and> mem w' = mem w \<and> mm w' = mm w \<and> cqs w' = cqs w \<and> iwht w' = iwht w
   \<and> use_crc (mpask s') = use_crc (mpask s) \<and> use_mrkr (mpask s') = use_mrkr (mpask s)
   \<and> last_send_sk w' = last_send_sk w \<and> last_recv_sk w' = last_recv_sk w"

lemma send_keeps_refl [simp]: "send_keeps s w s w"
  by (simp add: send_keeps_def)

lemma send_keeps_trans: "send_keeps s w s' w' \<Longrightarrow> send_keeps s' w' s'' w'' \<Longrightarrow> send_keeps s w s'' w''"
  by (simp add: send_keeps_def)

lemma mpa_send_keeps: "mpa_send hdr payld s w = Done (ret, s', w') \<Longrightarrow> send_keeps s w s' w'"
  by (auto simp: mpa_send_def mpa_wrt_mrkr_fpdu_def mpa_wrt_plain_fpdu_def sock_writev_def Let_def send_keeps_def
    outcome_simps split: if_splits prod.splits)

lemma mpa_send_list_keeps: "mpa_send_list fs s w = Done (ret, s', w') \<Longrightarrow> send_keeps s w s' w'"
  by (induction fs s w rule: mpa_send_list.induct)
    (auto simp: outcome_simps split: if_splits, (meson mpa_send_keeps send_keeps_trans)+)

definition untagged_frame :: "ddp_untagged_hdr \<Rightarrow> nat \<times> u8 list \<times> bool \<Rightarrow> u8 list \<times> u8 list" where
  "untagged_frame h = (\<lambda>(off, pl, fin).
     (untagged_bytes (h\<lparr>uh_mo := htonl (of_nat off), uh_cf := (if fin then ddp_set_LAST (uh_cf h) else uh_cf h)\<rparr>), pl))"

definition tagged_frame :: "ddp_tagged_hdr \<Rightarrow> u64 \<Rightarrow> nat \<times> u8 list \<times> bool \<Rightarrow> u8 list \<times> u8 list" where
  "tagged_frame h to = (\<lambda>(off, pl, fin).
     (tagged_bytes (h\<lparr>th_to := htonq (to + of_nat off), th_cf := (if fin then ddp_set_LAST (th_cf h) else th_cf h)\<rparr>), pl))"

lemma ucast_of_nat32:
  assumes "k < 2 ^ 32"
  shows "(ucast (of_nat k :: u32) :: u64) = of_nat k"
proof -
  have "unat (of_nat k :: u32) = k" using assms by (intro unat_of_nat32) simp
  then show ?thesis by (metis of_nat_unat)
qed

lemma ucast_u16: "(ucast (p :: u16) :: u32) = of_nat (unat p)" "(ucast p :: u64) = of_nat (unat p)"
  by (rule of_nat_unat [symmetric])+

lemma unat_ucast_u16: "unat x < 65536 \<Longrightarrow> unat (ucast (x :: u32) :: u16) = unat x"
  by (simp add: unsigned_ucast_eq take_bit_nat_eq_self)

lemma unat_u16_lt: "unat (p :: u16) < 65536"
  by (rule order_less_le_trans [OF unsigned_less]) simp

lemma untagged_loop_list:
  assumes "P = unat (untagged_payld_len w)" "0 < P" "off \<le> n" "n + P < 2 ^ 32"
  shows "untagged_loop (length (segments P off (drop off (msg_bytes msg n)))) msg (of_nat n) h (of_nat off) s w
    = mpa_send_list (map (untagged_frame h) (segments P off (drop off (msg_bytes msg n)))) s w"
  using assms(1,3)
proof (induction "n - off" arbitrary: off h s w rule: less_induct)
  case less
  have P: "P < 65536" using less(2) unat_u16_lt by simp
  have off: "(ucast (of_nat off :: u32) :: u64) = of_nat off"
    using less(3) assms(4) by (simp add: ucast_of_nat32)
  show ?case
  proof (cases "n - off \<le> P")
    case True
    have "unat (of_nat n - of_nat off :: u32) = n - off"
      using less(3) assms(4) by (simp add: unat_of_nat32 flip: of_nat_diff)
    then have l: "unat (ucast (of_nat n - of_nat off :: u32) :: u16) = n - off"
      using True P by (simp add: unat_ucast_u16)
    have "msg_part msg (of_nat off) (ucast (of_nat n - of_nat off :: u32)) = drop off (msg_bytes msg n)"
      using msg_part_bytes [of off "ucast (of_nat n - of_nat off :: u32)" n msg] less(3) unfolding l by simp
    then show ?thesis using True
      by (subst (1 2) segments.simps) (simp add: untagged_frame_def Let_def off cong: if_cong)
  next
    case False
    let ?rest = "segments P (off + P) (drop (off + P) (msg_bytes msg n))"
    have seg: "segments P off (drop off (msg_bytes msg n)) = (off, take P (drop off (msg_bytes msg n)), False) # ?rest"
      using False assms(2) by (subst segments.simps) (simp add: add.commute)
    obtain m where m: "length ?rest = Suc m"
      by (cases ?rest) auto
    have "msg_part msg (of_nat off) (untagged_payld_len w) = take P (drop off (msg_bytes msg n))"
      using msg_part_bytes [of off "untagged_payld_len w" n msg] less(2) False by simp
    moreover have mo: "(of_nat off + ucast (untagged_payld_len w) :: u32) = of_nat (off + P)"
      unfolding less(2) ucast_u16 by simp
    moreover have "untagged_loop (length ?rest) msg (of_nat n) (h\<lparr>uh_mo := x\<rparr>) (of_nat (off + P)) s' w'
      = mpa_send_list (map (untagged_frame h) ?rest) s' w'" if "untagged_payld_len w' = untagged_payld_len w" for x s' w'
    proof -
      have "untagged_frame (h\<lparr>uh_mo := x\<rparr>) = untagged_frame h" by (simp add: untagged_frame_def cong: if_cong)
      then show ?thesis using less(1) [of "off + P" w' "h\<lparr>uh_mo := x\<rparr>" s'] that less(2) False assms(2) by simp
    qed
    ultimately show ?thesis
      unfolding seg using m
      by (auto simp: untagged_frame_def Let_def off intro!: bindO_cong dest!: mpa_send_keeps simp: send_keeps_def cong: if_cong)
  qed
qed

lemma tagged_loop_list:
  assumes "P = unat (tagged_payld_len w)" "0 < P" "off \<le> n" "n + P < 2 ^ 32"
  shows "tagged_loop (length (segments P off (drop off (msg_bytes msg n)))) msg (of_nat n) to h (of_nat off) s w
    = mpa_send_list (map (tagged_frame h to) (segments P off (drop off (msg_bytes msg n)))) s w"
  using assms(1,3)
proof (induction "n - off" arbitrary: off h s w rule: less_induct)
  case less
  have P: "P < 65536" using less(2) unat_u16_lt by simp
  show ?case
  proof (cases "n - off \<le> P")
    case True
    have "n - off < 18446744073709551616" using assms(4) by simp
    then have "unat (ucast (of_nat n :: u32) - of_nat off :: u64) = n - off"
      using less(3) assms(4) by (simp add: ucast_of_nat32 unat_of_nat64 flip: of_nat_diff)
    then have l: "unat (ucast (ucast (of_nat n :: u32) - of_nat off :: u64) :: u16) = n - off"
      using True P by (simp add: unsigned_ucast_eq take_bit_nat_eq_self)
    have "msg_part msg (of_nat off) (ucast (ucast (of_nat n :: u32) - of_nat off :: u64)) = drop off (msg_bytes msg n)"
      using msg_part_bytes [of off "ucast (ucast (of_nat n :: u32) - of_nat off :: u64)" n msg] less(3) unfolding l by simp
    then show ?thesis using True
      by (subst (1 2) segments.simps) (simp add: tagged_frame_def Let_def cong: if_cong)
  next
    case False
    let ?rest = "segments P (off + P) (drop (off + P) (msg_bytes msg n))"
    have seg: "segments P off (drop off (msg_bytes msg n)) = (off, take P (drop off (msg_bytes msg n)), False) # ?rest"
      using False assms(2) by (subst segments.simps) (simp add: add.commute)
    obtain m where m: "length ?rest = Suc m" by (cases ?rest) auto
    have "msg_part msg (of_nat off) (tagged_payld_len w) = take P (drop off (msg_bytes msg n))"
      using msg_part_bytes [of off "tagged_payld_len w" n msg] less(2) False by simp
    moreover have mo: "(of_nat off + ucast (tagged_payld_len w) :: u64) = of_nat (off + P)"
      unfolding less(2) ucast_u16 by simp
    moreover have "tagged_loop (length ?rest) msg (of_nat n) to (h\<lparr>th_to := x\<rparr>) (of_nat (off + P)) s' w'
      = mpa_send_list (map (tagged_frame h to) ?rest) s' w'" if "tagged_payld_len w' = tagged_payld_len w" for x s' w'
    proof -
      have "tagged_frame (h\<lparr>th_to := x\<rparr>) to = tagged_frame h to" by (simp add: tagged_frame_def cong: if_cong)
      then show ?thesis using less(1) [of "off + P" w' "h\<lparr>th_to := x\<rparr>" s'] that less(2) False assms(2) by simp
    qed
    ultimately show ?thesis
      unfolding seg using m
      by (auto simp: tagged_frame_def Let_def intro!: bindO_cong dest!: mpa_send_keeps simp: send_keeps_def cong: if_cong)
  qed
qed

text \<open>The number of segments, in the 32-bit arithmetic of the code.\<close>

lemma num_sgmnts_eq:
  assumes "0 < P" "n + P < 2 ^ 32"
  shows "unat ((of_nat n + of_nat P - 1 :: u32) div of_nat P) = (n + P - 1) div P"
proof -
  have "(of_nat n + of_nat P - 1 :: u32) = of_nat (n + P - 1)"
    using assms by (simp add: of_nat_diff)
  then show ?thesis using assms by (simp add: unat_div unat_of_nat32 del: of_nat_diff)
qed

definition untagged_hdr :: "u8 \<Rightarrow> u32 \<Rightarrow> u32 \<Rightarrow> u32 \<Rightarrow> ddp_untagged_hdr" where
  "untagged_hdr ulp_ctrl ulp_payld qn msn = \<lparr>uh_llp_hdr = 0, uh_cf = DDP_CF_DV, uh_ulp_ctrl = ulp_ctrl,
     uh_ulp_payld = htonl ulp_payld, uh_qn = htonl qn, uh_msn = htonl msn, uh_mo = 0\<rparr>"

definition tagged_hdr :: "u8 \<Rightarrow> u32 \<Rightarrow> ddp_tagged_hdr" where
  "tagged_hdr rsvdulp stag = \<lparr>th_llp_hdr = 0, th_cf = DDP_CF_TAGGED OR DDP_CF_DV, th_rsvdulp = rsvdulp,
     th_stag = htonl stag, th_to = 0\<rparr>"

lemma ddp_send_untagged_list:
  assumes "P = unat (untagged_payld_len w)" "0 < P" "n + P < 2 ^ 32"
  shows "ddp_send_untagged msg (of_nat n) qn c p s w
    = bindO (mpa_send_list (map (untagged_frame (untagged_hdr c p qn (send_msn (ddpsk s)))) (segments P 0 (msg_bytes msg n))) s w)
        (\<lambda>(ret, s, w). if ret < 0 then Done (ret, s, w)
           else Done (0, s\<lparr>ddpsk := (ddpsk s)\<lparr>send_msn := send_msn (ddpsk s) + 1\<rparr>\<rparr>, w))"
proof -
  have p: "(ucast (untagged_payld_len w) :: u32) = of_nat P" by (simp only: ucast_u16 assms(1))
  have p0: "(of_nat P :: u32) \<noteq> 0"
    using assms(2,3) of_nat_eq_u32 [of P 0] by simp
  let ?k = "(of_nat n + of_nat P - 1 :: u32) div of_nat P"
  have k: "unat (if ?k = 0 then 1 else ?k) = length (segments P 0 (msg_bytes msg n))"
  proof (cases "n = 0")
    case True
    then have "(n + P - 1) div P = 0" using assms(2) by simp
    then have "?k = 0" using num_sgmnts_eq [OF assms(2,3)] by (simp add: unat_eq_0)
    then show ?thesis using True segments_count [OF assms(2), of 0 "msg_bytes msg n"] by (simp add: msg_bytes_def)
  next
    case False
    then have "P \<le> n + P - 1" by simp
    then have "(n + P - 1) div P \<noteq> 0" using assms(2) by (simp add: div_eq_0_iff)
    then have "?k \<noteq> 0" using num_sgmnts_eq [OF assms(2,3)] by (metis unat_0)
    moreover have "msg_bytes msg n \<noteq> []" using False by (simp add: msg_bytes_def)
    ultimately show ?thesis
      using num_sgmnts_eq [OF assms(2,3)] segments_count [OF assms(2), of 0 "msg_bytes msg n"] by simp
  qed
  show ?thesis
    using untagged_loop_list [OF assms(1,2) le0 assms(3), of msg] p0
    unfolding ddp_send_untagged_def Let_def p k untagged_hdr_def by simp
qed

lemma ddp_send_tagged_list:
  assumes "P = unat (tagged_payld_len w)" "0 < P" "0 < n" "n + P < 2 ^ 32"
  shows "ddp_send_tagged msg (of_nat n) c stag to s w
    = mpa_send_list (map (tagged_frame (tagged_hdr c stag) to) (segments P 0 (msg_bytes msg n))) s w"
proof -
  have p: "(ucast (tagged_payld_len w) :: u32) = of_nat P" by (simp only: ucast_u16 assms(1))
  have p0: "(of_nat P :: u32) \<noteq> 0"
    using assms(2,4) of_nat_eq_u32 [of P 0] by simp
  have ne: "msg_bytes msg n \<noteq> []" using assms(3) by (simp add: msg_bytes_def)
  have k: "unat ((of_nat n + of_nat P - 1 :: u32) div of_nat P) = length (segments P 0 (msg_bytes msg n))"
    using num_sgmnts_eq [OF assms(2,4)] segments_count [OF assms(2), of 0 "msg_bytes msg n"] ne by simp
  show ?thesis
    using tagged_loop_list [OF assms(1,2) le0 assms(4), of msg] p0
    unfolding ddp_send_tagged_def Let_def p k tagged_hdr_def by simp
qed

text \<open>Without markers and without errors all the frames go out.\<close>

lemma set_conn_same [simp]: "set_conn s (conns w s) w = w"
  by (simp add: set_conn_def)

lemma mpa_send_list_plain:
  assumes "conn_ok (conns w (sk_fd s))" "use_mrkr (mpask s) = 0"
    and "\<forall>(hdr, payld)\<in>set fs. 2 \<le> length hdr \<and> length payld + length hdr < 65536"
  shows "\<exists>c sp. mpa_send_list fs s w = Done (0, s\<lparr>mpask := (mpask s)\<lparr>send_sp := sp\<rparr>\<rparr>, set_conn (sk_fd s) c w)
    \<and> conn_ok c \<and> rx c = rx (conns w (sk_fd s))
    \<and> tx c = tx (conns w (sk_fd s)) @ concat (map (\<lambda>(hdr, payld). plain_fpdu (use_crc (mpask s) \<noteq> 0) hdr payld) fs)"
  using assms
proof (induction fs arbitrary: s w)
  case Nil
  then show ?case by (intro exI [of _ "conns w (sk_fd s)"] exI [of _ "send_sp (mpask s)"]) simp
next
  case (Cons f fs)
  obtain hdr payld where f: "f = (hdr, payld)" by (cases f)
  obtain c ret sp where 1: "mpa_send hdr payld s w
      = Done (ret, s\<lparr>mpask := (mpask s)\<lparr>send_sp := sp\<rparr>\<rparr>, set_conn (sk_fd s) c w)" "0 \<le> ret" "conn_ok c"
    "tx c = tx (conns w (sk_fd s)) @ plain_fpdu (use_crc (mpask s) \<noteq> 0) hdr payld" "rx c = rx (conns w (sk_fd s))"
    using mpa_wrt_plain_ok [OF Cons.prems(1), of hdr payld] Cons.prems(2,3) f by (auto simp: mpa_send_def)
  from Cons.IH [of "set_conn (sk_fd s) c w" "s\<lparr>mpask := (mpask s)\<lparr>send_sp := sp\<rparr>\<rparr>"] 1 Cons.prems f
  show ?case by simp
qed

section \<open>Properties\<close>

text \<open>
  Headers. What the receiver reads from the bytes of a header is the header that was written, and on
  the wire the fields of more than one byte are in network order at the offsets of the protocol.
\<close>

theorem ddp_headers_on_the_wire:
  "tagged_of_bytes (tagged_bytes h) = h \<and> untagged_of_bytes (untagged_bytes u) = u
   \<and> tagged_bytes ((tagged_hdr c stag)\<lparr>th_to := htonq to\<rparr>)
     = [0, 0, 0x81, c] @ rev (le32 stag) @ rev (le64 to)
   \<and> untagged_bytes ((untagged_hdr c p qn msn)\<lparr>uh_mo := htonl mo\<rparr>)
     = [0, 0, 0x01, c] @ rev (le32 p) @ rev (le32 qn) @ rev (le32 msn) @ rev (le32 mo)
   \<and> ntohq (htonq to) = to"
  by (intro conjI tagged_of_tagged_bytes untagged_of_untagged_bytes swab64_swab64)
     (simp_all add: tagged_bytes_def untagged_bytes_def tagged_hdr_def untagged_hdr_def le64_swab64 le32_htonl
       le16_def ddp_cf_defs del: rev_append)

text \<open>
  C14. Untagged messages. The message goes to MPA as a sequence of segments, until one fails: each of at
  most the payload length, each with the bytes of the message at its offset, the last one and only that
  flagged as last, and together the whole message; an empty message is one empty segment. Only after
  all have gone the message number counts on.
\<close>

theorem ddp_send_untagged_segments:
  assumes "P = unat (untagged_payld_len w)" "0 < P" "unat len + P < 2 ^ 32"
  shows "\<exists>segs. ddp_send_untagged msg len qn c p s w
      = bindO (mpa_send_list (map (untagged_frame (untagged_hdr c p qn (send_msn (ddpsk s)))) segs) s w)
          (\<lambda>(ret, s, w). if ret < 0 then Done (ret, s, w)
             else Done (0, s\<lparr>ddpsk := (ddpsk s)\<lparr>send_msn := send_msn (ddpsk s) + 1\<rparr>\<rparr>, w))
    \<and> segs \<noteq> [] \<and> concat (map (\<lambda>(k, pl, fin). pl) segs) = msg_bytes msg (unat len)
    \<and> (\<forall>(k, pl, fin)\<in>set segs. length pl \<le> P \<and> pl = take (length pl) (drop k (msg_bytes msg (unat len)))
         \<and> (fin \<longleftrightarrow> k + length pl = unat len))"
  using ddp_send_untagged_list [OF assms, of msg qn c p s]
  by (intro exI [of _ "segments P 0 (msg_bytes msg (unat len))"])
     (auto simp: segments_concat assms(2) dest: segments_max [OF assms(2)] segments_at)

text \<open>
  C15. Tagged messages. A message of at least one byte goes to MPA as a sequence of segments, until one
  fails: each of at most the payload length, each with the bytes of the message at its offset and the
  tagged offset of the message plus that one, only the last one flagged so, and together the whole message.
\<close>

theorem ddp_send_tagged_segments:
  assumes "P = unat (tagged_payld_len w)" "0 < P" "len \<noteq> 0" "unat len + P < 2 ^ 32"
  shows "\<exists>segs. ddp_send_tagged msg len c stag to s w
      = mpa_send_list (map (tagged_frame (tagged_hdr c stag) to) segs) s w
    \<and> segs \<noteq> [] \<and> concat (map (\<lambda>(k, pl, fin). pl) segs) = msg_bytes msg (unat len)
    \<and> (\<forall>(k, pl, fin)\<in>set segs. length pl \<le> P \<and> pl = take (length pl) (drop k (msg_bytes msg (unat len)))
         \<and> (fin \<longleftrightarrow> k + length pl = unat len))"
proof -
  have "0 < unat len" using assms(3) by (simp add: unat_gt_0)
  from ddp_send_tagged_list [OF assms(1,2) this assms(4), of msg c stag to s] show ?thesis
    by (intro exI [of _ "segments P 0 (msg_bytes msg (unat len))"])
       (auto simp: segments_concat assms(2) dest: segments_max [OF assms(2)] segments_at)
qed

text \<open>A tagged message of no bytes sends no segment at all; a payload length of zero is a division by it.\<close>

lemma ddp_send_tagged_empty:
  "tagged_payld_len w \<noteq> 0 \<Longrightarrow> ddp_send_tagged msg 0 c stag to s w = Done (0, s, w)"
proof -
  define P where "P = unat (tagged_payld_len w)"
  assume "tagged_payld_len w \<noteq> 0"
  then have P: "0 < P" "P < 65536" using unat_u16_lt by (simp_all add: P_def unat_gt_0)
  have p: "(ucast (tagged_payld_len w) :: u32) = of_nat P" by (simp only: ucast_u16 P_def)
  have "(of_nat P :: u32) \<noteq> 0" using P of_nat_eq_u32 [of P 0] by simp
  moreover have "unat ((of_nat 0 + of_nat P - 1 :: u32) div of_nat P) = 0"
    using num_sgmnts_eq [of P 0] P by simp
  ultimately show ?thesis unfolding ddp_send_tagged_def Let_def p by simp
qed

lemma ddp_send_zero_length: "untagged_payld_len w = 0 \<Longrightarrow> ddp_send_untagged msg len qn c p s w = Exit"
  by (simp add: ddp_send_untagged_def)

section \<open>Witnesses\<close>

theorem ddp_send_untagged_segments_witness:
  "\<exists>segs. ddp_send_untagged (\<lambda>i. ucast i) 5 0 0x43 0 (iwsk_zero 1) ((world_start (\<lambda>_. conn_start []))\<lparr>untagged_payld_len := 2\<rparr>)
      = bindO (mpa_send_list (map (untagged_frame (untagged_hdr 0x43 0 0 0)) segs) (iwsk_zero 1)
                ((world_start (\<lambda>_. conn_start []))\<lparr>untagged_payld_len := 2\<rparr>))
          (\<lambda>(ret, s, w). if ret < 0 then Done (ret, s, w)
             else Done (0, s\<lparr>ddpsk := (ddpsk s)\<lparr>send_msn := send_msn (ddpsk s) + 1\<rparr>\<rparr>, w))
    \<and> segs \<noteq> [] \<and> concat (map (\<lambda>(k, pl, fin). pl) segs) = [0, 1, 2, 3, 4]"
proof -
  have "send_msn (ddpsk (iwsk_zero 1)) = 0" by (simp add: iwsk_zero_def)
  moreover have "msg_bytes (\<lambda>i. ucast i) 5 = [0, 1, 2, 3, 4]"
    by (simp add: msg_bytes_def upt_conv_Cons)
  ultimately show ?thesis
    using ddp_send_untagged_segments [of 2 "(world_start (\<lambda>_. conn_start []))\<lparr>untagged_payld_len := 2\<rparr>" 5
      "\<lambda>i. ucast i" 0 "0x43" 0 "iwsk_zero 1"] by auto
qed

theorem ddp_send_tagged_segments_witness:
  "\<exists>segs. ddp_send_tagged (\<lambda>i. ucast i) 5 0x40 7 0x1000 (iwsk_zero 1) ((world_start (\<lambda>_. conn_start []))\<lparr>tagged_payld_len := 2\<rparr>)
      = mpa_send_list (map (tagged_frame (tagged_hdr 0x40 7) 0x1000) segs) (iwsk_zero 1)
          ((world_start (\<lambda>_. conn_start []))\<lparr>tagged_payld_len := 2\<rparr>)
    \<and> segs \<noteq> [] \<and> concat (map (\<lambda>(k, pl, fin). pl) segs) = [0, 1, 2, 3, 4]"
proof -
  have "msg_bytes (\<lambda>i. ucast i) 5 = [0, 1, 2, 3, 4]"
    by (simp add: msg_bytes_def upt_conv_Cons)
  then show ?thesis
    using ddp_send_tagged_segments [of 2 "(world_start (\<lambda>_. conn_start []))\<lparr>tagged_payld_len := 2\<rparr>" 5
      "\<lambda>i. ucast i" "0x40" 7 "0x1000" "iwsk_zero 1"] by auto
qed

end
