(* ===== verification/Iw_Rdmap_Recv.thy ===== *)
theory Iw_Rdmap_Recv
  imports Iw_Ddp
begin

text \<open>
  The receiving side of RDMAP (\<open>iwarp/rdmap.c\<close>, \<open>iwarp/rdmap.h\<close>), which DDP calls: where the bytes of a
  segment go, and what happens when a message is complete. Completions are put on the queues of the
  socket; a read request is answered at once.
\<close>

section \<open>Operations and tables\<close>

definition RDMA_WRITE :: u8 where "RDMA_WRITE = 0"
definition RDMA_READ_REQ :: u8 where "RDMA_READ_REQ = 1"
definition RDMA_READ_RESP :: u8 where "RDMA_READ_RESP = 2"
definition SEND :: u8 where "SEND = 3"

definition OP_RDMA_WRITE :: int where "OP_RDMA_WRITE = 0"
definition OP_RDMA_READ :: int where "OP_RDMA_READ = 1"
definition OP_SEND :: int where "OP_SEND = 2"
definition OP_RECV :: int where "OP_RECV = 3"
definition OP_ERR :: int where "OP_ERR = 4"

definition SEND_Q :: u32 where "SEND_Q = 0"
definition RDMAREQ_Q :: u32 where "RDMAREQ_Q = 1"
definition TERM_Q :: u32 where "TERM_Q = 2"

lemmas rdmap_consts = RDMA_WRITE_def RDMA_READ_REQ_def RDMA_READ_RESP_def SEND_def OP_RDMA_WRITE_def
  OP_RDMA_READ_def OP_SEND_def OP_RECV_def OP_ERR_def SEND_Q_def RDMAREQ_Q_def TERM_Q_def

definition rdmap_get_RV :: "u8 \<Rightarrow> u8" where "rdmap_get_RV c = drop_bit 6 (c AND 0xc0)"
definition rdmap_get_RSVD :: "u8 \<Rightarrow> u8" where "rdmap_get_RSVD c = drop_bit 4 (c AND 0x30)"
definition rdmap_get_OPCODE :: "u8 \<Rightarrow> u8" where "rdmap_get_OPCODE c = c AND 0xf"
definition rdmap_set_RV :: "u8 \<Rightarrow> u8" where "rdmap_set_RV c = c OR 0x40"
definition rdmap_set_RSVD :: "u8 \<Rightarrow> u8" where "rdmap_set_RSVD c = c AND 0xcf"
definition rdmap_set_OPCODE :: "u8 \<Rightarrow> u8 \<Rightarrow> u8" where "rdmap_set_OPCODE c op = (c AND 0xf0) OR (op AND 0x0f)"

lemmas rdmap_cf_defs = rdmap_get_RV_def rdmap_get_RSVD_def rdmap_get_OPCODE_def rdmap_set_RV_def
  rdmap_set_RSVD_def rdmap_set_OPCODE_def

text \<open>The tables that \<open>rdmap_init\<close> fills, in the order of the operation codes.\<close>

definition rdmap_acc :: "u32 list" where
  "rdmap_acc = [STAG_W, STAG_R, STAG_W, STAG_RW, STAG_RW, STAG_RW, STAG_RW, STAG_R]"

definition rdmap_sink_op :: "int list" where
  "rdmap_sink_op = [OP_ERR, OP_ERR, OP_RDMA_READ, OP_RECV, OP_RECV, OP_RECV, OP_RECV, OP_ERR]"

definition rdmap_src_op :: "int list" where
  "rdmap_src_op = [OP_RDMA_WRITE, OP_ERR, OP_ERR, OP_SEND, OP_SEND, OP_SEND, OP_SEND, OP_ERR]"

text \<open>The tables have eight entries, and the code may be up to 15: reading past the end is undefined.\<close>

definition table_at :: "'a list \<Rightarrow> u8 \<Rightarrow> 'a outcome" where
  "table_at t c = (if unat (rdmap_get_OPCODE c) < length t then Done (t ! unat (rdmap_get_OPCODE c)) else Exit)"

definition rdmap_get_acc :: "u8 \<Rightarrow> u32 outcome" where
  "rdmap_get_acc cf = table_at rdmap_acc cf"

section \<open>Sinks\<close>

definition rdmap_get_tag_sink :: "stag \<Rightarrow> u64 \<Rightarrow> u64 \<Rightarrow> u8 \<Rightarrow> world \<Rightarrow> u64 outcome" where
  "rdmap_get_tag_sink stag to len cf w =
     bindO (table_at rdmap_acc cf) (\<lambda>acc. Done (mem_stag_location True stag to len acc (mm w)))"

text \<open>
  The sink of an untagged segment: a buffer of the user, or the buffer inside an entry that was just
  appended to the queue of read requests or of terminate messages. The length goes with it.
\<close>

datatype sink = User u64 | ReqEntry | TermEntry

text \<open>\<open>while (diff > 0)\<close>: the position it stops at; \<open>h->next\<close> is position 0.\<close>

fun sink_walk :: "nat \<Rightarrow> 'a list \<Rightarrow> nat \<Rightarrow> nat option" where
  "sink_walk 0 q l = Some l"
| "sink_walk (Suc diff) q l = (if q = [] then None else sink_walk diff q 0)"

definition rdmap_get_untag_sink :: "u32 \<Rightarrow> u32 \<Rightarrow> iwsk \<Rightarrow> (sink \<times> u64) option \<times> iwsk" where
  "rdmap_get_untag_sink qn msn s =
     (let r = rdmapsk s in
      if qn = SEND_Q then
        if send_q r = [] then (None, s)
        else case sink_walk (unat (sink_msn r - msn)) (send_q r) 0 of
               None \<Rightarrow> (None, s)
             | Some l \<Rightarrow> let d = send_q r ! l in (Some (User (uw_buf d), uw_len d), s)
      else if qn = RDMAREQ_Q then
        (Some (ReqEntry, 32), s\<lparr>rdmapsk := r\<lparr>rdmareq_q := rdmareq_q r @ [replicate 32 0]\<rparr>\<rparr>)
      else if qn = TERM_Q then
        (Some (TermEntry, 52), s\<lparr>rdmapsk := r\<lparr>term_q := term_q r @ [replicate 52 0]\<rparr>\<rparr>)
      else (None, s))"

section \<open>Completion\<close>

definition cq_post :: "nat \<Rightarrow> cqe \<Rightarrow> world \<Rightarrow> world" where
  "cq_post q e w = set_cq q (snd (cq_produce e (cqs w q))) w"

text \<open>The header of a read request, in the 32 bytes of its structure.\<close>

record rd_req_hdr =
  rr_sink_stag :: u32
  rr_sink_to :: u64
  rr_rd_sz :: u32
  rr_src_stag :: u32
  rr_src_to :: u64

definition rd_req_bytes :: "rd_req_hdr \<Rightarrow> u8 list" where
  "rd_req_bytes h = le32 (rr_sink_stag h) @ [0, 0, 0, 0] @ le64 (rr_sink_to h) @ le32 (rr_rd_sz h)
     @ le32 (rr_src_stag h) @ le64 (rr_src_to h)"

definition rd_req_of_bytes :: "u8 list \<Rightarrow> rd_req_hdr" where
  "rd_req_of_bytes bs = \<lparr>rr_sink_stag = of_le (take 4 bs), rr_sink_to = of_le (take 8 (drop 8 bs)),
     rr_rd_sz = of_le (take 4 (drop 16 bs)), rr_src_stag = of_le (take 4 (drop 20 bs)),
     rr_src_to = of_le (take 8 (drop 24 bs))\<rparr>"

text \<open>
  \<open>rdmap_untag_recv\<close>. The queue is not empty when it is called (an assertion that is not compiled in),
  and is one of the three.
\<close>

definition rdmap_untag_recv :: "u8 \<Rightarrow> u32 \<Rightarrow> u32 \<Rightarrow> iwsk \<Rightarrow> world \<Rightarrow> (iwsk \<times> world) outcome" where
  "rdmap_untag_recv cf qn len s w =
     (let r = rdmapsk s in
      if qn = SEND_Q then
        case send_q r of
          [] \<Rightarrow> Exit
        | d # ds \<Rightarrow>
            bindO (case rcq s of
                     None \<Rightarrow> Done w
                   | Some q \<Rightarrow> bindO (table_at rdmap_sink_op cf) (\<lambda>op.
                       Done (cq_post q \<lparr>cqe_op = op, cqe_status = 0, cqe_id = uw_id d, cqe_msg_len = len\<rparr> w)))
              (\<lambda>w. Done (s\<lparr>rdmapsk := r\<lparr>send_q := ds, sink_msn := sink_msn r + 1\<rparr>\<rparr>, w))
      else if qn = RDMAREQ_Q then
        case rdmareq_q r of
          [] \<Rightarrow> Exit
        | d # ds \<Rightarrow>
            let h = rd_req_of_bytes d; s = s\<lparr>rdmapsk := r\<lparr>rdmareq_q := ds\<rparr>\<rparr>
            in bindO (table_at rdmap_acc cf) (\<lambda>acc.
                 let b = mem_stag_location True (rr_src_stag h) (rr_src_to h) (ucast (rr_rd_sz h)) acc (mm w)
                 in if b = 0 then Exit
                    else let new_cf = rdmap_set_OPCODE (rdmap_set_RSVD (rdmap_set_RV 0)) RDMA_READ_RESP
                         in bindO (ddp_send_tagged (\<lambda>i. mem w (b + i)) (rr_rd_sz h) new_cf (rr_sink_stag h) (rr_sink_to h) s w)
                              (\<lambda>(_, s, w). Done (s\<lparr>rdmapsk := (rdmapsk s)\<lparr>sink_msn := sink_msn (rdmapsk s) + 1\<rparr>\<rparr>, w)))
      else if qn = TERM_Q then
        case term_q r of
          [] \<Rightarrow> Exit
        | _ # ds \<Rightarrow> Done (s\<lparr>rdmapsk := r\<lparr>term_q := ds, sink_msn := sink_msn r + 1\<rparr>\<rparr>, w)
      else Exit)"

fun mark_complete :: "stag \<Rightarrow> u32 \<Rightarrow> rdmap_tag_wrd list \<Rightarrow> bool \<times> rdmap_tag_wrd list" where
  "mark_complete stag len [] = (False, [])"
| "mark_complete stag len (d # ds) =
     (let (found, ds) = mark_complete stag len ds
      in if tw_stag d = stag then (True, d\<lparr>tw_complete := True, tw_len := len\<rparr> # ds) else (found, d # ds))"

text \<open>The completion goes on the send queue if there is a receive queue.\<close>

fun reap_loop :: "u8 \<Rightarrow> rdmap_tag_wrd list \<Rightarrow> iwsk \<Rightarrow> world \<Rightarrow> (rdmap_tag_wrd list \<times> world) outcome" where
  "reap_loop cf [] s w = Done ([], w)"
| "reap_loop cf (d # ds) s w =
     (if \<not> tw_complete d then Done (d # ds, w)
      else case rcq s of
             None \<Rightarrow> reap_loop cf ds s w
           | Some _ \<Rightarrow>
               bindO (table_at rdmap_sink_op cf) (\<lambda>op.
                 case scq s of
                   None \<Rightarrow> Exit
                 | Some q \<Rightarrow> reap_loop cf ds s
                     (cq_post q \<lparr>cqe_op = op, cqe_status = 0, cqe_id = tw_id d, cqe_msg_len = tw_len d\<rparr> w)))"

definition rdmap_reap_rwr :: "u8 \<Rightarrow> stag \<Rightarrow> u32 \<Rightarrow> iwsk \<Rightarrow> world \<Rightarrow> (iwsk \<times> world) outcome" where
  "rdmap_reap_rwr cf stag len s w =
     (let (found, ds) = mark_complete stag len (rwrq (rdmapsk s))
      in if \<not> found then Exit
         else bindO (reap_loop cf ds s w) (\<lambda>(ds, w). Done (s\<lparr>rdmapsk := (rdmapsk s)\<lparr>rwrq := ds\<rparr>\<rparr>, w)))"

definition rdmap_tag_recv :: "u8 \<Rightarrow> stag \<Rightarrow> u32 \<Rightarrow> iwsk \<Rightarrow> world \<Rightarrow> (iwsk \<times> world) outcome" where
  "rdmap_tag_recv cf stag len s w =
     (if rdmap_get_OPCODE cf = RDMA_WRITE then Done (s, w)
      else if rdmap_get_OPCODE cf = RDMA_READ_RESP then
        if rwrq (rdmapsk s) = [] then Exit else rdmap_reap_rwr cf stag len s w
      else Exit)"

section \<open>Lemmas\<close>

lemma rdmap_get_set_OPCODE: "op AND 0xf = op \<Longrightarrow> rdmap_get_OPCODE (rdmap_set_OPCODE c op) = op"
proof -
  assume op: "op AND 0xf = op"
  have "rdmap_get_OPCODE (rdmap_set_OPCODE c op) = op AND 0xf"
    unfolding rdmap_cf_defs by (rule word8_eqI) (simp add: bit_expand bit_numeral_word_iff)
  with op show ?thesis by simp
qed

lemma rdmap_get_set_RV:
  "rdmap_get_RV (rdmap_set_OPCODE (rdmap_set_RSVD (rdmap_set_RV 0)) op) = 1"
  "rdmap_get_RSVD (rdmap_set_OPCODE (rdmap_set_RSVD (rdmap_set_RV 0)) op) = 0"
  unfolding rdmap_cf_defs by (rule word8_eqI, simp add: bit_expand bit_numeral_word_iff)+

lemma sink_walk_first: "q \<noteq> [] \<Longrightarrow> sink_walk n q 0 = Some 0"
  by (induction n) auto

lemma rd_req_of_rd_req_bytes [simp]: "rd_req_of_bytes (rd_req_bytes h) = h"
  by (cases h) (simp add: rd_req_of_bytes_def rd_req_bytes_def)

lemma length_rd_req_bytes [simp]: "length (rd_req_bytes h) = 32"
  by (simp add: rd_req_bytes_def)

lemma mark_complete_eq:
  "mark_complete stag len ds = (stag \<in> tw_stag ` set ds,
     map (\<lambda>d. if tw_stag d = stag then d\<lparr>tw_complete := True, tw_len := len\<rparr> else d) ds)"
  by (induction ds) (auto simp: Let_def)

text \<open>Completions posted one after the other.\<close>

definition tag_cqe :: "u8 \<Rightarrow> rdmap_tag_wrd \<Rightarrow> cqe" where
  "tag_cqe cf d = \<lparr>cqe_op = rdmap_sink_op ! unat (rdmap_get_OPCODE cf), cqe_status = 0, cqe_id = tw_id d, cqe_msg_len = tw_len d\<rparr>"

lemma reap_loop_eq:
  assumes "unat (rdmap_get_OPCODE cf) < 8" "scq s = Some q"
  shows "reap_loop cf ds s w = Done (dropWhile tw_complete ds,
    if rcq s = None then w else fold (cq_post q) (map (tag_cqe cf) (takeWhile tw_complete ds)) w)"
  using assms
  by (induction ds arbitrary: w) (auto simp: table_at_def rdmap_sink_op_def tag_cqe_def split: option.splits)

lemma cq_post_simps [simp]:
  "mem (cq_post q e w) = mem w" "conns (cq_post q e w) = conns w" "mm (cq_post q e w) = mm w"
  "iwht (cq_post q e w) = iwht w" "last_send_sk (cq_post q e w) = last_send_sk w"
  "last_recv_sk (cq_post q e w) = last_recv_sk w" "rdma_write_count (cq_post q e w) = rdma_write_count w"
  "cqs (cq_post q e w) = (cqs w)(q := snd (cq_produce e (cqs w q)))"
  by (simp_all add: cq_post_def set_cq_def)

lemma cq_post_entries:
  assumes "cq_inv (cqs w q)" "length (cq_entries (cqs w q)) < cq_room (cqs w q)"
  shows "cq_inv (cqs (cq_post q e w) q) \<and> cq_entries (cqs (cq_post q e w) q) = cq_entries (cqs w q) @ [e]
    \<and> cq_room (cqs (cq_post q e w) q) = cq_room (cqs w q)"
proof -
  have "cq_num_occupied (cqs w q) < num_cqe (cqs w q) - 1"
    using assms(2) cq_occupied_bounds [OF assms(1)] by (simp add: cq_room_def)
  with cq_produce_entries [OF assms(1) this, of e "fst (cq_produce e (cqs w q))"] show ?thesis
    by (simp add: cq_room_def)
qed

lemma cq_posts_entries:
  assumes "cq_inv (cqs w q)" "length (cq_entries (cqs w q)) + length es \<le> cq_room (cqs w q)"
  shows "cq_inv (cqs (fold (cq_post q) es w) q)
    \<and> cq_entries (cqs (fold (cq_post q) es w) q) = cq_entries (cqs w q) @ es"
  using assms
proof (induction es arbitrary: w)
  case (Cons e es)
  from cq_post_entries [of w q e] Cons.prems have
    "cq_inv (cqs (cq_post q e w) q)" "cq_entries (cqs (cq_post q e w) q) = cq_entries (cqs w q) @ [e]"
    "cq_room (cqs (cq_post q e w) q) = cq_room (cqs w q)" by (auto simp del: cq_post_simps)
  with Cons.IH [of "cq_post q e w"] Cons.prems show ?case by (simp del: cq_post_simps)
qed simp

section \<open>Properties\<close>

text \<open>
  C16. Reads complete in order. When a read response for a tag that reads wait on has arrived, the reads
  are split into those that are now reported, from the oldest one on as long as they are complete, and
  those that stay, the first of which is not complete; the reports go on the send queue in the
  order in which the reads were issued, with their identifiers, and the reads for that tag count as complete
  with the length of the message.
\<close>

theorem rdmap_reads_complete_in_order:
  assumes "rdmap_get_OPCODE cf = RDMA_READ_RESP" "stag \<in> tw_stag ` set (rwrq (rdmapsk s))"
    and "scq s = Some q" "rcq s = Some r" "cq_inv (cqs w q)"
    and "length (cq_entries (cqs w q)) + length (rwrq (rdmapsk s)) \<le> cq_room (cqs w q)"
  shows "\<exists>reported left w'. rdmap_tag_recv cf stag len s w = Done (s\<lparr>rdmapsk := (rdmapsk s)\<lparr>rwrq := left\<rparr>\<rparr>, w')
    \<and> reported @ left = map (\<lambda>d. if tw_stag d = stag then d\<lparr>tw_complete := True, tw_len := len\<rparr> else d) (rwrq (rdmapsk s))
    \<and> (\<forall>d\<in>set reported. tw_complete d) \<and> (left \<noteq> [] \<longrightarrow> \<not> tw_complete (hd left))
    \<and> cq_entries (cqs w' q) = cq_entries (cqs w q)
        @ map (\<lambda>d. \<lparr>cqe_op = OP_RDMA_READ, cqe_status = 0, cqe_id = tw_id d, cqe_msg_len = tw_len d\<rparr>) reported"
proof -
  let ?ds = "map (\<lambda>d. if tw_stag d = stag then d\<lparr>tw_complete := True, tw_len := len\<rparr> else d) (rwrq (rdmapsk s))"
  let ?es = "map (tag_cqe cf) (takeWhile tw_complete ?ds)"
  have op: "unat (rdmap_get_OPCODE cf) < 8" "rdmap_get_OPCODE cf \<noteq> RDMA_WRITE"
    "tag_cqe cf = (\<lambda>d. \<lparr>cqe_op = OP_RDMA_READ, cqe_status = 0, cqe_id = tw_id d, cqe_msg_len = tw_len d\<rparr>)"
    using assms(1) by (auto simp: rdmap_consts tag_cqe_def rdmap_sink_op_def)
  have "length ?es \<le> length ?ds" using length_takeWhile_le [of tw_complete ?ds] by simp
  then have "cq_entries (cqs (fold (cq_post q) ?es w) q) = cq_entries (cqs w q) @ ?es"
    using cq_posts_entries [OF assms(5), of ?es] assms(6) by simp
  moreover have "rdmap_tag_recv cf stag len s w
    = Done (s\<lparr>rdmapsk := (rdmapsk s)\<lparr>rwrq := dropWhile tw_complete ?ds\<rparr>\<rparr>, fold (cq_post q) ?es w)"
    using assms(1,2,4) op(2) reap_loop_eq [OF op(1) assms(3), of ?ds w]
    by (auto simp: rdmap_tag_recv_def rdmap_reap_rwr_def mark_complete_eq)
  moreover have "dropWhile tw_complete ?ds \<noteq> [] \<longrightarrow> \<not> tw_complete (hd (dropWhile tw_complete ?ds))"
    by (meson hd_dropWhile)
  ultimately show ?thesis
    unfolding op(3)
    by (intro exI [of _ "takeWhile tw_complete ?ds"] exI [of _ "dropWhile tw_complete ?ds"] exI conjI)
       (assumption | rule takeWhile_dropWhile_id | blast dest: set_takeWhileD)+
qed

text \<open>
  C17. A send completes the first posted buffer. When the last segment of a send has arrived, the oldest
  receive buffer leaves the queue, and if there is a completion queue with room the completion of that
  buffer, with the length of the message, is its newest entry; the other connections' state is
  not changed.
\<close>

theorem rdmap_recv_completes_first:
  assumes "rdmap_get_OPCODE cf = SEND" "send_q (rdmapsk s) = d # ds" "rcq s = Some q"
    and "cq_inv (cqs w q)" "length (cq_entries (cqs w q)) < cq_room (cqs w q)"
  shows "\<exists>w'. rdmap_untag_recv cf SEND_Q len s w
      = Done (s\<lparr>rdmapsk := (rdmapsk s)\<lparr>send_q := ds, sink_msn := sink_msn (rdmapsk s) + 1\<rparr>\<rparr>, w')
    \<and> cq_entries (cqs w' q) = cq_entries (cqs w q)
        @ [\<lparr>cqe_op = OP_RECV, cqe_status = 0, cqe_id = uw_id d, cqe_msg_len = len\<rparr>]
    \<and> cq_inv (cqs w' q) \<and> (\<forall>k. k \<noteq> q \<longrightarrow> cqs w' k = cqs w k)
    \<and> mem w' = mem w \<and> conns w' = conns w \<and> iwht w' = iwht w"
  using assms cq_post_entries [OF assms(4,5)]
  by (auto simp: rdmap_untag_recv_def table_at_def rdmap_consts rdmap_sink_op_def Let_def)

lemma unat_ucast_u64: "unat (ucast (x :: u32) :: u64) = unat x"
  by (simp add: unsigned_ucast_eq take_bit_nat_eq_self order_less_trans [OF unsigned_less [of x, where ?'a = nat]])

text \<open>
  C18. Read requests are answered within bounds. An incoming read request of \<open>h\<close> is answered exactly when its
  source tag is live, grants the rights that the operation code in its segment asks for (the peer's choice: the
  right to read for a read request, the right to write for a write), and its range holds all the bytes asked
  for; else the process ends. The answer is a tagged read response to the sink tag and offset of the request,
  in segments of at most the payload length, and their bytes are those of the memory of the source range, all
  of them and in order. (The ranges of the tags are taken to end in the lower half of the address space.)
\<close>

theorem rdmap_read_request_within_bounds:
  assumes "mem_inv (mm w)" and "\<forall>sd\<in>mem_live (mm w). unat (sd_end sd) \<le> 2 ^ 63"
    and "rdmareq_q (rdmapsk s) = rd_req_bytes h # ds"
    and "P = unat (tagged_payld_len w)" "0 < P" "unat (rr_rd_sz h) + P < 2 ^ 32"
    and "need = rdmap_acc ! unat (rdmap_get_OPCODE cf)"
    and "ok \<longleftrightarrow> unat (rdmap_get_OPCODE cf) < 8 \<and> rr_src_to h \<noteq> 0 \<and> (\<exists>sd\<in>mem_live (mm w). sd_stag sd = rr_src_stag h
      \<and> (need AND STAG_R \<noteq> 0 \<longrightarrow> sd_rw sd AND STAG_R \<noteq> 0) \<and> (need AND STAG_W \<noteq> 0 \<longrightarrow> sd_rw sd AND STAG_W \<noteq> 0)
      \<and> unat (sd_start sd) \<le> unat (rr_src_to h) \<and> unat (rr_src_to h) < unat (sd_end sd)
      \<and> unat (rr_src_to h) + unat (rr_rd_sz h) \<le> unat (sd_end sd))"
  shows "(\<not> ok \<longrightarrow> rdmap_untag_recv cf RDMAREQ_Q len s w = Exit)
    \<and> (ok \<longrightarrow> (\<exists>segs. rdmap_untag_recv cf RDMAREQ_Q len s w
        = bindO (mpa_send_list (map (tagged_frame (tagged_hdr (rdmap_set_OPCODE (rdmap_set_RSVD (rdmap_set_RV 0)) RDMA_READ_RESP)
              (rr_sink_stag h)) (rr_sink_to h)) segs) (s\<lparr>rdmapsk := (rdmapsk s)\<lparr>rdmareq_q := ds\<rparr>\<rparr>) w)
            (\<lambda>(_, s, w). Done (s\<lparr>rdmapsk := (rdmapsk s)\<lparr>sink_msn := sink_msn (rdmapsk s) + 1\<rparr>\<rparr>, w))
      \<and> concat (map (\<lambda>(k, pl, fin). pl) segs) = read_bytes (mem w) (rr_src_to h) (unat (rr_rd_sz h))
      \<and> (\<forall>(k, pl, fin)\<in>set segs. length pl \<le> P \<and> pl = read_bytes (mem w) (rr_src_to h + of_nat k) (length pl)
           \<and> (fin \<longleftrightarrow> k + length pl = unat (rr_rd_sz h)))))"
proof -
  let ?sz = "rr_rd_sz h" and ?to = "rr_src_to h"
  let ?loc = "mem_stag_location True (rr_src_stag h) ?to (ucast ?sz) need (mm w)"
  let ?cf = "rdmap_set_OPCODE (rdmap_set_RSVD (rdmap_set_RV 0)) RDMA_READ_RESP"
  let ?s = "s\<lparr>rdmapsk := (rdmapsk s)\<lparr>rdmareq_q := ds\<rparr>\<rparr>"
  have loc: "?loc = (if \<exists>sd\<in>mem_live (mm w). stag_grants (rr_src_stag h) ?to (ucast ?sz) need sd then ?to else 0)"
  proof (cases "unat ?to < 2 ^ 63")
    case True
    then have "unat ?to + unat (ucast ?sz :: u64) < 2 ^ 64"
      using unsigned_less [of ?sz, where ?'a = nat] by (simp add: unat_ucast_u64)
    from mem_stag_location_iff [OF _ this] assms(1) show ?thesis by (simp add: mem_inv_def)
  next
    case False
    then have no: "\<not> (sd \<in> mem_live (mm w) \<and> unat ?to < unat (sd_end sd))" for sd using assms(2) by fastforce
    have "avl_compare (stag_avl (mm w)) = mem_avl_stag_comp" using assms(1) by (simp add: mem_inv_def tags_ok_def)
    with mem_stag_location_sound [of True "rr_src_stag h" ?to "ucast ?sz" need "mm w"] no
    have "?loc = 0" by (metis word_less_nat_alt)
    moreover have "\<not> (\<exists>sd\<in>mem_live (mm w). stag_grants (rr_src_stag h) ?to (ucast ?sz) need sd)"
      using no by (auto simp: stag_grants_def)
    ultimately show ?thesis by (simp only: if_False)
  qed
  have u: "unat (ucast ?sz :: u64) = unat ?sz" by (rule unat_ucast_u64)
  have eq: "?loc \<noteq> 0 \<Longrightarrow> ?loc = ?to" unfolding loc by (simp split: if_splits)
  have "?loc \<noteq> 0 \<longleftrightarrow> ?to \<noteq> 0 \<and> (\<exists>sd\<in>mem_live (mm w). stag_grants (rr_src_stag h) ?to (ucast ?sz) need sd)"
    unfolding loc by (simp split: if_splits)
  then have ok: "ok \<longleftrightarrow> unat (rdmap_get_OPCODE cf) < 8 \<and> ?loc \<noteq> 0" unfolding assms(8) stag_grants_def u by simp
  have len8: "length rdmap_acc = 8" by (simp add: rdmap_acc_def)
  have run: "rdmap_untag_recv cf RDMAREQ_Q len s w
    = (if ok then bindO (ddp_send_tagged (\<lambda>i. mem w (?to + i)) ?sz ?cf (rr_sink_stag h) (rr_sink_to h) ?s w)
           (\<lambda>(_, s, w). Done (s\<lparr>rdmapsk := (rdmapsk s)\<lparr>sink_msn := sink_msn (rdmapsk s) + 1\<rparr>\<rparr>, w))
       else Exit)"
    using ok eq unfolding rdmap_untag_recv_def table_at_def len8 Let_def assms(3)
    by (cases "unat (rdmap_get_OPCODE cf) < 8"; cases "?loc = 0") (simp_all add: rdmap_consts flip: assms(7))
  show ?thesis
  proof (cases "?sz = 0")
    case True
    have "tagged_payld_len w \<noteq> 0" using assms(4,5) by auto
    with True show ?thesis unfolding run by (auto simp: ddp_send_tagged_empty intro!: exI [of _ "[]"])
  next
    case False
    then have "0 < unat ?sz" by (simp add: unat_gt_0)
    note sent = ddp_send_tagged_list [OF assms(4,5) this assms(6), of "\<lambda>i. mem w (?to + i)" ?cf "rr_sink_stag h" "rr_sink_to h" ?s]
    have bytes: "msg_bytes (\<lambda>i. mem w (?to + i)) n = read_bytes (mem w) ?to n" for n
      by (rule nth_equalityI) (simp_all add: msg_bytes_def)
    have part: "pl = read_bytes (mem w) (?to + of_nat k) (length pl) \<and> length pl \<le> P \<and> (fin \<longleftrightarrow> k + length pl = unat ?sz)"
      if "(k, pl, fin) \<in> set (segments P 0 (read_bytes (mem w) ?to (unat ?sz)))" for k pl fin
    proof -
      have p: "pl = take (length pl) (drop k (read_bytes (mem w) ?to (unat ?sz)))" "k + length pl \<le> unat ?sz"
        "fin \<longleftrightarrow> k + length pl = unat ?sz" "length pl \<le> P"
        using segments_at [OF that] segments_max [OF assms(5) that] by auto
      have "take (length pl) (drop k (read_bytes (mem w) ?to (unat ?sz))) = read_bytes (mem w) (?to + of_nat k) (length pl)"
        using p(2) by (intro nth_equalityI) (simp_all add: ac_simps)
      with p show ?thesis by simp
    qed
    show ?thesis
      unfolding run using sent part segments_concat [of P 0 "read_bytes (mem w) ?to (unat ?sz)"]
      by (auto simp: bytes intro!: exI [of _ "segments P 0 (read_bytes (mem w) ?to (unat ?sz))"])
  qed
qed

section \<open>Witnesses\<close>

text \<open>A process whose queue 0 has three slots.\<close>

definition world_cq :: world where
  "world_cq = set_cq 0 cq_example (world_start (\<lambda>_. conn_start []))"

lemma world_cq_room:
  "cq_inv (cqs world_cq 0)" "cq_entries (cqs world_cq 0) = []" "cq_room (cqs world_cq 0) = 2"
  by (simp_all add: world_cq_def set_cq_def cq_example_def cq_create_def cq_inv_def cq_entries_def
    cq_num_occupied_def cq_room_def)

text \<open>Two reads, of which the second one has completed already; then the first one does.\<close>

definition sk_reads :: iwsk where
  "sk_reads = (iwsk_zero 1)\<lparr>scq := Some 0, rcq := Some 0, rdmapsk := (rdmapsk (iwsk_zero 1))\<lparr>rwrq :=
     [\<lparr>tw_id = 10, tw_stag = 7, tw_complete = False, tw_len = 0\<rparr>,
      \<lparr>tw_id = 11, tw_stag = 8, tw_complete = True, tw_len = 40\<rparr>]\<rparr>\<rparr>"

theorem rdmap_reads_complete_in_order_witness:
  "\<exists>reported left w'. rdmap_tag_recv 0x42 7 30 sk_reads world_cq
      = Done (sk_reads\<lparr>rdmapsk := (rdmapsk sk_reads)\<lparr>rwrq := left\<rparr>\<rparr>, w')
    \<and> reported @ left = [\<lparr>tw_id = 10, tw_stag = 7, tw_complete = True, tw_len = 30\<rparr>,
        \<lparr>tw_id = 11, tw_stag = 8, tw_complete = True, tw_len = 40\<rparr>]
    \<and> cq_entries (cqs w' 0)
        = map (\<lambda>d. \<lparr>cqe_op = OP_RDMA_READ, cqe_status = 0, cqe_id = tw_id d, cqe_msg_len = tw_len d\<rparr>) reported"
proof -
  have "rdmap_get_OPCODE 0x42 = RDMA_READ_RESP" by (simp add: rdmap_cf_defs rdmap_consts)
  then show ?thesis
    using rdmap_reads_complete_in_order [of "0x42" 7 sk_reads 0 0 world_cq 30] world_cq_room
    by (simp add: sk_reads_def) blast
qed

definition sk_recv :: iwsk where
  "sk_recv = (iwsk_zero 1)\<lparr>rcq := Some 0, rdmapsk := (rdmapsk (iwsk_zero 1))\<lparr>send_q :=
     [\<lparr>uw_id = 10, uw_buf = 0x100, uw_len = 64\<rparr>]\<rparr>\<rparr>"

theorem rdmap_recv_completes_first_witness:
  "\<exists>s' w'. rdmap_untag_recv 0x43 SEND_Q 5 sk_recv world_cq = Done (s', w')
    \<and> cq_entries (cqs w' 0) = [\<lparr>cqe_op = OP_RECV, cqe_status = 0, cqe_id = 10, cqe_msg_len = 5\<rparr>]"
proof -
  have "rdmap_get_OPCODE 0x43 = SEND" by (simp add: rdmap_cf_defs rdmap_consts)
  moreover have "send_q (rdmapsk sk_recv) = [\<lparr>uw_id = 10, uw_buf = 0x100, uw_len = 64\<rparr>]" "rcq sk_recv = Some 0"
    by (simp_all add: sk_recv_def)
  ultimately show ?thesis
    using rdmap_recv_completes_first [of "0x43" sk_recv _ "[]" 0 world_cq 5] world_cq_room by auto
qed

text \<open>A request for eight bytes of tag 1, which covers the page at 0x1000.\<close>

definition world_mem :: world where
  "world_mem = world_cq\<lparr>mm := mem_example, tagged_payld_len := 1428, untagged_payld_len := 1424\<rparr>"

definition sk_rdreq :: iwsk where
  "sk_rdreq = (iwsk_zero 1)\<lparr>rdmapsk := (rdmapsk (iwsk_zero 1))\<lparr>rdmareq_q :=
     [rd_req_bytes \<lparr>rr_sink_stag = 5, rr_sink_to = 0x3000, rr_rd_sz = 8, rr_src_stag = 1, rr_src_to = 0x1800\<rparr>]\<rparr>\<rparr>"

lemma world_mem_simps [simp]:
  "mm world_mem = mem_example" "unat (tagged_payld_len world_mem) = 1428" "unat (untagged_payld_len world_mem) = 1424"
  "conns world_mem = (\<lambda>_. conn_start [])" "cqs world_mem = cqs world_cq" "mem world_mem = (\<lambda>_. 0)"
  by (simp_all add: world_mem_def world_cq_def set_cq_def)

lemma sk_rdreq_answered: "\<exists>s' w'. rdmap_untag_recv 0x41 RDMAREQ_Q 32 sk_rdreq world_mem = Done (s', w')"
proof -
  have loc: "mem_stag_location True 1 0x1800 8 STAG_R mem_example = 0x1800"
    by (simp add: mem_stag_location_def mem_example_def avl_find_def mem_avl_stag_comp_def sdtest_def)
  let ?s = "sk_rdreq\<lparr>rdmapsk := (rdmapsk sk_rdreq)\<lparr>rdmareq_q := []\<rparr>\<rparr>"
  have s: "sk_fd ?s = 1" "use_mrkr (mpask ?s) = 0" by (simp_all add: sk_rdreq_def iwsk_zero_def)
  have "\<exists>s' w'. mpa_send_list (map (tagged_frame h to) (segments 1428 0 (msg_bytes (\<lambda>_. 0) 8))) ?s world_mem
      = Done (0, s', w')" for h to
  proof -
    have f: "\<forall>(hdr, payld)\<in>set (map (tagged_frame h to) (segments 1428 0 (msg_bytes (\<lambda>_. 0) 8))).
        2 \<le> length hdr \<and> length payld + length hdr < 65536"
      by (fastforce simp: segments.simps tagged_frame_def)
    have "conn_ok (conns world_mem (sk_fd ?s))" by simp
    from mpa_send_list_plain [OF this s(2) f] show ?thesis by blast
  qed
  then have "\<exists>s' w'. ddp_send_tagged (\<lambda>_. 0) 8 c st to ?s world_mem = Done (0, s', w')" for c st to
    using ddp_send_tagged_list [of 1428 world_mem 8] by simp
  then show ?thesis
    by (auto simp: rdmap_untag_recv_def rdmap_consts table_at_def rdmap_acc_def rdmap_get_OPCODE_def loc
      sk_rdreq_def iwsk_zero_def Let_def) (metis bindO.simps(1) prod.case)
qed

theorem rdmap_read_request_within_bounds_witness:
  "\<exists>segs s' w'. rdmap_untag_recv 0x41 RDMAREQ_Q 32 sk_rdreq world_mem = Done (s', w')
    \<and> rdmap_untag_recv 0x41 RDMAREQ_Q 32 sk_rdreq world_mem
      = bindO (mpa_send_list (map (tagged_frame (tagged_hdr (rdmap_set_OPCODE (rdmap_set_RSVD (rdmap_set_RV 0)) RDMA_READ_RESP) 5)
            0x3000) segs) (sk_rdreq\<lparr>rdmapsk := (rdmapsk sk_rdreq)\<lparr>rdmareq_q := []\<rparr>\<rparr>) world_mem)
          (\<lambda>(_, s, w). Done (s\<lparr>rdmapsk := (rdmapsk s)\<lparr>sink_msn := sink_msn (rdmapsk s) + 1\<rparr>\<rparr>, w))
    \<and> concat (map (\<lambda>(k, pl, fin). pl) segs) = read_bytes (mem world_mem) 0x1800 8"
proof -
  define h where "h = \<lparr>rr_sink_stag = 5, rr_sink_to = 0x3000, rr_rd_sz = 8, rr_src_stag = 1, rr_src_to = 0x1800\<rparr>"
  have h: "rr_sink_stag h = 5" "rr_sink_to h = 0x3000" "rr_rd_sz h = 8" "rr_src_stag h = 1" "rr_src_to h = 0x1800"
    by (simp_all add: h_def)
  have q: "rdmareq_q (rdmapsk sk_rdreq) = rd_req_bytes h # []" by (simp add: sk_rdreq_def h_def)
  have need: "STAG_R = rdmap_acc ! unat (rdmap_get_OPCODE 0x41)" "unat (rdmap_get_OPCODE 0x41) < 8"
    by (simp_all add: rdmap_acc_def rdmap_cf_defs)
  have ok: "True \<longleftrightarrow> unat (rdmap_get_OPCODE 0x41) < 8 \<and> rr_src_to h \<noteq> 0
      \<and> (\<exists>sd\<in>mem_live (mm world_mem). sd_stag sd = rr_src_stag h
      \<and> (STAG_R AND STAG_R \<noteq> 0 \<longrightarrow> sd_rw sd AND STAG_R \<noteq> 0) \<and> (STAG_R AND STAG_W \<noteq> 0 \<longrightarrow> sd_rw sd AND STAG_W \<noteq> 0)
      \<and> unat (sd_start sd) \<le> unat (rr_src_to h) \<and> unat (rr_src_to h) < unat (sd_end sd)
      \<and> unat (rr_src_to h) + unat (rr_rd_sz h) \<le> unat (sd_end sd))"
    using need(2) by (simp add: h mem_example_live)
  have "mem_inv (mm world_mem)" "\<forall>sd\<in>mem_live (mm world_mem). unat (sd_end sd) \<le> 2 ^ 63"
    by (simp_all add: mem_example_inv mem_example_live)
  from rdmap_read_request_within_bounds [OF this q _ _ _ need(1) ok, of 1428 32] sk_rdreq_answered
  show ?thesis by (simp add: h) blast
qed

end
