(* ===== verification/Iw_Ddp_Recv.thy ===== *)
theory Iw_Ddp_Recv
  imports Iw_Rdmap_Recv
begin

text \<open>
  The receiving side of DDP (\<open>iwarp/ddp.c\<close>), which MPA calls: the sink of a segment, and what to do when a
  segment has been placed. The outstanding messages, of which some segments have arrived but not the last
  one, are kept in a list with their lengths so far.
\<close>

section \<open>The sink of a segment\<close>

text \<open>
  \<open>ddp_get_sink\<close> from the bytes of the header: the value returned, the buffer (\<open>None\<close> when the
  structure \<open>b\<close> is left without one; the null pointer is \<open>User 0\<close>), the offset in it and its length. The
  length is a \<open>size_t\<close>: a length field smaller than the header makes it wrap around.
\<close>

definition ddp_get_sink :: "u8 list \<Rightarrow> iwsk \<Rightarrow> world \<Rightarrow> (int \<times> (sink \<times> u64 \<times> u64) option \<times> iwsk) outcome" where
  "ddp_get_sink hdr s w =
     (if ddp_get_TAGGED (hdr ! 2) \<noteq> 0 then
        let h = tagged_of_bytes hdr;
            len = ucast (ntohs (th_llp_hdr h)) - of_nat (TAGGED_HDR_SZ - 2);
            to = ntohq (th_to h);
            stag = ntohl (th_stag h)
        in bindO (rdmap_get_tag_sink stag to len (th_rsvdulp h) w) (\<lambda>a.
             if a = 0 then Done (- EBADMSG, Some (User 0, 0, len), s) else Done (0, Some (User a, 0, len), s))
      else
        let h = untagged_of_bytes hdr; qn = ntohl (uh_qn h); msn = ntohl (uh_msn h); mo = ntohl (uh_mo h);
            (utbuf, s) = rdmap_get_untag_sink qn msn s
        in case utbuf of
             None \<Rightarrow> Done (- EBADMSG, None, s)
           | Some (buf, buflen) \<Rightarrow>
               let len = ucast (ntohs (uh_llp_hdr h)) - of_nat (UNTAGGED_HDR_SZ - 2)
               in if ucast mo + len > buflen then Done (- EBADMSG, None, s)
                  else Done (0, Some (buf, ucast mo, len), s))"

section \<open>A segment has arrived\<close>

text \<open>\<open>list_for_each_entry\<close> with the test of its body: the position of the first match.\<close>

fun first_match :: "('a \<Rightarrow> bool) \<Rightarrow> 'a list \<Rightarrow> nat option" where
  "first_match P [] = None"
| "first_match P (x # xs) = (if P x then Some 0 else map_option Suc (first_match P xs))"

definition list_del_at :: "nat \<Rightarrow> 'a list \<Rightarrow> 'a list" where
  "list_del_at i xs = take i xs @ drop (Suc i) xs"

text \<open>The list with the new length accounted for, and the position of the message in it.\<close>

definition outst_tag_add :: "stag \<Rightarrow> u32 \<Rightarrow> bool \<Rightarrow> ddp_tag_msg list \<Rightarrow> ddp_tag_msg list \<times> nat option" where
  "outst_tag_add stag len fin ms =
     (case first_match (\<lambda>tm. tm_stag tm = stag) ms of
        Some i \<Rightarrow> (ms[i := (ms ! i)\<lparr>tm_len := tm_len (ms ! i) + len\<rparr>], Some i)
      | None \<Rightarrow> if fin then (ms, None) else (ms @ [\<lparr>tm_len = len, tm_stag = stag\<rparr>], Some (length ms)))"

definition outst_untag_add :: "u32 \<Rightarrow> u32 \<Rightarrow> u32 \<Rightarrow> bool \<Rightarrow> ddp_untag_msg list \<Rightarrow> ddp_untag_msg list \<times> nat option" where
  "outst_untag_add qn msn len fin ms =
     (case first_match (\<lambda>utm. um_qn utm = qn \<and> um_msn utm = msn) ms of
        Some i \<Rightarrow> (ms[i := (ms ! i)\<lparr>um_len := um_len (ms ! i) + len\<rparr>], Some i)
      | None \<Rightarrow> if fin then (ms, None) else (ms @ [\<lparr>um_len = len, um_msn = msn, um_qn = qn\<rparr>], Some (length ms)))"

definition ddp_process_ulpdu :: "u8 list \<Rightarrow> iwsk \<Rightarrow> world \<Rightarrow> (iwsk \<times> world) outcome" where
  "ddp_process_ulpdu hdr s w =
     (let cf = hdr ! 2 in
      if ddp_is_TAGGED cf then
        let h = tagged_of_bytes hdr;
            stag = ntohl (th_stag h);
            len = ucast (ntohs (th_llp_hdr h)) - of_nat (TAGGED_HDR_SZ - 2);
            (ms, tm) = outst_tag_add stag len (ddp_is_LAST cf) (outst_tag (ddpsk s));
            s = s\<lparr>ddpsk := (ddpsk s)\<lparr>outst_tag := ms\<rparr>\<rparr>
        in if \<not> ddp_is_LAST cf then Done (s, w)
           else let len = (case tm of Some i \<Rightarrow> tm_len (ms ! i) | None \<Rightarrow> len)
                in bindO (rdmap_tag_recv (th_rsvdulp h) stag len s w) (\<lambda>(s, w).
                     let ms = (case tm of Some i \<Rightarrow> list_del_at i ms | None \<Rightarrow> ms)
                     in Done (s\<lparr>ddpsk := (ddpsk s)\<lparr>outst_tag := ms\<rparr>\<rparr>, w\<lparr>rdma_write_count := rdma_write_count w + 1\<rparr>))
      else
        let h = untagged_of_bytes hdr;
            qn = ntohl (uh_qn h); msn = ntohl (uh_msn h);
            len = ucast (ntohs (uh_llp_hdr h)) - of_nat (UNTAGGED_HDR_SZ - 2);
            (ms, utm) = outst_untag_add qn msn len (ddp_is_LAST cf) (outst_untag (ddpsk s));
            s = s\<lparr>ddpsk := (ddpsk s)\<lparr>outst_untag := ms\<rparr>\<rparr>
        in if \<not> ddp_is_LAST cf then Done (s, w)
           else let len = (case utm of Some i \<Rightarrow> um_len (ms ! i) | None \<Rightarrow> len)
                in bindO (rdmap_untag_recv (uh_ulp_ctrl h) qn len s w) (\<lambda>(s, w).
                     let ms = (case utm of Some i \<Rightarrow> list_del_at i ms | None \<Rightarrow> ms)
                     in Done (s\<lparr>ddpsk := (ddpsk s)\<lparr>recv_msn := recv_msn (ddpsk s) + 1, outst_untag := ms\<rparr>\<rparr>, w)))"

section \<open>Lemmas\<close>

lemma first_match_None: "first_match P xs = None \<longleftrightarrow> (\<forall>x\<in>set xs. \<not> P x)"
  by (induction xs) auto

lemma first_match_append_new: "\<forall>x\<in>set xs. \<not> P x \<Longrightarrow> P y \<Longrightarrow> first_match P (xs @ [y]) = Some (length xs)"
  by (induction xs) auto

lemma list_del_at_end [simp]: "list_del_at (length xs) (xs @ [y]) = xs"
  by (simp add: list_del_at_def)

lemma outst_tag_new:
  assumes "\<forall>tm\<in>set ms. tm_stag tm \<noteq> stag"
  shows "outst_tag_add stag len fin ms
    = (if fin then (ms, None) else (ms @ [\<lparr>tm_len = len, tm_stag = stag\<rparr>], Some (length ms)))"
  using assms by (simp add: outst_tag_add_def first_match_None [THEN iffD2])

lemma outst_tag_more:
  assumes "\<forall>tm\<in>set ms. tm_stag tm \<noteq> stag"
  shows "outst_tag_add stag len fin (ms @ [\<lparr>tm_len = l, tm_stag = stag\<rparr>])
    = (ms @ [\<lparr>tm_len = l + len, tm_stag = stag\<rparr>], Some (length ms))"
  using assms by (simp add: outst_tag_add_def first_match_append_new)

lemma outst_untag_new:
  assumes "\<forall>m\<in>set ms. \<not> (um_qn m = qn \<and> um_msn m = msn)"
  shows "outst_untag_add qn msn len fin ms
    = (if fin then (ms, None) else (ms @ [\<lparr>um_len = len, um_msn = msn, um_qn = qn\<rparr>], Some (length ms)))"
proof -
  have "first_match (\<lambda>utm. um_qn utm = qn \<and> um_msn utm = msn) ms = None"
    using assms by (simp add: first_match_None)
  then show ?thesis by (simp add: outst_untag_add_def)
qed

lemma outst_untag_more:
  assumes "\<forall>m\<in>set ms. \<not> (um_qn m = qn \<and> um_msn m = msn)"
  shows "outst_untag_add qn msn len fin (ms @ [\<lparr>um_len = l, um_msn = msn, um_qn = qn\<rparr>])
    = (ms @ [\<lparr>um_len = l + len, um_msn = msn, um_qn = qn\<rparr>], Some (length ms))"
proof -
  have "first_match (\<lambda>utm. um_qn utm = qn \<and> um_msn utm = msn) (ms @ [\<lparr>um_len = l, um_msn = msn, um_qn = qn\<rparr>])
      = Some (length ms)"
    using assms by (intro first_match_append_new) auto
  then show ?thesis by (simp add: outst_untag_add_def)
qed

end
