(* ===== verification/Iw_Mpa_Recv.thy ===== *)
theory Iw_Mpa_Recv
  imports Iw_Ddp_Recv
begin

text \<open>
  The receiving side of MPA (\<open>iwarp/mpa.c\<close>): reading one frame, without and with markers, checking its sum,
  placing its payload where DDP says, and the polling of the sockets. The header is read into a static
  buffer whose old contents are overwritten before they are looked at, so it is a local value here; so is
  the sum read.
\<close>

section \<open>Start of the layer\<close>

text \<open>The sizes that \<open>mpa_init\<close> computes: \<open>MSS\<close>, \<open>MAX_CHUNKS\<close>, \<open>MAX_BLKS\<close> and \<open>MAX_MRKRS\<close>.\<close>

definition mpa_sizes :: "u32 \<times> u32 \<times> u32 \<times> u32" where
  "mpa_sizes =
     (let MAX_IPSEG = push_bit 16 1; MSS = MAX_IPSEG - 60 - 60; MSS = MSS - 8; FPDU_LEN = MSS;
          MAX_CHUNKS = (FPDU_LEN + 512 - 1) div 512
      in (MSS, MAX_CHUNKS, (2 * MAX_CHUNKS + 1) + (1 + 1) + (1 + 1) + 1, MAX_CHUNKS + 1 + 1))"

definition mpa_init :: "world \<Rightarrow> world" where
  "mpa_init w = w\<lparr>pollsks := [], mrkr_rsvd := (\<lambda>_. 0), mpa_freed := False\<rparr>"

text \<open>\<open>mpa_fin\<close> frees the blocks; a second time it frees them twice. \<open>pollsks.numsks\<close> stays.\<close>

definition mpa_fin :: "world \<Rightarrow> world outcome" where
  "mpa_fin w = (if mpa_freed w then Exit else Done (w\<lparr>mpa_freed := True\<rparr>))"

lemma mpa_sizes_constants: "mpa_sizes = (65408, 128, of_nat MAX_BLKS, of_nat MAX_MRKRS)"
  by (simp add: mpa_sizes_def)

section \<open>Placing the payload\<close>

text \<open>
  The bytes of a vector go to its blocks in order; those of the payload go to the sink. The length of a
  placement comes from a 16-bit field: it is 65536 or more only when the field was smaller than the
  header and the subtraction wrapped around, and then nothing about the process is known afterwards.
\<close>

definition place :: "sink \<Rightarrow> u64 \<Rightarrow> u8 list \<Rightarrow> iwsk \<Rightarrow> world \<Rightarrow> iwsk \<times> world" where
  "place b off bs s w =
     (case b of
        User a \<Rightarrow> (s, w\<lparr>mem := write_bytes (mem w) (a + off) bs\<rparr>)
      | ReqEntry \<Rightarrow>
          let q = rdmareq_q (rdmapsk s)
          in (s\<lparr>rdmapsk := (rdmapsk s)\<lparr>rdmareq_q := butlast q @ [put (last q) (unat off) bs]\<rparr>\<rparr>, w)
      | TermEntry \<Rightarrow>
          let q = term_q (rdmapsk s)
          in (s\<lparr>rdmapsk := (rdmapsk s)\<lparr>term_q := butlast q @ [put (last q) (unat off) bs]\<rparr>\<rparr>, w))"

text \<open>Reading to the null pointer fails, and \<open>readv_full\<close> ends the process then; reading no bytes to it does not.\<close>

definition sink_bad :: "sink \<Rightarrow> u64 \<Rightarrow> u64 \<Rightarrow> bool" where
  "sink_bad b off len \<longleftrightarrow> len \<ge> 65536 \<or> (b = User 0 \<and> off = 0 \<and> len \<noteq> 0)"

section \<open>Frames without markers\<close>

text \<open>
  The value that \<open>ddp_get_sink\<close> returns is ignored: without a buffer the structure \<open>b\<close> is used
  uninitialised. The payload is in its place before the sum is compared.
\<close>

definition mpa_rd_plain_fpdu :: "iwsk \<Rightarrow> world \<Rightarrow> (int \<times> u8 list \<times> iwsk \<times> world) outcome" where
  "mpa_rd_plain_fpdu s w =
     bindO (sock_read (sk_fd s) 4 w) (\<lambda>(start, w).
       let hdrsz = ddp_get_hdr_sz start in
       bindO (sock_read (sk_fd s) (hdrsz - 4) w) (\<lambda>(rest, w).
         let hdr = start @ rest in
         bindO (ddp_get_sink hdr s w) (\<lambda>(_, b, s).
           case b of
             None \<Rightarrow> Exit
           | Some (buf, off, len) \<Rightarrow>
               if sink_bad buf off len then Exit
               else let n = unat len; pad = mpa_pad n; crc = use_crc (mpask s) \<noteq> 0;
                        vec = [n] @ (if pad \<noteq> 0 then [pad] else []) @ (if crc then [CRC_SZ] else [])
                    in bindO (sock_readv (sk_fd s) vec (int (sum_list vec)) (replicate (sum_list vec) 0) w) (\<lambda>(bs, w).
                         let (s, w) = place buf off (take n bs) s w;
                             s = s\<lparr>mpask := (mpask s)\<lparr>recv_sp := recv_sp (mpask s) + of_nat (hdrsz + sum_list vec)\<rparr>\<rparr>
                         in if crc \<and> crc32c (hdr @ take (n + pad) bs) \<noteq> ntohl (of_le (drop (n + pad) bs))
                            then Done (- EBADMSG, hdr, s, w) else Done (0, hdr, s, w)))))"

section \<open>Frames with markers\<close>

text \<open>A received marker is stored over the static one of its number, reserved half included.\<close>

definition store_mrkr :: "nat \<Rightarrow> u8 list \<Rightarrow> world \<Rightarrow> world" where
  "store_mrkr i m w = w\<lparr>mrkr_rsvd := (mrkr_rsvd w)(i := of_le (take 2 m))\<rparr>"

definition mpa_read_mrkr :: "iwsk \<Rightarrow> nat \<Rightarrow> u32 \<Rightarrow> u32 \<Rightarrow> world \<Rightarrow> (u8 list \<times> nat \<times> u32 \<times> u32 \<times> world) outcome" where
  "mpa_read_mrkr s midx cp mp w =
     bindO (sock_read (sk_fd s) MARKER_SZ w) (\<lambda>(m, w). Done (m, Suc midx, cp + 4, mp + 512, store_mrkr midx m w))"

text \<open>What the blocks of the vector are for: payload, pad, markers.\<close>

datatype blk = Payld nat | Pad nat | Mrkr

fun blk_len :: "blk \<Rightarrow> nat" where
  "blk_len (Payld n) = n"
| "blk_len (Pad n) = n"
| "blk_len Mrkr = MARKER_SZ"

text \<open>The loop that lays out the vector; \<open>pad\<close> is that of the payload.\<close>

function rd_layout :: "nat \<Rightarrow> u32 \<Rightarrow> u32 \<Rightarrow> u32 \<Rightarrow> nat \<Rightarrow> blk list \<times> u32 \<times> u32 \<times> nat" where
  "rd_layout pad pl cp mp midx =
     (if pl = 0 then ([], cp, mp, midx)
      else let ln = mp - cp;
               ln = (if ln > pl then pl else ln);
               v = [Payld (unat ln)]; cp = cp + ln; pl = pl - ln;
               (v, cp) = (if pl = 0 \<and> pad \<noteq> 0 then (v @ [Pad pad], cp + of_nat pad) else (v, cp));
               (v, cp, mp, midx) = (if cp = mp then (v @ [Mrkr], cp + 4, mp + 512, Suc midx) else (v, cp, mp, midx));
               (vs, cp, mp, midx) = rd_layout pad pl cp mp midx
           in (v @ vs, cp, mp, midx))"
  by pat_completeness auto

termination
proof (relation "measures [\<lambda>(pad, pl, cp, mp, midx). unat pl, \<lambda>(pad, pl, cp, mp, midx). if mp = cp then 1 else 0]",
    goal_cases)
  case (2 pad pl cp mp midx ln ln' v cp1 pl1 x v2 cp2 y v3 z cp3 w mp3 midx3)
  show ?case
  proof (cases "mp = cp")
    case True
    then show ?thesis using 2 by (auto simp: word_less_nat_alt unat_gt_0)
  next
    case False
    then have "ln' \<noteq> 0" "ln' \<le> pl" using 2 by (auto split: if_splits)
    then have "unat pl1 < unat pl" using 2 by (simp add: unat_sub word_le_nat_alt unat_gt_0)
    then show ?thesis by simp
  qed
qed simp

declare rd_layout.simps [simp del]

text \<open>The bytes read, given out to the blocks: payload, all bytes in order, and markers.\<close>

fun split_blks :: "blk list \<Rightarrow> u8 list \<Rightarrow> u8 list \<times> u8 list list" where
  "split_blks [] bs = ([], [])"
| "split_blks (b # v) bs =
     (let (p, ms) = split_blks v (drop (blk_len b) bs); x = take (blk_len b) bs
      in case b of Payld _ \<Rightarrow> (x @ p, ms) | Pad _ \<Rightarrow> (p, ms) | Mrkr \<Rightarrow> (p, x # ms))"

fun store_mrkrs :: "nat \<Rightarrow> u8 list list \<Rightarrow> world \<Rightarrow> world" where
  "store_mrkrs i [] w = w"
| "store_mrkrs i (m # ms) w = store_mrkrs (Suc i) ms (store_mrkr i m w)"

text \<open>\<open>mrkr_blk[lp].fpduptr != mk + lp*MARKER_PERIOD\<close> for some \<open>lp\<close>: the 16-bit field is widened.\<close>

fun mrkrs_bad :: "u32 \<Rightarrow> nat \<Rightarrow> u8 list list \<Rightarrow> bool" where
  "mrkrs_bad mk lp [] = False"
| "mrkrs_bad mk lp (m # ms) = (ucast (of_le (drop 2 m) :: u16) \<noteq> mk + of_nat lp * 512 \<or> mrkrs_bad mk (Suc lp) ms)"

text \<open>
  The header, with the marker that may lie before it or in it: its blocks as read, the header, the
  markers, and the counters. A marker due within the first four bytes makes the length of the next read
  wrap around.
\<close>

definition rd_mrkr_hdr :: "iwsk \<Rightarrow> u32 \<Rightarrow> world
    \<Rightarrow> (u8 list \<times> u8 list \<times> u8 list list \<times> nat \<times> u32 \<times> u32 \<times> world) outcome" where
  "rd_mrkr_hdr s mp w =
     bindO (if mp = 0 then bindO (mpa_read_mrkr s 0 0 mp w) (\<lambda>(m, midx, cp, mp, w). Done (m, [m], midx, cp, mp, w))
            else Done ([], [], 0, 0, mp, w)) (\<lambda>(pre, ms, midx, cp, mp, w).
       bindO (sock_read (sk_fd s) 4 w) (\<lambda>(start, w).
         let hdrsz = ddp_get_hdr_sz start in
         if mp \<ge> of_nat hdrsz then
           bindO (sock_read (sk_fd s) (hdrsz - 4) w) (\<lambda>(rest, w).
             Done (pre @ start @ rest, start @ rest, ms, midx, cp + of_nat hdrsz, mp, w))
         else if mp < 4 then Exit
         else bindO (sock_read (sk_fd s) (unat mp - 4) w) (\<lambda>(rest, w).
                let hdr = start @ rest; cp = cp + mp in
                bindO (mpa_read_mrkr s midx cp mp w) (\<lambda>(m, midx, cp, mp, w).
                  let k = unat (mp - 512) in
                  bindO (sock_read (sk_fd s) (hdrsz - k) w) (\<lambda>(rest, w).
                    Done (pre @ hdr @ m @ rest, hdr @ rest, ms @ [m], midx, cp + of_nat (hdrsz - k), mp, w))))))"

text \<open>
  The rest of the frame: the vector of \<open>n\<close> bytes of payload, its transfer, and the checks. The header takes
  one block of the array, two after a marker, three around one; there is no check that the rest fits.
\<close>

definition rd_mrkr_payld :: "u8 list \<Rightarrow> u8 list list \<Rightarrow> nat \<Rightarrow> u32 \<Rightarrow> u32 \<Rightarrow> u32 \<Rightarrow> u32 \<Rightarrow> sink \<Rightarrow> u64 \<Rightarrow> nat
    \<Rightarrow> iwsk \<Rightarrow> world \<Rightarrow> (int \<times> u8 list \<times> iwsk \<times> world) outcome" where
  "rd_mrkr_payld hdr ms midx cp mp mk sp buf off n s w =
     (let pad = mpa_pad n; (v, cp, mp, midx) = rd_layout pad (of_nat n) cp mp midx;
          s = s\<lparr>mpask := (mpask s)\<lparr>recv_sp := recv_sp (mpask s) + cp,
                                  recv_mp := recv_mp (mpask s) + of_nat midx * 512\<rparr>\<rparr>;
          crc = use_crc (mpask s) \<noteq> 0;
          vec = map blk_len v @ (if crc then [CRC_SZ] else []); k = sum_list (map blk_len v);
          st_bidx = (if ms = [] then 1 else if mk = 0 then 2 else 3)
      in if st_bidx + length vec > MAX_BLKS \<or> midx > MAX_MRKRS then Exit
         else bindO (sock_readv (sk_fd s) vec (int (sum_list vec)) (replicate (sum_list vec) 0) w) (\<lambda>(bs, w).
           let (p, ms') = split_blks v (take k bs);
               w = store_mrkrs (length ms) ms' w;
               (s, w) = place buf off p s w
           in if mrkrs_bad mk 0 (ms @ ms') then Done (- EBADMSG, hdr, s, w)
              else if recv_mp (mpask s) - sp \<noteq> mk + of_nat midx * 512 then Done (- EBADMSG, hdr, s, w)
              else if crc then Done (- EBADMSG, hdr, s, w)
              else Done (0, hdr, s, w)))"

definition mpa_rd_mrkr_fpdu :: "iwsk \<Rightarrow> world \<Rightarrow> (int \<times> u8 list \<times> iwsk \<times> world) outcome" where
  "mpa_rd_mrkr_fpdu s w =
     (let w = w\<lparr>mpa_recv_cntr := mpa_recv_cntr w + 1\<rparr>;
          sp = recv_sp (mpask s); mp = recv_mp (mpask s) - sp; mk = mp
      in bindO (rd_mrkr_hdr s mp w) (\<lambda>(raw, hdr, ms, midx, cp, mp, w).
         bindO (ddp_get_sink hdr s w) (\<lambda>(ret, b, s).
           if ret < 0 then Done (ret, hdr, s, w)
           else case b of
             None \<Rightarrow> Exit
           | Some (buf, off, len) \<Rightarrow>
               if sink_bad buf off len then Exit
               else rd_mrkr_payld hdr ms midx cp mp mk sp buf off (unat len) s w)))"

section \<open>One frame, and polling\<close>

definition mpa_recv :: "iwsk \<Rightarrow> world \<Rightarrow> (int \<times> iwsk \<times> world) outcome" where
  "mpa_recv s w =
     bindO (if use_mrkr (mpask s) \<noteq> 0 then mpa_rd_mrkr_fpdu s w else mpa_rd_plain_fpdu s w) (\<lambda>(ret, hdr, s, w).
       if ret < 0 then Done (ret, s, w)
       else bindO (ddp_process_ulpdu hdr s w) (\<lambda>(s, w). Done (0, s, w)))"

text \<open>
  \<open>mpa_poll_generic\<close>: what \<open>poll\<close> returned, whether a failure was an interrupt, and which of the sockets
  are ready. A socket whose registration failed is polled only when its descriptor is still in the array
  from an earlier one; its lists are null then, and receiving on it is undefined. So is polling the array
  after it is freed.
\<close>

fun poll_loop :: "int \<Rightarrow> (sock \<times> bool) list \<Rightarrow> world \<Rightarrow> (int \<times> world) outcome" where
  "poll_loop pollret [] w = Done (0, w)"
| "poll_loop pollret ((fd, ready) # sks) w =
     (if pollret = 0 then Done (0, w)
      else if \<not> ready then poll_loop pollret sks w
      else bindO (iwsk_lookup fd w) (\<lambda>r.
        case r of
          None \<Rightarrow> Exit
        | Some s \<Rightarrow>
            if \<not> lists_set s then Exit
            else bindO (mpa_recv s w) (\<lambda>(ret, s, w).
              let w = iwsk_store s w
              in if ret < 0 then Done (ret, w) else poll_loop (pollret - 1) sks w)))"

definition mpa_poll_generic :: "int \<Rightarrow> bool \<Rightarrow> bool list \<Rightarrow> world \<Rightarrow> (int \<times> world) outcome" where
  "mpa_poll_generic answer eintr ready w =
     (if mpa_freed w \<and> pollsks w \<noteq> [] then Exit
      else if answer < 0 \<and> \<not> eintr then Done (answer, w)
      else poll_loop (if answer < 0 then 0 else answer) (zip (pollsks w) ready) w)"

section \<open>A frame received without markers\<close>

lemma mpa_pad_hdr: "h mod 4 = 0 \<Longrightarrow> mpa_pad (h + n) = mpa_pad n"
proof -
  assume "h mod 4 = 0"
  then obtain k where h: "h = 4 * k" by (auto simp: mod_eq_0_iff_dvd elim!: dvdE)
  have "(4 * k + n + 3) div 4 = k + (n + 3) div 4"
    using div_mult_self2 [of 4 "n + 3" k] by (simp add: ac_simps)
  then show ?thesis by (simp add: mpa_pad_def h)
qed

lemma ddp_get_sink_mm: "mm w' = mm w \<Longrightarrow> ddp_get_sink hdr s w' = ddp_get_sink hdr s w"
  by (simp add: ddp_get_sink_def rdmap_get_tag_sink_def)

lemma untag_sink_keeps: "rdmap_get_untag_sink qn msn s = (r, s') \<Longrightarrow> sk_fd s' = sk_fd s \<and> mpask s' = mpask s \<and> ddpsk s' = ddpsk s
    \<and> scq s' = scq s \<and> rcq s' = rcq s"
  by (auto simp: rdmap_get_untag_sink_def Let_def split: if_splits option.splits)

lemma ddp_get_sink_keeps: "ddp_get_sink hdr s w = Done (ret, b, s') \<Longrightarrow> sk_fd s' = sk_fd s \<and> mpask s' = mpask s \<and> ddpsk s' = ddpsk s
    \<and> scq s' = scq s \<and> rcq s' = rcq s"
  by (auto simp: ddp_get_sink_def Let_def outcome_simps dest!: untag_sink_keeps split: if_splits option.splits prod.splits)

lemma ddp_get_hdr_sz_take [simp]: "2 < k \<Longrightarrow> ddp_get_hdr_sz (take k hdr) = ddp_get_hdr_sz hdr"
  by (simp add: ddp_get_hdr_sz_def)

lemma ddp_get_hdr_sz_cases: "ddp_get_hdr_sz hdr = 16 \<or> ddp_get_hdr_sz hdr = 20"
  by (simp add: ddp_get_hdr_sz_def TAGGED_HDR_SZ_def UNTAGGED_HDR_SZ_def)

lemma mpa_put_len_nth:
  assumes "2 \<le> i" "i < length hdr"
  shows "mpa_put_len hdr len ! i = hdr ! i"
proof -
  obtain j where "i = j + 2" using assms(1) by (metis le_iff_add add.commute)
  then show ?thesis using assms(2) by (simp add: mpa_put_len_def nth_append)
qed

lemma place_keeps: "place b off bs s w = (s', w') \<Longrightarrow> sk_fd s' = sk_fd s \<and> mpask s' = mpask s \<and> ddpsk s' = ddpsk s
    \<and> scq s' = scq s \<and> rcq s' = rcq s \<and> conns w' = conns w \<and> mm w' = mm w \<and> cqs w' = cqs w \<and> iwht w' = iwht w"
  by (auto simp: place_def Let_def split: sink.splits)

text \<open>
  Any frame on a connection: header, payload, pad bytes and sum as they come. The payload is placed, and
  the sum decides about the value returned.
\<close>

lemma mpa_rd_plain_bytes:
  fixes s :: iwsk
  defines "crc \<equiv> use_crc (mpask s) \<noteq> 0"
  assumes c: "conn_ok (conns w (sk_fd s))" "rx (conns w (sk_fd s)) = h @ pl @ padb @ sm @ rest"
    and len: "length h = ddp_get_hdr_sz h" "length pl < 65536" "length padb = mpa_pad (length pl)"
      "length sm = (if crc then 4 else 0)"
    and sink: "ddp_get_sink h s w = Done (ret, Some (buf, off, of_nat (length pl)), s1)" "\<not> sink_bad buf off (of_nat (length pl))"
  shows "\<exists>c2 sp. mpa_rd_plain_fpdu s w
      = (let (s2, w2) = place buf off pl s1 (set_conn (sk_fd s) c2 w)
         in Done (if crc \<and> crc32c (h @ pl @ padb) \<noteq> ntohl (of_le sm) then - EBADMSG else 0, h,
              s2\<lparr>mpask := (mpask s2)\<lparr>recv_sp := sp\<rparr>\<rparr>, w2))
    \<and> conn_ok c2 \<and> rx c2 = rest \<and> tx c2 = tx (conns w (sk_fd s))"
proof -
  let ?fd = "sk_fd s"
  let ?pad = "mpa_pad (length pl)"
  have hl: "length h = 16 \<or> length h = 20" using ddp_get_hdr_sz_cases [of h] len(1) by simp
  have sz: "ddp_get_hdr_sz (take 4 h) = length h" using len(1) by simp
  have rx: "rx (conns w ?fd) = take 4 h @ drop 4 h @ pl @ padb @ sm @ rest"
    unfolding c(2) by (simp flip: append_assoc)
  obtain c0 where c0: "sock_read ?fd 4 w = Done (take 4 h, set_conn ?fd c0 w)" "conn_ok c0"
      "rx c0 = drop 4 h @ pl @ padb @ sm @ rest" "tx c0 = tx (conns w ?fd)"
    using sock_read_ok [OF c(1) rx, of 4] hl by auto
  obtain c1 where c1: "sock_read ?fd (length h - 4) (set_conn ?fd c0 w) = Done (drop 4 h, set_conn ?fd c1 w)"
      "conn_ok c1" "rx c1 = pl @ padb @ sm @ rest" "tx c1 = tx (conns w ?fd)"
    using sock_read_ok [of "set_conn ?fd c0 w" ?fd "drop 4 h" "pl @ padb @ sm @ rest" "length h - 4"] c0 hl
    by fastforce
  have s1: "sk_fd s1 = ?fd" "use_crc (mpask s1) \<noteq> 0 \<longleftrightarrow> crc" using ddp_get_sink_keeps [OF sink(1)] by (simp_all add: crc_def)
  let ?vec = "[length pl] @ (if ?pad \<noteq> 0 then [?pad] else []) @ (if crc then [CRC_SZ] else [])"
  have vec: "sum_list ?vec = length (pl @ padb @ sm)" using len(3,4) by simp
  have "iov_ok ?vec" using len(2) mpa_pad_lt [of "length pl"] by (simp add: iov_ok_def)
  then obtain c2 where c2: "sock_readv ?fd ?vec (int (sum_list ?vec)) (replicate (sum_list ?vec) 0) (set_conn ?fd c1 w)
      = Done (pl @ padb @ sm, set_conn ?fd c2 w)" "conn_ok c2" "rx c2 = rest" "tx c2 = tx (conns w ?fd)"
    using sock_readv_ok [of "set_conn ?fd c1 w" ?fd "pl @ padb @ sm" rest ?vec
      "int (sum_list ?vec)" "replicate (sum_list ?vec) 0"] c1 vec by auto
  have n: "unat (of_nat (length pl) :: u64) = length pl" using len(2) by (simp add: unat_of_nat64)
  have sink': "ddp_get_sink h s (set_conn ?fd c1 w) = Done (ret, Some (buf, off, of_nat (length pl)), s1)"
    using sink(1) ddp_get_sink_mm [of "set_conn ?fd c1 w" w] by simp
  have parts: "take (length pl) (pl @ padb @ sm) = pl" "take (length pl + ?pad) (pl @ padb @ sm) = pl @ padb"
    "drop (length pl + ?pad) (pl @ padb @ sm) = sm" using len(3) by simp_all
  have "mpa_rd_plain_fpdu s w
      = (let (s2, w2) = place buf off pl s1 (set_conn ?fd c2 w);
             s2 = s2\<lparr>mpask := (mpask s2)\<lparr>recv_sp := recv_sp (mpask s2) + of_nat (length h + sum_list ?vec)\<rparr>\<rparr>
         in if crc \<and> crc32c (h @ pl @ padb) \<noteq> ntohl (of_le sm) then Done (- EBADMSG, h, s2, w2)
            else Done (0, h, s2, w2))"
    unfolding mpa_rd_plain_fpdu_def c0(1) bindO.simps prod.case sz Let_def c1(1) append_take_drop_id sink' option.case
      s1 n c2(1) parts if_not_P [OF sink(2)]
    by (rule refl)
  moreover obtain s2 w2 where "place buf off pl s1 (set_conn ?fd c2 w) = (s2, w2)" by fastforce
  ultimately show ?thesis using c2(2-4)
    by (cases "crc \<and> crc32c (h @ pl @ padb) \<noteq> ntohl (of_le sm)"; intro exI [of _ c2] exI; simp add: Let_def)
qed

lemma plain_fpdu_parts:
  assumes "length hdr = ddp_get_hdr_sz hdr"
  shows "plain_fpdu crc hdr pl = mpa_put_len hdr (of_nat (length hdr + length pl)) @ pl @ replicate (mpa_pad (length pl)) 0
      @ (if crc then le32 (htonl (crc32c (mpa_put_len hdr (of_nat (length hdr + length pl)) @ pl
           @ replicate (mpa_pad (length pl)) 0))) else [])"
proof -
  have "length hdr mod 4 = 0" using ddp_get_hdr_sz_cases [of hdr] assms by auto
  then have pad: "mpa_pad (length hdr + length pl) = mpa_pad (length pl)" by (rule mpa_pad_hdr)
  show ?thesis unfolding plain_fpdu_def Let_def pad by simp
qed

lemma put_len_hdr_sz:
  assumes "length hdr = ddp_get_hdr_sz hdr"
  shows "length (mpa_put_len hdr len) = ddp_get_hdr_sz (mpa_put_len hdr len)" "2 < length hdr"
proof -
  show l: "2 < length hdr" using ddp_get_hdr_sz_cases [of hdr] assms by auto
  then show "length (mpa_put_len hdr len) = ddp_get_hdr_sz (mpa_put_len hdr len)"
    using mpa_put_len_nth [of 2 hdr len] assms by (simp add: ddp_get_hdr_sz_def)
qed

lemma mpa_rd_plain_ok:
  fixes s :: iwsk
  defines "crc \<equiv> use_crc (mpask s) \<noteq> 0"
  assumes c: "conn_ok (conns w (sk_fd s))" "rx (conns w (sk_fd s)) = plain_fpdu crc hdr pl @ rest"
    and len: "length hdr = ddp_get_hdr_sz hdr" "length pl < 65536"
    and sink: "ddp_get_sink (mpa_put_len hdr (of_nat (length hdr + length pl))) s w
        = Done (ret, Some (buf, off, of_nat (length pl)), s1)" "\<not> sink_bad buf off (of_nat (length pl))"
  shows "\<exists>c2 sp. mpa_rd_plain_fpdu s w
      = (let (s2, w2) = place buf off pl s1 (set_conn (sk_fd s) c2 w)
         in Done (0, mpa_put_len hdr (of_nat (length hdr + length pl)), s2\<lparr>mpask := (mpask s2)\<lparr>recv_sp := sp\<rparr>\<rparr>, w2))
    \<and> conn_ok c2 \<and> rx c2 = rest \<and> tx c2 = tx (conns w (sk_fd s))"
proof -
  let ?h = "mpa_put_len hdr (of_nat (length hdr + length pl))"
  let ?padb = "replicate (mpa_pad (length pl)) 0"
  define sm where "sm = (if crc then le32 (htonl (crc32c (?h @ pl @ ?padb))) else [])"
  have rx: "rx (conns w (sk_fd s)) = ?h @ pl @ ?padb @ sm @ rest"
    unfolding c(2) plain_fpdu_parts [OF len(1)] sm_def by simp
  have l: "length sm = (if use_crc (mpask s) \<noteq> 0 then 4 else 0)" by (simp add: sm_def crc_def)
  have ok: "(if use_crc (mpask s) \<noteq> 0 \<and> crc32c (?h @ pl @ ?padb) \<noteq> ntohl (of_le sm) then - EBADMSG else 0) = 0"
    by (simp add: sm_def crc_def)
  show ?thesis
    using mpa_rd_plain_bytes [OF c(1) rx put_len_hdr_sz(1) [OF len(1)] len(2) length_replicate l sink] unfolding ok by blast
qed

section \<open>Findings\<close>

text \<open>
  With sums, a frame with markers is never accepted, whether its sum is right or not: the return that was
  meant for a wrong sum is outside the conditional.
\<close>

lemma rd_mrkr_payld_crc:
  "use_crc (mpask s) \<noteq> 0 \<Longrightarrow> rd_mrkr_payld hdr ms midx cp mp mk sp buf off n s w = Done (ret, hdr', s', w') \<Longrightarrow> ret < 0"
  by (auto simp: rd_mrkr_payld_def Let_def case_prod_unfold outcome_simps split: if_splits)

lemma mpa_rd_mrkr_crc_never:
  assumes "use_crc (mpask s) \<noteq> 0" "mpa_rd_mrkr_fpdu s w = Done (ret, hdr, s', w')"
  shows "ret < 0"
  using assms by (auto simp: mpa_rd_mrkr_fpdu_def Let_def outcome_simps split: if_splits option.splits prod.splits
    dest!: ddp_get_sink_keeps dest: rd_mrkr_payld_crc [rotated])

section \<open>The sinks of well-formed segments\<close>

lemma mpa_put_len_untagged: "mpa_put_len (untagged_bytes h) len = untagged_bytes (h\<lparr>uh_llp_hdr := htons (len - 2)\<rparr>)"
  by (simp add: mpa_put_len_def untagged_bytes_def)

lemma mpa_put_len_tagged: "mpa_put_len (tagged_bytes h) len = tagged_bytes (h\<lparr>th_llp_hdr := htons (len - 2)\<rparr>)"
  by (simp add: mpa_put_len_def tagged_bytes_def)

lemma hdr_bytes_cf [simp]: "untagged_bytes u ! 2 = uh_cf u" "tagged_bytes h ! 2 = th_cf h"
  by (simp_all add: untagged_bytes_def tagged_bytes_def le16_def)

lemma hdr_sz_untagged: "\<not> bit (uh_cf h) 7 \<Longrightarrow> ddp_get_hdr_sz (untagged_bytes h) = 20"
  by (simp add: ddp_get_hdr_sz_def ddp_cf_bits UNTAGGED_HDR_SZ_def)

lemma hdr_sz_tagged: "bit (th_cf h) 7 \<Longrightarrow> ddp_get_hdr_sz (tagged_bytes h) = 16"
  by (simp add: ddp_get_hdr_sz_def ddp_cf_bits TAGGED_HDR_SZ_def)

text \<open>The length of the payload, read back from the length field.\<close>

lemma llp_len:
  assumes "2 \<le> k" "k + n < 65536"
  shows "ucast (ntohs (htons (of_nat (k + n) - 2)) :: u16) - (of_nat (k - 2) :: u64) = of_nat n"
    "ucast (ntohs (htons (of_nat (k + n) - 2)) :: u16) - (of_nat (k - 2) :: u32) = of_nat n"
proof -
  have "(of_nat (k + n) - 2 :: u16) = of_nat (k + n - 2)" using assms(1) by (simp add: of_nat_diff)
  then have "unat (of_nat (k + n) - 2 :: u16) = k + n - 2"
    using assms(2) by (simp only: unat_of_nat16)
  then have "(ucast (of_nat (k + n) - 2 :: u16) :: u64) = of_nat (k - 2 + n)" "(ucast (of_nat (k + n) - 2 :: u16) :: u32) = of_nat (k - 2 + n)"
    unfolding ucast_u16 using assms(1) by simp_all
  then show "ucast (ntohs (htons (of_nat (k + n) - 2)) :: u16) - (of_nat (k - 2) :: u64) = of_nat n"
    "ucast (ntohs (htons (of_nat (k + n) - 2)) :: u16) - (of_nat (k - 2) :: u32) = of_nat n"
    by simp_all
qed

lemma ddp_get_sink_send:
  assumes "\<not> bit (uh_cf h) 7" "ntohl (uh_qn h) = SEND_Q" "send_q (rdmapsk s) = d # ds" "20 + n < 65536"
    and "unat (ntohl (uh_mo h)) + n \<le> unat (uw_len d)"
  shows "ddp_get_sink (mpa_put_len (untagged_bytes h) (of_nat (20 + n))) s w
    = Done (0, Some (User (uw_buf d), ucast (ntohl (uh_mo h)), of_nat n), s)"
proof -
  have "unat (ucast (ntohl (uh_mo h)) + of_nat n :: u64) = unat (ntohl (uh_mo h)) + n"
  proof -
    have "unat (ntohl (uh_mo h)) < 4294967296" by (rule order_less_le_trans [OF unsigned_less]) simp
    moreover have "(ucast (ntohl (uh_mo h)) :: u64) = of_nat (unat (ntohl (uh_mo h)))" by (rule of_nat_unat [symmetric])
    ultimately show ?thesis using assms(4) by (simp only: flip: of_nat_add) (simp only: unat_of_nat64)
  qed
  then have "\<not> ucast (ntohl (uh_mo h)) + of_nat n > uw_len d" using assms(5) by (simp add: word_less_nat_alt)
  then show ?thesis
    unfolding ddp_get_sink_def mpa_put_len_untagged using assms llp_len(1) [of 20 n]
    by (simp add: ddp_cf_bits rdmap_get_untag_sink_def sink_walk_first UNTAGGED_HDR_SZ_def Let_def)
qed

lemma ddp_get_sink_tagged:
  assumes "bit (th_cf h) 7" "16 + n < 65536" "table_at rdmap_acc (th_rsvdulp h) = Done acc"
    and "mem_stag_location True (ntohl (th_stag h)) (ntohq (th_to h)) (of_nat n) acc (mm w) = a" "a \<noteq> 0"
  shows "ddp_get_sink (mpa_put_len (tagged_bytes h) (of_nat (16 + n))) s w = Done (0, Some (User a, 0, of_nat n), s)"
  unfolding ddp_get_sink_def mpa_put_len_tagged using assms llp_len(1) [of 16 n]
  by (simp add: ddp_cf_bits rdmap_get_tag_sink_def TAGGED_HDR_SZ_def Let_def)

section \<open>Properties\<close>

text \<open>
  C19. A frame goes through. Without markers and without errors, what the sender writes for a header and a
  payload makes the receiver read exactly these bytes from the stream, accept the sum if there is one,
  return the header with its length filled in, and put the payload where DDP says.
\<close>

theorem mpa_plain_round_trip:
  assumes "conn_ok (conns wA (sk_fd sA))" "conn_ok (conns wB (sk_fd sB))" "use_crc (mpask sA) \<noteq> 0 \<longleftrightarrow> use_crc (mpask sB) \<noteq> 0"
    and "length hdr = ddp_get_hdr_sz hdr" "length pl + length hdr < 65536"
    and "ddp_get_sink (mpa_put_len hdr (of_nat (length hdr + length pl))) sB wB
        = Done (ret, Some (buf, off, of_nat (length pl)), s1)" "\<not> sink_bad buf off (of_nat (length pl))"
    and "rx (conns wB (sk_fd sB)) = plain_fpdu (use_crc (mpask sA) \<noteq> 0) hdr pl @ rest"
  shows "(\<exists>sA' cA ok. mpa_wrt_plain_fpdu hdr pl sA wA = Done (ok, sA', set_conn (sk_fd sA) cA wA) \<and> 0 \<le> ok
      \<and> tx cA = tx (conns wA (sk_fd sA)) @ plain_fpdu (use_crc (mpask sA) \<noteq> 0) hdr pl)
    \<and> (\<exists>cB sp. mpa_rd_plain_fpdu sB wB
          = (let (s2, w2) = place buf off pl s1 (set_conn (sk_fd sB) cB wB)
             in Done (0, mpa_put_len hdr (of_nat (length hdr + length pl)), s2\<lparr>mpask := (mpask s2)\<lparr>recv_sp := sp\<rparr>\<rparr>, w2))
         \<and> rx cB = rest)"
proof -
  have len: "2 \<le> length hdr" using put_len_hdr_sz(2) [OF assms(4)] by simp
  have pl: "length pl < 65536" using assms(5) by simp
  have "\<exists>sA' cA ok. mpa_wrt_plain_fpdu hdr pl sA wA = Done (ok, sA', set_conn (sk_fd sA) cA wA) \<and> 0 \<le> ok
      \<and> tx cA = tx (conns wA (sk_fd sA)) @ plain_fpdu (use_crc (mpask sA) \<noteq> 0) hdr pl"
    using mpa_wrt_plain_ok [OF assms(1) len assms(5)] by blast
  then show ?thesis
    using mpa_rd_plain_ok [OF assms(2) assms(8) [unfolded assms(3)] assms(4) pl assms(6,7)] by blast
qed

text \<open>
  C20. Damage is noticed. On a connection with sums, a frame in whose payload at most four consecutive
  bytes were changed on the way makes the receiver return \<open>-EBADMSG\<close>.
\<close>

theorem mpa_plain_detects_damage:
  assumes "conn_ok (conns w (sk_fd s))" "use_crc (mpask s) \<noteq> 0"
    and "length hdr = ddp_get_hdr_sz hdr" "length (p @ x @ q) < 65536"
    and "length y = length x" "length x \<le> 4" "x \<noteq> y"
    and "h = mpa_put_len hdr (of_nat (length hdr + length (p @ x @ q)))"
    and "body = h @ (p @ x @ q) @ replicate (mpa_pad (length (p @ x @ q))) 0"
    and "rx (conns w (sk_fd s)) = h @ (p @ y @ q) @ replicate (mpa_pad (length (p @ x @ q))) 0
        @ le32 (htonl (crc32c body)) @ rest"
    and "ddp_get_sink h s w = Done (ret, Some (buf, off, of_nat (length (p @ x @ q))), s1)"
    and "\<not> sink_bad buf off (of_nat (length (p @ x @ q)))"
  shows "\<exists>s' w'. mpa_rd_plain_fpdu s w = Done (- EBADMSG, h, s', w') \<and> rx (conns w' (sk_fd s)) = rest"
proof -
  let ?n = "mpa_pad (length (p @ x @ q))" and ?sm = "le32 (htonl (crc32c body))"
  have l: "length (p @ y @ q) = length (p @ x @ q)" using assms(5) by simp
  have len: "length h = ddp_get_hdr_sz h" "length (p @ y @ q) < 65536" "length (replicate ?n (0 :: u8)) = mpa_pad (length (p @ y @ q))"
    "length ?sm = (if use_crc (mpask s) \<noteq> 0 then 4 else 0)"
    using put_len_hdr_sz(1) [OF assms(3)] assms(2,4,8) unfolding l by simp_all
  have "crc32c ((h @ p) @ x @ (q @ replicate ?n 0)) \<noteq> crc32c ((h @ p) @ y @ (q @ replicate ?n 0))"
    using crc32c_burst_differs [OF assms(5-7)] .
  then have bad: "crc32c (h @ (p @ y @ q) @ replicate ?n 0) \<noteq> ntohl (of_le ?sm)"
    unfolding assms(9) by (simp add: eq_commute)
  have ret: "(if use_crc (mpask s) \<noteq> 0 \<and> crc32c (h @ (p @ y @ q) @ replicate ?n 0) \<noteq> ntohl (of_le ?sm) then - EBADMSG else 0) = - EBADMSG"
    using assms(2) bad by simp
  obtain c2 sp where r: "mpa_rd_plain_fpdu s w
      = (let (s2, w2) = place buf off (p @ y @ q) s1 (set_conn (sk_fd s) c2 w)
         in Done (- EBADMSG, h, s2\<lparr>mpask := (mpask s2)\<lparr>recv_sp := sp\<rparr>\<rparr>, w2))" "rx c2 = rest"
    using mpa_rd_plain_bytes [OF assms(1,10) len assms(11,12) [folded l]] unfolding ret by blast
  obtain s2 w2 where pl: "place buf off (p @ y @ q) s1 (set_conn (sk_fd s) c2 w) = (s2, w2)" by fastforce
  then show ?thesis using r place_keeps [OF pl] by (simp add: Let_def)
qed

section \<open>Witnesses\<close>

text \<open>A send of three bytes to a socket with a buffer posted, with sums.\<close>

definition sk_send :: iwsk where
  "sk_send = sk_recv\<lparr>mpask := (mpask sk_recv)\<lparr>use_crc := 1\<rparr>\<rparr>"

definition hdr_send :: "u8 list" where
  "hdr_send = untagged_bytes ((untagged_hdr 0x43 0 0 1)\<lparr>uh_cf := 0x41\<rparr>)"

lemma hdr_send_sz: "length hdr_send = ddp_get_hdr_sz hdr_send" "length hdr_send = 20"
proof -
  have "\<not> bit (0x41 :: u8) 7" by (simp add: bit_numeral_word_iff)
  then show "length hdr_send = ddp_get_hdr_sz hdr_send" "length hdr_send = 20"
    by (simp_all add: hdr_send_def hdr_sz_untagged)
qed

lemma sk_send_simps [simp]: "sk_fd sk_send = 1" "use_crc (mpask sk_send) = 1" "use_mrkr (mpask sk_send) = 0"
  by (simp_all add: sk_send_def sk_recv_def iwsk_zero_def)

lemma hdr_send_sink:
  "ddp_get_sink (mpa_put_len hdr_send (of_nat (length hdr_send + 3))) sk_send w = Done (0, Some (User 0x100, 0, 3), sk_send)"
proof -
  have "\<not> bit (0x41 :: u8) 7" by (simp add: bit_numeral_word_iff)
  moreover have "htonl 0 = 0" by (simp add: htonl_def)
  ultimately show ?thesis
    using ddp_get_sink_send [of "(untagged_hdr 0x43 0 0 1)\<lparr>uh_cf := 0x41\<rparr>" sk_send
      "\<lparr>uw_id = 10, uw_buf = 0x100, uw_len = 64\<rparr>" "[]" 3 w] hdr_send_sz(2)
    by (simp add: untagged_hdr_def sk_send_def sk_recv_def SEND_Q_def hdr_send_def)
qed

theorem mpa_plain_round_trip_witness:
  "(\<exists>sA' cA ok. mpa_wrt_plain_fpdu hdr_send [7, 8, 9] sk_crc (world_start (\<lambda>_. conn_start []))
      = Done (ok, sA', set_conn 2 cA (world_start (\<lambda>_. conn_start []))) \<and> 0 \<le> ok \<and> tx cA = plain_fpdu True hdr_send [7, 8, 9])
    \<and> (\<exists>s' w'. mpa_rd_plain_fpdu sk_send (world_start (\<lambda>_. conn_start (plain_fpdu True hdr_send [7, 8, 9])))
        = Done (0, mpa_put_len hdr_send 23, s', w') \<and> mem w' = write_bytes (\<lambda>_. 0) 0x100 [7, 8, 9])"
proof -
  have s: "sk_fd sk_crc = 2" "use_crc (mpask sk_crc) = 1" by (simp_all add: sk_crc_def iwsk_zero_def)
  have "\<not> sink_bad (User 0x100) 0 3" by (simp add: sink_bad_def)
  from mpa_plain_round_trip [of "world_start (\<lambda>_. conn_start [])" sk_crc
      "world_start (\<lambda>_. conn_start (plain_fpdu True hdr_send [7, 8, 9]))" sk_send
      hdr_send "[7, 8, 9]" 0 "User 0x100" 0 sk_send "[]"] hdr_send_sz hdr_send_sink this s
  show ?thesis by (auto simp: place_def)
qed

theorem mpa_plain_detects_damage_witness:
  "\<exists>s' w'. mpa_rd_plain_fpdu sk_send (world_start (\<lambda>_. conn_start
      (mpa_put_len hdr_send 23 @ [7, 0, 9] @ [0] @ le32 (htonl (crc32c (mpa_put_len hdr_send 23 @ [7, 8, 9] @ [0]))))))
    = Done (- EBADMSG, mpa_put_len hdr_send 23, s', w')"
proof -
  have "\<not> sink_bad (User 0x100) 0 3" by (simp add: sink_bad_def)
  with mpa_plain_detects_damage [of "world_start (\<lambda>_. conn_start
      (mpa_put_len hdr_send 23 @ [7, 0, 9] @ [0] @ le32 (htonl (crc32c (mpa_put_len hdr_send 23 @ [7, 8, 9] @ [0])))))"
      sk_send hdr_send "[7]" "[8]" "[9]" "[0]" "mpa_put_len hdr_send 23" _ "[]" 0 "User 0x100" 0 sk_send]
    hdr_send_sz hdr_send_sink
  show ?thesis by (simp add: mpa_pad_def) blast
qed

end
