(* ===== verification/Iw_Rdmap.thy ===== *)
theory Iw_Rdmap
  imports Iw_Mpa_Recv
begin

text \<open>
  The interface of RDMAP (\<open>iwarp/rdmap.c\<close>): sockets are registered with their completion queues and named
  by their descriptor. Send, write and read keep the socket they used last, receive the one it used
  last; the pointer is kept as the descriptor of the socket, and what it points to is in the table.
\<close>

section \<open>Start and registration\<close>

text \<open>\<open>rdmap_init\<close>; the tables it fills are constants here.\<close>

definition rdmap_init :: "world \<Rightarrow> (int \<times> world) outcome" where
  "rdmap_init w = bindO (iwsk_init w) (\<lambda>w. Done (0, (mpa_init w)\<lparr>last_send_sk := None, last_recv_sk := None\<rparr>))"

text \<open>\<open>rdmap_fin\<close> frees the blocks of MPA, then the table of sockets with all that is in it.\<close>

definition rdmap_fin :: "world \<Rightarrow> (int \<times> world) outcome" where
  "rdmap_fin w =
     bindO (mpa_fin w) (\<lambda>w. bindO (iwsk_fin w) (\<lambda>w. Done (0, w\<lparr>last_send_sk := None, last_recv_sk := None\<rparr>)))"

text \<open>
  A socket that cannot be registered with MPA stays in the table, its lists not initialised. What appends
  to them or asks whether they are empty goes wrong then: the former through the null pointer, the latter
  by an error that ends the process, as a zeroed list is not the empty one.
\<close>

definition rdmap_register_sock :: "sock \<Rightarrow> nat option \<Rightarrow> nat option \<Rightarrow> world \<Rightarrow> (int \<times> world) outcome" where
  "rdmap_register_sock sk sq rq w =
     bindO (iwsk_insert sk w) (\<lambda>w.
     bindO (iwsk_lookup sk w) (\<lambda>r.
       case r of
         None \<Rightarrow> Exit
       | Some s \<Rightarrow>
           bindO (ddp_register_sock (s\<lparr>scq := sq, rcq := rq\<rparr>) w) (\<lambda>(ret, s, w).
             if ret < 0 then Done (ret, iwsk_store s w)
             else Done (0, iwsk_store (s\<lparr>lists_set := True, rdmapsk := \<lparr>send_q = [], rdmareq_q = [], term_q = [], rwrq = [], sink_msn = 1\<rparr>\<rparr>) w))))"

definition rdmap_deregister_sock :: "sock \<Rightarrow> world \<Rightarrow> (int \<times> world) outcome" where
  "rdmap_deregister_sock sk w =
     bindO (iwsk_lookup sk w) (\<lambda>r.
       case r of
         None \<Rightarrow> Done (- EINVAL, w)
       | Some s \<Rightarrow>
           if \<not> lists_set s then Exit
           else bindO (ddp_deregister_sock s w) (\<lambda>w.
           bindO (iwsk_delete sk w) (\<lambda>w.
             Done (0, w\<lparr>last_send_sk := (if last_send_sk w = Some sk then None else last_send_sk w),
                        last_recv_sk := (if last_recv_sk w = Some sk then None else last_recv_sk w)\<rparr>))))"

text \<open>The functions that look the socket up and change one of its fields.\<close>

definition with_sock :: "sock \<Rightarrow> (iwsk \<Rightarrow> iwsk) \<Rightarrow> world \<Rightarrow> (int \<times> world) outcome" where
  "with_sock sk f w =
     bindO (iwsk_lookup sk w) (\<lambda>r.
       case r of None \<Rightarrow> Done (- EINVAL, w) | Some s \<Rightarrow> Done (0, iwsk_store (f s) w))"

definition rdmap_mpa_use_markers :: "sock \<Rightarrow> int \<Rightarrow> world \<Rightarrow> (int \<times> world) outcome" where
  "rdmap_mpa_use_markers sk use = with_sock sk (\<lambda>s. s\<lparr>mpask := (mpask s)\<lparr>use_mrkr := of_int use\<rparr>\<rparr>)"

definition rdmap_mpa_use_crc :: "sock \<Rightarrow> int \<Rightarrow> world \<Rightarrow> (int \<times> world) outcome" where
  "rdmap_mpa_use_crc sk use = with_sock sk (\<lambda>s. s\<lparr>mpask := (mpask s)\<lparr>use_crc := of_int use\<rparr>\<rparr>)"

definition rdmap_set_sock_attrs :: "sock \<Rightarrow> int \<Rightarrow> int \<Rightarrow> world \<Rightarrow> (int \<times> world) outcome" where
  "rdmap_set_sock_attrs sk um uc =
     with_sock sk (\<lambda>s. s\<lparr>mpask := (mpask s)\<lparr>use_crc := of_int uc, use_mrkr := of_int um\<rparr>\<rparr>)"

definition rdmap_init_startup :: "sock \<Rightarrow> bool \<Rightarrow> u8 list option \<Rightarrow> u64 \<Rightarrow> u16 \<Rightarrow> world \<Rightarrow> (int \<times> world) outcome" where
  "rdmap_init_startup sk is_initiator pd_in pd_out rpd_len w =
     bindO (iwsk_lookup sk w) (\<lambda>r.
       case r of
         None \<Rightarrow> Done (- EINVAL, w)
       | Some s \<Rightarrow> bindO (mpa_init_startup is_initiator pd_in pd_out rpd_len s w) (\<lambda>(ret, s, w).
           Done (ret, iwsk_store s w)))"

section \<open>Work requests\<close>

text \<open>
  \<open>if (!last_send_sk || last_send_sk->sk != sock) last_send_sk = iwsk_lookup(sock)\<close>, and the structure
  it then points to. A pointer to a structure that is gone is undefined.
\<close>

definition use_send_sk :: "sock \<Rightarrow> world \<Rightarrow> (iwsk option \<times> world) outcome" where
  "use_send_sk sk w =
     (if last_send_sk w = Some sk then
        bindO (iwsk_lookup sk w) (\<lambda>r. case r of None \<Rightarrow> Exit | Some s \<Rightarrow> Done (Some s, w))
      else bindO (iwsk_lookup sk w) (\<lambda>r. Done (r, w\<lparr>last_send_sk := map_option sk_fd r\<rparr>)))"

definition use_recv_sk :: "sock \<Rightarrow> world \<Rightarrow> (iwsk option \<times> world) outcome" where
  "use_recv_sk sk w =
     (if last_recv_sk w = Some sk then
        bindO (iwsk_lookup sk w) (\<lambda>r. case r of None \<Rightarrow> Exit | Some s \<Rightarrow> Done (Some s, w))
      else bindO (iwsk_lookup sk w) (\<lambda>r. Done (r, w\<lparr>last_recv_sk := map_option sk_fd r\<rparr>)))"

definition cq_opt_full :: "nat option \<Rightarrow> world \<Rightarrow> bool" where
  "cq_opt_full q w = (case q of None \<Rightarrow> False | Some i \<Rightarrow> cq_isfull (cqs w i))"

definition cq_opt_post :: "nat option \<Rightarrow> cqe \<Rightarrow> world \<Rightarrow> world" where
  "cq_opt_post q e w = (case q of None \<Rightarrow> w | Some i \<Rightarrow> cq_post i e w)"

text \<open>The bytes at an address of the process.\<close>

definition msg_at :: "u64 \<Rightarrow> world \<Rightarrow> msg" where
  "msg_at a w = (\<lambda>i. mem w (a + i))"

definition rdmap_send :: "sock \<Rightarrow> u64 \<Rightarrow> u32 \<Rightarrow> u64 \<Rightarrow> world \<Rightarrow> (int \<times> world) outcome" where
  "rdmap_send sk msg msg_len wid w =
     (let cf = rdmap_set_OPCODE (rdmap_set_RV 0) SEND in
      bindO (use_send_sk sk w) (\<lambda>(r, w).
        case r of
          None \<Rightarrow> Done (- EINVAL, w)
        | Some s \<Rightarrow>
            if cq_opt_full (scq s) w then Done (- ENOSPC, w)
            else bindO (ddp_send_untagged (msg_at msg w) msg_len SEND_Q cf 0 s w) (\<lambda>(ret, s, w).
              let w = iwsk_store s w in
              if ret < 0 then Done (ret, w)
              else Done (0, cq_opt_post (scq s) \<lparr>cqe_op = rdmap_src_op ! unat SEND, cqe_status = 0, cqe_id = wid,
                     cqe_msg_len = msg_len\<rparr> w))))"

definition rdmap_post_recv :: "sock \<Rightarrow> u64 \<Rightarrow> u32 \<Rightarrow> u64 \<Rightarrow> world \<Rightarrow> (int \<times> world) outcome" where
  "rdmap_post_recv sk buf len wid w =
     bindO (use_recv_sk sk w) (\<lambda>(r, w).
       case r of
         None \<Rightarrow> Done (- EINVAL, w)
       | Some s \<Rightarrow>
           if cq_opt_full (rcq s) w then Done (- ENOSPC, w)
           else if \<not> lists_set s then Exit
           else let d = \<lparr>uw_id = wid, uw_buf = buf, uw_len = ucast len\<rparr>;
                    s = s\<lparr>rdmapsk := (rdmapsk s)\<lparr>send_q := send_q (rdmapsk s) @ [d]\<rparr>\<rparr>
                in Done (0, iwsk_store s w))"

definition rdmap_rdma_write :: "sock \<Rightarrow> stag \<Rightarrow> u64 \<Rightarrow> u64 \<Rightarrow> u32 \<Rightarrow> u64 \<Rightarrow> world \<Rightarrow> (int \<times> world) outcome" where
  "rdmap_rdma_write sk stag to msg msg_len wid w =
     (let cf = rdmap_set_OPCODE (rdmap_set_RV 0) RDMA_WRITE in
      bindO (use_send_sk sk w) (\<lambda>(r, w).
        case r of
          None \<Rightarrow> Done (- EINVAL, w)
        | Some s \<Rightarrow>
            if cq_opt_full (scq s) w then Done (- ENOSPC, w)
            else bindO (ddp_send_tagged (msg_at msg w) msg_len cf stag to s w) (\<lambda>(ret, s, w).
              let w = iwsk_store s w in
              if ret < 0 then Done (ret, w)
              else Done (0, cq_opt_post (scq s) \<lparr>cqe_op = rdmap_src_op ! unat RDMA_WRITE, cqe_status = 0, cqe_id = wid,
                     cqe_msg_len = msg_len\<rparr> w))))"

definition rdmap_rdma_read :: "sock \<Rightarrow> stag \<Rightarrow> u64 \<Rightarrow> u32 \<Rightarrow> stag \<Rightarrow> u64 \<Rightarrow> u64 \<Rightarrow> world \<Rightarrow> (int \<times> world) outcome" where
  "rdmap_rdma_read sk sink_stag sink_to rdma_rd_sz src_stag src_to wid w =
     (let h = \<lparr>rr_sink_stag = sink_stag, rr_sink_to = sink_to, rr_rd_sz = rdma_rd_sz, rr_src_stag = src_stag,
               rr_src_to = src_to\<rparr>;
          cf = rdmap_set_OPCODE (rdmap_set_RSVD (rdmap_set_RV 0)) RDMA_READ_REQ in
      bindO (use_send_sk sk w) (\<lambda>(r, w).
        case r of
          None \<Rightarrow> Done (- EINVAL, w)
        | Some s \<Rightarrow>
            if cq_opt_full (scq s) w then Done (- ENOSPC, w)
            else if \<not> lists_set s then Exit
            else let d = \<lparr>tw_id = wid, tw_stag = sink_stag, tw_complete = False, tw_len = 0\<rparr>;
                     s = s\<lparr>rdmapsk := (rdmapsk s)\<lparr>rwrq := rwrq (rdmapsk s) @ [d]\<rparr>\<rparr>
                 in bindO (ddp_send_untagged (\<lambda>i. rd_req_bytes h ! unat i) 32 RDMAREQ_Q cf 0 s w) (\<lambda>(ret, s, w).
                      let w = iwsk_store s w in if ret < 0 then Done (ret, w) else Done (0, w))))"

text \<open>\<open>rdmap_poll\<close> is \<open>mpa_poll_generic\<close> without waiting.\<close>

definition rdmap_poll :: "int \<Rightarrow> bool \<Rightarrow> bool list \<Rightarrow> world \<Rightarrow> (int \<times> world) outcome" where
  "rdmap_poll = mpa_poll_generic"

section \<open>What the layers leave alone\<close>

text \<open>
  The layers below change the structure they are given, but not its descriptor, nor the table and the
  sockets used last; they leave completion queues well formed, and write to memory only at the addresses
  \<open>A\<close>: none, except where a payload is placed.
\<close>

definition api_keeps :: "u64 set \<Rightarrow> iwsk \<Rightarrow> world \<Rightarrow> iwsk \<Rightarrow> world \<Rightarrow> bool" where
  "api_keeps A s w s' w' \<longleftrightarrow> sk_fd s' = sk_fd s \<and> iwht w' = iwht w \<and> last_send_sk w' = last_send_sk w
     \<and> last_recv_sk w' = last_recv_sk w \<and> mm w' = mm w \<and> (\<forall>a. mem w' a \<noteq> mem w a \<longrightarrow> a \<in> A)
     \<and> ((\<forall>q. cq_inv (cqs w q)) \<longrightarrow> (\<forall>q. cq_inv (cqs w' q)))"

lemma api_keeps_refl [simp]: "api_keeps A s w s w"
  by (simp add: api_keeps_def)

lemma api_keeps_trans: "api_keeps A s w s' w' \<Longrightarrow> api_keeps A s' w' s'' w'' \<Longrightarrow> api_keeps A s w s'' w''"
  unfolding api_keeps_def by metis

lemma send_keeps_api: "send_keeps s w s' w' \<Longrightarrow> api_keeps A s w s' w'"
  by (simp add: send_keeps_def api_keeps_def)

lemma cq_produce_inv: "cq_inv q \<Longrightarrow> cq_inv (snd (cq_produce e q))"
  by (auto simp: cq_produce_def cq_inv_def Let_def next_index_cases)

lemma cq_post_inv: "\<forall>q. cq_inv (cqs w q) \<Longrightarrow> \<forall>q. cq_inv (cqs (cq_post i e w) q)"
  by (simp add: cq_produce_inv)

lemma cq_post_keeps [simp]: "api_keeps A s w s (cq_post i e w)"
  using cq_post_inv by (simp add: api_keeps_def)

lemma api_keeps_fields:
  "sk_fd s' = sk_fd s \<Longrightarrow> iwht w' = iwht w \<Longrightarrow> last_send_sk w' = last_send_sk w \<Longrightarrow> last_recv_sk w' = last_recv_sk w
   \<Longrightarrow> cqs w' = cqs w \<Longrightarrow> mm w' = mm w \<Longrightarrow> mem w' = mem w \<Longrightarrow> api_keeps A s w s' w'"
  by (simp add: api_keeps_def)

lemma api_keeps_upd [simp]:
  "api_keeps A (s\<lparr>ddpsk := d\<rparr>) w s' w' = api_keeps A s w s' w'"
  "api_keeps A s w (s'\<lparr>ddpsk := d\<rparr>) w' = api_keeps A s w s' w'"
  "api_keeps A s w s' (w'\<lparr>rdma_write_count := n\<rparr>) = api_keeps A s w s' w'"
  "api_keeps A s w (s'\<lparr>mpask := m\<rparr>) w' = api_keeps A s w s' w'"
  "api_keeps A s w (s'\<lparr>rdmapsk := r\<rparr>) w' = api_keeps A s w s' w'"
  "api_keeps A s w s' (w'\<lparr>mpa_recv_cntr := n\<rparr>) = api_keeps A s w s' w'"
  "api_keeps A s w s' (set_conn fd c w') = api_keeps A s w s' w'"
  "api_keeps A s w s' (store_mrkr k mk w') = api_keeps A s w s' w'"
  "api_keeps A (s\<lparr>mpask := m\<rparr>) w s' w' = api_keeps A s w s' w'"
  "api_keeps A s (set_conn fd c w) s' w' = api_keeps A s w s' w'"
  "api_keeps A s (store_mrkr k mk w) s' w' = api_keeps A s w s' w'"
  "api_keeps A s (w\<lparr>mpa_recv_cntr := n\<rparr>) s' w' = api_keeps A s w s' w'"
  by (simp_all add: api_keeps_def store_mrkr_def set_conn_def)

lemma sock_read_keeps: "sock_read fd n w = Done (bs, w') \<Longrightarrow> \<exists>c. w' = set_conn fd c w"
  by (auto simp: sock_read_def Let_def outcome_simps)

lemma sock_readv_keeps: "sock_readv fd vec n old w = Done (bs, w') \<Longrightarrow> \<exists>c. w' = set_conn fd c w"
  by (auto simp: sock_readv_def Let_def outcome_simps)

lemma sock_write_keeps: "sock_write fd bs w = Done (ret, w') \<Longrightarrow> \<exists>c. w' = set_conn fd c w"
  by (auto simp: sock_write_def Let_def outcome_simps)

lemma api_keeps_mem [simp]: "api_keeps UNIV s w s' (w'\<lparr>mem := mm'\<rparr>) = api_keeps UNIV s w s' w'"
  by (simp add: api_keeps_def)

lemma mpa_init_startup_keeps: "okO (\<lambda>(ret, s', w'). api_keeps UNIV s w s' w') (mpa_init_startup i pd out rpd s w)"
  unfolding mpa_init_startup_def
  by (intro okO_intros) (auto dest!: sock_read_keeps sock_write_keeps)

lemma mpa_send_api: "mpa_send hdr pl s w = Done (r, s', w') \<Longrightarrow> api_keeps A s w s' w'"
  by (rule send_keeps_api [OF mpa_send_keeps])

lemma untagged_loop_keeps: "okO (\<lambda>(ret, s', w'). api_keeps A s w s' w') (untagged_loop n m len h mo s w)"
proof (induction n arbitrary: h mo s w)
  case (Suc n)
  have "okO (\<lambda>(ret, s', w'). api_keeps A s w s' w') (untagged_loop n m len h mo s1 w1)"
    if "api_keeps A s w s1 w1" for h mo s1 w1
    using Suc.IH by (rule okO_mono) (use that in \<open>auto intro: api_keeps_trans\<close>)
  note IH = this
  show ?case unfolding untagged_loop.simps by (intro okO_intros IH) (auto dest: mpa_send_api)
qed (simp add: okO_def)

lemma tagged_loop_keeps: "okO (\<lambda>(ret, s', w'). api_keeps A s w s' w') (tagged_loop n m len to h off s w)"
proof (induction n arbitrary: h off s w)
  case (Suc n)
  have "okO (\<lambda>(ret, s', w'). api_keeps A s w s' w') (tagged_loop n m len to h off s1 w1)"
    if "api_keeps A s w s1 w1" for h off s1 w1
    using Suc.IH by (rule okO_mono) (use that in \<open>auto intro: api_keeps_trans\<close>)
  note IH = this
  show ?case unfolding tagged_loop.simps by (intro okO_intros IH) (auto dest: mpa_send_api)
qed (simp add: okO_def)

lemma ddp_send_untagged_keeps: "okO (\<lambda>(ret, s', w'). api_keeps A s w s' w') (ddp_send_untagged m n qn c p s w)"
  unfolding ddp_send_untagged_def
  by (intro okO_intros okO_bind [OF untagged_loop_keeps]) (auto simp: api_keeps_def)

lemma ddp_send_tagged_keeps: "okO (\<lambda>(ret, s', w'). api_keeps A s w s' w') (ddp_send_tagged m n c st to s w)"
  unfolding ddp_send_tagged_def by (intro okO_intros tagged_loop_keeps)

lemma rdmap_untag_recv_keeps: "okO (\<lambda>(s', w'). api_keeps A s w s' w') (rdmap_untag_recv cf qn len s w)"
proof -
  have post: "okO (\<lambda>w'. api_keeps A s w s w') (case rcq s of None \<Rightarrow> Done w
      | Some q \<Rightarrow> bindO (table_at rdmap_sink_op cf) (\<lambda>op. Done (cq_post q (e op) w)))" for e
    by (intro okO_intros) simp_all
  show ?thesis
    unfolding rdmap_untag_recv_def Let_def
    by (intro okO_intros okO_bind [OF post] okO_bind [OF ddp_send_tagged_keeps])
       (auto simp: api_keeps_def)
qed

lemma reap_loop_keeps: "okO (\<lambda>(ds', w'). api_keeps A s w s w') (reap_loop cf ds s w)"
proof (induction ds arbitrary: w)
  case (Cons d ds)
  have IH: "okO (\<lambda>(ds', w'). api_keeps A s w s w') (reap_loop cf ds s w1)" if "api_keeps A s w s w1" for w1
    using Cons.IH by (rule okO_mono) (use that in \<open>auto intro: api_keeps_trans\<close>)
  show ?case unfolding reap_loop.simps by (intro okO_intros IH) simp_all
qed (simp add: okO_def)

lemma rdmap_tag_recv_keeps: "okO (\<lambda>(s', w'). api_keeps A s w s' w') (rdmap_tag_recv cf stag len s w)"
  unfolding rdmap_tag_recv_def rdmap_reap_rwr_def Let_def
  by (intro okO_intros okO_bind [OF reap_loop_keeps]) (auto simp: api_keeps_def)

lemma ddp_process_ulpdu_keeps: "okO (\<lambda>(s', w'). api_keeps A s w s' w') (ddp_process_ulpdu hdr s w)"
proof -
  have t: "okO (\<lambda>(s', w'). api_keeps A s w s' w') (rdmap_tag_recv cf stag len (s\<lparr>ddpsk := d\<rparr>) w)"
    and u: "okO (\<lambda>(s', w'). api_keeps A s w s' w') (rdmap_untag_recv cf qn len (s\<lparr>ddpsk := d\<rparr>) w)" for cf stag len d qn
    using rdmap_tag_recv_keeps [of A "s\<lparr>ddpsk := d\<rparr>"] rdmap_untag_recv_keeps [of A "s\<lparr>ddpsk := d\<rparr>"]
    by (simp_all add: api_keeps_upd)
  show ?thesis
    unfolding ddp_process_ulpdu_def
    by (intro okO_intros okO_bind [OF t] okO_bind [OF u]) (auto simp: api_keeps_upd)
qed

lemma ddp_get_sink_api: "ddp_get_sink hdr s w = Done (ret, b, s') \<Longrightarrow> api_keeps A s w s' w"
  using ddp_get_sink_keeps by (simp add: api_keeps_def)

lemma place_api:
  assumes "place b off bs s w = (s', w')" "\<And>a x. b = User a \<Longrightarrow> unat (x - (a + off)) < length bs \<Longrightarrow> x \<in> A"
  shows "api_keeps A s w s' w'"
proof (cases b)
  case (User a)
  have "x \<in> A" if "write_bytes (mem w) (a + off) bs x \<noteq> mem w x" for x
    using that write_bytes_outside [of bs x "a + off" "mem w"] assms(2) [OF User] by force
  with assms(1) User show ?thesis by (auto simp: place_def api_keeps_def)
qed (use assms(1) in \<open>auto simp: place_def api_keeps_def Let_def\<close>)

text \<open>The placements of the next frame go to \<open>A\<close>, whatever its header is.\<close>

definition sinks_in :: "u64 set \<Rightarrow> iwsk \<Rightarrow> world \<Rightarrow> bool" where
  "sinks_in A s w \<longleftrightarrow> (\<forall>hdr w1 r a off len s1. mm w1 = mm w \<longrightarrow>
     ddp_get_sink hdr s w1 = Done (r, Some (User a, off, len), s1) \<longrightarrow> \<not> sink_bad (User a) off len \<longrightarrow>
     (\<forall>x. unat (x - (a + off)) < unat len \<longrightarrow> x \<in> A))"

lemma sinks_in_UNIV [simp]: "sinks_in UNIV s w"
  by (simp add: sinks_in_def)

lemma sinks_in_place:
  assumes "sinks_in A s w" "ddp_get_sink hdr s w1 = Done (r, Some (b, off, len), s1)" "\<not> sink_bad b off len"
    "api_keeps A s w s w1" "place b off bs s2 w2 = (s3, w3)" "length bs \<le> unat len"
  shows "api_keeps A s2 w2 s3 w3"
proof (rule place_api [OF assms(5)])
  fix a x assume b: "b = User a" and x: "unat (x - (a + off)) < length bs"
  have "mm w1 = mm w" using assms(4) by (simp add: api_keeps_def)
  moreover have "unat (x - (a + off)) < unat len" using x assms(6) by simp
  ultimately show "x \<in> A"
    using assms(1) [unfolded sinks_in_def, rule_format, OF _ assms(2) [unfolded b] assms(3) [unfolded b]] by blast
qed

lemma sinks_in_placed:
  assumes "ddp_get_sink hdr s w1 = Done (r, Some (b, off, len), s1)" "\<not> sink_bad b off len" "sinks_in A s w"
    "api_keeps A s w s w1" "place b off (take (unat len) bs) s1 w2 = (s3, w3)" "api_keeps A s w s w2"
  shows "api_keeps A s w s3 w3"
proof -
  have "api_keeps A s1 w2 s3 w3" by (rule sinks_in_place [OF assms(3,1,2,4,5)]) simp
  moreover have "api_keeps A s w s1 w2"
    using assms(6) ddp_get_sink_api [OF assms(1)] by (simp add: api_keeps_def)
  ultimately show ?thesis by (rule api_keeps_trans [rotated])
qed

lemma mpa_rd_plain_keeps:
  assumes "sinks_in A s w"
  shows "okO (\<lambda>(ret, hdr, s', w'). api_keeps A s w s' w') (mpa_rd_plain_fpdu s w)"
  unfolding mpa_rd_plain_fpdu_def
  by (intro okO_intros)
     (auto dest!: sock_read_keeps sock_readv_keeps elim!: sinks_in_placed [OF _ _ assms])

text \<open>The payload blocks of a vector add up to the length of the payload.\<close>

fun payld_sum :: "blk list \<Rightarrow> nat" where
  "payld_sum [] = 0"
| "payld_sum (Payld n # v) = n + payld_sum v"
| "payld_sum (_ # v) = payld_sum v"

lemma payld_sum_append [simp]: "payld_sum (u @ v) = payld_sum u + payld_sum v"
  by (induction u rule: payld_sum.induct) auto

lemma split_blks_payld: "length (fst (split_blks v bs)) \<le> payld_sum v"
proof (induction v arbitrary: bs)
  case (Cons b v)
  obtain p ms where r: "split_blks v (drop (blk_len b) bs) = (p, ms)" by fastforce
  with Cons.IH [of "drop (blk_len b) bs"] have "length p \<le> payld_sum v" by simp
  with r show ?case by (cases b) (auto simp: Let_def min_def)
qed simp

lemma rd_layout_0 [simp]: "rd_layout pad 0 cp mp midx = ([], cp, mp, midx)"
  by (subst rd_layout.simps) simp

lemma rd_layout_payld: "payld_sum (fst (rd_layout pad pl cp mp midx)) = unat pl"
proof (induction pad pl cp mp midx rule: rd_layout.induct)
  case (1 pad pl cp mp midx)
  define ln where "ln = (if mp - cp > pl then pl else mp - cp)"
  have "ln \<le> pl" by (auto simp: ln_def)
  then have sum: "unat ln + unat (pl - ln) = unat pl" by (simp add: unat_sub word_le_nat_alt)
  show ?case
  proof (cases "pl = 0 \<or> pl = ln")
    case True
    then have "pl = 0 \<or> (if mp - cp > pl then pl else mp - cp) = pl" by (auto simp: ln_def)
    then show ?thesis by (subst rd_layout.simps) (auto simp: Let_def)
  next
    case False
    have "payld_sum (fst (rd_layout pad (pl - ln) (cp + ln + 4) (mp + 512) (Suc midx))) = unat (pl - ln)" if "cp + ln = mp"
      using 1 [OF _ refl ln_def refl refl refl refl _ refl _ _ _] False that by auto
    moreover have "payld_sum (fst (rd_layout pad (pl - ln) (cp + ln) mp midx)) = unat (pl - ln)" if "cp + ln \<noteq> mp"
      using 1 [OF _ refl ln_def refl refl refl refl _ refl _ _ _] False that by auto
    ultimately show ?thesis
      using False sum by (subst rd_layout.simps) (simp add: Let_def case_prod_unfold flip: ln_def)
  qed
qed

lemma store_mrkrs_keeps [simp]:
  "api_keeps A s w s' (store_mrkrs i ms w') = api_keeps A s w s' w'" "api_keeps A s (store_mrkrs i ms w) s' w' = api_keeps A s w s' w'"
  by (induction ms arbitrary: i w w') auto

lemma mpa_read_mrkr_keeps: "mpa_read_mrkr s k cp mp w = Done (m, k', cp', mp', w') \<Longrightarrow> api_keeps A s w s w'"
  by (auto simp: mpa_read_mrkr_def outcome_simps dest!: sock_read_keeps)

lemma rd_mrkr_hdr_keeps: "okO (\<lambda>(raw, hdr, ms, k, cp, mp', w'). api_keeps A s w s w') (rd_mrkr_hdr s mp w)"
proof -
  have pre: "okO (\<lambda>(pre, ms, k, cp, mp', w'). api_keeps A s w s w')
    (if mp = 0 then bindO (mpa_read_mrkr s 0 0 mp w) (\<lambda>(m, midx, cp, mp, w). Done (m, [m], midx, cp, mp, w))
     else Done ([], [], 0, 0, mp, w))"
    by (intro okO_intros) (auto dest: mpa_read_mrkr_keeps)
  show ?thesis
    unfolding rd_mrkr_hdr_def Let_def
    by (intro okO_bind [OF pre] okO_intros)
       (auto dest!: sock_read_keeps mpa_read_mrkr_keeps intro: api_keeps_trans)
qed

lemma rd_mrkr_payld_keeps:
  assumes "\<And>p s2 w2 s3 w3. length p \<le> n \<Longrightarrow> place buf off p s2 w2 = (s3, w3) \<Longrightarrow> api_keeps A s2 w2 s3 w3"
    and "n < 2 ^ 32"
  shows "okO (\<lambda>(ret, hdr, s', w'). api_keeps A s w s' w') (rd_mrkr_payld hdr ms midx cp mp mk sp buf off n s w)"
proof -
  have n: "length p \<le> n" if "rd_layout pad (of_nat n) cp mp midx = (v, r)" "split_blks v bs = (p, ms')" for v r bs p ms' pad
    using that rd_layout_payld [of pad "of_nat n" cp mp midx] split_blks_payld [of v bs] assms(2)
    by (simp add: unat_of_nat)
  show ?thesis
    unfolding rd_mrkr_payld_def
    by (intro okO_intros) (auto dest!: sock_readv_keeps assms(1) [OF n, rotated 2])
qed

lemma mpa_recv_keeps:
  assumes "sinks_in A s w"
  shows "okO (\<lambda>(ret, s', w'). api_keeps A s w s' w') (mpa_recv s w)"
proof -
  have p: "okO (\<lambda>(ret, hdr, s', w'). api_keeps A s w s' w')
      (rd_mrkr_payld hdr ms midx cp mp mk sp buf off (unat len) s1 w1)"
    if "ddp_get_sink hdr s w1 = Done (r, Some (buf, off, len), s1)" "\<not> sink_bad buf off len" "api_keeps A s w s w1"
    for hdr ms midx cp mp mk sp buf off len s1 w1 r
  proof (rule okO_mono [OF rd_mrkr_payld_keeps])
    show "api_keeps A s2 w2 s3 w3" if "length p \<le> unat len" "place buf off p s2 w2 = (s3, w3)" for p s2 w2 s3 w3
      by (rule sinks_in_place [OF assms \<open>ddp_get_sink hdr s w1 = _\<close> \<open>\<not> sink_bad buf off len\<close> \<open>api_keeps A s w s w1\<close>
        that(2,1)])
    show "unat len < 2 ^ 32" using that(2) by (simp add: sink_bad_def word_less_nat_alt not_le)
  qed (use ddp_get_sink_api [OF that(1)] that(3) in \<open>auto intro: api_keeps_trans\<close>)
  have m: "okO (\<lambda>(ret, hdr, s', w'). api_keeps A s w s' w') (mpa_rd_mrkr_fpdu s w)"
    unfolding mpa_rd_mrkr_fpdu_def Let_def
    by (intro okO_bind [OF rd_mrkr_hdr_keeps [of A]] okO_intros)
      (auto intro: p dest: ddp_get_sink_api intro: api_keeps_trans)
  have "okO (\<lambda>(ret, hdr, s', w'). api_keeps A s w s' w')
      (if use_mrkr (mpask s) \<noteq> 0 then mpa_rd_mrkr_fpdu s w else mpa_rd_plain_fpdu s w)"
    using m mpa_rd_plain_keeps [OF assms] by simp
  then show ?thesis
    unfolding mpa_recv_def
    by (rule okO_bind) (auto intro!: okO_intros dest: okO_D [OF ddp_process_ulpdu_keeps] intro: api_keeps_trans)
qed

section \<open>Reachable states\<close>

text \<open>
  The states of the interface: the table is well formed, the sockets used last are registered, every
  completion queue is well formed, and so are the tables of memory regions and tags.
\<close>

definition api_inv :: "world \<Rightarrow> bool" where
  "api_inv w \<longleftrightarrow> table_ok w \<and> (\<forall>k. last_send_sk w = Some k \<longrightarrow> sk_map w k \<noteq> None)
     \<and> (\<forall>k. last_recv_sk w = Some k \<longrightarrow> sk_map w k \<noteq> None) \<and> (\<forall>q. cq_inv (cqs w q)) \<and> mem_inv (mm w)"

lemma api_inv_keeps:
  "api_inv w \<Longrightarrow> api_keeps A s w s' w' \<Longrightarrow> api_inv w'"
  by (simp add: api_inv_def api_keeps_def table_ok_def sk_map_def)

lemma table_ok_ht: "table_ok w \<Longrightarrow> ht_inv (iwht w)"
  by (simp add: table_ok_def)

lemma api_inv_store: "api_inv w \<Longrightarrow> api_inv (iwsk_store s w)"
  using table_ok_store [of w s] by (simp add: api_inv_def sk_map_store table_ok_ht)

lemma use_send_sk_eq:
  assumes "api_inv w"
  shows "use_send_sk sk w = Done (sk_map w sk, w\<lparr>last_send_sk := if sk_map w sk = None then None else Some sk\<rparr>)"
proof -
  have l: "iwsk_lookup sk w = Done (sk_map w sk)" and fd: "\<And>s. sk_map w sk = Some s \<Longrightarrow> sk_fd s = sk"
    and used: "last_send_sk w = Some sk \<Longrightarrow> sk_map w sk \<noteq> None"
    using assms iwsk_lookup_map [of w sk] by (simp_all add: api_inv_def table_ok_def)
  show ?thesis using fd used by (cases "sk_map w sk") (auto simp: use_send_sk_def l)
qed

lemma use_recv_sk_eq:
  assumes "api_inv w"
  shows "use_recv_sk sk w = Done (sk_map w sk, w\<lparr>last_recv_sk := if sk_map w sk = None then None else Some sk\<rparr>)"
proof -
  have l: "iwsk_lookup sk w = Done (sk_map w sk)" and fd: "\<And>s. sk_map w sk = Some s \<Longrightarrow> sk_fd s = sk"
    and used: "last_recv_sk w = Some sk \<Longrightarrow> sk_map w sk \<noteq> None"
    using assms iwsk_lookup_map [of w sk] by (simp_all add: api_inv_def table_ok_def)
  show ?thesis using fd used by (cases "sk_map w sk") (auto simp: use_recv_sk_def l)
qed

lemma api_inv_used:
  "api_inv w \<Longrightarrow> api_inv (w\<lparr>last_send_sk := if sk_map w sk = None then None else Some sk\<rparr>)"
  "api_inv w \<Longrightarrow> api_inv (w\<lparr>last_recv_sk := if sk_map w sk = None then None else Some sk\<rparr>)"
  by (simp_all add: api_inv_def table_ok_def sk_map_def)

lemma use_send_sk_inv: "api_inv w \<Longrightarrow> okO (\<lambda>(r, w'). api_inv w') (use_send_sk sk w)"
  by (simp add: use_send_sk_eq okO_def api_inv_used)

lemma use_recv_sk_inv: "api_inv w \<Longrightarrow> okO (\<lambda>(r, w'). api_inv w') (use_recv_sk sk w)"
  by (simp add: use_recv_sk_eq okO_def api_inv_used)

lemma cq_opt_post_inv: "api_inv w \<Longrightarrow> api_inv (cq_opt_post q e w)"
  using cq_post_inv [of w] by (auto simp: cq_opt_post_def api_inv_def table_ok_def sk_map_def split: option.splits)

lemma layer_inv:
  assumes "api_inv w" "okO (\<lambda>(ret, s', w'). api_keeps A s w s' w') m"
  shows "okO (\<lambda>(ret, s', w'). api_inv w') m"
  using assms(2) by (rule okO_mono) (auto intro: api_inv_keeps [OF assms(1)])

lemma with_sock_inv: "api_inv w \<Longrightarrow> okO (\<lambda>(ret, w'). api_inv w') (with_sock sk f w)"
  unfolding with_sock_def by (intro okO_intros) (simp_all add: api_inv_store)

lemma rdmap_send_inv: "api_inv w \<Longrightarrow> okO (\<lambda>(ret, w'). api_inv w') (rdmap_send sk m len wid w)"
  unfolding rdmap_send_def
  by (intro okO_intros okO_bind [OF use_send_sk_inv] okO_bind [OF layer_inv [OF _ ddp_send_untagged_keeps]])
     (auto simp: api_inv_store intro!: cq_opt_post_inv api_inv_store)

lemma rdmap_post_recv_inv: "api_inv w \<Longrightarrow> okO (\<lambda>(ret, w'). api_inv w') (rdmap_post_recv sk b n wid w)"
  unfolding rdmap_post_recv_def
  by (intro okO_intros okO_bind [OF use_recv_sk_inv]) (auto simp: api_inv_store)

lemma rdmap_rdma_write_inv: "api_inv w \<Longrightarrow> okO (\<lambda>(ret, w'). api_inv w') (rdmap_rdma_write sk st to m n wid w)"
  unfolding rdmap_rdma_write_def
  by (intro okO_intros okO_bind [OF use_send_sk_inv] okO_bind [OF layer_inv [OF _ ddp_send_tagged_keeps]])
     (auto simp: api_inv_store intro!: cq_opt_post_inv api_inv_store)

lemma rdmap_rdma_read_inv: "api_inv w \<Longrightarrow> okO (\<lambda>(ret, w'). api_inv w') (rdmap_rdma_read sk st to n ss sto wid w)"
  unfolding rdmap_rdma_read_def
  by (intro okO_intros okO_bind [OF use_send_sk_inv] okO_bind [OF layer_inv [OF _ ddp_send_untagged_keeps]])
     (auto simp: api_inv_store)

lemma rdmap_init_startup_inv: "api_inv w \<Longrightarrow> okO (\<lambda>(ret, w'). api_inv w') (rdmap_init_startup sk i pd out rpd w)"
  unfolding rdmap_init_startup_def
  by (intro okO_intros okO_bind [OF layer_inv [OF _ mpa_init_startup_keeps]]) (auto simp: api_inv_store)

lemma poll_loop_inv: "api_inv w \<Longrightarrow> okO (\<lambda>(ret, w'). api_inv w') (poll_loop n sks w)"
proof (induction sks arbitrary: n w)
  case (Cons p sks)
  show ?case
    by (cases p) (auto intro!: okO_intros Cons.IH Cons.prems okO_bind [OF layer_inv [OF Cons.prems mpa_recv_keeps [OF sinks_in_UNIV]]]
      simp: api_inv_store split del: if_split)
qed (auto intro: okO_intros)

lemma rdmap_poll_inv: "api_inv w \<Longrightarrow> okO (\<lambda>(ret, w'). api_inv w') (rdmap_poll answer eintr ready w)"
  unfolding rdmap_poll_def mpa_poll_generic_def by (intro okO_intros poll_loop_inv) auto

lemma iwsk_insert_inv: "api_inv w \<Longrightarrow> okO api_inv (iwsk_insert sk w)"
proof -
  assume inv: "api_inv w"
  then have t: "table_ok w" and ht: "ht_inv (iwht w)" by (simp_all add: api_inv_def table_ok_ht)
  show ?thesis
  proof (cases "sk_map w sk")
    case None
    with ht.ins_new [OF ht, of sk "iwsk_zero sk"] obtain t' where t':
      "ht_insert (iwht w) sk (iwsk_zero sk) = Done t'" "ht_inv t'" "ht_map t' = (sk_map w)(sk \<mapsto> iwsk_zero sk)"
      by (auto simp: sk_map_def)
    have "api_inv (w\<lparr>iwht := t'\<rparr>)"
      using inv t t' by (auto simp: api_inv_def table_ok_def sk_map_def iwsk_zero_def)
    with t' show ?thesis by (simp add: iwsk_insert_def okO_def)
  next
    case (Some s)
    with ht.ins_dup [OF ht] show ?thesis by (simp add: iwsk_insert_def okO_def sk_map_def)
  qed
qed

lemma ddp_register_sock_keeps: "okO (\<lambda>(ret, s', w'). api_keeps A s w s' w') (ddp_register_sock s w)"
  unfolding ddp_register_sock_def mpa_register_sock_def
  by (intro okO_intros) (auto simp: outcome_simps Let_def api_keeps_def split: option.splits if_splits)

lemma rdmap_register_sock_inv: "api_inv w \<Longrightarrow> okO (\<lambda>(ret, w'). api_inv w') (rdmap_register_sock sk sq rq w)"
  unfolding rdmap_register_sock_def
  by (intro okO_bind [OF iwsk_insert_inv] okO_intros okO_bind [OF layer_inv [OF _ ddp_register_sock_keeps]])
     (auto simp: api_inv_store)

lemma rdmap_deregister_sock_inv: "api_inv w \<Longrightarrow> okO (\<lambda>(ret, w'). api_inv w') (rdmap_deregister_sock sk w)"
proof -
  assume inv: "api_inv w"
  show ?thesis
    unfolding rdmap_deregister_sock_def
  proof (intro okO_intros)
    fix r assume "iwsk_lookup sk w = Done r" "r = None"
    with inv show "case (- EINVAL, w) of (ret, w') \<Rightarrow> api_inv w'" by simp
  next
    fix r s w1 w2
    assume d: "ddp_deregister_sock s w = Done w1" "iwsk_delete sk w1 = Done w2"
    from d(1) have k: "api_keeps A s w s w1"
      by (auto simp: ddp_deregister_sock_def mpa_deregister_sock_def Let_def api_keeps_def split: if_splits)
    with inv have inv1: "api_inv w1" by (rule api_inv_keeps)
    then have ht: "ht_inv (iwht w1)" by (simp add: api_inv_def table_ok_ht)
    obtain b t where del: "ht_delete (iwht w1) sk = Done (b, t)" "w2 = w1\<lparr>iwht := t\<rparr>"
      using d(2) by (auto simp: iwsk_delete_def outcome_simps)
    with ht.del_none [OF ht, of sk] obtain v where "ht_map (iwht w1) sk = Some v" by fastforce
    from ht.del_old [OF ht this] del have t: "ht_inv t" "ht_map t = (ht_map (iwht w1))(sk := None)" by auto
    with inv1 show "case (0, w2\<lparr>last_send_sk := if last_send_sk w2 = Some sk then None else last_send_sk w2,
        last_recv_sk := if last_recv_sk w2 = Some sk then None else last_recv_sk w2\<rparr>) of (ret, w') \<Rightarrow> api_inv w'"
      by (auto simp: del api_inv_def table_ok_def sk_map_def)
  qed
qed

lemma mem_stag_destroy_inv:
  assumes "mem_inv m" "avl_room (stag_avl m)"
  shows "okO (\<lambda>(ret, m'). mem_inv m') (mem_stag_destroy stag m)"
proof (cases "\<exists>sd\<in>mem_live m. sd_stag sd = stag")
  case True
  then obtain sd where sd: "sd \<in> mem_live m" "sd_stag sd = stag" by auto
  show ?thesis
  proof (cases "fst (sd_mr sd) = mem_region_id m")
    case True
    from mem_stag_destroy_ok [OF assms sd this] obtain m' where "mem_stag_destroy stag m = Done (0, m')" "mem_inv m'"
      by blast
    then show ?thesis by (simp add: okO_def)
  next
    case False
    then have "mr_from_md (sd_mr sd) m = None" by (simp add: mr_from_md_def)
    moreover have t: "tags_ok m" using assms by (simp add: mem_inv_def)
    moreover have "avl_find (stag_avl m) (sdtest stag) = Some sd" using mem_find_iff [OF t] sd by simp
    with avl_delete_old [OF _ assms(2) this, of stag_key low_stags] t
    obtain tree where "avl_delete (stag_avl m) (sdtest stag) = Done (Some sd, tree)"
      by (auto simp: tags_ok_def)
    ultimately show ?thesis by (simp add: mem_stag_destroy_def okO_def)
  qed
next
  case False
  with mem_stag_destroy_unknown [OF assms] assms show ?thesis by (simp add: okO_def)
qed

text \<open>
  What may happen: a call of the interface that comes back, the application using its memory, its
  queues and the tables of regions and tags, the network delivering bytes. A tag is created on a region
  that is in use (the code does not look at \<open>valid\<close>), and within the bounds of the tree and the counter.
\<close>

inductive api_step :: "world \<Rightarrow> world \<Rightarrow> bool" where
  register: "rdmap_register_sock sk sq rq w = Done (r, w') \<Longrightarrow> api_step w w'"
| deregister: "rdmap_deregister_sock sk w = Done (r, w') \<Longrightarrow> api_step w w'"
| use_markers: "rdmap_mpa_use_markers sk u w = Done (r, w') \<Longrightarrow> api_step w w'"
| use_sums: "rdmap_mpa_use_crc sk u w = Done (r, w') \<Longrightarrow> api_step w w'"
| attrs: "rdmap_set_sock_attrs sk um uc w = Done (r, w') \<Longrightarrow> api_step w w'"
| startup: "rdmap_init_startup sk i pd out rpd w = Done (r, w') \<Longrightarrow> api_step w w'"
| send: "rdmap_send sk m n wid w = Done (r, w') \<Longrightarrow> api_step w w'"
| post_recv: "rdmap_post_recv sk b n wid w = Done (r, w') \<Longrightarrow> api_step w w'"
| rdma_write: "rdmap_rdma_write sk st to m n wid w = Done (r, w') \<Longrightarrow> api_step w w'"
| rdma_read: "rdmap_rdma_read sk st to n ss sto wid w = Done (r, w') \<Longrightarrow> api_step w w'"
| poll: "rdmap_poll answer eintr ready w = Done (r, w') \<Longrightarrow> api_step w w'"
| fin: "rdmap_fin w = Done (r, w') \<Longrightarrow> api_step w w'"
| init: "rdmap_init w = Done (r, w') \<Longrightarrow> api_step w w'"
| consume: "cq_consume (cqs w q) = (r, e, cq') \<Longrightarrow> api_step w (set_cq q cq' w)"
| mem_register: "unat a + unat n < 2 ^ 64 \<Longrightarrow> api_step w (w\<lparr>mm := snd (mem_register a n (mm w))\<rparr>)"
| mem_deregister: "api_step w (w\<lparr>mm := snd (mem_deregister md (mm w))\<rparr>)"
| stag_create: "mr_from_md md (mm w) = Some mr \<Longrightarrow> mr_valid mr \<Longrightarrow> avl_room (stag_avl (mm w))
    \<Longrightarrow> unat (stag_next_counter (mm w)) < 2 ^ 31
    \<Longrightarrow> mem_stag_create sk md start en rw pd (mm w) = Done (st, m') \<Longrightarrow> api_step w (w\<lparr>mm := m'\<rparr>)"
| stag_destroy: "avl_room (stag_avl (mm w)) \<Longrightarrow> mem_stag_destroy st (mm w) = Done (r, m') \<Longrightarrow> api_step w (w\<lparr>mm := m'\<rparr>)"
| store: "api_step w (w\<lparr>mem := m\<rparr>)"
| arrive: "api_step w (set_conn sk c w)"

inductive api_reachable :: "world \<Rightarrow> bool" where
  start: "\<forall>q. cq_inv (cqs w q) \<Longrightarrow> rdmap_init (w\<lparr>mm := mem_init\<rparr>) = Done (r, w') \<Longrightarrow> api_reachable w'"
| step: "api_reachable w \<Longrightarrow> api_step w w' \<Longrightarrow> api_reachable w'"

lemma mem_stag_create_inv:
  assumes "mem_inv m" "mr_from_md md m = Some mr" "mr_valid mr" "avl_room (stag_avl m)"
    "unat (stag_next_counter m) < 2 ^ 31"
  shows "okO (\<lambda>(st, m'). mem_inv m') (mem_stag_create sk md start en rw pd m)"
proof (cases "start < en \<and> en \<le> mr_len mr")
  case True
  with mem_stag_create_ok [OF assms(1-3) _ _ assms(4,5), of start en sk rw pd] show ?thesis by (auto simp: okO_def)
next
  case False
  with assms(1,2) show ?thesis by (auto simp: mem_stag_create_def okO_def)
qed

lemma cq_consume_inv: "cq_inv q \<Longrightarrow> cq_inv (snd (snd (cq_consume q)))"
  by (auto simp: cq_consume_def cq_inv_def Let_def next_index_cases)

lemma api_inv_init: "\<forall>q. cq_inv (cqs w q) \<Longrightarrow> mem_inv (mm w) \<Longrightarrow> rdmap_init w = Done (r, w') \<Longrightarrow> api_inv w'"
  using iwht_new_inv by (auto simp: api_inv_def table_ok_def sk_map_def rdmap_init_def mpa_init_def iwsk_init_eq)

text \<open>
  After \<open>rdmap_fin\<close> the table is gone: every call that names a socket is undefined, and so is polling when
  sockets were polled; the tables of memory, the queues and \<open>rdmap_init\<close> can still be used.
\<close>

definition api_done :: "world \<Rightarrow> bool" where
  "api_done w \<longleftrightarrow> iwht w = ht_null \<and> mpa_freed w \<and> last_send_sk w = None \<and> last_recv_sk w = None
     \<and> (\<forall>q. cq_inv (cqs w q)) \<and> mem_inv (mm w)"

lemma api_inv_fin: "api_inv w \<or> api_done w \<Longrightarrow> rdmap_fin w = Done (r, w') \<Longrightarrow> api_done w'"
  by (auto simp: api_inv_def api_done_def rdmap_fin_def mpa_fin_def iwsk_fin_def outcome_simps split: if_splits)

lemma ht_null_Exit: "ht_lookup ht_null k = Exit" "ht_insert ht_null k v = Exit" "ht_destroy ht_null = Exit"
  by (simp_all add: ht_lookup_def ht_insert_def ht_lookup_node_def ht_bucket_def ht_null_def ht_destroy_def)

lemma api_done_lookup:
  assumes "api_done w"
  shows "iwsk_lookup k w = Exit" "iwsk_insert k w = Exit" "use_send_sk k w = Exit" "use_recv_sk k w = Exit"
  using assms by (simp_all add: api_done_def iwsk_lookup_def iwsk_insert_def use_send_sk_def use_recv_sk_def ht_null_Exit)

lemma api_done_calls:
  assumes "api_done w"
  shows "rdmap_register_sock sk sq rq w = Exit" "rdmap_deregister_sock sk w = Exit" "with_sock sk f w = Exit"
    "rdmap_init_startup sk i pd out rpd w = Exit" "rdmap_send sk m n wid w = Exit" "rdmap_post_recv sk b n wid w = Exit"
    "rdmap_rdma_write sk st to m n wid w = Exit" "rdmap_rdma_read sk st to n ss sto wid w = Exit"
  by (simp_all add: rdmap_register_sock_def rdmap_deregister_sock_def with_sock_def rdmap_init_startup_def rdmap_send_def
    rdmap_post_recv_def rdmap_rdma_write_def rdmap_rdma_read_def Let_def api_done_lookup [OF assms])

lemma api_done_poll: "api_done w \<Longrightarrow> rdmap_poll answer eintr ready w = Done (r, w') \<Longrightarrow> w' = w"
  by (auto simp: rdmap_poll_def mpa_poll_generic_def api_done_def split: if_splits)

lemma api_inv_upd:
  "api_inv w \<Longrightarrow> mem_inv m \<Longrightarrow> api_inv (w\<lparr>mm := m\<rparr>)"
  "api_inv w \<Longrightarrow> api_inv (w\<lparr>mem := mm'\<rparr>)"
  "api_inv w \<Longrightarrow> api_inv (set_conn sk c w)"
  "api_inv w \<Longrightarrow> cq_inv cq' \<Longrightarrow> api_inv (set_cq q cq' w)"
  by (simp_all add: api_inv_def table_ok_def sk_map_def set_conn_def set_cq_def)

lemma api_done_upd:
  "api_done w \<Longrightarrow> mem_inv m \<Longrightarrow> api_done (w\<lparr>mm := m\<rparr>)"
  "api_done w \<Longrightarrow> api_done (w\<lparr>mem := mm'\<rparr>)"
  "api_done w \<Longrightarrow> api_done (set_conn sk c w)"
  "api_done w \<Longrightarrow> cq_inv cq' \<Longrightarrow> api_done (set_cq q cq' w)"
  by (simp_all add: api_done_def set_conn_def set_cq_def)

lemma api_inv_step:
  assumes "api_step w w'" and inv: "api_inv w \<or> api_done w"
  shows "api_inv w' \<or> api_done w'"
  using assms(1)
proof cases
  case (stag_create md mr sk start en rw pd st m')
  from inv have m: "mem_inv (mm w)" by (auto simp: api_inv_def api_done_def)
  show ?thesis
    using okO_D [OF mem_stag_create_inv [OF m stag_create(2-5)] stag_create(6)] inv stag_create(1)
    by (auto simp: api_inv_upd api_done_upd)
next
  case (stag_destroy st r m')
  from inv have m: "mem_inv (mm w)" by (auto simp: api_inv_def api_done_def)
  show ?thesis
    using okO_D [OF mem_stag_destroy_inv [OF m stag_destroy(2)] stag_destroy(3)] inv stag_destroy(1)
    by (auto simp: api_inv_upd api_done_upd)
next
  case (consume q r e cq')
  from inv have "cq_inv (cqs w q)" by (auto simp: api_inv_def api_done_def)
  with cq_consume_inv [of "cqs w q"] consume have "cq_inv cq'" by simp
  with inv consume(1) show ?thesis by (auto simp: api_inv_upd api_done_upd)
next
  case (mem_register a n)
  have "mem_inv (mm w)" using inv by (auto simp: api_inv_def api_done_def)
  with mem_register inv show ?thesis by (auto simp: api_inv_upd api_done_upd mem_register_inv)
next
  case (mem_deregister md)
  have "mem_inv (mm w)" using inv by (auto simp: api_inv_def api_done_def)
  with mem_deregister inv show ?thesis by (auto simp: api_inv_upd api_done_upd mem_deregister_inv)
next
  case (fin r)
  then show ?thesis using api_inv_fin [OF inv] by blast
next
  case (init r)
  moreover have "\<forall>q. cq_inv (cqs w q)" "mem_inv (mm w)" using inv by (auto simp: api_inv_def api_done_def)
  ultimately show ?thesis using api_inv_init by blast
next
  case (poll answer eintr ready r)
  with inv show ?thesis by (auto dest: okO_D [OF rdmap_poll_inv] api_done_poll)
next
  case (store m)
  with inv show ?thesis by (auto simp: api_inv_upd api_done_upd)
next
  case (arrive sk c)
  with inv show ?thesis by (auto simp: api_inv_upd api_done_upd)
qed (use inv in \<open>auto simp: rdmap_mpa_use_markers_def rdmap_mpa_use_crc_def rdmap_set_sock_attrs_def api_done_calls
   dest: okO_D [OF rdmap_register_sock_inv] okO_D [OF rdmap_deregister_sock_inv] okO_D [OF with_sock_inv]
     okO_D [OF rdmap_init_startup_inv] okO_D [OF rdmap_send_inv] okO_D [OF rdmap_post_recv_inv]
     okO_D [OF rdmap_rdma_write_inv] okO_D [OF rdmap_rdma_read_inv]\<close>)

section \<open>What the peer may write\<close>

text \<open>
  The addresses open to the peer of a socket: the ranges of the live tags that carry a right, and the
  buffers posted for receiving.
\<close>

definition peer_area :: "iwsk \<Rightarrow> mem_state \<Rightarrow> u64 set" where
  "peer_area s m = {x. (\<exists>sd\<in>mem_live m. sd_start sd \<le> x \<and> x < sd_end sd \<and> sd_rw sd AND STAG_RW \<noteq> 0)
     \<or> (\<exists>d\<in>set (send_q (rdmapsk s)). unat (x - uw_buf d) < unat (uw_len d))}"

lemma rdmap_acc_right: "table_at rdmap_acc cf = Done acc \<Longrightarrow> acc AND STAG_R \<noteq> 0 \<or> acc AND STAG_W \<noteq> 0"
proof -
  assume t: "table_at rdmap_acc cf = Done acc"
  then have "acc \<in> set rdmap_acc" by (auto simp: table_at_def split: if_splits)
  then show ?thesis by (auto simp: rdmap_acc_def)
qed

lemma rw_right: "(rw :: u32) AND STAG_R \<noteq> 0 \<or> rw AND STAG_W \<noteq> 0 \<Longrightarrow> rw AND STAG_RW \<noteq> 0"
proof -
  have "rw AND 1 = (rw AND 3) AND 1" "rw AND 2 = (rw AND 3) AND 2" by (simp_all add: and.assoc)
  then show "rw AND STAG_R \<noteq> 0 \<or> rw AND STAG_W \<noteq> 0 \<Longrightarrow> rw AND STAG_RW \<noteq> 0" by auto
qed

lemma in_range:
  assumes "unat (x - a) < unat len" "unat a + unat len < 2 ^ 64"
  shows "a \<le> x \<and> x < (a :: u64) + len"
proof -
  have "unat a + unat (x - a) < 2 ^ 64" using assms by simp
  then have x: "unat x = unat a + unat (x - a)"
    using unat_word_ariths(1) [of a "x - a"] by simp
  moreover have "unat (a + len) = unat a + unat len" using assms(2) by (simp add: unat_word_ariths)
  ultimately show ?thesis using assms(1) by (simp add: word_le_nat_alt word_less_nat_alt)
qed

lemma sinks_in_area:
  assumes "mem_inv (mm w)" "\<forall>sd\<in>mem_live (mm w). unat (sd_end sd) \<le> 2 ^ 63"
  shows "sinks_in (peer_area s (mm w)) s w"
  unfolding sinks_in_def
proof (intro allI impI)
  fix hdr w1 r a off len s1 x
  assume mm: "mm w1 = mm w" and sink: "ddp_get_sink hdr s w1 = Done (r, Some (User a, off, len), s1)"
    and bad: "\<not> sink_bad (User a) off len" and x: "unat (x - (a + off)) < unat len"
  have len: "unat len < 65536" and nz: "a \<noteq> 0 \<or> off \<noteq> 0"
    using bad x by (auto simp: sink_bad_def not_le word_less_nat_alt)
  show "x \<in> peer_area s (mm w)"
  proof (cases "ddp_get_TAGGED (hdr ! 2) \<noteq> 0")
    case True
    with sink nz obtain cf stag acc where acc: "table_at rdmap_acc cf = Done acc" "off = 0"
      "a = mem_stag_location True stag (ntohq (th_to (tagged_of_bytes hdr))) len acc (mm w)"
      by (auto simp: ddp_get_sink_def Let_def outcome_simps rdmap_get_tag_sink_def mm split: if_splits)
    have cmp: "avl_compare (stag_avl (mm w)) = mem_avl_stag_comp" using assms(1) by (simp add: mem_inv_def tags_ok_def)
    have "a \<noteq> 0" using nz acc(2) by simp
    then have "mem_stag_location True stag (ntohq (th_to (tagged_of_bytes hdr))) len acc (mm w) \<noteq> 0" using acc(3) by simp
    from mem_stag_location_sound [OF this cmp] acc(3) obtain sd where
      sd: "sd \<in> mem_live (mm w)" "acc AND STAG_R \<noteq> 0 \<longrightarrow> sd_rw sd AND STAG_R \<noteq> 0"
        "acc AND STAG_W \<noteq> 0 \<longrightarrow> sd_rw sd AND STAG_W \<noteq> 0" "sd_start sd \<le> a" "a < sd_end sd" "a + len \<le> sd_end sd"
      by metis
    have "unat a + unat len < 2 ^ 64" using sd(1,5) assms(2) len by (fastforce simp: word_less_nat_alt)
    from in_range [OF _ this, of x] x acc(2) have "a \<le> x" "x < a + len" by simp_all
    with sd rdmap_acc_right [OF acc(1)] rw_right show ?thesis
      unfolding peer_area_def by (auto intro!: bexI [of _ sd])
  next
    case False
    let ?mo = "ntohl (uh_mo (untagged_of_bytes hdr))"
    from False sink have d: "send_q (rdmapsk s) \<noteq> []" "a = uw_buf (send_q (rdmapsk s) ! 0)"
      "off = ucast ?mo" "ucast ?mo + len \<le> uw_len (send_q (rdmapsk s) ! 0)"
      by (auto simp: ddp_get_sink_def Let_def outcome_simps rdmap_get_untag_sink_def sink_walk_first not_less
        split: if_splits option.splits prod.splits)
    have mo: "unat off < 2 ^ 32" using d(3) unsigned_less [of ?mo, where ?'a = nat] by (simp add: unsigned_ucast_eq take_bit_nat_eq_self)
    have "unat (x - a) = unat (x - (a + off) + off)" by (simp add: algebra_simps)
    also have "\<dots> = unat (x - (a + off)) + unat off"
      using x len mo by (intro unat_add_lem [THEN iffD1]) simp
    also have "\<dots> < unat (off + len)"
      using x len mo by (simp add: unat_word_ariths)
    also have "\<dots> \<le> unat (uw_len (send_q (rdmapsk s) ! 0))" using d(3,4) by (simp add: word_le_nat_alt)
    finally show ?thesis
      using d(1,2) nth_mem [of 0 "send_q (rdmapsk s)"] unfolding peer_area_def by (auto intro!: bexI)
  qed
qed



section \<open>Findings\<close>

text \<open>
  The rights asked for come from the operation code the peer puts in the segment. A tagged segment that
  calls itself a read request is placed through a tag that only gives the right to read.
\<close>

lemma tagged_read_request_writes:
  assumes "tags_ok (mm w)" "sd \<in> mem_live (mm w)" "sd_rw sd = STAG_R"
    and "rdmap_get_OPCODE cf = RDMA_READ_REQ" "sd_start sd \<le> to" "to < sd_end sd" "sd_start sd \<le> to + len"
      "to + len \<le> sd_end sd"
  shows "rdmap_get_tag_sink (sd_stag sd) to len cf w = Done to"
  using assms by (auto simp: rdmap_get_tag_sink_def table_at_def rdmap_acc_def RDMA_READ_REQ_def
      mem_stag_location_live [OF assms(1,2) refl])

text \<open>
  A socket that is deregistered shifts those after it in the array of \<open>poll\<close>, but their indexes stay: the
  next one deregistered may take away another's entry.
\<close>

lemma mpa_deregister_wrong_socket:
  "pollsks w = [1, 2, 3] \<Longrightarrow> skidx (mpask s1) = 0 \<Longrightarrow> skidx (mpask s2) = 1 \<Longrightarrow>
   \<exists>w' w''. mpa_deregister_sock s1 w = Done w' \<and> mpa_deregister_sock s2 w' = Done w'' \<and> pollsks w'' = [2]"
  by (simp add: mpa_deregister_sock_def Let_def)

section \<open>Witnesses\<close>



end
