(* ===== verification/Iw_Stack.thy ===== *)
theory Iw_Stack
  imports Iw_Rdmap
begin

text \<open>
  The layers put together: a message that one side writes or sends arrives in the memory of the other side,
  through segmentation, framing, sums, the stream, and placement.
\<close>

section \<open>Receiving several frames\<close>

text \<open>What repeated calls of \<open>rdmap_poll\<close> come to: frames are received until one fails.\<close>

fun recv_frames :: "nat \<Rightarrow> iwsk \<Rightarrow> world \<Rightarrow> (int \<times> iwsk \<times> world) outcome" where
  "recv_frames 0 s w = Done (0, s, w)"
| "recv_frames (Suc n) s w =
     bindO (mpa_recv s w) (\<lambda>(ret, s, w). if ret < 0 then Done (ret, s, w) else recv_frames n s w)"

text \<open>One frame of a well-formed segment, from the stream to the memory.\<close>

lemma mpa_recv_frame:
  assumes c: "conn_ok (conns w (sk_fd s))" "rx (conns w (sk_fd s)) = plain_fpdu (use_crc (mpask s) \<noteq> 0) hdr pl @ rest"
    and mrkr: "use_mrkr (mpask s) = 0"
    and len: "length hdr = ddp_get_hdr_sz hdr" "length pl < 65536"
    and sink: "ddp_get_sink (mpa_put_len hdr (of_nat (length hdr + length pl))) s w
        = Done (0, Some (User a, off, of_nat (length pl)), s)" "\<not> sink_bad (User a) off (of_nat (length pl))"
  shows "\<exists>c2 sp. mpa_recv s w
      = bindO (ddp_process_ulpdu (mpa_put_len hdr (of_nat (length hdr + length pl))) (s\<lparr>mpask := (mpask s)\<lparr>recv_sp := sp\<rparr>\<rparr>)
            ((set_conn (sk_fd s) c2 w)\<lparr>mem := write_bytes (mem w) (a + off) pl\<rparr>)) (\<lambda>(s, w). Done (0, s, w))
    \<and> conn_ok c2 \<and> rx c2 = rest \<and> tx c2 = tx (conns w (sk_fd s))"
proof -
  from mpa_rd_plain_ok [OF c len sink] obtain c2 sp where
    "mpa_rd_plain_fpdu s w = Done (0, mpa_put_len hdr (of_nat (length hdr + length pl)), s\<lparr>mpask := (mpask s)\<lparr>recv_sp := sp\<rparr>\<rparr>,
       (set_conn (sk_fd s) c2 w)\<lparr>mem := write_bytes (mem w) (a + off) pl\<rparr>)"
    "conn_ok c2" "rx c2 = rest" "tx c2 = tx (conns w (sk_fd s))"
    by (auto simp: place_def)
  then show ?thesis
    using mrkr by (intro exI [of _ c2] exI [of _ sp]) (simp add: mpa_recv_def)
qed

lemma set_conn_upd [simp]:
  "set_conn fd c (w\<lparr>mem := m\<rparr>) = (set_conn fd c w)\<lparr>mem := m\<rparr>"
  by (simp add: set_conn_def)

section \<open>RDMA write\<close>

text \<open>The tagged message has arrived up to offset \<open>k\<close>: its entry in the list of outstanding messages.\<close>

definition tag_sofar :: "stag \<Rightarrow> nat \<Rightarrow> ddp_tag_msg list \<Rightarrow> ddp_tag_msg list" where
  "tag_sofar stag k ms = (if k = 0 then ms else ms @ [\<lparr>tm_len = of_nat k, tm_stag = stag\<rparr>])"

lemma tag_sofar_add:
  assumes "\<forall>tm\<in>set ms. tm_stag tm \<noteq> stag" "0 < n"
  shows "outst_tag_add stag (of_nat n) fin (tag_sofar stag k ms)
    = (if fin \<and> k = 0 then (ms, None) else (tag_sofar stag (k + n) ms, Some (length ms)))"
  using assms by (cases "k = 0") (simp_all add: tag_sofar_def outst_tag_new outst_tag_more add.commute)

lemma tagged_frame_eq:
  "tagged_frame (tagged_hdr c stag) to (k, pl, fin)
    = (tagged_bytes \<lparr>th_llp_hdr = 0, th_cf = (if fin then ddp_set_LAST (DDP_CF_TAGGED OR DDP_CF_DV) else DDP_CF_TAGGED OR DDP_CF_DV),
         th_rsvdulp = c, th_stag = htonl stag, th_to = htonq (to + of_nat k)\<rparr>, pl)"
  by (simp add: tagged_frame_def tagged_hdr_def)

lemma tagged_cf_bits:
  "bit (DDP_CF_TAGGED OR DDP_CF_DV) 7" "\<not> bit (DDP_CF_TAGGED OR DDP_CF_DV) 6"
  "bit (ddp_set_LAST (DDP_CF_TAGGED OR DDP_CF_DV)) 7" "bit (ddp_set_LAST (DDP_CF_TAGGED OR DDP_CF_DV)) 6"
  by (simp_all add: ddp_cf_defs bit_simps bit_numeral_word_iff)

text \<open>One segment, by its place in the message.\<close>

lemma process_tagged:
  fixes s :: iwsk
  assumes "16 + length pl < 65536"
    and hdr_def: "hdr = mpa_put_len (fst (tagged_frame (tagged_hdr c stag) to (k, pl, fin))) (of_nat (16 + length pl))"
  shows "ddp_process_ulpdu hdr s w
    = (let (ms, tm) = outst_tag_add stag (of_nat (length pl)) fin (outst_tag (ddpsk s));
           s = s\<lparr>ddpsk := (ddpsk s)\<lparr>outst_tag := ms\<rparr>\<rparr>
       in if \<not> fin then Done (s, w)
          else bindO (rdmap_tag_recv c stag (case tm of Some i \<Rightarrow> tm_len (ms ! i) | None \<Rightarrow> of_nat (length pl)) s w) (\<lambda>(s, w).
                 let ms = (case tm of Some i \<Rightarrow> list_del_at i ms | None \<Rightarrow> ms)
                 in Done (s\<lparr>ddpsk := (ddpsk s)\<lparr>outst_tag := ms\<rparr>\<rparr>, w\<lparr>rdma_write_count := rdma_write_count w + 1\<rparr>)))"
  using llp_len(2) [of 16 "length pl"] assms(1) tagged_cf_bits
  unfolding hdr_def tagged_frame_eq fst_conv mpa_put_len_tagged
  by (cases fin) (simp_all add: ddp_process_ulpdu_def ddp_cf_bits TAGGED_HDR_SZ_def Let_def cong: option.case_cong)

lemma sink_tagged:
  fixes s :: iwsk
  assumes "16 + length pl < 65536" "table_at rdmap_acc c = Done acc"
    and "mem_stag_location True stag (to + of_nat k) (of_nat (length pl)) acc (mm w) = to + of_nat k" "to + of_nat k \<noteq> 0"
    and hdr_def: "hdr = mpa_put_len (fst (tagged_frame (tagged_hdr c stag) to (k, pl, fin))) (of_nat (16 + length pl))"
  shows "ddp_get_sink hdr s w = Done (0, Some (User (to + of_nat k), 0, of_nat (length pl)), s)"
  using ddp_get_sink_tagged [OF _ assms(1), of "\<lparr>th_llp_hdr = 0, th_cf = (if fin then ddp_set_LAST (DDP_CF_TAGGED OR DDP_CF_DV) else DDP_CF_TAGGED OR DDP_CF_DV),
         th_rsvdulp = c, th_stag = htonl stag, th_to = htonq (to + of_nat k)\<rparr>" acc w "to + of_nat k" s] assms(2-4) tagged_cf_bits
  unfolding hdr_def tagged_frame_eq fst_conv by simp

text \<open>
  The segments of a tagged message from offset \<open>k\<close> on, on the stream: they are received, one call each, and
  placed one after the other; with the last one the message is handed to RDMAP with its whole length.
\<close>

lemma recv_tagged_segments:
  assumes "0 < P" "16 + P < 65536" "bs \<noteq> []" "use_mrkr (mpask s) = 0" "conn_ok (conns w (sk_fd s))"
    and "rx (conns w (sk_fd s)) = concat (map (\<lambda>(hdr, pl). plain_fpdu (use_crc (mpask s) \<noteq> 0) hdr pl)
        (map (tagged_frame (tagged_hdr c stag) to) (segments P k bs))) @ rest"
    and "table_at rdmap_acc c = Done acc"
    and "\<And>i n. i + n \<le> k + length bs \<Longrightarrow> k \<le> i \<Longrightarrow> 0 < n \<Longrightarrow> to + of_nat i \<noteq> 0
        \<and> mem_stag_location True stag (to + of_nat i) (of_nat n) acc (mm w) = to + of_nat i"
    and "\<forall>tm\<in>set ms. tm_stag tm \<noteq> stag" "outst_tag (ddpsk s) = tag_sofar stag k ms"
  shows "\<exists>c2 sp L. recv_frames (length (segments P k bs)) s w
      = bindO (rdmap_tag_recv c stag (of_nat (k + length bs))
            (s\<lparr>mpask := (mpask s)\<lparr>recv_sp := sp\<rparr>, ddpsk := (ddpsk s)\<lparr>outst_tag := L\<rparr>\<rparr>)
            ((set_conn (sk_fd s) c2 w)\<lparr>mem := write_bytes (mem w) (to + of_nat k) bs\<rparr>)) (\<lambda>(s, w).
          Done (0, s\<lparr>ddpsk := (ddpsk s)\<lparr>outst_tag := ms\<rparr>\<rparr>, w\<lparr>rdma_write_count := rdma_write_count w + 1\<rparr>))
    \<and> conn_ok c2 \<and> rx c2 = rest \<and> tx c2 = tx (conns w (sk_fd s))"
  using assms
proof (induction P k bs arbitrary: s w rule: segments.induct)
  case (1 P k bs)
  let ?fd = "sk_fd s"
  let ?pl = "take P bs" and ?fin = "length bs \<le> P"
  define hdr where hdr: "hdr = fst (tagged_frame (tagged_hdr c stag) to (k, ?pl, ?fin))"
  have seg: "segments P k bs = (k, ?pl, ?fin) # (if ?fin then [] else segments P (k + P) (drop P bs))"
    using 1(2) by (subst segments.simps) auto
  let ?more = "concat (map (\<lambda>(hdr, pl). plain_fpdu (use_crc (mpask s) \<noteq> 0) hdr pl) (map (tagged_frame (tagged_hdr c stag) to)
      (if ?fin then [] else segments P (k + P) (drop P bs)))) @ rest"
  let ?h = "mpa_put_len hdr (of_nat (16 + length ?pl))"
  have n: "0 < length ?pl" "length ?pl \<le> P" "k + length ?pl \<le> k + length bs" using 1(2,4) by simp_all
  have fr: "tagged_frame (tagged_hdr c stag) to (k, ?pl, ?fin) = (hdr, ?pl)" by (simp add: hdr tagged_frame_def)
  have hl: "length hdr = 16" by (simp add: hdr tagged_frame_eq)
  have hs: "length hdr = ddp_get_hdr_sz hdr"
    unfolding hl by (cases ?fin) (simp_all add: hdr tagged_frame_eq hdr_sz_tagged tagged_cf_bits)
  have rx: "rx (conns w ?fd) = plain_fpdu (use_crc (mpask s) \<noteq> 0) hdr ?pl @ ?more"
    unfolding 1(7) seg by (simp only: list.map concat.simps fr prod.case append_assoc)
  note loc = 1(9) [OF n(3) le_refl n(1)]
  have sink: "ddp_get_sink ?h s w = Done (0, Some (User (to + of_nat k), 0, of_nat (length ?pl)), s)"
    using sink_tagged [OF _ 1(8), of ?pl stag to k w _ ?fin s] hdr loc n(2) 1(3) by simp
  have nb: "\<not> sink_bad (User (to + of_nat k)) 0 (of_nat (length ?pl))"
    using loc n(2) 1(3) by (simp add: sink_bad_def not_le word_less_nat_alt unat_of_nat64)
  have l: "16 + length ?pl < 65536" using n(2) 1(3) by simp
  have lt: "length ?pl < 65536" using l by simp
  have sink': "ddp_get_sink (mpa_put_len hdr (of_nat (length hdr + length ?pl))) s w
      = Done (0, Some (User (to + of_nat k), 0, of_nat (length ?pl)), s)"
    unfolding hl by (rule sink)
  obtain c2 sp where r: "mpa_recv s w
      = bindO (ddp_process_ulpdu ?h (s\<lparr>mpask := (mpask s)\<lparr>recv_sp := sp\<rparr>\<rparr>)
            ((set_conn ?fd c2 w)\<lparr>mem := write_bytes (mem w) (to + of_nat k) ?pl\<rparr>)) (\<lambda>(s, w). Done (0, s, w))"
    "conn_ok c2" "rx c2 = ?more" "tx c2 = tx (conns w ?fd)"
    using mpa_recv_frame [OF 1(6) rx 1(5) hs lt sink' nb] unfolding hl add_0_right by blast
  have p: "ddp_process_ulpdu ?h s w
    = (let (ms, tm) = outst_tag_add stag (of_nat (length ?pl)) ?fin (outst_tag (ddpsk s));
           s = s\<lparr>ddpsk := (ddpsk s)\<lparr>outst_tag := ms\<rparr>\<rparr>
       in if \<not> ?fin then Done (s, w)
          else bindO (rdmap_tag_recv c stag (case tm of Some i \<Rightarrow> tm_len (ms ! i) | None \<Rightarrow> of_nat (length ?pl)) s w) (\<lambda>(s, w).
                 let ms = (case tm of Some i \<Rightarrow> list_del_at i ms | None \<Rightarrow> ms)
                 in Done (s\<lparr>ddpsk := (ddpsk s)\<lparr>outst_tag := ms\<rparr>\<rparr>, w\<lparr>rdma_write_count := rdma_write_count w + 1\<rparr>)))" for s w
    by (rule process_tagged [OF l]) (simp add: hdr)
  note add = tag_sofar_add [OF 1(10) n(1), of ?fin k]
  show ?case
  proof (cases ?fin)
    case True
    then show ?thesis
      using r seg p add 1(11)
      by (intro exI [of _ c2] exI [of _ sp] exI [of _ "if k = 0 then ms else tag_sofar stag (k + length bs) ms"])
        (cases "k = 0"; simp add: bindO_assoc case_prod_unfold tag_sofar_def Let_def)
  next
    case False
    let ?s1 = "s\<lparr>mpask := (mpask s)\<lparr>recv_sp := sp\<rparr>, ddpsk := (ddpsk s)\<lparr>outst_tag := tag_sofar stag (k + P) ms\<rparr>\<rparr>"
    let ?w1 = "(set_conn ?fd c2 w)\<lparr>mem := write_bytes (mem w) (to + of_nat k) ?pl\<rparr>"
    have step: "mpa_recv s w = Done (0, ?s1, ?w1)"
      using r(1) p add 1(11) False by (simp add: min_def)
    have "\<exists>c2 sp L. recv_frames (length (segments P (k + P) (drop P bs))) ?s1 ?w1
      = bindO (rdmap_tag_recv c stag (of_nat (k + P + length (drop P bs)))
            (?s1\<lparr>mpask := (mpask ?s1)\<lparr>recv_sp := sp\<rparr>, ddpsk := (ddpsk ?s1)\<lparr>outst_tag := L\<rparr>\<rparr>)
            ((set_conn (sk_fd ?s1) c2 ?w1)\<lparr>mem := write_bytes (mem ?w1) (to + of_nat (k + P)) (drop P bs)\<rparr>)) (\<lambda>(s, w).
          Done (0, s\<lparr>ddpsk := (ddpsk s)\<lparr>outst_tag := ms\<rparr>\<rparr>, w\<lparr>rdma_write_count := rdma_write_count w + 1\<rparr>))
      \<and> conn_ok c2 \<and> rx c2 = rest \<and> tx c2 = tx (conns ?w1 (sk_fd ?s1))"
      by (rule 1(1)) (use False 1 r in \<open>auto simp: fun_upd_def\<close>)
    moreover have "write_bytes (write_bytes (mem w) (to + of_nat k) ?pl) (to + of_nat (k + P)) (drop P bs)
        = write_bytes (mem w) (to + of_nat k) bs"
      using False write_bytes_append [of "mem w" "to + of_nat k" ?pl "drop P bs"] by (simp add: min_def add_ac)
    ultimately show ?thesis using False step seg r(4) by (auto simp: min_def)
  qed
qed

lemma msg_bytes_at: "msg_bytes (msg_at a w) n = read_bytes (mem w) a n"
  by (simp add: msg_bytes_def msg_at_def read_bytes_def)

lemma write_opcode:
  "rdmap_get_OPCODE (rdmap_set_OPCODE (rdmap_set_RV 0) RDMA_WRITE) = RDMA_WRITE"
  "table_at rdmap_acc (rdmap_set_OPCODE (rdmap_set_RV 0) RDMA_WRITE) = Done STAG_W"
proof -
  show o: "rdmap_get_OPCODE (rdmap_set_OPCODE (rdmap_set_RV 0) RDMA_WRITE) = RDMA_WRITE"
    by (rule rdmap_get_set_OPCODE) (simp add: RDMA_WRITE_def)
  show "table_at rdmap_acc (rdmap_set_OPCODE (rdmap_set_RV 0) RDMA_WRITE) = Done STAG_W"
    by (simp add: table_at_def o) (simp add: RDMA_WRITE_def rdmap_acc_def)
qed

text \<open>The range of a live tag is open to every part of it.\<close>

lemma location_in_range:
  assumes "tags_ok m" "sd \<in> mem_live m" "sd_stag sd = stag" "sd_rw sd AND acc = acc"
    "unat (sd_start sd) \<le> unat to" "unat to + n \<le> unat (sd_end sd)" "i + l \<le> n" "0 < l"
  shows "mem_stag_location True stag (to + of_nat i) (of_nat l) acc m = to + of_nat i"
    "unat (to + of_nat i) = unat to + i"
proof -
  have e: "unat (sd_end sd) < 2 ^ 64" by (rule order_less_le_trans [OF unsigned_less]) simp
  then have b: "i < 2 ^ 64" "l < 2 ^ 64" "unat to + i < 2 ^ 64" "unat to + i + l < 2 ^ 64" using assms(6-8) by simp_all
  have u: "unat (of_nat j :: u64) = j" if "j < 2 ^ 64" for j using that by (simp add: unat_of_nat)
  have 1: "unat (to + of_nat i) = unat to + i" using b u by (simp add: unat_word_ariths)
  moreover have "unat (to + of_nat i + of_nat l) = unat to + i + l"
    using b u 1 by (simp add: unat_word_ariths(1) [of "to + of_nat i"])
  ultimately have r: "\<not> to + of_nat i < sd_start sd" "\<not> to + of_nat i \<ge> sd_end sd"
    "\<not> to + of_nat i + of_nat l < sd_start sd" "\<not> to + of_nat i + of_nat l > sd_end sd"
    using assms(5-8) by (simp_all add: word_less_nat_alt word_le_nat_alt)
  have rt: "acc AND k \<noteq> 0 \<longrightarrow> sd_rw sd AND k \<noteq> 0" for k
  proof -
    have "acc AND k = acc AND (sd_rw sd AND k)" using assms(4) by (metis and.assoc and.commute)
    then show ?thesis by auto
  qed
  with r show "mem_stag_location True stag (to + of_nat i) (of_nat l) acc m = to + of_nat i"
    unfolding mem_stag_location_live [OF assms(1-3)] using rt [of STAG_R] rt [of STAG_W] by auto
  show "unat (to + of_nat i) = unat to + i" by (rule 1)
qed

section \<open>Send and receive\<close>

text \<open>The untagged message has arrived up to offset \<open>k\<close>.\<close>

definition untag_sofar :: "u32 \<Rightarrow> u32 \<Rightarrow> nat \<Rightarrow> ddp_untag_msg list \<Rightarrow> ddp_untag_msg list" where
  "untag_sofar qn msn k ms = (if k = 0 then ms else ms @ [\<lparr>um_len = of_nat k, um_msn = msn, um_qn = qn\<rparr>])"

lemma untag_sofar_add:
  assumes "\<forall>m\<in>set ms. \<not> (um_qn m = qn \<and> um_msn m = msn)" "0 < n \<or> fin \<or> 0 < k"
  shows "outst_untag_add qn msn (of_nat n) fin (untag_sofar qn msn k ms)
    = (if fin \<and> k = 0 then (ms, None) else (untag_sofar qn msn (k + n) ms, Some (length ms)))"
  using assms by (cases "k = 0") (auto simp: untag_sofar_def outst_untag_new outst_untag_more add.commute)

lemma untagged_frame_eq:
  "untagged_frame (untagged_hdr c p qn msn) (k, pl, fin)
    = (untagged_bytes \<lparr>uh_llp_hdr = 0, uh_cf = (if fin then ddp_set_LAST DDP_CF_DV else DDP_CF_DV),
         uh_ulp_ctrl = c, uh_ulp_payld = htonl p, uh_qn = htonl qn, uh_msn = htonl msn, uh_mo = htonl (of_nat k)\<rparr>, pl)"
  by (simp add: untagged_frame_def untagged_hdr_def)

lemma untagged_cf_bits:
  "\<not> bit DDP_CF_DV 7" "\<not> bit DDP_CF_DV 6" "\<not> bit (ddp_set_LAST DDP_CF_DV) 7" "bit (ddp_set_LAST DDP_CF_DV) 6"
  by (simp_all add: ddp_cf_defs bit_simps bit_numeral_word_iff)

lemma process_untagged:
  fixes s :: iwsk
  assumes "20 + length pl < 65536"
    and hdr_def: "hdr = mpa_put_len (fst (untagged_frame (untagged_hdr c p qn msn) (k, pl, fin))) (of_nat (20 + length pl))"
  shows "ddp_process_ulpdu hdr s w
    = (let (ms, utm) = outst_untag_add qn msn (of_nat (length pl)) fin (outst_untag (ddpsk s));
           s = s\<lparr>ddpsk := (ddpsk s)\<lparr>outst_untag := ms\<rparr>\<rparr>
       in if \<not> fin then Done (s, w)
          else bindO (rdmap_untag_recv c qn (case utm of Some i \<Rightarrow> um_len (ms ! i) | None \<Rightarrow> of_nat (length pl)) s w) (\<lambda>(s, w).
                 let ms = (case utm of Some i \<Rightarrow> list_del_at i ms | None \<Rightarrow> ms)
                 in Done (s\<lparr>ddpsk := (ddpsk s)\<lparr>recv_msn := recv_msn (ddpsk s) + 1, outst_untag := ms\<rparr>\<rparr>, w)))"
  using llp_len(2) [of 20 "length pl"] assms(1) untagged_cf_bits
  unfolding hdr_def untagged_frame_eq fst_conv mpa_put_len_untagged
  by (cases fin) (simp_all add: ddp_process_ulpdu_def ddp_cf_bits UNTAGGED_HDR_SZ_def Let_def cong: option.case_cong)

lemma sink_untagged:
  fixes s :: iwsk
  assumes "20 + length pl < 65536" "send_q (rdmapsk s) = d # ds" "k + length pl \<le> unat (uw_len d)" "k < 2 ^ 32"
    and hdr_def: "hdr = mpa_put_len (fst (untagged_frame (untagged_hdr c p SEND_Q msn) (k, pl, fin))) (of_nat (20 + length pl))"
  shows "ddp_get_sink hdr s w = Done (0, Some (User (uw_buf d), of_nat k, of_nat (length pl)), s)"
proof -
  have "unat (of_nat k :: u32) = k" using assms(4) by (simp add: unat_of_nat)
  moreover from this have "(ucast (of_nat k :: u32) :: u64) = of_nat k" by (metis of_nat_unat)
  ultimately show ?thesis
  using ddp_get_sink_send [of "\<lparr>uh_llp_hdr = 0, uh_cf = (if fin then ddp_set_LAST DDP_CF_DV else DDP_CF_DV),
         uh_ulp_ctrl = c, uh_ulp_payld = htonl p, uh_qn = htonl SEND_Q, uh_msn = htonl msn, uh_mo = htonl (of_nat k)\<rparr>"
         s d ds "length pl" w] assms(1-3) untagged_cf_bits
  unfolding hdr_def untagged_frame_eq fst_conv by simp
qed

lemma recv_untagged_segments:
  assumes "0 < P" "20 + P < 65536" "k + length bs < 2 ^ 32" "0 < k \<longrightarrow> bs \<noteq> []"
    "use_mrkr (mpask s) = 0" "conn_ok (conns w (sk_fd s))"
    and "rx (conns w (sk_fd s)) = concat (map (\<lambda>(hdr, pl). plain_fpdu (use_crc (mpask s) \<noteq> 0) hdr pl)
        (map (untagged_frame (untagged_hdr c p SEND_Q msn)) (segments P k bs))) @ rest"
    and "send_q (rdmapsk s) = d # ds" "k + length bs \<le> unat (uw_len d)" "uw_buf d \<noteq> 0"
    and "\<forall>m\<in>set ms. \<not> (um_qn m = SEND_Q \<and> um_msn m = msn)" "outst_untag (ddpsk s) = untag_sofar SEND_Q msn k ms"
  shows "\<exists>c2 sp L. recv_frames (length (segments P k bs)) s w
      = bindO (rdmap_untag_recv c SEND_Q (of_nat (k + length bs))
            (s\<lparr>mpask := (mpask s)\<lparr>recv_sp := sp\<rparr>, ddpsk := (ddpsk s)\<lparr>outst_untag := L\<rparr>\<rparr>)
            ((set_conn (sk_fd s) c2 w)\<lparr>mem := write_bytes (mem w) (uw_buf d + of_nat k) bs\<rparr>)) (\<lambda>(s, w).
          Done (0, s\<lparr>ddpsk := (ddpsk s)\<lparr>recv_msn := recv_msn (ddpsk s) + 1, outst_untag := ms\<rparr>\<rparr>, w))
    \<and> conn_ok c2 \<and> rx c2 = rest \<and> tx c2 = tx (conns w (sk_fd s))"
  using assms
proof (induction P k bs arbitrary: s w rule: segments.induct)
  case (1 P k bs)
  let ?fd = "sk_fd s"
  let ?pl = "take P bs" and ?fin = "length bs \<le> P"
  define hdr where hdr: "hdr = fst (untagged_frame (untagged_hdr c p SEND_Q msn) (k, ?pl, ?fin))"
  have seg: "segments P k bs = (k, ?pl, ?fin) # (if ?fin then [] else segments P (k + P) (drop P bs))"
    using 1(2) by (subst segments.simps) auto
  let ?more = "concat (map (\<lambda>(hdr, pl). plain_fpdu (use_crc (mpask s) \<noteq> 0) hdr pl) (map (untagged_frame (untagged_hdr c p SEND_Q msn))
      (if ?fin then [] else segments P (k + P) (drop P bs)))) @ rest"
  let ?h = "mpa_put_len hdr (of_nat (20 + length ?pl))"
  have n: "length ?pl \<le> P" "k + length ?pl \<le> unat (uw_len d)" "k < 2 ^ 32" using 1(4,10) by simp_all
  have fr: "untagged_frame (untagged_hdr c p SEND_Q msn) (k, ?pl, ?fin) = (hdr, ?pl)" by (simp add: hdr untagged_frame_def)
  have hl: "length hdr = 20" by (simp add: hdr untagged_frame_eq)
  have hs: "length hdr = ddp_get_hdr_sz hdr"
    unfolding hl by (cases ?fin) (simp_all add: hdr untagged_frame_eq hdr_sz_untagged untagged_cf_bits)
  have rx: "rx (conns w ?fd) = plain_fpdu (use_crc (mpask s) \<noteq> 0) hdr ?pl @ ?more"
    unfolding 1(8) seg by (simp only: list.map concat.simps fr prod.case append_assoc)
  have l: "20 + length ?pl < 65536" using n(1) 1(3) by simp
  have lt: "length ?pl < 65536" using l by simp
  have sink': "ddp_get_sink (mpa_put_len hdr (of_nat (length hdr + length ?pl))) s w
      = Done (0, Some (User (uw_buf d), of_nat k, of_nat (length ?pl)), s)"
    unfolding hl by (rule sink_untagged [OF l 1(9) n(2,3)]) (simp add: hdr)
  have nb: "\<not> sink_bad (User (uw_buf d)) (of_nat k) (of_nat (length ?pl))"
    using 1(11) lt by (simp add: sink_bad_def not_le word_less_nat_alt unat_of_nat64)
  obtain c2 sp where r: "mpa_recv s w
      = bindO (ddp_process_ulpdu ?h (s\<lparr>mpask := (mpask s)\<lparr>recv_sp := sp\<rparr>\<rparr>)
            ((set_conn ?fd c2 w)\<lparr>mem := write_bytes (mem w) (uw_buf d + of_nat k) ?pl\<rparr>)) (\<lambda>(s, w). Done (0, s, w))"
    "conn_ok c2" "rx c2 = ?more" "tx c2 = tx (conns w ?fd)"
    using mpa_recv_frame [OF 1(7) rx 1(6) hs lt sink' nb] unfolding hl by blast
  have pr: "ddp_process_ulpdu ?h s w
    = (let (ms, utm) = outst_untag_add SEND_Q msn (of_nat (length ?pl)) ?fin (outst_untag (ddpsk s));
           s = s\<lparr>ddpsk := (ddpsk s)\<lparr>outst_untag := ms\<rparr>\<rparr>
       in if \<not> ?fin then Done (s, w)
          else bindO (rdmap_untag_recv c SEND_Q (case utm of Some i \<Rightarrow> um_len (ms ! i) | None \<Rightarrow> of_nat (length ?pl)) s w) (\<lambda>(s, w).
                 let ms = (case utm of Some i \<Rightarrow> list_del_at i ms | None \<Rightarrow> ms)
                 in Done (s\<lparr>ddpsk := (ddpsk s)\<lparr>recv_msn := recv_msn (ddpsk s) + 1, outst_untag := ms\<rparr>\<rparr>, w)))" for s w
    by (rule process_untagged [OF l]) (simp add: hdr)
  have "0 < length ?pl \<or> ?fin \<or> 0 < k" using 1(2) by auto
  note add = untag_sofar_add [OF 1(12) this]
  show ?case
  proof (cases ?fin)
    case True
    then show ?thesis
      using r seg pr add 1(13)
      by (intro exI [of _ c2] exI [of _ sp] exI [of _ "if k = 0 then ms else untag_sofar SEND_Q msn (k + length bs) ms"])
        (cases "k = 0"; simp add: bindO_assoc case_prod_unfold untag_sofar_def Let_def)
  next
    case False
    let ?s1 = "s\<lparr>mpask := (mpask s)\<lparr>recv_sp := sp\<rparr>, ddpsk := (ddpsk s)\<lparr>outst_untag := untag_sofar SEND_Q msn (k + P) ms\<rparr>\<rparr>"
    let ?w1 = "(set_conn ?fd c2 w)\<lparr>mem := write_bytes (mem w) (uw_buf d + of_nat k) ?pl\<rparr>"
    have step: "mpa_recv s w = Done (0, ?s1, ?w1)"
      using r(1) pr add 1(13) False by (simp add: min_def)
    have "\<exists>c2 sp L. recv_frames (length (segments P (k + P) (drop P bs))) ?s1 ?w1
      = bindO (rdmap_untag_recv c SEND_Q (of_nat (k + P + length (drop P bs)))
            (?s1\<lparr>mpask := (mpask ?s1)\<lparr>recv_sp := sp\<rparr>, ddpsk := (ddpsk ?s1)\<lparr>outst_untag := L\<rparr>\<rparr>)
            ((set_conn (sk_fd ?s1) c2 ?w1)\<lparr>mem := write_bytes (mem ?w1) (uw_buf d + of_nat (k + P)) (drop P bs)\<rparr>)) (\<lambda>(s, w).
          Done (0, s\<lparr>ddpsk := (ddpsk s)\<lparr>recv_msn := recv_msn (ddpsk s) + 1, outst_untag := ms\<rparr>\<rparr>, w))
      \<and> conn_ok c2 \<and> rx c2 = rest \<and> tx c2 = tx (conns ?w1 (sk_fd ?s1))"
      by (rule 1(1)) (use False 1 r in \<open>auto simp: fun_upd_def\<close>)
    moreover have "write_bytes (write_bytes (mem w) (uw_buf d + of_nat k) ?pl) (uw_buf d + of_nat (k + P)) (drop P bs)
        = write_bytes (mem w) (uw_buf d + of_nat k) bs"
      using False write_bytes_append [of "mem w" "uw_buf d + of_nat k" ?pl "drop P bs"] by (simp add: min_def add_ac)
    ultimately show ?thesis using False step seg r(4) by (auto simp: min_def)
  qed
qed

section \<open>Properties\<close>

text \<open>
  C23. An RDMA write arrives. When the write of \<open>n\<close> bytes is issued on a working connection without markers,
  it succeeds and puts its completion on the send queue; and when what it sent has reached a peer where the
  tag is live, can be written, and covers the range, then that peer, receiving one frame per segment, ends
  up with exactly the bytes of the writer's buffer at the tagged offset, with nothing else changed in its
  memory, nothing left on the stream, no message outstanding and one more write counted, and its queues
  untouched.
\<close>

theorem rdma_write_arrives:
  assumes "api_inv wA" "sk_map wA sk = Some sA" "use_mrkr (mpask sA) = 0" "conn_ok (conns wA sk)"
    and "\<not> cq_opt_full (scq sA) wA"
    and P: "P = unat (tagged_payld_len wA)" "0 < P" "16 + P < 65536" and n: "0 < n" "n + P < 2 ^ 32"
    and B: "use_mrkr (mpask sB) = 0" "conn_ok (conns wB (sk_fd sB))" "use_crc (mpask sB) \<noteq> 0 \<longleftrightarrow> use_crc (mpask sA) \<noteq> 0"
    and tag: "tags_ok (mm wB)" "sd \<in> mem_live (mm wB)" "sd_stag sd = stag" "sd_rw sd AND STAG_W = STAG_W"
      "0 < to" "unat (sd_start sd) \<le> unat to" "unat to + n \<le> unat (sd_end sd)"
    and out: "\<forall>tm\<in>set (outst_tag (ddpsk sB)). tm_stag tm \<noteq> stag"
  shows "\<exists>wA'. rdmap_rdma_write sk stag to a (of_nat n) wid wA = Done (0, wA')
    \<and> cqs wA' = cqs (cq_opt_post (scq sA) \<lparr>cqe_op = OP_RDMA_WRITE, cqe_status = 0, cqe_id = wid, cqe_msg_len = of_nat n\<rparr> wA)
    \<and> (\<forall>bs rest. tx (conns wA' sk) = tx (conns wA sk) @ bs \<longrightarrow> rx (conns wB (sk_fd sB)) = bs @ rest \<longrightarrow>
        (\<exists>sB' wB'. recv_frames ((n + P - 1) div P) sB wB = Done (0, sB', wB')
          \<and> mem wB' = write_bytes (mem wB) to (read_bytes (mem wA) a n) \<and> read_bytes (mem wB') to n = read_bytes (mem wA) a n
          \<and> rx (conns wB' (sk_fd sB)) = rest \<and> outst_tag (ddpsk sB') = outst_tag (ddpsk sB)
          \<and> rdma_write_count wB' = rdma_write_count wB + 1 \<and> cqs wB' = cqs wB))"
proof -
  let ?cf = "rdmap_set_OPCODE (rdmap_set_RV 0) RDMA_WRITE"
  let ?w = "wA\<lparr>last_send_sk := Some sk\<rparr>"
  let ?bs = "read_bytes (mem wA) a n"
  let ?segs = "segments P 0 ?bs"
  let ?fs = "map (tagged_frame (tagged_hdr ?cf stag) to) ?segs"
  have fd: "sk_fd sA = sk" using assms(1,2) by (simp add: api_inv_def table_ok_def)
  have "\<forall>(hdr, pl)\<in>set ?fs. 2 \<le> length hdr \<and> length pl + length hdr < 65536"
    using segments_max [OF P(2)] P(3) by (fastforce simp: tagged_frame_eq)
  from mpa_send_list_plain [OF _ assms(3) this, of ?w] assms(4) fd obtain c sp where
    snd: "mpa_send_list ?fs sA ?w = Done (0, sA\<lparr>mpask := (mpask sA)\<lparr>send_sp := sp\<rparr>\<rparr>, set_conn sk c ?w)"
      "tx c = tx (conns wA sk) @ concat (map (\<lambda>(hdr, pl). plain_fpdu (use_crc (mpask sA) \<noteq> 0) hdr pl) ?fs)"
    by auto
  have "ddp_send_tagged (msg_at a ?w) (of_nat n) ?cf stag to sA ?w = mpa_send_list ?fs sA ?w"
    using ddp_send_tagged_list [of P ?w n "msg_at a ?w"] P n by (simp add: msg_bytes_at)
  then have A: "rdmap_rdma_write sk stag to a (of_nat n) wid wA
      = Done (0, cq_opt_post (scq sA) \<lparr>cqe_op = OP_RDMA_WRITE, cqe_status = 0, cqe_id = wid, cqe_msg_len = of_nat n\<rparr>
          (iwsk_store (sA\<lparr>mpask := (mpask sA)\<lparr>send_sp := sp\<rparr>\<rparr>) (set_conn sk c ?w)))"
    using assms(2,5) snd(1)
    by (simp add: rdmap_rdma_write_def use_send_sk_eq [OF assms(1)] cq_opt_full_def RDMA_WRITE_def rdmap_src_op_def cong: option.case_cong)
  have cq: "cqs (cq_opt_post q e (iwsk_store s (set_conn sk c ?w))) = cqs (cq_opt_post q e wA)" for q e s
    by (simp add: cq_opt_post_def split: option.split)
  have tx: "tx (conns (cq_opt_post q e (iwsk_store s (set_conn sk c ?w))) sk) = tx c" for q e s
    by (simp add: cq_opt_post_def split: option.split)
  have k: "length ?segs = (n + P - 1) div P"
    using segments_count [OF P(2), of 0 ?bs] n(1) by (auto simp flip: length_0_conv)
  have acc: "STAG_W = STAG_W AND (3 :: u32)" by simp
  have B: "\<exists>sB' wB'. recv_frames ((n + P - 1) div P) sB wB = Done (0, sB', wB')
          \<and> mem wB' = write_bytes (mem wB) to ?bs \<and> read_bytes (mem wB') to n = ?bs
          \<and> rx (conns wB' (sk_fd sB)) = rest \<and> outst_tag (ddpsk sB') = outst_tag (ddpsk sB)
          \<and> rdma_write_count wB' = rdma_write_count wB + 1 \<and> cqs wB' = cqs wB"
    if rx: "rx (conns wB (sk_fd sB)) = concat (map (\<lambda>(hdr, pl). plain_fpdu (use_crc (mpask sA) \<noteq> 0) hdr pl) ?fs) @ rest" for rest
  proof -
    have loc: "to + of_nat i \<noteq> 0 \<and> mem_stag_location True stag (to + of_nat i) (of_nat l) STAG_W (mm wB) = to + of_nat i"
      if "i + l \<le> 0 + length ?bs" "0 \<le> i" "0 < l" for i l
      using location_in_range [OF tag(1-4,6,7) _ that(3), of i] that(1) tag(5) by (auto simp: word_less_nat_alt unat_gt_0)
    have "n < 2 ^ 64" using n(2) by simp
    then have rb: "read_bytes (write_bytes (mem wB) to ?bs) to n = ?bs" using read_write_bytes [of ?bs "mem wB" to] by simp
    have ne: "?bs \<noteq> []" using n(1) by (simp flip: length_0_conv)
    from recv_tagged_segments [OF P(2,3) ne B(1,2) rx [folded B(3)] write_opcode(2) loc out] obtain c2 sp L where
      "recv_frames (length ?segs) sB wB = bindO (rdmap_tag_recv ?cf stag (of_nat n)
            (sB\<lparr>mpask := (mpask sB)\<lparr>recv_sp := sp\<rparr>, ddpsk := (ddpsk sB)\<lparr>outst_tag := L\<rparr>\<rparr>)
            ((set_conn (sk_fd sB) c2 wB)\<lparr>mem := write_bytes (mem wB) to ?bs\<rparr>)) (\<lambda>(s, w).
          Done (0, s\<lparr>ddpsk := (ddpsk s)\<lparr>outst_tag := outst_tag (ddpsk sB)\<rparr>\<rparr>, w\<lparr>rdma_write_count := rdma_write_count w + 1\<rparr>))"
      "rx c2 = rest"
      by (auto simp: tag_sofar_def)
    then show ?thesis unfolding k using rb by (simp add: rdmap_tag_recv_def write_opcode(1))
  qed
  show ?thesis
    unfolding A
  proof (rule exI, intro conjI refl cq allI impI)
    fix bs rest
    assume "tx (conns (cq_opt_post (scq sA) \<lparr>cqe_op = OP_RDMA_WRITE, cqe_status = 0, cqe_id = wid, cqe_msg_len = of_nat n\<rparr>
        (iwsk_store (sA\<lparr>mpask := (mpask sA)\<lparr>send_sp := sp\<rparr>\<rparr>) (set_conn sk c ?w))) sk) = tx (conns wA sk) @ bs"
      and rx: "rx (conns wB (sk_fd sB)) = bs @ rest"
    then have "bs = concat (map (\<lambda>(hdr, pl). plain_fpdu (use_crc (mpask sA) \<noteq> 0) hdr pl) ?fs)"
      unfolding tx snd(2) by simp
    with B rx show "\<exists>sB' wB'. recv_frames ((n + P - 1) div P) sB wB = Done (0, sB', wB')
          \<and> mem wB' = write_bytes (mem wB) to ?bs \<and> read_bytes (mem wB') to n = ?bs
          \<and> rx (conns wB' (sk_fd sB)) = rest \<and> outst_tag (ddpsk sB') = outst_tag (ddpsk sB)
          \<and> rdma_write_count wB' = rdma_write_count wB + 1 \<and> cqs wB' = cqs wB" by blast
  qed (rule refl, rule cq)
qed


lemma send_opcode:
  "table_at rdmap_sink_op (rdmap_set_OPCODE (rdmap_set_RV 0) SEND) = Done OP_RECV"
proof -
  have o: "rdmap_get_OPCODE (rdmap_set_OPCODE (rdmap_set_RV 0) SEND) = SEND"
    by (rule rdmap_get_set_OPCODE) (simp add: SEND_def)
  show ?thesis by (simp add: table_at_def o) (simp add: SEND_def rdmap_sink_op_def)
qed

text \<open>
  C24. A message sent arrives. When a message of \<open>n\<close> bytes, which may be none, is sent on a working
  connection without markers, the call succeeds and puts its completion on the send queue; and when what it
  sent has reached a peer that has posted a buffer of enough room, then that peer, receiving one frame per
  segment, ends up with the bytes of the message at the start of its oldest buffer and nothing else changed
  in its memory, the buffer taken off its queue, and the completion with the buffer's identifier and the
  length of the message on its receive queue.
\<close>

theorem send_arrives:
  assumes "api_inv wA" "sk_map wA sk = Some sA" "use_mrkr (mpask sA) = 0" "conn_ok (conns wA sk)"
    and "\<not> cq_opt_full (scq sA) wA"
    and P: "P = unat (untagged_payld_len wA)" "0 < P" "20 + P < 65536" and n: "n + P < 2 ^ 32"
    and B: "use_mrkr (mpask sB) = 0" "conn_ok (conns wB (sk_fd sB))" "use_crc (mpask sB) \<noteq> 0 \<longleftrightarrow> use_crc (mpask sA) \<noteq> 0"
    and buf: "send_q (rdmapsk sB) = d # ds" "n \<le> unat (uw_len d)" "uw_buf d \<noteq> 0"
    and q: "rcq sB = Some q" "cq_inv (cqs wB q)" "length (cq_entries (cqs wB q)) < cq_room (cqs wB q)"
    and out: "\<forall>m\<in>set (outst_untag (ddpsk sB)). \<not> (um_qn m = SEND_Q \<and> um_msn m = send_msn (ddpsk sA))"
  shows "\<exists>wA'. rdmap_send sk a (of_nat n) wid wA = Done (0, wA')
    \<and> cqs wA' = cqs (cq_opt_post (scq sA) \<lparr>cqe_op = OP_SEND, cqe_status = 0, cqe_id = wid, cqe_msg_len = of_nat n\<rparr> wA)
    \<and> (\<forall>bs rest. tx (conns wA' sk) = tx (conns wA sk) @ bs \<longrightarrow> rx (conns wB (sk_fd sB)) = bs @ rest \<longrightarrow>
        (\<exists>sB' wB'. recv_frames (if n = 0 then 1 else (n + P - 1) div P) sB wB = Done (0, sB', wB')
          \<and> mem wB' = write_bytes (mem wB) (uw_buf d) (read_bytes (mem wA) a n) \<and> send_q (rdmapsk sB') = ds
          \<and> cq_entries (cqs wB' q) = cq_entries (cqs wB q)
              @ [\<lparr>cqe_op = OP_RECV, cqe_status = 0, cqe_id = uw_id d, cqe_msg_len = of_nat n\<rparr>]
          \<and> rx (conns wB' (sk_fd sB)) = rest \<and> outst_untag (ddpsk sB') = outst_untag (ddpsk sB)))"
proof -
  let ?cf = "rdmap_set_OPCODE (rdmap_set_RV 0) SEND"
  let ?w = "wA\<lparr>last_send_sk := Some sk\<rparr>"
  let ?bs = "read_bytes (mem wA) a n"
  let ?segs = "segments P 0 ?bs"
  let ?hdr = "untagged_hdr ?cf 0 SEND_Q (send_msn (ddpsk sA))"
  let ?fs = "map (untagged_frame ?hdr) ?segs"
  have fd: "sk_fd sA = sk" using assms(1,2) by (simp add: api_inv_def table_ok_def)
  have "\<forall>(hdr, pl)\<in>set ?fs. 2 \<le> length hdr \<and> length pl + length hdr < 65536"
    using segments_max [OF P(2)] P(3) by (fastforce simp: untagged_frame_eq)
  from mpa_send_list_plain [OF _ assms(3) this, of ?w] assms(4) fd obtain c sp where
    snd: "mpa_send_list ?fs sA ?w = Done (0, sA\<lparr>mpask := (mpask sA)\<lparr>send_sp := sp\<rparr>\<rparr>, set_conn sk c ?w)"
      "tx c = tx (conns wA sk) @ concat (map (\<lambda>(hdr, pl). plain_fpdu (use_crc (mpask sA) \<noteq> 0) hdr pl) ?fs)"
    by auto
  let ?e = "\<lparr>cqe_op = OP_SEND, cqe_status = 0, cqe_id = wid, cqe_msg_len = of_nat n\<rparr>"
  obtain s' where A: "rdmap_send sk a (of_nat n) wid wA = Done (0, cq_opt_post (scq sA) ?e (iwsk_store s' (set_conn sk c ?w)))"
    using ddp_send_untagged_list [of P ?w n "msg_at a ?w" SEND_Q ?cf 0 sA] P n assms(2,5) snd(1)
    by (simp add: msg_bytes_at rdmap_send_def use_send_sk_eq [OF assms(1)] cq_opt_full_def SEND_def rdmap_src_op_def cong: option.case_cong)
  have cq: "cqs (cq_opt_post q e (iwsk_store s (set_conn sk c ?w))) = cqs (cq_opt_post q e wA)" for q e s
    by (simp add: cq_opt_post_def split: option.split)
  have tx: "tx (conns (cq_opt_post q e (iwsk_store s (set_conn sk c ?w))) sk) = tx c" for q e s
    by (simp add: cq_opt_post_def split: option.split)
  have k: "length ?segs = (if n = 0 then 1 else (n + P - 1) div P)"
    using segments_count [OF P(2), of 0 ?bs] by (auto simp flip: length_0_conv)
  have B: "\<exists>sB' wB'. recv_frames (if n = 0 then 1 else (n + P - 1) div P) sB wB = Done (0, sB', wB')
          \<and> mem wB' = write_bytes (mem wB) (uw_buf d) ?bs \<and> send_q (rdmapsk sB') = ds
          \<and> cq_entries (cqs wB' q) = cq_entries (cqs wB q)
              @ [\<lparr>cqe_op = OP_RECV, cqe_status = 0, cqe_id = uw_id d, cqe_msg_len = of_nat n\<rparr>]
          \<and> rx (conns wB' (sk_fd sB)) = rest \<and> outst_untag (ddpsk sB') = outst_untag (ddpsk sB)"
    if rx: "rx (conns wB (sk_fd sB)) = concat (map (\<lambda>(hdr, pl). plain_fpdu (use_crc (mpask sA) \<noteq> 0) hdr pl) ?fs) @ rest" for rest
  proof -
    from recv_untagged_segments [OF P(2,3) _ _ B(1,2) rx [folded B(3)] buf(1) _ buf(3) out] obtain c2 sp L where
      r: "recv_frames (length ?segs) sB wB = bindO (rdmap_untag_recv ?cf SEND_Q (of_nat n)
            (sB\<lparr>mpask := (mpask sB)\<lparr>recv_sp := sp\<rparr>, ddpsk := (ddpsk sB)\<lparr>outst_untag := L\<rparr>\<rparr>)
            ((set_conn (sk_fd sB) c2 wB)\<lparr>mem := write_bytes (mem wB) (uw_buf d) ?bs\<rparr>)) (\<lambda>(s, w).
          Done (0, s\<lparr>ddpsk := (ddpsk s)\<lparr>recv_msn := recv_msn (ddpsk s) + 1, outst_untag := outst_untag (ddpsk sB)\<rparr>\<rparr>, w))"
      "rx c2 = rest"
      using n buf(2) by (auto simp: untag_sofar_def)
    then show ?thesis unfolding k using buf(1) q(1) cq_post_entries [OF q(2,3)]
      by (simp add: rdmap_untag_recv_def send_opcode SEND_Q_def Let_def)
  qed
  show ?thesis
    unfolding A
  proof (rule exI, intro conjI refl cq allI impI)
    fix bs rest
    assume "tx (conns (cq_opt_post (scq sA) ?e (iwsk_store s' (set_conn sk c ?w))) sk) = tx (conns wA sk) @ bs"
      and rx: "rx (conns wB (sk_fd sB)) = bs @ rest"
    then have "bs = concat (map (\<lambda>(hdr, pl). plain_fpdu (use_crc (mpask sA) \<noteq> 0) hdr pl) ?fs)"
      unfolding tx snd(2) by simp
    with B rx show "\<exists>sB' wB'. recv_frames (if n = 0 then 1 else (n + P - 1) div P) sB wB = Done (0, sB', wB')
          \<and> mem wB' = write_bytes (mem wB) (uw_buf d) ?bs \<and> send_q (rdmapsk sB') = ds
          \<and> cq_entries (cqs wB' q) = cq_entries (cqs wB q)
              @ [\<lparr>cqe_op = OP_RECV, cqe_status = 0, cqe_id = uw_id d, cqe_msg_len = of_nat n\<rparr>]
          \<and> rx (conns wB' (sk_fd sB)) = rest \<and> outst_untag (ddpsk sB') = outst_untag (ddpsk sB)" by blast
  qed (rule refl, rule cq)
qed

section \<open>Witnesses\<close>

text \<open>A process with socket 2 registered, segments of two bytes, and memory that holds its addresses.\<close>

definition world_writer :: world where
  "world_writer = (world_start (\<lambda>_. conn_start []))\<lparr>
     cqs := (\<lambda>_. \<lparr>cqe = replicate 4 \<lparr>cqe_op = 0, cqe_status = 0, cqe_id = 0, cqe_msg_len = 0\<rparr>, num_cqe = 4, cq_prod = 0, cq_cons = 0\<rparr>),
     mem := ucast, tagged_payld_len := 2, untagged_payld_len := 2,
     iwht := (case ht_insert iwht_new 2 (iwsk_zero 2) of Done t \<Rightarrow> t | Exit \<Rightarrow> iwht_new)\<rparr>"

lemma world_writer_api: "api_inv world_writer" "sk_map world_writer 2 = Some (iwsk_zero 2)"
proof -
  from ht.ins_new [OF iwht_new_inv(1), of 2 "iwsk_zero 2"] iwht_new_inv(2) obtain t where
    "ht_insert iwht_new 2 (iwsk_zero 2) = Done t" "ht_inv t" "ht_map t = [2 \<mapsto> iwsk_zero 2]"
    by fastforce
  then show "api_inv world_writer" "sk_map world_writer 2 = Some (iwsk_zero 2)"
    using mem_init_inv
    by (simp_all add: world_writer_def api_inv_def table_ok_def sk_map_def cq_inv_def iwsk_zero_def world_start_def)
qed

lemma world_writer_simps [simp]:
  "conns world_writer = (\<lambda>_. conn_start [])" "unat (tagged_payld_len world_writer) = 2" "mem world_writer = ucast"
  "unat (untagged_payld_len world_writer) = 2"
  by (simp_all add: world_writer_def)

lemma iwsk_zero_simps [simp]:
  "scq (iwsk_zero k) = None" "use_mrkr (mpask (iwsk_zero k)) = 0" "use_crc (mpask (iwsk_zero k)) = 0" "sk_fd (iwsk_zero k) = k"
  "outst_tag (ddpsk (iwsk_zero k)) = []" "outst_untag (ddpsk (iwsk_zero k)) = []"
  by (simp_all add: iwsk_zero_def)

lemma bytes_0x40: "read_bytes ucast 0x40 4 = [0x40, 0x41, 0x42, 0x43]"
proof -
  have "[0..<4] = [0, 1, 2, 3 :: nat]" by (simp add: upt_conv_Cons)
  then show ?thesis by (simp add: read_bytes_def)
qed

theorem rdma_write_arrives_witness:
  "\<exists>wA' wB sB' wB'. rdmap_rdma_write 2 1 0x1800 0x40 4 7 world_writer = Done (0, wA') \<and> rx (conns wB 1) = tx (conns wA' 2)
    \<and> recv_frames 2 (iwsk_zero 1) wB = Done (0, sB', wB') \<and> read_bytes (mem wB') 0x1800 4 = [0x40, 0x41, 0x42, 0x43]
    \<and> rx (conns wB' 1) = []"
proof -
  let ?wB = "world_mem\<lparr>conns := (\<lambda>_. conn_start (case rdmap_rdma_write 2 1 0x1800 0x40 4 7 world_writer of
     Done r \<Rightarrow> tx (conns (snd r) 2) | Exit \<Rightarrow> []))\<rparr>"
  have t: "tags_ok (mm ?wB)" using mem_example_inv by (simp add: mem_inv_def)
  obtain sd where sd: "sd \<in> mem_live (mm ?wB)" "sd_stag sd = 1" "sd_rw sd = STAG_RW" "sd_start sd = 0x1000" "sd_end sd = 0x2000"
    by (simp add: mem_example_live)
  have "sd_rw sd AND STAG_W = STAG_W" using sd(3) by simp
  from rdma_write_arrives [OF world_writer_api _ _ _ refl _ _ _ _ _ _ _ t sd(1,2) this, of 4 "iwsk_zero 1" "0x1800" "0x40" 7]
  obtain wA' where A: "rdmap_rdma_write 2 1 0x1800 0x40 4 7 world_writer = Done (0, wA')"
    "\<exists>sB' wB'. recv_frames 2 (iwsk_zero 1) ?wB = Done (0, sB', wB') \<and> read_bytes (mem wB') 0x1800 4 = read_bytes ucast 0x40 4
       \<and> rx (conns wB' 1) = []"
    using sd by (auto simp: cq_opt_full_def)
  then show ?thesis unfolding bytes_0x40 by (intro exI [of _ wA'] exI [of _ ?wB]) auto
qed

theorem send_arrives_witness:
  "\<exists>wA' wB sB' wB'. rdmap_send 2 0x40 4 7 world_writer = Done (0, wA') \<and> rx (conns wB 1) = tx (conns wA' 2)
    \<and> recv_frames 2 sk_recv wB = Done (0, sB', wB') \<and> mem wB' = write_bytes (\<lambda>_. 0) 0x100 [0x40, 0x41, 0x42, 0x43]
    \<and> cq_entries (cqs wB' 0) = [\<lparr>cqe_op = OP_RECV, cqe_status = 0, cqe_id = 10, cqe_msg_len = 4\<rparr>]"
proof -
  let ?wB = "world_cq\<lparr>conns := (\<lambda>_. conn_start (case rdmap_send 2 0x40 4 7 world_writer of
     Done r \<Rightarrow> tx (conns (snd r) 2) | Exit \<Rightarrow> []))\<rparr>"
  have s: "send_q (rdmapsk sk_recv) = [\<lparr>uw_id = 10, uw_buf = 0x100, uw_len = 64\<rparr>]" "rcq sk_recv = Some 0"
    "use_mrkr (mpask sk_recv) = 0" "use_crc (mpask sk_recv) = 0" "outst_untag (ddpsk sk_recv) = []" "sk_fd sk_recv = 1"
    by (simp_all add: sk_recv_def)
  have m: "mem world_cq = (\<lambda>_. 0)" by (simp add: world_cq_def set_cq_def)
  from send_arrives [OF world_writer_api _ _ _ refl _ _ _ _ _ _ s(1) _ _ s(2), of 4 ?wB "0x40" 7] world_cq_room s m
  obtain wA' where A: "rdmap_send 2 0x40 4 7 world_writer = Done (0, wA')"
    "\<exists>sB' wB'. recv_frames 2 sk_recv ?wB = Done (0, sB', wB') \<and> mem wB' = write_bytes (\<lambda>_. 0) 0x100 (read_bytes ucast 0x40 4)
       \<and> cq_entries (cqs wB' 0) = [\<lparr>cqe_op = OP_RECV, cqe_status = 0, cqe_id = 10, cqe_msg_len = 4\<rparr>]"
    by (auto simp: cq_opt_full_def)
  then show ?thesis unfolding bytes_0x40 by (intro exI [of _ wA'] exI [of _ ?wB]) auto
qed

end
