(* ===== verification/Iw_List.thy ===== *)
theory Iw_List
  imports Iw_Prelude
begin

text \<open>
  Doubly linked lists (\<open>iwarp/list.h\<close>): circular, with a head that is not an entry. The functions work on
  the two pointers of each node, and a ring of nodes is a sequence of entries. The interface \<open>linked_seq\<close>
  states what a sequence kept in memory promises and proves that a run of operations is the same run on
  lists, which is how the other theories use them.
\<close>

section \<open>The interface: sequences of entries in memory\<close>

datatype 'n lop = AddHead 'n | AddTail 'n | Del 'n | MoveHead 'n | MoveTail 'n

fun op_node :: "'n lop \<Rightarrow> 'n" where
  "op_node (AddHead x) = x" | "op_node (AddTail x) = x" | "op_node (Del x) = x"
| "op_node (MoveHead x) = x" | "op_node (MoveTail x) = x"

text \<open>The run on lists; \<open>None\<close> when an entry is added twice, or one that is not there is taken away.\<close>

fun seq_run :: "'n \<Rightarrow> 'n lop list \<Rightarrow> 'n list \<Rightarrow> 'n list option" where
  "seq_run q [] xs = Some xs"
| "seq_run q (AddHead x # ops) xs = (if x = q \<or> x \<in> set xs then None else seq_run q ops (x # xs))"
| "seq_run q (AddTail x # ops) xs = (if x = q \<or> x \<in> set xs then None else seq_run q ops (xs @ [x]))"
| "seq_run q (Del x # ops) xs = (if x \<notin> set xs then None else seq_run q ops (remove1 x xs))"
| "seq_run q (MoveHead x # ops) xs = (if x \<notin> set xs then None else seq_run q ops (x # remove1 x xs))"
| "seq_run q (MoveTail x # ops) xs = (if x \<notin> set xs then None else seq_run q ops (remove1 x xs @ [x]))"

fun heap_run :: "('n \<Rightarrow> 'n \<Rightarrow> 'h \<Rightarrow> 'h) \<Rightarrow> ('n \<Rightarrow> 'n \<Rightarrow> 'h \<Rightarrow> 'h) \<Rightarrow> ('n \<Rightarrow> 'h \<Rightarrow> 'h) \<Rightarrow> ('n \<Rightarrow> 'n \<Rightarrow> 'h \<Rightarrow> 'h)
    \<Rightarrow> ('n \<Rightarrow> 'n \<Rightarrow> 'h \<Rightarrow> 'h) \<Rightarrow> 'n \<Rightarrow> 'n lop list \<Rightarrow> 'h \<Rightarrow> 'h" where
  "heap_run add addt del mv mvt q [] h = h"
| "heap_run add addt del mv mvt q (AddHead x # ops) h = heap_run add addt del mv mvt q ops (add x q h)"
| "heap_run add addt del mv mvt q (AddTail x # ops) h = heap_run add addt del mv mvt q ops (addt x q h)"
| "heap_run add addt del mv mvt q (Del x # ops) h = heap_run add addt del mv mvt q ops (del x h)"
| "heap_run add addt del mv mvt q (MoveHead x # ops) h = heap_run add addt del mv mvt q ops (mv x q h)"
| "heap_run add addt del mv mvt q (MoveTail x # ops) h = heap_run add addt del mv mvt q ops (mvt x q h)"

text \<open>
  \<open>rep h q xs\<close>: the list with head \<open>q\<close> has the entries \<open>xs\<close>. An operation on a list leaves every list
  alone that shares no node with it.
\<close>

locale linked_seq =
  fixes rep :: "'h \<Rightarrow> 'n \<Rightarrow> 'n list \<Rightarrow> bool"
    and add :: "'n \<Rightarrow> 'n \<Rightarrow> 'h \<Rightarrow> 'h" and addt :: "'n \<Rightarrow> 'n \<Rightarrow> 'h \<Rightarrow> 'h"
    and del :: "'n \<Rightarrow> 'h \<Rightarrow> 'h"
    and mv :: "'n \<Rightarrow> 'n \<Rightarrow> 'h \<Rightarrow> 'h" and mvt :: "'n \<Rightarrow> 'n \<Rightarrow> 'h \<Rightarrow> 'h"
  assumes rep_distinct: "rep h q xs \<Longrightarrow> distinct (q # xs)"
    and add: "rep h q xs \<Longrightarrow> x \<notin> set (q # xs) \<Longrightarrow> rep (add x q h) q (x # xs)"
    and addt: "rep h q xs \<Longrightarrow> x \<notin> set (q # xs) \<Longrightarrow> rep (addt x q h) q (xs @ [x])"
    and del: "rep h q xs \<Longrightarrow> x \<in> set xs \<Longrightarrow> rep (del x h) q (remove1 x xs)"
    and mv: "rep h q xs \<Longrightarrow> x \<in> set xs \<Longrightarrow> rep (mv x q h) q (x # remove1 x xs)"
    and mvt: "rep h q xs \<Longrightarrow> x \<in> set xs \<Longrightarrow> rep (mvt x q h) q (remove1 x xs @ [x])"
    and add_frame: "rep h q xs \<Longrightarrow> rep h q' ys \<Longrightarrow> set (q' # ys) \<inter> set (x # q # xs) = {} \<Longrightarrow> rep (add x q h) q' ys"
    and addt_frame: "rep h q xs \<Longrightarrow> rep h q' ys \<Longrightarrow> set (q' # ys) \<inter> set (x # q # xs) = {} \<Longrightarrow> rep (addt x q h) q' ys"
    and del_frame: "rep h q xs \<Longrightarrow> x \<in> set xs \<Longrightarrow> rep h q' ys \<Longrightarrow> set (q' # ys) \<inter> set (q # xs) = {} \<Longrightarrow> rep (del x h) q' ys"
    and mv_frame: "rep h q xs \<Longrightarrow> x \<in> set xs \<Longrightarrow> rep h q' ys \<Longrightarrow> set (q' # ys) \<inter> set (q # xs) = {} \<Longrightarrow> rep (mv x q h) q' ys"
    and mvt_frame: "rep h q xs \<Longrightarrow> x \<in> set xs \<Longrightarrow> rep h q' ys \<Longrightarrow> set (q' # ys) \<inter> set (q # xs) = {} \<Longrightarrow> rep (mvt x q h) q' ys"
begin

lemma run_refines:
  "rep h q xs \<Longrightarrow> seq_run q ops xs = Some zs \<Longrightarrow> rep (heap_run add addt del mv mvt q ops h) q zs"
  by (induction q ops xs arbitrary: h rule: seq_run.induct)
     (auto split: if_splits intro: add [simplified] addt [simplified] del mv mvt)

lemma run_frame:
  "rep h q xs \<Longrightarrow> rep h q' ys \<Longrightarrow> seq_run q ops xs = Some zs \<Longrightarrow>
   \<forall>y\<in>set (q' # ys). y \<notin> set (q # xs) \<and> y \<notin> op_node ` set ops \<Longrightarrow> rep (heap_run add addt del mv mvt q ops h) q' ys"
proof (induction q ops xs arbitrary: h rule: seq_run.induct)
  case (2 q x ops xs)
  then have "rep (add x q h) q (x # xs)" "rep (add x q h) q' ys"
    by (auto split: if_splits intro!: add add_frame [of h q xs])
  with 2 show ?case by (auto split: if_splits)
next
  case (3 q x ops xs)
  then have "rep (addt x q h) q (xs @ [x])" "rep (addt x q h) q' ys"
    by (auto split: if_splits intro!: addt addt_frame [of h q xs])
  with 3 show ?case by (auto split: if_splits)
next
  case (4 q x ops xs)
  then have "rep (del x h) q (remove1 x xs)" "rep (del x h) q' ys"
    by (auto split: if_splits intro!: del del_frame [of h q xs])
  moreover have "\<And>y. y \<in> set (remove1 x xs) \<Longrightarrow> y \<in> set xs" using set_remove1_subset by fast
  ultimately show ?case using 4 by (auto split: if_splits)
next
  case (5 q x ops xs)
  then have "rep (mv x q h) q (x # remove1 x xs)" "rep (mv x q h) q' ys"
    by (auto split: if_splits intro!: mv mv_frame [of h q xs])
  moreover have "\<And>y. y \<in> set (remove1 x xs) \<Longrightarrow> y \<in> set xs" using set_remove1_subset by fast
  ultimately show ?case using 5 by (auto split: if_splits)
next
  case (6 q x ops xs)
  then have "rep (mvt x q h) q (remove1 x xs @ [x])" "rep (mvt x q h) q' ys"
    by (auto split: if_splits intro!: mvt mvt_frame [of h q xs])
  moreover have "\<And>y. y \<in> set (remove1 x xs) \<Longrightarrow> y \<in> set xs" using set_remove1_subset by fast
  ultimately show ?case using 6 by (auto split: if_splits)
qed simp

end

section \<open>The operations\<close>

type_synonym node = u64

record list_head =
  nxt :: "node \<Rightarrow> node"
  prv :: "node \<Rightarrow> node"

definition INIT_LIST_HEAD :: "node \<Rightarrow> list_head \<Rightarrow> list_head" where
  "INIT_LIST_HEAD p h = (let h = h\<lparr>nxt := (nxt h)(p := p)\<rparr> in h\<lparr>prv := (prv h)(p := p)\<rparr>)"

definition list_add_between :: "node \<Rightarrow> node \<Rightarrow> node \<Rightarrow> list_head \<Rightarrow> list_head" where
  "list_add_between new prev next h =
     (let h = h\<lparr>prv := (prv h)(next := new)\<rparr>;
          h = h\<lparr>nxt := (nxt h)(new := next)\<rparr>;
          h = h\<lparr>prv := (prv h)(new := prev)\<rparr>
      in h\<lparr>nxt := (nxt h)(prev := new)\<rparr>)"

definition list_add :: "node \<Rightarrow> node \<Rightarrow> list_head \<Rightarrow> list_head" where
  "list_add new head h = list_add_between new head (nxt h head) h"

definition list_add_tail :: "node \<Rightarrow> node \<Rightarrow> list_head \<Rightarrow> list_head" where
  "list_add_tail new head h = list_add_between new (prv h head) head h"

definition list_del_between :: "node \<Rightarrow> node \<Rightarrow> list_head \<Rightarrow> list_head" where
  "list_del_between prev next h =
     (let h = h\<lparr>prv := (prv h)(next := prev)\<rparr> in h\<lparr>nxt := (nxt h)(prev := next)\<rparr>)"

definition list_del :: "node \<Rightarrow> list_head \<Rightarrow> list_head" where
  "list_del entry h = list_del_between (prv h entry) (nxt h entry) h"

definition list_del_init :: "node \<Rightarrow> list_head \<Rightarrow> list_head" where
  "list_del_init entry h = INIT_LIST_HEAD entry (list_del_between (prv h entry) (nxt h entry) h)"

definition list_move :: "node \<Rightarrow> node \<Rightarrow> list_head \<Rightarrow> list_head" where
  "list_move entry head h = list_add entry head (list_del_between (prv h entry) (nxt h entry) h)"

definition list_move_tail :: "node \<Rightarrow> node \<Rightarrow> list_head \<Rightarrow> list_head" where
  "list_move_tail entry head h = list_add_tail entry head (list_del_between (prv h entry) (nxt h entry) h)"

definition list_empty :: "node \<Rightarrow> list_head \<Rightarrow> bool" where
  "list_empty head h \<longleftrightarrow> nxt h head = head"

definition list_splice_at :: "node \<Rightarrow> node \<Rightarrow> list_head \<Rightarrow> list_head" where
  "list_splice_at src head h =
     (let first = nxt h src; final = prv h src; at = nxt h head;
          h = h\<lparr>prv := (prv h)(first := head)\<rparr>;
          h = h\<lparr>nxt := (nxt h)(head := first)\<rparr>;
          h = h\<lparr>nxt := (nxt h)(final := at)\<rparr>
      in h\<lparr>prv := (prv h)(at := final)\<rparr>)"

definition list_splice :: "node \<Rightarrow> node \<Rightarrow> list_head \<Rightarrow> list_head" where
  "list_splice src head h = (if list_empty src h then h else list_splice_at src head h)"

definition list_splice_init :: "node \<Rightarrow> node \<Rightarrow> list_head \<Rightarrow> list_head" where
  "list_splice_init src head h = (if list_empty src h then h else INIT_LIST_HEAD src (list_splice_at src head h))"

text \<open>
  The loops: the nodes visited, in order. A loop on a structure that is not a ring may not end
  (\<open>None\<close>).
\<close>

partial_function (option) walk_nxt :: "list_head \<Rightarrow> node \<Rightarrow> node \<Rightarrow> node list option" where
  "walk_nxt h head pos = (if pos = head then Some [] else Option.bind (walk_nxt h head (nxt h pos)) (\<lambda>r. Some (pos # r)))"

partial_function (option) walk_prv :: "list_head \<Rightarrow> node \<Rightarrow> node \<Rightarrow> node list option" where
  "walk_prv h head pos = (if pos = head then Some [] else Option.bind (walk_prv h head (prv h pos)) (\<lambda>r. Some (pos # r)))"

definition list_for_each :: "node \<Rightarrow> list_head \<Rightarrow> node list option" where
  "list_for_each head h = walk_nxt h head (nxt h head)"

definition list_for_each_prev :: "node \<Rightarrow> list_head \<Rightarrow> node list option" where
  "list_for_each_prev head h = walk_prv h head (prv h head)"

text \<open>
  \<open>list_for_each_safe\<close> with a body that may take the entry out: the next node is read before the body
  runs. The entries for which \<open>P\<close> holds are deleted.
\<close>

partial_function (option) walk_safe :: "(node \<Rightarrow> bool) \<Rightarrow> node \<Rightarrow> node \<Rightarrow> node \<Rightarrow> list_head \<Rightarrow> list_head option" where
  "walk_safe P head pos n h =
     (if pos = head then Some h
      else let h = (if P pos then list_del pos h else h) in walk_safe P head n (nxt h n) h)"

definition list_for_each_safe :: "(node \<Rightarrow> bool) \<Rightarrow> node \<Rightarrow> list_head \<Rightarrow> list_head option" where
  "list_for_each_safe P head h = (let pos = nxt h head in walk_safe P head pos (nxt h pos) h)"

section \<open>Rings\<close>

fun links :: "list_head \<Rightarrow> node list \<Rightarrow> bool" where
  "links h (x # y # r) = (nxt h x = y \<and> prv h y = x \<and> links h (y # r))"
| "links h _ = True"

definition ring :: "list_head \<Rightarrow> node \<Rightarrow> node list \<Rightarrow> bool" where
  "ring h q xs \<longleftrightarrow> distinct (q # xs) \<and> links h (q # xs @ [q])"

lemma links_append:
  "us \<noteq> [] \<Longrightarrow> vs \<noteq> [] \<Longrightarrow>
   links h (us @ vs) \<longleftrightarrow> links h us \<and> nxt h (last us) = hd vs \<and> prv h (hd vs) = last us \<and> links h vs"
proof (induction us)
  case (Cons u us)
  then show ?case by (cases us; cases vs) auto
qed simp

lemma links_cong:
  "(\<And>p. p \<in> set (butlast l) \<Longrightarrow> nxt h' p = nxt h p) \<Longrightarrow> (\<And>p. p \<in> set (tl l) \<Longrightarrow> prv h' p = prv h p) \<Longrightarrow>
   links h' l = links h l"
  by (induction h l rule: links.induct) auto

text \<open>A ring, cut between two neighbours.\<close>

lemma ring_cut:
  "ring h q (ys @ zs) \<longleftrightarrow> distinct (q # ys @ zs) \<and> links h (q # ys) \<and> links h (zs @ [q])
     \<and> nxt h (last (q # ys)) = hd (zs @ [q]) \<and> prv h (hd (zs @ [q])) = last (q # ys)"
  using links_append [of "q # ys" "zs @ [q]" h] by (auto simp: ring_def)

lemma ring_frame:
  assumes "ring h q xs" "\<And>p. p \<in> set (q # xs) \<Longrightarrow> nxt h' p = nxt h p \<and> prv h' p = prv h p"
  shows "ring h' q xs"
proof -
  have "links h' (q # xs @ [q]) = links h (q # xs @ [q])"
    by (rule links_cong) (use assms(2) in \<open>auto simp: butlast_append split: if_splits dest: in_set_butlastD\<close>)
  with assms(1) show ?thesis by (simp add: ring_def)
qed

lemma hd_last_in: "last (q # ys) \<in> set (q # ys)" "hd (zs @ [q]) \<in> set (q # zs)"
  by (auto simp: hd_append)

text \<open>Pointers of a node, when it is not the one written.\<close>

lemma list_add_between_simps:
  "nxt (list_add_between new p n h) = (nxt h)(new := n, p := new)"
  "prv (list_add_between new p n h) = (prv h)(n := new, new := p)"
  "nxt (list_del_between p n h) = (nxt h)(p := n)" "prv (list_del_between p n h) = (prv h)(n := p)"
  by (simp_all add: list_add_between_def list_del_between_def)

lemma last_not_butlast: "distinct xs \<Longrightarrow> last xs \<notin> set (butlast xs)"
  by (cases xs rule: rev_cases) auto

lemma in_set_tlD: "x \<in> set (tl xs) \<Longrightarrow> x \<in> set xs"
  by (cases xs) auto

lemma hd_not_tl: "distinct xs \<Longrightarrow> hd xs \<notin> set (tl xs)"
  by (cases xs) auto

text \<open>The two parts of a cut ring are not touched by writes at the cut and at a node outside.\<close>

lemma cut_untouched:
  assumes d: "distinct (q # ys @ zs)" and x: "x \<notin> set (q # ys @ zs)"
    and nx: "\<And>p. p \<noteq> x \<Longrightarrow> p \<noteq> last (q # ys) \<Longrightarrow> nxt h' p = nxt h p"
    and pv: "\<And>p. p \<noteq> x \<Longrightarrow> p \<noteq> hd (zs @ [q]) \<Longrightarrow> prv h' p = prv h p"
  shows "links h' (q # ys) = links h (q # ys)" "links h' (zs @ [q]) = links h (zs @ [q])"
proof -
  show "links h' (q # ys) = links h (q # ys)"
  proof (rule links_cong)
    fix p assume "p \<in> set (butlast (q # ys))"
    then have "p \<noteq> last (q # ys)" "p \<in> set (q # ys)"
      using last_not_butlast [of "q # ys"] d by (metis distinct_append append_Cons, metis in_set_butlastD)
    with x show "nxt h' p = nxt h p" by (intro nx) auto
  next
    fix p assume "p \<in> set (tl (q # ys))"
    with d x show "prv h' p = prv h p" by (intro pv) (auto simp: hd_append)
  qed
  show "links h' (zs @ [q]) = links h (zs @ [q])"
  proof (rule links_cong)
    fix p assume "p \<in> set (butlast (zs @ [q]))"
    with d x hd_last_in(1) [of q ys] show "nxt h' p = nxt h p" by (intro nx) (auto simp del: last.simps)
  next
    fix p assume p: "p \<in> set (tl (zs @ [q]))"
    then have "p \<in> set (zs @ [q])" by (cases zs) auto
    moreover have "p \<noteq> hd (zs @ [q])" using hd_not_tl [of "zs @ [q]"] p d by auto
    ultimately show "prv h' p = prv h p" using x by (intro pv) auto
  qed
qed

lemma ring_insert:
  assumes "ring h q (ys @ zs)" "new \<notin> set (q # ys @ zs)"
  shows "ring (list_add_between new (last (q # ys)) (hd (zs @ [q])) h) q (ys @ new # zs)"
proof -
  define p n where pn: "p = last (q # ys)" "n = hd (zs @ [q])"
  let ?h = "list_add_between new p n h"
  from assms(1) have r: "distinct (q # ys @ zs)" "links h (q # ys)" "links h (zs @ [q])"
    by (simp_all add: ring_cut)
  have l: "links ?h (q # ys)" "links ?h (zs @ [q])"
    using cut_untouched [OF r(1) assms(2), of ?h h, folded pn] r(2,3) by (simp_all add: list_add_between_simps)
  have "p \<in> set (q # ys)" "n \<in> set (q # zs)" unfolding pn by (rule hd_last_in)+
  then have ne: "p \<noteq> new" "n \<noteq> new" using assms(2) by auto
  from l(2) ne have "links ?h (new # zs @ [q])"
    using links_append [of "[new]" "zs @ [q]" ?h] by (simp add: list_add_between_simps flip: pn(2))
  with l(1) ne have "ring ?h q (ys @ new # zs)"
    using r(1) assms(2) unfolding ring_cut pn(1) [symmetric] by (auto simp: list_add_between_simps)
  then show ?thesis unfolding pn .
qed

lemma ring_remove:
  assumes "ring h q (ys @ x # zs)"
  shows "prv h x = last (q # ys)" "nxt h x = hd (zs @ [q])"
    "ring (list_del_between (prv h x) (nxt h x) h) q (ys @ zs)"
proof -
  define p n where pn: "p = last (q # ys)" "n = hd (zs @ [q])"
  from assms have r: "distinct (q # ys @ x # zs)" "links h (q # ys)" "links h (x # zs @ [q])" "prv h x = last (q # ys)"
    by (simp_all add: ring_cut)
  have l: "links h (zs @ [q])" "nxt h x = hd (zs @ [q])"
    using links_append [of "[x]" "zs @ [q]" h] r(3) by simp_all
  show "prv h x = last (q # ys)" "nxt h x = hd (zs @ [q])" by (rule r(4), rule l(2))
  let ?h = "list_del_between p n h"
  have d: "distinct (q # ys @ zs)" "x \<notin> set (q # ys @ zs)" using r(1) by auto
  have "links ?h (q # ys)" "links ?h (zs @ [q])"
    using cut_untouched [OF d, of ?h h, folded pn] r(2) l(1) by (simp_all add: list_add_between_simps)
  then have "ring ?h q (ys @ zs)"
    using d(1) unfolding ring_cut pn [symmetric] by (simp add: list_add_between_simps)
  then show "ring (list_del_between (prv h x) (nxt h x) h) q (ys @ zs)" unfolding r(4) l(2) pn .
qed

text \<open>The operations of the interface.\<close>

lemma ring_distinct: "ring h q xs \<Longrightarrow> distinct (q # xs)"
  by (simp add: ring_def)

lemma ring_ends: "ring h q xs \<Longrightarrow> nxt h q = hd (xs @ [q]) \<and> prv h q = last (q # xs)"
  using ring_cut [of h q "[]" xs] ring_cut [of h q xs "[]"] by simp

lemma ring_add: "ring h q xs \<Longrightarrow> x \<notin> set (q # xs) \<Longrightarrow> ring (list_add x q h) q (x # xs)"
  using ring_insert [of h q "[]" xs x] ring_ends [of h q xs] by (simp add: list_add_def)

lemma ring_add_tail: "ring h q xs \<Longrightarrow> x \<notin> set (q # xs) \<Longrightarrow> ring (list_add_tail x q h) q (xs @ [x])"
  using ring_insert [of h q xs "[]" x] ring_ends [of h q xs] by (simp add: list_add_tail_def)

lemma ring_del:
  assumes "ring h q xs" "x \<in> set xs"
  shows "ring (list_del_between (prv h x) (nxt h x) h) q (remove1 x xs)"
proof -
  from assms(2) obtain ys zs where xs: "xs = ys @ x # zs" "x \<notin> set ys" by (metis split_list_first)
  with ring_remove(3) [of h q ys x zs] assms(1) show ?thesis by (simp add: remove1_append)
qed

lemma ring_frame_between:
  assumes "ring h q' ys" "p \<notin> set (q' # ys)" "n \<notin> set (q' # ys)"
  shows "x \<notin> set (q' # ys) \<Longrightarrow> ring (list_add_between x p n h) q' ys" "ring (list_del_between p n h) q' ys"
  by (rule ring_frame [OF assms(1)]; use assms(2,3) in \<open>auto simp: list_add_between_simps\<close>)+

lemma ring_neighbours:
  assumes "ring h q xs" "x \<in> set xs"
  shows "prv h x \<in> set (q # xs)" "nxt h x \<in> set (q # xs)"
proof -
  from assms(2) obtain ys zs where xs: "xs = ys @ x # zs" by (metis split_list)
  with ring_remove(1,2) [of h q ys x zs] assms(1) hd_last_in(1) [of q ys] hd_last_in(2) [of zs q]
  show "prv h x \<in> set (q # xs)" "nxt h x \<in> set (q # xs)" by (auto simp del: last.simps)
qed

lemma ring_ends_in: "ring h q xs \<Longrightarrow> nxt h q \<in> set (q # xs) \<and> prv h q \<in> set (q # xs)"
  using ring_ends [of h q xs] hd_last_in by metis

lemma ring_move_frame:
  assumes "ring h q xs" "x \<in> set xs" "ring h q' ys" "set (q' # ys) \<inter> set (q # xs) = {}"
  shows "ring (list_del_between (prv h x) (nxt h x) h) q' ys"
    "ring (list_move x q h) q' ys" "ring (list_move_tail x q h) q' ys"
proof -
  let ?h = "list_del_between (prv h x) (nxt h x) h"
  note nb = ring_neighbours [OF assms(1,2)]
  show 1: "ring ?h q' ys"
    by (rule ring_frame_between(2) [OF assms(3)]) (use nb assms(4) in auto)
  have e: "nxt ?h q \<in> set (q # xs)" "prv ?h q \<in> set (q # xs)"
    using ring_ends_in [OF ring_del [OF assms(1,2)]] set_remove1_subset [of x xs] by auto
  show "ring (list_move x q h) q' ys" "ring (list_move_tail x q h) q' ys"
    unfolding list_move_def list_move_tail_def list_add_def list_add_tail_def
    by (rule ring_frame_between(1) [OF 1]; use e assms(2,4) in auto)+
qed

interpretation lh: linked_seq ring list_add list_add_tail list_del list_move list_move_tail
proof unfold_locales
  fix h q xs x
  assume r: "ring h q xs" "x \<in> set xs"
  from ring_distinct [OF r(1)] have "x \<notin> set (q # remove1 x xs)" using r(2) by auto
  then show "ring (list_move x q h) q (x # remove1 x xs)" "ring (list_move_tail x q h) q (remove1 x xs @ [x])"
    unfolding list_move_def list_move_tail_def using ring_del [OF r] by (auto intro!: ring_add ring_add_tail)
next
  fix h q xs q' ys x
  assume r: "ring h q xs" "ring h q' ys" "set (q' # ys) \<inter> set (x # q # xs) = {}"
  then show "ring (list_add x q h) q' ys" "ring (list_add_tail x q h) q' ys"
    unfolding list_add_def list_add_tail_def using ring_ends_in [OF r(1)]
    by (auto intro!: ring_frame_between(1))
qed (rule ring_distinct ring_add ring_add_tail ring_del [folded list_del_def] ring_move_frame [folded list_del_def]; assumption)+

section \<open>Loops, joining lists\<close>

lemma walk_nxt_ring: "ring h q (ys @ zs) \<Longrightarrow> walk_nxt h q (hd (zs @ [q])) = Some zs"
proof (induction zs arbitrary: ys)
  case Nil
  then show ?case by (simp add: walk_nxt.simps)
next
  case (Cons x zs)
  from ring_remove(2) [OF Cons.prems] Cons.IH [of "ys @ [x]"] Cons.prems ring_distinct [OF Cons.prems]
  show ?case by (subst walk_nxt.simps) auto
qed

lemma walk_prv_ring: "ring h q (ys @ zs) \<Longrightarrow> walk_prv h q (last (q # ys)) = Some (rev ys)"
proof (induction ys arbitrary: zs rule: rev_induct)
  case Nil
  then show ?case by (simp add: walk_prv.simps)
next
  case (snoc x ys)
  then have r: "ring h q (ys @ x # zs)" by simp
  from ring_remove(1) [OF r] snoc.IH [OF r] ring_distinct [OF r]
  show ?case by (subst walk_prv.simps) (auto simp del: last.simps simp: last_ConsR)
qed

lemma walk_safe_ring:
  "ring h q (ys @ zs) \<Longrightarrow>
   \<exists>h'. walk_safe P q (hd (zs @ [q])) (nxt h (hd (zs @ [q]))) h = Some h' \<and> ring h' q (ys @ filter (\<lambda>x. \<not> P x) zs)"
proof (induction zs arbitrary: ys h)
  case Nil
  then show ?case by (simp add: walk_safe.simps)
next
  case (Cons x zs)
  have x: "x \<noteq> q" "x \<notin> set ys" using ring_distinct [OF Cons.prems] by auto
  have n: "nxt h x = hd (zs @ [q])" using ring_remove(2) [OF Cons.prems] .
  show ?case
  proof (cases "P x")
    case True
    have "ring (list_del x h) q (ys @ zs)" using ring_remove(3) [OF Cons.prems] by (simp add: list_del_def)
    from Cons.IH [OF this] True x n show ?thesis by (subst walk_safe.simps) (simp add: Let_def)
  next
    case False
    from Cons.IH [of h "ys @ [x]"] Cons.prems False x n show ?thesis by (subst walk_safe.simps) (simp add: Let_def)
  qed
qed

lemma list_splice_at_simps:
  "nxt (list_splice_at l q h) = (nxt h)(q := nxt h l, prv h l := nxt h q)"
  "prv (list_splice_at l q h) = (prv h)(nxt h l := q, nxt h q := prv h l)"
  by (simp_all add: list_splice_at_def Let_def)

lemma ring_splice:
  assumes "ring h l xs" "ring h q ys" "set (l # xs) \<inter> set (q # ys) = {}" "xs \<noteq> []"
  shows "ring (list_splice_at l q h) q (xs @ ys)"
proof -
  let ?h = "list_splice_at l q h"
  define f where "f = hd xs"
  define e where "e = last xs"
  define n where "n = hd (ys @ [q])"
  have p: "nxt h l = f" "prv h l = e" "nxt h q = n"
    using ring_ends [OF assms(1)] ring_ends [OF assms(2)] assms(4) by (simp_all add: f_def e_def n_def hd_append)
  have s: "nxt ?h = (nxt h)(q := f, e := n)" "prv ?h = (prv h)(f := q, n := e)"
    by (simp_all add: list_splice_at_simps p)
  have in_sets: "f \<in> set xs" "e \<in> set xs" "n \<in> set (q # ys)"
    using assms(4) hd_last_in(2) [of ys q] by (auto simp: f_def e_def n_def)
  have d: "distinct (q # xs @ ys)" using ring_distinct [OF assms(1)] ring_distinct [OF assms(2)] assms(3) by auto
  have "links h (xs @ [l])" "links h (ys @ [q])"
    using assms(1,2) ring_cut [of h l "[]" xs] ring_cut [of h q "[]" ys] by simp_all
  then have l: "links h xs" "links h (ys @ [q])" using links_append [of xs "[l]" h] assms(4) by simp_all
  have 1: "links ?h xs = links h xs"
  proof (rule links_cong)
    fix p assume p: "p \<in> set (butlast xs)"
    then have "p \<noteq> e" "p \<in> set xs" using last_not_butlast [of xs] d by (auto simp: e_def dest: in_set_butlastD)
    then show "nxt ?h p = nxt h p" using d by (auto simp: s)
  next
    fix p assume p: "p \<in> set (tl xs)"
    then have "p \<noteq> f" "p \<in> set xs" using hd_not_tl [of xs] d by (auto simp: f_def intro: in_set_tlD)
    then show "prv ?h p = prv h p" using d in_sets(3) by (auto simp: s)
  qed
  have 2: "links ?h (ys @ [q]) = links h (ys @ [q])"
  proof (rule links_cong)
    fix p assume "p \<in> set (butlast (ys @ [q]))"
    then show "nxt ?h p = nxt h p" using d in_sets by (auto simp: s)
  next
    fix p assume p: "p \<in> set (tl (ys @ [q]))"
    then have "p \<noteq> n" "p \<in> set (ys @ [q])" using hd_not_tl [of "ys @ [q]"] d
      by (auto simp: n_def dest: in_set_tlD)
    then show "prv ?h p = prv h p" using d in_sets(1) by (auto simp: s)
  qed
  have "e \<noteq> q" "f \<noteq> n" using in_sets d by auto
  then have "links ?h (xs @ ys @ [q])"
    using links_append [of xs "ys @ [q]" ?h] 1 2 l assms(4) by (simp add: s e_def [symmetric] n_def [symmetric])
  with \<open>e \<noteq> q\<close> \<open>f \<noteq> n\<close> have "links ?h (q # xs @ ys @ [q])"
    using links_append [of "[q]" "xs @ ys @ [q]" ?h] assms(4) by (simp add: s f_def [symmetric])
  with d show ?thesis by (simp add: ring_def)
qed

section \<open>Properties\<close>

text \<open>
  C25. The pointer operations are the operations on sequences. Any run of additions, removals and moves on a
  list leaves a ring whose entries are those of the same run on a sequence; walking it forwards visits them
  in order, walking it backwards in reverse, it tests empty when there are none, a safe walk that deletes
  some entries leaves the others in order, and every list that shares no node with the run is as before.
\<close>

theorem list_refines_sequence:
  assumes "ring h q xs" "seq_run q ops xs = Some zs"
    and "h' = heap_run list_add list_add_tail list_del list_move list_move_tail q ops h"
  shows "ring h' q zs \<and> list_for_each q h' = Some zs \<and> list_for_each_prev q h' = Some (rev zs)
    \<and> (list_empty q h' \<longleftrightarrow> zs = [])
    \<and> (\<exists>h''. list_for_each_safe P q h' = Some h'' \<and> ring h'' q (filter (\<lambda>x. \<not> P x) zs))
    \<and> (\<forall>q' ys. ring h q' ys \<longrightarrow> (\<forall>y\<in>set (q' # ys). y \<notin> set (q # xs) \<and> y \<notin> op_node ` set ops) \<longrightarrow> ring h' q' ys)"
proof -
  have r: "ring h' q zs" unfolding assms(3) by (rule lh.run_refines [OF assms(1,2)])
  note e = ring_ends [OF r]
  have "list_for_each q h' = Some zs" "list_for_each_prev q h' = Some (rev zs)"
    using walk_nxt_ring [of h' q "[]" zs] walk_prv_ring [of h' q zs "[]"] r e
    by (simp_all add: list_for_each_def list_for_each_prev_def)
  moreover have "list_empty q h' \<longleftrightarrow> zs = []"
    using e ring_distinct [OF r] by (cases zs) (auto simp: list_empty_def)
  moreover have "\<exists>h''. list_for_each_safe P q h' = Some h'' \<and> ring h'' q (filter (\<lambda>x. \<not> P x) zs)"
    using walk_safe_ring [of h' q "[]" zs P] r e by (simp add: list_for_each_safe_def Let_def)
  moreover have "ring h' q' ys"
    if "ring h q' ys" "\<forall>y\<in>set (q' # ys). y \<notin> set (q # xs) \<and> y \<notin> op_node ` set ops" for q' ys
    unfolding assms(3) by (rule lh.run_frame [OF assms(1) that(1) assms(2) that(2)])
  ultimately show ?thesis using r by blast
qed

text \<open>Joining two lists puts the entries of the first before those of the second and may empty the first.\<close>

lemma list_splice_ring:
  assumes "ring h l xs" "ring h q ys" "set (l # xs) \<inter> set (q # ys) = {}"
  shows "ring (list_splice l q h) q (xs @ ys)" "ring (list_splice_init l q h) q (xs @ ys)" "ring (list_splice_init l q h) l []"
proof -
  have e: "list_empty l h \<longleftrightarrow> xs = []"
    using ring_ends [OF assms(1)] ring_distinct [OF assms(1)] by (cases xs) (auto simp: list_empty_def)
  show "ring (list_splice l q h) q (xs @ ys)"
    using e assms ring_splice by (cases "xs = []") (auto simp: list_splice_def)
  have i: "ring (INIT_LIST_HEAD l g) l []" for g by (simp add: ring_def INIT_LIST_HEAD_def Let_def)
  show "ring (list_splice_init l q h) l []" using e i assms(1) by (cases "xs = []") (auto simp: list_splice_init_def)
  have "ring (INIT_LIST_HEAD l (list_splice_at l q h)) q (xs @ ys)" if "xs \<noteq> []"
    by (rule ring_frame [OF ring_splice [OF assms that]])
      (use assms(3) ring_distinct [OF assms(1)] in \<open>auto simp: INIT_LIST_HEAD_def Let_def\<close>)
  then show "ring (list_splice_init l q h) q (xs @ ys)" using e assms(2) by (cases "xs = []") (auto simp: list_splice_init_def)
qed

lemma list_del_init_ring:
  assumes "ring h q xs" "x \<in> set xs"
  shows "ring (list_del_init x h) q (remove1 x xs)" "ring (list_del_init x h) x []"
proof -
  have "x \<notin> set (q # remove1 x xs)" using ring_distinct [OF assms(1)] assms(2) by auto
  then show "ring (list_del_init x h) q (remove1 x xs)"
    unfolding list_del_init_def by (intro ring_frame [OF ring_del [OF assms]]) (auto simp: INIT_LIST_HEAD_def Let_def)
  show "ring (list_del_init x h) x []" by (simp add: list_del_init_def ring_def INIT_LIST_HEAD_def Let_def)
qed

theorem list_refines_sequence_witness:
  "\<exists>h'. h' = heap_run list_add list_add_tail list_del list_move list_move_tail 1 [AddTail 5, AddTail 6, AddHead 7, Del 5]
      (INIT_LIST_HEAD 1 \<lparr>nxt = (\<lambda>_. 0), prv = (\<lambda>_. 0)\<rparr>) \<and> list_for_each 1 h' = Some [7, 6] \<and> list_for_each_prev 1 h' = Some [6, 7]"
proof -
  have "ring (INIT_LIST_HEAD 1 \<lparr>nxt = (\<lambda>_. 0), prv = (\<lambda>_. 0)\<rparr>) 1 []" by (simp add: ring_def INIT_LIST_HEAD_def Let_def)
  from list_refines_sequence [OF this _ refl, of "[AddTail 5, AddTail 6, AddHead 7, Del 5]"]
  show ?thesis by (simp del: heap_run.simps)
qed

end
