(* ===== verification/Iw_Avl_Trav.thy ===== *)
theory Iw_Avl_Trav
  imports Iw_Avl
begin

text \<open>
  The traversers of the balanced tree (\<open>iwarp/avl.c\<close>): a traverser stands at a node and keeps the nodes above it on a
  stack, which it finds again when the tree has been restructured since. The pointers of a traverser outlive
  changes of the tree, so a node is named by its item here, of which there is one of each in a tree; a pointer to a node
  that is gone is followed to \<open>Exit\<close>, as is a push onto a full stack. The lemmas show that a traverser goes
  through the items in order, in both directions, and that a copy has the copied items in the same tree.
\<close>

section \<open>The code\<close>

record 'a avl_traverser =
  tr_node :: "'a option"
  tr_stack :: "'a list"
  tr_generation :: u64

text \<open>The node that a pointer leads to.\<close>

fun node_of :: "'a \<Rightarrow> 'a avl_node \<Rightarrow> 'a avl_node" where
  "node_of x Leaf = Leaf"
| "node_of x (Node l y b r) =
     (if x = y then Node l y b r else case node_of x l of Leaf \<Rightarrow> node_of x r | Node _ _ _ _ \<Rightarrow> node_of x l)"

text \<open>\<open>while (x->avl_link[d] != NULL) push and follow\<close>.\<close>

fun trav_down :: "bool \<Rightarrow> 'a avl_node \<Rightarrow> 'a list \<Rightarrow> ('a option \<times> 'a list) outcome" where
  "trav_down d Leaf st = Done (None, st)"
| "trav_down d (Node l x b r) st =
     (if (if d then r else l) = Leaf then Done (Some x, st)
      else if length st \<ge> AVL_MAX_HEIGHT then Exit
      else if d then trav_down d r (x # st) else trav_down d l (x # st))"

text \<open>\<open>do { if (height == 0) stop; y = x; x = pop } while (y == x->avl_link[d])\<close>.\<close>

fun trav_up :: "bool \<Rightarrow> 'a avl_node \<Rightarrow> 'a \<Rightarrow> 'a list \<Rightarrow> ('a option \<times> 'a list) outcome" where
  "trav_up d root y [] = Done (None, [])"
| "trav_up d root y (x # st) =
     (case node_of x root of
        Leaf \<Rightarrow> Exit
      | Node l z b r \<Rightarrow>
          (case (if d then r else l) of
             Leaf \<Rightarrow> Done (Some x, st)
           | Node _ z _ _ \<Rightarrow> if z = y then trav_up d root x st else Done (Some x, st)))"

fun trav_path :: "('a \<Rightarrow> 'a \<Rightarrow> int) \<Rightarrow> 'a \<Rightarrow> 'a avl_node \<Rightarrow> 'a list \<Rightarrow> 'a list outcome" where
  "trav_path compare x Leaf st = Exit"
| "trav_path compare x (Node l y b r) st =
     (if x = y then Done st
      else if length st \<ge> AVL_MAX_HEIGHT then Exit
      else if compare x y > 0 then trav_path compare x r (y # st) else trav_path compare x l (y # st))"

text \<open>The data of a node that is gone is read when the path to it is looked for.\<close>

definition trav_refresh :: "'a avl_table \<Rightarrow> 'a avl_traverser \<Rightarrow> 'a avl_traverser outcome" where
  "trav_refresh tree trav =
     (let trav = trav\<lparr>tr_generation := avl_generation tree\<rparr>
      in case tr_node trav of
           None \<Rightarrow> Done trav
         | Some x \<Rightarrow> bindO (trav_path (avl_compare tree) x (avl_root tree) []) (\<lambda>st. Done (trav\<lparr>tr_stack := st\<rparr>)))"

definition avl_t_init :: "'a avl_table \<Rightarrow> 'a avl_traverser" where
  "avl_t_init tree = \<lparr>tr_node = None, tr_stack = [], tr_generation = avl_generation tree\<rparr>"

definition avl_t_end :: "bool \<Rightarrow> 'a avl_table \<Rightarrow> ('a option \<times> 'a avl_traverser) outcome" where
  "avl_t_end d tree = bindO (trav_down d (avl_root tree) []) (\<lambda>(x, st).
     Done (x, \<lparr>tr_node = x, tr_stack = st, tr_generation = avl_generation tree\<rparr>))"

definition avl_t_first :: "'a avl_table \<Rightarrow> ('a option \<times> 'a avl_traverser) outcome" where
  "avl_t_first = avl_t_end False"

definition avl_t_last :: "'a avl_table \<Rightarrow> ('a option \<times> 'a avl_traverser) outcome" where
  "avl_t_last = avl_t_end True"

fun trav_find :: "('a \<Rightarrow> 'a \<Rightarrow> int) \<Rightarrow> 'a \<Rightarrow> 'a avl_node \<Rightarrow> 'a list \<Rightarrow> ('a option \<times> 'a list) outcome" where
  "trav_find compare item Leaf st = Done (None, [])"
| "trav_find compare item (Node l x b r) st =
     (let cmp = compare item x
      in if cmp = 0 then Done (Some x, st)
         else if length st \<ge> AVL_MAX_HEIGHT then Exit
         else if cmp < 0 then trav_find compare item l (x # st) else trav_find compare item r (x # st))"

definition avl_t_find :: "'a avl_table \<Rightarrow> 'a \<Rightarrow> ('a option \<times> 'a avl_traverser) outcome" where
  "avl_t_find tree item = bindO (trav_find (avl_compare tree) item (avl_root tree) []) (\<lambda>(x, st).
     Done (x, \<lparr>tr_node = x, tr_stack = st, tr_generation = avl_generation tree\<rparr>))"

text \<open>The stack of the traverser stays what it was; that it is out of date is noted in the generation.\<close>

definition avl_t_insert :: "'a avl_traverser \<Rightarrow> 'a avl_table \<Rightarrow> 'a \<Rightarrow> ('a \<times> 'a avl_traverser \<times> 'a avl_table) outcome" where
  "avl_t_insert trav tree item = bindO (avl_probe tree item) (\<lambda>r.
     let (x, tree) = (case r of Inl dup \<Rightarrow> (dup, tree) | Inr tree \<Rightarrow> (item, tree))
     in Done (x, trav\<lparr>tr_node := Some x, tr_generation := avl_generation tree - 1\<rparr>, tree))"

definition avl_t_copy :: "'a avl_table \<Rightarrow> 'a avl_traverser \<Rightarrow> 'a avl_traverser \<Rightarrow> 'a option \<times> 'a avl_traverser" where
  "avl_t_copy tree trav src =
     (let trav = trav\<lparr>tr_node := tr_node src, tr_generation := tr_generation src\<rparr>;
          trav = (if tr_generation trav = avl_generation tree then trav\<lparr>tr_stack := tr_stack src\<rparr> else trav)
      in (tr_node trav, trav))"

text \<open>\<open>avl_t_next\<close> for link 1 and \<open>avl_t_prev\<close> for link 0.\<close>

definition trav_step :: "bool \<Rightarrow> 'a avl_table \<Rightarrow> 'a avl_traverser \<Rightarrow> ('a option \<times> 'a avl_traverser) outcome" where
  "trav_step d tree trav =
     bindO (if tr_generation trav \<noteq> avl_generation tree then trav_refresh tree trav else Done trav) (\<lambda>trav.
       case tr_node trav of
         None \<Rightarrow> avl_t_end (\<not> d) tree
       | Some x \<Rightarrow>
           (case node_of x (avl_root tree) of
              Leaf \<Rightarrow> Exit
            | Node l y b r \<Rightarrow>
                bindO (if (if d then r else l) \<noteq> Leaf
                       then if length (tr_stack trav) \<ge> AVL_MAX_HEIGHT then Exit
                            else trav_down (\<not> d) (if d then r else l) (x # tr_stack trav)
                       else trav_up d (avl_root tree) x (tr_stack trav)) (\<lambda>(z, st).
                  Done (z, trav\<lparr>tr_node := z, tr_stack := st\<rparr>))))"

definition avl_t_next :: "'a avl_table \<Rightarrow> 'a avl_traverser \<Rightarrow> ('a option \<times> 'a avl_traverser) outcome" where
  "avl_t_next = trav_step True"

definition avl_t_prev :: "'a avl_table \<Rightarrow> 'a avl_traverser \<Rightarrow> ('a option \<times> 'a avl_traverser) outcome" where
  "avl_t_prev = trav_step False"

definition avl_t_cur :: "'a avl_traverser \<Rightarrow> 'a option" where
  "avl_t_cur trav = tr_node trav"

text \<open>Another item in the place of one: the node gets another name.\<close>

fun set_item :: "'a \<Rightarrow> 'a \<Rightarrow> 'a avl_node \<Rightarrow> 'a avl_node" where
  "set_item old new Leaf = Leaf"
| "set_item old new (Node l x b r) = Node (set_item old new l) (if x = old then new else x) b (set_item old new r)"

definition avl_t_replace :: "'a avl_traverser \<Rightarrow> 'a avl_table \<Rightarrow> 'a \<Rightarrow> ('a \<times> 'a avl_traverser \<times> 'a avl_table) outcome" where
  "avl_t_replace trav tree new =
     (case tr_node trav of
        None \<Rightarrow> Exit
      | Some old \<Rightarrow> Done (old, trav\<lparr>tr_node := Some new\<rparr>, tree\<lparr>avl_root := set_item old new (avl_root tree)\<rparr>))"

definition avl_replace :: "'a avl_table \<Rightarrow> 'a \<Rightarrow> ('a option \<times> 'a avl_table) outcome" where
  "avl_replace tree item = bindO (avl_probe tree item) (\<lambda>r. case r of
       Inl dup \<Rightarrow> Done (if dup = item then (None, tree) else (Some dup, tree\<lparr>avl_root := set_item dup item (avl_root tree)\<rparr>))
     | Inr tree' \<Rightarrow> Done (None, tree'))"

definition avl_assert_insert :: "'a avl_table \<Rightarrow> 'a \<Rightarrow> 'a avl_table outcome" where
  "avl_assert_insert tree item = bindO (avl_probe tree item) (\<lambda>r. case r of
       Inl dup \<Rightarrow> if dup = item then Done tree else Exit
     | Inr tree' \<Rightarrow> Done tree')"

definition avl_assert_delete :: "'a avl_table \<Rightarrow> 'a \<Rightarrow> ('a \<times> 'a avl_table) outcome" where
  "avl_assert_delete tree item = bindO (avl_delete tree item) (\<lambda>(x, tree). case x of None \<Rightarrow> Exit | Some x \<Rightarrow> Done (x, tree))"

section \<open>Copying\<close>

text \<open>
  \<open>avl_copy\<close> goes down the left links with a stack of the nodes whose left subtree is under way, and copies the data of a
  node between its two subtrees. \<open>h\<close> is the height of the stack, two entries for a node, \<open>got\<close> the items copied so far in
  order, \<open>ms\<close> the answers of the allocator. On failure \<open>destroy\<close>, if it is given, is called for the items of the new
  tree; the nodes on the stack have no data yet, so that it is undefined what it is called with unless there are none.
\<close>

definition copy_error_recovery :: "bool \<Rightarrow> nat \<Rightarrow> 'b list \<Rightarrow> bool list \<Rightarrow> (('b list + 'b avl_node) \<times> bool list) outcome" where
  "copy_error_recovery destroy h got ms = (if destroy \<and> h > 2 then Exit else Done (Inl (if destroy then got else []), ms))"

fun copy_node :: "bool \<Rightarrow> ('a \<Rightarrow> 'b option) \<Rightarrow> nat \<Rightarrow> 'b list \<Rightarrow> 'a avl_node \<Rightarrow> bool list \<Rightarrow> (('b list + 'b avl_node) \<times> bool list) outcome" where
  "copy_node destroy copy h got Leaf ms = Done (Inr Leaf, ms)"
| "copy_node destroy copy h got (Node l x b r) ms =
     bindO (if l = Leaf then Done (Inr Leaf, ms)
            else if h \<ge> 2 * (AVL_MAX_HEIGHT + 1) then Exit
            else case ms of True # ms \<Rightarrow> copy_node destroy copy (h + 2) got l ms | _ \<Rightarrow> copy_error_recovery destroy h got (tl ms)) (\<lambda>(cl, ms).
     case cl of Inl items \<Rightarrow> Done (Inl items, ms) | Inr l' \<Rightarrow>
       let got = got @ inorder l'
       in case copy x of
            None \<Rightarrow> copy_error_recovery destroy h got ms
          | Some y \<Rightarrow>
              bindO (if r = Leaf then Done (Inr Leaf, ms)
                     else case ms of True # ms \<Rightarrow> copy_node destroy copy h (got @ [y]) r ms
                          | _ \<Rightarrow> copy_error_recovery destroy h (got @ [y]) (tl ms)) (\<lambda>(cr, ms).
                case cr of Inl items \<Rightarrow> Done (Inl items, ms) | Inr r' \<Rightarrow> Done (Inr (Node l' y b r'), ms)))"

text \<open>
  The result is the items handed to \<open>destroy\<close>, or the new table, with the same comparison, here on the copies. The first
  allocation is the table's, the second the root's.
\<close>

definition avl_copy :: "bool \<Rightarrow> ('a \<Rightarrow> 'b option) \<Rightarrow> ('b \<Rightarrow> 'b \<Rightarrow> int) \<Rightarrow> 'a avl_table \<Rightarrow> bool list \<Rightarrow> ('b list + 'b avl_table) outcome" where
  "avl_copy destroy copy compare org ms =
     (case ms of
        True # ms \<Rightarrow>
          let new = (avl_create compare)\<lparr>avl_count := avl_count org\<rparr>
          in if avl_count org = 0 then Done (Inr new)
             else if avl_root org = Leaf then Exit
             else (case ms of
                True # ms \<Rightarrow> bindO (copy_node destroy copy 2 [] (avl_root org) ms) (\<lambda>(c, ms). case c of
                    Inl items \<Rightarrow> Done (Inl items)
                  | Inr root \<Rightarrow> Done (Inr (new\<lparr>avl_root := root\<rparr>)))
              | _ \<Rightarrow> Done (Inl []))
      | _ \<Rightarrow> Done (Inl []))"

section \<open>Where a traverser stands\<close>

abbreviation names :: "'a frame list \<Rightarrow> 'a list" where
  "names fs \<equiv> map (\<lambda>(d, s, x, b). x) fs"

definition stands :: "'a \<Rightarrow> 'a avl_node \<Rightarrow> 'a list \<Rightarrow> bool" where
  "stands x root st \<longleftrightarrow> (\<exists>l b r fs. root = plug (Node l x b r) fs \<and> st = names fs)"

definition first_of :: "'a list \<Rightarrow> 'a option" where
  "first_of xs = (case xs of [] \<Rightarrow> None | x # _ \<Rightarrow> Some x)"

lemma first_of_simps [simp]: "first_of [] = None" "first_of (x # xs) = Some x"
  by (simp_all add: first_of_def)

lemma first_of_append: "xs \<noteq> [] \<Longrightarrow> first_of (xs @ ys) = first_of xs"
  by (cases xs) simp_all

text \<open>The items on the way that \<open>d\<close> goes: of a tree, and beyond a gap.\<close>

abbreviation items :: "bool \<Rightarrow> 'a avl_node \<Rightarrow> 'a list" where
  "items d t \<equiv> (if d then inorder t else rev (inorder t))"

abbreviation beyond :: "bool \<Rightarrow> 'a frame list \<Rightarrow> 'a list" where
  "beyond d fs \<equiv> (if d then after fs else rev (before fs))"

lemma node_of_absent: "x \<notin> set (inorder t) \<Longrightarrow> node_of x t = Leaf"
  by (induction t) auto

lemma node_of_plug:
  "distinct (inorder (plug t fs)) \<Longrightarrow> x \<in> set (inorder t) \<Longrightarrow> node_of x (plug t fs) = node_of x t"
proof (induction t fs rule: plug.induct)
  case (2 t s y b fs)
  have "distinct (inorder (Node s y b t))" using 2(2) by (auto simp: inorder_plug)
  with 2(3) have "x \<noteq> y" "x \<notin> set (inorder s)" by auto
  with 2 show ?case by (simp add: node_of_absent)
next
  case (3 t s y b fs)
  have "distinct (inorder (Node t y b s))" using 3(2) by (auto simp: inorder_plug)
  with 3(3) have "x \<noteq> y" "x \<notin> set (inorder s)" by auto
  with 3 show ?case by (simp add: node_of_absent split: avl_node.splits)
qed simp

lemma node_of_here: "distinct (inorder (plug (Node l x b r) fs)) \<Longrightarrow> node_of x (plug (Node l x b r) fs) = Node l x b r"
  by (simp add: node_of_plug)

lemma trav_down_ok:
  assumes "t \<noteq> Leaf" "ht_of t + length fs \<le> AVL_MAX_HEIGHT"
  shows "\<exists>x st. trav_down d t (names fs) = Done (Some x, st) \<and> stands x (plug t fs) st \<and> first_of (items (\<not> d) t) = Some x"
  using assms
proof (induction t arbitrary: fs)
  case (Node l x b r)
  show ?case
  proof (cases d)
    case True
    show ?thesis
    proof (cases "r = Leaf")
      case False
      have "ht_of r + length ((True, l, x, b) # fs) \<le> AVL_MAX_HEIGHT" using Node.prems by simp
      from Node.IH(2) [OF False this] obtain z st where "trav_down d r (x # names fs) = Done (Some z, st)"
        "stands z (plug (Node l x b r) fs) st" "first_of (items (\<not> d) r) = Some z" by auto
      moreover have "length fs < AVL_MAX_HEIGHT" using Node.prems False by (cases r) auto
      ultimately show ?thesis using True False by (auto simp: first_of_append)
    qed (auto simp: True stands_def)
  next
    case d: False
    show ?thesis
    proof (cases "l = Leaf")
      case False
      have "ht_of l + length ((False, r, x, b) # fs) \<le> AVL_MAX_HEIGHT" using Node.prems by simp
      from Node.IH(1) [OF False this] obtain z st where "trav_down d l (x # names fs) = Done (Some z, st)"
        "stands z (plug (Node l x b r) fs) st" "first_of (items (\<not> d) l) = Some z" by auto
      moreover have "length fs < AVL_MAX_HEIGHT" using Node.prems False by (cases l) auto
      ultimately show ?thesis using d False by (auto simp: first_of_append)
    qed (auto simp: d stands_def)
  qed
qed simp

lemma trav_up_ok:
  assumes "root = plug (Node l x b r) fs" "distinct (inorder root)"
  shows "\<exists>st. trav_up d root x (names fs) = Done (first_of (beyond d fs), st)
    \<and> (\<forall>z. first_of (beyond d fs) = Some z \<longrightarrow> stands z root st)"
  using assms
proof (induction fs arbitrary: l x b r)
  case (Cons f fs)
  obtain e s y c where f: "f = (e, s, y, c)" by (cases f) auto
  let ?t = "Node l x b r"
  let ?u = "if e then Node s y c ?t else Node ?t y c s"
  have root: "root = plug ?u fs" using Cons.prems(1) by (simp add: f)
  have u: "distinct (inorder ?u)" "node_of y root = ?u"
    using Cons.prems(2) node_of_plug [of ?u fs y] unfolding root by (auto simp: inorder_plug split: if_splits)
  have at: "stands y root (names fs)" unfolding root stands_def by (cases e) auto
  show ?case
  proof (cases "d = e")
    case True
    have "\<exists>st. trav_up d root y (names fs) = Done (first_of (beyond d fs), st)
      \<and> (\<forall>z. first_of (beyond d fs) = Some z \<longrightarrow> stands z root st)"
      using Cons.IH Cons.prems(2) root by (cases e) auto
    with True u(2) show ?thesis by (cases e) (auto simp: f)
  next
    case False
    have "trav_up d root x (y # names fs) = Done (Some y, names fs)"
      using False u by (cases e) (auto split: avl_node.splits)
    with False at show ?thesis by (cases e) (auto simp: f)
  qed
qed simp

lemma trav_path_ok:
  assumes "cmp_key compare key S" "x \<in> S"
  shows "set (inorder t) \<subseteq> S \<Longrightarrow> key_sorted key (inorder t) \<Longrightarrow> x \<in> set (inorder t) \<Longrightarrow> ht_of t + length fs \<le> AVL_MAX_HEIGHT \<Longrightarrow>
    \<exists>st. trav_path compare x t (names fs) = Done st \<and> stands x (plug t fs) st"
proof (induction t arbitrary: fs)
  case (Node l y b r)
  have "length fs < AVL_MAX_HEIGHT" using Node.prems by simp
  show ?case
  proof (cases "x = y")
    case False
    have sub: "y \<in> S" "set (inorder l) \<subseteq> S" "set (inorder r) \<subseteq> S" "key_sorted key (inorder l)" "key_sorted key (inorder r)"
      using Node.prems(1,2) by (auto simp: key_sorted_simps)
    have c: "compare x y > 0 \<longleftrightarrow> x \<in> set (inorder r)"
      using Node.prems(2,3) False cmp_keyD(2) [OF assms sub(1)] by (auto simp: key_sorted_simps dest: less_asym)
    show ?thesis
    proof (cases "x \<in> set (inorder r)")
      case True
      from Node.IH(2) [OF sub(3,5) True, of "(True, l, y, b) # fs"] Node.prems(4) True c False show ?thesis by simp
    next
      case in_r: False
      with Node.prems(3) False have "x \<in> set (inorder l)" by auto
      from Node.IH(1) [OF sub(2,4) this, of "(False, r, y, b) # fs"] Node.prems(4) in_r c False show ?thesis by simp
    qed
  qed (auto simp: stands_def)
qed simp

lemma trav_find_ok:
  assumes "cmp_key compare key (insert item S)"
  shows "set (inorder t) \<subseteq> S \<Longrightarrow> key_sorted key (inorder t) \<Longrightarrow> ht_of t + length fs \<le> AVL_MAX_HEIGHT \<Longrightarrow>
    \<exists>st. trav_find compare item t (names fs) = Done (avl_find_from compare item t, st)
      \<and> (\<forall>x. avl_find_from compare item t = Some x \<longrightarrow> stands x (plug t fs) st)"
proof (induction t arbitrary: fs)
  case (Node l x b r)
  have h: "length fs < AVL_MAX_HEIGHT" "ht_of l + length ((False, r, x, b) # fs) \<le> AVL_MAX_HEIGHT"
    "ht_of r + length ((True, l, x, b) # fs) \<le> AVL_MAX_HEIGHT" using Node.prems by simp_all
  have sub: "set (inorder l) \<subseteq> S" "set (inorder r) \<subseteq> S" "key_sorted key (inorder l)" "key_sorted key (inorder r)"
    using Node.prems(1,2) by (auto simp: key_sorted_simps)
  show ?case
    using h(1) Node.IH(1) [OF sub(1,3) h(2)] Node.IH(2) [OF sub(2,4) h(3)] by (auto simp: Let_def stands_def)
qed simp

section \<open>A traverser that is in order\<close>

definition trav_ok :: "'a avl_table \<Rightarrow> 'a avl_traverser \<Rightarrow> bool" where
  "trav_ok tree trav \<longleftrightarrow> (\<forall>x. tr_node trav = Some x \<longrightarrow> x \<in> avl_items tree
     \<and> (tr_generation trav = avl_generation tree \<longrightarrow> stands x (avl_root tree) (tr_stack trav)))"

lemma stands_items: "stands x root st \<Longrightarrow> x \<in> set (inorder root)"
  by (auto simp: stands_def inorder_plug)

lemma trav_okI: "(\<And>x. tr_node trav = Some x \<Longrightarrow> stands x (avl_root tree) (tr_stack trav)) \<Longrightarrow> trav_ok tree trav"
  by (auto simp: trav_ok_def avl_items_def dest: stands_items)

lemma avl_ok_distinct: "avl_ok key S tree \<Longrightarrow> distinct (inorder (avl_root tree))"
  using key_sorted_inj by (auto simp: avl_ok_def)

lemma avl_t_end_ok:
  assumes "avl_ok key S tree" "avl_room tree"
  shows "\<exists>trav. avl_t_end d tree = Done (first_of (items (\<not> d) (avl_root tree)), trav)
    \<and> tr_node trav = first_of (items (\<not> d) (avl_root tree)) \<and> trav_ok tree trav"
proof (cases "avl_root tree = Leaf")
  case False
  from trav_down_ok [OF False, of "[]" d] avl_ok_height [OF assms] show ?thesis
    by (auto simp: avl_t_end_def intro!: trav_okI)
qed (simp add: avl_t_end_def trav_ok_def)

lemma trav_refresh_ok:
  assumes "avl_ok key S tree" "avl_room tree" "trav_ok tree trav" "tr_node trav = Some x"
  shows "\<exists>st. trav_refresh tree trav = Done (trav\<lparr>tr_generation := avl_generation tree, tr_stack := st\<rparr>) \<and> stands x (avl_root tree) st"
proof -
  have "x \<in> S" "set (inorder (avl_root tree)) \<subseteq> S" "key_sorted key (inorder (avl_root tree))" "x \<in> set (inorder (avl_root tree))"
    "cmp_key (avl_compare tree) key S"
    using assms(1,3,4) by (auto simp: avl_ok_def trav_ok_def avl_items_def)
  from trav_path_ok [OF this(5,1,2,3,4), of "[]"] avl_ok_height [OF assms(1,2)] show ?thesis
    by (auto simp: trav_refresh_def assms(4))
qed

text \<open>One step, forwards or backwards, whether or not the stack is out of date.\<close>

lemma trav_step_ok:
  assumes ok: "avl_ok key S tree" and room: "avl_room tree" and trav: "trav_ok tree trav" "tr_node trav = Some x"
    and pos: "inorder (avl_root tree) = xs @ x # ys"
  shows "\<exists>trav'. trav_step d tree trav = Done (first_of (if d then ys else rev xs), trav')
    \<and> tr_node trav' = first_of (if d then ys else rev xs) \<and> trav_ok tree trav'"
proof -
  let ?root = "avl_root tree"
  obtain u where u: "(if tr_generation trav \<noteq> avl_generation tree then trav_refresh tree trav else Done trav) = Done u"
    "tr_node u = Some x" "stands x ?root (tr_stack u)"
  proof (cases "tr_generation trav = avl_generation tree")
    case True
    then show ?thesis using that [of trav] trav by (simp add: trav_ok_def)
  next
    case False
    then show ?thesis using that trav_refresh_ok [OF ok room trav] trav(2) by auto
  qed
  then obtain l b r fs where root: "?root = plug (Node l x b r) fs" and st: "tr_stack u = names fs" by (auto simp: stands_def)
  note dist = avl_ok_distinct [OF ok]
  have n: "node_of x ?root = Node l x b r" using node_of_here dist unfolding root by metis
  have "before fs @ inorder l @ x # inorder r @ after fs = xs @ x # ys" using pos unfolding root by (simp add: inorder_plug)
  then have "(before fs @ inorder l) @ x # (inorder r @ after fs) = xs @ x # ys" by simp
  moreover have "x \<notin> set xs" "x \<notin> set ys" using dist unfolding pos by auto
  ultimately have xs: "xs = before fs @ inorder l" and ys: "ys = inorder r @ after fs"
    using append_Cons_eq_iff by metis+
  have h: "ht_of (Node l x b r) + length fs < AVL_MAX_HEIGHT"
    using path_le_ht [of "Node l x b r" fs] avl_ok_height [OF ok room] unfolding root by linarith
  let ?c = "if d then r else l" and ?f = "if d then (True, l, x, b) else (False, r, x, b)"
  have fst_eq: "first_of (if d then ys else rev xs) = first_of (items d ?c @ beyond d fs)" by (simp add: xs ys)
  show ?thesis
  proof (cases "?c = Leaf")
    case True
    from trav_up_ok [OF root dist, of d] obtain st' where
      "trav_up d ?root x (names fs) = Done (first_of (beyond d fs), st')" "\<forall>z. first_of (beyond d fs) = Some z \<longrightarrow> stands z ?root st'" by auto
    moreover have "items d ?c = []" using True by (cases d) simp_all
    ultimately show ?thesis using u n True unfolding fst_eq by (cases d) (auto simp: trav_step_def st intro!: trav_okI)
  next
    case False
    have "ht_of ?c + length (?f # fs) \<le> AVL_MAX_HEIGHT" using h by (cases d) auto
    from trav_down_ok [OF False this, of "\<not> d"] obtain z st' where
      z: "trav_down (\<not> d) ?c (x # names fs) = Done (Some z, st')" "stands z (plug ?c (?f # fs)) st'" "first_of (items d ?c) = Some z" by (cases d) auto
    have "plug ?c (?f # fs) = ?root" by (cases d) (simp_all add: root)
    moreover have "first_of (items d ?c @ beyond d fs) = Some z"
      using z(3) False by (subst first_of_append) (cases d; simp)+
    ultimately show ?thesis using u n False z(1,2) h unfolding fst_eq by (cases d) (auto simp: trav_step_def st intro!: trav_okI)
  qed
qed

lemma avl_t_find_ok:
  assumes "avl_ok key S tree" "avl_room tree" "item \<in> S"
  shows "\<exists>trav. avl_t_find tree item = Done (avl_find tree item, trav) \<and> tr_node trav = avl_find tree item \<and> trav_ok tree trav"
proof -
  have "cmp_key (avl_compare tree) key (insert item S)" "set (inorder (avl_root tree)) \<subseteq> S" "key_sorted key (inorder (avl_root tree))"
    using assms by (auto simp: avl_ok_def insert_absorb)
  from trav_find_ok [OF this, of "[]"] avl_ok_height [OF assms(1,2)] show ?thesis
    by (auto simp: avl_t_find_def avl_find_def intro!: trav_okI)
qed

text \<open>After an insertion the traverser stands at the item, with a stack that will be looked for.\<close>

lemma avl_t_insert_ok:
  assumes "avl_ok key S tree" "avl_room tree" "item \<in> S"
  shows "\<exists>x trav' tree'. avl_t_insert trav tree item = Done (x, trav', tree') \<and> avl_ok key S tree'
    \<and> key x = key item \<and> tr_node trav' = Some x \<and> trav_ok tree' trav'"
proof -
  let ?ks = "inorder (avl_root tree)"
  have ok: "avl (avl_root tree)" "ht_of (avl_root tree) \<le> AVL_MAX_HEIGHT" "cmp_key (avl_compare tree) key (insert item (set ?ks))" "key_sorted key ?ks"
    using assms(1) avl_ok_height [OF assms(1,2)] avl_ok_cmp [OF assms(1,3)] by (simp_all add: avl_ok_def)
  show ?thesis
  proof (cases "\<exists>x\<in>set ?ks. key x = key item")
    case True
    then obtain x where x: "x \<in> set ?ks" "key x = key item" by blast
    from avl_probe_old [OF ok(2,3,4) x] assms(1) x show ?thesis by (simp add: avl_t_insert_def trav_ok_def avl_items_def)
  next
    case False
    then have "\<forall>x\<in>set ?ks. key x \<noteq> key item" by blast
    from avl_probe_new [OF ok this] obtain tree' pre post where t: "avl_probe tree item = Done (Inr tree')" "avl (avl_root tree')"
      "avl_compare tree' = avl_compare tree" "avl_count tree' = avl_count tree + 1" "?ks = pre @ post"
      "inorder (avl_root tree') = pre @ item # post" "key_sorted key (inorder (avl_root tree'))" by auto
    moreover from t have "avl_ok key S tree'" using assms(1,3) by (simp add: avl_ok_def)
    ultimately show ?thesis by (simp add: avl_t_insert_def trav_ok_def avl_items_def)
  qed
qed

lemma avl_t_copy_ok: "trav_ok tree src \<Longrightarrow> trav_ok tree (snd (avl_t_copy tree trav src))"
  by (simp add: avl_t_copy_def trav_ok_def Let_def)

section \<open>All items in order\<close>

text \<open>\<open>for (x = avl_t_first (&trav, tree); x != NULL; x = avl_t_next (&trav))\<close>, with a bound on its rounds.\<close>

primrec avl_walk :: "nat \<Rightarrow> 'a avl_table \<Rightarrow> 'a option \<Rightarrow> 'a avl_traverser \<Rightarrow> 'a list option outcome" where
  "avl_walk 0 tree x trav = Done None"
| "avl_walk (Suc n) tree x trav =
     (case x of
        None \<Rightarrow> Done (Some [])
      | Some y \<Rightarrow> bindO (avl_t_next tree trav) (\<lambda>(x, trav). bindO (avl_walk n tree x trav) (\<lambda>ys. Done (map_option ((#) y) ys))))"

lemma avl_walk_from:
  assumes "avl_ok key S tree" "avl_room tree"
  shows "trav_ok tree trav \<Longrightarrow> tr_node trav = first_of ys \<Longrightarrow> inorder (avl_root tree) = xs @ ys \<Longrightarrow> length ys < n \<Longrightarrow>
    avl_walk n tree (first_of ys) trav = Done (Some ys)"
proof (induction ys arbitrary: n xs trav)
  case Nil
  then show ?case by (cases n) simp_all
next
  case (Cons y ys)
  then obtain m where m: "n = Suc m" "length ys < m" by (cases n) auto
  have pos: "inorder (avl_root tree) = xs @ y # ys" using Cons.prems(3) .
  from trav_step_ok [OF assms Cons.prems(1) _ pos, of True] Cons.prems(2) obtain trav' where
    t: "avl_t_next tree trav = Done (first_of ys, trav')" "tr_node trav' = first_of ys" "trav_ok tree trav'" by (auto simp: avl_t_next_def)
  from Cons.IH [OF t(3,2), of "xs @ [y]" m] pos m t(1) show ?case by simp
qed

theorem avl_traversal:
  assumes "avl_ok key S tree" "avl_room tree"
  shows "\<exists>x trav. avl_t_first tree = Done (x, trav)
    \<and> avl_walk (length (inorder (avl_root tree)) + 1) tree x trav = Done (Some (inorder (avl_root tree)))"
  using avl_t_end_ok [OF assms, of False] avl_walk_from [OF assms, of _ "inorder (avl_root tree)" "[]" "length (inorder (avl_root tree)) + 1"]
  by (auto simp: avl_t_first_def)

section \<open>A copy is the tree with its items copied\<close>

lemma copy_node_ok:
  assumes "\<And>x. x \<in> set (inorder t) \<Longrightarrow> copy x = Some (f x)" "h + 2 * ht_of t \<le> 2 * (AVL_MAX_HEIGHT + 1) + 2"
    "length (inorder t) \<le> k + 1"
  shows "\<exists>j. copy_node destroy copy h got t (replicate k True) = Done (Inr (map_avl_node f t), replicate j True)
    \<and> (t \<noteq> Leaf \<longrightarrow> k + 1 = j + length (inorder t)) \<and> (t = Leaf \<longrightarrow> j = k)"
  using assms
proof (induction t arbitrary: h got k)
  case (Node l x b r)
  have c: "copy x = Some (f x)" using Node.prems(1) by simp
  let ?l = "map_avl_node f l"
  have l: "\<exists>j. (if l = Leaf then Done (Inr Leaf, replicate k True)
            else if h \<ge> 2 * (AVL_MAX_HEIGHT + 1) then Exit
            else case replicate k True of True # ms \<Rightarrow> copy_node destroy copy (h + 2) got l ms | _ \<Rightarrow> copy_error_recovery destroy h got (tl (replicate k True)))
          = Done (Inr ?l, replicate j True) \<and> k = j + length (inorder l)"
  proof (cases "l = Leaf")
    case False
    then have "ht_of l \<noteq> 0" "ht_of l + 1 \<le> ht_of (Node l x b r)" by simp_all
    then have h: "h < 2 * (AVL_MAX_HEIGHT + 1)" "h + 2 + 2 * ht_of l \<le> 2 * (AVL_MAX_HEIGHT + 1) + 2"
      using Node.prems(2) by linarith+
    obtain m where m: "k = Suc m" using Node.prems(3) False by (cases k) (auto simp: Suc_le_eq)
    have "length (inorder l) \<le> m + 1" using Node.prems(3) m by simp
    from Node.IH(1) [OF _ h(2) this] Node.prems(1) False obtain j where
      cn: "copy_node destroy copy (h + 2) got l (replicate m True) = Done (Inr ?l, replicate j True)" and eq: "m + 1 = j + length (inorder l)" by auto
    show ?thesis unfolding m by (intro exI [of _ j] conjI, use False h(1) cn in simp, use eq in simp)
  qed auto
  then obtain j where j: "k = j + length (inorder l)" and
    le: "(if l = Leaf then Done (Inr Leaf, replicate k True)
            else if h \<ge> 2 * (AVL_MAX_HEIGHT + 1) then Exit
            else case replicate k True of True # ms \<Rightarrow> copy_node destroy copy (h + 2) got l ms | _ \<Rightarrow> copy_error_recovery destroy h got (tl (replicate k True)))
          = Done (Inr ?l, replicate j True)" by blast
  let ?got = "(got @ inorder ?l) @ [f x]"
  have "\<exists>i. (if r = Leaf then Done (Inr Leaf, replicate j True)
                     else case replicate j True of True # ms \<Rightarrow> copy_node destroy copy h ?got r ms
                          | _ \<Rightarrow> copy_error_recovery destroy h ?got (tl (replicate j True)))
          = Done (Inr (map_avl_node f r), replicate i True) \<and> j = i + length (inorder r)"
  proof (cases "r = Leaf")
    case False
    obtain m where m: "j = Suc m" using Node.prems(3) False j by (cases j) (auto simp: Suc_le_eq)
    have "ht_of r \<le> ht_of (Node l x b r)" by simp
    then have "length (inorder r) \<le> m + 1" "h + 2 * ht_of r \<le> 2 * (AVL_MAX_HEIGHT + 1) + 2"
      using Node.prems(2,3) m j by (simp, linarith)
    from Node.IH(2) [OF _ this(2,1), of ?got] Node.prems(1) False obtain i where
      cn: "copy_node destroy copy h ?got r (replicate m True) = Done (Inr (map_avl_node f r), replicate i True)" and eq: "m + 1 = i + length (inorder r)" by auto
    show ?thesis unfolding m by (intro exI [of _ i] conjI, use False cn in simp, use eq in simp)
  qed auto
  then obtain i where i: "j = i + length (inorder r)" and re: "(if r = Leaf then Done (Inr Leaf, replicate j True)
                     else case replicate j True of True # ms \<Rightarrow> copy_node destroy copy h ?got r ms
                          | _ \<Rightarrow> copy_error_recovery destroy h ?got (tl (replicate j True)))
          = Done (Inr (map_avl_node f r), replicate i True)" by blast
  have "copy_node destroy copy h got (Node l x b r) (replicate k True) = Done (Inr (map_avl_node f (Node l x b r)), replicate i True)"
    by (simp only: copy_node.simps le bindO.simps prod.case sum.case Let_def c option.case re avl_node.map)
  then show ?case using i j by (intro exI [of _ i]) simp
qed simp

lemma inorder_map [simp]: "inorder (map_avl_node f t) = map f (inorder t)"
  by (induction t) simp_all

lemma avl_map [simp]: "avl (map_avl_node f t) = avl t"
proof -
  have "ht_of (map_avl_node f t) = ht_of t" for t by (induction t) simp_all
  then show ?thesis by (induction t) simp_all
qed

theorem avl_copy_correct:
  assumes "avl_ok key S tree" "avl_room tree" "\<And>x. x \<in> avl_items tree \<Longrightarrow> copy x = Some (f x)"
  shows "\<exists>new. avl_copy destroy copy compare tree (replicate (length (inorder (avl_root tree)) + 1) True) = Done (Inr new)
    \<and> inorder (avl_root new) = map f (inorder (avl_root tree)) \<and> avl (avl_root new) \<and> avl_count new = avl_count tree"
proof -
  let ?t = "avl_root tree"
  have small: "length (inorder ?t) < 5702886" and count: "avl_count tree = of_nat (length (inorder ?t))" and bal: "avl ?t"
    using assms(1,2) by (simp_all add: avl_room_def avl_ok_def)
  have zero: "avl_count tree = 0 \<longleftrightarrow> ?t = Leaf"
  proof
    assume "avl_count tree = 0"
    then have "unat (of_nat (length (inorder ?t)) :: u64) = 0" using count by simp
    then have "length (inorder ?t) = 0" using small by (simp add: unat_of_nat)
    then show "?t = Leaf" by simp
  qed (simp add: count)
  show ?thesis
  proof (cases "?t = Leaf")
    case False
    then obtain k where k: "length (inorder ?t) = Suc k" by (cases "length (inorder ?t)") auto
    have "2 + 2 * ht_of ?t \<le> 2 * (AVL_MAX_HEIGHT + 1) + 2" using avl_ok_height [OF assms(1,2)] by simp
    from copy_node_ok [of ?t copy f 2 k destroy "[]"] this assms(3) False k obtain j where
      "copy_node destroy copy 2 [] ?t (replicate k True) = Done (Inr (map_avl_node f ?t), replicate j True)" by (auto simp: avl_items_def)
    then show ?thesis using zero False bal k by (simp add: avl_copy_def)
  qed (simp add: avl_copy_def zero [THEN iffD2] avl_create_def)
qed

end
