(* ===== verification/K_Cq.thy ===== *)
theory K_Cq
  imports Iw_Cq
begin

text \<open>
  Completion queues in the kernel module (\<open>kiwarp/cq.c\<close>): the ring of the user-level library, with a handle
  for user space and a count of the sockets that use the queue, kept on a list of the user's context. The
  ring is interpreted in the same interface; handles name at most one queue, and a queue in use stays.
\<close>

section \<open>The code\<close>

record k_cq =
  kq_handle :: u64
  kq_cqe :: "cqe list"
  kq_num :: int
  kq_prod :: int
  kq_cons :: int
  kq_refcnt :: int

text \<open>The part of the user's context that the queues are about; a queue is named by its handle.\<close>

record cq_ctx =
  cq_list :: "k_cq list"
  cq_list_next_handle :: u64

definition k_next_index :: "int \<Rightarrow> int \<Rightarrow> int" where
  "k_next_index cur num = (let next = cur + 1 in if next = num then 0 else next)"

definition k_cq_create :: "bool \<Rightarrow> cqe option \<Rightarrow> int \<Rightarrow> cq_ctx \<Rightarrow> k_cq option \<times> cq_ctx" where
  "k_cq_create kmalloc_cq kmalloc_cqe num uc =
     (if num \<le> 0 then (None, uc)
      else if \<not> kmalloc_cq then (None, uc)
      else case kmalloc_cqe of
        None \<Rightarrow> (None, uc)
      | Some junk \<Rightarrow>
          let cq = \<lparr>kq_handle = cq_list_next_handle uc, kq_cqe = replicate (nat num) junk, kq_num = num,
                    kq_prod = 0, kq_cons = 0, kq_refcnt = 0\<rparr>
          in (Some cq, uc\<lparr>cq_list_next_handle := cq_list_next_handle uc + 1, cq_list := cq # cq_list uc\<rparr>))"

definition k_cq_lookup :: "u64 \<Rightarrow> cq_ctx \<Rightarrow> k_cq option" where
  "k_cq_lookup h uc = find (\<lambda>cq. kq_handle cq = h) (cq_list uc)"

definition k_cq_destroy :: "k_cq \<Rightarrow> cq_ctx \<Rightarrow> int \<times> cq_ctx" where
  "k_cq_destroy cq uc =
     (if kq_refcnt cq \<noteq> 0 then (- EBUSY, uc)
      else (0, uc\<lparr>cq_list := filter (\<lambda>q. kq_handle q \<noteq> kq_handle cq) (cq_list uc)\<rparr>))"

definition k_cq_num_occupied :: "k_cq \<Rightarrow> int" where
  "k_cq_num_occupied cq =
     (let prod = kq_prod cq;
          prod = (if prod < kq_cons cq then prod + kq_num cq else prod)
      in prod - kq_cons cq)"

definition k_cq_isfull :: "k_cq \<Rightarrow> bool" where
  "k_cq_isfull cq \<longleftrightarrow> k_cq_num_occupied cq \<ge> kq_num cq - 1"

definition k_cq_produce :: "cqe \<Rightarrow> k_cq \<Rightarrow> int \<times> k_cq" where
  "k_cq_produce e cq =
     (let nextprod = k_next_index (kq_prod cq) (kq_num cq)
      in if nextprod = kq_cons cq then (- ENOSPC, cq)
         else (0, cq\<lparr>kq_cqe := (kq_cqe cq)[nat (kq_prod cq) := e], kq_prod := nextprod\<rparr>))"

definition k_cq_consume :: "k_cq \<Rightarrow> int \<times> cqe option \<times> k_cq" where
  "k_cq_consume cq =
     (if kq_prod cq = kq_cons cq then (- EAGAIN, None, cq)
      else (0, Some (kq_cqe cq ! nat (kq_cons cq)), cq\<lparr>kq_cons := k_next_index (kq_cons cq) (kq_num cq)\<rparr>))"

definition k_cq_get :: "k_cq \<Rightarrow> k_cq" where
  "k_cq_get cq = cq\<lparr>kq_refcnt := kq_refcnt cq + 1\<rparr>"

definition k_cq_put :: "k_cq \<Rightarrow> k_cq" where
  "k_cq_put cq = cq\<lparr>kq_refcnt := kq_refcnt cq - 1\<rparr>"

text \<open>A store through a pointer to a queue of the list.\<close>

definition k_cq_store :: "k_cq \<Rightarrow> cq_ctx \<Rightarrow> cq_ctx" where
  "k_cq_store cq uc = uc\<lparr>cq_list := map (\<lambda>q. if kq_handle q = kq_handle cq then cq else q) (cq_list uc)\<rparr>"

section \<open>The ring\<close>

text \<open>The ring of the user-level library inside the structure.\<close>

definition ring_of :: "k_cq \<Rightarrow> cq" where
  "ring_of q = \<lparr>cqe = kq_cqe q, num_cqe = kq_num q, cq_prod = kq_prod q, cq_cons = kq_cons q\<rparr>"

definition k_cq_inv :: "k_cq \<Rightarrow> bool" where
  "k_cq_inv q \<longleftrightarrow> cq_inv (ring_of q)"

lemma k_cq_ring:
  "cq_produce e (ring_of q) = (fst (k_cq_produce e q), ring_of (snd (k_cq_produce e q)))"
  "cq_isfull (ring_of q) = k_cq_isfull q"
  "cq_prod (ring_of q) = kq_prod q" "cq_cons (ring_of q) = kq_cons q"
  by (simp_all add: cq_produce_def k_cq_produce_def ring_of_def next_index_def k_next_index_def Let_def
    cq_isfull_def k_cq_isfull_def cq_num_occupied_def k_cq_num_occupied_def)

lemma k_cq_ring_consume:
  "cq_consume (ring_of q) = (if fst (k_cq_consume q) = 0 then 0 else - ENOENT, fst (snd (k_cq_consume q)), ring_of (snd (snd (k_cq_consume q))))"
  by (simp add: cq_consume_def k_cq_consume_def ring_of_def next_index_def k_next_index_def Let_def)

lemma k_cq_keeps:
  "kq_handle (snd (k_cq_produce e q)) = kq_handle q" "kq_refcnt (snd (k_cq_produce e q)) = kq_refcnt q"
  "kq_handle (snd (snd (k_cq_consume q))) = kq_handle q" "kq_refcnt (snd (snd (k_cq_consume q))) = kq_refcnt q"
  "kq_handle (k_cq_get q) = kq_handle q" "kq_handle (k_cq_put q) = kq_handle q"
  by (simp_all add: k_cq_produce_def k_cq_consume_def Let_def k_cq_get_def k_cq_put_def)

interpretation kq: bounded_fifo k_cq_produce k_cq_consume "\<lambda>q. cq_entries (ring_of q)" "\<lambda>q. cq_room (ring_of q)"
  k_cq_inv "- ENOSPC" "- EAGAIN"
proof unfold_locales
  fix q :: k_cq and e
  assume "k_cq_inv q" "length (cq_entries (ring_of q)) < cq_room (ring_of q)"
  from cq.put_room [OF this [unfolded k_cq_inv_def], of e]
  show "\<exists>q'. k_cq_produce e q = (0, q') \<and> k_cq_inv q' \<and> cq_entries (ring_of q') = cq_entries (ring_of q) @ [e]
      \<and> cq_room (ring_of q') = cq_room (ring_of q)"
    unfolding k_cq_inv_def by (cases "k_cq_produce e q") (auto simp: k_cq_ring)
next
  fix q :: k_cq and e
  assume "k_cq_inv q" "length (cq_entries (ring_of q)) = cq_room (ring_of q)"
  from cq.put_full [OF this [unfolded k_cq_inv_def], of e]
  show "k_cq_produce e q = (- ENOSPC, q)"
    by (auto simp: k_cq_ring k_cq_produce_def Let_def split: if_splits)
next
  fix q :: k_cq and e es
  assume "k_cq_inv q" "cq_entries (ring_of q) = e # es"
  from cq.get_some [OF this [unfolded k_cq_inv_def]]
  show "\<exists>q'. k_cq_consume q = (0, Some e, q') \<and> k_cq_inv q' \<and> cq_entries (ring_of q') = es
      \<and> cq_room (ring_of q') = cq_room (ring_of q)"
    unfolding k_cq_inv_def by (cases "k_cq_consume q") (auto simp: k_cq_ring_consume split: if_splits)
next
  fix q :: k_cq
  assume "k_cq_inv q" "cq_entries (ring_of q) = []"
  from cq.get_none [OF this [unfolded k_cq_inv_def]]
  show "k_cq_consume q = (- EAGAIN, None, q)"
    by (auto simp: k_cq_ring_consume k_cq_consume_def split: if_splits)
next
  fix q :: k_cq
  assume "k_cq_inv q"
  then show "length (cq_entries (ring_of q)) \<le> cq_room (ring_of q)" unfolding k_cq_inv_def by (rule cq.bounded)
qed simp

section \<open>Handles\<close>

text \<open>Handles are distinct, and below the next one; every ring is well formed.\<close>

definition cq_ctx_inv :: "cq_ctx \<Rightarrow> bool" where
  "cq_ctx_inv uc \<longleftrightarrow> distinct (map kq_handle (cq_list uc))
     \<and> (\<forall>q\<in>set (cq_list uc). kq_handle q < cq_list_next_handle uc \<and> k_cq_inv q)"

lemma find_handle: "find (\<lambda>q. kq_handle q = h) qs = map_of (map (\<lambda>q. (kq_handle q, q)) qs) h"
  by (induction qs) auto

lemma k_cq_lookup_iff: "distinct (map kq_handle (cq_list uc)) \<Longrightarrow>
  k_cq_lookup h uc = Some q \<longleftrightarrow> q \<in> set (cq_list uc) \<and> kq_handle q = h"
  by (auto simp: k_cq_lookup_def find_handle comp_def map_of_eq_Some_iff)

lemma find_filter_handle:
  "find (\<lambda>c. kq_handle c = h) (filter (\<lambda>c. kq_handle c \<noteq> g) cs) = (if h = g then None else find (\<lambda>c. kq_handle c = h) cs)"
  by (induction cs) auto

lemma k_cq_inv_steps:
  "k_cq_inv q \<Longrightarrow> k_cq_inv (snd (k_cq_produce e q))" "k_cq_inv q \<Longrightarrow> k_cq_inv (snd (snd (k_cq_consume q)))"
  "k_cq_inv (k_cq_get q) = k_cq_inv q" "k_cq_inv (k_cq_put q) = k_cq_inv q"
proof -
  show "k_cq_inv (snd (k_cq_produce e q))" if "k_cq_inv q"
    using kq.put_cases [OF that, of e] by (cases "k_cq_produce e q") auto
  show "k_cq_inv (snd (snd (k_cq_consume q)))" if "k_cq_inv q"
    using kq.get_cases [OF that] by (cases "k_cq_consume q") auto
qed (simp_all add: k_cq_inv_def k_cq_get_def k_cq_put_def ring_of_def)

text \<open>A store to a queue of the list keeps the list well formed, and changes what its handle names only.\<close>

lemma k_cq_store_inv:
  assumes "cq_ctx_inv uc" "k_cq_lookup (kq_handle q) uc = Some q0" "k_cq_inv q"
  shows "cq_ctx_inv (k_cq_store q uc)"
    "k_cq_lookup h (k_cq_store q uc) = (if h = kq_handle q then Some q else k_cq_lookup h uc)"
proof -
  let ?uc = "k_cq_store q uc"
  have m: "map kq_handle (cq_list ?uc) = map kq_handle (cq_list uc)" by (simp add: k_cq_store_def comp_def)
  then have d: "distinct (map kq_handle (cq_list ?uc))" using assms(1) by (simp add: cq_ctx_inv_def)
  have q0: "q0 \<in> set (cq_list uc)" "kq_handle q0 = kq_handle q"
    using assms(1,2) k_cq_lookup_iff [of uc] by (auto simp: cq_ctx_inv_def)
  show "cq_ctx_inv ?uc"
    using assms(1,3) d q0 by (fastforce simp: cq_ctx_inv_def k_cq_store_def)
  have "find (\<lambda>c. kq_handle c = h) (map (\<lambda>c. if kq_handle c = kq_handle q then q else c) qs)
      = (if h = kq_handle q \<and> h \<in> kq_handle ` set qs then Some q else find (\<lambda>c. kq_handle c = h) qs)" for qs
    by (induction qs) auto
  then show "k_cq_lookup h ?uc = (if h = kq_handle q then Some q else k_cq_lookup h uc)"
    using q0 by (auto simp: k_cq_lookup_def k_cq_store_def rev_image_eqI)
qed

section \<open>Properties\<close>

text \<open>
  Handles of completion queues. A queue that is created gets a handle that named none, and that handle
  then names the new queue, empty, which is first-in first-out under any calls; every other handle names what
  it did. A queue that is destroyed is no longer named by its handle and the others stay, but while it is in
  use (its count is not zero) it stays too and the caller is told \<open>-EBUSY\<close>.
\<close>

theorem k_cq_handles:
  assumes "cq_ctx_inv uc" "cq_list_next_handle uc + 1 \<noteq> 0" "0 < num" "q \<in> set (cq_list uc)"
  shows "(\<exists>cq uc'. k_cq_create True (Some junk) num uc = (Some cq, uc') \<and> cq_ctx_inv uc'
      \<and> k_cq_lookup (kq_handle cq) uc = None
      \<and> (\<forall>h. k_cq_lookup h uc' = (if h = kq_handle cq then Some cq else k_cq_lookup h uc))
      \<and> (\<forall>ops acc del cq'. run_ops k_cq_produce k_cq_consume ops cq = (acc, del, cq') \<longrightarrow>
           acc = del @ cq_entries (ring_of cq') \<and> length (cq_entries (ring_of cq')) \<le> nat (num - 1)))
    \<and> (if kq_refcnt q \<noteq> 0 then k_cq_destroy q uc = (- EBUSY, uc)
       else \<exists>uc'. k_cq_destroy q uc = (0, uc') \<and> cq_ctx_inv uc'
         \<and> (\<forall>h. k_cq_lookup h uc' = (if h = kq_handle q then None else k_cq_lookup h uc)))"
proof -
  have d: "distinct (map kq_handle (cq_list uc))" and lt: "\<And>c. c \<in> set (cq_list uc) \<Longrightarrow> kq_handle c < cq_list_next_handle uc"
    using assms(1) by (simp_all add: cq_ctx_inv_def)
  let ?h = "cq_list_next_handle uc"
  let ?c = "\<lparr>kq_handle = ?h, kq_cqe = replicate (nat num) junk, kq_num = num, kq_prod = 0, kq_cons = 0, kq_refcnt = 0\<rparr>"
  let ?uc = "uc\<lparr>cq_list_next_handle := ?h + 1, cq_list := ?c # cq_list uc\<rparr>"
  have up: "?h < ?h + 1" using unatSuc [of ?h] assms(2) by (simp add: word_less_nat_alt add.commute)
  have c: "k_cq_create True (Some junk) num uc = (Some ?c, ?uc)" using assms(3) by (simp add: k_cq_create_def Let_def)
  have "cq_create True (Some junk) num = Some (ring_of ?c)" using assms(3) by (simp add: cq_create_def ring_of_def)
  from cq_create_inv [OF this] have i: "k_cq_inv ?c" "cq_entries (ring_of ?c) = []" "cq_room (ring_of ?c) = nat (num - 1)"
    by (simp_all add: k_cq_inv_def)
  have fresh: "k_cq_lookup ?h uc = None" using lt by (force simp: k_cq_lookup_def find_None_iff)
  have inv: "cq_ctx_inv ?uc"
    using assms(1) lt up i(1) by (force simp: cq_ctx_inv_def intro: order.strict_trans)
  have fifo: "acc = del @ cq_entries (ring_of cq') \<and> length (cq_entries (ring_of cq')) \<le> nat (num - 1)"
    if "run_ops k_cq_produce k_cq_consume ops ?c = (acc, del, cq')" for ops acc del cq'
    using kq.run_fifo [OF i(1) that] kq.bounded [of cq'] i(2,3) by simp
  have create: "\<exists>cq uc'. k_cq_create True (Some junk) num uc = (Some cq, uc') \<and> cq_ctx_inv uc'
      \<and> k_cq_lookup (kq_handle cq) uc = None
      \<and> (\<forall>h. k_cq_lookup h uc' = (if h = kq_handle cq then Some cq else k_cq_lookup h uc))
      \<and> (\<forall>ops acc del cq'. run_ops k_cq_produce k_cq_consume ops cq = (acc, del, cq') \<longrightarrow>
           acc = del @ cq_entries (ring_of cq') \<and> length (cq_entries (ring_of cq')) \<le> nat (num - 1))"
    using c inv fresh fifo by (intro exI [of _ ?c] exI [of _ ?uc]) (auto simp: k_cq_lookup_def)
  let ?ud = "uc\<lparr>cq_list := filter (\<lambda>c. kq_handle c \<noteq> kq_handle q) (cq_list uc)\<rparr>"
  have id: "cq_ctx_inv ?ud"
    using assms(1) by (auto simp: cq_ctx_inv_def distinct_map_filter)
  have "k_cq_lookup h ?ud = (if h = kq_handle q then None else k_cq_lookup h uc)" for h
    unfolding k_cq_lookup_def by (simp add: find_filter_handle)
  then have "if kq_refcnt q \<noteq> 0 then k_cq_destroy q uc = (- EBUSY, uc)
     else \<exists>uc'. k_cq_destroy q uc = (0, uc') \<and> cq_ctx_inv uc'
         \<and> (\<forall>h. k_cq_lookup h uc' = (if h = kq_handle q then None else k_cq_lookup h uc))"
    using id by (simp add: k_cq_destroy_def)
  with create show ?thesis by blast
qed

theorem k_cq_handles_witness:
  "\<exists>cq uc'. k_cq_create True (Some (cqe_nr 0)) 4 \<lparr>cq_list = [\<lparr>kq_handle = 1, kq_cqe = [cqe_nr 0], kq_num = 1,
       kq_prod = 0, kq_cons = 0, kq_refcnt = 1\<rparr>], cq_list_next_handle = 2\<rparr> = (Some cq, uc')
     \<and> k_cq_lookup 2 uc' = Some cq \<and> kq_handle cq = 2"
proof -
  let ?q = "\<lparr>kq_handle = 1, kq_cqe = [cqe_nr 0], kq_num = 1, kq_prod = 0, kq_cons = 0, kq_refcnt = 1\<rparr>"
  let ?uc = "\<lparr>cq_list = [?q], cq_list_next_handle = 2\<rparr>"
  have "cq_ctx_inv ?uc" by (simp add: cq_ctx_inv_def k_cq_inv_def ring_of_def cq_inv_def)
  from k_cq_handles [OF this, of 4 ?q "cqe_nr 0"] show ?thesis
    by (auto simp: k_cq_create_def Let_def)
qed

end
