(* ===== verification/K_Ht.thy ===== *)
theory K_Ht
  imports Iw_Ht
begin

text \<open>
  The hash table of the kernel module (\<open>kiwarp/ht.c\<close>): chains in an array of a power of two, new nodes at the
  head of their chain, errors as values. The interface \<open>coded_table\<close> states what a table with error values
  promises. The hash function \<open>hash_long\<close> is the kernel's: a parameter, of which only is used that its
  value fits in the number of bits it is asked for. The lock is taken and given back inside each call.
\<close>

section \<open>The interface: a table that reports errors\<close>

fun code_run :: "('t \<Rightarrow> 'k \<Rightarrow> 'v \<Rightarrow> int \<times> 't) \<Rightarrow> ('t \<Rightarrow> 'k \<Rightarrow> int \<times> 't) \<Rightarrow> ('k, 'v) top list \<Rightarrow> 't \<Rightarrow> int list \<times> 't" where
  "code_run ins del [] t = ([], t)"
| "code_run ins del (Ins k v # ops) t =
     (let (c, t) = ins t k v; (cs, t) = code_run ins del ops t in (c # cs, t))"
| "code_run ins del (Del k # ops) t =
     (let (c, t) = del t k; (cs, t) = code_run ins del ops t in (c # cs, t))"

fun map_codes :: "('k, 'v) top list \<Rightarrow> ('k \<rightharpoonup> 'v) \<Rightarrow> int list \<times> ('k \<rightharpoonup> 'v)" where
  "map_codes [] m = ([], m)"
| "map_codes (Ins k v # ops) m =
     (let (c, m) = (if m k = None then (0, m(k \<mapsto> v)) else (- EEXIST, m)); (cs, m) = map_codes ops m in (c # cs, m))"
| "map_codes (Del k # ops) m =
     (let (c, m) = (if m k = None then (- EINVAL, m) else (0, m(k := None))); (cs, m) = map_codes ops m in (c # cs, m))"

locale coded_table =
  fixes look :: "'t \<Rightarrow> 'k \<Rightarrow> int \<times> 'v option"
    and ins :: "'t \<Rightarrow> 'k \<Rightarrow> 'v \<Rightarrow> int \<times> 't"
    and del :: "'t \<Rightarrow> 'k \<Rightarrow> int \<times> 't"
    and abs_map :: "'t \<Rightarrow> 'k \<rightharpoonup> 'v"
    and inv :: "'t \<Rightarrow> bool"
  assumes look_abs: "inv t \<Longrightarrow> look t k = (case abs_map t k of None \<Rightarrow> (- ENOENT, None) | Some v \<Rightarrow> (0, Some v))"
    and ins_new: "inv t \<Longrightarrow> abs_map t k = None \<Longrightarrow> \<exists>t'. ins t k v = (0, t') \<and> inv t' \<and> abs_map t' = (abs_map t)(k \<mapsto> v)"
    and ins_dup: "inv t \<Longrightarrow> abs_map t k \<noteq> None \<Longrightarrow> ins t k v = (- EEXIST, t)"
    and del_old: "inv t \<Longrightarrow> abs_map t k \<noteq> None \<Longrightarrow> \<exists>t'. del t k = (0, t') \<and> inv t' \<and> abs_map t' = (abs_map t)(k := None)"
    and del_none: "inv t \<Longrightarrow> abs_map t k = None \<Longrightarrow> del t k = (- EINVAL, t)"
begin

lemma run_refines:
  "inv t \<Longrightarrow> code_run ins del ops t = (cs, t') \<Longrightarrow> inv t' \<and> map_codes ops (abs_map t) = (cs, abs_map t')"
proof (induction ops arbitrary: t cs)
  case (Cons x ops)
  show ?case
  proof (cases x)
    case (Ins k v)
    then obtain c t1 cs1 where s: "ins t k v = (c, t1)" "code_run ins del ops t1 = (cs1, t')" "cs = c # cs1"
      using Cons.prems(2) by (auto split: prod.splits)
    have "inv t1 \<and> (c, abs_map t1) = (if abs_map t k = None then (0, (abs_map t)(k \<mapsto> v)) else (- EEXIST, abs_map t))"
      using ins_new [OF Cons.prems(1), of k v] ins_dup [OF Cons.prems(1), of k v] Cons.prems(1) s(1)
      by (cases "abs_map t k") auto
    with Cons.IH [of t1 cs1] s Ins show ?thesis by (auto split: if_splits)
  next
    case (Del k)
    then obtain c t1 cs1 where s: "del t k = (c, t1)" "code_run ins del ops t1 = (cs1, t')" "cs = c # cs1"
      using Cons.prems(2) by (auto split: prod.splits)
    have "inv t1 \<and> (c, abs_map t1) = (if abs_map t k = None then (- EINVAL, abs_map t) else (0, (abs_map t)(k := None)))"
      using del_old [OF Cons.prems(1), of k] del_none [OF Cons.prems(1), of k] Cons.prems(1) s(1)
      by (cases "abs_map t k") auto
    with Cons.IH [of t1 cs1] s Del show ?thesis by (auto split: if_splits)
  qed
qed simp

end

section \<open>The code\<close>

record 'v k_ht =
  kh_sz :: u32
  kh_lg_sz :: nat
  kh_numnodes :: u32
  kh_htab :: "(u64 \<times> 'v) list list"

definition k_ht_create :: "bool \<Rightarrow> nat \<Rightarrow> int \<times> 'v k_ht" where
  "k_ht_create kmalloc order =
     (let sz = push_bit order 1
      in if \<not> kmalloc then (- ENOMEM, \<lparr>kh_sz = sz, kh_lg_sz = order, kh_numnodes = 0, kh_htab = []\<rparr>)
         else (0, \<lparr>kh_sz = sz, kh_lg_sz = order, kh_numnodes = 0, kh_htab = replicate (unat sz) []\<rparr>))"

text \<open>\<open>ht_destroy_callback\<close>: the values handed to the callback, in order; \<open>None\<close> when there is none.\<close>

definition k_ht_destroy_callback :: "'v k_ht \<Rightarrow> int \<times> 'v list \<times> 'v k_ht" where
  "k_ht_destroy_callback ht =
     (let vals = concat (map (map snd) (kh_htab ht));
          n = kh_numnodes ht - of_nat (length vals);
          emptied = map (\<lambda>_. []) (kh_htab ht)
      in if n \<noteq> 0 then (- ENOTSYNC, vals, ht\<lparr>kh_numnodes := n, kh_htab := emptied\<rparr>)
         else (0, vals, ht\<lparr>kh_numnodes := n, kh_htab := [], kh_sz := 0\<rparr>))"

definition k_ht_destroy :: "'v k_ht \<Rightarrow> int \<times> 'v k_ht" where
  "k_ht_destroy ht = (let (ret, _, ht) = k_ht_destroy_callback ht in (ret, ht))"

definition k_ht_insert :: "(u64 \<Rightarrow> nat \<Rightarrow> nat) \<Rightarrow> bool \<Rightarrow> 'v k_ht \<Rightarrow> u64 \<Rightarrow> 'v \<Rightarrow> int \<times> 'v k_ht" where
  "k_ht_insert hash_long kmalloc ht key val =
     (let idx = hash_long key (kh_lg_sz ht); head = kh_htab ht ! idx
      in if \<exists>nod\<in>set head. fst nod = key then (- EEXIST, ht)
         else if \<not> kmalloc then (- ENOMEM, ht)
         else (0, ht\<lparr>kh_htab := (kh_htab ht)[idx := (key, val) # head], kh_numnodes := kh_numnodes ht + 1\<rparr>))"

definition k_ht_lookup :: "(u64 \<Rightarrow> nat \<Rightarrow> nat) \<Rightarrow> 'v k_ht \<Rightarrow> u64 \<Rightarrow> int \<times> 'v option" where
  "k_ht_lookup hash_long ht key =
     (case find (\<lambda>nod. fst nod = key) (kh_htab ht ! hash_long key (kh_lg_sz ht)) of
        None \<Rightarrow> (- ENOENT, None)
      | Some nod \<Rightarrow> (0, Some (snd nod)))"

text \<open>\<open>hlist_for_each\<close> with the deletion of its body: the value of the first node with the key, the chain without it.\<close>

fun hlist_take :: "u64 \<Rightarrow> (u64 \<times> 'v) list \<Rightarrow> ('v \<times> (u64 \<times> 'v) list) option" where
  "hlist_take key [] = None"
| "hlist_take key (nod # nods) =
     (if fst nod = key then Some (snd nod, nods)
      else case hlist_take key nods of None \<Rightarrow> None | Some (v, r) \<Rightarrow> Some (v, nod # r))"

text \<open>\<open>ht_delete_callback\<close>, with the value given to the callback.\<close>

definition k_ht_delete_callback :: "(u64 \<Rightarrow> nat \<Rightarrow> nat) \<Rightarrow> 'v k_ht \<Rightarrow> u64 \<Rightarrow> int \<times> 'v option \<times> 'v k_ht" where
  "k_ht_delete_callback hash_long ht key =
     (let idx = hash_long key (kh_lg_sz ht)
      in case hlist_take key (kh_htab ht ! idx) of
           None \<Rightarrow> (- EINVAL, None, ht)
         | Some (v, r) \<Rightarrow> (0, Some v, ht\<lparr>kh_htab := (kh_htab ht)[idx := r], kh_numnodes := kh_numnodes ht - 1\<rparr>))"

definition k_ht_delete :: "(u64 \<Rightarrow> nat \<Rightarrow> nat) \<Rightarrow> 'v k_ht \<Rightarrow> u64 \<Rightarrow> int \<times> 'v k_ht" where
  "k_ht_delete hash_long ht key = (let (ret, _, ht) = k_ht_delete_callback hash_long ht key in (ret, ht))"

text \<open>\<open>ht_iterate_callback\<close>: the callback changes what \<open>arg\<close> points to; the first value that is not 0 ends it.\<close>

fun iterate_chain :: "('v \<Rightarrow> 'a \<Rightarrow> int \<times> 'a) \<Rightarrow> 'v list \<Rightarrow> 'a \<Rightarrow> int \<times> 'a" where
  "iterate_chain f [] a = (0, a)"
| "iterate_chain f (v # vs) a = (let (ret, a) = f v a in if ret \<noteq> 0 then (ret, a) else iterate_chain f vs a)"

definition k_ht_iterate_callback :: "'v k_ht \<Rightarrow> ('v \<Rightarrow> 'a \<Rightarrow> int \<times> 'a) \<Rightarrow> 'a \<Rightarrow> int \<times> 'a" where
  "k_ht_iterate_callback ht f a = iterate_chain f (concat (map (map snd) (kh_htab ht))) a"

section \<open>The table is a map\<close>

definition k_ht_inv :: "(u64 \<Rightarrow> nat \<Rightarrow> nat) \<Rightarrow> 'v k_ht \<Rightarrow> bool" where
  "k_ht_inv hash ht \<longleftrightarrow> (\<forall>k. hash k (kh_lg_sz ht) < length (kh_htab ht))
     \<and> length (kh_htab ht) = unat (kh_sz ht)
     \<and> (\<forall>b<length (kh_htab ht). distinct (map fst (kh_htab ht ! b))
          \<and> (\<forall>c\<in>set (kh_htab ht ! b). hash (fst c) (kh_lg_sz ht) = b))
     \<and> kh_numnodes ht = of_nat (length (concat (kh_htab ht)))"

definition k_ht_map :: "(u64 \<Rightarrow> nat \<Rightarrow> nat) \<Rightarrow> 'v k_ht \<Rightarrow> u64 \<rightharpoonup> 'v" where
  "k_ht_map hash ht k = map_of (kh_htab ht ! hash k (kh_lg_sz ht)) k"

lemma find_map_of: "find (\<lambda>c. fst c = k) cs = map_option (Pair k) (map_of cs k)"
  by (induction cs) auto

lemma hlist_take_None: "hlist_take k cs = None \<longleftrightarrow> map_of cs k = None"
  by (induction cs) (auto split: option.splits)

lemma hlist_take_Some:
  "hlist_take k cs = Some (v, r) \<Longrightarrow> distinct (map fst cs) \<Longrightarrow>
   map_of cs k = Some v \<and> map_of r = (map_of cs)(k := None) \<and> distinct (map fst r) \<and> set r \<subseteq> set cs
   \<and> length cs = Suc (length r)"
proof (induction cs arbitrary: r)
  case (Cons c cs)
  show ?case
  proof (cases "fst c = k")
    case True
    with Cons.prems have "map_of cs k = None" by (auto simp: map_of_eq_None_iff)
    with True Cons.prems show ?thesis by (cases c) (auto simp: fun_eq_iff)
  next
    case False
    with Cons.prems obtain r' where "hlist_take k cs = Some (v, r')" "r = c # r'" by (auto split: option.splits)
    with Cons False show ?thesis by (cases c) (force simp: fun_eq_iff)
  qed
qed simp

lemma k_ht_update:
  assumes i: "k_ht_inv hash ht" and b: "b = hash k (kh_lg_sz ht)"
    and c: "map_of chain = (map_of (kh_htab ht ! b))(k := r)" "distinct (map fst chain)"
      "\<forall>c\<in>set chain. hash (fst c) (kh_lg_sz ht) = b"
    and n: "n = of_nat (length (concat ((kh_htab ht)[b := chain])))"
  shows "k_ht_inv hash (ht\<lparr>kh_htab := (kh_htab ht)[b := chain], kh_numnodes := n\<rparr>)"
    "k_ht_map hash (ht\<lparr>kh_htab := (kh_htab ht)[b := chain], kh_numnodes := n\<rparr>) = (k_ht_map hash ht)(k := r)"
proof -
  have lt: "hash j (kh_lg_sz ht) < length (kh_htab ht)" for j using i unfolding k_ht_inv_def by blast
  show "k_ht_inv hash (ht\<lparr>kh_htab := (kh_htab ht)[b := chain], kh_numnodes := n\<rparr>)"
    unfolding k_ht_inv_def
  proof (intro conjI allI impI)
    fix b' assume "b' < length (kh_htab (ht\<lparr>kh_htab := (kh_htab ht)[b := chain], kh_numnodes := n\<rparr>))"
    then have b': "b' < length (kh_htab ht)" by simp
    show "distinct (map fst (kh_htab (ht\<lparr>kh_htab := (kh_htab ht)[b := chain], kh_numnodes := n\<rparr>) ! b'))"
      using i c(2) b' by (cases "b' = b") (simp_all add: k_ht_inv_def)
    show "\<forall>c\<in>set (kh_htab (ht\<lparr>kh_htab := (kh_htab ht)[b := chain], kh_numnodes := n\<rparr>) ! b').
        hash (fst c) (kh_lg_sz (ht\<lparr>kh_htab := (kh_htab ht)[b := chain], kh_numnodes := n\<rparr>)) = b'"
      using i c(3) b' by (cases "b' = b") (simp_all add: k_ht_inv_def)
  qed (use i lt n in \<open>simp_all add: k_ht_inv_def\<close>)
  show "k_ht_map hash (ht\<lparr>kh_htab := (kh_htab ht)[b := chain], kh_numnodes := n\<rparr>) = (k_ht_map hash ht)(k := r)"
    using lt c(1) by (auto simp: k_ht_map_def nth_list_update fun_eq_iff b)
qed

interpretation kht: coded_table "k_ht_lookup hash" "k_ht_insert hash True" "k_ht_delete hash" "k_ht_map hash" "k_ht_inv hash"
  for hash
proof unfold_locales
  fix t :: "'a k_ht" and k
  assume "k_ht_inv hash t"
  show "k_ht_lookup hash t k = (case k_ht_map hash t k of None \<Rightarrow> (- ENOENT, None) | Some v \<Rightarrow> (0, Some v))"
    by (auto simp: k_ht_lookup_def k_ht_map_def find_map_of split: option.splits)
next
  fix t :: "'a k_ht" and k v
  assume i: "k_ht_inv hash t" and n: "k_ht_map hash t k = None"
  let ?b = "hash k (kh_lg_sz t)"
  let ?c = "(k, v) # kh_htab t ! ?b"
  have lt: "?b < length (kh_htab t)" using i unfolding k_ht_inv_def by blast
  have "\<not> (\<exists>nod\<in>set (kh_htab t ! ?b). fst nod = k)" using n by (auto simp: k_ht_map_def map_of_eq_None_iff)
  moreover have "distinct (map fst ?c)" "\<forall>c\<in>set ?c. hash (fst c) (kh_lg_sz t) = ?b"
    using i lt n by (auto simp: k_ht_inv_def k_ht_map_def map_of_eq_None_iff image_iff)
  moreover have "kh_numnodes t + 1 = of_nat (length (concat ((kh_htab t)[?b := ?c])))"
    using i concat_update_length [OF lt, of ?c] by (simp add: k_ht_inv_def)
  ultimately show "\<exists>t'. k_ht_insert hash True t k v = (0, t') \<and> k_ht_inv hash t' \<and> k_ht_map hash t' = (k_ht_map hash t)(k \<mapsto> v)"
    using k_ht_update [OF i refl, of ?c k "Some v" "kh_numnodes t + 1"] by (simp add: k_ht_insert_def Let_def)
next
  fix t :: "'a k_ht" and k v
  assume "k_ht_map hash t k \<noteq> None"
  then show "k_ht_insert hash True t k v = (- EEXIST, t)"
    by (auto simp: k_ht_map_def k_ht_insert_def map_of_eq_None_iff Let_def)
next
  fix t :: "'a k_ht" and k
  assume i: "k_ht_inv hash t" and n: "k_ht_map hash t k \<noteq> None"
  let ?b = "hash k (kh_lg_sz t)"
  have lt: "?b < length (kh_htab t)" using i unfolding k_ht_inv_def by blast
  obtain v r where tk: "hlist_take k (kh_htab t ! ?b) = Some (v, r)"
    using n hlist_take_None [of k "kh_htab t ! ?b"] by (cases "hlist_take k (kh_htab t ! ?b)") (auto simp: k_ht_map_def)
  have old: "distinct (map fst (kh_htab t ! ?b))" "\<forall>c\<in>set (kh_htab t ! ?b). hash (fst c) (kh_lg_sz t) = ?b"
    using i lt by (simp_all add: k_ht_inv_def)
  note r = hlist_take_Some [OF tk old(1)]
  have "Suc (length (concat ((kh_htab t)[?b := r]))) = length (concat (kh_htab t))"
    using concat_update_length [OF lt, of r] r by simp
  then have "of_nat (Suc (length (concat ((kh_htab t)[?b := r])))) = kh_numnodes t"
    using i by (simp only: k_ht_inv_def)
  then have "kh_numnodes t - 1 = of_nat (length (concat ((kh_htab t)[?b := r])))"
    by (metis add_diff_cancel_left' of_nat_Suc)
  then show "\<exists>t'. k_ht_delete hash t k = (0, t') \<and> k_ht_inv hash t' \<and> k_ht_map hash t' = (k_ht_map hash t)(k := None)"
    using k_ht_update [OF i refl, of r k None "kh_numnodes t - 1"] r old(2) tk
    by (auto simp: k_ht_delete_def k_ht_delete_callback_def Let_def)
next
  fix t :: "'a k_ht" and k
  assume "k_ht_map hash t k = None"
  then have "hlist_take k (kh_htab t ! hash k (kh_lg_sz t)) = None" by (simp only: k_ht_map_def hlist_take_None)
  then show "k_ht_delete hash t k = (- EINVAL, t)" by (simp add: k_ht_delete_def k_ht_delete_callback_def Let_def)
qed

lemma k_ht_create_inv:
  assumes "k_ht_create True order = (ret, t)" "order < 32" "\<forall>k. hash k order < 2 ^ order"
  shows "ret = 0 \<and> k_ht_inv hash t \<and> k_ht_map hash t = Map.empty"
proof -
  have "unat (push_bit order 1 :: u32) = 2 ^ order"
    using assms(2) unat_of_nat [of "2 ^ order", where 'a = 32] power_strict_increasing [of order 32 "2 :: nat"] by simp
  with assms show ?thesis by (auto simp: k_ht_create_def Let_def k_ht_inv_def k_ht_map_def fun_eq_iff)
qed

text \<open>The values of a table, each once for its key.\<close>

lemma k_ht_values:
  assumes "k_ht_inv hash t"
  shows "set (concat (map (map snd) (kh_htab t))) = ran (k_ht_map hash t)"
    "kh_numnodes t = of_nat (length (concat (map (map snd) (kh_htab t))))"
proof -
  have "v \<in> set (concat (map (map snd) (kh_htab t))) \<longleftrightarrow> (\<exists>k. k_ht_map hash t k = Some v)" for v
  proof
    assume "v \<in> set (concat (map (map snd) (kh_htab t)))"
    then obtain b k where b: "b < length (kh_htab t)" "(k, v) \<in> set (kh_htab t ! b)"
      by (auto simp: in_set_conv_nth) (metis nth_mem)
    moreover have "distinct (map fst (kh_htab t ! b))" "hash k (kh_lg_sz t) = b"
      using assms b by (force simp: k_ht_inv_def)+
    ultimately have "k_ht_map hash t k = Some v" by (simp add: k_ht_map_def)
    then show "\<exists>k. k_ht_map hash t k = Some v" ..
  next
    assume "\<exists>k. k_ht_map hash t k = Some v"
    then obtain k where "(k, v) \<in> set (kh_htab t ! hash k (kh_lg_sz t))" by (auto simp: k_ht_map_def dest: map_of_SomeD)
    moreover have "hash k (kh_lg_sz t) < length (kh_htab t)" using assms unfolding k_ht_inv_def by blast
    ultimately show "v \<in> set (concat (map (map snd) (kh_htab t)))" by (force dest: nth_mem)
  qed
  then show "set (concat (map (map snd) (kh_htab t))) = ran (k_ht_map hash t)" by (auto simp: ran_def)
  have "length (concat (map (map snd) xss)) = length (concat xss)" for xss :: "(u64 \<times> 'a) list list"
    by (induction xss) auto
  then show "kh_numnodes t = of_nat (length (concat (map (map snd) (kh_htab t))))" using assms by (simp add: k_ht_inv_def)
qed

section \<open>Properties\<close>

text \<open>
  C30. The kernel's hash table is a map that reports errors: for any hash function whose values fit, every run
  of insertions and deletions on a new table returns the codes of the same run on a map (0, \<open>-EEXIST\<close> for a
  key that is there, \<open>-EINVAL\<close> for one that is not), every lookup afterwards finds what the map holds or
  reports \<open>-ENOENT\<close>, and destroying the table hands over exactly the values that are left.
\<close>

theorem k_ht_refines_map:
  assumes "\<forall>k. hash_long k order < 2 ^ order" "order < 32" "k_ht_create True order = (ret, t)"
    and "code_run (k_ht_insert hash_long True) (k_ht_delete hash_long) ops t = (cs, t')"
  shows "ret = 0 \<and> (case map_codes ops Map.empty of (cs', m) \<Rightarrow> cs = cs'
    \<and> (\<forall>k. k_ht_lookup hash_long t' k = (case m k of None \<Rightarrow> (- ENOENT, None) | Some v \<Rightarrow> (0, Some v)))
    \<and> (\<exists>vals t''. k_ht_destroy_callback t' = (0, vals, t'') \<and> set vals = ran m))"
proof -
  from k_ht_create_inv [where hash = hash_long, OF assms(3,2,1)] have c: "ret = 0" "k_ht_inv hash_long t" "k_ht_map hash_long t = Map.empty" by simp_all
  from kht.run_refines [OF c(2) assms(4)] have r: "k_ht_inv hash_long t'" "map_codes ops Map.empty = (cs, k_ht_map hash_long t')"
    by (simp_all add: c(3))
  from k_ht_values [OF r(1)] kht.look_abs [OF r(1)] c(1) r(2) show ?thesis
    by (auto simp: k_ht_destroy_callback_def Let_def simp del: set_concat)
qed

theorem k_ht_refines_map_witness:
  "\<exists>cs t'. code_run (k_ht_insert (\<lambda>k n. unat k mod 2 ^ n) True) (k_ht_delete (\<lambda>k n. unat k mod 2 ^ n))
       [Ins 5 ''a'', Ins 5 ''b'', Ins 37 ''c'', Del 5] (snd (k_ht_create True 5)) = (cs, t')
     \<and> cs = [0, - EEXIST, 0, 0] \<and> k_ht_lookup (\<lambda>k n. unat k mod 2 ^ n) t' 37 = (0, Some ''c'')
     \<and> k_ht_lookup (\<lambda>k n. unat k mod 2 ^ n) t' 5 = (- ENOENT, None)"
proof -
  let ?h = "\<lambda>(k :: u64) n. unat k mod 2 ^ n"
  let ?ops = "[Ins (5 :: u64) ''a'', Ins 5 ''b'', Ins 37 ''c'', Del 5]"
  obtain ret t where t: "k_ht_create True 5 = (ret, t :: string k_ht)" by fastforce
  obtain cs t' where r: "code_run (k_ht_insert ?h True) (k_ht_delete ?h) ?ops t = (cs, t')" by fastforce
  have "\<forall>k. ?h k 5 < 2 ^ 5" by simp
  from k_ht_refines_map [OF this _ t r] have m: "cs = fst (map_codes ?ops Map.empty)"
    "\<And>k. k_ht_lookup ?h t' k = (case snd (map_codes ?ops Map.empty) k of None \<Rightarrow> (- ENOENT, None) | Some v \<Rightarrow> (0, Some v))"
    by (simp_all add: case_prod_unfold del: map_codes.simps)
  show ?thesis
    using r m(2) [of 37] m(2) [of 5] unfolding t m(1) snd_conv
    by (intro exI conjI) (assumption | simp)+
qed

end
