(* ===== verification/K_Mem.thy ===== *)
theory K_Mem
  imports Iw_List Iw_Mem K_Ht
begin

text \<open>
  Memory regions and steering tags of the kernel module (\<open>kiwarp/mem.c\<close>). The table of regions is an array
  at an address, descriptors of regions are addresses of its elements, and the tags of a region hang off a
  list head inside it: the links are the pointer structure of \<open>Iw_List\<close>, on the addresses of the list heads.
  Tags are found through the hash table. The pages of a region are frame numbers, as \<open>get_user_pages\<close> found
  them in the page table of the process, with the count of references the module holds to each.

  Parameters: the answers of \<open>kmalloc\<close> (an address, or none), those of \<open>get_user_pages\<close> (how many pages each
  call takes, at least one, or an error), the page table. \<open>Exit\<close> is an access to memory that is not there.
\<close>

section \<open>State\<close>

text \<open>Pages of 4096 bytes, pointers of 8.\<close>

abbreviation PAGE_SHIFT :: nat where "PAGE_SHIFT \<equiv> 12"
abbreviation PAGE_SIZE :: u64 where "PAGE_SIZE \<equiv> 4096"
definition PAGE_MASK :: u64 where "PAGE_MASK = NOT 4095"

record k_mem_region =
  kr_start :: u64
  kr_len :: u64
  kr_valid :: bool
  kr_page_list :: "nat list"
  kr_npages :: nat

text \<open>\<open>sd_addr\<close> is where the structure lies, its list head first.\<close>

record k_stag_desc =
  ks_addr :: u64
  ks_mr :: u64
  ks_start :: u64
  ks_len :: u64
  ks_stag :: stag
  ks_rw :: u32
  ks_prot :: u32

text \<open>
  \<open>km_dead\<close> are the addresses of list nodes that lay in a table or a structure which was freed and that no
  table or structure has been given since: a list operation that writes there is undefined.
\<close>

record k_mem_manager =
  km_num :: u64
  km_base :: u64
  km_region :: "k_mem_region list"
  km_next_cntr :: stag
  km_stag_ht :: "k_stag_desc k_ht"
  km_links :: list_head
  km_pins :: "nat \<Rightarrow> int"
  km_dead :: "node \<Rightarrow> bool"

definition DELTA :: u64 where "DELTA = 10"

text \<open>A region takes 64 bytes of the table, its list head lies at byte 24; the tag as a key is sign-extended.\<close>

definition region_addr :: "u64 \<Rightarrow> nat \<Rightarrow> u64" where
  "region_addr base i = base + 64 * of_nat i"

definition region_head :: "u64 \<Rightarrow> nat \<Rightarrow> node" where
  "region_head base i = region_addr base i + 24"

definition k_stag_key :: "stag \<Rightarrow> u64" where
  "k_stag_key stag = scast stag"

definition zero_region :: k_mem_region where
  "zero_region = \<lparr>kr_start = 0, kr_len = 0, kr_valid = False, kr_page_list = [], kr_npages = 0\<rparr>"

section \<open>Lists of tags\<close>

text \<open>
  \<open>list_add\<close> writes to the node after the head, \<open>list_del\<close> to both neighbours of the node: through null, or into
  a table that was freed, that is undefined.
\<close>

definition link_live :: "k_mem_manager \<Rightarrow> node \<Rightarrow> bool" where
  "link_live mm p \<longleftrightarrow> p \<noteq> 0 \<and> \<not> km_dead mm p"

definition k_list_add :: "node \<Rightarrow> node \<Rightarrow> k_mem_manager \<Rightarrow> k_mem_manager outcome" where
  "k_list_add a q mm =
     (if link_live mm (nxt (km_links mm) q) then Done (mm\<lparr>km_links := list_add a q (km_links mm)\<rparr>) else Exit)"

definition k_list_del :: "node \<Rightarrow> k_mem_manager \<Rightarrow> k_mem_manager outcome" where
  "k_list_del a mm =
     (if link_live mm (nxt (km_links mm) a) \<and> link_live mm (prv (km_links mm) a)
      then Done (mm\<lparr>km_links := list_del a (km_links mm)\<rparr>) else Exit)"

section \<open>The manager\<close>

text \<open>The element a descriptor names: none outside the table, undefined when it is not the start of one.\<close>

definition k_mr_from_md :: "u64 \<Rightarrow> k_mem_manager \<Rightarrow> nat option outcome" where
  "k_mr_from_md md mm =
     (if md < km_base mm \<or> md \<ge> km_base mm + 64 * km_num mm then Done None
      else let off = md - km_base mm
           in if off mod 64 \<noteq> 0 \<or> unat (off div 64) \<ge> length (km_region mm) then Exit
              else Done (Some (unat (off div 64))))"

definition k_mem_initialize :: "u64 option \<Rightarrow> bool \<Rightarrow> bool \<Rightarrow> k_mem_manager \<Rightarrow> int \<times> k_mem_manager" where
  "k_mem_initialize table stag_ht htab mm =
     (let mm = mm\<lparr>km_num := DELTA\<rparr>
      in case table of
           None \<Rightarrow> (- ENOMEM, mm)
         | Some base \<Rightarrow>
             let mm = mm\<lparr>km_base := base, km_region := replicate (unat DELTA) zero_region, km_dead := (\<lambda>_. False),
                         km_links := fold (\<lambda>i. INIT_LIST_HEAD (region_head base i)) [0..<unat DELTA] (km_links mm)\<rparr>
             in if \<not> stag_ht then (- ENOMEM, mm\<lparr>km_region := []\<rparr>)
                else let (ret, t) = k_ht_create htab 5
                     in if ret \<noteq> 0 then (ret, mm\<lparr>km_region := []\<rparr>)
                        else (0, mm\<lparr>km_stag_ht := t, km_next_cntr := 1\<rparr>))"

text \<open>\<open>mem_release\<close>: every tag is taken off its list and out of the table; the pages are not given back.\<close>

fun release_stags :: "(u64 \<Rightarrow> nat \<Rightarrow> nat) \<Rightarrow> k_stag_desc list \<Rightarrow> k_mem_manager \<Rightarrow> k_mem_manager outcome" where
  "release_stags hash_long [] mm = Done mm"
| "release_stags hash_long (sd # sds) mm =
     bindO (k_list_del (ks_addr sd) mm) (\<lambda>mm.
       let (_, _, t) = k_ht_delete_callback hash_long (km_stag_ht mm) (k_stag_key (ks_stag sd))
       in release_stags hash_long sds (mm\<lparr>km_stag_ht := t, km_dead := (km_dead mm)(ks_addr sd := True)\<rparr>))"

definition k_mem_release :: "(u64 \<Rightarrow> nat \<Rightarrow> nat) \<Rightarrow> k_mem_manager \<Rightarrow> (int \<times> k_mem_manager) outcome" where
  "k_mem_release hash_long mm =
     bindO (release_stags hash_long (concat (map (map snd) (kh_htab (km_stag_ht mm)))) mm) (\<lambda>mm.
       Done (0, mm\<lparr>km_region := []\<rparr>))"

section \<open>Regions\<close>

fun k_first_free :: "nat \<Rightarrow> k_mem_region list \<Rightarrow> nat" where
  "k_first_free i [] = i"
| "k_first_free i (mr # mrs) = (if \<not> kr_valid mr then i else k_first_free (Suc i) mrs)"

text \<open>
  \<open>get_user_pages\<close> for \<open>n\<close> pages from page number \<open>vpn\<close>: how many the call takes is an answer, at least one
  if the first page is mapped, and never past a page that is not mapped.
\<close>

fun mapped_pages :: "(u64 \<Rightarrow> nat option) \<Rightarrow> u64 \<Rightarrow> nat \<Rightarrow> nat list" where
  "mapped_pages pt vpn 0 = []"
| "mapped_pages pt vpn (Suc n) = (case pt vpn of None \<Rightarrow> [] | Some pg \<Rightarrow> pg # mapped_pages pt (vpn + 1) n)"

definition get_user_pages :: "(u64 \<Rightarrow> nat option) \<Rightarrow> int list \<Rightarrow> u64 \<Rightarrow> nat \<Rightarrow> nat list option" where
  "get_user_pages pt ans vpn n =
     (let pgs = mapped_pages pt vpn n
      in if pgs = [] then None
         else case ans of
                [] \<Rightarrow> Some pgs
              | a # _ \<Rightarrow> if a < 0 then None else Some (take (max 1 (nat a)) pgs))"

definition add_pins :: "int \<Rightarrow> nat list \<Rightarrow> (nat \<Rightarrow> int) \<Rightarrow> nat \<Rightarrow> int" where
  "add_pins d pgs pins = fold (\<lambda>pg pins. pins(pg := pins pg + d)) pgs pins"

lemma get_user_pages_some: "get_user_pages pt ans vpn n = Some pgs \<Longrightarrow> 0 < length pgs"
  by (auto simp: get_user_pages_def Let_def split: list.splits if_splits)

text \<open>The loop that grabs the pages: those it has, or none after giving back what it had.\<close>

function grab_pages :: "(u64 \<Rightarrow> nat option) \<Rightarrow> int list \<Rightarrow> u64 \<Rightarrow> nat \<Rightarrow> nat list \<Rightarrow> (nat \<Rightarrow> int) \<Rightarrow> nat list option \<times> (nat \<Rightarrow> int)" where
  "grab_pages pt ans vpn npages got pins =
     (if length got \<ge> npages then (Some got, pins)
      else case get_user_pages pt ans (vpn + of_nat (length got)) (npages - length got) of
             None \<Rightarrow> (None, add_pins (- 1) got pins)
           | Some pgs \<Rightarrow> grab_pages pt (tl ans) vpn npages (got @ pgs) (add_pins 1 pgs pins))"
  by pat_completeness auto

termination
proof (relation "measure (\<lambda>(pt, ans, vpn, npages, got, pins). npages - length got)", simp)
  fix pt ans vpn npages pins x and got :: "nat list"
  assume "\<not> npages \<le> length got" "get_user_pages pt ans (vpn + of_nat (length got)) (npages - length got) = Some x"
  then have "npages - (length got + length x) < npages - length got"
    using get_user_pages_some [of pt ans "vpn + of_nat (length got)" "npages - length got" x] by linarith
  then show "((pt, tl ans, vpn, npages, got @ x, add_pins 1 x pins), pt, ans, vpn, npages, got, pins)
      \<in> measure (\<lambda>(pt, ans, vpn, npages, got, pins). npages - length got)"
    by simp
qed

text \<open>
  The place for a new region: a free element, or the first of an enlarged table at a new address. The elements
  are copied as they are, list heads and all, and the old table is freed: what linked to a head there still does.
\<close>

definition k_mem_slot :: "u64 option \<Rightarrow> k_mem_manager \<Rightarrow> (nat option \<times> k_mem_manager) outcome" where
  "k_mem_slot table mm =
     (if length (km_region mm) < unat (km_num mm) then Exit
      else let i = k_first_free 0 (km_region mm)
           in if i \<noteq> unat (km_num mm) then Done (Some i, mm)
              else let mm = mm\<lparr>km_num := km_num mm + DELTA\<rparr>
                   in case table of
                        None \<Rightarrow> Done (None, mm\<lparr>km_base := 0, km_region := []\<rparr>)
                      | Some base \<Rightarrow>
                          let copy = (\<lambda>f p. if unat (p - base) < 64 * i then f (p - base + km_base mm)
                                            else if unat (p - base) < 64 * (i + unat DELTA) then 0 else f p)
                          in Done (Some i, mm\<lparr>km_base := base,
                               km_region := km_region mm @ replicate (unat DELTA) zero_region,
                               km_dead := (\<lambda>p. (km_dead mm p \<or> p \<in> set (map (region_head (km_base mm)) [0..<i]))
                                             \<and> p \<notin> set (map (region_head base) [0..<i + unat DELTA])),
                               km_links := \<lparr>nxt = copy (nxt (km_links mm)), prv = copy (prv (km_links mm))\<rparr>\<rparr>))"

definition mem_npages :: "u64 \<Rightarrow> u64 \<Rightarrow> u64" where
  "mem_npages addr len = drop_bit PAGE_SHIFT ((len + (addr AND NOT PAGE_MASK) + (PAGE_SIZE - 1)) AND PAGE_MASK)"

definition k_mem_register :: "(u64 \<Rightarrow> nat option) \<Rightarrow> int list \<Rightarrow> u64 option \<Rightarrow> bool \<Rightarrow> bool \<Rightarrow> u64 \<Rightarrow> u64
    \<Rightarrow> k_mem_manager \<Rightarrow> (u64 \<times> k_mem_manager) outcome" where
  "k_mem_register pt ans table page_list caddr addr len mm =
     bindO (k_mem_slot table mm) (\<lambda>(slot, mm).
       case slot of
         None \<Rightarrow> Done (0, mm)
       | Some i \<Rightarrow>
           let npages = mem_npages addr len
           in if npages > 4 * PAGE_SIZE div 8 then Done (0, mm)
              else if \<not> page_list then Done (0, mm)
              else let mr = (km_region mm ! i)\<lparr>kr_page_list := []\<rparr>
                   in if \<not> caddr then Done (0, mm\<lparr>km_region := (km_region mm)[i := mr]\<rparr>)
                      else let (got, pins) = grab_pages pt ans (drop_bit PAGE_SHIFT addr) (unat npages) [] (km_pins mm);
                               mm = mm\<lparr>km_pins := pins\<rparr>
                           in case got of
                                None \<Rightarrow> Done (0, mm\<lparr>km_region := (km_region mm)[i := mr]\<rparr>)
                              | Some pgs \<Rightarrow> Done (region_addr (km_base mm) i,
                                  mm\<lparr>km_region := (km_region mm)[i := \<lparr>kr_start = addr, kr_len = len, kr_valid = True,
                                                                       kr_page_list = pgs, kr_npages = unat npages\<rparr>],
                                     km_links := INIT_LIST_HEAD (region_head (km_base mm) i) (km_links mm)\<rparr>))"

definition k_mem_deregister :: "u64 \<Rightarrow> k_mem_manager \<Rightarrow> (int \<times> k_mem_manager) outcome" where
  "k_mem_deregister md mm =
     bindO (k_mr_from_md md mm) (\<lambda>r.
       case r of
         None \<Rightarrow> Done (- EINVAL, mm)
       | Some i \<Rightarrow>
           let mr = km_region mm ! i
           in if \<not> kr_valid mr then Done (- EINVAL, mm)
              else if \<not> list_empty (region_head (km_base mm) i) (km_links mm) then Done (- EBUSY, mm)
              else Done (0, mm\<lparr>km_pins := add_pins (- 1) (take (kr_npages mr) (kr_page_list mr)) (km_pins mm),
                              km_region := (km_region mm)[i := mr\<lparr>kr_page_list := [], kr_valid := False\<rparr>]\<rparr>))"

section \<open>Tags\<close>

text \<open>
  The loop that looks for a free tag. It goes on after every error of \<open>ht_insert\<close>, also after \<open>-ENOMEM\<close>, so
  the answers of the allocator for the nodes are part of it, and it may not end (\<open>None\<close>).
\<close>

partial_function (option) k_stag_loop :: "(u64 \<Rightarrow> nat \<Rightarrow> nat) \<Rightarrow> (nat \<Rightarrow> bool) \<Rightarrow> k_stag_desc \<Rightarrow> stag \<Rightarrow> k_stag_desc k_ht
    \<Rightarrow> (k_stag_desc \<times> stag \<times> k_stag_desc k_ht) option" where
  "k_stag_loop hash_long nodes sd cntr t =
     (let sd = sd\<lparr>ks_stag := cntr\<rparr>; cntr = cntr + 1;
          (ret, t) = k_ht_insert hash_long (nodes 0) t (k_stag_key (ks_stag sd)) sd
      in if ret = 0 then Some (sd, cntr, t) else k_stag_loop hash_long (\<lambda>i. nodes (Suc i)) sd cntr t)"

declare k_stag_loop.simps [code]

definition k_mem_stag_create :: "(u64 \<Rightarrow> nat \<Rightarrow> nat) \<Rightarrow> u64 option \<Rightarrow> (nat \<Rightarrow> bool) \<Rightarrow> u64 \<Rightarrow> u64 \<Rightarrow> u64 \<Rightarrow> u32 \<Rightarrow> u32
    \<Rightarrow> k_mem_manager \<Rightarrow> (stag \<times> k_mem_manager) outcome" where
  "k_mem_stag_create hash_long kmalloc nodes md start len rw prot_domain mm =
     bindO (k_mr_from_md md mm) (\<lambda>r.
       case r of
         None \<Rightarrow> Done (of_int (- EINVAL), mm)
       | Some i \<Rightarrow>
           let mr = km_region mm ! i
           in if start < kr_start mr \<or> len > kr_len mr then Done (of_int (- EINVAL), mm)
              else case kmalloc of
                     None \<Rightarrow> Done (of_int (- ENOMEM), mm)
                   | Some a \<Rightarrow>
                       case k_stag_loop hash_long nodes \<lparr>ks_addr = a, ks_mr = md, ks_start = start, ks_len = len,
                              ks_stag = 0, ks_rw = rw, ks_prot = prot_domain\<rparr> (km_next_cntr mm) (km_stag_ht mm) of
                         None \<Rightarrow> Exit
                       | Some (sd, cntr, t) \<Rightarrow>
                           bindO (k_list_add (ks_addr sd) (region_head (km_base mm) i)
                               (mm\<lparr>km_next_cntr := cntr, km_stag_ht := t, km_dead := (km_dead mm)(a := False)\<rparr>))
                             (\<lambda>mm. Done (ks_stag sd, mm)))"

definition k_mem_stag_destroy :: "(u64 \<Rightarrow> nat \<Rightarrow> nat) \<Rightarrow> stag \<Rightarrow> k_mem_manager \<Rightarrow> (int \<times> k_mem_manager) outcome" where
  "k_mem_stag_destroy hash_long stag mm =
     (case k_ht_lookup hash_long (km_stag_ht mm) (k_stag_key stag) of
        (ret, None) \<Rightarrow> Done (ret, mm)
      | (_, Some sd) \<Rightarrow>
          bindO (k_list_del (ks_addr sd) mm) (\<lambda>mm.
            let (ret, t) = k_ht_delete hash_long (km_stag_ht mm) (k_stag_key (ks_stag sd))
            in Done (ret, mm\<lparr>km_stag_ht := t, km_dead := (km_dead mm)(ks_addr sd := True)\<rparr>)))"

definition k_mem_stag_is_enabled :: "(u64 \<Rightarrow> nat \<Rightarrow> nat) \<Rightarrow> stag \<Rightarrow> k_mem_manager \<Rightarrow> int" where
  "k_mem_stag_is_enabled hash_long stag mm = fst (k_ht_lookup hash_long (km_stag_ht mm) (k_stag_key stag))"

definition k_mem_stag_desc :: "(u64 \<Rightarrow> nat \<Rightarrow> nat) \<Rightarrow> stag \<Rightarrow> u64 \<Rightarrow> u64 \<Rightarrow> u32 \<Rightarrow> k_mem_manager \<Rightarrow> k_stag_desc option" where
  "k_mem_stag_desc hash_long stag start len rw mm =
     (case k_ht_lookup hash_long (km_stag_ht mm) (k_stag_key stag) of
        (_, None) \<Rightarrow> None
      | (_, Some sd) \<Rightarrow>
          if rw AND STAG_R \<noteq> 0 \<and> ks_rw sd AND STAG_R = 0 then None
          else if rw AND STAG_W \<noteq> 0 \<and> ks_rw sd AND STAG_W = 0 then None
          else if start < ks_start sd \<or> start \<ge> ks_start sd + ks_len sd then None
          else if start + len < ks_start sd \<or> start + len > ks_start sd + ks_len sd then None
          else Some sd)"

section \<open>Vectors over pages\<close>

text \<open>An element of a vector: a frame, the offset in it, the number of bytes.\<close>

type_synonym pvec = "nat \<times> nat \<times> nat"

lemma page_offset_less: "unat ((buf :: u64) AND NOT PAGE_MASK) < 4096"
proof -
  have "buf AND NOT PAGE_MASK = take_bit 12 buf" by (simp add: PAGE_MASK_def take_bit_eq_mask mask_eq_exp_minus_1)
  moreover have "unat (take_bit 12 buf) < 2 ^ 12" unfolding unsigned_take_bit_eq by (rule take_bit_nat_less_exp)
  ultimately show ?thesis by simp
qed

text \<open>
  \<open>mem_fill_iovec\<close>, from the number of entries already filled: the entries it adds. The page index is an
  \<open>int\<close>; reading the list of pages outside the pages of the region is undefined.
\<close>

function fill_loop :: "nat list \<Rightarrow> u64 \<Rightarrow> int \<Rightarrow> u64 \<Rightarrow> nat \<Rightarrow> nat \<Rightarrow> (int \<times> pvec list) outcome" where
  "fill_loop pgs ms payload_len buf num_iov_alloc numiov =
     (if payload_len \<le> 0 then Done (0, [])
      else let page_index = sint (ucast (drop_bit PAGE_SHIFT buf - ms) :: u32);
               page_offset = unat (buf AND NOT PAGE_MASK);
               page_avail = int (unat PAGE_SIZE) - int page_offset;
               numbytes = (if payload_len > page_avail then page_avail else payload_len)
           in if page_index < 0 \<or> nat page_index \<ge> length pgs then Exit
              else if numiov = num_iov_alloc then Done (- EOVERFLOW, [])
              else bindO (fill_loop pgs ms (payload_len - numbytes) (buf + of_int numbytes) num_iov_alloc (Suc numiov)) (\<lambda>(ret, v).
                     Done (ret, (pgs ! nat page_index, page_offset, nat numbytes) # v)))"
  by pat_completeness auto

termination
proof (relation "measure (\<lambda>(pgs, ms, payload_len, buf, num_iov_alloc, numiov). nat payload_len)", simp)
  fix pgs :: "nat list" and ms buf :: u64 and payload_len :: int and alloc numiov :: nat and x xa xb xc
  assume a: "\<not> payload_len \<le> 0" "xa = unat (buf AND NOT PAGE_MASK)" "xb = int (unat PAGE_SIZE) - int xa"
    "xc = (if payload_len > xb then xb else payload_len)"
  moreover from page_offset_less [of buf] have "int (unat (buf AND NOT PAGE_MASK)) < 4096" by linarith
  ultimately have "0 < xc" by auto
  with a(1) show "((pgs, ms, payload_len - xc, buf + of_int xc, alloc, Suc numiov), pgs, ms, payload_len, buf, alloc, numiov)
      \<in> measure (\<lambda>(pgs, ms, payload_len, buf, num_iov_alloc, numiov). nat payload_len)" by simp
qed

text \<open>The loop of \<open>mem_unmap_iovec\<close>: the frames it unmaps, in order.\<close>

function unmap_loop :: "nat list \<Rightarrow> u64 \<Rightarrow> int \<Rightarrow> u64 \<Rightarrow> nat list outcome" where
  "unmap_loop pgs ms payload_len buf =
     (if payload_len \<le> 0 then Done []
      else let page_index = sint (ucast (drop_bit PAGE_SHIFT buf - ms) :: u32);
               page_offset = unat (buf AND NOT PAGE_MASK);
               page_avail = int (unat PAGE_SIZE) - int page_offset;
               numbytes = (if payload_len > page_avail then page_avail else payload_len)
           in if page_index < 0 \<or> nat page_index \<ge> length pgs then Exit
              else bindO (unmap_loop pgs ms (payload_len - numbytes) (buf + of_int numbytes)) (\<lambda>v.
                     Done (pgs ! nat page_index # v)))"
  by pat_completeness auto

termination
proof (relation "measure (\<lambda>(pgs, ms, payload_len, buf). nat payload_len)", simp)
  fix pgs :: "nat list" and ms buf :: u64 and payload_len :: int and x xa xb xc
  assume a: "\<not> payload_len \<le> 0" "xa = unat (buf AND NOT PAGE_MASK)" "xb = int (unat PAGE_SIZE) - int xa"
    "xc = (if payload_len > xb then xb else payload_len)"
  moreover from page_offset_less [of buf] have "int (unat (buf AND NOT PAGE_MASK)) < 4096" by linarith
  ultimately have "0 < xc" by auto
  with a(1) show "((pgs, ms, payload_len - xc, buf + of_int xc), pgs, ms, payload_len, buf)
      \<in> measure (\<lambda>(pgs, ms, payload_len, buf). nat payload_len)" by simp
qed

declare grab_pages.simps [simp del] fill_loop.simps [simp del] unmap_loop.simps [simp del]

text \<open>\<open>sd->mr\<close>: the region, if the pointer is into the table that is there.\<close>

definition sd_region :: "k_stag_desc \<Rightarrow> k_mem_manager \<Rightarrow> k_mem_region outcome" where
  "sd_region sd mm = bindO (k_mr_from_md (ks_mr sd) mm) (\<lambda>r. case r of None \<Rightarrow> Exit | Some i \<Rightarrow> Done (km_region mm ! i))"

definition k_mem_fill_iovec :: "u64 \<Rightarrow> int \<Rightarrow> u32 \<Rightarrow> k_stag_desc \<Rightarrow> nat \<Rightarrow> nat \<Rightarrow> k_mem_manager \<Rightarrow> (int \<times> pvec list) outcome" where
  "k_mem_fill_iovec bufv payload_len offset sd num_iov_alloc numiov mm =
     bindO (sd_region sd mm) (\<lambda>mr.
       fill_loop (take (kr_npages mr) (kr_page_list mr)) (drop_bit PAGE_SHIFT (kr_start mr)) payload_len
         (bufv + scast offset) num_iov_alloc numiov)"

definition k_mem_unmap_iovec :: "u64 \<Rightarrow> int \<Rightarrow> u32 \<Rightarrow> k_stag_desc \<Rightarrow> k_mem_manager \<Rightarrow> nat list outcome" where
  "k_mem_unmap_iovec bufv payload_len offset sd mm =
     bindO (sd_region sd mm) (\<lambda>mr.
       unmap_loop (take (kr_npages mr) (kr_page_list mr)) (drop_bit PAGE_SHIFT (kr_start mr)) payload_len
         (bufv + scast offset))"

section \<open>Vectors cover the range\<close>

lemma page_of: "unat (drop_bit PAGE_SHIFT (x :: u64)) = unat x div 4096"
proof -
  have "unat x < 2 ^ LENGTH(64)" by (rule unsigned_less)
  then have "take_bit 64 (unat x) = unat x" by (intro take_bit_nat_eq_self) simp
  moreover have "unat (drop_bit PAGE_SHIFT x) = drop_bit PAGE_SHIFT (take_bit 64 (unat x))" by (simp only: unsigned_drop_bit_eq) simp
  ultimately show ?thesis by (simp add: drop_bit_eq_div)
qed

lemma offset_of: "unat ((x :: u64) AND NOT PAGE_MASK) = unat x mod 4096"
proof -
  have "x AND NOT PAGE_MASK = take_bit 12 x" by (simp add: PAGE_MASK_def take_bit_eq_mask mask_eq_exp_minus_1)
  moreover have "unat (take_bit 12 x) = unat x mod 2 ^ 12"
    by (simp only: unsigned_take_bit_eq) (simp only: take_bit_eq_mod)
  ultimately show ?thesis by simp
qed

lemma unat_add_nat: "unat (x :: u64) + n < 2 ^ 64 \<Longrightarrow> unat (x + of_nat n) = unat x + n"
  by (simp add: unat_word_ariths unat_of_nat mod_add_right_eq)

lemma unat_diff_le: "unat (b :: u64) \<le> unat a \<Longrightarrow> unat (a - b) = unat a - unat b"
  by (simp add: unat_sub word_le_nat_alt)

lemma page_index_eq:
  assumes "M \<le> D" "D - M < 2 ^ 31" "unat (a :: u64) = D" "unat ms = M"
  shows "sint (ucast (a - ms) :: u32) = int (D - M)"
proof -
  have u: "unat (a - ms) = D - M" using assms unat_diff_le [of ms a] by simp
  then have "unat (ucast (a - ms) :: u32) = D - M"
    using assms(2) by (simp add: unsigned_ucast_eq take_bit_nat_eq_self)
  then have "uint (ucast (a - ms) :: u32) = int (D - M)" by (metis uint_nat)
  then show ?thesis using assms(2) by (simp add: sint_uint signed_take_bit_int_eq_self)
qed

text \<open>The places an element stands for, in order.\<close>

fun pvec_places :: "pvec \<Rightarrow> (nat \<times> nat) list" where
  "pvec_places (pg, off, n) = map (\<lambda>i. (pg, off + i)) [0..<n]"

definition places :: "pvec list \<Rightarrow> (nat \<times> nat) list" where
  "places v = concat (map pvec_places v)"

lemma length_pvec_places [simp]: "length (pvec_places p) = snd (snd p)"
  by (cases p) simp

definition page_place :: "nat list \<Rightarrow> nat \<Rightarrow> nat \<Rightarrow> nat \<times> nat" where
  "page_place pgs M a = (pgs ! (a div 4096 - M), a mod 4096)"

text \<open>
  A range whose pages are all in the list: the loop does not leave the list, and either fills the vector with
  the places of the range, piece by piece inside the frames, or runs out of entries.
\<close>

lemma fill_loop_exact:
  assumes "unat ms = M" "M \<le> unat buf div 4096" "length pgs \<le> 2 ^ 31" "k \<le> alloc"
    and "0 < n \<Longrightarrow> (unat buf + n - 1) div 4096 - M < length pgs" "unat buf + n < 2 ^ 64"
  shows "\<exists>ret v. fill_loop pgs ms (int n) buf alloc k = Done (ret, v)
    \<and> (ret = 0 \<and> places v = map (\<lambda>i. page_place pgs M (unat buf + i)) [0..<n]
         \<and> unmap_loop pgs ms (int n) buf = Done (map fst v) \<and> length v \<le> alloc - k
       \<or> ret = - EOVERFLOW \<and> length v = alloc - k)
    \<and> (\<forall>(pg, off, len)\<in>set v. off + len \<le> 4096 \<and> 0 < len \<and> pg \<in> set pgs)"
  using assms(2,4-6)
proof (induction n arbitrary: buf k rule: less_induct)
  case (less n)
  show ?case
  proof (cases "n = 0")
    case True
    then show ?thesis by (simp add: fill_loop.simps [of _ _ 0] unmap_loop.simps [of _ _ 0] places_def)
  next
    case False
    define off where "off = unat buf mod 4096"
    define c where "c = min n (4096 - off)"
    define idx where "idx = unat buf div 4096 - M"
    have off: "off < 4096" by (simp add: off_def)
    have c: "0 < c" "c \<le> n" "off + c \<le> 4096" using False off by (auto simp: c_def)
    have "unat buf div 4096 \<le> (unat buf + n - 1) div 4096" by (rule div_le_mono) (use False in simp)
    then have idx: "idx < length pgs" using less.prems(3) False by (simp add: idx_def)
    have "unat (drop_bit PAGE_SHIFT buf) = unat buf div 4096" by (rule page_of)
    then have pi: "sint (ucast (drop_bit PAGE_SHIFT buf - ms) :: u32) = int idx"
      unfolding idx_def using less.prems(1) idx assms(1,3) by (intro page_index_eq) (auto simp: idx_def)
    have pa: "(if 4096 - int off < int n then 4096 - int off else int n) = int c"
      using off by (auto simp: c_def)
    have step: "fill_loop pgs ms (int n) buf alloc k = (if k = alloc then Done (- EOVERFLOW, [])
        else bindO (fill_loop pgs ms (int (n - c)) (buf + of_nat c) alloc (Suc k)) (\<lambda>(ret, v). Done (ret, (pgs ! idx, off, c) # v)))"
      using False idx c by (subst fill_loop.simps) (simp add: Let_def pi pa offset_of of_nat_diff flip: off_def)
    have ustep: "unmap_loop pgs ms (int n) buf
        = bindO (unmap_loop pgs ms (int (n - c)) (buf + of_nat c)) (\<lambda>v. Done (pgs ! idx # v))"
      using False idx c by (subst unmap_loop.simps) (simp add: Let_def pi pa offset_of of_nat_diff flip: off_def)
    show ?thesis
    proof (cases "k = alloc")
      case True
      then show ?thesis using step by simp
    next
      case k: False
      have u: "unat (buf + of_nat c) = unat buf + c" using less.prems(4) c by (intro unat_add_nat) simp
      have M': "M \<le> unat (buf + of_nat c) div 4096"
        using less.prems(1) div_le_mono [of "unat buf" "unat buf + c" 4096] by (simp add: u)
      from less.IH [of "n - c" "buf + of_nat c" "Suc k"] c False k less.prems M'
      obtain ret v where v: "fill_loop pgs ms (int (n - c)) (buf + of_nat c) alloc (Suc k) = Done (ret, v)"
        "ret = 0 \<and> places v = map (\<lambda>i. page_place pgs M (unat buf + c + i)) [0..<n - c]
         \<and> unmap_loop pgs ms (int (n - c)) (buf + of_nat c) = Done (map fst v) \<and> length v \<le> alloc - Suc k
         \<or> ret = - EOVERFLOW \<and> length v = alloc - Suc k"
        "\<forall>(pg, off, len)\<in>set v. off + len \<le> 4096 \<and> 0 < len \<and> pg \<in> set pgs"
        by (auto simp: u)
      have "(unat buf + i) div 4096 = unat buf div 4096" "(unat buf + i) mod 4096 = off + i" if "i < c" for i
      proof -
        have "unat buf + i = 4096 * (unat buf div 4096) + (off + i)" by (simp add: off_def)
        moreover have "off + i < 4096" using that c by simp
        ultimately show "(unat buf + i) div 4096 = unat buf div 4096" "(unat buf + i) mod 4096 = off + i"
          by (metis div_mult_self4 div_less add.right_neutral zero_neq_numeral add.commute, metis mod_mult_self4 mod_less)
      qed
      then have "pvec_places (pgs ! idx, off, c) = map (\<lambda>i. page_place pgs M (unat buf + i)) [0..<c]"
        by (simp add: page_place_def idx_def)
      moreover have "[0..<n] = [0..<c] @ map (\<lambda>i. c + i) [0..<n - c]"
        using c(2) upt_add_eq_append [of 0 c "n - c"] by (simp add: map_add_upt add.commute)
      ultimately have "places ((pgs ! idx, off, c) # v) = map (\<lambda>i. page_place pgs M (unat buf + i)) [0..<n]"
        if "ret = 0" using v(2) that by (simp add: places_def comp_def add.assoc)
      then show ?thesis
        using step ustep k v c idx less.prems(2)
        by (intro exI [of _ ret] exI [of _ "(pgs ! idx, off, c) # v"]) auto
    qed
  qed
qed

section \<open>Registration\<close>

lemma add_pins_count: "add_pins d pgs pins pg = pins pg + d * int (count_list pgs pg)"
  unfolding add_pins_def by (induction pgs arbitrary: pins) (simp_all add: algebra_simps)

lemma add_pins_append: "add_pins d (xs @ ys) pins = add_pins d ys (add_pins d xs pins)"
  by (simp add: add_pins_def)

lemma mapped_pages_pt:
  "length (mapped_pages pt vpn n) \<le> n"
  "j < length (mapped_pages pt vpn n) \<Longrightarrow> pt (vpn + of_nat j) = Some (mapped_pages pt vpn n ! j)"
proof (induction n arbitrary: vpn j)
  case (Suc n)
  { case 1 show ?case using Suc(1) by (simp split: option.split) }
  case 2
  then obtain pg where "pt vpn = Some pg" by (auto split: option.splits)
  with 2 Suc(2) [of "j - 1" "vpn + 1"] show ?case by (cases j) (auto simp: add.assoc)
qed simp_all

lemma get_user_pages_pt:
  assumes "get_user_pages pt ans vpn n = Some pgs"
  shows "length pgs \<le> n" "j < length pgs \<Longrightarrow> pt (vpn + of_nat j) = Some (pgs ! j)"
  using assms mapped_pages_pt(1) [of pt vpn n] mapped_pages_pt(2) [of _ pt vpn n]
  by (auto simp: get_user_pages_def Let_def split: list.splits if_splits)

lemma grab_pages_spec:
  assumes "grab_pages pt ans vpn npages got (add_pins 1 got pins) = (res, pins')" "length got \<le> npages"
    and "\<forall>j<length got. pt (vpn + of_nat j) = Some (got ! j)"
  shows "case res of None \<Rightarrow> pins' = pins
    | Some pgs \<Rightarrow> length pgs = npages \<and> (\<forall>j<npages. pt (vpn + of_nat j) = Some (pgs ! j)) \<and> pins' = add_pins 1 pgs pins"
  using assms
proof (induction pt ans vpn npages got "add_pins 1 got pins" rule: grab_pages.induct)
  case (1 pt ans vpn npages got)
  let ?g = "get_user_pages pt ans (vpn + of_nat (length got)) (npages - length got)"
  show ?case
  proof (cases "length got \<ge> npages")
    case True
    with 1 show ?thesis by (auto simp: grab_pages.simps [of pt ans])
  next
    case False
    show ?thesis
    proof (cases ?g)
      case None
      with 1 False have "res = None" "pins' = add_pins (- 1) got (add_pins 1 got pins)"
        by (simp_all add: grab_pages.simps [of pt ans])
      then show ?thesis by (simp add: add_pins_count fun_eq_iff)
    next
      case (Some pgs)
      note g = get_user_pages_pt [OF Some]
      have "pt (vpn + of_nat j) = Some ((got @ pgs) ! j)" if j: "j < length (got @ pgs)" for j
      proof (cases "j < length got")
        case False
        then obtain k where "j = length got + k" using le_Suc_ex [of "length got" j] by auto
        with j g(2) [of k] show ?thesis by (simp add: add.assoc)
      qed (use 1(4) in \<open>simp add: nth_append\<close>)
      moreover have "grab_pages pt (tl ans) vpn npages (got @ pgs) (add_pins 1 (got @ pgs) pins) = (res, pins')"
        using 1(2) False Some by (simp add: grab_pages.simps [of pt ans] add_pins_append)
      ultimately show ?thesis
        using 1(1) [OF False Some] g(1) False by (simp add: add_pins_append)
    qed
  qed
qed

text \<open>A table in its place: as many elements as the count says, all addresses below \<open>2^64\<close>.\<close>

definition k_table_ok :: "k_mem_manager \<Rightarrow> bool" where
  "k_table_ok mm \<longleftrightarrow> length (km_region mm) = unat (km_num mm) \<and> km_base mm \<noteq> 0
     \<and> unat (km_base mm) + 64 * unat (km_num mm) < 2 ^ 64"

lemma region_addr_unat:
  "unat base + 64 * n < 2 ^ 64 \<Longrightarrow> i < n \<Longrightarrow> unat (region_addr base i) = unat base + 64 * i"
  using unat_add_nat [of base "64 * i"] by (simp add: region_addr_def)

lemma region_head_unat:
  "unat base + 64 * n < 2 ^ 64 \<Longrightarrow> i < n \<Longrightarrow> unat (region_head base i) = unat base + 64 * i + 24"
  using unat_add_nat [of "region_addr base i" 24] region_addr_unat [of base n i] by (simp add: region_head_def)

lemma k_mr_from_md_region:
  assumes "k_table_ok mm" "i < length (km_region mm)"
  shows "k_mr_from_md (region_addr (km_base mm) i) mm = Done (Some i)"
proof -
  let ?a = "region_addr (km_base mm) i"
  have a: "unat ?a = unat (km_base mm) + 64 * i"
    using assms by (auto simp: k_table_ok_def intro!: region_addr_unat [of _ "unat (km_num mm)"])
  have e: "unat (km_base mm + 64 * km_num mm) = unat (km_base mm) + 64 * unat (km_num mm)"
    using assms(1) unat_add_nat [of "km_base mm" "64 * unat (km_num mm)"] by (simp add: k_table_ok_def)
  have d: "unat (?a - km_base mm) = 64 * i" using unat_diff_le [of "km_base mm" ?a] a by simp
  then have "unat ((?a - km_base mm) mod 64) = 0" "unat ((?a - km_base mm) div 64) = i"
    by (simp_all add: unat_mod unat_div)
  then show ?thesis
    using assms a e by (auto simp: k_mr_from_md_def Let_def word_less_nat_alt word_le_nat_alt k_table_ok_def unat_eq_0)
qed

lemma k_mr_from_md_some:
  "k_mr_from_md md mm = Done (Some i) \<Longrightarrow> i < length (km_region mm) \<and> md = region_addr (km_base mm) i"
proof -
  assume "k_mr_from_md md mm = Done (Some i)"
  then have i: "i < length (km_region mm)" "(md - km_base mm) mod 64 = 0" "i = unat ((md - km_base mm) div 64)"
    by (auto simp: k_mr_from_md_def Let_def split: if_splits)
  have "of_nat i = (md - km_base mm) div 64" using i(3) by simp
  then have "md - km_base mm = 64 * of_nat i"
    using i(2) div_mult_mod_eq [of "md - km_base mm" 64] by (simp add: mult.commute)
  then show ?thesis using i(1) by (simp add: region_addr_def algebra_simps)
qed

lemma k_first_free:
  "k_first_free k mrs < k + length mrs \<Longrightarrow> k \<le> k_first_free k mrs \<and> \<not> kr_valid (mrs ! (k_first_free k mrs - k))"
proof (induction k mrs rule: k_first_free.induct)
  case (2 i mr mrs)
  show ?case
  proof (cases "kr_valid mr")
    case True
    with 2 have f: "Suc i \<le> k_first_free (Suc i) mrs" "\<not> kr_valid (mrs ! (k_first_free (Suc i) mrs - Suc i))" by simp_all
    then have "k_first_free (Suc i) mrs - i = Suc (k_first_free (Suc i) mrs - Suc i)" by simp
    with f True show ?thesis by simp
  qed simp
qed simp

text \<open>A region whose pages are the ones the page table has for its range.\<close>

definition k_region_ok :: "(u64 \<Rightarrow> nat option) \<Rightarrow> k_mem_region \<Rightarrow> bool" where
  "k_region_ok pt mr \<longleftrightarrow> kr_npages mr = length (kr_page_list mr)
     \<and> kr_npages mr = unat (mem_npages (kr_start mr) (kr_len mr)) \<and> kr_npages mr \<le> 2048
     \<and> (\<forall>j<kr_npages mr. pt (drop_bit PAGE_SHIFT (kr_start mr) + of_nat j) = Some (kr_page_list mr ! j))"

lemma mem_register_cases:
  assumes "k_mem_register pt ans table page_list caddr addr len mm = Done (md, mm')"
    and "k_table_ok mm" "k_first_free 0 (km_region mm) < length (km_region mm)"
  obtains i where "i = k_first_free 0 (km_region mm)" "i < length (km_region mm)" "\<not> kr_valid (km_region mm ! i)"
    "md = 0" "mm' = mm \<or> (\<exists>mr. \<not> kr_valid mr \<and> mm' = mm\<lparr>km_region := (km_region mm)[i := mr]\<rparr>)"
  | i mr where "i = k_first_free 0 (km_region mm)" "i < length (km_region mm)" "\<not> kr_valid (km_region mm ! i)"
    "md = region_addr (km_base mm) i" "kr_valid mr" "kr_start mr = addr" "kr_len mr = len" "k_region_ok pt mr"
    "mm' = mm\<lparr>km_pins := add_pins 1 (kr_page_list mr) (km_pins mm), km_region := (km_region mm)[i := mr],
       km_links := INIT_LIST_HEAD (region_head (km_base mm) i) (km_links mm)\<rparr>"
proof -
  define i where i: "i = k_first_free 0 (km_region mm)"
  have il: "i < length (km_region mm)" "\<not> kr_valid (km_region mm ! i)"
    using assms(3) k_first_free [of 0 "km_region mm"] by (auto simp: i)
  then have slot: "k_mem_slot table mm = Done (Some i, mm)"
    using assms(2) by (simp add: k_mem_slot_def k_table_ok_def Let_def flip: i)
  define n where n: "n = mem_npages addr len"
  define mr0 where mr0: "mr0 = (km_region mm ! i)\<lparr>kr_page_list := []\<rparr>"
  have v0: "\<not> kr_valid mr0" using il(2) by (simp add: mr0)
  obtain got pins where g: "grab_pages pt ans (drop_bit PAGE_SHIFT addr) (unat n) [] (km_pins mm) = (got, pins)" by fastforce
  from grab_pages_spec [of pt ans "drop_bit PAGE_SHIFT addr" "unat n" "[]" "km_pins mm" got pins] g
  have gs: "case got of None \<Rightarrow> pins = km_pins mm
    | Some pgs \<Rightarrow> length pgs = unat n \<and> (\<forall>j<unat n. pt (drop_bit PAGE_SHIFT addr + of_nat j) = Some (pgs ! j))
      \<and> pins = add_pins 1 pgs (km_pins mm)" by (simp add: add_pins_def)
  consider "md = 0" "mm' = mm" | "md = 0" "mm' = mm\<lparr>km_region := (km_region mm)[i := mr0]\<rparr>"
    | pgs where "n \<le> 2048" "got = Some pgs" "md = region_addr (km_base mm) i"
      "mm' = mm\<lparr>km_pins := pins, km_region := (km_region mm)[i := \<lparr>kr_start = addr, kr_len = len, kr_valid = True,
         kr_page_list = pgs, kr_npages = unat n\<rparr>], km_links := INIT_LIST_HEAD (region_head (km_base mm) i) (km_links mm)\<rparr>"
  proof -
    have lim: "4 * PAGE_SIZE div 8 = 2048" by simp
    have reg: "k_mem_register pt ans table page_list caddr addr len mm =
      (if n > 2048 \<or> \<not> page_list then Done (0, mm)
       else if \<not> caddr then Done (0, mm\<lparr>km_region := (km_region mm)[i := mr0]\<rparr>)
       else case got of
              None \<Rightarrow> Done (0, mm\<lparr>km_pins := pins, km_region := (km_region mm)[i := mr0]\<rparr>)
            | Some pgs \<Rightarrow> Done (region_addr (km_base mm) i, mm\<lparr>km_pins := pins,
                km_region := (km_region mm)[i := \<lparr>kr_start = addr, kr_len = len, kr_valid = True,
                  kr_page_list = pgs, kr_npages = unat n\<rparr>],
                km_links := INIT_LIST_HEAD (region_head (km_base mm) i) (km_links mm)\<rparr>))"
      unfolding k_mem_register_def slot bindO.simps prod.case option.case Let_def lim g n [symmetric] mr0 [symmetric]
      by (simp add: g split: option.split)
    show thesis if "\<lbrakk>md = 0; mm' = mm\<rbrakk> \<Longrightarrow> thesis" "\<lbrakk>md = 0; mm' = mm\<lparr>km_region := (km_region mm)[i := mr0]\<rparr>\<rbrakk> \<Longrightarrow> thesis"
      "\<And>pgs. \<lbrakk>n \<le> 2048; got = Some pgs; md = region_addr (km_base mm) i;
        mm' = mm\<lparr>km_pins := pins, km_region := (km_region mm)[i := \<lparr>kr_start = addr, kr_len = len, kr_valid = True,
         kr_page_list = pgs, kr_npages = unat n\<rparr>], km_links := INIT_LIST_HEAD (region_head (km_base mm) i) (km_links mm)\<rparr>\<rbrakk> \<Longrightarrow> thesis"
    proof (cases "n > 2048 \<or> \<not> page_list \<or> \<not> caddr")
      case True
      with that(1,2) assms(1) reg show thesis by (auto split: if_splits)
    next
      case False
      show thesis
      proof (cases got)
        case None
        with False reg assms(1) gs have "md = 0" "mm' = mm\<lparr>km_region := (km_region mm)[i := mr0]\<rparr>" by auto
        with that(2) show thesis .
      next
        case (Some pgs)
        with False reg assms(1) that(3) show thesis by auto
      qed
    qed
  qed
  then show thesis
  proof cases
    case 1
    then show ?thesis using that(1) [OF i il] by blast
  next
    case 2
    then show ?thesis using that(1) [OF i il] v0 by blast
  next
    case 3
    let ?mr = "\<lparr>kr_start = addr, kr_len = len, kr_valid = True, kr_page_list = pgs, kr_npages = unat n\<rparr>"
    have "unat n \<le> 2048" using 3(1) by (simp add: word_le_nat_alt)
    with gs 3(2) have r: "k_region_ok pt ?mr" by (simp add: k_region_ok_def n)
    have p: "pins = add_pins 1 pgs (km_pins mm)" using gs 3(2) by simp
    show ?thesis by (rule that(2) [OF i il 3(3) _ _ _ r]) (simp_all add: 3(4) p)
  qed
qed

lemma mem_npages_nat:
  assumes "unat len + 8192 \<le> 2 ^ 64"
  shows "unat (mem_npages addr len) = (unat len + unat addr mod 4096 + 4095) div 4096"
proof -
  have d: "drop_bit PAGE_SHIFT (x AND PAGE_MASK) = drop_bit PAGE_SHIFT x" for x
  proof -
    have "PAGE_MASK = NOT (mask 12)" by (simp add: PAGE_MASK_def mask_eq_exp_minus_1)
    then show ?thesis unfolding \<open>PAGE_MASK = _\<close>
    proof (intro bit_word_eqI)
      fix n show "bit (drop_bit PAGE_SHIFT (x AND NOT (mask 12))) n = bit (drop_bit PAGE_SHIFT x) n"
        using bit_imp_le_length [of x "PAGE_SHIFT + n"] by (auto simp: bit_simps)
    qed
  qed
  let ?o = "addr AND NOT PAGE_MASK"
  have o: "unat ?o = unat addr mod 4096" "unat addr mod 4096 < 4096" by (simp_all add: offset_of)
  then have a: "unat (len + ?o) = unat len + unat addr mod 4096"
    using assms unat_add_nat [of len "unat addr mod 4096"] by (simp flip: o(1))
  have "unat (len + ?o + 4095) = unat len + unat addr mod 4096 + 4095"
    using assms o(2) unat_add_nat [of "len + ?o" 4095] unfolding a by simp
  moreover have "mem_npages addr len = drop_bit PAGE_SHIFT (len + ?o + 4095)"
    unfolding mem_npages_def d by simp
  ultimately show ?thesis by (simp only: page_of)
qed

text \<open>Where the process sees a byte: the frame of its page, and the offset there.\<close>

definition user_place :: "(u64 \<Rightarrow> nat option) \<Rightarrow> u64 \<Rightarrow> (nat \<times> nat) option" where
  "user_place pt a = map_option (\<lambda>pg. (pg, unat a mod 4096)) (pt (drop_bit PAGE_SHIFT a))"

lemma region_range_places:
  assumes r: "k_region_ok pt mr" and len: "unat (kr_len mr) + 8192 \<le> 2 ^ 64"
    and lo: "unat (kr_start mr) \<le> unat buf" and hi: "unat buf + n \<le> unat (kr_start mr) + unat (kr_len mr)"
    and wrap: "unat buf + n < 2 ^ 64" and alloc: "k \<le> alloc"
  shows "\<exists>ret v. fill_loop (take (kr_npages mr) (kr_page_list mr)) (drop_bit PAGE_SHIFT (kr_start mr)) (int n) buf alloc k = Done (ret, v)
    \<and> (ret = 0 \<and> map Some (places v) = map (\<lambda>i. user_place pt (buf + of_nat i)) [0..<n]
         \<and> unmap_loop (take (kr_npages mr) (kr_page_list mr)) (drop_bit PAGE_SHIFT (kr_start mr)) (int n) buf = Done (map fst v)
         \<and> length v \<le> alloc - k
       \<or> ret = - EOVERFLOW \<and> length v = alloc - k)
    \<and> (\<forall>(pg, off, len)\<in>set v. off + len \<le> 4096 \<and> 0 < len \<and> pg \<in> set (kr_page_list mr))"
proof -
  define s where "s = unat (kr_start mr)"
  define pgs where "pgs = kr_page_list mr"
  have np: "length pgs = (unat (kr_len mr) + s mod 4096 + 4095) div 4096" "length pgs \<le> 2048" "kr_npages mr = length pgs"
    using r mem_npages_nat [OF len, of "kr_start mr"] by (auto simp: k_region_ok_def s_def pgs_def)
  have pt: "\<forall>j<length pgs. pt (drop_bit PAGE_SHIFT (kr_start mr) + of_nat j) = Some (pgs ! j)"
    using r by (auto simp: k_region_ok_def pgs_def)
  have M: "unat (drop_bit PAGE_SHIFT (kr_start mr)) = s div 4096" by (simp add: page_of s_def)
  have idx: "(unat buf + i) div 4096 - s div 4096 < length pgs" "s div 4096 \<le> (unat buf + i) div 4096" if "i < n" for i
  proof -
    have le: "s \<le> unat buf + i" "unat buf + i < s + unat (kr_len mr)" using that hi lo by (simp_all add: s_def)
    then show lo: "s div 4096 \<le> (unat buf + i) div 4096" by (intro div_le_mono)
    define r where "r = s mod 4096 + unat (kr_len mr) - 1"
    have r: "unat (kr_len mr) + s mod 4096 + 4095 = r + 4096" "unat buf + i \<le> r + s div 4096 * 4096"
      using le by (simp_all add: r_def)
    have "(unat buf + i) div 4096 \<le> (r + s div 4096 * 4096) div 4096" by (rule div_le_mono [OF r(2)])
    then have "(unat buf + i) div 4096 < s div 4096 + (unat (kr_len mr) + s mod 4096 + 4095) div 4096"
      unfolding r(1) by simp
    with lo show "(unat buf + i) div 4096 - s div 4096 < length pgs" unfolding np(1) by linarith
  qed
  have "0 < n \<Longrightarrow> (unat buf + n - 1) div 4096 - s div 4096 < length pgs" using idx(1) [of "n - 1"] by simp
  moreover have "s div 4096 \<le> unat buf div 4096" using lo by (intro div_le_mono) (simp add: s_def)
  moreover have "length pgs \<le> 2 ^ 31" using np(2) by simp
  moreover note fill_loop_exact [OF M, of buf pgs k alloc n] alloc wrap
  ultimately obtain ret v where v: "fill_loop pgs (drop_bit PAGE_SHIFT (kr_start mr)) (int n) buf alloc k = Done (ret, v)"
    "ret = 0 \<and> places v = map (\<lambda>i. page_place pgs (s div 4096) (unat buf + i)) [0..<n]
         \<and> unmap_loop pgs (drop_bit PAGE_SHIFT (kr_start mr)) (int n) buf = Done (map fst v) \<and> length v \<le> alloc - k
       \<or> ret = - EOVERFLOW \<and> length v = alloc - k"
    "\<forall>(pg, off, len)\<in>set v. off + len \<le> 4096 \<and> 0 < len \<and> pg \<in> set pgs"
    by auto
  have "user_place pt (buf + of_nat i) = Some (page_place pgs (s div 4096) (unat buf + i))" if "i < n" for i
  proof -
    have u: "unat (buf + of_nat i) = unat buf + i" using wrap that by (intro unat_add_nat) simp
    define d where "d = (unat buf + i) div 4096 - s div 4096"
    have "unat (drop_bit PAGE_SHIFT (buf + of_nat i)) = s div 4096 + d"
      using idx(2) [OF that] by (simp add: page_of u d_def)
    moreover have "s div 4096 + d < 2 ^ 64"
      using wrap that div_le_dividend [of "unat buf + i" 4096] idx(2) [OF that] by (simp add: d_def)
    then have "unat (drop_bit PAGE_SHIFT (kr_start mr) + of_nat d) = s div 4096 + d"
      using unat_add_nat [of "drop_bit PAGE_SHIFT (kr_start mr)" d] M by simp
    ultimately have "drop_bit PAGE_SHIFT (buf + of_nat i) = drop_bit PAGE_SHIFT (kr_start mr) + of_nat d"
      by (simp add: word_unat_eq_iff)
    with pt idx(1) [OF that] show ?thesis by (simp add: user_place_def u page_place_def flip: d_def)
  qed
  then have e: "map Some (map (\<lambda>i. page_place pgs (s div 4096) (unat buf + i)) [0..<n]) = map (\<lambda>i. user_place pt (buf + of_nat i)) [0..<n]"
    by simp
  have t: "take (kr_npages mr) (kr_page_list mr) = pgs" by (simp add: np(3)) (simp add: pgs_def)
  show ?thesis
    unfolding t by (intro exI [of _ ret] exI [of _ v]) (use v e in \<open>auto simp: pgs_def\<close>)
qed

end
