(* ===== verification/K_Mem_Inv.thy ===== *)
theory K_Mem_Inv
  imports K_Mem
begin

text \<open>
  What the memory manager of the kernel module keeps: the tags of a region hang off its list head, every live
  tag names a valid region, and the references to pages are those of the valid regions. It holds as long as
  the table of regions is not enlarged, tags are created on valid regions only, and the allocator hands out
  memory that is not in use; the lemmas at the end show what happens otherwise, up to the list operations on
  heads in the freed table, which are undefined.
\<close>

section \<open>The invariant\<close>

definition live_tags :: "(u64 \<Rightarrow> nat \<Rightarrow> nat) \<Rightarrow> k_mem_manager \<Rightarrow> k_stag_desc set" where
  "live_tags hash mm = ran (k_ht_map hash (km_stag_ht mm))"

definition tags_of :: "(u64 \<Rightarrow> nat \<Rightarrow> nat) \<Rightarrow> k_mem_manager \<Rightarrow> nat \<Rightarrow> k_stag_desc set" where
  "tags_of hash mm i = {sd \<in> live_tags hash mm. ks_mr sd = region_addr (km_base mm) i}"

definition k_tags_ok :: "(u64 \<Rightarrow> nat \<Rightarrow> nat) \<Rightarrow> k_mem_manager \<Rightarrow> bool" where
  "k_tags_ok hash mm \<longleftrightarrow> k_ht_inv hash (km_stag_ht mm)
     \<and> (\<forall>k sd. k_ht_map hash (km_stag_ht mm) k = Some sd \<longrightarrow> k = k_stag_key (ks_stag sd))"

definition k_links_ok :: "(u64 \<Rightarrow> nat \<Rightarrow> nat) \<Rightarrow> k_mem_manager \<Rightarrow> bool" where
  "k_links_ok hash mm \<longleftrightarrow> inj_on ks_addr (live_tags hash mm)
     \<and> (\<forall>sd\<in>live_tags hash mm. \<forall>i<length (km_region mm). ks_addr sd \<noteq> region_head (km_base mm) i)
     \<and> (\<forall>i<length (km_region mm). \<exists>xs. ring (km_links mm) (region_head (km_base mm) i) xs \<and> set xs = ks_addr ` tags_of hash mm i)"

definition k_pins_ok :: "k_mem_manager \<Rightarrow> bool" where
  "k_pins_ok mm \<longleftrightarrow> (\<forall>pg. km_pins mm pg = (\<Sum>mr\<leftarrow>km_region mm. if kr_valid mr then int (count_list (take (kr_npages mr) (kr_page_list mr)) pg) else 0))"

definition k_live_ok :: "(u64 \<Rightarrow> nat \<Rightarrow> nat) \<Rightarrow> k_mem_manager \<Rightarrow> bool" where
  "k_live_ok hash mm \<longleftrightarrow> (\<forall>sd\<in>live_tags hash mm. link_live mm (ks_addr sd))
     \<and> (\<forall>i<length (km_region mm). link_live mm (region_head (km_base mm) i))"

definition k_mem_inv :: "(u64 \<Rightarrow> nat \<Rightarrow> nat) \<Rightarrow> k_mem_manager \<Rightarrow> bool" where
  "k_mem_inv hash mm \<longleftrightarrow> k_table_ok mm \<and> k_tags_ok hash mm \<and> k_links_ok hash mm \<and> k_pins_ok mm
     \<and> (\<forall>sd\<in>live_tags hash mm. \<exists>i<length (km_region mm). ks_mr sd = region_addr (km_base mm) i \<and> kr_valid (km_region mm ! i))
     \<and> k_live_ok hash mm"

lemma stag_key_inj: "k_stag_key s = k_stag_key t \<longleftrightarrow> s = t"
proof -
  have "(ucast (k_stag_key x) :: u32) = x" for x
    unfolding k_stag_key_def by (rule bit_word_eqI) (auto simp: bit_simps)
  then show ?thesis by metis
qed

lemma region_addr_eq:
  "k_table_ok mm \<Longrightarrow> i < length (km_region mm) \<Longrightarrow> j < length (km_region mm) \<Longrightarrow>
   region_addr (km_base mm) i = region_addr (km_base mm) j \<longleftrightarrow> i = j"
proof -
  assume t: "k_table_ok mm" and ij: "i < length (km_region mm)" "j < length (km_region mm)"
  from t have "unat (km_base mm) + 64 * length (km_region mm) < 2 ^ 64" by (simp add: k_table_ok_def)
  note u = region_addr_unat [OF this ij(1)] region_addr_unat [OF this ij(2)]
  show ?thesis
  proof
    assume "region_addr (km_base mm) i = region_addr (km_base mm) j"
    then have "unat (region_addr (km_base mm) i) = unat (region_addr (km_base mm) j)" by (rule arg_cong)
    then show "i = j" unfolding u by simp
  qed simp
qed

lemma region_head_eq:
  "k_table_ok mm \<Longrightarrow> i < length (km_region mm) \<Longrightarrow> j < length (km_region mm) \<Longrightarrow>
   region_head (km_base mm) i = region_head (km_base mm) j \<longleftrightarrow> i = j"
  using region_addr_eq [of mm i j] by (simp add: region_head_def)

text \<open>The lists of two regions share no node, and an operation on one leaves the other alone.\<close>

lemma k_links_disjoint:
  assumes "k_table_ok mm" "k_links_ok hash mm" "i < length (km_region mm)" "j < length (km_region mm)" "i \<noteq> j"
    and "set xs = ks_addr ` tags_of hash mm i" "set ys = ks_addr ` tags_of hash mm j"
  shows "set (region_head (km_base mm) j # ys) \<inter> set (region_head (km_base mm) i # xs) = {}"
proof -
  have inj: "inj_on ks_addr (live_tags hash mm)" using assms(2) by (simp add: k_links_ok_def)
  have hd: "\<And>sd k. sd \<in> live_tags hash mm \<Longrightarrow> k < length (km_region mm) \<Longrightarrow> ks_addr sd \<noteq> region_head (km_base mm) k"
    using assms(2) by (simp add: k_links_ok_def)
  have "a \<noteq> b" if "a \<in> tags_of hash mm i" "b \<in> tags_of hash mm j" for a b
    using that region_addr_eq [OF assms(1,3,4)] assms(5) by (auto simp: tags_of_def)
  then have "ks_addr ` tags_of hash mm i \<inter> ks_addr ` tags_of hash mm j = {}"
    using inj by (auto simp: tags_of_def inj_on_eq_iff)
  then show ?thesis
    using hd hd [THEN not_sym] assms(3-7) region_head_eq [OF assms(1,3,4)] by (auto simp: tags_of_def)
qed

lemma k_mem_inv_tags: "k_mem_inv hash mm \<Longrightarrow> k_tags_ok hash mm"
  by (simp add: k_mem_inv_def)

text \<open>So a list operation on a region and its tags writes to memory that is in use.\<close>

lemma k_mem_inv_ring:
  assumes "k_mem_inv hash mm" "i < length (km_region mm)"
  shows "\<exists>xs. ring (km_links mm) (region_head (km_base mm) i) xs \<and> set xs = ks_addr ` tags_of hash mm i
    \<and> (\<forall>p\<in>set (region_head (km_base mm) i # xs). link_live mm p)"
proof -
  obtain xs where "ring (km_links mm) (region_head (km_base mm) i) xs" "set xs = ks_addr ` tags_of hash mm i"
    using assms by (auto simp: k_mem_inv_def k_links_ok_def)
  moreover have "\<forall>p\<in>set (region_head (km_base mm) i # xs). link_live mm p"
    using assms calculation(2) by (auto simp: k_mem_inv_def k_live_ok_def tags_of_def)
  ultimately show ?thesis by blast
qed

lemma k_list_add_done:
  assumes "k_mem_inv hash mm" "i < length (km_region mm)"
  shows "link_live mm (nxt (km_links mm) (region_head (km_base mm) i))"
  using k_mem_inv_ring [OF assms] ring_ends_in by blast

lemma k_list_del_done:
  assumes "k_mem_inv hash mm" "sd \<in> live_tags hash mm"
  shows "k_list_del (ks_addr sd) mm = Done (mm\<lparr>km_links := list_del (ks_addr sd) (km_links mm)\<rparr>)"
proof -
  obtain i where i: "i < length (km_region mm)" "sd \<in> tags_of hash mm i"
    using assms by (auto simp: k_mem_inv_def tags_of_def)
  from k_mem_inv_ring [OF assms(1) i(1)] obtain xs where xs: "ring (km_links mm) (region_head (km_base mm) i) xs"
    "set xs = ks_addr ` tags_of hash mm i" "\<forall>p\<in>set (region_head (km_base mm) i # xs). link_live mm p" by blast
  have "ks_addr sd \<in> set xs" using i(2) xs(2) by simp
  from ring_neighbours [OF xs(1) this] xs(3) have "link_live mm (nxt (km_links mm) (ks_addr sd))"
    "link_live mm (prv (km_links mm) (ks_addr sd))" by blast+
  then show ?thesis by (simp add: k_list_del_def)
qed

lemma k_links_ring:
  "k_links_ok hash mm \<Longrightarrow> i < length (km_region mm) \<Longrightarrow>
   \<exists>xs. ring (km_links mm) (region_head (km_base mm) i) xs \<and> set xs = ks_addr ` tags_of hash mm i"
  unfolding k_links_ok_def by blast

lemma sum_list_update_int:
  "i < length xs \<Longrightarrow> (\<Sum>x\<leftarrow>xs[i := y]. f x) = (\<Sum>x\<leftarrow>xs. f x) + f y - (f (xs ! i) :: int)"
proof (induction xs arbitrary: i)
  case (Cons x xs)
  then show ?case by (cases i) auto
qed simp

section \<open>Every operation keeps it\<close>

lemma fold_init:
  assumes "i \<in> set is"
  shows "nxt (fold (\<lambda>i. INIT_LIST_HEAD (f i)) is h) (f i) = f i"
    "prv (fold (\<lambda>i. INIT_LIST_HEAD (f i)) is h) (f i) = f i"
proof -
  have self: "nxt (INIT_LIST_HEAD p h) p = p \<and> prv (INIT_LIST_HEAD p h) p = p" for p h
    by (simp add: INIT_LIST_HEAD_def Let_def)
  have keep: "nxt h p = p \<and> prv h p = p \<Longrightarrow> nxt (fold (\<lambda>i. INIT_LIST_HEAD (f i)) js h) p = p
      \<and> prv (fold (\<lambda>i. INIT_LIST_HEAD (f i)) js h) p = p" for js h p
    by (induction js arbitrary: h) (auto simp: INIT_LIST_HEAD_def Let_def)
  have "nxt (fold (\<lambda>i. INIT_LIST_HEAD (f i)) is h) (f i) = f i \<and> prv (fold (\<lambda>i. INIT_LIST_HEAD (f i)) is h) (f i) = f i"
    using assms
  proof (induction "is" arbitrary: h)
    case (Cons j js)
    then show ?case using keep [of "INIT_LIST_HEAD (f j) h" "f j" js, OF self] by (cases "i = j") auto
  qed simp
  then show "nxt (fold (\<lambda>i. INIT_LIST_HEAD (f i)) is h) (f i) = f i"
    "prv (fold (\<lambda>i. INIT_LIST_HEAD (f i)) is h) (f i) = f i" by simp_all
qed

lemma ring_self: "nxt h q = q \<Longrightarrow> prv h q = q \<Longrightarrow> ring h q []"
  by (simp add: ring_def)

lemma k_mem_initialize_inv:
  assumes "k_mem_initialize (Some base) True True mm = (ret, mm')" "\<forall>k. hash k 5 < 2 ^ 5"
    and "base \<noteq> 0" "unat base + 640 < 2 ^ 64" "km_pins mm = (\<lambda>_. 0)"
  shows "ret = 0 \<and> k_mem_inv hash mm' \<and> live_tags hash mm' = {}"
proof -
  obtain r t where t: "k_ht_create True 5 = (r, t :: k_stag_desc k_ht)" by fastforce
  from k_ht_create_inv [where hash = hash, OF t _ assms(2)] have ht: "r = 0" "k_ht_inv hash t" "k_ht_map hash t = Map.empty" by simp_all
  let ?l = "fold (\<lambda>i. INIT_LIST_HEAD (region_head base i)) [0..<unat DELTA] (km_links mm)"
  have d: "unat DELTA = 10" by (simp add: DELTA_def)
  have m: "ret = 0" "mm' = mm\<lparr>km_num := DELTA, km_base := base, km_region := replicate (unat DELTA) zero_region, km_links := ?l,
      km_dead := (\<lambda>_. False), km_stag_ht := t, km_next_cntr := 1\<rparr>"
    using assms(1) t ht(1) by (auto simp: k_mem_initialize_def Let_def)
  have live: "live_tags hash mm' = {}" by (simp add: m live_tags_def ht)
  have "ring ?l (region_head base i) []" if "i < 10" for i
    using that fold_init [of i "[0..<unat DELTA]" "region_head base" "km_links mm"] by (intro ring_self) (simp_all add: d)
  moreover have "tags_of hash mm' i = {}" for i by (simp add: tags_of_def live)
  ultimately have "k_links_ok hash mm'"
    unfolding k_links_ok_def live by (auto simp: m(2) d intro!: exI [of _ "[]"])
  moreover have "k_table_ok mm'" using assms(3,4) by (simp add: k_table_ok_def m d)
  moreover have "k_tags_ok hash mm'" by (simp add: k_tags_ok_def m ht)
  moreover have "k_pins_ok mm'" using assms(5) by (simp add: k_pins_ok_def m d numeral_eq_Suc zero_region_def)
  moreover have "region_head base i \<noteq> 0" if "i < 10" for i
    using region_head_unat [of base 10 i] assms(4) that by auto
  then have "k_live_ok hash mm'" unfolding k_live_ok_def live by (simp add: link_live_def m(2) d)
  ultimately show ?thesis using m(1) live by (simp add: k_mem_inv_def)
qed

text \<open>What the invariant says of the table and the tags only.\<close>

lemma k_mem_inv_region_update:
  assumes "k_mem_inv hash mm" "i < length (km_region mm)" "\<not> kr_valid (km_region mm ! i)"
  shows "tags_of hash mm i = {}"
proof -
  have "k_table_ok mm" using assms(1) by (simp add: k_mem_inv_def)
  from region_addr_eq [OF this assms(2)] show ?thesis
    using assms by (fastforce simp: k_mem_inv_def tags_of_def)
qed

lemma k_mem_register_inv:
  assumes i: "k_mem_inv hash mm" and r: "k_mem_register pt ans table page_list caddr addr len mm = Done (md, mm')"
    and f: "k_first_free 0 (km_region mm) < length (km_region mm)"
  shows "k_mem_inv hash mm'"
proof -
  have t: "k_table_ok mm" using i by (simp add: k_mem_inv_def)
  have live: "live_tags hash (mm\<lparr>km_region := rs\<rparr>) = live_tags hash mm" for rs by (simp add: live_tags_def)
  from r t f show ?thesis
  proof (cases rule: mem_register_cases)
    case (1 j)
    show ?thesis
    proof (cases "mm' = mm")
      case False
      with 1 obtain mr where mr: "\<not> kr_valid mr" "mm' = mm\<lparr>km_region := (km_region mm)[j := mr]\<rparr>" by blast
      have none: "tags_of hash mm j = {}" by (rule k_mem_inv_region_update [OF i 1(2,3)])
      have "k_table_ok mm'" "k_tags_ok hash mm'" "k_links_ok hash mm'" "live_tags hash mm' = live_tags hash mm"
        using i by (simp_all add: k_mem_inv_def k_table_ok_def k_tags_ok_def k_links_ok_def tags_of_def live mr(2))
      moreover have "k_pins_ok mm'"
        using i 1(2,3) mr(1) by (simp add: k_mem_inv_def k_pins_ok_def mr(2) sum_list_update_int)
      moreover have "\<forall>sd\<in>live_tags hash mm. \<exists>i<length (km_region mm). ks_mr sd = region_addr (km_base mm) i \<and> i \<noteq> j \<and> kr_valid (km_region mm ! i)"
        using i 1(3) by (fastforce simp: k_mem_inv_def)
      moreover have "k_live_ok hash mm'" using i by (simp add: k_mem_inv_def k_live_ok_def live link_live_def mr(2))
      ultimately show ?thesis by (fastforce simp: k_mem_inv_def mr(2) live)
    qed (use i in simp)
  next
    case (2 j mr)
    have none: "tags_of hash mm j = {}" by (rule k_mem_inv_region_update [OF i 2(2,3)])
    have lv: "live_tags hash mm' = live_tags hash mm" "\<And>k. tags_of hash mm' k = tags_of hash mm k"
      by (simp_all add: live_tags_def tags_of_def 2(9))
    have "\<exists>xs. ring (km_links mm') (region_head (km_base mm) k) xs \<and> set xs = ks_addr ` tags_of hash mm k"
      if k: "k < length (km_region mm)" for k
    proof (cases "k = j")
      case True
      then show ?thesis using none
        by (intro exI [of _ "[]"]) (simp add: 2(9) ring_self INIT_LIST_HEAD_def Let_def)
    next
      case False
      obtain xs where xs: "ring (km_links mm) (region_head (km_base mm) k) xs" "set xs = ks_addr ` tags_of hash mm k"
        using i k by (auto simp: k_mem_inv_def k_links_ok_def)
      have "region_head (km_base mm) j \<notin> set (region_head (km_base mm) k # xs)"
        using i 2(2) xs(2) region_head_eq [OF t k 2(2)] False by (force simp: k_mem_inv_def k_links_ok_def tags_of_def)
      then have "ring (km_links mm') (region_head (km_base mm) k) xs"
        by (intro ring_frame [OF xs(1)]) (auto simp: 2(9) INIT_LIST_HEAD_def Let_def)
      with xs(2) show ?thesis by blast
    qed
    then have "k_links_ok hash mm'" using i by (simp add: k_mem_inv_def k_links_ok_def lv) (simp add: 2(9))
    moreover have "k_table_ok mm'" "k_tags_ok hash mm'"
      using i by (simp_all add: k_mem_inv_def k_table_ok_def k_tags_ok_def 2(9))
    moreover have "k_pins_ok mm'"
      using i 2(2,3,5) 2(8) by (simp add: k_mem_inv_def k_pins_ok_def 2(9) sum_list_update_int add_pins_count k_region_ok_def)
    moreover have "\<forall>sd\<in>live_tags hash mm. \<exists>i<length (km_region mm). ks_mr sd = region_addr (km_base mm) i \<and> i \<noteq> j \<and> kr_valid (km_region mm ! i)"
      using i 2(3) by (fastforce simp: k_mem_inv_def)
    then have "\<forall>sd\<in>live_tags hash mm'. \<exists>i<length (km_region mm'). ks_mr sd = region_addr (km_base mm') i \<and> kr_valid (km_region mm' ! i)"
      unfolding lv(1) by (fastforce simp: 2(9))
    moreover have "k_live_ok hash mm'"
      using i unfolding k_live_ok_def lv(1) by (simp add: k_mem_inv_def k_live_ok_def link_live_def 2(9))
    ultimately show ?thesis by (simp add: k_mem_inv_def)
  qed
qed

text \<open>A region is busy exactly when a tag names it.\<close>

lemma k_list_empty:
  assumes "k_mem_inv hash mm" "i < length (km_region mm)"
  shows "list_empty (region_head (km_base mm) i) (km_links mm) \<longleftrightarrow> tags_of hash mm i = {}"
proof -
  obtain xs where xs: "ring (km_links mm) (region_head (km_base mm) i) xs" "set xs = ks_addr ` tags_of hash mm i"
    using assms by (auto simp: k_mem_inv_def k_links_ok_def)
  from ring_ends [OF xs(1)] ring_distinct [OF xs(1)]
  have "list_empty (region_head (km_base mm) i) (km_links mm) \<longleftrightarrow> xs = []"
    by (cases xs) (auto simp: list_empty_def)
  then show ?thesis using xs(2) by auto
qed

lemma k_mem_deregister_inv:
  assumes i: "k_mem_inv hash mm" and r: "k_mem_deregister md mm = Done (ret, mm')"
  shows "k_mem_inv hash mm'"
proof (cases "mm' = mm")
  case False
  then obtain j where j: "k_mr_from_md md mm = Done (Some j)" "kr_valid (km_region mm ! j)"
    "list_empty (region_head (km_base mm) j) (km_links mm)"
    "mm' = mm\<lparr>km_pins := add_pins (- 1) (take (kr_npages (km_region mm ! j)) (kr_page_list (km_region mm ! j))) (km_pins mm),
       km_region := (km_region mm)[j := (km_region mm ! j)\<lparr>kr_page_list := [], kr_valid := False\<rparr>]\<rparr>"
    using r by (auto simp: k_mem_deregister_def Let_def outcome_simps split: option.splits if_splits)
  from k_mr_from_md_some [OF j(1)] have jl: "j < length (km_region mm)" by simp
  have none: "tags_of hash mm j = {}" using k_list_empty [OF i jl] j(3) by simp
  have lv: "live_tags hash mm' = live_tags hash mm" "\<And>k. tags_of hash mm' k = tags_of hash mm k"
    by (simp_all add: live_tags_def tags_of_def j(4))
  have "k_table_ok mm'" "k_tags_ok hash mm'" "k_links_ok hash mm'"
    using i by (simp_all add: k_mem_inv_def k_table_ok_def k_tags_ok_def k_links_ok_def lv, simp_all add: j(4))
  moreover have "k_pins_ok mm'"
    using i j(2) jl by (simp add: k_mem_inv_def k_pins_ok_def j(4) sum_list_update_int add_pins_count)
  moreover have "\<forall>sd\<in>live_tags hash mm. \<exists>i<length (km_region mm). ks_mr sd = region_addr (km_base mm) i \<and> i \<noteq> j \<and> kr_valid (km_region mm ! i)"
    using i none by (fastforce simp: k_mem_inv_def tags_of_def)
  then have "\<forall>sd\<in>live_tags hash mm'. \<exists>i<length (km_region mm'). ks_mr sd = region_addr (km_base mm') i \<and> kr_valid (km_region mm' ! i)"
    unfolding lv(1) by (fastforce simp: j(4))
  moreover have "k_live_ok hash mm'"
    using i unfolding k_live_ok_def lv(1) by (simp add: k_mem_inv_def k_live_ok_def link_live_def j(4))
  ultimately show ?thesis by (simp add: k_mem_inv_def)
qed (use i in simp)

text \<open>The loop ends with the tag inserted, or never.\<close>

lemma k_ht_insert_cases:
  assumes "k_ht_insert hash node t k v = (ret, t')"
  shows "ret \<noteq> 0 \<Longrightarrow> t' = t" "ret = 0 \<Longrightarrow> k_ht_insert hash True t k v = (0, t')"
  using assms by (auto simp: k_ht_insert_def Let_def split: if_splits)

lemma k_stag_loop_spec:
  assumes "k_stag_loop hash nodes sd c t = Some r"
  shows "\<exists>s. fst r = sd\<lparr>ks_stag := s\<rparr> \<and> k_ht_insert hash True t (k_stag_key s) (fst r) = (0, snd (snd r))"
proof (rule k_stag_loop.raw_induct [where P = "\<lambda>hash nodes sd c t r. \<exists>s. fst r = sd\<lparr>ks_stag := s\<rparr>
    \<and> k_ht_insert hash True t (k_stag_key s) (fst r) = (0, snd (snd r))", OF _ assms], goal_cases)
  case (1 loop hash nodes sd c t r)
  obtain ret t1 where ins: "k_ht_insert hash (nodes 0) t (k_stag_key c) (sd\<lparr>ks_stag := c\<rparr>) = (ret, t1)" by fastforce
  show ?case
  proof (cases "ret = 0")
    case True
    with 1(2) ins k_ht_insert_cases(2) [OF ins] show ?thesis by (intro exI [of _ c]) (auto simp: Let_def)
  next
    case False
    with 1(2) ins have "loop hash (\<lambda>i. nodes (Suc i)) (sd\<lparr>ks_stag := c\<rparr>) (c + 1) t = Some r"
      using k_ht_insert_cases(1) [OF ins] by (simp add: Let_def)
    from 1(1) [OF this] show ?thesis by simp
  qed
qed

text \<open>
  A successful creation: the region the descriptor names, the tag that was free, and the new state. The
  address of the new structure is not in use.
\<close>

definition fresh_addr :: "(u64 \<Rightarrow> nat \<Rightarrow> nat) \<Rightarrow> u64 \<Rightarrow> k_mem_manager \<Rightarrow> bool" where
  "fresh_addr hash a mm \<longleftrightarrow> a \<noteq> 0 \<and> a \<notin> ks_addr ` live_tags hash mm \<and> (\<forall>i<length (km_region mm). a \<noteq> region_head (km_base mm) i)"

lemma k_mem_stag_create_cases:
  assumes i: "k_tags_ok hash mm"
    and c: "k_mem_stag_create hash kmalloc nodes md start len rw pd mm = Done (stag, mm')"
  obtains "mm' = mm" "k_mr_from_md md mm = Done None \<or> kmalloc = None
      \<or> (\<exists>j. k_mr_from_md md mm = Done (Some j) \<and> (start < kr_start (km_region mm ! j) \<or> len > kr_len (km_region mm ! j)))"
  | j a t cntr where "k_mr_from_md md mm = Done (Some j)" "kmalloc = Some a" "kr_start (km_region mm ! j) \<le> start"
    "len \<le> kr_len (km_region mm ! j)" "k_ht_map hash (km_stag_ht mm) (k_stag_key stag) = None"
    "k_ht_inv hash t"
    "k_ht_map hash t = (k_ht_map hash (km_stag_ht mm))(k_stag_key stag \<mapsto>
       \<lparr>ks_addr = a, ks_mr = md, ks_start = start, ks_len = len, ks_stag = stag, ks_rw = rw, ks_prot = pd\<rparr>)"
    "mm' = mm\<lparr>km_next_cntr := cntr, km_stag_ht := t, km_dead := (km_dead mm)(a := False),
       km_links := list_add a (region_head (km_base mm) j) (km_links mm)\<rparr>"
proof (cases "mm' = mm \<and> (k_mr_from_md md mm = Done None \<or> kmalloc = None
      \<or> (\<exists>j. k_mr_from_md md mm = Done (Some j) \<and> (start < kr_start (km_region mm ! j) \<or> len > kr_len (km_region mm ! j))))")
  case False
  let ?sd = "\<lambda>a s. \<lparr>ks_addr = a, ks_mr = md, ks_start = start, ks_len = len, ks_stag = s, ks_rw = rw, ks_prot = pd\<rparr>"
  from False c obtain j a sd cntr t where j: "k_mr_from_md md mm = Done (Some j)" "kmalloc = Some a"
    "kr_start (km_region mm ! j) \<le> start" "len \<le> kr_len (km_region mm ! j)"
    and l: "k_stag_loop hash nodes (?sd a 0) (km_next_cntr mm) (km_stag_ht mm) = Some (sd, cntr, t)"
    and m: "stag = ks_stag sd"
      "mm' = mm\<lparr>km_next_cntr := cntr, km_stag_ht := t, km_dead := (km_dead mm)(a := False),
         km_links := list_add (ks_addr sd) (region_head (km_base mm) j) (km_links mm)\<rparr>"
  proof -
    assume r: "\<And>j a sd cntr t. k_mr_from_md md mm = Done (Some j) \<Longrightarrow> kmalloc = Some a \<Longrightarrow> kr_start (km_region mm ! j) \<le> start \<Longrightarrow>
       len \<le> kr_len (km_region mm ! j) \<Longrightarrow> k_stag_loop hash nodes (?sd a 0) (km_next_cntr mm) (km_stag_ht mm) = Some (sd, cntr, t) \<Longrightarrow>
       stag = ks_stag sd \<Longrightarrow> mm' = mm\<lparr>km_next_cntr := cntr, km_stag_ht := t, km_dead := (km_dead mm)(a := False),
         km_links := list_add (ks_addr sd) (region_head (km_base mm) j) (km_links mm)\<rparr> \<Longrightarrow> thesis"
    from c False obtain j where md: "k_mr_from_md md mm = Done (Some j)"
      by (cases "k_mr_from_md md mm") (auto simp: k_mem_stag_create_def split: option.splits)
    from c False md have rng: "kr_start (km_region mm ! j) \<le> start" "len \<le> kr_len (km_region mm ! j)"
      by (auto simp: k_mem_stag_create_def Let_def not_less split: if_splits)
    have rf: "(start < kr_start (km_region mm ! j)) = False" "(kr_len (km_region mm ! j) < len) = False" using rng by auto
    from c False md obtain a where a: "kmalloc = Some a"
      by (cases kmalloc) (auto simp: k_mem_stag_create_def Let_def split: if_splits)
    obtain sd cntr t where l: "k_stag_loop hash nodes (?sd a 0) (km_next_cntr mm) (km_stag_ht mm) = Some (sd, cntr, t)"
      using c md a by (cases "k_stag_loop hash nodes (?sd a 0) (km_next_cntr mm) (km_stag_ht mm)")
        (auto simp: k_mem_stag_create_def Let_def rf)
    show thesis
      by (rule r [OF md a rng l]) (use c md a l in \<open>auto simp: k_mem_stag_create_def Let_def rf k_list_add_def split: if_splits\<close>)
  qed
  from k_stag_loop_spec [OF l] m(1) have sd: "sd = ?sd a stag"
    and ins: "k_ht_insert hash True (km_stag_ht mm) (k_stag_key stag) sd = (0, t)" by auto
  have ht: "k_ht_inv hash (km_stag_ht mm)" using i by (simp add: k_tags_ok_def)
  have none: "k_ht_map hash (km_stag_ht mm) (k_stag_key stag) = None"
  proof (rule ccontr)
    assume "k_ht_map hash (km_stag_ht mm) (k_stag_key stag) \<noteq> None"
    from kht.ins_dup [OF ht this, of sd] ins show False by simp
  qed
  from kht.ins_new [OF ht none, of sd] ins
  have "k_ht_inv hash t" "k_ht_map hash t = (k_ht_map hash (km_stag_ht mm))(k_stag_key stag \<mapsto> sd)" by auto
  with that(2) [OF j none] m(2) show ?thesis unfolding sd by simp
qed (use that(1) in blast)

lemma k_mem_stag_create_inv:
  assumes i: "k_mem_inv hash mm"
    and c: "k_mem_stag_create hash kmalloc nodes md start len rw pd mm = Done (stag, mm')"
    and valid: "\<And>j. k_mr_from_md md mm = Done (Some j) \<Longrightarrow> kr_valid (km_region mm ! j)"
    and fresh: "\<And>a. kmalloc = Some a \<Longrightarrow> fresh_addr hash a mm"
  shows "k_mem_inv hash mm'"
  using k_mem_inv_tags [OF i] c
proof (cases rule: k_mem_stag_create_cases)
  case (2 j a t cntr)
  let ?sd = "\<lparr>ks_addr = a, ks_mr = md, ks_start = start, ks_len = len, ks_stag = stag, ks_rw = rw, ks_prot = pd\<rparr>"
  let ?q = "region_head (km_base mm)"
  note md = k_mr_from_md_some [OF 2(1)]
  have tb: "k_table_ok mm" "k_links_ok hash mm" using i by (simp_all add: k_mem_inv_def)
  have live: "live_tags hash mm' = insert ?sd (live_tags hash mm)"
    by (simp add: live_tags_def 2(7,8) ran_map_upd [of "k_ht_map hash (km_stag_ht mm)" "k_stag_key stag", OF 2(5)])
  have new: "a \<notin> ks_addr ` live_tags hash mm" "\<And>i. i < length (km_region mm) \<Longrightarrow> a \<noteq> ?q i"
    using fresh [OF 2(2)] by (auto simp: fresh_addr_def)
  have tags: "tags_of hash mm' k = (if k = j then insert ?sd (tags_of hash mm k) else tags_of hash mm k)"
    if "k < length (km_region mm)" for k
  proof -
    have "md = region_addr (km_base mm) k \<longleftrightarrow> k = j" using region_addr_eq [OF tb(1) _ that, of j] md by auto
    moreover have "km_base mm' = km_base mm" by (simp add: 2(8))
    ultimately show ?thesis by (auto simp: tags_of_def live)
  qed
  have "\<exists>ys. ring (km_links mm') (?q k) ys \<and> set ys = ks_addr ` tags_of hash mm' k"
    if k: "k < length (km_region mm)" for k
  proof -
    obtain xs ys where xs: "ring (km_links mm) (?q j) xs" "set xs = ks_addr ` tags_of hash mm j"
      and ys: "ring (km_links mm) (?q k) ys" "set ys = ks_addr ` tags_of hash mm k"
      using k_links_ring [OF tb(2), of j] k_links_ring [OF tb(2) k] md by blast
    have "a \<notin> set (?q j # xs)" "a \<notin> set (?q k # ys)"
      using new md k xs(2) ys(2) by (auto simp: tags_of_def)
    show ?thesis
    proof (cases "k = j")
      case True
      have "ring (km_links mm') (?q j) (a # xs)" unfolding 2(8) using lh.add [OF xs(1), of a] \<open>a \<notin> set (?q j # xs)\<close> by simp
      with True xs(2) tags [OF k] show ?thesis by (intro exI [of _ "a # xs"]) simp
    next
      case False
      have "set (?q k # ys) \<inter> set (?q j # xs) = {}"
        by (rule k_links_disjoint [OF tb]) (use md k False xs(2) ys(2) in auto)
      then have "ring (km_links mm') (?q k) ys"
        using lh.add_frame [OF xs(1) ys(1), of a] \<open>a \<notin> set (?q k # ys)\<close> by (auto simp: 2(8))
      with False ys(2) tags [OF k] show ?thesis by auto
    qed
  qed
  moreover have "inj_on ks_addr (live_tags hash mm')" "\<forall>sd\<in>live_tags hash mm'. \<forall>i<length (km_region mm). ks_addr sd \<noteq> ?q i"
    using tb(2) new by (auto simp: k_links_ok_def live)
  ultimately have "k_links_ok hash mm'" by (simp add: k_links_ok_def) (simp add: 2(8))
  moreover have "k_table_ok mm'" "k_pins_ok mm'" using i by (simp_all add: k_mem_inv_def k_table_ok_def k_pins_ok_def 2(8))
  moreover have "k_tags_ok hash mm'"
    using i 2(6) by (auto simp: k_mem_inv_def k_tags_ok_def 2(7,8))
  moreover have "k_live_ok hash mm'"
    using i fresh [OF 2(2)] unfolding k_live_ok_def live by (auto simp: k_mem_inv_def k_live_ok_def fresh_addr_def link_live_def 2(8))
  moreover have "\<forall>sd\<in>live_tags hash mm'. \<exists>i<length (km_region mm). ks_mr sd = region_addr (km_base mm) i \<and> kr_valid (km_region mm ! i)"
    using i md valid [OF 2(1)] by (auto simp: live k_mem_inv_def)
  then have "\<forall>sd\<in>live_tags hash mm'. \<exists>i<length (km_region mm'). ks_mr sd = region_addr (km_base mm') i \<and> kr_valid (km_region mm' ! i)"
    by (simp add: 2(8))
  ultimately show ?thesis by (simp add: k_mem_inv_def)
qed (use i in simp)

lemma k_mem_stag_destroy_cases:
  assumes i: "k_tags_ok hash mm" and d: "k_mem_stag_destroy hash stag mm = Done (ret, mm')"
  obtains "k_ht_map hash (km_stag_ht mm) (k_stag_key stag) = None" "ret = - ENOENT" "mm' = mm"
  | sd t where "k_ht_map hash (km_stag_ht mm) (k_stag_key stag) = Some sd" "ret = 0" "k_ht_inv hash t" "ks_stag sd = stag"
    "k_ht_map hash t = (k_ht_map hash (km_stag_ht mm))(k_stag_key stag := None)"
    "mm' = mm\<lparr>km_links := list_del (ks_addr sd) (km_links mm), km_stag_ht := t, km_dead := (km_dead mm)(ks_addr sd := True)\<rparr>"
proof (cases "k_ht_map hash (km_stag_ht mm) (k_stag_key stag)")
  case None
  have ht: "k_ht_inv hash (km_stag_ht mm)" using i by (simp add: k_tags_ok_def)
  show ?thesis using that(1) None d kht.look_abs [OF ht, of "k_stag_key stag"] by (simp add: k_mem_stag_destroy_def)
next
  case (Some sd)
  have ht: "k_ht_inv hash (km_stag_ht mm)" using i by (simp add: k_tags_ok_def)
  have "k_stag_key stag = k_stag_key (ks_stag sd)" using i Some by (simp add: k_tags_ok_def)
  then have key: "ks_stag sd = stag" by (simp add: stag_key_inj)
  obtain t where "k_ht_delete hash (km_stag_ht mm) (k_stag_key stag) = (0, t)" "k_ht_inv hash t"
    "k_ht_map hash t = (k_ht_map hash (km_stag_ht mm))(k_stag_key stag := None)"
    using kht.del_old [OF ht, of "k_stag_key stag"] Some by auto
  then show ?thesis
    using that(2) [OF Some _ _ key] d kht.look_abs [OF ht, of "k_stag_key stag"] Some key
    by (auto simp: k_mem_stag_destroy_def Let_def k_list_del_def split: if_splits)
qed

lemma ran_del:
  assumes "m k = Some v" "\<And>j. m j = Some v \<Longrightarrow> j = k"
  shows "ran (m(k := None)) = ran m - {v}"
proof -
  have "(\<exists>j. j \<noteq> k \<and> m j = Some x) \<longleftrightarrow> (\<exists>j. m j = Some x) \<and> x \<noteq> v" for x
    using assms by (metis option.inject)
  moreover have "x \<in> ran (m(k := None)) \<longleftrightarrow> (\<exists>j. j \<noteq> k \<and> m j = Some x)" for x by (auto simp: ran_def)
  ultimately show ?thesis by (auto simp: ran_def)
qed

lemma k_mem_stag_destroy_inv:
  assumes i: "k_mem_inv hash mm" and d: "k_mem_stag_destroy hash stag mm = Done (ret, mm')"
  shows "k_mem_inv hash mm'"
  using k_mem_inv_tags [OF i] d
proof (cases rule: k_mem_stag_destroy_cases)
  case (2 sd t)
  let ?q = "region_head (km_base mm)"
  let ?m = "k_ht_map hash (km_stag_ht mm)"
  have tb: "k_table_ok mm" "k_links_ok hash mm" using i by (simp_all add: k_mem_inv_def)
  have keys: "\<And>k sd. ?m k = Some sd \<Longrightarrow> k = k_stag_key (ks_stag sd)"
    using i unfolding k_mem_inv_def k_tags_ok_def by blast
  have live: "live_tags hash mm' = live_tags hash mm - {sd}"
  proof -
    have "j = k_stag_key stag" if "?m j = Some sd" for j using keys [OF that] 2(4) by simp
    from ran_del [where m = ?m, OF 2(1) this] show ?thesis by (simp add: live_tags_def 2(5,6))
  qed
  have sd: "sd \<in> live_tags hash mm" using 2(1) unfolding live_tags_def by (rule ranI)
  then obtain j where j: "j < length (km_region mm)" "ks_mr sd = region_addr (km_base mm) j"
    using i unfolding k_mem_inv_def by blast
  have inj: "inj_on ks_addr (live_tags hash mm)" using tb(2) by (simp add: k_links_ok_def)
  have "km_base mm' = km_base mm" by (simp add: 2(6))
  then have tags: "tags_of hash mm' k = tags_of hash mm k - {sd}" for k by (auto simp: tags_of_def live)
  have "\<exists>ys. ring (km_links mm') (?q k) ys \<and> set ys = ks_addr ` tags_of hash mm' k"
    if k: "k < length (km_region mm)" for k
  proof -
    obtain xs ys where xs: "ring (km_links mm) (?q j) xs" "set xs = ks_addr ` tags_of hash mm j"
      and ys: "ring (km_links mm) (?q k) ys" "set ys = ks_addr ` tags_of hash mm k"
      using k_links_ring [OF tb(2) j(1)] k_links_ring [OF tb(2) k] by blast
    have mem: "ks_addr sd \<in> set xs" using xs(2) sd j(2) by (auto simp: tags_of_def)
    have img: "ks_addr ` (tags_of hash mm k - {sd}) = ks_addr ` tags_of hash mm k - {ks_addr sd}" for k
      using inj sd by (auto simp: tags_of_def inj_on_eq_iff)
    show ?thesis
    proof (cases "k = j")
      case True
      have "distinct xs" using lh.rep_distinct [OF xs(1)] by simp
      moreover have "ring (km_links mm') (?q j) (remove1 (ks_addr sd) xs)" using lh.del [OF xs(1) mem] by (simp add: 2(6))
      ultimately show ?thesis using True xs(2)
        by (intro exI [of _ "remove1 (ks_addr sd) xs"]) (simp add: tags img)
    next
      case False
      have dis: "set (?q k # ys) \<inter> set (?q j # xs) = {}"
        by (rule k_links_disjoint [OF tb]) (use j k False xs(2) ys(2) in auto)
      then have "ring (km_links mm') (?q k) ys" using lh.del_frame [OF xs(1) mem ys(1)] by (simp add: 2(6))
      moreover have "ks_addr sd \<notin> set ys" using dis mem by auto
      ultimately show ?thesis using ys(2) by (intro exI [of _ ys]) (simp add: tags img)
    qed
  qed
  moreover have "inj_on ks_addr (live_tags hash mm')" "\<forall>sd\<in>live_tags hash mm'. \<forall>i<length (km_region mm). ks_addr sd \<noteq> ?q i"
    using tb(2) by (auto simp: k_links_ok_def live inj_on_diff)
  ultimately have "k_links_ok hash mm'" by (simp add: k_links_ok_def) (simp add: 2(6))
  moreover have "k_table_ok mm'" "k_pins_ok mm'" using i by (simp_all add: k_mem_inv_def k_table_ok_def k_pins_ok_def 2(6))
  moreover have "k_tags_ok hash mm'"
    using i 2(3) by (auto simp: k_mem_inv_def k_tags_ok_def 2(5,6))
  moreover have "k_live_ok hash mm'"
  proof -
    have "link_live mm p \<Longrightarrow> p \<noteq> ks_addr sd \<Longrightarrow> link_live mm' p" for p by (simp add: link_live_def 2(6))
    moreover have "ks_addr s \<noteq> ks_addr sd" if "s \<in> live_tags hash mm - {sd}" for s
      using that inj sd by (auto simp: inj_on_eq_iff)
    moreover have "?q k \<noteq> ks_addr sd" if "k < length (km_region mm)" for k
      using that tb(2) sd unfolding k_links_ok_def by metis
    moreover have "km_base mm' = km_base mm" "km_region mm' = km_region mm" by (simp_all add: 2(6))
    ultimately show ?thesis using i unfolding k_mem_inv_def k_live_ok_def live by auto
  qed
  moreover have "\<forall>sd\<in>live_tags hash mm'. \<exists>i<length (km_region mm'). ks_mr sd = region_addr (km_base mm') i \<and> kr_valid (km_region mm' ! i)"
    unfolding live using i by (auto simp: k_mem_inv_def 2(6))
  ultimately show ?thesis by (simp add: k_mem_inv_def)
qed (use i in simp)

lemma live_tag_map:
  "k_tags_ok hash mm \<Longrightarrow> sd \<in> live_tags hash mm \<Longrightarrow> k_ht_map hash (km_stag_ht mm) (k_stag_key (ks_stag sd)) = Some sd"
  by (auto simp: live_tags_def ran_def k_tags_ok_def)

lemma k_mem_stag_destroy_done:
  assumes i: "k_mem_inv hash mm"
  shows "\<exists>ret mm'. k_mem_stag_destroy hash stag mm = Done (ret, mm')"
proof (cases "k_ht_map hash (km_stag_ht mm) (k_stag_key stag)")
  case None
  have ht: "k_ht_inv hash (km_stag_ht mm)" using i by (simp add: k_mem_inv_def k_tags_ok_def)
  from None kht.look_abs [OF ht, of "k_stag_key stag"] show ?thesis by (simp add: k_mem_stag_destroy_def)
next
  case (Some sd)
  have ht: "k_ht_inv hash (km_stag_ht mm)" using i by (simp add: k_mem_inv_def k_tags_ok_def)
  have "sd \<in> live_tags hash mm" using Some unfolding live_tags_def by (rule ranI)
  from k_list_del_done [OF i this] Some kht.look_abs [OF ht, of "k_stag_key stag"] show ?thesis
    by (simp add: k_mem_stag_destroy_def split: prod.split)
qed

text \<open>Taking a tag away leaves the others.\<close>

lemma k_mem_stag_destroy_live:
  assumes i: "k_tags_ok hash mm" and sd: "sd \<in> live_tags hash mm"
    and d: "k_mem_stag_destroy hash (ks_stag sd) mm = Done (ret, mm')"
  shows "ret = 0 \<and> live_tags hash mm' = live_tags hash mm - {sd} \<and> km_pins mm' = km_pins mm"
  using i d
proof (cases rule: k_mem_stag_destroy_cases)
  case 1
  with live_tag_map [OF i sd] show ?thesis by simp
next
  case (2 sd' t)
  have "sd' = sd" using 2(1) live_tag_map [OF i sd] by simp
  moreover have "j = k_stag_key (ks_stag sd)" if "k_ht_map hash (km_stag_ht mm) j = Some sd" for j
    using that i by (simp add: k_tags_ok_def)
  ultimately show ?thesis
    using ran_del [where m = "k_ht_map hash (km_stag_ht mm)", OF 2(1)] by (simp add: live_tags_def 2(2,5,6))
qed

lemma k_tags_distinct:
  assumes "k_tags_ok hash mm"
  shows "distinct (concat (map (map snd) (kh_htab (km_stag_ht mm))))"
proof -
  let ?h = "kh_htab (km_stag_ht mm)" and ?l = "kh_lg_sz (km_stag_ht mm)"
  have inv: "k_ht_inv hash (km_stag_ht mm)" using assms by (simp add: k_tags_ok_def)
  have b: "distinct (map fst (?h ! b))" "\<And>c. c \<in> set (?h ! b) \<Longrightarrow> hash (fst c) ?l = b" if "b < length ?h" for b
    using inv that by (auto simp: k_ht_inv_def)
  have "distinct (concat (map (map fst) ?h))"
  proof -
    have *: "distinct (concat (map (map fst) cs))" if "\<And>b. b < length cs \<Longrightarrow> distinct (map fst (cs ! b))"
      "\<And>b c. b < length cs \<Longrightarrow> c \<in> set (cs ! b) \<Longrightarrow> g (fst c) = m + b" for g :: "u64 \<Rightarrow> nat" and m and cs :: "(u64 \<times> 'v) list list"
      using that
    proof (induction cs arbitrary: m)
      case (Cons c cs)
      have "distinct (concat (map (map fst) cs))"
        by (rule Cons.IH [of "Suc m"]) (use Cons.prems(1,2) [of "Suc _"] in auto)
      moreover have "g k = m" if "k \<in> fst ` set c" for k using that Cons.prems(2) [of 0] by auto
      moreover have "g k > m" if "d \<in> set cs" "k \<in> fst ` set d" for k d
        using that Cons.prems(2) [of "Suc _"] by (fastforce simp: in_set_conv_nth)
      ultimately show ?case using Cons.prems(1) [of 0] by fastforce
    qed simp
    from * [of ?h "\<lambda>k. hash k ?l" 0] b show ?thesis by simp
  qed
  then have "distinct (map fst (concat ?h))" by (simp add: map_concat)
  then have d: "distinct (concat ?h)" by (simp add: distinct_map)
  have "fst c = k_stag_key (ks_stag (snd c))" if c: "c \<in> set (concat ?h)" for c
  proof -
    obtain cs where "cs \<in> set ?h" "c \<in> set cs" using c by auto
    then obtain b where "b < length ?h" "c \<in> set (?h ! b)" by (metis in_set_conv_nth)
    with b [of b] have "k_ht_map hash (km_stag_ht mm) (fst c) = Some (snd c)" by (simp add: k_ht_map_def)
    with assms show ?thesis unfolding k_tags_ok_def by blast
  qed
  then have "inj_on snd (set (concat ?h))" by (intro inj_onI prod_eqI) auto
  with d have "distinct (map snd (concat ?h))" by (simp add: distinct_map)
  then show ?thesis by (simp add: map_concat)
qed

lemma k_mem_release_done:
  assumes "k_mem_inv hash mm"
  shows "\<exists>mm'. k_mem_release hash mm = Done (0, mm') \<and> live_tags hash mm' = {} \<and> km_pins mm' = km_pins mm"
proof -
  have step: "\<exists>mm'. release_stags hash vs mm = Done mm' \<and> live_tags hash mm' = live_tags hash mm - set vs
      \<and> km_pins mm' = km_pins mm \<and> k_mem_inv hash mm'"
    if "k_mem_inv hash mm" "set vs \<subseteq> live_tags hash mm" "distinct vs" for vs mm
    using that
  proof (induction vs arbitrary: mm)
    case (Cons sd vs)
    have sd: "sd \<in> live_tags hash mm" using Cons.prems(2) by simp
    note tags = k_mem_inv_tags [OF Cons.prems(1)]
    then have ht: "k_ht_inv hash (km_stag_ht mm)" by (simp add: k_tags_ok_def)
    obtain ret mm1 where d: "k_mem_stag_destroy hash (ks_stag sd) mm = Done (ret, mm1)"
      using k_mem_stag_destroy_done [OF Cons.prems(1)] by blast
    note l = k_mem_stag_destroy_live [OF tags sd d]
    have "k_mem_inv hash mm1" by (rule k_mem_stag_destroy_inv [OF Cons.prems(1) d])
    moreover have "set vs \<subseteq> live_tags hash mm1" using Cons.prems(2,3) l by auto
    ultimately obtain mm' where m: "release_stags hash vs mm1 = Done mm'" "live_tags hash mm' = live_tags hash mm1 - set vs"
      "km_pins mm' = km_pins mm1" "k_mem_inv hash mm'" using Cons.IH Cons.prems(3) by fastforce
    have "release_stags hash (sd # vs) mm = release_stags hash vs mm1"
      using d k_list_del_done [OF Cons.prems(1) sd] live_tag_map [OF tags sd] kht.look_abs [OF ht, of "k_stag_key (ks_stag sd)"]
      by (auto simp: k_mem_stag_destroy_def k_ht_delete_def Let_def split: prod.splits)
    with m l show ?case by auto
  qed simp
  have ht: "k_ht_inv hash (km_stag_ht mm)" using assms by (simp add: k_mem_inv_def k_tags_ok_def)
  from step [OF assms _ k_tags_distinct [OF k_mem_inv_tags [OF assms]]] k_ht_values(1) [OF ht]
  obtain mm' where "release_stags hash (concat (map (map snd) (kh_htab (km_stag_ht mm)))) mm = Done mm'"
    "live_tags hash mm' = {}" "km_pins mm' = km_pins mm" by (auto simp: live_tags_def simp del: set_concat)
  then show ?thesis by (simp add: k_mem_release_def live_tags_def)
qed

section \<open>Reachable states\<close>

text \<open>
  The states of a manager under its operations, from a fresh one: regions are registered while the table has
  a free element, tags are created on valid regions, the allocator gives memory that is not in use.
\<close>

inductive k_mem_reachable :: "(u64 \<Rightarrow> nat \<Rightarrow> nat) \<Rightarrow> (u64 \<Rightarrow> nat option) \<Rightarrow> k_mem_manager \<Rightarrow> bool"
  for hash pt where
  start: "k_mem_initialize (Some base) True True mm = (ret, mm') \<Longrightarrow> base \<noteq> 0 \<Longrightarrow> unat base + 640 < 2 ^ 64 \<Longrightarrow>
    km_pins mm = (\<lambda>_. 0) \<Longrightarrow> k_mem_reachable hash pt mm'"
| register: "k_mem_reachable hash pt mm \<Longrightarrow> k_first_free 0 (km_region mm) < length (km_region mm) \<Longrightarrow>
    k_mem_register pt ans table page_list caddr addr len mm = Done (md, mm') \<Longrightarrow> k_mem_reachable hash pt mm'"
| deregister: "k_mem_reachable hash pt mm \<Longrightarrow> k_mem_deregister md mm = Done (ret, mm') \<Longrightarrow> k_mem_reachable hash pt mm'"
| stag_create: "k_mem_reachable hash pt mm \<Longrightarrow>
    k_mem_stag_create hash kmalloc nodes md start len rw pd mm = Done (stag, mm') \<Longrightarrow>
    (\<And>j. k_mr_from_md md mm = Done (Some j) \<Longrightarrow> kr_valid (km_region mm ! j)) \<Longrightarrow>
    (\<And>a. kmalloc = Some a \<Longrightarrow> fresh_addr hash a mm) \<Longrightarrow> k_mem_reachable hash pt mm'"
| stag_destroy: "k_mem_reachable hash pt mm \<Longrightarrow> k_mem_stag_destroy hash stag mm = Done (ret, mm') \<Longrightarrow> k_mem_reachable hash pt mm'"

lemma k_mem_reachable_inv:
  assumes "k_mem_reachable hash pt mm" "\<forall>k. hash k 5 < 2 ^ 5"
  shows "k_mem_inv hash mm"
  using assms(1)
proof induction
  case (start base mm ret mm')
  then show ?case using k_mem_initialize_inv [where hash = hash, OF start(1) assms(2)] by simp
next
  case (register mm ans table page_list caddr addr len md mm')
  then show ?case using k_mem_register_inv by blast
next
  case (deregister mm md ret mm')
  then show ?case using k_mem_deregister_inv by blast
next
  case (stag_create mm kmalloc nodes md start len rw pd stag mm')
  then show ?case using k_mem_stag_create_inv by blast
next
  case (stag_destroy mm stag ret mm')
  then show ?case using k_mem_stag_destroy_inv by blast
qed

text \<open>The loop finds a free tag if there is one and the nodes can be allocated.\<close>

lemma k_stag_loop_returns:
  assumes "k_ht_inv hash t" "\<forall>i. nodes i" "k_ht_map hash t (k_stag_key (c + of_nat n)) = None"
  shows "k_stag_loop hash nodes sd c t \<noteq> None"
  using assms(2,3)
proof (induction n arbitrary: nodes c sd)
  case 0
  then have "\<exists>t'. k_ht_insert hash (nodes 0) t (k_stag_key c) (sd\<lparr>ks_stag := c\<rparr>) = (0, t')"
    using kht.ins_new [OF assms(1), of "k_stag_key c" "sd\<lparr>ks_stag := c\<rparr>"] by auto
  then show ?case by (subst k_stag_loop.simps) (auto simp: Let_def)
next
  case (Suc n)
  show ?case
  proof (cases "k_ht_map hash t (k_stag_key c) = None")
    case True
    then have "\<exists>t'. k_ht_insert hash (nodes 0) t (k_stag_key c) (sd\<lparr>ks_stag := c\<rparr>) = (0, t')"
      using kht.ins_new [OF assms(1), of "k_stag_key c" "sd\<lparr>ks_stag := c\<rparr>"] Suc.prems(1) by auto
    then show ?thesis by (subst k_stag_loop.simps) (auto simp: Let_def)
  next
    case False
    have "k_ht_insert hash (nodes 0) t (k_stag_key c) (sd\<lparr>ks_stag := c\<rparr>) = (- EEXIST, t)"
      using kht.ins_dup [OF assms(1) False] Suc.prems(1) by simp
    moreover have "k_stag_loop hash (\<lambda>i. nodes (Suc i)) (sd\<lparr>ks_stag := c\<rparr>) (c + 1) t \<noteq> None"
      using Suc by (simp add: add.assoc)
    ultimately show ?thesis by (subst k_stag_loop.simps) (simp add: Let_def)
  qed
qed

lemma k_mem_stag_create_some:
  assumes "k_mem_inv hash mm" "k_mr_from_md md mm = Done (Some i)" "kr_start (km_region mm ! i) \<le> start"
    and "len \<le> kr_len (km_region mm ! i)" "\<forall>j. nodes j"
    and "k_ht_map hash (km_stag_ht mm) (k_stag_key (km_next_cntr mm + of_nat n)) = None"
  shows "\<exists>stag mm'. k_mem_stag_create hash (Some a) nodes md start len rw pd mm = Done (stag, mm')"
proof -
  have ht: "k_ht_inv hash (km_stag_ht mm)" using assms(1) by (simp add: k_mem_inv_def k_tags_ok_def)
  let ?sd0 = "\<lparr>ks_addr = a, ks_mr = md, ks_start = start, ks_len = len, ks_stag = 0, ks_rw = rw, ks_prot = pd\<rparr>"
  obtain r where "k_stag_loop hash nodes ?sd0 (km_next_cntr mm) (km_stag_ht mm) = Some r"
    using k_stag_loop_returns [OF ht assms(5,6)] by blast
  moreover have "(start < kr_start (km_region mm ! i)) = False" "(kr_len (km_region mm ! i) < len) = False" using assms(3,4) by auto
  moreover have "link_live mm (nxt (km_links mm) (region_head (km_base mm) i))"
    using k_list_add_done [OF assms(1)] k_mr_from_md_some [OF assms(2)] by blast
  ultimately show ?thesis using assms(2)
    by (cases r) (simp add: k_mem_stag_create_def Let_def k_list_add_def link_live_def)
qed

section \<open>Properties\<close>

text \<open>The answer to a lookup, with the tags in order.\<close>

lemma k_mem_stag_desc_map:
  assumes "k_ht_inv hash (km_stag_ht mm)"
  shows "k_mem_stag_desc hash stag start len rw mm =
     (case k_ht_map hash (km_stag_ht mm) (k_stag_key stag) of
        None \<Rightarrow> None
      | Some sd \<Rightarrow> if (rw AND STAG_R \<noteq> 0 \<and> ks_rw sd AND STAG_R = 0) \<or> (rw AND STAG_W \<noteq> 0 \<and> ks_rw sd AND STAG_W = 0)
            \<or> (start < ks_start sd \<or> start \<ge> ks_start sd + ks_len sd)
            \<or> (start + len < ks_start sd \<or> start + len > ks_start sd + ks_len sd) then None else Some sd)"
    "k_mem_stag_is_enabled hash stag mm = (if k_ht_map hash (km_stag_ht mm) (k_stag_key stag) = None then - ENOENT else 0)"
  using kht.look_abs [OF assms, of "k_stag_key stag"]
  by (auto simp: k_mem_stag_desc_def k_mem_stag_is_enabled_def split: option.split)

text \<open>
  C27. Registered memory is reached at the right places. When \<open>mem_register\<close> returns a descriptor, then for
  every tag on that region and every range inside it, \<open>mem_fill_iovec\<close> either finds that the vector has too
  few entries or fills it with pieces, each inside one page frame, which together are the bytes of the range in
  order, at the places where the page table of the process has them; \<open>mem_unmap_iovec\<close> then gives back the
  same pages.
\<close>

theorem k_registered_range:
  assumes "k_mem_register pt ans table page_list caddr addr len mm = Done (md, mm')" "md \<noteq> 0"
    and "k_table_ok mm" "k_first_free 0 (km_region mm) < length (km_region mm)" "unat len + 8192 \<le> 2 ^ 64"
    and "ks_mr sd = md" "unat offset < 2 ^ 31" "unat bufv + unat offset + n < 2 ^ 64"
    and "unat addr \<le> unat bufv + unat offset" "unat bufv + unat offset + n \<le> unat addr + unat len"
  shows "\<exists>ret v. k_mem_fill_iovec bufv (int n) offset sd alloc 0 mm' = Done (ret, v)
    \<and> (ret = 0 \<and> map Some (places v) = map (\<lambda>i. user_place pt (bufv + of_nat (unat offset + i))) [0..<n]
         \<and> k_mem_unmap_iovec bufv (int n) offset sd mm' = Done (map fst v) \<and> length v \<le> alloc
       \<or> ret = - EOVERFLOW \<and> length v = alloc)
    \<and> (\<forall>(pg, off, len)\<in>set v. off + len \<le> 4096 \<and> 0 < len)"
  using assms(1,3,4)
proof (cases rule: mem_register_cases)
  case (2 i mr)
  have "int (unat offset) < int (2 ^ 31)" using assms(7) by (simp only: of_nat_less_iff)
  then have "uint offset < 2 ^ 31" by simp
  moreover have "- 2147483648 \<le> uint offset" by (rule order_trans [of _ 0]) simp_all
  ultimately have "sint offset = uint offset" by (simp add: sint_uint signed_take_bit_int_eq_self_iff)
  then have "(scast offset :: u64) = of_nat (unat offset)" by (simp add: scast_eq)
  then have off: "bufv + scast offset = bufv + of_nat (unat offset)" by simp
  have b: "unat (bufv + of_nat (unat offset)) = unat bufv + unat offset" using assms(8) by (intro unat_add_nat) simp
  have "k_table_ok mm'" "i < length (km_region mm')" using assms(3) 2(2) by (simp_all add: k_table_ok_def 2(9))
  from k_mr_from_md_region [OF this] have "k_mr_from_md md mm' = Done (Some i)" by (simp add: 2(4,9))
  then have "sd_region sd mm' = Done mr" using 2(2) by (simp add: sd_region_def assms(6)) (simp add: 2(9))
  moreover obtain ret v where "fill_loop (take (kr_npages mr) (kr_page_list mr)) (drop_bit PAGE_SHIFT (kr_start mr)) (int n)
       (bufv + of_nat (unat offset)) alloc 0 = Done (ret, v)"
    "ret = 0 \<and> map Some (places v) = map (\<lambda>i. user_place pt (bufv + of_nat (unat offset) + of_nat i)) [0..<n]
      \<and> unmap_loop (take (kr_npages mr) (kr_page_list mr)) (drop_bit PAGE_SHIFT (kr_start mr)) (int n)
       (bufv + of_nat (unat offset)) = Done (map fst v) \<and> length v \<le> alloc - 0 \<or> ret = - EOVERFLOW \<and> length v = alloc - 0"
    "\<forall>(pg, off, len)\<in>set v. off + len \<le> 4096 \<and> 0 < len \<and> pg \<in> set (kr_page_list mr)"
    using region_range_places [OF 2(8), of "bufv + of_nat (unat offset)" n 0 alloc] assms(5,8,9,10) 2(6,7) b by auto
  ultimately show ?thesis
    by (intro exI [of _ ret] exI [of _ v]) (auto simp: k_mem_fill_iovec_def k_mem_unmap_iovec_def off add.assoc)
qed (use assms(2) in simp)

text \<open>
  C28. Regions, tags and pages stay in step. Take any state that operations of the manager reach from a fresh one,
  as long as the table of regions is not enlarged (at most ten regions at a time), tags are created on valid
  regions only and the allocator gives memory that is not in use (these are conditions of \<open>k_mem_reachable\<close>; the
  last section shows what happens otherwise). Then the ring of tags that starts at the list head of a region holds
  exactly the structures of the live tags that name the region, each once; a valid region is refused
  deregistration with \<open>-EBUSY\<close> exactly when a live tag names it and is deregistered otherwise; every live tag
  names a valid region; and the references the manager holds to a page are as many as the places it has in the
  page lists of valid regions: none is left behind by a registration that failed.
\<close>

theorem k_mem_regions_in_step:
  assumes "k_mem_reachable hash_long pt mm" "\<forall>k. hash_long k 5 < 2 ^ 5"
  shows "(\<forall>i<length (km_region mm). \<exists>xs. ring (km_links mm) (region_head (km_base mm) i) xs \<and> distinct xs
         \<and> set xs = ks_addr ` {sd \<in> live_tags hash_long mm. ks_mr sd = region_addr (km_base mm) i})
    \<and> inj_on ks_addr (live_tags hash_long mm)
    \<and> (\<forall>md i. k_mr_from_md md mm = Done (Some i) \<and> kr_valid (km_region mm ! i) \<longrightarrow>
      (if \<exists>sd\<in>live_tags hash_long mm. ks_mr sd = md then k_mem_deregister md mm = Done (- EBUSY, mm)
       else \<exists>mm'. k_mem_deregister md mm = Done (0, mm') \<and> \<not> kr_valid (km_region mm' ! i)))
    \<and> (\<forall>sd\<in>live_tags hash_long mm. \<exists>i. k_mr_from_md (ks_mr sd) mm = Done (Some i) \<and> kr_valid (km_region mm ! i))
    \<and> (\<forall>pg. km_pins mm pg = (\<Sum>mr\<leftarrow>km_region mm. if kr_valid mr then int (count_list (take (kr_npages mr) (kr_page_list mr)) pg) else 0))"
proof -
  note i = k_mem_reachable_inv [OF assms]
  then have tb: "k_table_ok mm" by (simp add: k_mem_inv_def)
  have "if \<exists>sd\<in>live_tags hash_long mm. ks_mr sd = md then k_mem_deregister md mm = Done (- EBUSY, mm)
       else \<exists>mm'. k_mem_deregister md mm = Done (0, mm') \<and> \<not> kr_valid (km_region mm' ! j)"
    if md: "k_mr_from_md md mm = Done (Some j)" and v: "kr_valid (km_region mm ! j)" for md j
  proof -
    note j = k_mr_from_md_some [OF md]
    have "(\<exists>sd\<in>live_tags hash_long mm. ks_mr sd = md) \<longleftrightarrow> tags_of hash_long mm j \<noteq> {}" using j by (auto simp: tags_of_def)
    with k_list_empty [OF i, of j] j v md show ?thesis by (simp add: k_mem_deregister_def Let_def)
  qed
  moreover have "\<forall>sd\<in>live_tags hash_long mm. \<exists>i. k_mr_from_md (ks_mr sd) mm = Done (Some i) \<and> kr_valid (km_region mm ! i)"
    using i k_mr_from_md_region [OF tb] by (fastforce simp: k_mem_inv_def)
  moreover have "\<forall>i<length (km_region mm). \<exists>xs. ring (km_links mm) (region_head (km_base mm) i) xs \<and> distinct xs
      \<and> set xs = ks_addr ` {sd \<in> live_tags hash_long mm. ks_mr sd = region_addr (km_base mm) i}"
    using k_mem_inv_ring [OF i] ring_distinct unfolding tags_of_def by fastforce
  ultimately show ?thesis using i by (simp add: k_mem_inv_def k_pins_ok_def k_links_ok_def)
qed

text \<open>
  C29. The life of a tag. In a state as in the property before, on a valid region, with memory and a free tag left,
  \<open>mem_stag_create\<close> returns a tag that was not in use. A lookup of it for an access that does not run past the end
  of the address space then finds its descriptor when the access lies inside the range of the tag and asks for
  rights the tag has, and nothing otherwise; every other tag answers as before. \<open>mem_stag_destroy\<close> succeeds,
  takes the tag away again, and leaves every answer as it was before the creation.
\<close>

theorem k_stag_life:
  assumes "k_mem_reachable hash_long pt mm" "\<forall>k. hash_long k 5 < 2 ^ 5"
    and "k_mr_from_md md mm = Done (Some i)" "kr_valid (km_region mm ! i)" "kr_start (km_region mm ! i) \<le> start"
    and "len \<le> kr_len (km_region mm ! i)" "unat start + unat len < 2 ^ 64" "fresh_addr hash_long a mm" "\<forall>j. nodes j"
    and "k_mem_stag_is_enabled hash_long (km_next_cntr mm + of_nat n) mm = - ENOENT"
  shows "\<exists>stag mm' sd. k_mem_stag_create hash_long (Some a) nodes md start len rw pd mm = Done (stag, mm')
    \<and> k_mem_stag_is_enabled hash_long stag mm = - ENOENT \<and> k_mem_stag_is_enabled hash_long stag mm' = 0
    \<and> (\<forall>x m rw'. unat x + unat m < 2 ^ 64 \<longrightarrow> k_mem_stag_desc hash_long stag x m rw' mm' =
         (if unat start \<le> unat x \<and> unat x < unat start + unat len \<and> unat x + unat m \<le> unat start + unat len
            \<and> (rw' AND STAG_R \<noteq> 0 \<longrightarrow> rw AND STAG_R \<noteq> 0) \<and> (rw' AND STAG_W \<noteq> 0 \<longrightarrow> rw AND STAG_W \<noteq> 0)
          then Some sd else None))
    \<and> ks_start sd = start \<and> ks_len sd = len \<and> ks_mr sd = md
    \<and> (\<forall>s x m rw'. s \<noteq> stag \<longrightarrow> k_mem_stag_desc hash_long s x m rw' mm' = k_mem_stag_desc hash_long s x m rw' mm)
    \<and> (\<exists>mm''. k_mem_stag_destroy hash_long stag mm' = Done (0, mm'')
         \<and> (\<forall>s x m rw'. k_mem_stag_desc hash_long s x m rw' mm'' = k_mem_stag_desc hash_long s x m rw' mm)
         \<and> (\<forall>s. k_mem_stag_is_enabled hash_long s mm'' = k_mem_stag_is_enabled hash_long s mm))"
proof -
  note inv = k_mem_reachable_inv [OF assms(1,2)]
  note tags = k_mem_inv_tags [OF inv]
  then have ht: "k_ht_inv hash_long (km_stag_ht mm)" by (simp add: k_tags_ok_def)
  have free: "k_ht_map hash_long (km_stag_ht mm) (k_stag_key (km_next_cntr mm + of_nat n)) = None"
    using assms(10) k_mem_stag_desc_map(2) [OF ht] by (auto split: if_splits)
  obtain stag mm' where c: "k_mem_stag_create hash_long (Some a) nodes md start len rw pd mm = Done (stag, mm')"
    using k_mem_stag_create_some [OF inv assms(3,5,6,9) free] by blast
  have inv': "k_mem_inv hash_long mm'" by (rule k_mem_stag_create_inv [OF inv c]) (use assms(3,4,8) in auto)
  from tags c show ?thesis
  proof (cases rule: k_mem_stag_create_cases)
    case 1
    with assms(3,5,6) show ?thesis by auto
  next
    case (2 j a' t cntr)
    let ?sd = "\<lparr>ks_addr = a', ks_mr = md, ks_start = start, ks_len = len, ks_stag = stag, ks_rw = rw, ks_prot = pd\<rparr>"
    let ?m = "k_ht_map hash_long (km_stag_ht mm)"
    have ht': "km_stag_ht mm' = t" by (simp add: 2(8))
    have d': "k_mem_stag_desc hash_long s x m rw' mm' = (if s = stag then
        (if (rw' AND STAG_R \<noteq> 0 \<and> rw AND STAG_R = 0) \<or> (rw' AND STAG_W \<noteq> 0 \<and> rw AND STAG_W = 0)
            \<or> (x < start \<or> x \<ge> start + len) \<or> (x + m < start \<or> x + m > start + len) then None else Some ?sd)
        else k_mem_stag_desc hash_long s x m rw' mm)" for s x m rw'
      using k_mem_stag_desc_map(1) [OF 2(6) [folded ht']] by (simp add: ht' 2(7) stag_key_inj k_mem_stag_desc_map(1) [OF ht])
    have exact: "k_mem_stag_desc hash_long stag x m rw' mm' =
        (if unat start \<le> unat x \<and> unat x < unat start + unat len \<and> unat x + unat m \<le> unat start + unat len
            \<and> (rw' AND STAG_R \<noteq> 0 \<longrightarrow> rw AND STAG_R \<noteq> 0) \<and> (rw' AND STAG_W \<noteq> 0 \<longrightarrow> rw AND STAG_W \<noteq> 0)
         then Some ?sd else None)"
      if "unat x + unat m < 2 ^ 64" for x m rw'
    proof -
      have u: "unat (x + m) = unat x + unat m" "unat (start + len) = unat start + unat len"
        using unat_add_nat [of x "unat m"] unat_add_nat [of start "unat len"] that assms(7) by simp_all
      show ?thesis unfolding d' by (auto simp: word_less_nat_alt word_le_nat_alt u)
    qed
    obtain ret mm'' where d: "k_mem_stag_destroy hash_long stag mm' = Done (ret, mm'')"
      using k_mem_stag_destroy_done [OF inv'] by blast
    have found: "k_ht_map hash_long (km_stag_ht mm') (k_stag_key stag) = Some ?sd" by (simp add: ht' 2(7))
    from k_mem_inv_tags [OF inv'] d found obtain t' where t': "ret = 0" "k_ht_inv hash_long t'" "km_stag_ht mm'' = t'"
      "k_ht_map hash_long t' = (k_ht_map hash_long (km_stag_ht mm'))(k_stag_key stag := None)"
      by (cases rule: k_mem_stag_destroy_cases) auto
    have "k_ht_map hash_long (km_stag_ht mm'') = ?m" using 2(5) by (simp add: t'(3,4) ht' 2(7) fun_upd_idem)
    then have gone: "k_mem_stag_desc hash_long s x m rw' mm'' = k_mem_stag_desc hash_long s x m rw' mm"
      "k_mem_stag_is_enabled hash_long s mm'' = k_mem_stag_is_enabled hash_long s mm" for s x m rw'
      using t'(2,3) by (simp_all add: k_mem_stag_desc_map [OF ht] k_mem_stag_desc_map [of hash_long mm''])
    have en: "k_mem_stag_is_enabled hash_long stag mm = - ENOENT" "k_mem_stag_is_enabled hash_long stag mm' = 0"
      using 2(5) found k_mem_stag_desc_map(2) [OF ht] k_mem_stag_desc_map(2) [OF 2(6) [folded ht']] by auto
    have other: "\<forall>s x m rw'. s \<noteq> stag \<longrightarrow> k_mem_stag_desc hash_long s x m rw' mm' = k_mem_stag_desc hash_long s x m rw' mm"
      using d' by simp
    have away: "\<exists>mm''. k_mem_stag_destroy hash_long stag mm' = Done (0, mm'')
         \<and> (\<forall>s x m rw'. k_mem_stag_desc hash_long s x m rw' mm'' = k_mem_stag_desc hash_long s x m rw' mm)
         \<and> (\<forall>s. k_mem_stag_is_enabled hash_long s mm'' = k_mem_stag_is_enabled hash_long s mm)"
      using d t'(1) gone by (intro exI [of _ mm'']) simp
    show ?thesis
      by (intro exI [of _ stag] exI [of _ mm'] exI [of _ ?sd] conjI c en other away allI impI exact) simp_all
  qed
qed

section \<open>Witnesses\<close>

text \<open>A fresh manager whose table lies at 1 MB, and one region of two pages and a half.\<close>

definition demo_hash :: "u64 \<Rightarrow> nat \<Rightarrow> nat" where
  "demo_hash k n = unat k mod 2 ^ n"

definition demo_fresh :: k_mem_manager where
  "demo_fresh = snd (k_mem_initialize (Some 0x100000) True True \<lparr>km_num = 0, km_base = 0, km_region = [], km_next_cntr = 0,
     km_stag_ht = \<lparr>kh_sz = 0, kh_lg_sz = 0, kh_numnodes = 0, kh_htab = []\<rparr>, km_links = \<lparr>nxt = (\<lambda>_. 0), prv = (\<lambda>_. 0)\<rparr>,
     km_pins = (\<lambda>_. 0), km_dead = (\<lambda>_. False)\<rparr>)"

lemma demo_hash_fits: "\<forall>k. demo_hash k 5 < 2 ^ 5"
  by (simp add: demo_hash_def)

lemma demo_fresh_reachable: "k_mem_reachable demo_hash pt demo_fresh"
  unfolding demo_fresh_def by (rule k_mem_reachable.start [OF prod.collapse [symmetric]]) simp_all

lemma demo_fresh_simps:
  "km_region demo_fresh = replicate 10 zero_region" "km_num demo_fresh = 10" "km_base demo_fresh = 0x100000"
  by (simp_all add: demo_fresh_def k_mem_initialize_def k_ht_create_def Let_def DELTA_def)

lemma demo_register:
  "\<exists>mm. k_mem_register (\<lambda>v. Some (unat v)) [1, 1] None True True 0x5800 0x2000 demo_fresh = Done (0x100000, mm)"
proof -
  have r: "replicate 10 zero_region = zero_region # replicate 9 zero_region" by (simp add: numeral_eq_Suc)
  have f: "k_first_free 0 (replicate 10 zero_region) = 0" unfolding r by (simp add: zero_region_def)
  have s: "k_mem_slot None demo_fresh = Done (Some 0, demo_fresh)"
    by (simp add: k_mem_slot_def demo_fresh_simps f Let_def)
  have n: "mem_npages 0x5800 0x2000 = 3" by (simp add: mem_npages_def PAGE_MASK_def)
  have "fst (grab_pages (\<lambda>v. Some (unat v)) [1, 1] 5 3 [] (km_pins demo_fresh)) \<noteq> None"
    by (simp add: grab_pages.simps get_user_pages_def numeral_eq_Suc)
  then show ?thesis
    by (auto simp: k_mem_register_def s n Let_def region_addr_def demo_fresh_simps split: prod.splits option.splits)
qed

lemma demo_region:
  obtains mm where "k_mem_register (\<lambda>v. Some (unat v)) [1, 1] None True True 0x5800 0x2000 demo_fresh = Done (0x100000, mm)"
    "k_mem_reachable demo_hash (\<lambda>v. Some (unat v)) mm" "k_mem_inv demo_hash mm" "k_mr_from_md 0x100000 mm = Done (Some 0)"
    "kr_valid (km_region mm ! 0)" "kr_start (km_region mm ! 0) = 0x5800" "kr_len (km_region mm ! 0) = 0x2000"
    "live_tags demo_hash mm = {}" "\<forall>k. k_ht_map demo_hash (km_stag_ht mm) k = None"
    "km_base mm = 0x100000" "length (km_region mm) = 10"
proof -
  obtain mm where r: "k_mem_register (\<lambda>v. Some (unat v)) [1, 1] None True True 0x5800 0x2000 demo_fresh = Done (0x100000, mm)"
    using demo_register by blast
  have inv: "k_mem_inv demo_hash demo_fresh" by (rule k_mem_reachable_inv [OF demo_fresh_reachable demo_hash_fits])
  have lv: "live_tags demo_hash demo_fresh = {}"
    using k_mem_initialize_inv [where hash = demo_hash, OF prod.collapse [symmetric] demo_hash_fits, of "0x100000"]
    unfolding demo_fresh_def by simp
  have tb: "k_table_ok demo_fresh" using inv by (simp add: k_mem_inv_def)
  have f: "k_first_free 0 (km_region demo_fresh) = 0" unfolding demo_fresh_simps by (simp add: numeral_eq_Suc zero_region_def)
  then have ff: "k_first_free 0 (km_region demo_fresh) < length (km_region demo_fresh)" by (simp add: demo_fresh_simps)
  have re: "k_mem_reachable demo_hash (\<lambda>v. Some (unat v)) mm" by (rule k_mem_reachable.register [OF demo_fresh_reachable ff r])
  have inv': "k_mem_inv demo_hash mm" by (rule k_mem_reachable_inv [OF re demo_hash_fits])
  from r tb ff show thesis
  proof (cases rule: mem_register_cases)
    case (2 i mr)
    have i: "i = 0" using 2(1) f by simp
    have "k_mr_from_md (region_addr (km_base mm) 0) mm = Done (Some 0)"
      using inv' by (intro k_mr_from_md_region) (simp_all add: k_mem_inv_def 2(9) demo_fresh_simps)
    then have md: "k_mr_from_md 0x100000 mm = Done (Some 0)" by (simp add: 2(9) demo_fresh_simps region_addr_def)
    have live: "live_tags demo_hash mm = {}" using lv by (simp add: live_tags_def 2(9))
    moreover have "\<forall>k. k_ht_map demo_hash (km_stag_ht mm) k = None"
      using live by (metis empty_iff live_tags_def not_None_eq ranI)
    ultimately show thesis
      using that [OF r re inv' md] 2(5-7) by (simp add: 2(9) i demo_fresh_simps)
  qed simp
qed

theorem k_registered_range_witness:
  "\<exists>mm ret v. k_mem_register (\<lambda>v. Some (unat v)) [1, 1] None True True 0x5800 0x2000 demo_fresh = Done (0x100000, mm)
     \<and> k_mem_fill_iovec 0x5F00 0x1200 8 \<lparr>ks_addr = 0, ks_mr = 0x100000, ks_start = 0x5900, ks_len = 0x1800, ks_stag = 1, ks_rw = 3,
         ks_prot = 0\<rparr> 5 0 mm = Done (ret, v)
     \<and> (ret = 0 \<longrightarrow> map Some (places v) = map (\<lambda>i. user_place (\<lambda>v. Some (unat v)) (0x5F00 + of_nat (8 + i))) [0..<0x1200])"
proof -
  obtain mm where r: "k_mem_register (\<lambda>v. Some (unat v)) [1, 1] None True True 0x5800 0x2000 demo_fresh = Done (0x100000, mm)"
    by (rule demo_region)
  have "k_table_ok demo_fresh" using k_mem_reachable_inv [OF demo_fresh_reachable demo_hash_fits] by (simp add: k_mem_inv_def)
  moreover have "k_first_free 0 (km_region demo_fresh) < length (km_region demo_fresh)"
    unfolding demo_fresh_simps by (simp add: numeral_eq_Suc zero_region_def)
  ultimately show ?thesis
    using k_registered_range [OF r, of "\<lparr>ks_addr = 0, ks_mr = 0x100000, ks_start = 0x5900, ks_len = 0x1800, ks_stag = 1, ks_rw = 3,
         ks_prot = 0\<rparr>" 8 "0x5F00" "0x1200" 5] r
    by auto
qed

lemma demo_fresh_addr:
  assumes "live_tags demo_hash mm = {}" "km_base mm = 0x100000" "length (km_region mm) = 10"
  shows "fresh_addr demo_hash 0x900000 mm"
proof -
  have "region_head 0x100000 i \<noteq> 0x900000" if "i < 10" for i
  proof -
    have "unat (region_head 0x100000 i) = 0x100000 + 64 * i + 24" using region_head_unat [of "0x100000" 10 i] that by simp
    with that show ?thesis by auto
  qed
  then show ?thesis by (auto simp: fresh_addr_def assms)
qed

lemma demo_tag:
  obtains mm stag where "k_mem_reachable demo_hash (\<lambda>v. Some (unat v)) mm" "k_mr_from_md 0x100000 mm = Done (Some 0)"
    "kr_valid (km_region mm ! 0)" "\<exists>sd\<in>live_tags demo_hash mm. ks_mr sd = 0x100000 \<and> ks_stag sd = stag"
proof -
  obtain mm where m: "k_mem_reachable demo_hash (\<lambda>v. Some (unat v)) mm" "k_mem_inv demo_hash mm" "k_mr_from_md 0x100000 mm = Done (Some 0)"
    "kr_valid (km_region mm ! 0)" "kr_start (km_region mm ! 0) = 0x5800" "kr_len (km_region mm ! 0) = 0x2000"
    "live_tags demo_hash mm = {}" "\<forall>k. k_ht_map demo_hash (km_stag_ht mm) k = None"
    "km_base mm = 0x100000" "length (km_region mm) = 10"
    by (rule demo_region)
  have "\<exists>stag mm'. k_mem_stag_create demo_hash (Some 0x900000) (\<lambda>_. True) 0x100000 0x5800 0x2000 3 0 mm = Done (stag, mm')"
    by (rule k_mem_stag_create_some [where n = 0, OF m(2,3)]) (simp_all add: m(5,6,8))
  then obtain stag mm' where c: "k_mem_stag_create demo_hash (Some 0x900000) (\<lambda>_. True) 0x100000 0x5800 0x2000 3 0 mm = Done (stag, mm')"
    by blast
  have fresh: "fresh_addr demo_hash 0x900000 mm" by (rule demo_fresh_addr [OF m(7,9,10)])
  have re: "k_mem_reachable demo_hash (\<lambda>v. Some (unat v)) mm'"
    by (rule k_mem_reachable.stag_create [OF m(1) c]) (use m(3,4) fresh in auto)
  from k_mem_inv_tags [OF m(2)] c show thesis
  proof (cases rule: k_mem_stag_create_cases)
    case 1
    with m(3,5,6) show ?thesis by auto
  next
    case (2 j a t cntr)
    have "k_mr_from_md 0x100000 mm' = k_mr_from_md 0x100000 mm" by (simp add: 2(8) k_mr_from_md_def)
    then have "k_mr_from_md 0x100000 mm' = Done (Some 0)" "kr_valid (km_region mm' ! 0)"
      using m(3,4) by (simp_all add: 2(8))
    moreover have "\<exists>sd\<in>live_tags demo_hash mm'. ks_mr sd = 0x100000 \<and> ks_stag sd = stag"
      unfolding live_tags_def 2(8) by (auto simp: 2(7) ran_def)
    ultimately show ?thesis using that [OF re] by blast
  qed
qed

theorem k_mem_regions_in_step_witness:
  "\<exists>mm. k_mem_reachable demo_hash (\<lambda>v. Some (unat v)) mm \<and> k_mem_deregister 0x100000 mm = Done (- EBUSY, mm)"
proof -
  obtain mm stag where m: "k_mem_reachable demo_hash (\<lambda>v. Some (unat v)) mm" "k_mr_from_md 0x100000 mm = Done (Some 0)"
    "kr_valid (km_region mm ! 0)" "\<exists>sd\<in>live_tags demo_hash mm. ks_mr sd = 0x100000 \<and> ks_stag sd = stag"
    by (rule demo_tag)
  note all = k_mem_regions_in_step [OF m(1) demo_hash_fits, THEN conjunct2, THEN conjunct2, THEN conjunct1]
  then have "if \<exists>sd\<in>live_tags demo_hash mm. ks_mr sd = 0x100000 then k_mem_deregister 0x100000 mm = Done (- EBUSY, mm)
       else \<exists>mm'. k_mem_deregister 0x100000 mm = Done (0, mm') \<and> \<not> kr_valid (km_region mm' ! 0)"
    using m(2,3) by blast
  moreover have "\<exists>sd\<in>live_tags demo_hash mm. ks_mr sd = 0x100000" using m(4) by blast
  ultimately show ?thesis using m(1) by (intro exI [of _ mm]) simp
qed

theorem k_stag_life_witness:
  "\<exists>mm stag mm' sd. k_mem_stag_create demo_hash (Some 0x900000) (\<lambda>_. True) 0x100000 0x5900 0x1800 STAG_W 0 mm = Done (stag, mm')
     \<and> k_mem_stag_desc demo_hash stag 0x5A00 0x700 STAG_W mm' = Some sd \<and> ks_start sd = 0x5900
     \<and> k_mem_stag_desc demo_hash stag 0x5A00 0x700 STAG_R mm' = None
     \<and> k_mem_stag_desc demo_hash stag 0x5A00 0x1701 STAG_W mm' = None
     \<and> (\<exists>mm''. k_mem_stag_destroy demo_hash stag mm' = Done (0, mm''))"
proof -
  obtain mm where m: "k_mem_reachable demo_hash (\<lambda>v. Some (unat v)) mm" "k_mem_inv demo_hash mm" "k_mr_from_md 0x100000 mm = Done (Some 0)"
    "kr_valid (km_region mm ! 0)" "kr_start (km_region mm ! 0) = 0x5800" "kr_len (km_region mm ! 0) = 0x2000"
    "live_tags demo_hash mm = {}" "\<forall>k. k_ht_map demo_hash (km_stag_ht mm) k = None"
    "km_base mm = 0x100000" "length (km_region mm) = 10"
    by (rule demo_region)
  have "k_ht_inv demo_hash (km_stag_ht mm)" using m(2) by (simp add: k_mem_inv_def k_tags_ok_def)
  from k_mem_stag_desc_map(2) [OF this] m(8)
  have en: "k_mem_stag_is_enabled demo_hash (km_next_cntr mm + of_nat 0) mm = - ENOENT" by simp
  note life = k_stag_life [OF m(1) demo_hash_fits m(3,4) _ _ _ demo_fresh_addr [OF m(7,9,10)] _ en, of "0x5900" "0x1800" "\<lambda>_. True" STAG_W 0]
  from life m(5,6) obtain stag mm' sd where
    c: "k_mem_stag_create demo_hash (Some 0x900000) (\<lambda>_. True) 0x100000 0x5900 0x1800 STAG_W 0 mm = Done (stag, mm')"
    and look: "\<And>x m rw'. unat x + unat m < 2 ^ 64 \<Longrightarrow> k_mem_stag_desc demo_hash stag x m rw' mm' =
         (if unat (0x5900 :: u64) \<le> unat x \<and> unat x < unat (0x5900 :: u64) + unat (0x1800 :: u64)
            \<and> unat x + unat m \<le> unat (0x5900 :: u64) + unat (0x1800 :: u64)
            \<and> (rw' AND STAG_R \<noteq> 0 \<longrightarrow> STAG_W AND STAG_R \<noteq> (0 :: u32)) \<and> (rw' AND STAG_W \<noteq> 0 \<longrightarrow> STAG_W AND STAG_W \<noteq> (0 :: u32))
          then Some sd else None)" "ks_start sd = 0x5900"
    and d: "\<exists>mm''. k_mem_stag_destroy demo_hash stag mm' = Done (0, mm'')"
    by auto
  have "k_mem_stag_desc demo_hash stag 0x5A00 0x700 STAG_W mm' = Some sd" by (subst look(1)) simp_all
  moreover have "k_mem_stag_desc demo_hash stag 0x5A00 0x700 STAG_R mm' = None" by (subst look(1)) simp_all
  moreover have "k_mem_stag_desc demo_hash stag 0x5A00 0x1701 STAG_W mm' = None" by (subst look(1)) simp_all
  ultimately show ?thesis using c look(2) d
    by (intro exI [of _ mm] exI [of _ stag] exI [of _ mm'] exI [of _ sd]) simp
qed

section \<open>Where it breaks\<close>

text \<open>A tag may reach past its region, and \<open>mem_fill_iovec\<close> then past its list of pages.\<close>

lemma k_tag_past_region:
  "\<exists>stag mm mm'. k_mem_reachable demo_hash (\<lambda>v. Some (unat v)) mm
     \<and> k_mem_stag_create demo_hash (Some 0x900000) (\<lambda>_. True) 0x100000 0x7000 0x2000 3 0 mm = Done (stag, mm')
     \<and> k_mr_from_md 0x100000 mm = Done (Some 0) \<and> kr_start (km_region mm ! 0) + kr_len (km_region mm ! 0) < 0x7000 + 0x2000"
proof -
  obtain mm where m: "k_mem_reachable demo_hash (\<lambda>v. Some (unat v)) mm" "k_mem_inv demo_hash mm" "k_mr_from_md 0x100000 mm = Done (Some 0)"
    "kr_start (km_region mm ! 0) = 0x5800" "kr_len (km_region mm ! 0) = 0x2000" "\<forall>k. k_ht_map demo_hash (km_stag_ht mm) k = None"
    by (rule demo_region)
  have "\<exists>stag mm'. k_mem_stag_create demo_hash (Some 0x900000) (\<lambda>_. True) 0x100000 0x7000 0x2000 3 0 mm = Done (stag, mm')"
    by (rule k_mem_stag_create_some [where n = 0, OF m(2,3)]) (simp_all add: m)
  then obtain stag mm' where "k_mem_stag_create demo_hash (Some 0x900000) (\<lambda>_. True) 0x100000 0x7000 0x2000 3 0 mm = Done (stag, mm')"
    by blast
  with m show ?thesis by (intro exI [of _ stag] exI [of _ mm] exI [of _ mm']) simp
qed

text \<open>Enlarging the table moves it; a region whose list was empty then counts as busy for good.\<close>

lemma k_mem_enlarge_busy:
  assumes "k_mem_slot (Some base) mm = Done (Some n, mm')" "n = length (km_region mm)" "i < n" "base \<noteq> km_base mm"
    and "list_empty (region_head (km_base mm) i) (km_links mm)" "k_table_ok mm"
  shows "\<not> list_empty (region_head (km_base mm') i) (km_links mm')"
proof -
  have n: "n = unat (km_num mm)" using assms(2,6) by (simp add: k_table_ok_def)
  have "unat (of_nat (64 * i + 24) :: u64) = 64 * i + 24"
    using assms(2,3,6) unat_add_nat [of 0 "64 * i + 24"] by (simp add: k_table_ok_def)
  then have u: "unat (region_head base i - base) < 64 * n" using assms(3) by (simp add: region_head_def region_addr_def)
  have "k_first_free 0 (km_region mm) = n" using assms(1) n by (auto simp: k_mem_slot_def Let_def split: if_splits)
  with assms(1,2) have m: "km_base mm' = base"
    "nxt (km_links mm') (region_head base i) = nxt (km_links mm) (region_head base i - base + km_base mm)"
    using u n by (auto simp: k_mem_slot_def Let_def split: if_splits)
  have "region_head base i - base + km_base mm = region_head (km_base mm) i" by (simp add: region_head_def region_addr_def)
  then have "nxt (km_links mm') (region_head base i) = region_head (km_base mm) i" using assms(5) m(2) by (simp add: list_empty_def)
  moreover have "region_head (km_base mm) i \<noteq> region_head base i" using assms(4) by (simp add: region_head_def region_addr_def)
  ultimately show ?thesis by (simp add: list_empty_def m(1))
qed

text \<open>\<open>mem_release\<close> gives back no page.\<close>

lemma k_mem_release_keeps_pins: "k_mem_release hash mm = Done (ret, mm') \<Longrightarrow> km_pins mm' = km_pins mm"
proof -
  have "release_stags hash sds mm = Done m \<Longrightarrow> km_pins m = km_pins mm" for sds mm m
  proof (induction sds arbitrary: mm)
    case (Cons sd sds)
    then show ?case by (auto simp: k_list_del_def split: if_splits prod.splits)
  qed simp
  then show "k_mem_release hash mm = Done (ret, mm') \<Longrightarrow> km_pins mm' = km_pins mm"
    by (auto simp: k_mem_release_def outcome_simps)
qed

end
