(* ===== verification/K_State.thy ===== *)
theory K_State
  imports Iw_Util Iw_State K_Cq K_Mem
begin

text \<open>
  The state of the kernel module (\<open>kiwarp/iwsk.h\<close>, \<open>kiwarp/priv.h\<close>), its accessors (\<open>kiwarp/iwsk.c\<close>), and
  what it uses of the kernel: files and their reference counts, sockets, memory allocation, the memory of the
  process. The spin locks are taken and given back inside each accessor and have no part in the model. The
  loops around \<open>kernel_recvmsg\<close> and \<open>kernel_sendmsg\<close> (\<open>kiwarp/util.c\<close>) come last.

  Everything the kernel decides is a field of the state: the answers of \<open>kmalloc\<close> (an address or none, none
  when the list is used up), how much each transfer moves, what \<open>poll\<close> says, which file a descriptor names,
  the page table, and what memory holds that was allocated and not written (\<open>k_junk\<close>).
\<close>

section \<open>Sockets\<close>

record k_mpa_sk_ent =
  km_use_crc :: u32
  km_use_mrkr :: u32
  km_recv_mp :: u32
  km_send_mp :: u32
  km_recv_sp :: u32
  km_send_sp :: u32

record k_ddp_sk_ent =
  kd_recv_msn :: u32
  kd_send_msn :: u32
  kd_sgmnt_len :: u32
  kd_outst_tag :: "ddp_tag_msg list"
  kd_outst_untag :: "ddp_untag_msg list"

text \<open>A receive buffer of the user, with the tag it was posted under.\<close>

record k_recv_buf =
  rb_id :: u64
  rb_ubuf :: u64
  rb_sd :: k_stag_desc
  rb_len :: u64

text \<open>
  The entries of the queues for read requests and terminate messages hold the message. They are freed without
  being taken off their queue: such an entry is \<open>None\<close>.
\<close>

record k_rdmap_sk_ent =
  kq_send :: "k_recv_buf list"
  kq_rdmareq :: "u8 list option list"
  kq_term :: "u8 list option list"
  kq_rwrq :: "rdmap_tag_wrd list"
  kq_sink_msn :: u32

record k_iwsk =
  kx_valid :: bool
  kx_filp :: u64
  kx_scq :: u64
  kx_rcq :: u64
  kx_rdmapsk :: k_rdmap_sk_ent
  kx_ddpsk :: k_ddp_sk_ent
  kx_mpask :: k_mpa_sk_ent

definition k_iwsk_get_state :: "k_iwsk \<Rightarrow> bool" where
  "k_iwsk_get_state s = kx_valid s"

definition k_iwsk_set_state :: "bool \<Rightarrow> k_iwsk \<Rightarrow> k_iwsk" where
  "k_iwsk_set_state st s = s\<lparr>kx_valid := st\<rparr>"

definition k_iwsk_inc_rdmapsk_sink_msn :: "k_iwsk \<Rightarrow> k_iwsk" where
  "k_iwsk_inc_rdmapsk_sink_msn s = s\<lparr>kx_rdmapsk := (kx_rdmapsk s)\<lparr>kq_sink_msn := kq_sink_msn (kx_rdmapsk s) + 1\<rparr>\<rparr>"

definition k_iwsk_inc_ddpsk_recv_msn :: "k_iwsk \<Rightarrow> k_iwsk" where
  "k_iwsk_inc_ddpsk_recv_msn s = s\<lparr>kx_ddpsk := (kx_ddpsk s)\<lparr>kd_recv_msn := kd_recv_msn (kx_ddpsk s) + 1\<rparr>\<rparr>"

definition k_iwsk_get_ddpsk_recv_msn :: "k_iwsk \<Rightarrow> u32" where
  "k_iwsk_get_ddpsk_recv_msn s = kd_recv_msn (kx_ddpsk s)"

definition k_iwsk_inc_ddpsk_send_msn :: "k_iwsk \<Rightarrow> k_iwsk" where
  "k_iwsk_inc_ddpsk_send_msn s = s\<lparr>kx_ddpsk := (kx_ddpsk s)\<lparr>kd_send_msn := kd_send_msn (kx_ddpsk s) + 1\<rparr>\<rparr>"

definition k_iwsk_get_ddpsk_send_msn :: "k_iwsk \<Rightarrow> u32" where
  "k_iwsk_get_ddpsk_send_msn s = kd_send_msn (kx_ddpsk s)"

definition k_iwsk_set_mpask_crc :: "u32 \<Rightarrow> k_iwsk \<Rightarrow> k_iwsk" where
  "k_iwsk_set_mpask_crc c s = s\<lparr>kx_mpask := (kx_mpask s)\<lparr>km_use_crc := c\<rparr>\<rparr>"

definition k_iwsk_set_mpask_mrkr :: "u32 \<Rightarrow> k_iwsk \<Rightarrow> k_iwsk" where
  "k_iwsk_set_mpask_mrkr m s = s\<lparr>kx_mpask := (kx_mpask s)\<lparr>km_use_mrkr := m\<rparr>\<rparr>"

definition k_iwsk_set_mpask_crc_mrkr :: "u32 \<Rightarrow> u32 \<Rightarrow> k_iwsk \<Rightarrow> k_iwsk" where
  "k_iwsk_set_mpask_crc_mrkr c m s = s\<lparr>kx_mpask := (kx_mpask s)\<lparr>km_use_crc := c, km_use_mrkr := m\<rparr>\<rparr>"

definition k_iwsk_get_mpask_recv_sp :: "k_iwsk \<Rightarrow> u32" where
  "k_iwsk_get_mpask_recv_sp s = km_recv_sp (kx_mpask s)"

definition k_iwsk_add_mpask_recv_sp :: "u32 \<Rightarrow> k_iwsk \<Rightarrow> k_iwsk" where
  "k_iwsk_add_mpask_recv_sp d s = s\<lparr>kx_mpask := (kx_mpask s)\<lparr>km_recv_sp := km_recv_sp (kx_mpask s) + d\<rparr>\<rparr>"

definition k_iwsk_get_mpask_send_sp :: "k_iwsk \<Rightarrow> u32" where
  "k_iwsk_get_mpask_send_sp s = km_send_sp (kx_mpask s)"

definition k_iwsk_add_mpask_send_sp :: "u32 \<Rightarrow> k_iwsk \<Rightarrow> k_iwsk" where
  "k_iwsk_add_mpask_send_sp d s = s\<lparr>kx_mpask := (kx_mpask s)\<lparr>km_send_sp := km_send_sp (kx_mpask s) + d\<rparr>\<rparr>"

section \<open>The context of a user and the kernel\<close>

record user_context =
  uc_cq :: cq_ctx
  uc_fdhash :: "k_iwsk k_ht"
  uc_mm :: k_mem_manager
  uc_tgid :: int

record k_conn =
  kc_rx :: "u8 list"
  kc_tx :: "u8 list"
  kc_rd :: "int list"
  kc_wr :: "int list"
  kc_poll :: "u32 list"

record k_file =
  kf_sock :: bool
  kf_stream :: bool

record kworld =
  k_uc :: user_context
  k_hash :: "u64 \<Rightarrow> nat \<Rightarrow> nat"
  k_frames :: "nat \<Rightarrow> nat \<Rightarrow> u8"
  k_pt :: "u64 \<Rightarrow> nat option"
  k_gup :: "int list list"
  k_fds :: "u32 \<Rightarrow> u64 option"
  k_files :: "u64 \<Rightarrow> k_file"
  k_refs :: "u64 \<Rightarrow> int"
  k_conns :: "u64 \<Rightarrow> k_conn"
  k_mallocs :: "u64 option list"
  k_junk :: "nat \<Rightarrow> u8"
  k_junk_cqe :: cqe

definition kmalloc :: "kworld \<Rightarrow> u64 option \<times> kworld" where
  "kmalloc w = (case k_mallocs w of [] \<Rightarrow> (None, w) | a # as \<Rightarrow> (a, w\<lparr>k_mallocs := as\<rparr>))"

definition fget :: "u32 \<Rightarrow> kworld \<Rightarrow> u64 option \<times> kworld" where
  "fget fd w = (case k_fds w fd of None \<Rightarrow> (None, w) | Some f \<Rightarrow> (Some f, w\<lparr>k_refs := (k_refs w)(f := k_refs w f + 1)\<rparr>))"

definition fput :: "u64 \<Rightarrow> kworld \<Rightarrow> kworld" where
  "fput f w = w\<lparr>k_refs := (k_refs w)(f := k_refs w f - 1)\<rparr>"

text \<open>
  The memory of the process, through its page table. \<open>copy_to_user\<close> stops at the first byte that is not
  mapped.
\<close>

fun copy_from_user :: "u64 \<Rightarrow> nat \<Rightarrow> kworld \<Rightarrow> u8 list option" where
  "copy_from_user a 0 w = Some []"
| "copy_from_user a (Suc n) w =
     (case user_place (k_pt w) a of
        None \<Rightarrow> None
      | Some (pg, off) \<Rightarrow> map_option ((#) (k_frames w pg off)) (copy_from_user (a + 1) n w))"

definition set_frame :: "nat \<Rightarrow> nat \<Rightarrow> u8 \<Rightarrow> kworld \<Rightarrow> kworld" where
  "set_frame pg off b w = w\<lparr>k_frames := (k_frames w)(pg := (k_frames w pg)(off := b))\<rparr>"

fun copy_to_user :: "u64 \<Rightarrow> u8 list \<Rightarrow> kworld \<Rightarrow> bool \<times> kworld" where
  "copy_to_user a [] w = (True, w)"
| "copy_to_user a (b # bs) w =
     (case user_place (k_pt w) a of
        None \<Rightarrow> (False, w)
      | Some (pg, off) \<Rightarrow> copy_to_user (a + 1) bs (set_frame pg off b w))"

definition set_uc :: "user_context \<Rightarrow> kworld \<Rightarrow> kworld" where
  "set_uc u w = w\<lparr>k_uc := u\<rparr>"

definition set_kconn :: "u64 \<Rightarrow> k_conn \<Rightarrow> kworld \<Rightarrow> kworld" where
  "set_kconn f c w = w\<lparr>k_conns := (k_conns w)(f := c)\<rparr>"

text \<open>A store through a pointer to a socket structure in the table.\<close>

definition k_iwsk_store :: "k_iwsk \<Rightarrow> kworld \<Rightarrow> kworld" where
  "k_iwsk_store s w = (let u = k_uc w; t = uc_fdhash u in set_uc (u\<lparr>uc_fdhash := t\<lparr>kh_htab :=
     map (map (\<lambda>(k, v). if k = kx_filp s then (k, s) else (k, v))) (kh_htab t)\<rparr>\<rparr>) w)"

definition k_iwsk_lookup :: "u64 \<Rightarrow> kworld \<Rightarrow> int \<times> k_iwsk option" where
  "k_iwsk_lookup filp w = k_ht_lookup (k_hash w) (uc_fdhash (k_uc w)) filp"

text \<open>\<open>cq_produce\<close> and \<open>cq_consume\<close> through a pointer; a queue that is gone is freed memory.\<close>

definition k_produce :: "u64 \<Rightarrow> cqe \<Rightarrow> kworld \<Rightarrow> (int \<times> kworld) outcome" where
  "k_produce h e w =
     (case k_cq_lookup h (uc_cq (k_uc w)) of
        None \<Rightarrow> Exit
      | Some q \<Rightarrow> let (ret, q) = k_cq_produce e q
                  in Done (ret, set_uc ((k_uc w)\<lparr>uc_cq := k_cq_store q (uc_cq (k_uc w))\<rparr>) w))"

definition k_consume :: "u64 \<Rightarrow> kworld \<Rightarrow> (int \<times> cqe option \<times> kworld) outcome" where
  "k_consume h w =
     (case k_cq_lookup h (uc_cq (k_uc w)) of
        None \<Rightarrow> Exit
      | Some q \<Rightarrow> let (ret, e, q) = k_cq_consume q
                  in Done (ret, e, set_uc ((k_uc w)\<lparr>uc_cq := k_cq_store q (uc_cq (k_uc w))\<rparr>) w))"

section \<open>Full transfers\<close>

text \<open>
  \<open>kernel_recvmsg_full\<close>: the value returned, the bytes that came, those still to come, the answers left. A
  call that finds the end of the stream returns 0, and so does the function.
\<close>

function recvmsg_full :: "int list \<Rightarrow> int \<Rightarrow> u8 list \<Rightarrow> int \<times> u8 list \<times> u8 list \<times> int list" where
  "recvmsg_full ans len inp =
     (if len \<le> 0 then (0, [], inp, ans)
      else case sys_count ans (nat len) (length inp) of
        SysErr \<Rightarrow> (hd ans, [], inp, tl ans)
      | Moved cc \<Rightarrow>
          if cc = 0 then (0, [], inp, tl ans)
          else let (ret, bs, inp', ans') = recvmsg_full (tl ans) (len - int cc) (drop cc inp)
               in (ret, take cc inp @ bs, inp', ans'))"
  by pat_completeness auto

termination by (relation "measure (\<lambda>(ans, len, inp). nat len)") auto

text \<open>
  \<open>kernel_sendmsg_full\<close>, by the blocks that are left. After a call that did not send all, the rest of the block
  it stopped in goes with a call of its own, and all of that rest is counted as sent.
\<close>

function sendmsg_full :: "int list \<Rightarrow> u8 list list \<Rightarrow> nat \<Rightarrow> (int \<times> u8 list \<times> int list) outcome" where
  "sendmsg_full ans vec len =
     (if len = 0 then Done (0, [], ans)
      else case sys_count ans len (length (concat vec)) of
        SysErr \<Rightarrow> Done (hd ans, [], tl ans)
      | Moved cc \<Rightarrow>
          let out = take cc (concat vec)
          in if len = cc then Done (0, out, tl ans)
             else let (k, c) = iov_skip (map length vec) cc
             in if k \<ge> length vec then Exit
                else let res = drop c (vec ! k)
                     in case sys_count (tl ans) (length res) (length res) of
                          SysErr \<Rightarrow> Done (hd (tl ans), out, tl (tl ans))
                        | Moved cc' \<Rightarrow>
                            if length res > len - cc then Exit
                            else bindO (sendmsg_full (tl (tl ans)) (drop (Suc k) vec) (len - cc - length res)) (\<lambda>(ret, bs, ans').
                                   Done (ret, out @ take cc' res @ bs, ans')))"
  by pat_completeness auto

termination by (relation "measure (\<lambda>(ans, vec, len). length vec)") auto

declare recvmsg_full.simps [simp del] sendmsg_full.simps [simp del]

definition kernel_recvmsg_full :: "u64 \<Rightarrow> int \<Rightarrow> kworld \<Rightarrow> int \<times> u8 list \<times> kworld" where
  "kernel_recvmsg_full filp len w =
     (let c = k_conns w filp; (ret, bs, inp, ans) = recvmsg_full (kc_rd c) len (kc_rx c)
      in (ret, bs, set_kconn filp (c\<lparr>kc_rx := inp, kc_rd := ans\<rparr>) w))"

definition kernel_sendmsg_full :: "u64 \<Rightarrow> u8 list list \<Rightarrow> nat \<Rightarrow> kworld \<Rightarrow> (int \<times> kworld) outcome" where
  "kernel_sendmsg_full filp vec len w =
     (let c = k_conns w filp
      in bindO (sendmsg_full (kc_wr c) vec len) (\<lambda>(ret, out, ans).
           Done (ret, set_kconn filp (c\<lparr>kc_tx := kc_tx c @ out, kc_wr := ans\<rparr>) w)))"

section \<open>Transfers\<close>

lemma recvmsg_full_split:
  assumes "recvmsg_full ans len inp = (ret, bs, inp', ans')"
  shows "inp = bs @ inp' \<and> int (length bs) \<le> max 0 len \<and> (ret < 0 \<or> ret = 0 \<and> (int (length bs) = max 0 len \<or> inp' = []))"
  using assms
proof (induction ans len inp arbitrary: ret bs inp' ans' rule: recvmsg_full.induct)
  case (1 ans len inp)
  show ?case
  proof (cases "len \<le> 0")
    case True
    with 1(2) show ?thesis by (simp add: recvmsg_full.simps [of ans len inp])
  next
    case False
    show ?thesis
    proof (cases "sys_count ans (nat len) (length inp)")
      case SysErr
      with False 1(2) show ?thesis
        by (auto simp: recvmsg_full.simps [of ans len inp] sys_count_def split: list.splits if_splits)
    next
      case (Moved cc)
      then have cc: "cc \<le> nat len" "cc \<le> length inp" "cc = 0 \<longrightarrow> inp = []"
        using False by (auto simp: sys_count_def min_def split: list.splits if_splits)
      show ?thesis
      proof (cases "cc = 0")
        case True
        with False Moved have "recvmsg_full ans len inp = (0, [], inp, tl ans)" by (subst recvmsg_full.simps) simp
        with True cc 1(2) show ?thesis by simp
      next
        case pos: False
        obtain bs1 where r: "recvmsg_full (tl ans) (len - int cc) (drop cc inp) = (ret, bs1, inp', ans')" "bs = take cc inp @ bs1"
          using False Moved pos 1(2) by (auto simp: recvmsg_full.simps [of ans len inp] split: prod.splits)
        from 1(1) [OF False Moved pos r(1)] cc have
          "drop cc inp = bs1 @ inp'" "int (length bs1) \<le> max 0 (len - int cc)"
          "ret < 0 \<or> ret = 0 \<and> (int (length bs1) = max 0 (len - int cc) \<or> inp' = [])" by auto
        moreover have "inp = take cc inp @ drop cc inp" by simp
        ultimately show ?thesis using r(2) cc False by auto
      qed
    qed
  qed
qed

lemma recvmsg_full_ok:
  assumes "no_errors ans" "0 \<le> len" "len \<le> int (length inp)"
  shows "\<exists>ans'. recvmsg_full ans len inp = (0, take (nat len) inp, drop (nat len) inp, ans') \<and> no_errors ans'"
  using assms
proof (induction ans len inp rule: recvmsg_full.induct)
  case (1 ans len inp)
  show ?case
  proof (cases "len \<le> 0")
    case True
    with 1(2-4) show ?thesis by (subst recvmsg_full.simps) simp
  next
    case False
    obtain cc where m: "sys_count ans (nat len) (length inp) = Moved cc" "0 < cc" "cc \<le> nat len"
      using sys_count_Moved [OF 1(2), of "nat len" "length inp"] 1(3,4) False by auto
    have "int cc \<le> len" "len - int cc \<le> int (length (drop cc inp))" using m(3) 1(3,4) by auto
    with 1(1) [OF False m(1)] m 1(2-4) no_errors_tl [OF 1(2)] obtain ans' where
      "recvmsg_full (tl ans) (len - int cc) (drop cc inp) = (0, take (nat (len - int cc)) (drop cc inp), drop (nat (len - int cc)) (drop cc inp), ans')"
      "no_errors ans'"
      by (auto simp del: drop_drop)
    moreover have "nat len = cc + nat (len - int cc)" using m(3) by simp
    ultimately show ?thesis
      using False m by (subst recvmsg_full.simps) (simp add: take_add drop_drop add.commute)
  qed
qed

text \<open>When every call sends all it is given, the vector goes out as it is.\<close>

lemma sendmsg_full_whole:
  assumes "ans = []" "len = length (concat vec)"
  shows "sendmsg_full ans vec len = Done (0, concat vec, [])"
  using assms by (subst sendmsg_full.simps) (simp add: sys_count_def)

text \<open>Short calls lose bytes: the call for the rest of a block may send less than it is given, and 0 is returned.\<close>

lemma sendmsg_full_loses: "sendmsg_full [1, 1, 1] [[1, 2, 3, 4]] 4 = Done (0, [1, 2], [1])"
  by (simp add: sendmsg_full.simps sys_count_def)

end
