(* ===== verification/K_Mpa.thy ===== *)
theory K_Mpa
  imports K_State K_Crc32c Iw_Ddp
begin

text \<open>
  MPA in the kernel module (\<open>kiwarp/mpa.c\<close>), sending side and start-up. Frames without markers only: the
  module refuses to send with markers. The frame is put together from blocks in an array that has room for
  the header, the blocks of the payload and one more; an access past it is \<open>Exit\<close>.
\<close>

section \<open>Sizes\<close>

text \<open>The variables that \<open>mpa_open\<close> sets and nothing changes afterwards.\<close>

record k_mpa_globals =
  kg_mss :: u32
  kg_fpdu_len :: u32
  kg_max_chunks :: u32
  kg_max_blks :: u32
  kg_max_mrkrs :: u32
  kg_max_hdr_sz :: u32

definition k_mpa_open :: "int \<times> k_mpa_globals" where
  "k_mpa_open =
     (let mss = 65536 - 60 - 60; mss = mss - 8; fpdu_len = mss; max_chunks = (fpdu_len + 512 - 1) div 512
      in (0, \<lparr>kg_mss = mss, kg_fpdu_len = fpdu_len, kg_max_chunks = max_chunks,
              kg_max_blks = (2 * max_chunks + 1) + (1 + 1) + (1 + 1) + 1, kg_max_mrkrs = max_chunks + 1 + 1,
              kg_max_hdr_sz = of_nat ddp_get_max_hdr_sz\<rparr>))"

definition K_MAX_BLKS :: nat where
  "K_MAX_BLKS = unat (kg_max_blks (snd k_mpa_open))"

definition K_MAX_HDR_SZ :: nat where
  "K_MAX_HDR_SZ = unat (kg_max_hdr_sz (snd k_mpa_open))"

definition k_mpa_register_sock :: "k_iwsk \<Rightarrow> int \<times> k_iwsk" where
  "k_mpa_register_sock s = (0, s\<lparr>kx_mpask := \<lparr>km_use_crc = 0, km_use_mrkr = 0, km_recv_mp = 0, km_send_mp = 0,
     km_recv_sp = 0, km_send_sp = 0\<rparr>\<rparr>)"

definition k_mpa_deregister_sock :: "k_iwsk \<Rightarrow> k_iwsk" where
  "k_mpa_deregister_sock s = s"

section \<open>The start-up exchange\<close>

text \<open>
  The frame is built, and the peer's read, in one buffer of 20 bytes and the length of the private data that
  goes out. \<open>mpa_send_rrf\<close>: the value returned, the buffer.
\<close>

definition k_mpa_send_rrf :: "u8 list \<Rightarrow> u64 \<Rightarrow> u16 \<Rightarrow> u8 list \<Rightarrow> k_iwsk \<Rightarrow> kworld \<Rightarrow> (int \<times> u8 list \<times> kworld) outcome" where
  "k_mpa_send_rrf rrf pd_in len_in key s w =
     (let cntl = 0;
          cntl = (if km_use_crc (kx_mpask s) \<noteq> 0 then mpa_set_C cntl else cntl);
          cntl = (if km_use_mrkr (kx_mpask s) \<noteq> 0 then mpa_set_M cntl else cntl);
          cntl = mpa_set_PD_Length (mpa_set_Rev (mpa_set_Res (mpa_unset_R cntl)) 0) len_in;
          rrf = put (put rrf 0 key) 16 (le32 cntl)
      in case copy_from_user pd_in (unat len_in) w of
           None \<Rightarrow> Done (- EFAULT, rrf, w)
         | Some pd \<Rightarrow>
             let rrf = put rrf 20 pd; off = 20 + unat len_in
             in bindO (kernel_sendmsg_full (kx_filp s) [take off rrf] off w) (\<lambda>(ret, w). Done (ret, rrf, w)))"

text \<open>\<open>mpa_recv_rrf\<close>: the value returned, the control word, the buffer. The peer says how long its data is.\<close>

definition k_mpa_recv_rrf :: "u8 list \<Rightarrow> u64 \<Rightarrow> u16 \<Rightarrow> u8 list \<Rightarrow> k_iwsk \<Rightarrow> kworld \<Rightarrow> (int \<times> u32 \<times> u8 list \<times> kworld) outcome" where
  "k_mpa_recv_rrf rrf pd_out len_out key s w =
     (let (ret, bs, w) = kernel_recvmsg_full (kx_filp s) 20 w; rrf = put rrf 0 bs
      in if ret \<noteq> 0 then Done (ret, 0, rrf, w)
         else let cntl = of_le (take 4 (drop 16 rrf)); pd_len = mpa_get_PD_Length cntl
              in if pd_len > len_out \<or> take 16 rrf \<noteq> key then Done (- EINVAL, cntl, rrf, w)
                 else let (ret, bs, w) = kernel_recvmsg_full (kx_filp s) (int (unat pd_len)) w
                      in if 20 + length bs > length rrf then Exit
                         else let rrf = put rrf 20 bs
                              in if ret \<noteq> 0 then Done (ret, cntl, rrf, w)
                                 else if 20 + unat pd_len > length rrf then Exit
                                 else let (ok, w) = copy_to_user pd_out (take (unat pd_len) (drop 20 rrf)) w
                                      in Done (if ok then 0 else - EFAULT, cntl, rrf, w))"

definition k_mpa_init_startup :: "bool \<Rightarrow> u64 \<Rightarrow> u16 \<Rightarrow> u64 \<Rightarrow> u16 \<Rightarrow> k_iwsk \<Rightarrow> kworld \<Rightarrow> (int \<times> k_iwsk \<times> kworld) outcome" where
  "k_mpa_init_startup is_initiator pd_in len_in pd_out len_out s w =
     (if pd_in = 0 \<or> pd_out = 0 then Done (- EINVAL, s, w)
      else case kmalloc w of
        (None, w) \<Rightarrow> Done (- ENOMEM, s, w)
      | (Some _, w) \<Rightarrow>
          let rrf = map (k_junk w) [0..<20 + unat len_in]
          in if is_initiator then
               bindO (k_mpa_send_rrf rrf pd_in len_in MPA_REQ_KEY s w) (\<lambda>(ret, rrf, w).
                 if ret \<noteq> 0 then Done (ret, s, w)
                 else bindO (k_mpa_recv_rrf rrf pd_out len_out MPA_REP_KEY s w) (\<lambda>(ret, cntl, rrf, w).
                   if ret \<noteq> 0 then Done (ret, s, w)
                   else Done (ret, s\<lparr>kx_mpask := (kx_mpask s)\<lparr>km_use_mrkr := mpa_get_M cntl, km_use_crc := mpa_get_C cntl\<rparr>\<rparr>, w)))
             else
               bindO (k_mpa_recv_rrf rrf pd_out len_out MPA_REQ_KEY s w) (\<lambda>(ret, cntl, rrf, w).
                 if ret \<noteq> 0 then Done (ret, s, w)
                 else if km_use_mrkr (kx_mpask s) \<noteq> 0 \<and> mpa_get_M cntl = 0 then Done (- EBADMSG, s, w)
                 else
                   let s = (if km_use_mrkr (kx_mpask s) = 0
                            then s\<lparr>kx_mpask := (kx_mpask s)\<lparr>km_use_mrkr := mpa_get_M cntl\<rparr>\<rparr> else s)
                   in if km_use_crc (kx_mpask s) \<noteq> 0 \<and> mpa_get_C cntl = 0 then Done (- EBADMSG, s, w)
                      else
                        let s = (if km_use_crc (kx_mpask s) = 0
                                 then s\<lparr>kx_mpask := (kx_mpask s)\<lparr>km_use_crc := mpa_get_C cntl\<rparr>\<rparr> else s)
                        in bindO (k_mpa_send_rrf rrf pd_in len_in MPA_REP_KEY s w) (\<lambda>(ret, rrf, w). Done (ret, s, w))))"

section \<open>Sending\<close>

text \<open>
  \<open>mpa_fill_blk\<close> and \<open>mpa_fill_blkv\<close> append blocks and count their bytes. A block is the bytes it points to:
  they are read before anything else happens.
\<close>

definition k_mpa_fill_blk :: "u8 list \<Rightarrow> u8 list list \<times> u32 \<Rightarrow> u8 list list \<times> u32" where
  "k_mpa_fill_blk p bc = (let (blks, cp) = bc in (blks @ [p], cp + of_nat (length p)))"

fun k_mpa_fill_blkv :: "u8 list list \<Rightarrow> u8 list list \<times> u32 \<Rightarrow> u8 list list \<times> u32" where
  "k_mpa_fill_blkv [] bc = bc"
| "k_mpa_fill_blkv (p # ps) bc = (let (blks, cp) = bc in k_mpa_fill_blkv ps (blks @ [p], cp + of_nat (length p)))"

definition k_mpa_send_plain_fpdu :: "u8 list \<Rightarrow> u8 list list \<Rightarrow> u32 \<Rightarrow> k_iwsk \<Rightarrow> kworld \<Rightarrow> (int \<times> k_iwsk \<times> kworld) outcome" where
  "k_mpa_send_plain_fpdu ddp_hdr ddp_payldv ddp_payld_len s w =
     (let len = (ucast (ddp_payld_len + of_nat (length ddp_hdr)) :: u16);
          pad = mpa_pad (unat len);
          fpdu_len = unat len + pad
      in case kmalloc w of
           (None, w) \<Rightarrow> Done (- ENOMEM, s, w)
         | (Some _, w) \<Rightarrow>
             let ddp_hdr = mpa_put_len ddp_hdr len;
                 bc = k_mpa_fill_blkv ddp_payldv (k_mpa_fill_blk ddp_hdr ([], 0));
                 bc = (if pad \<noteq> 0 then k_mpa_fill_blk (replicate pad 0) bc else bc);
                 crc = (if km_use_crc (kx_mpask s) \<noteq> 0
                        then bindO (k_crc32c_vec (fst bc)) (\<lambda>crc.
                               Done (k_mpa_fill_blk (le32 (htonl crc)) bc, fpdu_len + CRC_SZ))
                        else Done (bc, fpdu_len))
             in bindO crc (\<lambda>(bc, fpdu_len).
                  if length (fst bc) > length ddp_payldv + 2 then Exit
                  else bindO (kernel_sendmsg_full (kx_filp s) (fst bc) fpdu_len w) (\<lambda>(ret, w).
                         Done (ret, if ret \<noteq> 0 then k_iwsk_add_mpask_send_sp (snd bc) s else s, w))))"

definition k_mpa_send :: "u8 list \<Rightarrow> u8 list list \<Rightarrow> u32 \<Rightarrow> k_iwsk \<Rightarrow> kworld \<Rightarrow> (int \<times> k_iwsk \<times> kworld) outcome" where
  "k_mpa_send ddp_hdr ddp_payldv ddp_payld_len s w =
     (if km_use_mrkr (kx_mpask s) \<noteq> 0 then Done (- ENOSYS, s, w)
      else k_mpa_send_plain_fpdu ddp_hdr ddp_payldv ddp_payld_len s w)"

section \<open>The frame\<close>

lemma k_mpa_fill_blk_eq [simp]: "k_mpa_fill_blk p (blks, cp) = (blks @ [p], cp + of_nat (length p))"
  by (simp add: k_mpa_fill_blk_def)

lemma k_mpa_fill_blkv_eq: "k_mpa_fill_blkv ps (blks, cp) = (blks @ ps, cp + of_nat (length (concat ps)))"
  by (induction ps arbitrary: blks cp) (simp_all add: add_ac)

end
