(* ===== verification/K_Ddp.thy ===== *)
theory K_Ddp
  imports K_Mpa
begin

text \<open>
  DDP in the kernel module (\<open>kiwarp/ddp.c\<close>), sending side. The bytes of a message are in the pages of a
  region of the process, or in memory of the module for the messages it makes up itself. A segment goes out
  from at most five pieces of pages.
\<close>

section \<open>Registration\<close>

definition DDP_SEGLEN :: u32 where "DDP_SEGLEN = 1444"

definition k_ddp_open :: "int \<times> k_mpa_globals" where
  "k_ddp_open = k_mpa_open"

definition k_ddp_register_sock :: "k_iwsk \<Rightarrow> int \<times> k_iwsk" where
  "k_ddp_register_sock s = k_mpa_register_sock (s\<lparr>kx_ddpsk := \<lparr>kd_recv_msn = 1, kd_send_msn = 1,
     kd_sgmnt_len = DDP_SEGLEN, kd_outst_tag = [], kd_outst_untag = []\<rparr>\<rparr>)"

text \<open>The entries are freed with the lists; the structure they hang off goes next.\<close>

definition k_ddp_deregister_sock :: "k_iwsk \<Rightarrow> k_iwsk" where
  "k_ddp_deregister_sock s =
     (let s = k_mpa_deregister_sock s
      in s\<lparr>kx_ddpsk := (kx_ddpsk s)\<lparr>kd_outst_tag := [], kd_outst_untag := []\<rparr>\<rparr>)"

definition k_ddp_get_max_hdr_sz :: nat where
  "k_ddp_get_max_hdr_sz = ddp_get_max_hdr_sz"

definition k_ddp_get_hdr_sz :: "u8 list \<Rightarrow> nat" where
  "k_ddp_get_hdr_sz b = (if ddp_is_TAGGED (b ! 2) then TAGGED_HDR_SZ else UNTAGGED_HDR_SZ)"

section \<open>Messages\<close>

text \<open>What a piece of a page holds.\<close>

definition piece_bytes :: "(nat \<Rightarrow> nat \<Rightarrow> u8) \<Rightarrow> pvec \<Rightarrow> u8 list" where
  "piece_bytes frames p = (case p of (pg, off, n) \<Rightarrow> map (\<lambda>i. frames pg (off + i)) [0..<n])"

text \<open>A message: bytes of the module (\<open>sd\<close> is null), or an address of the process with its tag.\<close>

datatype k_msg = KMsg "u8 list" | UMsg k_stag_desc u64

text \<open>The vector for \<open>len\<close> bytes at offset \<open>mo\<close>, and the unmapping after they are sent.\<close>

definition k_msg_vec :: "k_msg \<Rightarrow> u16 \<Rightarrow> u32 \<Rightarrow> kworld \<Rightarrow> (int \<times> u8 list list) outcome" where
  "k_msg_vec msg len mo w =
     (case msg of
        KMsg bs \<Rightarrow> if unat mo + unat len > length bs then Exit else Done (0, [take (unat len) (drop (unat mo) bs)])
      | UMsg sd ubuf \<Rightarrow>
          bindO (k_mem_fill_iovec ubuf (int (unat len)) mo sd 5 0 (uc_mm (k_uc w))) (\<lambda>(ret, v).
            Done (ret, map (piece_bytes (k_frames w)) v)))"

definition k_msg_unmap :: "k_msg \<Rightarrow> u16 \<Rightarrow> u32 \<Rightarrow> kworld \<Rightarrow> unit outcome" where
  "k_msg_unmap msg len mo w =
     (case msg of
        KMsg bs \<Rightarrow> Done ()
      | UMsg sd ubuf \<Rightarrow> bindO (k_mem_unmap_iovec ubuf (int (unat len)) mo sd (uc_mm (k_uc w))) (\<lambda>_. Done ()))"

section \<open>Untagged messages\<close>

text \<open>The loop, by the number of segments still to go and the value the last call returned.\<close>

fun k_utm_loop :: "nat \<Rightarrow> k_msg \<Rightarrow> u32 \<Rightarrow> ddp_untagged_hdr \<Rightarrow> u16 \<Rightarrow> u32 \<Rightarrow> int \<Rightarrow> k_iwsk \<Rightarrow> kworld
    \<Rightarrow> (int \<times> k_iwsk \<times> kworld) outcome" where
  "k_utm_loop 0 msg msg_len h len mo ret s w = Done (ret, s, w)"
| "k_utm_loop (Suc n) msg msg_len h len mo ret s w =
     (let h = h\<lparr>uh_mo := htonl mo\<rparr>;
          (h, len) = (if n = 0 then (h\<lparr>uh_cf := ddp_set_LAST (uh_cf h)\<rparr>, ucast (msg_len - mo)) else (h, len))
      in bindO (k_msg_vec msg len mo w) (\<lambda>(ret, v).
           if ret < 0 then Done (ret, s, w)
           else bindO (k_mpa_send (untagged_bytes h) v (ucast len) s w) (\<lambda>(ret, s, w).
                  bindO (k_msg_unmap msg len mo w) (\<lambda>_.
                    if ret < 0 then Done (ret, s, w)
                    else k_utm_loop n msg msg_len h len (mo + ucast len) ret s w))))"

definition k_ddp_send_utm :: "k_msg \<Rightarrow> u32 \<Rightarrow> u32 \<Rightarrow> u8 \<Rightarrow> u32 \<Rightarrow> k_iwsk \<Rightarrow> kworld \<Rightarrow> (int \<times> k_iwsk \<times> kworld) outcome" where
  "k_ddp_send_utm msg msg_len qn ulp_ctrl ulp_payld s w =
     (let h = \<lparr>uh_llp_hdr = 0, uh_cf = DDP_CF_DV, uh_ulp_ctrl = ulp_ctrl, uh_ulp_payld = htonl ulp_payld,
               uh_qn = htonl qn, uh_msn = htonl (k_iwsk_get_ddpsk_send_msn s), uh_mo = 0\<rparr>;
          ddp_payld_len = (ucast (kd_sgmnt_len (kx_ddpsk s) - of_nat UNTAGGED_HDR_SZ) :: u16);
          P = (ucast ddp_payld_len :: u32)
      in if P = 0 then Exit
         else let num_sgmnts = (msg_len + P - 1) div P;
                  num_sgmnts = (if num_sgmnts = 0 then 1 else num_sgmnts)
              in bindO (k_utm_loop (nat (sint num_sgmnts)) msg msg_len h ddp_payld_len 0 0 s w) (\<lambda>(ret, s, w).
                   if ret < 0 then Done (ret, s, w) else Done (ret, k_iwsk_inc_ddpsk_send_msn s, w)))"

section \<open>Tagged messages\<close>

text \<open>
  The inner loop over the pages of a segment: the pieces and the new offset. A sixth piece is refused before
  the page is looked up; a page outside the region is undefined.
\<close>

function k_tm_fill :: "nat list \<Rightarrow> u64 \<Rightarrow> u64 \<Rightarrow> int \<Rightarrow> u32 \<Rightarrow> nat \<Rightarrow> (int \<times> pvec list \<times> u32) outcome" where
  "k_tm_fill pgs ms buf left mo numiov =
     (if left \<le> 0 then Done (0, [], mo)
      else let page_index = sint (ucast (drop_bit PAGE_SHIFT (buf + ucast mo) - ms) :: u32);
               page_offset = unat ((buf + ucast mo) AND NOT PAGE_MASK);
               page_avail = int (unat PAGE_SIZE) - int page_offset;
               numbytes = (if left > page_avail then page_avail else left)
           in if numiov = 5 then Done (- EOVERFLOW, [], mo)
              else if page_index < 0 \<or> nat page_index \<ge> length pgs then Exit
              else bindO (k_tm_fill pgs ms buf (left - numbytes) (mo + of_int numbytes) (Suc numiov)) (\<lambda>(ret, v, mo).
                     Done (ret, (pgs ! nat page_index, page_offset, nat numbytes) # v, mo)))"
  by pat_completeness auto

termination
proof (relation "measure (\<lambda>(pgs, ms, buf, left, mo, numiov). nat left)", simp)
  fix pgs :: "nat list" and ms buf :: u64 and left :: int and mo :: u32 and numiov :: nat and x xa xb xc
  assume a: "\<not> left \<le> 0" "xa = unat ((buf + ucast mo) AND NOT PAGE_MASK)" "xb = int (unat PAGE_SIZE) - int xa"
    "xc = (if left > xb then xb else left)"
  moreover from page_offset_less [of "buf + ucast mo"] have "int (unat ((buf + ucast mo) AND NOT PAGE_MASK)) < 4096"
    by linarith
  ultimately have "0 < xc" by auto
  with a(1) show "((pgs, ms, buf, left - xc, mo + of_int xc, Suc numiov), pgs, ms, buf, left, mo, numiov)
      \<in> measure (\<lambda>(pgs, ms, buf, left, mo, numiov). nat left)" by simp
qed

declare k_tm_fill.simps [simp del]

fun k_tm_loop :: "nat \<Rightarrow> nat list \<Rightarrow> u64 \<Rightarrow> u64 \<Rightarrow> u32 \<Rightarrow> u64 \<Rightarrow> ddp_tagged_hdr \<Rightarrow> u16 \<Rightarrow> u32 \<Rightarrow> int \<Rightarrow> k_iwsk \<Rightarrow> kworld
    \<Rightarrow> (int \<times> k_iwsk \<times> kworld) outcome" where
  "k_tm_loop 0 pgs ms buf msg_len sink_to h len mo ret s w = Done (ret, s, w)"
| "k_tm_loop (Suc n) pgs ms buf msg_len sink_to h len mo ret s w =
     (let h = h\<lparr>th_to := swab64 (sink_to + ucast mo)\<rparr>;
          (h, len) = (if n = 0 then (h\<lparr>th_cf := ddp_set_LAST (th_cf h)\<rparr>, ucast (msg_len - mo)) else (h, len))
      in bindO (k_tm_fill pgs ms buf (int (unat len)) mo 0) (\<lambda>(ret, v, mo).
           if ret < 0 then Done (ret, s, w)
           else bindO (k_mpa_send (tagged_bytes h) (map (piece_bytes (k_frames w)) v) (ucast len) s w) (\<lambda>(ret, s, w).
                  if ret < 0 then Done (ret, s, w)
                  else k_tm_loop n pgs ms buf msg_len sink_to h len mo ret s w)))"

definition k_ddp_send_tm :: "k_stag_desc \<Rightarrow> u64 \<Rightarrow> u32 \<Rightarrow> u8 \<Rightarrow> stag \<Rightarrow> u64 \<Rightarrow> k_iwsk \<Rightarrow> kworld \<Rightarrow> (int \<times> k_iwsk \<times> kworld) outcome" where
  "k_ddp_send_tm sd msg msg_len rsvdulp sink_stag sink_to s w =
     bindO (sd_region sd (uc_mm (k_uc w))) (\<lambda>mr.
       let ms = drop_bit PAGE_SHIFT (kr_start mr);
           h = \<lparr>th_llp_hdr = 0, th_cf = DDP_CF_TAGGED OR DDP_CF_DV, th_rsvdulp = rsvdulp, th_stag = htonl sink_stag, th_to = 0\<rparr>;
           ddp_payld_len = (ucast (kd_sgmnt_len (kx_ddpsk s) - of_nat TAGGED_HDR_SZ) :: u16);
           P = (ucast ddp_payld_len :: u32)
       in if P = 0 then Exit
          else let num_sgmnts = (msg_len + P - 1) div P;
                   num_sgmnts = (if num_sgmnts = 0 then 1 else num_sgmnts)
               in k_tm_loop (nat (sint num_sgmnts)) (take (kr_npages mr) (kr_page_list mr)) ms msg msg_len sink_to h
                    ddp_payld_len 0 0 s w)"

end
