(* ===== verification/K_Rdmap_Recv.thy ===== *)
theory K_Rdmap_Recv
  imports K_Ddp Iw_Ddp_Recv
begin

text \<open>
  The receiving side of RDMAP in the kernel module (\<open>kiwarp/rdmap.c\<close>), which DDP calls: the sink of a segment
  and the completion of a message. A receive buffer keeps a pointer to the structure of its tag; once the tag
  is destroyed that is freed memory. The entries made up for read requests and terminate messages are freed
  and stay linked (\<open>None\<close>), so that the queue is undefined from the second message on.
\<close>

section \<open>Operations and tables\<close>

definition TERMINATE :: u8 where "TERMINATE = 7"
definition K_OP_TERMINATE :: int where "K_OP_TERMINATE = 4"
definition K_OP_ERR :: int where "K_OP_ERR = 5"
definition RDMAP_SUCCESS :: int where "RDMAP_SUCCESS = 0"
definition RDMAP_TERMINATE :: int where "RDMAP_TERMINATE = 2"

lemmas k_rdmap_consts = TERMINATE_def K_OP_TERMINATE_def K_OP_ERR_def RDMAP_SUCCESS_def RDMAP_TERMINATE_def

text \<open>The tables that \<open>rdmap_open\<close> fills.\<close>

definition k_rdmap_acc :: "u32 list" where
  "k_rdmap_acc = [STAG_W, STAG_R, STAG_W, STAG_RW, STAG_RW, STAG_RW, STAG_RW, STAG_R]"

definition k_rdmap_sink_op :: "int list" where
  "k_rdmap_sink_op = [K_OP_ERR, K_OP_ERR, OP_RDMA_READ, OP_RECV, OP_RECV, OP_RECV, OP_RECV, K_OP_ERR]"

definition k_rdmap_src_op :: "int list" where
  "k_rdmap_src_op = [OP_RDMA_WRITE, K_OP_ERR, K_OP_ERR, OP_SEND, OP_SEND, OP_SEND, OP_SEND, K_OP_ERR]"

section \<open>Sinks\<close>

text \<open>
  Where a segment goes: a buffer of the process, or the entry at the tail of one of the other two queues,
  with its size.
\<close>

datatype k_sink = KUser k_recv_buf | KEntry u32 nat

definition k_rdmap_get_send_sink :: "u32 \<Rightarrow> k_iwsk \<Rightarrow> k_sink option" where
  "k_rdmap_get_send_sink msn s =
     (let q = kq_send (kx_rdmapsk s)
      in if q = [] then None
         else case sink_walk (unat (kq_sink_msn (kx_rdmapsk s) - msn)) q 0 of
                None \<Rightarrow> None
              | Some i \<Rightarrow> Some (KUser (q ! i)))"

text \<open>\<open>list_add_tail\<close> writes to the entry that was last.\<close>

definition k_add_entry :: "u8 list \<Rightarrow> u8 list option list \<Rightarrow> u8 list option list outcome" where
  "k_add_entry e q = (if q \<noteq> [] \<and> List.last q = None then Exit else Done (q @ [Some e]))"

definition k_rdmap_get_rrr_sink :: "k_iwsk \<Rightarrow> kworld \<Rightarrow> (k_sink option \<times> k_iwsk \<times> kworld) outcome" where
  "k_rdmap_get_rrr_sink s w =
     (case kmalloc w of
        (None, w) \<Rightarrow> Done (None, s, w)
      | (Some _, w) \<Rightarrow>
          case kmalloc w of
            (None, w) \<Rightarrow> Done (None, s, w)
          | (Some _, w) \<Rightarrow>
              bindO (k_add_entry (replicate 32 0) (kq_rdmareq (kx_rdmapsk s))) (\<lambda>q.
                Done (Some (KEntry RDMAREQ_Q 32), s\<lparr>kx_rdmapsk := (kx_rdmapsk s)\<lparr>kq_rdmareq := q\<rparr>\<rparr>, w)))"

definition k_rdmap_get_term_sink :: "k_iwsk \<Rightarrow> kworld \<Rightarrow> (k_sink option \<times> k_iwsk \<times> kworld) outcome" where
  "k_rdmap_get_term_sink s w =
     (case kmalloc w of
        (None, w) \<Rightarrow> Done (None, s, w)
      | (Some _, w) \<Rightarrow>
          case kmalloc w of
            (None, w) \<Rightarrow> Done (None, s, w)
          | (Some _, w) \<Rightarrow>
              bindO (k_add_entry (replicate 52 0) (kq_term (kx_rdmapsk s))) (\<lambda>q.
                Done (Some (KEntry TERM_Q 52), s\<lparr>kx_rdmapsk := (kx_rdmapsk s)\<lparr>kq_term := q\<rparr>\<rparr>, w)))"

definition k_rdmap_get_untag_sink :: "u32 \<Rightarrow> u32 \<Rightarrow> k_iwsk \<Rightarrow> kworld \<Rightarrow> (k_sink option \<times> k_iwsk \<times> kworld) outcome" where
  "k_rdmap_get_untag_sink qn msn s w =
     (if qn = SEND_Q then Done (k_rdmap_get_send_sink msn s, s, w)
      else if qn = RDMAREQ_Q then k_rdmap_get_rrr_sink s w
      else if qn = TERM_Q then k_rdmap_get_term_sink s w
      else Done (None, s, w))"

text \<open>The sink of a tagged segment is the range of the tag; the answer of \<open>kmalloc\<close> is not looked at.\<close>

definition k_rdmap_get_tag_sink :: "stag \<Rightarrow> u64 \<Rightarrow> u64 \<Rightarrow> u8 \<Rightarrow> kworld \<Rightarrow> ((k_recv_buf \<times> u32) option \<times> kworld) outcome" where
  "k_rdmap_get_tag_sink stag to len cf w =
     (let op = rdmap_get_OPCODE cf
      in if \<not> (op = RDMA_WRITE \<or> op = RDMA_READ_RESP) then Done (None, w)
         else case k_mem_stag_desc (k_hash w) stag to len (k_rdmap_acc ! unat op) (uc_mm (k_uc w)) of
                None \<Rightarrow> Done (None, w)
              | Some sd \<Rightarrow>
                  case kmalloc w of
                    (None, w) \<Rightarrow> Exit
                  | (Some _, w) \<Rightarrow> Done (Some (\<lparr>rb_id = 0, rb_ubuf = ks_start sd, rb_sd = sd, rb_len = ks_len sd\<rparr>,
                                               ucast (to - ks_start sd)), w))"

section \<open>Completion\<close>

text \<open>The head of a queue as an entry: the list head itself when the queue is empty.\<close>

definition k_rdmap_recv_send :: "u8 \<Rightarrow> u32 \<Rightarrow> k_iwsk \<Rightarrow> kworld \<Rightarrow> (int \<times> k_iwsk \<times> kworld) outcome" where
  "k_rdmap_recv_send cf len s w =
     (case kq_send (kx_rdmapsk s) of
        [] \<Rightarrow> Exit
      | rb # rbs \<Rightarrow>
          bindO (table_at k_rdmap_sink_op cf) (\<lambda>op.
            bindO (k_produce (kx_rcq s) \<lparr>cqe_op = op, cqe_status = RDMAP_SUCCESS, cqe_id = rb_id rb, cqe_msg_len = len\<rparr> w) (\<lambda>(ret, w).
              Done (ret, k_iwsk_inc_rdmapsk_sink_msn (s\<lparr>kx_rdmapsk := (kx_rdmapsk s)\<lparr>kq_send := rbs\<rparr>\<rparr>), w))))"

text \<open>The entry is freed and left on the list.\<close>

definition k_rdmap_recv_rrr :: "u8 \<Rightarrow> k_iwsk \<Rightarrow> kworld \<Rightarrow> (int \<times> k_iwsk \<times> kworld) outcome" where
  "k_rdmap_recv_rrr cf s w =
     (case kq_rdmareq (kx_rdmapsk s) of
        [] \<Rightarrow> Exit
      | None # _ \<Rightarrow> Exit
      | Some e # es \<Rightarrow>
          let r = rd_req_of_bytes e
          in bindO (if rdmap_get_OPCODE cf \<noteq> RDMA_READ_REQ then Done (- EBADMSG, s, w)
                    else case k_mem_stag_desc (k_hash w) (rr_src_stag r) (rr_src_to r) (ucast (rr_rd_sz r))
                                (k_rdmap_acc ! unat RDMA_READ_REQ) (uc_mm (k_uc w)) of
                           None \<Rightarrow> Done (- EINVAL, s, w)
                         | Some sd \<Rightarrow> k_ddp_send_tm sd (rr_src_to r) (rr_rd_sz r)
                             (rdmap_set_OPCODE (rdmap_set_RSVD (rdmap_set_RV 0)) RDMA_READ_RESP) (rr_sink_stag r) (rr_sink_to r) s w)
               (\<lambda>(ret, s, w).
                  Done (ret, k_iwsk_inc_rdmapsk_sink_msn (s\<lparr>kx_rdmapsk := (kx_rdmapsk s)\<lparr>kq_rdmareq := None # es\<rparr>\<rparr>), w)))"

text \<open>
  A terminate message is reported on the receive queue; the test for the send queue compares the queue with
  itself and never holds. The socket becomes invalid also when the report does not fit.
\<close>

definition k_rdmap_recv_term_msg :: "u8 \<Rightarrow> k_iwsk \<Rightarrow> kworld \<Rightarrow> (int \<times> k_iwsk \<times> kworld) outcome" where
  "k_rdmap_recv_term_msg cf s w =
     (case kq_term (kx_rdmapsk s) of
        [] \<Rightarrow> Exit
      | None # _ \<Rightarrow> Exit
      | Some e # es \<Rightarrow>
          bindO (if rdmap_get_OPCODE cf \<noteq> TERMINATE then Done (- EBADMSG, s, w)
                 else let e = \<lparr>cqe_op = K_OP_TERMINATE, cqe_status = RDMAP_TERMINATE, cqe_id = 0, cqe_msg_len = 0\<rparr>
                      in bindO (k_produce (kx_rcq s) e w) (\<lambda>(ret, w).
                         bindO (if ret = 0 \<and> kx_scq s \<noteq> kx_scq s then k_produce (kx_scq s) e w else Done (ret, w)) (\<lambda>(ret, w).
                           Done (ret, s\<lparr>kx_valid := False\<rparr>, w))))
            (\<lambda>(ret, s, w).
               Done (ret, k_iwsk_inc_rdmapsk_sink_msn (s\<lparr>kx_rdmapsk := (kx_rdmapsk s)\<lparr>kq_term := None # es\<rparr>\<rparr>), w)))"

definition k_rdmap_untag_recv :: "u8 \<Rightarrow> u32 \<Rightarrow> u32 \<Rightarrow> k_iwsk \<Rightarrow> kworld \<Rightarrow> (int \<times> k_iwsk \<times> kworld) outcome" where
  "k_rdmap_untag_recv cf qn len s w =
     (if qn = SEND_Q then k_rdmap_recv_send cf len s w
      else if qn = RDMAREQ_Q then k_rdmap_recv_rrr cf s w
      else if qn = TERM_Q then k_rdmap_recv_term_msg cf s w
      else Done (- EINVAL, s, w))"

text \<open>The two loops of \<open>rdmap_reap_rwr\<close>: every read with the tag is complete, then those at the head are reported.\<close>

fun k_mark_complete :: "stag \<Rightarrow> u32 \<Rightarrow> rdmap_tag_wrd list \<Rightarrow> bool \<times> rdmap_tag_wrd list" where
  "k_mark_complete stag len [] = (False, [])"
| "k_mark_complete stag len (d # ds) =
     (let (found, ds) = k_mark_complete stag len ds
      in if tw_stag d = stag then (True, d\<lparr>tw_complete := True, tw_len := len\<rparr> # ds) else (found, d # ds))"

fun k_reap_loop :: "int \<Rightarrow> u64 \<Rightarrow> int \<Rightarrow> rdmap_tag_wrd list \<Rightarrow> kworld \<Rightarrow> (int \<times> rdmap_tag_wrd list \<times> kworld) outcome" where
  "k_reap_loop op q ret [] w = Done (ret, [], w)"
| "k_reap_loop op q ret (d # ds) w =
     (if \<not> tw_complete d then Done (ret, d # ds, w)
      else bindO (k_produce q \<lparr>cqe_op = op, cqe_status = RDMAP_SUCCESS, cqe_id = tw_id d, cqe_msg_len = tw_len d\<rparr> w) (\<lambda>(ret, w).
             if ret < 0 then Done (ret, d # ds, w) else k_reap_loop op q ret ds w))"

definition k_rdmap_reap_rwr :: "u8 \<Rightarrow> stag \<Rightarrow> u32 \<Rightarrow> k_iwsk \<Rightarrow> kworld \<Rightarrow> (int \<times> k_iwsk \<times> kworld) outcome" where
  "k_rdmap_reap_rwr cf stag len s w =
     (if rdmap_get_OPCODE cf \<noteq> RDMA_READ_RESP then Done (- EBADMSG, s, w)
      else let (found, ds) = k_mark_complete stag len (kq_rwrq (kx_rdmapsk s))
           in if \<not> found then Done (- EBADMSG, s, w)
              else bindO (k_reap_loop (k_rdmap_sink_op ! unat RDMA_READ_RESP) (kx_scq s) 0 ds w) (\<lambda>(ret, ds, w).
                     Done (ret, s\<lparr>kx_rdmapsk := (kx_rdmapsk s)\<lparr>kq_rwrq := ds\<rparr>\<rparr>, w)))"

definition k_rdmap_tag_recv :: "u8 \<Rightarrow> stag \<Rightarrow> u32 \<Rightarrow> k_iwsk \<Rightarrow> kworld \<Rightarrow> (int \<times> k_iwsk \<times> kworld) outcome" where
  "k_rdmap_tag_recv cf stag len s w =
     (if rdmap_get_OPCODE cf = RDMA_WRITE then Done (0, s, w)
      else if rdmap_get_OPCODE cf = RDMA_READ_RESP then
        if kq_rwrq (kx_rdmapsk s) = [] then Done (- EBADMSG, s, w) else k_rdmap_reap_rwr cf stag len s w
      else Done (- EINVAL, s, w))"

section \<open>Errors found below\<close>

text \<open>The control word of a terminate message, and the message: 4 bytes, 2, 18 and 28.\<close>

definition rdmap_term_set_layer :: "u32 \<Rightarrow> u8 \<Rightarrow> u32" where
  "rdmap_term_set_layer c l = (c AND 0x0fffffff) OR push_bit 28 (ucast l)"

definition rdmap_term_set_etype :: "u32 \<Rightarrow> u8 \<Rightarrow> u32" where
  "rdmap_term_set_etype c e = (c AND 0xf0ffffff) OR push_bit 24 (ucast e)"

definition rdmap_term_set_ecode :: "u32 \<Rightarrow> u8 \<Rightarrow> u32" where
  "rdmap_term_set_ecode c e = (c AND 0xff00ffff) OR push_bit 16 (ucast e)"

definition rdmap_term_set_hdrct_m :: "u32 \<Rightarrow> u32" where "rdmap_term_set_hdrct_m c = c OR 0x00008000"
definition rdmap_term_unset_hdrct_m :: "u32 \<Rightarrow> u32" where "rdmap_term_unset_hdrct_m c = c AND 0xffff7fff"
definition rdmap_term_set_hdrct_d :: "u32 \<Rightarrow> u32" where "rdmap_term_set_hdrct_d c = c OR 0x00004000"
definition rdmap_term_set_hdrct_r :: "u32 \<Rightarrow> u32" where "rdmap_term_set_hdrct_r c = c OR 0x00002000"

text \<open>A header longer than what is left of the message overruns it.\<close>

definition k_rdmap_send_term_msg :: "u8 \<Rightarrow> u8 \<Rightarrow> u8 \<Rightarrow> u8 list option \<Rightarrow> int \<Rightarrow> u8 list option \<Rightarrow> k_iwsk \<Rightarrow> kworld
    \<Rightarrow> (int \<times> k_iwsk \<times> kworld) outcome" where
  "k_rdmap_send_term_msg layer etype ecode ddphdr ddpsglen rdmahdr s w =
     (let tcf = rdmap_term_set_ecode (rdmap_term_set_etype (rdmap_term_set_layer 0 layer) etype) ecode;
          tcf = (case ddphdr of
                   None \<Rightarrow> tcf
                 | Some _ \<Rightarrow> if ddpsglen \<ge> 0 then rdmap_term_set_hdrct_d (rdmap_term_set_hdrct_m tcf)
                             else rdmap_term_set_hdrct_d (rdmap_term_unset_hdrct_m tcf));
          tcf' = (case rdmahdr of None \<Rightarrow> tcf | Some _ \<Rightarrow> rdmap_term_set_hdrct_r tcf);
          th = put (replicate 52 0) 0 (le32 tcf')
      in if (case ddphdr of None \<Rightarrow> False | Some hdr \<Rightarrow> 6 + length hdr > 52) then Exit
         else let th = (case ddphdr of None \<Rightarrow> th | Some hdr \<Rightarrow> put th 6 hdr)
              in if (case rdmahdr of None \<Rightarrow> False | Some hdr \<Rightarrow> length hdr < 28) then Exit
                 else let th = (case rdmahdr of None \<Rightarrow> th | Some hdr \<Rightarrow> put th 24 (take 28 hdr));
                          cf = rdmap_set_OPCODE (rdmap_set_RV 0) TERMINATE
                      in k_ddp_send_utm (KMsg th) 52 TERM_Q cf (- 1) s w)"

definition k_rdmap_surface_ddp_err :: "u8 \<Rightarrow> u8 \<Rightarrow> u8 \<Rightarrow> u8 list option \<Rightarrow> int \<Rightarrow> u8 list option \<Rightarrow> k_iwsk \<Rightarrow> kworld
    \<Rightarrow> (int \<times> k_iwsk \<times> kworld) outcome" where
  "k_rdmap_surface_ddp_err layer etype ecode ddphdr ddpsglen rdmahdr s w =
     bindO (k_rdmap_send_term_msg layer etype ecode ddphdr ddpsglen rdmahdr s w) (\<lambda>(ret, s, w).
       if ret \<noteq> 0 then Done (ret, s, w)
       else let e = \<lparr>cqe_op = K_OP_TERMINATE, cqe_status = RDMAP_TERMINATE, cqe_id = 0, cqe_msg_len = 0\<rparr>
            in bindO (k_produce (kx_scq s) e w) (\<lambda>(ret, w).
               bindO (if ret = 0 \<and> kx_scq s \<noteq> kx_rcq s then k_produce (kx_rcq s) e w else Done (ret, w)) (\<lambda>(ret, w).
                 Done (ret, s\<lparr>kx_valid := False\<rparr>, w))))"

text \<open>\<open>ddp_surface_llp_err\<close> and \<open>ddp_surface_err\<close> (\<open>kiwarp/ddp.c\<close>) come here.\<close>

definition k_ddp_surface_llp_err :: "u8 \<Rightarrow> u8 \<Rightarrow> u8 \<Rightarrow> k_iwsk \<Rightarrow> kworld \<Rightarrow> (int \<times> k_iwsk \<times> kworld) outcome" where
  "k_ddp_surface_llp_err layer etype ecode s w = k_rdmap_surface_ddp_err layer etype ecode None (- 1) None s w"

definition k_ddp_surface_err :: "u8 \<Rightarrow> u8 \<Rightarrow> u8 \<Rightarrow> u8 list option \<Rightarrow> int \<Rightarrow> k_iwsk \<Rightarrow> kworld \<Rightarrow> (int \<times> k_iwsk \<times> kworld) outcome" where
  "k_ddp_surface_err layer etype ecode ddphdr ddpsglen s w = k_rdmap_surface_ddp_err layer etype ecode ddphdr ddpsglen None s w"

end
