(* ===== verification/K_Recv.thy ===== *)
theory K_Recv
  imports K_Rdmap_Recv
begin

text \<open>
  Receiving in the kernel module: the sink of a segment and its accounting (\<open>kiwarp/ddp.c\<close>), reading a frame
  straight into the pages it belongs to, and polling (\<open>kiwarp/mpa.c\<close>). At the end of the stream the transfer
  loop reports success, so a frame may be made up of whatever the header buffer held.
\<close>

section \<open>The sink of a segment\<close>

text \<open>
  The place of the payload: pieces of pages, or a part of the entry at the tail of a queue: its queue, its
  size, offset and length.
\<close>

datatype k_place = KPages "pvec list" | KBuf u32 nat nat nat

text \<open>A tag's structure that is not in the table any more is freed memory.\<close>

definition k_sd_live :: "k_stag_desc \<Rightarrow> kworld \<Rightarrow> bool" where
  "k_sd_live sd w \<longleftrightarrow> k_ht_lookup (k_hash w) (km_stag_ht (uc_mm (k_uc w))) (k_stag_key (ks_stag sd)) = (0, Some sd)"

text \<open>
  The common part at the end of \<open>ddp_get_sink\<close>. A buffer at address 0 is taken for a kernel buffer, whose
  address was never set.
\<close>

definition k_sink_place :: "k_sink \<Rightarrow> int \<Rightarrow> u32 \<Rightarrow> nat \<Rightarrow> nat \<Rightarrow> kworld \<Rightarrow> (int \<times> k_place) outcome" where
  "k_sink_place snk payload_len offset num_blks_alloc bidx w =
     (case snk of
        KUser rb \<Rightarrow>
          if rb_ubuf rb = 0 \<or> \<not> k_sd_live (rb_sd rb) w then Exit
          else bindO (k_mem_fill_iovec (rb_ubuf rb) payload_len offset (rb_sd rb) num_blks_alloc bidx (uc_mm (k_uc w))) (\<lambda>(ret, v).
                 Done (ret, KPages v))
      | KEntry qn sz \<Rightarrow> Done (0, KBuf qn sz (unat offset) (unat (of_int payload_len :: u64))))"

text \<open>\<open>ddp_get_sink\<close>: the value returned, the place and the length of the payload.\<close>

definition k_ddp_get_sink :: "u8 list \<Rightarrow> nat \<Rightarrow> nat \<Rightarrow> k_iwsk \<Rightarrow> kworld \<Rightarrow> (int \<times> k_place \<times> int \<times> k_iwsk \<times> kworld) outcome" where
  "k_ddp_get_sink hdr num_blks_alloc bidx s w =
     (if ddp_is_TAGGED (hdr ! 2) then
        let h = tagged_of_bytes hdr;
            payload_len = int (unat (ntohs (th_llp_hdr h))) - (int TAGGED_HDR_SZ - 2);
            to = ntohq (th_to h);
            stag = ntohl (th_stag h)
        in bindO (k_rdmap_get_tag_sink stag to (of_int payload_len) (th_rsvdulp h) w) (\<lambda>(r, w).
             case r of
               None \<Rightarrow> Done (- ENOBUFS, KPages [], payload_len, s, w)
             | Some (rb, offset) \<Rightarrow>
                 bindO (k_sink_place (KUser rb) payload_len offset num_blks_alloc bidx w) (\<lambda>(ret, pl).
                   Done (ret, pl, payload_len, s, w)))
      else
        let h = untagged_of_bytes hdr;
            qn = ntohl (uh_qn h); msn = ntohl (uh_msn h); offset = ntohl (uh_mo h);
            payload_len = int (unat (ntohs (uh_llp_hdr h))) - (int UNTAGGED_HDR_SZ - 2)
        in bindO (k_rdmap_get_untag_sink qn msn s w) (\<lambda>(r, s, w).
             case r of
               None \<Rightarrow> Done (- ENOBUFS, KPages [], payload_len, s, w)
             | Some snk \<Rightarrow>
                 if unat (offset + of_int payload_len) > (case snk of KUser rb \<Rightarrow> unat (rb_len rb) | KEntry _ sz \<Rightarrow> sz)
                 then Done (- EBADMSG, KPages [], payload_len, s, w)
                 else bindO (k_sink_place snk payload_len offset num_blks_alloc bidx w) (\<lambda>(ret, pl).
                        Done (ret, pl, payload_len, s, w))))"

section \<open>A segment has arrived\<close>

text \<open>An entry for an outstanding message is allocated for the first segment, unless it is also the last.\<close>

definition k_outst_alloc :: "bool \<Rightarrow> bool \<Rightarrow> kworld \<Rightarrow> bool \<times> kworld" where
  "k_outst_alloc found fin w =
     (if found \<or> fin then (True, w) else let (a, w) = kmalloc w in (a \<noteq> None, w))"

definition k_ddp_process_untag_ulpdu :: "u8 list \<Rightarrow> k_iwsk \<Rightarrow> kworld \<Rightarrow> (int \<times> k_iwsk \<times> kworld) outcome" where
  "k_ddp_process_untag_ulpdu hdr s w =
     (let h = untagged_of_bytes hdr;
          qn = ntohl (uh_qn h); msn = ntohl (uh_msn h);
          len = ucast (ntohs (uh_llp_hdr h)) - of_nat (UNTAGGED_HDR_SZ - 2);
          fin = ddp_is_LAST (uh_cf h);
          ms = kd_outst_untag (kx_ddpsk s);
          (ok, w) = k_outst_alloc (first_match (\<lambda>utm. um_qn utm = qn \<and> um_msn utm = msn) ms \<noteq> None) fin w
      in if \<not> ok then Done (- ENOMEM, s, w)
         else let (ms, utm) = outst_untag_add qn msn len fin ms;
                  s = s\<lparr>kx_ddpsk := (kx_ddpsk s)\<lparr>kd_outst_untag := ms\<rparr>\<rparr>
              in if \<not> fin then Done (0, s, w)
                 else let len = (case utm of Some i \<Rightarrow> um_len (ms ! i) | None \<Rightarrow> len)
                      in bindO (k_rdmap_untag_recv (uh_ulp_ctrl h) qn len s w) (\<lambda>(ret, s, w).
                           if ret \<noteq> 0 then Done (ret, s, w)
                           else let s = k_iwsk_inc_ddpsk_recv_msn s;
                                    ms = (case utm of Some i \<Rightarrow> list_del_at i ms | None \<Rightarrow> ms)
                                in Done (ret, s\<lparr>kx_ddpsk := (kx_ddpsk s)\<lparr>kd_outst_untag := ms\<rparr>\<rparr>, w)))"

definition k_ddp_process_tag_ulpdu :: "u8 list \<Rightarrow> k_iwsk \<Rightarrow> kworld \<Rightarrow> (int \<times> k_iwsk \<times> kworld) outcome" where
  "k_ddp_process_tag_ulpdu hdr s w =
     (let h = tagged_of_bytes hdr;
          stag = ntohl (th_stag h);
          len = ucast (ntohs (th_llp_hdr h)) - of_nat (TAGGED_HDR_SZ - 2);
          fin = ddp_is_LAST (th_cf h);
          ms = kd_outst_tag (kx_ddpsk s);
          (ok, w) = k_outst_alloc (first_match (\<lambda>tm. tm_stag tm = stag) ms \<noteq> None) fin w
      in if \<not> ok then Done (- ENOMEM, s, w)
         else let (ms, tm) = outst_tag_add stag len fin ms;
                  s = s\<lparr>kx_ddpsk := (kx_ddpsk s)\<lparr>kd_outst_tag := ms\<rparr>\<rparr>
              in if \<not> fin then Done (0, s, w)
                 else let len = (case tm of Some i \<Rightarrow> tm_len (ms ! i) | None \<Rightarrow> len)
                      in bindO (k_rdmap_tag_recv (th_rsvdulp h) stag len s w) (\<lambda>(ret, s, w).
                           if ret \<noteq> 0 then Done (ret, s, w)
                           else let ms = (case tm of Some i \<Rightarrow> list_del_at i ms | None \<Rightarrow> ms)
                                in Done (ret, s\<lparr>kx_ddpsk := (kx_ddpsk s)\<lparr>kd_outst_tag := ms\<rparr>\<rparr>, w)))"

definition k_ddp_process_ulpdu :: "u8 list \<Rightarrow> k_iwsk \<Rightarrow> kworld \<Rightarrow> (int \<times> k_iwsk \<times> kworld) outcome" where
  "k_ddp_process_ulpdu hdr s w =
     (if ddp_is_TAGGED (hdr ! 2) then k_ddp_process_tag_ulpdu hdr s w else k_ddp_process_untag_ulpdu hdr s w)"

section \<open>Reading a frame\<close>

definition k_place_cap :: "k_place \<Rightarrow> nat" where
  "k_place_cap pl = (case pl of KPages v \<Rightarrow> length (places v) | KBuf _ _ _ len \<Rightarrow> len)"

text \<open>The entries a place takes in the vector, and the length of the last one (the header if there is none).\<close>

definition k_place_ents :: "k_place \<Rightarrow> nat" where
  "k_place_ents pl = (case pl of KPages v \<Rightarrow> length v | KBuf _ _ _ _ \<Rightarrow> 1)"

definition k_last_len :: "nat \<Rightarrow> k_place \<Rightarrow> u32" where
  "k_last_len hdrsz pl =
     (case pl of
        KPages v \<Rightarrow> if v = [] then of_nat hdrsz else (case List.last v of (pg, off, n) \<Rightarrow> of_nat n)
      | KBuf _ _ _ len \<Rightarrow> of_nat len)"

text \<open>The padding is worked out from the last entry of the vector only.\<close>

definition k_recv_pad :: "u32 \<Rightarrow> nat" where
  "k_recv_pad len = unat (ucast (4 * ((len + 3) div 4) - len) :: u8)"

text \<open>Storing what arrived, and reading the whole place back for the checksum.\<close>

fun store_frames :: "(nat \<times> nat) list \<Rightarrow> u8 list \<Rightarrow> kworld \<Rightarrow> kworld" where
  "store_frames ((pg, off) # ps) (b # bs) w = store_frames ps bs (set_frame pg off b w)"
| "store_frames ps bs w = w"

definition k_entry_put :: "nat \<Rightarrow> u8 list \<Rightarrow> u8 list option list \<Rightarrow> u8 list option list" where
  "k_entry_put off bs q = butlast q @ [map_option (\<lambda>e. put e off bs) (List.last q)]"

definition k_place_fill :: "k_place \<Rightarrow> u8 list \<Rightarrow> k_iwsk \<Rightarrow> kworld \<Rightarrow> (k_iwsk \<times> kworld) outcome" where
  "k_place_fill pl bs s w =
     (case pl of
        KPages v \<Rightarrow> Done (s, store_frames (places v) bs w)
      | KBuf qn sz off len \<Rightarrow>
          if bs = [] then Done (s, w)
          else if off + length bs > sz then Exit
          else if qn = RDMAREQ_Q
          then Done (s\<lparr>kx_rdmapsk := (kx_rdmapsk s)\<lparr>kq_rdmareq := k_entry_put off bs (kq_rdmareq (kx_rdmapsk s))\<rparr>\<rparr>, w)
          else Done (s\<lparr>kx_rdmapsk := (kx_rdmapsk s)\<lparr>kq_term := k_entry_put off bs (kq_term (kx_rdmapsk s))\<rparr>\<rparr>, w))"

definition k_place_blks :: "k_place \<Rightarrow> k_iwsk \<Rightarrow> kworld \<Rightarrow> u8 list list outcome" where
  "k_place_blks pl s w =
     (case pl of
        KPages v \<Rightarrow> Done (map (piece_bytes (k_frames w)) v)
      | KBuf qn sz off len \<Rightarrow>
          if off + len > sz then Exit
          else case List.last (if qn = RDMAREQ_Q then kq_rdmareq (kx_rdmapsk s) else kq_term (kx_rdmapsk s)) of
                 None \<Rightarrow> Exit
               | Some e \<Rightarrow> Done [take len (drop off e)])"

text \<open>The part of \<open>mpa_recv_plain_fpdu\<close> after the header has been read and the sink found.\<close>

definition k_recv_payload :: "u8 list \<Rightarrow> nat \<Rightarrow> k_place \<Rightarrow> int \<Rightarrow> k_iwsk \<Rightarrow> kworld \<Rightarrow> (int \<times> k_iwsk \<times> kworld) outcome" where
  "k_recv_payload hdr hdrsz pl payload_len s w =
     (let pad = k_recv_pad (k_last_len hdrsz pl);
          crc_sz = (if km_use_crc (kx_mpask s) \<noteq> 0 then CRC_SZ else 0);
          total = (of_int payload_len + of_nat pad + of_nat crc_sz :: u32)
      in if 1 + k_place_ents pl + (if pad \<noteq> 0 then 1 else 0) + (if crc_sz \<noteq> 0 then 1 else 0) > K_MAX_BLKS then Exit
         else let (ret, bs, w) = kernel_recvmsg_full (kx_filp s) (int (unat total)) w; cap = k_place_cap pl
         in if length bs > cap + pad + crc_sz then Exit
            else bindO (k_place_fill pl (take cap bs) s w) (\<lambda>(s, w).
              if ret < 0 then Done (ret, s, w)
              else let s = k_iwsk_add_mpask_recv_sp (of_nat hdrsz + total) s;
                       pad_blk = take pad (put (replicate 4 0) 0 (take pad (drop cap bs)));
                       crc_blk = (of_le (put (replicate 4 0) 0 (drop (cap + pad) bs)) :: u32)
                   in if crc_sz \<noteq> 0 then
                        bindO (k_place_blks pl s w) (\<lambda>blks.
                          bindO (k_crc32c_vec ([take hdrsz hdr] @ blks @ (if pad \<noteq> 0 then [pad_blk] else []))) (\<lambda>crc.
                            if crc \<noteq> ntohl crc_blk then Done (- EBADMSG, s, w)
                            else k_ddp_process_ulpdu hdr s w))
                      else k_ddp_process_ulpdu hdr s w))"

definition k_mpa_recv_plain_fpdu :: "k_iwsk \<Rightarrow> kworld \<Rightarrow> (int \<times> k_iwsk \<times> kworld) outcome" where
  "k_mpa_recv_plain_fpdu s w =
     (case kmalloc w of (None, w) \<Rightarrow> Done (- ENOMEM, s, w) | (Some _, w) \<Rightarrow>
      case kmalloc w of (None, w) \<Rightarrow> Done (- ENOMEM, s, w) | (Some _, w) \<Rightarrow>
      case kmalloc w of (None, w) \<Rightarrow> Done (- ENOMEM, s, w) | (Some _, w) \<Rightarrow>
        let hdr = map (k_junk w) [0..<K_MAX_HDR_SZ];
            (ret, bs, w) = kernel_recvmsg_full (kx_filp s) 4 w
        in if ret < 0 then Done (ret, s, w)
           else let hdr = put hdr 0 bs;
                    hdrsz = k_ddp_get_hdr_sz hdr;
                    (ret, bs, w) = kernel_recvmsg_full (kx_filp s) (int hdrsz - 4) w
                in if ret < 0 then Done (ret, s, w)
                   else let hdr = put hdr 4 bs
                        in bindO (k_ddp_get_sink hdr K_MAX_BLKS 1 s w) (\<lambda>(ret, pl, payload_len, s, w).
                             if ret < 0 then Done (ret, s, w)
                             else k_recv_payload hdr hdrsz pl payload_len s w))"

section \<open>Polling\<close>

text \<open>The poll operation of the socket: an answer, or what the stream says when there is none left.\<close>

definition POLLIN :: u32 where "POLLIN = 0x1"
definition POLLERR :: u32 where "POLLERR = 0x8"
definition POLLHUP :: u32 where "POLLHUP = 0x10"
definition POLLNVAL :: u32 where "POLLNVAL = 0x20"

definition k_sock_poll :: "u64 \<Rightarrow> kworld \<Rightarrow> u32 \<times> kworld" where
  "k_sock_poll filp w =
     (let c = k_conns w filp
      in case kc_poll c of
           [] \<Rightarrow> (if kc_rx c \<noteq> [] then POLLIN else 0, w)
         | m # ms \<Rightarrow> (m, set_kconn filp (c\<lparr>kc_poll := ms\<rparr>) w))"

definition k_mpa_encourage_one :: "k_iwsk \<Rightarrow> kworld \<Rightarrow> (int \<times> k_iwsk \<times> kworld) outcome" where
  "k_mpa_encourage_one s w =
     (let (mask, w) = k_sock_poll (kx_filp s) w
      in if mask AND POLLIN \<noteq> 0 then
           if km_use_mrkr (kx_mpask s) \<noteq> 0 then Done (- ENOSYS, s, w) else k_mpa_recv_plain_fpdu s w
         else if mask AND POLLNVAL \<noteq> 0 then Done (- EINVAL, s, w)
         else if mask AND POLLERR \<noteq> 0 then Done (- ENOSYS, s, w)
         else if mask AND POLLHUP \<noteq> 0 then Done (- ECONNRESET, s, w)
         else Done (0, s, w))"

text \<open>The blocking variant puts itself on the wait queue and does not wait: it does the same.\<close>

definition k_mpa_encourage_one_block :: "k_iwsk \<Rightarrow> kworld \<Rightarrow> (int \<times> k_iwsk \<times> kworld) outcome" where
  "k_mpa_encourage_one_block s w =
     (let (mask, w) = k_sock_poll (kx_filp s) w
      in if mask AND POLLIN \<noteq> 0 then
           if km_use_mrkr (kx_mpask s) \<noteq> 0 then Done (- ENOSYS, s, w) else k_mpa_recv_plain_fpdu s w
         else if mask AND POLLNVAL \<noteq> 0 then Done (- EINVAL, s, w)
         else if mask AND POLLERR \<noteq> 0 then Done (- ENOSYS, s, w)
         else if mask AND POLLHUP \<noteq> 0 then Done (- ECONNRESET, s, w)
         else Done (0, s, w))"

text \<open>
  \<open>mpa_poll\<close> over all sockets of the table, by the files they belong to, or on one socket. The first error
  ends the round.
\<close>

fun k_poll_chain :: "u64 list \<Rightarrow> kworld \<Rightarrow> (int \<times> kworld) outcome" where
  "k_poll_chain [] w = Done (0, w)"
| "k_poll_chain (f # fs) w =
     (case snd (k_iwsk_lookup f w) of
        None \<Rightarrow> Exit
      | Some s \<Rightarrow> bindO (k_mpa_encourage_one s w) (\<lambda>(ret, s, w).
          let w = k_iwsk_store s w in if ret \<noteq> 0 then Done (ret, w) else k_poll_chain fs w))"

definition k_mpa_poll :: "u64 option \<Rightarrow> kworld \<Rightarrow> (int \<times> kworld) outcome" where
  "k_mpa_poll one w =
     (case one of
        None \<Rightarrow> k_poll_chain (map fst (concat (kh_htab (uc_fdhash (k_uc w))))) w
      | Some f \<Rightarrow>
          case snd (k_iwsk_lookup f w) of
            None \<Rightarrow> Exit
          | Some s \<Rightarrow> bindO (k_mpa_encourage_one_block s w) (\<lambda>(ret, s, w). Done (ret, k_iwsk_store s w)))"

definition k_rdmap_encourage :: "u64 option \<Rightarrow> kworld \<Rightarrow> (int \<times> kworld) outcome" where
  "k_rdmap_encourage one w = k_mpa_poll one w"

end
