(* ===== verification/K_Rdmap.thy ===== *)
theory K_Rdmap
  imports K_Recv
begin

text \<open>
  The RDMAP interface of the kernel module (\<open>kiwarp/rdmap.c\<close>). Every call names its socket by a descriptor: it
  takes a reference to the file for the time of the call, and a registered socket holds one more until it is
  deregistered. Some calls forget to give theirs back.
\<close>

section \<open>Sockets\<close>

definition k_rdmap_open :: int where
  "k_rdmap_open = fst k_ddp_open"

text \<open>\<open>cq_get\<close> and \<open>cq_put\<close> through a pointer; a queue that is gone is freed memory.\<close>

definition k_cq_ref :: "(k_cq \<Rightarrow> k_cq) \<Rightarrow> u64 \<Rightarrow> kworld \<Rightarrow> kworld outcome" where
  "k_cq_ref f h w =
     (case k_cq_lookup h (uc_cq (k_uc w)) of
        None \<Rightarrow> Exit
      | Some q \<Rightarrow> Done (set_uc ((k_uc w)\<lparr>uc_cq := k_cq_store (f q) (uc_cq (k_uc w))\<rparr>) w))"

definition k_set_fdhash :: "k_iwsk k_ht \<Rightarrow> kworld \<Rightarrow> kworld" where
  "k_set_fdhash t w = set_uc ((k_uc w)\<lparr>uc_fdhash := t\<rparr>) w"

text \<open>The structure of a new socket: what the allocation leaves unset is set by the layers below.\<close>

definition k_iwsk_new :: "u64 \<Rightarrow> u64 \<Rightarrow> u64 \<Rightarrow> k_iwsk" where
  "k_iwsk_new filp sq rq = snd (k_ddp_register_sock \<lparr>kx_valid = True, kx_filp = filp, kx_scq = sq, kx_rcq = rq,
     kx_rdmapsk = \<lparr>kq_send = [], kq_rdmareq = [], kq_term = [], kq_rwrq = [], kq_sink_msn = 1\<rparr>,
     kx_ddpsk = \<lparr>kd_recv_msn = 0, kd_send_msn = 0, kd_sgmnt_len = 0, kd_outst_tag = [], kd_outst_untag = []\<rparr>,
     kx_mpask = \<lparr>km_use_crc = 0, km_use_mrkr = 0, km_recv_mp = 0, km_send_mp = 0, km_recv_sp = 0, km_send_sp = 0\<rparr>\<rparr>)"

text \<open>When the allocation of the structure fails the call returns 0.\<close>

definition k_rdmap_register_sock :: "u32 \<Rightarrow> u64 \<Rightarrow> u64 \<Rightarrow> kworld \<Rightarrow> (int \<times> kworld) outcome" where
  "k_rdmap_register_sock fd sq rq w =
     (case fget fd w of
        (None, w) \<Rightarrow> Done (- EBADF, w)
      | (Some filp, w) \<Rightarrow>
          if \<not> kf_sock (k_files w filp) then Done (- ENOTSOCK, fput filp w)
          else if \<not> kf_stream (k_files w filp) then Done (- EPROTOTYPE, fput filp w)
          else case kmalloc w of
                 (None, w) \<Rightarrow> Done (0, fput filp w)
               | (Some _, w) \<Rightarrow>
                   bindO (k_cq_ref k_cq_get sq w) (\<lambda>w. bindO (k_cq_ref k_cq_get rq w) (\<lambda>w.
                     let s = k_iwsk_new filp sq rq;
                         (node, w') = kmalloc w;
                         (ret, t) = k_ht_insert (k_hash w) (node \<noteq> None) (uc_fdhash (k_uc w)) filp s;
                         w = (if ret = - EEXIST then w else w')
                     in if ret < 0 then
                          bindO (k_cq_ref k_cq_put sq w) (\<lambda>w. bindO (k_cq_ref k_cq_put rq w) (\<lambda>w. Done (ret, fput filp w)))
                        else Done (ret, k_set_fdhash t w))))"

text \<open>An unknown socket: the reference just taken is kept for ever.\<close>

definition k_rdmap_set_sock_attrs :: "u32 \<Rightarrow> u32 \<Rightarrow> u32 \<Rightarrow> kworld \<Rightarrow> int \<times> kworld" where
  "k_rdmap_set_sock_attrs fd crc mrkrs w =
     (case fget fd w of
        (None, w) \<Rightarrow> (- EINVAL, w)
      | (Some filp, w) \<Rightarrow>
          case k_iwsk_lookup filp w of
            (_, None) \<Rightarrow> (- ENOENT, w)
          | (ret, Some s) \<Rightarrow>
              (ret, fput filp (k_iwsk_store (s\<lparr>kx_mpask := (kx_mpask s)\<lparr>km_use_crc := crc, km_use_mrkr := mrkrs\<rparr>\<rparr>) w)))"

definition k_rdmap_release_sock_res :: "k_iwsk \<Rightarrow> kworld \<Rightarrow> kworld outcome" where
  "k_rdmap_release_sock_res s w =
     (let s = k_ddp_deregister_sock s
      in bindO (k_cq_ref k_cq_put (kx_scq s) w) (\<lambda>w. bindO (k_cq_ref k_cq_put (kx_rcq s) w) (\<lambda>w.
           Done (fput (kx_filp s) w))))"

definition k_rdmap_deregister_sock :: "u32 \<Rightarrow> kworld \<Rightarrow> (int \<times> kworld) outcome" where
  "k_rdmap_deregister_sock fd w =
     (case fget fd w of
        (None, w) \<Rightarrow> Done (- EBADF, w)
      | (Some filp, w) \<Rightarrow>
          case k_ht_delete_callback (k_hash w) (uc_fdhash (k_uc w)) filp of
            (ret, None, t) \<Rightarrow> Done (ret, fput filp w)
          | (ret, Some s, t) \<Rightarrow>
              bindO (k_rdmap_release_sock_res s (k_set_fdhash t w)) (\<lambda>w. Done (ret, fput filp w)))"

text \<open>The reference to the file is never given back.\<close>

definition k_rdmap_init_startup :: "u32 \<Rightarrow> bool \<Rightarrow> u64 \<Rightarrow> u16 \<Rightarrow> u64 \<Rightarrow> u16 \<Rightarrow> kworld \<Rightarrow> (int \<times> kworld) outcome" where
  "k_rdmap_init_startup fd is_initiator pd_in len_in pd_out len_out w =
     (case fget fd w of
        (None, w) \<Rightarrow> Done (- EBADF, w)
      | (Some filp, w) \<Rightarrow>
          case k_iwsk_lookup filp w of
            (_, None) \<Rightarrow> Done (- ENOENT, w)
          | (_, Some s) \<Rightarrow>
              bindO (k_mpa_init_startup is_initiator pd_in len_in pd_out len_out s w) (\<lambda>(ret, s, w).
                Done (ret, k_iwsk_store s w)))"

section \<open>Work requests\<close>

text \<open>
  What the calls have in common: the descriptor is looked up, the work done on the socket of the file, the
  reference given back.
\<close>

definition k_with_sock :: "u32 \<Rightarrow> (k_iwsk \<Rightarrow> kworld \<Rightarrow> (int \<times> k_iwsk \<times> kworld) outcome) \<Rightarrow> kworld \<Rightarrow> (int \<times> kworld) outcome" where
  "k_with_sock fd body w =
     (case fget fd w of
        (None, w) \<Rightarrow> Done (- EBADF, w)
      | (Some filp, w) \<Rightarrow>
          case k_iwsk_lookup filp w of
            (ret, None) \<Rightarrow> Done (ret, fput filp w)
          | (_, Some s) \<Rightarrow> bindO (body s w) (\<lambda>(ret, s, w). Done (ret, fput filp (k_iwsk_store s w))))"

definition k_send_body :: "u64 \<Rightarrow> u64 \<Rightarrow> u64 \<Rightarrow> stag \<Rightarrow> k_iwsk \<Rightarrow> kworld \<Rightarrow> (int \<times> k_iwsk \<times> kworld) outcome" where
  "k_send_body wrid ubuf len stag s w =
     (case k_mem_stag_desc (k_hash w) stag ubuf len STAG_R (uc_mm (k_uc w)) of
        None \<Rightarrow> Done (- EINVAL, s, w)
      | Some sd \<Rightarrow>
          bindO (k_ddp_send_utm (UMsg sd ubuf) (ucast len) SEND_Q (rdmap_set_OPCODE (rdmap_set_RV 0) SEND) (- 1) s w)
            (\<lambda>(ret, s, w).
               if ret < 0 then Done (ret, s, w)
               else bindO (k_produce (kx_scq s) \<lparr>cqe_op = k_rdmap_src_op ! unat SEND, cqe_status = RDMAP_SUCCESS,
                                                 cqe_id = wrid, cqe_msg_len = ucast len\<rparr> w) (\<lambda>(ret, w). Done (ret, s, w))))"

definition k_rdmap_send :: "u32 \<Rightarrow> u64 \<Rightarrow> u64 \<Rightarrow> u64 \<Rightarrow> stag \<Rightarrow> kworld \<Rightarrow> (int \<times> kworld) outcome" where
  "k_rdmap_send fd wrid ubuf len stag w = k_with_sock fd (k_send_body wrid ubuf len stag) w"

definition k_post_recv_body :: "u64 \<Rightarrow> u64 \<Rightarrow> u64 \<Rightarrow> stag \<Rightarrow> k_iwsk \<Rightarrow> kworld \<Rightarrow> (int \<times> k_iwsk \<times> kworld) outcome" where
  "k_post_recv_body wrid ubuf len stag s w =
     (case k_mem_stag_desc (k_hash w) stag ubuf len STAG_W (uc_mm (k_uc w)) of
        None \<Rightarrow> Done (- EINVAL, s, w)
      | Some sd \<Rightarrow>
          case kmalloc w of
            (None, w) \<Rightarrow> Done (- ENOMEM, s, w)
          | (Some _, w) \<Rightarrow>
              Done (0, s\<lparr>kx_rdmapsk := (kx_rdmapsk s)\<lparr>kq_send := kq_send (kx_rdmapsk s)
                @ [\<lparr>rb_id = wrid, rb_ubuf = ubuf, rb_sd = sd, rb_len = len\<rparr>]\<rparr>\<rparr>, w))"

definition k_rdmap_post_recv :: "u32 \<Rightarrow> u64 \<Rightarrow> u64 \<Rightarrow> u64 \<Rightarrow> stag \<Rightarrow> kworld \<Rightarrow> (int \<times> kworld) outcome" where
  "k_rdmap_post_recv fd wrid ubuf len stag w = k_with_sock fd (k_post_recv_body wrid ubuf len stag) w"

definition k_write_body :: "u64 \<Rightarrow> u64 \<Rightarrow> u64 \<Rightarrow> stag \<Rightarrow> stag \<Rightarrow> u64 \<Rightarrow> k_iwsk \<Rightarrow> kworld \<Rightarrow> (int \<times> k_iwsk \<times> kworld) outcome" where
  "k_write_body wrid ubuf len local_stag sink_stag sink_to s w =
     (case k_mem_stag_desc (k_hash w) local_stag ubuf len STAG_R (uc_mm (k_uc w)) of
        None \<Rightarrow> Done (- EINVAL, s, w)
      | Some sd \<Rightarrow>
          bindO (k_ddp_send_tm sd ubuf (ucast len) (rdmap_set_OPCODE (rdmap_set_RV 0) RDMA_WRITE) sink_stag sink_to s w)
            (\<lambda>(ret, s, w).
               if ret < 0 then Done (ret, s, w)
               else bindO (k_produce (kx_scq s) \<lparr>cqe_op = k_rdmap_src_op ! unat RDMA_WRITE, cqe_status = RDMAP_SUCCESS,
                                                 cqe_id = wrid, cqe_msg_len = ucast len\<rparr> w) (\<lambda>(ret, w). Done (ret, s, w))))"

definition k_rdmap_rdma_write :: "u32 \<Rightarrow> u64 \<Rightarrow> u64 \<Rightarrow> u64 \<Rightarrow> stag \<Rightarrow> stag \<Rightarrow> u64 \<Rightarrow> kworld \<Rightarrow> (int \<times> kworld) outcome" where
  "k_rdmap_rdma_write fd wrid ubuf len local_stag sink_stag sink_to w =
     k_with_sock fd (k_write_body wrid ubuf len local_stag sink_stag sink_to) w"

text \<open>The entry for the read is on the list before the request is sent, and stays if sending fails.\<close>

definition k_read_body :: "u64 \<Rightarrow> stag \<Rightarrow> u64 \<Rightarrow> u32 \<Rightarrow> stag \<Rightarrow> u64 \<Rightarrow> k_iwsk \<Rightarrow> kworld \<Rightarrow> (int \<times> k_iwsk \<times> kworld) outcome" where
  "k_read_body wrid sink_stag sink_to len src_stag src_to s w =
     (let h = \<lparr>rr_sink_stag = sink_stag, rr_sink_to = sink_to, rr_rd_sz = len, rr_src_stag = src_stag, rr_src_to = src_to\<rparr>;
          cf = rdmap_set_OPCODE (rdmap_set_RSVD (rdmap_set_RV 0)) RDMA_READ_REQ
      in case kmalloc w of
           (None, w) \<Rightarrow> Done (- ENOMEM, s, w)
         | (Some _, w) \<Rightarrow>
             let s = s\<lparr>kx_rdmapsk := (kx_rdmapsk s)\<lparr>kq_rwrq := kq_rwrq (kx_rdmapsk s)
                   @ [\<lparr>tw_id = wrid, tw_stag = sink_stag, tw_complete = False, tw_len = 0\<rparr>]\<rparr>\<rparr>
             in k_ddp_send_utm (KMsg (rd_req_bytes h)) 32 RDMAREQ_Q cf (- 1) s w)"

definition k_rdmap_rdma_read :: "u32 \<Rightarrow> u64 \<Rightarrow> stag \<Rightarrow> u64 \<Rightarrow> u32 \<Rightarrow> stag \<Rightarrow> u64 \<Rightarrow> kworld \<Rightarrow> (int \<times> kworld) outcome" where
  "k_rdmap_rdma_read fd wrid sink_stag sink_to len src_stag src_to w =
     k_with_sock fd (k_read_body wrid sink_stag sink_to len src_stag src_to) w"

section \<open>Completions\<close>

text \<open>
  The structure given to the process: 20 bytes and the 4 that pad it, which are not written. The entry is gone
  from the queue also when the copy fails.
\<close>

definition wc_bytes :: "(nat \<Rightarrow> u8) \<Rightarrow> cqe \<Rightarrow> u8 list" where
  "wc_bytes junk e = le64 (cqe_id e) @ le32 (of_int (cqe_op e)) @ le32 (of_int (cqe_status e)) @ le32 (cqe_msg_len e)
     @ map junk [20..<24]"

definition k_rdmap_check_cq :: "u64 \<Rightarrow> u64 \<Rightarrow> kworld \<Rightarrow> (int \<times> kworld) outcome" where
  "k_rdmap_check_cq h uwc w =
     bindO (k_consume h w) (\<lambda>(ret, e, w).
       case e of
         None \<Rightarrow> Done (ret, w)
       | Some e \<Rightarrow> let (ok, w) = copy_to_user uwc (wc_bytes (k_junk w) e) w in Done (if ok then ret else - EFAULT, w))"

definition k_rdmap_poll :: "u64 \<Rightarrow> u64 \<Rightarrow> kworld \<Rightarrow> (int \<times> kworld) outcome" where
  "k_rdmap_poll h uwc w =
     bindO (k_rdmap_check_cq h uwc w) (\<lambda>(ret, w).
       if ret \<noteq> - EAGAIN then Done (ret, w)
       else bindO (k_rdmap_encourage None w) (\<lambda>(ret, w).
              if ret \<noteq> 0 then Done (ret, w) else k_rdmap_check_cq h uwc w))"

text \<open>
  One round of the loop of \<open>rdmap_poll_block\<close>: a result, or the state to go on with. The loop never waits and
  may not end (\<open>None\<close>).
\<close>

definition k_poll_round :: "u64 \<Rightarrow> u64 \<Rightarrow> u64 \<Rightarrow> kworld \<Rightarrow> (int \<times> kworld) outcome + kworld" where
  "k_poll_round filp h uwc w =
     (case k_rdmap_encourage (Some filp) w of
        Exit \<Rightarrow> Inl Exit
      | Done (ret, w) \<Rightarrow>
          if ret \<noteq> 0 then Inl (Done (ret, w))
          else case k_rdmap_check_cq h uwc w of
                 Exit \<Rightarrow> Inl Exit
               | Done (ret, w) \<Rightarrow> if ret \<noteq> - EAGAIN then Inl (Done (ret, w)) else Inr w)"

partial_function (option) k_poll_rounds :: "u64 \<Rightarrow> u64 \<Rightarrow> u64 \<Rightarrow> kworld \<Rightarrow> (int \<times> kworld) outcome option" where
  "k_poll_rounds filp h uwc w =
     (let r = k_poll_round filp h uwc w in if isl r then Some (projl r) else k_poll_rounds filp h uwc (projr r))"

declare k_poll_rounds.simps [code]

definition k_rdmap_poll_block :: "u64 \<Rightarrow> u32 \<Rightarrow> u64 \<Rightarrow> kworld \<Rightarrow> (int \<times> kworld) outcome option" where
  "k_rdmap_poll_block h fd uwc w =
     (case k_rdmap_check_cq h uwc w of
        Exit \<Rightarrow> Some Exit
      | Done (ret, w) \<Rightarrow>
          if ret \<noteq> - EAGAIN then Some (Done (ret, w))
          else case fget fd w of
                 (None, w) \<Rightarrow> Some (Done (- EINVAL, w))
               | (Some filp, w) \<Rightarrow>
                   case k_iwsk_lookup filp w of
                     (_, None) \<Rightarrow> Some (Done (- ENOENT, fput filp w))
                   | (_, Some _) \<Rightarrow>
                       map_option (\<lambda>m. bindO m (\<lambda>(ret, w). Done (ret, fput filp w))) (k_poll_rounds filp h uwc w))"

end
