(* ===== verification/K_Dev.thy ===== *)
theory K_Dev
  imports K_Rdmap K_Mem_Inv
begin

text \<open>
  The character device of the kernel module (\<open>kiwarp/init.c\<close>) with the layouts of its commands
  (\<open>kiwarp/user.h\<close>): a process opens the device, which makes a context for it, writes commands to it, each the
  bytes of one structure, and releases it. The state of the device is the list of the contexts and the rest
  of the kernel. The page table and the descriptors are those of the process that calls.

  Every call of \<open>kmalloc\<close> takes its answer from one list. \<open>mem_register\<close> is given the three answers it may
  need, and the loop that looks for a free tag one for each turn.
\<close>

section \<open>State\<close>

record kdev =
  kd_list :: "user_context list"
  kd_world :: kworld
  kd_pt :: "int \<Rightarrow> u64 \<Rightarrow> nat option"
  kd_fds :: "int \<Rightarrow> u32 \<Rightarrow> u64 option"

text \<open>The world as the process \<open>tgid\<close> sees it, and back.\<close>

definition dev_enter :: "int \<Rightarrow> user_context \<Rightarrow> kdev \<Rightarrow> kworld" where
  "dev_enter tgid u d = (kd_world d)\<lparr>k_uc := u, k_pt := kd_pt d tgid, k_fds := kd_fds d tgid\<rparr>"

definition dev_leave :: "kworld \<Rightarrow> kdev \<Rightarrow> kdev" where
  "dev_leave w d = d\<lparr>kd_world := w, kd_list := map (\<lambda>u. if uc_tgid u = uc_tgid (k_uc w) then k_uc w else u) (kd_list d)\<rparr>"

section \<open>Commands\<close>

text \<open>The bytes of a command: its number, then the fields at their offsets.\<close>

definition IWARP_REGISTER_SOCK :: u32 where "IWARP_REGISTER_SOCK = 1"
definition IWARP_SET_SOCK_ATTRS :: u32 where "IWARP_SET_SOCK_ATTRS = 2"
definition IWARP_INIT_STARTUP :: u32 where "IWARP_INIT_STARTUP = 3"
definition IWARP_DEREGISTER_SOCK :: u32 where "IWARP_DEREGISTER_SOCK = 4"
definition IWARP_POLL :: u32 where "IWARP_POLL = 5"
definition IWARP_POLL_BLOCK :: u32 where "IWARP_POLL_BLOCK = 6"
definition IWARP_CQ_CREATE :: u32 where "IWARP_CQ_CREATE = 7"
definition IWARP_CQ_DESTROY :: u32 where "IWARP_CQ_DESTROY = 8"
definition IWARP_MEM_REG :: u32 where "IWARP_MEM_REG = 9"
definition IWARP_MEM_DEREG :: u32 where "IWARP_MEM_DEREG = 10"
definition IWARP_STAG_CREATE :: u32 where "IWARP_STAG_CREATE = 11"
definition IWARP_STAG_DESTROY :: u32 where "IWARP_STAG_DESTROY = 12"
definition IWARP_SEND :: u32 where "IWARP_SEND = 13"
definition IWARP_POST_RECV :: u32 where "IWARP_POST_RECV = 14"
definition IWARP_RDMA_WRITE :: u32 where "IWARP_RDMA_WRITE = 15"
definition IWARP_RDMA_READ :: u32 where "IWARP_RDMA_READ = 16"
definition IWARP_ENCOURAGE :: u32 where "IWARP_ENCOURAGE = 17"

lemmas iwarp_cmd_defs = IWARP_REGISTER_SOCK_def IWARP_SET_SOCK_ATTRS_def IWARP_INIT_STARTUP_def
  IWARP_DEREGISTER_SOCK_def IWARP_POLL_def IWARP_POLL_BLOCK_def IWARP_CQ_CREATE_def IWARP_CQ_DESTROY_def
  IWARP_MEM_REG_def IWARP_MEM_DEREG_def IWARP_STAG_CREATE_def IWARP_STAG_DESTROY_def IWARP_SEND_def
  IWARP_POST_RECV_def IWARP_RDMA_WRITE_def IWARP_RDMA_READ_def IWARP_ENCOURAGE_def

definition fld16 :: "u8 list \<Rightarrow> nat \<Rightarrow> u16" where "fld16 bs off = of_le (take 2 (drop off bs))"
definition fld32 :: "u8 list \<Rightarrow> nat \<Rightarrow> u32" where "fld32 bs off = of_le (take 4 (drop off bs))"
definition fld64 :: "u8 list \<Rightarrow> nat \<Rightarrow> u64" where "fld64 bs off = of_le (take 8 (drop off bs))"

datatype k_cmd =
    RegisterSock u32 u64 u64
  | SetSockAttrs u32 u32 u32
  | InitStartup u32 u32 u64 u16 u64 u16
  | DeregisterSock u32
  | Poll u64 u64
  | PollBlock u32 u64 u64
  | CqCreate u32 u64
  | CqDestroy u64
  | MemReg u64 u64 u64
  | MemDereg u64
  | StagCreate u64 u64 u64 u32 u32 u64
  | StagDestroy stag
  | Send u32 u64 u64 u32 stag
  | PostRecv u32 u64 u64 u32 stag
  | RdmaWrite u32 u64 u64 u32 stag stag u64
  | RdmaRead u32 u64 stag u32 u32 stag u32
  | Encourage

text \<open>The size of the structure of a command; \<open>IWARP_ENCOURAGE\<close> takes any count.\<close>

definition cmd_size :: "u32 \<Rightarrow> nat option" where
  "cmd_size c =
     (if c = IWARP_REGISTER_SOCK then Some 24 else if c = IWARP_SET_SOCK_ATTRS then Some 16
      else if c = IWARP_INIT_STARTUP then Some 48 else if c = IWARP_DEREGISTER_SOCK then Some 8
      else if c = IWARP_POLL then Some 24 else if c = IWARP_POLL_BLOCK then Some 24
      else if c = IWARP_CQ_CREATE then Some 16 else if c = IWARP_CQ_DESTROY then Some 16
      else if c = IWARP_MEM_REG then Some 32 else if c = IWARP_MEM_DEREG then Some 16
      else if c = IWARP_STAG_CREATE then Some 48 else if c = IWARP_STAG_DESTROY then Some 8
      else if c = IWARP_SEND then Some 32 else if c = IWARP_POST_RECV then Some 32
      else if c = IWARP_RDMA_WRITE then Some 48 else if c = IWARP_RDMA_READ then Some 40
      else None)"

definition cmd_parse :: "u32 \<Rightarrow> u8 list \<Rightarrow> k_cmd" where
  "cmd_parse c b =
     (if c = IWARP_REGISTER_SOCK then RegisterSock (fld32 b 4) (fld64 b 8) (fld64 b 16)
      else if c = IWARP_SET_SOCK_ATTRS then SetSockAttrs (fld32 b 4) (fld32 b 8) (fld32 b 12)
      else if c = IWARP_INIT_STARTUP then InitStartup (fld32 b 4) (fld32 b 8) (fld64 b 16) (fld16 b 24) (fld64 b 32) (fld16 b 40)
      else if c = IWARP_DEREGISTER_SOCK then DeregisterSock (fld32 b 4)
      else if c = IWARP_POLL then Poll (fld64 b 8) (fld64 b 16)
      else if c = IWARP_POLL_BLOCK then PollBlock (fld32 b 4) (fld64 b 8) (fld64 b 16)
      else if c = IWARP_CQ_CREATE then CqCreate (fld32 b 4) (fld64 b 8)
      else if c = IWARP_CQ_DESTROY then CqDestroy (fld64 b 8)
      else if c = IWARP_MEM_REG then MemReg (fld64 b 8) (fld64 b 16) (fld64 b 24)
      else if c = IWARP_MEM_DEREG then MemDereg (fld64 b 8)
      else if c = IWARP_STAG_CREATE then StagCreate (fld64 b 8) (fld64 b 16) (fld64 b 24) (fld32 b 32) (fld32 b 36) (fld64 b 40)
      else if c = IWARP_STAG_DESTROY then StagDestroy (fld32 b 4)
      else if c = IWARP_SEND then Send (fld32 b 4) (fld64 b 8) (fld64 b 16) (fld32 b 24) (fld32 b 28)
      else if c = IWARP_POST_RECV then PostRecv (fld32 b 4) (fld64 b 8) (fld64 b 16) (fld32 b 24) (fld32 b 28)
      else if c = IWARP_RDMA_WRITE then RdmaWrite (fld32 b 4) (fld64 b 8) (fld64 b 16) (fld32 b 24) (fld32 b 28) (fld32 b 32) (fld64 b 40)
      else if c = IWARP_RDMA_READ then RdmaRead (fld32 b 4) (fld64 b 8) (fld32 b 16) (fld32 b 20) (fld32 b 24) (fld32 b 28) (fld32 b 32)
      else Encourage)"

text \<open>Handing a result to the process.\<close>

definition give_user :: "u64 \<Rightarrow> u8 list \<Rightarrow> kworld \<Rightarrow> int \<times> kworld" where
  "give_user a bs w = (let (ok, w) = copy_to_user a bs w in (if ok then 0 else - EFAULT, w))"

definition set_mm :: "k_mem_manager \<Rightarrow> kworld \<Rightarrow> kworld" where
  "set_mm m w = set_uc ((k_uc w)\<lparr>uc_mm := m\<rparr>) w"

definition set_cqs :: "cq_ctx \<Rightarrow> kworld \<Rightarrow> kworld" where
  "set_cqs c w = set_uc ((k_uc w)\<lparr>uc_cq := c\<rparr>) w"

section \<open>The cases of the switch\<close>

definition dev_register_sock :: "u32 \<Rightarrow> u64 \<Rightarrow> u64 \<Rightarrow> kworld \<Rightarrow> (int \<times> kworld) outcome" where
  "dev_register_sock fd sq rq w =
     (if k_cq_lookup sq (uc_cq (k_uc w)) = None then Done (- EINVAL, w)
      else if k_cq_lookup rq (uc_cq (k_uc w)) = None then Done (- EINVAL, w)
      else k_rdmap_register_sock fd sq rq w)"

definition dev_poll :: "u64 \<Rightarrow> u64 \<Rightarrow> kworld \<Rightarrow> (int \<times> kworld) outcome" where
  "dev_poll h wc w = (if k_cq_lookup h (uc_cq (k_uc w)) = None then Done (- EINVAL, w) else k_rdmap_poll h wc w)"

definition dev_poll_block :: "u32 \<Rightarrow> u64 \<Rightarrow> u64 \<Rightarrow> kworld \<Rightarrow> (int \<times> kworld) outcome option" where
  "dev_poll_block fd h wc w =
     (if k_cq_lookup h (uc_cq (k_uc w)) = None then Some (Done (- EINVAL, w)) else k_rdmap_poll_block h fd wc w)"

definition dev_cq_create :: "u32 \<Rightarrow> u64 \<Rightarrow> kworld \<Rightarrow> int \<times> kworld" where
  "dev_cq_create depth out w =
     (let num = sint depth;
          (a, w1) = kmalloc w; (b, w2) = kmalloc w1;
          (cq, uc) = k_cq_create (a \<noteq> None) (map_option (\<lambda>_. k_junk_cqe w) b) num (uc_cq (k_uc w));
          w = set_cqs uc (if num \<le> 0 then w else if a = None then w1 else w2)
      in case cq of None \<Rightarrow> (- ENOMEM, w) | Some q \<Rightarrow> give_user out (le64 (kq_handle q)) w)"

definition dev_cq_destroy :: "u64 \<Rightarrow> kworld \<Rightarrow> int \<times> kworld" where
  "dev_cq_destroy h w =
     (case k_cq_lookup h (uc_cq (k_uc w)) of
        None \<Rightarrow> (- EINVAL, w)
      | Some q \<Rightarrow> let (ret, uc) = k_cq_destroy q (uc_cq (k_uc w)) in (ret, set_cqs uc w))"

definition dev_mem_reg :: "u64 \<Rightarrow> u64 \<Rightarrow> u64 \<Rightarrow> kworld \<Rightarrow> (int \<times> kworld) outcome" where
  "dev_mem_reg addr len out w =
     (let gup = (case k_gup w of [] \<Rightarrow> [] | g # _ \<Rightarrow> g);
          w = w\<lparr>k_gup := tl (k_gup w)\<rparr>;
          (table, w) = kmalloc w; (pages, w) = kmalloc w; (caddr, w) = kmalloc w
      in bindO (k_mem_register (k_pt w) gup table (pages \<noteq> None) (caddr \<noteq> None) addr len (uc_mm (k_uc w))) (\<lambda>(md, m).
           let w = set_mm m w in if md = 0 then Done (- EINVAL, w) else Done (give_user out (le64 md) w)))"

definition dev_mem_dereg :: "u64 \<Rightarrow> kworld \<Rightarrow> (int \<times> kworld) outcome" where
  "dev_mem_dereg md w = bindO (k_mem_deregister md (uc_mm (k_uc w))) (\<lambda>(ret, m). Done (ret, set_mm m w))"

definition dev_stag_create :: "u64 \<Rightarrow> u64 \<Rightarrow> u64 \<Rightarrow> u32 \<Rightarrow> u32 \<Rightarrow> u64 \<Rightarrow> kworld \<Rightarrow> (int \<times> kworld) outcome" where
  "dev_stag_create md start len rw prot_domain out w =
     (let (a, w) = kmalloc w;
          ms = k_mallocs w;
          nodes = (\<lambda>i. i < length ms \<and> ms ! i \<noteq> None)
      in bindO (k_mem_stag_create (k_hash w) a nodes md start len rw prot_domain (uc_mm (k_uc w))) (\<lambda>(stag, m).
           let turns = unat (km_next_cntr m - km_next_cntr (uc_mm (k_uc w)));
               w = set_mm m (w\<lparr>k_mallocs := drop turns ms\<rparr>)
           in if sint stag < 0 then Done (- EINVAL, w) else Done (give_user out (le32 stag) w)))"

definition dev_stag_destroy :: "stag \<Rightarrow> kworld \<Rightarrow> (int \<times> kworld) outcome" where
  "dev_stag_destroy stag w =
     bindO (k_mem_stag_destroy (k_hash w) stag (uc_mm (k_uc w))) (\<lambda>(ret, m). Done (ret, set_mm m w))"

text \<open>The offsets of a read request are 32 bits wide in the command: one is extended by zeros, one by its sign.\<close>

definition k_cmd_run :: "k_cmd \<Rightarrow> kworld \<Rightarrow> (int \<times> kworld) outcome option" where
  "k_cmd_run c w =
     (case c of
        RegisterSock fd sq rq \<Rightarrow> Some (dev_register_sock fd sq rq w)
      | SetSockAttrs fd crc mrkrs \<Rightarrow> Some (Done (k_rdmap_set_sock_attrs fd crc mrkrs w))
      | InitStartup fd ini pd_in len_in pd_out len_out \<Rightarrow> Some (k_rdmap_init_startup fd (ini \<noteq> 0) pd_in len_in pd_out len_out w)
      | DeregisterSock fd \<Rightarrow> Some (k_rdmap_deregister_sock fd w)
      | Poll h wc \<Rightarrow> Some (dev_poll h wc w)
      | PollBlock fd h wc \<Rightarrow> dev_poll_block fd h wc w
      | CqCreate depth out \<Rightarrow> Some (Done (dev_cq_create depth out w))
      | CqDestroy h \<Rightarrow> Some (Done (dev_cq_destroy h w))
      | MemReg addr len out \<Rightarrow> Some (dev_mem_reg addr len out w)
      | MemDereg md \<Rightarrow> Some (dev_mem_dereg md w)
      | StagCreate md start len rw prot out \<Rightarrow> Some (dev_stag_create md start len rw prot out w)
      | StagDestroy stag \<Rightarrow> Some (dev_stag_destroy stag w)
      | Send fd wrid buf len stag \<Rightarrow> Some (k_rdmap_send fd wrid buf (ucast len) stag w)
      | PostRecv fd wrid buf len stag \<Rightarrow> Some (k_rdmap_post_recv fd wrid buf (ucast len) stag w)
      | RdmaWrite fd wrid buf len stag sink_stag sink_to \<Rightarrow> Some (k_rdmap_rdma_write fd wrid buf (ucast len) stag sink_stag sink_to w)
      | RdmaRead fd wrid sink_stag sink_to len src_stag src_to \<Rightarrow>
          Some (k_rdmap_rdma_read fd wrid sink_stag (ucast sink_to) len src_stag (scast src_to) w)
      | Encourage \<Rightarrow> Some (k_rdmap_encourage None w))"

text \<open>
  \<open>iwarp_write\<close>: the count, as an \<open>int\<close>, when the command returned 0, the value of the command otherwise.
  \<open>None\<close>: it does not return.
\<close>

definition iwarp_write :: "u64 \<Rightarrow> nat \<Rightarrow> kworld \<Rightarrow> (int \<times> kworld) outcome option" where
  "iwarp_write ubuf cnt w =
     (if cnt < 4 then Some (Done (- EINVAL, w))
      else case copy_from_user ubuf 4 w of
             None \<Rightarrow> Some (Done (- EFAULT, w))
           | Some b \<Rightarrow>
               let cmd = of_le b
               in if cmd = IWARP_ENCOURAGE then
                    map_option (\<lambda>m. bindO m (\<lambda>(ret, w). Done (if ret = 0 then c_int (int cnt) else ret, w))) (k_cmd_run Encourage w)
                  else case cmd_size cmd of
                         None \<Rightarrow> Some (Done (- EINVAL, w))
                       | Some n \<Rightarrow>
                           if cnt \<noteq> n then Some (Done (- EINVAL, w))
                           else case copy_from_user ubuf n w of
                                  None \<Rightarrow> Some (Done (- EFAULT, w))
                                | Some bs \<Rightarrow>
                                    map_option (\<lambda>m. bindO m (\<lambda>(ret, w). Done (if ret = 0 then c_int (int cnt) else ret, w)))
                                      (k_cmd_run (cmd_parse cmd bs) w))"

definition iwarp_read :: "bool \<Rightarrow> nat \<Rightarrow> int" where
  "iwarp_read same_pos len = (if \<not> same_pos then - 29 else if len = 0 then 0 else - EINVAL)"

section \<open>Opening and releasing\<close>

text \<open>
  A process has one context at a time. The allocations are the context, its memory manager, the table of
  regions, the table of tags and its array, the table of sockets and its array.
\<close>

definition uc_junk :: "int \<Rightarrow> kworld \<Rightarrow> user_context" where
  "uc_junk tgid w = (k_uc w)\<lparr>uc_tgid := tgid, uc_cq := \<lparr>cq_list = [], cq_list_next_handle = 1\<rparr>\<rparr>"

definition iwarp_open :: "int \<Rightarrow> kdev \<Rightarrow> int \<times> kdev" where
  "iwarp_open tgid d =
     (if \<exists>u\<in>set (kd_list d). uc_tgid u = tgid then (- EBUSY, d)
      else
        let (a, w) = kmalloc (kd_world d) in
        if a = None then (- ENOMEM, d\<lparr>kd_world := w\<rparr>)
        else
          let u = uc_junk tgid w; (a, w) = kmalloc w in
          if a = None then (- ENOMEM, d\<lparr>kd_world := w\<rparr>)
          else
            let (table, w1) = kmalloc w; (ht, w2) = (if table = None then (None, w1) else kmalloc w1);
                (htab, w) = (if ht = None then (None, w2) else kmalloc w2);
                (ret, m) = k_mem_initialize table (ht \<noteq> None) (htab \<noteq> None) (uc_mm u)
            in if ret < 0 then (ret, d\<lparr>kd_world := w\<rparr>)
               else
                 let (a, w) = kmalloc w in
                 if a = None then (- ENOMEM, d\<lparr>kd_world := w\<rparr>)
                 else
                   let (htab, w) = kmalloc w; (ret, t) = k_ht_create (htab \<noteq> None) 4
                   in if ret < 0 then (ret, d\<lparr>kd_world := w\<rparr>)
                      else (0, d\<lparr>kd_world := w, kd_list := u\<lparr>uc_mm := m, uc_fdhash := t\<rparr> # kd_list d\<rparr>))"

fun release_socks :: "k_iwsk list \<Rightarrow> kworld \<Rightarrow> kworld outcome" where
  "release_socks [] w = Done w"
| "release_socks (s # ss) w = bindO (k_rdmap_release_sock_res s w) (\<lambda>w. release_socks ss w)"

text \<open>All sockets are released, then the tags, then the queues; a queue still in use is left behind.\<close>

definition release_cqs :: "cq_ctx \<Rightarrow> cq_ctx" where
  "release_cqs uc = fold (\<lambda>q uc. snd (k_cq_destroy q uc)) (cq_list uc) uc"

definition k_iwarp_release :: "kworld \<Rightarrow> (int \<times> kworld) outcome" where
  "k_iwarp_release w =
     (let (_, vals, t) = k_ht_destroy_callback (uc_fdhash (k_uc w))
      in bindO (release_socks vals (k_set_fdhash t w)) (\<lambda>w.
           bindO (k_mem_release (k_hash w) (uc_mm (k_uc w))) (\<lambda>(ret, m).
             let w = set_mm m w in Done (ret, set_cqs (release_cqs (uc_cq (k_uc w))) w))))"

section \<open>Calls of processes\<close>

text \<open>A call on the device by a process, and what it returns; \<open>None\<close> if it does not come back.\<close>

datatype dev_call = DevOpen int | DevWrite int u64 nat | DevRelease int

definition dev_call_run :: "dev_call \<Rightarrow> kdev \<Rightarrow> (int \<times> kdev) outcome option" where
  "dev_call_run c d =
     (case c of
        DevOpen tgid \<Rightarrow> Some (Done (iwarp_open tgid d))
      | DevWrite tgid ubuf cnt \<Rightarrow>
          (case find (\<lambda>u. uc_tgid u = tgid) (kd_list d) of
             None \<Rightarrow> Some (Done (- EBADF, d))
           | Some u \<Rightarrow> map_option (\<lambda>m. bindO m (\<lambda>(ret, w). Done (ret, dev_leave w d))) (iwarp_write ubuf cnt (dev_enter tgid u d)))
      | DevRelease tgid \<Rightarrow>
          (case find (\<lambda>u. uc_tgid u = tgid) (kd_list d) of
             None \<Rightarrow> Some (Done (- EBADF, d))
           | Some u \<Rightarrow> Some (bindO (k_iwarp_release (dev_enter tgid u d)) (\<lambda>(ret, w).
               Done (ret, d\<lparr>kd_world := w, kd_list := filter (\<lambda>u. uc_tgid u \<noteq> tgid) (kd_list d)\<rparr>)))))"

end
