(* ===== verification/K_Keeps.thy ===== *)
theory K_Keeps
  imports K_Rdmap K_Mem_Inv
begin

text \<open>
  What the layers of the kernel module leave alone when they work on a socket. Sending and receiving keep the
  table of sockets, the references to files, the handles and use counts of the completion queues and the
  memory manager, return 0 or an error, and store bytes from the peer only in pages of regions that have a tag
  with the right to write. The lemmas go up the call graph, from the transfers to the polling of all sockets.
\<close>

section \<open>The pages a peer can reach\<close>

definition recv_page :: "(u64 \<Rightarrow> nat \<Rightarrow> nat) \<Rightarrow> k_mem_manager \<Rightarrow> nat \<Rightarrow> bool" where
  "recv_page hash m pg \<longleftrightarrow> (\<exists>sd mr. sd \<in> live_tags hash m \<and> ks_rw sd AND STAG_W \<noteq> 0 \<and> sd_region sd m = Done mr
     \<and> pg \<in> set (take (kr_npages mr) (kr_page_list mr)))"

text \<open>The buffers posted on a socket are in tags with the right to write.\<close>

definition posted_ok :: "k_iwsk \<Rightarrow> bool" where
  "posted_ok s \<longleftrightarrow> (\<forall>rb\<in>set (kq_send (kx_rdmapsk s)). ks_rw (rb_sd rb) AND STAG_W \<noteq> 0)"

definition cqs_keep :: "cq_ctx \<Rightarrow> cq_ctx \<Rightarrow> bool" where
  "cqs_keep c c' \<longleftrightarrow> cq_list_next_handle c' = cq_list_next_handle c
     \<and> map kq_handle (cq_list c') = map kq_handle (cq_list c)
     \<and> (distinct (map kq_handle (cq_list c)) \<longrightarrow> map kq_refcnt (cq_list c') = map kq_refcnt (cq_list c))
     \<and> ((\<forall>q\<in>set (cq_list c). k_cq_inv q) \<longrightarrow> (\<forall>q\<in>set (cq_list c'). k_cq_inv q))"

definition k_keeps :: "k_iwsk \<Rightarrow> kworld \<Rightarrow> k_iwsk \<Rightarrow> kworld \<Rightarrow> bool" where
  "k_keeps s w s' w' \<longleftrightarrow> kx_filp s' = kx_filp s \<and> kx_scq s' = kx_scq s \<and> kx_rcq s' = kx_rcq s
     \<and> uc_mm (k_uc w') = uc_mm (k_uc w) \<and> uc_fdhash (k_uc w') = uc_fdhash (k_uc w) \<and> uc_tgid (k_uc w') = uc_tgid (k_uc w)
     \<and> k_hash w' = k_hash w \<and> k_refs w' = k_refs w \<and> k_pt w' = k_pt w \<and> k_fds w' = k_fds w \<and> k_files w' = k_files w
     \<and> cqs_keep (uc_cq (k_uc w)) (uc_cq (k_uc w'))
     \<and> (posted_ok s \<longrightarrow> posted_ok s' \<and>
          (\<forall>pg off. k_frames w' pg off \<noteq> k_frames w pg off \<longrightarrow> recv_page (k_hash w) (uc_mm (k_uc w)) pg))"

text \<open>The result of a call on a socket.\<close>

fun k_post :: "k_iwsk \<Rightarrow> kworld \<Rightarrow> int \<times> k_iwsk \<times> kworld \<Rightarrow> bool" where
  "k_post s w (ret, s', w') \<longleftrightarrow> ret \<le> 0 \<and> k_keeps s w s' w'"

lemma cqs_keep_refl [simp]: "cqs_keep c c"
  by (simp add: cqs_keep_def)

lemma cqs_keep_trans: "cqs_keep c c' \<Longrightarrow> cqs_keep c' c'' \<Longrightarrow> cqs_keep c c''"
  by (simp add: cqs_keep_def)

lemma k_keeps_refl [simp]: "k_keeps s w s w"
  by (simp add: k_keeps_def)

lemma k_keeps_trans:
  assumes "k_keeps s w s1 w1" "k_keeps s1 w1 s2 w2"
  shows "k_keeps s w s2 w2"
  using assms cqs_keep_trans [of "uc_cq (k_uc w)" "uc_cq (k_uc w1)" "uc_cq (k_uc w2)"]
  unfolding k_keeps_def by metis

lemma okO_post_trans:
  assumes "k_keeps s w s1 w1" "okO (k_post s1 w1) m"
  shows "okO (k_post s w) m"
  using assms(2) by (rule okO_mono) (use k_keeps_trans [OF assms(1)] in auto)

lemma k_keeps_upd [simp]:
  "k_keeps s w s' (w'\<lparr>k_mallocs := ms\<rparr>) = k_keeps s w s' w'"
  "k_keeps s w s' (set_kconn f c w') = k_keeps s w s' w'"
  "k_keeps s w (s'\<lparr>kx_mpask := m\<rparr>) w' = k_keeps s w s' w'"
  "k_keeps s w (s'\<lparr>kx_ddpsk := d\<rparr>) w' = k_keeps s w s' w'"
  "k_keeps s w (s'\<lparr>kx_valid := v\<rparr>) w' = k_keeps s w s' w'"
  "k_keeps (s\<lparr>kx_ddpsk := d\<rparr>) w s' w' = k_keeps s w s' w'"
  "k_keeps s w (k_iwsk_add_mpask_send_sp p s') w' = k_keeps s w s' w'"
  "k_keeps s w (k_iwsk_add_mpask_recv_sp p s') w' = k_keeps s w s' w'"
  "k_keeps s w (k_iwsk_inc_ddpsk_send_msn s') w' = k_keeps s w s' w'"
  "k_keeps s w (k_iwsk_inc_ddpsk_recv_msn s') w' = k_keeps s w s' w'"
  "k_keeps s w (k_iwsk_inc_rdmapsk_sink_msn s') w' = k_keeps s w s' w'"
  by (simp_all add: k_keeps_def set_kconn_def posted_ok_def k_iwsk_add_mpask_send_sp_def k_iwsk_add_mpask_recv_sp_def
    k_iwsk_inc_ddpsk_send_msn_def k_iwsk_inc_ddpsk_recv_msn_def k_iwsk_inc_rdmapsk_sink_msn_def)

lemma k_keeps_queue:
  "set (kq_send r) \<subseteq> set (kq_send (kx_rdmapsk s')) \<Longrightarrow> k_keeps s w s' w' \<Longrightarrow> k_keeps s w (s'\<lparr>kx_rdmapsk := r\<rparr>) w'"
  by (auto simp: k_keeps_def posted_ok_def)

section \<open>Transfers and allocation\<close>

lemma kmalloc_keeps: "kmalloc w' = (a, w'') \<Longrightarrow> k_keeps s w s' w'' = k_keeps s w s' w'"
  by (auto simp: kmalloc_def split: list.splits)

lemma recvmsg_full_ret: "recvmsg_full ans len inp = (ret, bs, inp', ans') \<Longrightarrow> ret \<le> 0"
  using recvmsg_full_split by fastforce

lemma sendmsg_full_ret: "okO (\<lambda>(ret, out, ans'). ret \<le> 0) (sendmsg_full ans vec len)"
proof (induction "length vec" arbitrary: ans vec len rule: less_induct)
  case less
  have neg: "sys_count a n m = SysErr \<Longrightarrow> hd a \<le> 0" for a n m
    by (auto simp: sys_count_def split: list.splits if_splits)
  have IH: "okO (\<lambda>(ret, out, ans'). ret \<le> 0) (sendmsg_full a (drop (Suc k) vec) l)" if "\<not> length vec \<le> k" for a k l
    using that by (intro less) auto
  show ?case
    by (subst sendmsg_full.simps)
      (auto simp: Let_def okO_def outcome_simps split: sysret.splits prod.splits intro: neg dest!: okO_D [OF IH, rotated])
qed

lemma kernel_recvmsg_keeps:
  "kernel_recvmsg_full f len w' = (ret, bs, w'') \<Longrightarrow> ret \<le> 0 \<and> k_keeps s w s' w'' = k_keeps s w s' w'"
  by (auto simp: kernel_recvmsg_full_def Let_def split: prod.splits dest: recvmsg_full_ret)

lemma kernel_sendmsg_keeps:
  "kernel_sendmsg_full f vec len w' = Done (ret, w'') \<Longrightarrow> ret \<le> 0 \<and> k_keeps s w s' w'' = k_keeps s w s' w'"
  by (auto simp: kernel_sendmsg_full_def Let_def outcome_simps dest: okO_D [OF sendmsg_full_ret])

lemma k_cq_lookup_Some: "k_cq_lookup h c = Some q \<Longrightarrow> q \<in> set (cq_list c) \<and> kq_handle q = h"
  by (auto simp: k_cq_lookup_def find_Some_iff)

lemma k_cq_store_keep:
  assumes "k_cq_lookup h c = Some q" "kq_handle q' = kq_handle q" "kq_refcnt q' = kq_refcnt q" "k_cq_inv q \<Longrightarrow> k_cq_inv q'"
  shows "cqs_keep c (k_cq_store q' c)"
proof -
  note q = k_cq_lookup_Some [OF assms(1)]
  have "x = q" if "distinct (map kq_handle (cq_list c))" "x \<in> set (cq_list c)" "kq_handle x = kq_handle q" for x
    using inj_onD [OF distinct_map [THEN iffD1, THEN conjunct2], OF that(1,3,2)] q by blast
  with assms q show ?thesis by (auto simp: cqs_keep_def k_cq_store_def)
qed

lemma set_uc_simps [simp]:
  "k_uc (set_uc u w) = u" "k_hash (set_uc u w) = k_hash w" "k_refs (set_uc u w) = k_refs w" "k_pt (set_uc u w) = k_pt w"
  "k_fds (set_uc u w) = k_fds w" "k_files (set_uc u w) = k_files w" "k_frames (set_uc u w) = k_frames w"
  "k_mallocs (set_uc u w) = k_mallocs w" "k_junk (set_uc u w) = k_junk w" "k_conns (set_uc u w) = k_conns w"
  by (simp_all add: set_uc_def)

lemma k_keeps_cqs:
  "k_keeps s w s' w' \<Longrightarrow> cqs_keep (uc_cq (k_uc w')) c \<Longrightarrow> k_keeps s w s' (set_uc ((k_uc w')\<lparr>uc_cq := c\<rparr>) w')"
  using cqs_keep_trans [of "uc_cq (k_uc w)" "uc_cq (k_uc w')" c] by (simp add: k_keeps_def)

lemma k_produce_keeps:
  assumes "k_produce h e w' = Done (ret, w'')" "k_keeps s w s' w'"
  shows "ret \<le> 0 \<and> k_keeps s w s' w''"
proof -
  obtain q where q: "k_cq_lookup h (uc_cq (k_uc w')) = Some q"
    "w'' = set_uc ((k_uc w')\<lparr>uc_cq := k_cq_store (snd (k_cq_produce e q)) (uc_cq (k_uc w'))\<rparr>) w'" "ret = fst (k_cq_produce e q)"
    using assms(1) by (auto simp: k_produce_def split: option.splits prod.splits)
  have "k_cq_inv q \<Longrightarrow> k_cq_inv (snd (k_cq_produce e q))" using k_cq_inv_steps by blast
  then have "cqs_keep (uc_cq (k_uc w')) (k_cq_store (snd (k_cq_produce e q)) (uc_cq (k_uc w')))"
    by (intro k_cq_store_keep [OF q(1)]) (simp_all add: k_cq_keeps)
  from k_keeps_cqs [OF assms(2) this] q(2,3) show ?thesis by (simp add: k_cq_produce_def Let_def)
qed

lemma k_consume_keeps:
  assumes "k_consume h w' = Done (ret, e, w'')" "k_keeps s w s' w'"
  shows "ret \<le> 0 \<and> k_keeps s w s' w''"
proof -
  obtain q where q: "k_cq_lookup h (uc_cq (k_uc w')) = Some q"
    "w'' = set_uc ((k_uc w')\<lparr>uc_cq := k_cq_store (snd (snd (k_cq_consume q))) (uc_cq (k_uc w'))\<rparr>) w'" "ret = fst (k_cq_consume q)"
    using assms(1) by (auto simp: k_consume_def split: option.splits prod.splits)
  have "k_cq_inv q \<Longrightarrow> k_cq_inv (snd (snd (k_cq_consume q)))" using k_cq_inv_steps by blast
  then have "cqs_keep (uc_cq (k_uc w')) (k_cq_store (snd (snd (k_cq_consume q))) (uc_cq (k_uc w')))"
    by (intro k_cq_store_keep [OF q(1)]) (simp_all add: k_cq_keeps)
  from k_keeps_cqs [OF assms(2) this] q(2,3) show ?thesis by (simp add: k_cq_consume_def Let_def)
qed

section \<open>Sending\<close>

lemma k_mpa_send_post: "okO (k_post s w) (k_mpa_send hdr v len s w)"
  unfolding k_mpa_send_def k_mpa_send_plain_fpdu_def
  by (intro okO_intros)
     (auto dest!: kernel_sendmsg_keeps [where s = s and w = w and s' = s] kmalloc_keeps [where s = s and w = w and s' = s])

lemma k_utm_loop_post: "ret \<le> 0 \<Longrightarrow> okO (k_post s w) (k_utm_loop n msg msg_len h len mo ret s w)"
proof (induction n arbitrary: h len mo ret s w)
  case (Suc n)
  have IH: "okO (k_post s w) (k_utm_loop n msg msg_len h len mo ret s1 w1)" if "k_post s w (ret, s1, w1)" for h len mo ret s1 w1
    using that by (intro okO_post_trans [OF _ Suc.IH]) auto
  show ?case
    unfolding k_utm_loop.simps
    by (intro okO_intros IH) (auto dest: okO_D [OF k_mpa_send_post])
qed (simp add: okO_def)

lemma k_ddp_send_utm_post: "okO (k_post s w) (k_ddp_send_utm msg msg_len qn c p s w)"
  unfolding k_ddp_send_utm_def
  by (intro okO_intros okO_bind [OF k_utm_loop_post]) auto

lemma k_tm_fill_ret: "okO (\<lambda>(ret, v, mo'). ret \<le> 0) (k_tm_fill pgs ms buf left mo numiov)"
proof (induction "nat left" arbitrary: left mo numiov rule: less_induct)
  case less
  define n where "n = (if left > int (unat PAGE_SIZE) - int (unat ((buf + ucast mo) AND NOT PAGE_MASK))
    then int (unat PAGE_SIZE) - int (unat ((buf + ucast mo) AND NOT PAGE_MASK)) else left)"
  have "int (unat ((buf + ucast mo) AND NOT PAGE_MASK)) < 4096"
    using page_offset_less [of "buf + ucast mo"] by linarith
  then have "0 < left \<Longrightarrow> 0 < n" by (auto simp: n_def)
  then have IH: "\<not> left \<le> 0 \<Longrightarrow> okO (\<lambda>(ret, v, mo'). ret \<le> 0) (k_tm_fill pgs ms buf (left - n) (mo + of_int n) (Suc numiov))"
    by (intro less) simp
  show ?case
    by (subst k_tm_fill.simps, unfold Let_def, fold n_def) (intro okO_intros okO_bind [OF IH]; auto)
qed

lemma k_tm_loop_post: "ret \<le> 0 \<Longrightarrow> okO (k_post s w) (k_tm_loop n pgs ms buf msg_len sink_to h len mo ret s w)"
proof (induction n arbitrary: h len mo ret s w)
  case (Suc n)
  have IH: "okO (k_post s w) (k_tm_loop n pgs ms buf msg_len sink_to h len mo ret s1 w1)" if "k_post s w (ret, s1, w1)" for h len mo ret s1 w1
    using that by (intro okO_post_trans [OF _ Suc.IH]) auto
  show ?case
    unfolding k_tm_loop.simps
    by (intro okO_intros IH) (auto dest: okO_D [OF k_mpa_send_post])
qed (simp add: okO_def)

lemma k_ddp_send_tm_post: "okO (k_post s w) (k_ddp_send_tm sd msg len c stag to s w)"
  unfolding k_ddp_send_tm_def by (intro okO_intros k_tm_loop_post) auto

section \<open>Completing messages\<close>

lemma k_rdmap_recv_send_post: "okO (k_post s w) (k_rdmap_recv_send cf len s w)"
  unfolding k_rdmap_recv_send_def
  by (intro okO_intros) (auto dest!: k_produce_keeps [where s = s and w = w and s' = s] intro!: k_keeps_queue)

lemma k_rdmap_recv_rrr_post: "okO (k_post s w) (k_rdmap_recv_rrr cf s w)"
proof -
  have sent: "okO (k_post s w)
      (if c then Done (- EBADMSG, s, w) else case d of None \<Rightarrow> Done (- EINVAL, s, w) | Some sd \<Rightarrow> k_ddp_send_tm sd a l cf' st to s w)"
    for c d a l cf' st to
    by (intro okO_intros k_ddp_send_tm_post) auto
  show ?thesis
    unfolding k_rdmap_recv_rrr_def Let_def
    by (intro okO_intros okO_bind [OF sent]) (auto intro!: k_keeps_queue)
qed

lemma k_rdmap_recv_term_post: "okO (k_post s w) (k_rdmap_recv_term_msg cf s w)"
  unfolding k_rdmap_recv_term_msg_def Let_def
  by (intro okO_intros)
     (auto simp: outcome_simps dest!: k_produce_keeps [where s = s and w = w and s' = s] intro!: k_keeps_queue split: if_splits)

lemma k_rdmap_untag_recv_post: "okO (k_post s w) (k_rdmap_untag_recv cf qn len s w)"
  unfolding k_rdmap_untag_recv_def
  by (intro okO_intros k_rdmap_recv_send_post k_rdmap_recv_rrr_post k_rdmap_recv_term_post) auto

lemma k_reap_loop_post:
  "ret \<le> 0 \<Longrightarrow> k_keeps s w0 s w \<Longrightarrow> okO (\<lambda>(ret, ds', w'). ret \<le> 0 \<and> k_keeps s w0 s w') (k_reap_loop op q ret ds w)"
proof (induction ds arbitrary: ret w)
  case (Cons d ds)
  show ?case
    unfolding k_reap_loop.simps
    by (intro okO_intros Cons.IH) (auto dest!: k_produce_keeps [OF _ Cons.prems(2)] simp: Cons.prems)
qed (simp add: okO_def)

lemma k_rdmap_tag_recv_post: "okO (k_post s w) (k_rdmap_tag_recv cf stag len s w)"
  unfolding k_rdmap_tag_recv_def k_rdmap_reap_rwr_def Let_def
  by (intro okO_intros okO_bind [OF k_reap_loop_post [where s = s and ?w0.0 = w]]) (auto intro!: k_keeps_queue)

lemma k_outst_alloc_keeps: "k_outst_alloc found fin w' = (ok, w'') \<Longrightarrow> k_keeps s w s' w'' = k_keeps s w s' w'"
  by (auto simp: k_outst_alloc_def split: if_splits prod.splits dest!: kmalloc_keeps)

lemma k_ddp_process_post: "okO (k_post s w) (k_ddp_process_ulpdu hdr s w)"
proof -
  have u: "okO (k_post s w) (k_rdmap_untag_recv cf qn len (s\<lparr>kx_ddpsk := d\<rparr>) w1)"
    and t: "okO (k_post s w) (k_rdmap_tag_recv cf st len (s\<lparr>kx_ddpsk := d\<rparr>) w1)" if "k_keeps s w s w1" for cf qn len d w1 st
    using that by (auto intro!: okO_post_trans [OF _ k_rdmap_untag_recv_post] okO_post_trans [OF _ k_rdmap_tag_recv_post])
  show ?thesis
    unfolding k_ddp_process_ulpdu_def k_ddp_process_tag_ulpdu_def k_ddp_process_untag_ulpdu_def
    by (intro okO_intros okO_bind [OF t] okO_bind [OF u]) (auto dest!: k_outst_alloc_keeps [where s = s and w = w and s' = s])
qed

section \<open>Sinks\<close>

lemma k_ht_lookup_map: "k_ht_lookup hash t k = (r, Some v) \<Longrightarrow> k_ht_map hash t k = Some v"
  by (auto simp: k_ht_lookup_def k_ht_map_def find_map_of split: option.splits)

lemma fill_loop_pages: "okO (\<lambda>(ret, v). ret \<le> 0 \<and> fst ` set v \<subseteq> set pgs) (fill_loop pgs ms len buf alloc k)"
proof (induction "nat len" arbitrary: len buf k rule: less_induct)
  case less
  define n where "n = (if len > int (unat PAGE_SIZE) - int (unat (buf AND NOT PAGE_MASK))
    then int (unat PAGE_SIZE) - int (unat (buf AND NOT PAGE_MASK)) else len)"
  have "int (unat (buf AND NOT PAGE_MASK)) < 4096"
    using page_offset_less [of buf] by linarith
  then have "0 < len \<Longrightarrow> 0 < n" by (auto simp: n_def)
  then have IH: "\<not> len \<le> 0 \<Longrightarrow> okO (\<lambda>(ret, v). ret \<le> 0 \<and> fst ` set v \<subseteq> set pgs) (fill_loop pgs ms (len - n) (buf + of_int n) alloc (Suc k))"
    by (intro less) simp
  show ?case
    by (subst fill_loop.simps, unfold Let_def, fold n_def) (intro okO_intros okO_bind [OF IH]; auto)
qed

lemma fill_iovec_recv:
  assumes "k_mem_fill_iovec a len off sd alloc k (uc_mm (k_uc w)) = Done (ret, v)" "k_sd_live sd w" "ks_rw sd AND STAG_W \<noteq> 0"
  shows "ret \<le> 0 \<and> (\<forall>pg\<in>fst ` set v. recv_page (k_hash w) (uc_mm (k_uc w)) pg)"
proof -
  obtain mr where mr: "sd_region sd (uc_mm (k_uc w)) = Done mr"
    "fill_loop (take (kr_npages mr) (kr_page_list mr)) (drop_bit PAGE_SHIFT (kr_start mr)) len (a + scast off) alloc k = Done (ret, v)"
    using assms(1) by (auto simp: k_mem_fill_iovec_def outcome_simps)
  have "sd \<in> live_tags (k_hash w) (uc_mm (k_uc w))"
    using k_ht_lookup_map assms(2) by (fastforce simp: k_sd_live_def live_tags_def ran_def)
  with okO_D [OF fill_loop_pages mr(2)] mr(1) assms(3) show ?thesis by (force simp: recv_page_def)
qed

lemma k_mem_stag_desc_right:
  "k_mem_stag_desc hash stag a len rw m = Some sd \<Longrightarrow> rw AND STAG_W \<noteq> 0 \<Longrightarrow> ks_rw sd AND STAG_W \<noteq> 0"
  by (auto simp: k_mem_stag_desc_def split: option.splits prod.splits if_splits)

text \<open>A place in pages, or in an entry of the module.\<close>

definition place_ok :: "kworld \<Rightarrow> k_place \<Rightarrow> bool" where
  "place_ok w pl \<longleftrightarrow> (case pl of KPages v \<Rightarrow> \<forall>pg\<in>fst ` set v. recv_page (k_hash w) (uc_mm (k_uc w)) pg | KBuf _ _ _ _ \<Rightarrow> True)"

definition sink_ok :: "k_sink \<Rightarrow> bool" where
  "sink_ok snk \<longleftrightarrow> (case snk of KUser rb \<Rightarrow> ks_rw (rb_sd rb) AND STAG_W \<noteq> 0 | KEntry _ _ \<Rightarrow> True)"

lemma sink_ok_entry [simp]: "sink_ok (KEntry qn sz)"
  by (simp add: sink_ok_def)

lemma k_sink_place_ok: "okO (\<lambda>(ret, pl). ret \<le> 0 \<and> (sink_ok snk \<longrightarrow> place_ok w pl)) (k_sink_place snk len off alloc k w)"
proof (cases snk)
  case (KUser rb)
  have "ret \<le> 0" if "k_mem_fill_iovec a l off sd alloc k m = Done (ret, v)" for a l sd ret v m
    using that by (auto simp: k_mem_fill_iovec_def outcome_simps dest: okO_D [OF fill_loop_pages])
  with KUser show ?thesis
    by (auto simp: k_sink_place_def okO_def outcome_simps sink_ok_def place_ok_def dest: fill_iovec_recv split: if_splits)
qed (simp add: k_sink_place_def okO_def place_ok_def)

lemma k_rdmap_get_tag_sink_ok:
  "okO (\<lambda>(r, w'). k_keeps s w s w' \<and> (\<forall>rb off. r = Some (rb, off) \<longrightarrow> sink_ok (KUser rb))) (k_rdmap_get_tag_sink st to len cf w)"
proof -
  have acc: "k_rdmap_acc ! unat RDMA_WRITE AND STAG_W \<noteq> 0" "k_rdmap_acc ! unat RDMA_READ_RESP AND STAG_W \<noteq> 0"
    by (simp_all add: k_rdmap_acc_def rdmap_consts)
  show ?thesis
    unfolding k_rdmap_get_tag_sink_def Let_def
    by (intro okO_intros) (auto simp: sink_ok_def dest!: kmalloc_keeps [where s = s and w = w and s' = s]
      k_mem_stag_desc_right [OF _ acc(1)] k_mem_stag_desc_right [OF _ acc(2)])
qed

lemma k_entry_sink:
  assumes "kmalloc w = (a, w1)" "kmalloc w1 = (b, w2)" "kq_send r = kq_send (kx_rdmapsk s)"
  shows "k_keeps s w (s\<lparr>kx_rdmapsk := r\<rparr>) w2"
  using kmalloc_keeps [OF assms(1), of s w s] kmalloc_keeps [OF assms(2), of s w s] assms(3)
  by (intro k_keeps_queue) auto

lemma k_rdmap_get_untag_sink_ok:
  "okO (\<lambda>(r, s', w'). k_keeps s w s' w' \<and> (posted_ok s \<longrightarrow> (\<forall>snk. r = Some snk \<longrightarrow> sink_ok snk))) (k_rdmap_get_untag_sink qn msn s w)"
proof -
  have "sink_walk n q 0 = Some i \<Longrightarrow> q \<noteq> [] \<Longrightarrow> q ! i \<in> set q" for n i and q :: "k_recv_buf list"
    by (induction n) auto
  then have snk: "sink_ok snk" if "posted_ok s" "k_rdmap_get_send_sink msn s = Some snk" for snk
    using that by (auto simp: k_rdmap_get_send_sink_def Let_def posted_ok_def sink_ok_def split: if_splits option.splits)
  show ?thesis
    unfolding k_rdmap_get_untag_sink_def k_rdmap_get_rrr_sink_def k_rdmap_get_term_sink_def
    by (intro okO_intros)
       (auto simp: snk sink_ok_entry intro: k_entry_sink dest: kmalloc_keeps [where s = s and w = w and s' = s])
qed

lemma place_ok_keeps: "k_keeps s w s' w' \<Longrightarrow> place_ok w' pl = place_ok w pl"
  by (cases pl) (simp_all add: place_ok_def k_keeps_def)

lemma k_ddp_get_sink_ok:
  "okO (\<lambda>(ret, pl, len, s', w'). ret \<le> 0 \<and> k_keeps s w s' w' \<and> (posted_ok s \<longrightarrow> place_ok w pl)) (k_ddp_get_sink hdr n k s w)"
  unfolding k_ddp_get_sink_def
  by (intro okO_intros okO_bind [OF k_rdmap_get_tag_sink_ok [of s]] okO_bind [OF k_rdmap_get_untag_sink_ok])
     (auto dest!: okO_D [OF k_sink_place_ok] simp: place_ok_keeps simp flip: place_ok_keeps, simp_all add: place_ok_def)

section \<open>Receiving\<close>

lemma store_frames_simps:
  "k_uc (store_frames ps bs w) = k_uc w" "k_hash (store_frames ps bs w) = k_hash w" "k_refs (store_frames ps bs w) = k_refs w"
  "k_pt (store_frames ps bs w) = k_pt w" "k_fds (store_frames ps bs w) = k_fds w" "k_files (store_frames ps bs w) = k_files w"
  by (induction ps bs w rule: store_frames.induct) (simp_all add: set_frame_def)

lemma store_frames_outside: "pg \<notin> fst ` set ps \<Longrightarrow> k_frames (store_frames ps bs w) pg off = k_frames w pg off"
  by (induction ps bs w rule: store_frames.induct) (auto simp: set_frame_def)

lemma fst_places: "fst ` set (places v) \<subseteq> fst ` set v"
  by (force simp: places_def)

lemma k_place_fill_keeps:
  assumes "k_keeps s w s1 w1" "k_place_fill pl bs s1 w1 = Done (s', w')" "posted_ok s \<longrightarrow> place_ok w pl"
  shows "k_keeps s w s' w'"
proof (cases pl)
  case (KPages v)
  then have r: "s' = s1" "w' = store_frames (places v) bs w1" using assms(2) by (simp_all add: k_place_fill_def)
  have "recv_page (k_hash w) (uc_mm (k_uc w)) pg" if "posted_ok s" "k_frames w' pg off \<noteq> k_frames w1 pg off" for pg off
  proof -
    have "pg \<in> fst ` set v"
      using that(2) store_frames_outside [of pg "places v" bs w1 off] fst_places [of v] unfolding r by blast
    then show ?thesis using assms(3) that(1) KPages by (auto simp: place_ok_def)
  qed
  then show ?thesis using assms(1) unfolding k_keeps_def by (simp add: r store_frames_simps) metis
next
  case (KBuf qn sz off len)
  then show ?thesis using assms(1,2) by (auto simp: k_place_fill_def intro!: k_keeps_queue split: if_splits)
qed

lemma k_recv_payload_post:
  assumes "k_keeps s w s1 w1" "posted_ok s \<longrightarrow> place_ok w pl"
  shows "okO (k_post s w) (k_recv_payload hdr hdrsz pl len s1 w1)"
proof -
  have fill: "okO (\<lambda>(s', w'). k_keeps s w s' w') (k_place_fill pl bs s1 w2)" if "k_keeps s w s1 w2" for bs w2
    using k_place_fill_keeps [OF that _ assms(2)] by (auto simp: okO_def)
  have process: "okO (k_post s w) (k_ddp_process_ulpdu hdr s2 w2)" if "k_keeps s w s2 w2" for s2 w2
    by (rule okO_post_trans [OF that k_ddp_process_post])
  show ?thesis
    unfolding k_recv_payload_def Let_def
    by (intro okO_intros okO_bind [OF fill] process)
       (auto dest!: kernel_recvmsg_keeps [where s = s and w = w and s' = s1] simp: assms(1))
qed

lemma k_mpa_recv_post: "okO (k_post s w) (k_mpa_recv_plain_fpdu s w)"
proof -
  have sink: "okO (\<lambda>(ret, pl, len, s', w'). ret \<le> 0 \<and> k_keeps s w s' w' \<and> (posted_ok s \<longrightarrow> place_ok w pl)) (k_ddp_get_sink hdr n k s w1)"
    if "k_keeps s w s w1" for hdr n k w1
    using k_ddp_get_sink_ok [of s w1 hdr n k]
    by (rule okO_mono) (use k_keeps_trans [OF that] place_ok_keeps [OF that] in auto)
  show ?thesis
    unfolding k_mpa_recv_plain_fpdu_def Let_def
    by (intro okO_intros okO_bind [OF sink] k_recv_payload_post)
       (auto dest!: kernel_recvmsg_keeps [where s = s and w = w and s' = s] kmalloc_keeps [where s = s and w = w and s' = s])
qed

lemma k_sock_poll_keeps: "k_sock_poll f w' = (m, w'') \<Longrightarrow> k_keeps s w s' w'' = k_keeps s w s' w'"
  by (auto simp: k_sock_poll_def Let_def split: list.splits)

lemma k_mpa_encourage_post:
  "okO (k_post s w) (k_mpa_encourage_one s w)" "okO (k_post s w) (k_mpa_encourage_one_block s w)"
proof -
  have recv: "okO (k_post s w) (k_mpa_recv_plain_fpdu s w1)" if "k_keeps s w s w1" for w1
    by (rule okO_post_trans [OF that k_mpa_recv_post])
  show "okO (k_post s w) (k_mpa_encourage_one s w)" "okO (k_post s w) (k_mpa_encourage_one_block s w)"
    unfolding k_mpa_encourage_one_def k_mpa_encourage_one_block_def
    by (intro okO_intros recv; auto dest!: k_sock_poll_keeps [where s = s and w = w and s' = s])+
qed

section \<open>Start-up and work requests on a socket\<close>

text \<open>Writing to the process on its own behalf changes its memory only.\<close>

definition only_frames :: "kworld \<Rightarrow> kworld \<Rightarrow> bool" where
  "only_frames w w' \<longleftrightarrow> w' = w\<lparr>k_frames := k_frames w'\<rparr>"

lemma copy_to_user_frames: "copy_to_user a bs w = (ok, w') \<Longrightarrow> only_frames w w'"
proof (induction a bs w rule: copy_to_user.induct)
  case (2 a b bs w)
  have f: "only_frames (set_frame pg off b w) w' \<Longrightarrow> only_frames w w'" for pg off b
    by (simp add: only_frames_def set_frame_def)
  show ?case
  proof (cases "user_place (k_pt w) a")
    case (Some p)
    obtain pg off where p: "p = (pg, off)" by fastforce
    with 2(2) Some have "copy_to_user (a + 1) bs (set_frame pg off b w) = (ok, w')" by simp
    from f [OF 2(1) [OF Some p [symmetric] this]] show ?thesis .
  qed (use 2 in \<open>simp add: only_frames_def\<close>)
qed (simp add: only_frames_def)

text \<open>As \<open>k_keeps\<close>, whatever happens to the memory of processes.\<close>

definition uk_keeps :: "k_iwsk \<Rightarrow> kworld \<Rightarrow> k_iwsk \<Rightarrow> kworld \<Rightarrow> bool" where
  "uk_keeps s w s' w' \<longleftrightarrow> k_keeps s w s' (w'\<lparr>k_frames := k_frames w\<rparr>)"

fun uk_post :: "k_iwsk \<Rightarrow> kworld \<Rightarrow> int \<times> k_iwsk \<times> kworld \<Rightarrow> bool" where
  "uk_post s w (ret, s', w') \<longleftrightarrow> ret \<le> 0 \<and> uk_keeps s w s' w'"

lemma uk_keeps_refl [simp]: "uk_keeps s w s w"
  by (simp add: uk_keeps_def k_keeps_def)

lemma k_keeps_uk: "k_keeps s w s' w' \<Longrightarrow> uk_keeps s w s' w'"
  by (simp add: uk_keeps_def k_keeps_def)

lemma k_post_uk: "k_post s w r \<Longrightarrow> uk_post s w r"
  by (cases r) (simp add: k_keeps_uk)

lemma uk_keeps_upd [simp]:
  "uk_keeps s w s' (w'\<lparr>k_mallocs := ms\<rparr>) = uk_keeps s w s' w'"
  "uk_keeps s w s' (set_kconn f c w') = uk_keeps s w s' w'"
  "uk_keeps s w (s'\<lparr>kx_mpask := m\<rparr>) w' = uk_keeps s w s' w'"
  by (simp_all add: uk_keeps_def k_keeps_def set_kconn_def posted_ok_def)

lemma uk_keeps_frames: "only_frames w' w'' \<Longrightarrow> uk_keeps s w s' w'' = uk_keeps s w s' w'"
  unfolding only_frames_def uk_keeps_def by (erule ssubst) (simp add: k_keeps_def)

lemma uk_kmalloc: "kmalloc w' = (a, w'') \<Longrightarrow> uk_keeps s w s' w'' = uk_keeps s w s' w'"
  by (auto simp: kmalloc_def split: list.splits)

lemma uk_recvmsg: "kernel_recvmsg_full f len w' = (ret, bs, w'') \<Longrightarrow> ret \<le> 0 \<and> uk_keeps s w s' w'' = uk_keeps s w s' w'"
  by (auto simp: kernel_recvmsg_full_def Let_def split: prod.splits dest: recvmsg_full_ret)

lemma uk_sendmsg: "kernel_sendmsg_full f vec len w' = Done (ret, w'') \<Longrightarrow> ret \<le> 0 \<and> uk_keeps s w s' w'' = uk_keeps s w s' w'"
  by (auto simp: kernel_sendmsg_full_def Let_def outcome_simps dest: okO_D [OF sendmsg_full_ret])

lemma k_mpa_send_rrf_post:
  "uk_keeps s w s' w1 \<Longrightarrow> okO (\<lambda>(ret, rrf, w'). ret \<le> 0 \<and> uk_keeps s w s' w') (k_mpa_send_rrf rrf pd l key s'' w1)"
  unfolding k_mpa_send_rrf_def Let_def
  by (intro okO_intros) (auto dest!: uk_sendmsg [where s = s and w = w and s' = s'])

lemma k_mpa_recv_rrf_post:
  "uk_keeps s w s' w1 \<Longrightarrow> okO (\<lambda>(ret, cntl, rrf, w'). ret \<le> 0 \<and> uk_keeps s w s' w') (k_mpa_recv_rrf rrf pd l key s'' w1)"
  unfolding k_mpa_recv_rrf_def Let_def
  by (intro okO_intros)
     (auto dest!: uk_recvmsg [where s = s and w = w and s' = s'] uk_keeps_frames [where s = s and w = w and s' = s', OF copy_to_user_frames])

lemma k_mpa_init_startup_post: "okO (uk_post s w) (k_mpa_init_startup ini pd l pd' l' s w)"
  unfolding k_mpa_init_startup_def Let_def
  by (intro okO_intros okO_bind [OF k_mpa_send_rrf_post [where s = s and w = w and s' = s]]
       okO_bind [OF k_mpa_recv_rrf_post [where s = s and w = w and s' = s]])
     (auto dest!: uk_kmalloc [where s = s and w = w and s' = s])

end
