(* ===== verification/K_Socks.thy ===== *)
theory K_Socks
  imports K_Keeps K_Dev
begin

text \<open>
  What holds of the context of a process in the kernel module: every queue's count is the number of uses by
  registered sockets, every registered socket has its queues, and its file holds a reference. The lemmas say
  how the steps on the table of sockets and on the queues change the sum over the sockets, and then that each
  call on sockets keeps the invariant.
\<close>

section \<open>The values of a table\<close>

definition ht_vals :: "'v k_ht \<Rightarrow> 'v multiset" where
  "ht_vals t = mset (concat (map (map snd) (kh_htab t)))"

lemma ht_vals_numnodes [simp]: "ht_vals (t\<lparr>kh_numnodes := n\<rparr>) = ht_vals t"
  by (simp add: ht_vals_def)

lemma ht_vals_update:
  assumes "b < length (kh_htab t)"
  shows "ht_vals (t\<lparr>kh_htab := (kh_htab t)[b := c]\<rparr>) + mset (map snd (kh_htab t ! b)) = ht_vals t + mset (map snd c)"
proof -
  have c: "mset (concat (map (map snd) (xs @ y # zs))) = mset (concat (map (map snd) xs)) + mset (map snd y) + mset (concat (map (map snd) zs))"
    for xs zs and y :: "(u64 \<times> 'v) list"
    by simp
  have "ht_vals t = mset (concat (map (map snd) (take b (kh_htab t) @ kh_htab t ! b # drop (Suc b) (kh_htab t))))"
    using id_take_nth_drop [OF assms] by (simp add: ht_vals_def)
  then show ?thesis using assms unfolding c by (simp add: ht_vals_def upd_conv_take_nth_drop)
qed

lemma k_ht_insert_vals:
  assumes "k_ht_inv hash t" "k_ht_insert hash km t k v = (ret, t')"
  shows "(ret = - EEXIST \<or> ret = - ENOMEM) \<and> t' = t
    \<or> ret = 0 \<and> k_ht_inv hash t' \<and> k_ht_map hash t k = None \<and> k_ht_map hash t' = (k_ht_map hash t)(k \<mapsto> v) \<and> ht_vals t' = add_mset v (ht_vals t)"
proof (cases "k_ht_map hash t k = None \<and> km")
  case True
  let ?b = "hash k (kh_lg_sz t)"
  have lt: "?b < length (kh_htab t)" using assms(1) unfolding k_ht_inv_def by blast
  obtain t2 where t2: "k_ht_insert hash True t k v = (0, t2)" "k_ht_inv hash t2" "k_ht_map hash t2 = (k_ht_map hash t)(k \<mapsto> v)"
    using kht.ins_new [OF assms(1)] True by blast
  with assms(2) True have r: "ret = 0" "t' = t2" by auto
  then have "t' = t\<lparr>kh_htab := (kh_htab t)[?b := (k, v) # kh_htab t ! ?b], kh_numnodes := kh_numnodes t + 1\<rparr>"
    using assms(2) by (auto simp: k_ht_insert_def Let_def split: if_splits)
  then have "ht_vals t' = ht_vals (t\<lparr>kh_htab := (kh_htab t)[?b := (k, v) # kh_htab t ! ?b]\<rparr>)" by (simp add: ht_vals_def)
  with ht_vals_update [OF lt, of "(k, v) # kh_htab t ! ?b"] have "ht_vals t' = add_mset v (ht_vals t)" by simp
  with t2 r True show ?thesis by simp
next
  case False
  with assms(2) show ?thesis
    by (auto simp: k_ht_insert_def Let_def k_ht_map_def map_of_eq_None_iff split: if_splits)
qed

lemma hlist_take_vals: "hlist_take k cs = Some (v, r) \<Longrightarrow> mset (map snd cs) = add_mset v (mset (map snd r))"
  by (induction cs arbitrary: r) (auto split: if_splits option.splits)

lemma k_ht_delete_vals:
  assumes "k_ht_inv hash t" "k_ht_delete_callback hash t k = (ret, r, t')"
  shows "r = None \<and> ret = - EINVAL \<and> t' = t
    \<or> (\<exists>v. r = Some v \<and> ret = 0 \<and> k_ht_inv hash t' \<and> k_ht_map hash t k = Some v \<and> k_ht_map hash t' = (k_ht_map hash t)(k := None)
        \<and> ht_vals t = add_mset v (ht_vals t'))"
proof (cases "hlist_take k (kh_htab t ! hash k (kh_lg_sz t))")
  case (Some vr)
  let ?b = "hash k (kh_lg_sz t)"
  have lt: "?b < length (kh_htab t)" using assms(1) unfolding k_ht_inv_def by blast
  obtain v c where vr: "vr = (v, c)" by fastforce
  have d: "distinct (map fst (kh_htab t ! ?b))" using assms(1) lt by (simp add: k_ht_inv_def)
  note tk = hlist_take_Some [OF Some [unfolded vr] d]
  then have m: "k_ht_map hash t k = Some v" by (simp add: k_ht_map_def)
  obtain t2 where t2: "k_ht_delete hash t k = (0, t2)" "k_ht_inv hash t2" "k_ht_map hash t2 = (k_ht_map hash t)(k := None)"
    using kht.del_old [OF assms(1), of k] m by auto
  have r: "r = Some v" "ret = 0" "t' = t\<lparr>kh_htab := (kh_htab t)[?b := c], kh_numnodes := kh_numnodes t - 1\<rparr>" "t2 = t'"
    using assms(2) t2(1) Some vr by (auto simp: k_ht_delete_def k_ht_delete_callback_def Let_def)
  have "ht_vals t' = ht_vals (t\<lparr>kh_htab := (kh_htab t)[?b := c]\<rparr>)" by (simp add: r(3) ht_vals_def)
  with ht_vals_update [OF lt, of c] hlist_take_vals [OF Some [unfolded vr]] have "ht_vals t = add_mset v (ht_vals t')" by simp
  with r t2 m show ?thesis by simp
qed (use assms(2) in \<open>auto simp: k_ht_delete_callback_def Let_def\<close>)

lemma ht_vals_ran: "k_ht_inv hash t \<Longrightarrow> v \<in># ht_vals t \<longleftrightarrow> (\<exists>k. k_ht_map hash t k = Some v)"
  using k_ht_values(1) [of hash t] by (auto simp: ht_vals_def ran_def simp del: set_concat)

text \<open>A store to the socket of a file.\<close>

lemma k_iwsk_store_vals:
  assumes "k_ht_inv hash (uc_fdhash (k_uc w))" "k_ht_map hash (uc_fdhash (k_uc w)) (kx_filp s) = Some s0"
    and own: "\<And>f v. k_ht_map hash (uc_fdhash (k_uc w)) f = Some v \<Longrightarrow> kx_filp v = f"
  shows "k_ht_inv hash (uc_fdhash (k_uc (k_iwsk_store s w)))"
    "k_ht_map hash (uc_fdhash (k_uc (k_iwsk_store s w))) = (k_ht_map hash (uc_fdhash (k_uc w)))(kx_filp s \<mapsto> s)"
    "F s0 = F s \<Longrightarrow> image_mset F (ht_vals (uc_fdhash (k_uc (k_iwsk_store s w)))) = image_mset F (ht_vals (uc_fdhash (k_uc w)))"
proof -
  let ?t = "uc_fdhash (k_uc w)"
  let ?g = "\<lambda>(k, v). if k = kx_filp s then (k, s) else (k, v)"
  have t': "uc_fdhash (k_uc (k_iwsk_store s w)) = ?t\<lparr>kh_htab := map (map ?g) (kh_htab ?t)\<rparr>"
    by (simp add: k_iwsk_store_def Let_def)
  have g: "fst (?g c) = fst c" for c by (cases c) simp
  have len: "length (concat (map (map ?g) xss)) = length (concat xss)" for xss by (induction xss) auto
  have keys: "map fst (map ?g xs) = map fst xs" for xs by (simp add: g comp_def)
  show "k_ht_inv hash (uc_fdhash (k_uc (k_iwsk_store s w)))"
    using assms(1) g keys len by (auto simp: k_ht_inv_def t' simp del: map_map split: if_splits)
  have lt: "hash k (kh_lg_sz ?t) < length (kh_htab ?t)" for k using assms(1) unfolding k_ht_inv_def by blast
  show "k_ht_map hash (uc_fdhash (k_uc (k_iwsk_store s w))) = (k_ht_map hash ?t)(kx_filp s \<mapsto> s)"
    using assms(2) lt by (auto simp: k_ht_map_def t' map_of_store fun_eq_iff)
  assume F: "F s0 = F s"
  let ?h = "\<lambda>v. if kx_filp v = kx_filp s then s else v"
  have m: "k_ht_map hash ?t k = Some v" if "c \<in> set (kh_htab ?t)" "(k, v) \<in> set c" for c k v
  proof -
    from that(1) obtain b where "b < length (kh_htab ?t)" "c = kh_htab ?t ! b" by (auto simp: in_set_conv_nth)
    with assms(1) that(2) show ?thesis by (force simp: k_ht_inv_def k_ht_map_def)
  qed
  have o: "kx_filp v = k" if "c \<in> set (kh_htab ?t)" "(k, v) \<in> set c" for c k v
    using own m [OF that] .
  have "map snd (map ?g c) = map ?h (map snd c)" if "c \<in> set (kh_htab ?t)" for c
    by (auto dest: o [OF that])
  then have "concat (map (map snd) (map (map ?g) (kh_htab ?t))) = map ?h (concat (map (map snd) (kh_htab ?t)))"
    unfolding map_concat map_map comp_def by (intro arg_cong [where f = concat] map_cong refl) auto
  then have ht_vals_hom: "image_mset F (ht_vals (uc_fdhash (k_uc (k_iwsk_store s w)))) = image_mset (\<lambda>v. F (?h v)) (ht_vals ?t)"
    by (simp add: ht_vals_def t' multiset.map_comp comp_def)
  have "F (?h v) = F v" if "v \<in># ht_vals ?t" for v
    using that own assms(2) F by (auto simp: ht_vals_ran [OF assms(1)])
  then show "image_mset F (ht_vals (uc_fdhash (k_uc (k_iwsk_store s w)))) = image_mset F (ht_vals ?t)"
    unfolding ht_vals_hom by (auto intro: image_mset_cong)
qed

section \<open>The invariant of a context\<close>

definition uses :: "u64 \<Rightarrow> k_iwsk \<Rightarrow> int" where
  "uses h s = of_bool (kx_scq s = h) + of_bool (kx_rcq s = h)"

definition use_count :: "user_context \<Rightarrow> u64 \<Rightarrow> int" where
  "use_count u h = (\<Sum>s\<in>#ht_vals (uc_fdhash u). uses h s)"

text \<open>The number of sockets registered for a file.\<close>

definition regs :: "user_context \<Rightarrow> u64 \<Rightarrow> int" where
  "regs u f = (\<Sum>s\<in>#ht_vals (uc_fdhash u). of_bool (kx_filp s = f))"

definition sock_ok :: "cq_ctx \<Rightarrow> u64 \<Rightarrow> k_iwsk \<Rightarrow> bool" where
  "sock_ok c f s \<longleftrightarrow> kx_filp s = f \<and> posted_ok s \<and> kx_scq s \<in> kq_handle ` set (cq_list c) \<and> kx_rcq s \<in> kq_handle ` set (cq_list c)"

definition uc_inv :: "(u64 \<Rightarrow> nat \<Rightarrow> nat) \<Rightarrow> nat \<Rightarrow> user_context \<Rightarrow> bool" where
  "uc_inv hash n u \<longleftrightarrow> k_ht_inv hash (uc_fdhash u)
     \<and> (\<forall>f s. k_ht_map hash (uc_fdhash u) f = Some s \<longrightarrow> sock_ok (uc_cq u) f s)
     \<and> k_tags_ok hash (uc_mm u) \<and> cq_ctx_inv (uc_cq u)
     \<and> map kq_refcnt (cq_list (uc_cq u)) = map (use_count u) (map kq_handle (cq_list (uc_cq u)))
     \<and> unat (cq_list_next_handle (uc_cq u)) \<le> n"

text \<open>
  The state of a call of process \<open>tg\<close>: each file has at least \<open>B f\<close> references besides the one each registered
  socket holds.
\<close>

definition kw_inv :: "(u64 \<Rightarrow> nat \<Rightarrow> nat) \<Rightarrow> nat \<Rightarrow> int \<Rightarrow> (u64 \<Rightarrow> int) \<Rightarrow> kworld \<Rightarrow> bool" where
  "kw_inv hash n tg B w \<longleftrightarrow> k_hash w = hash \<and> uc_tgid (k_uc w) = tg \<and> uc_inv hash n (k_uc w)
     \<and> (\<forall>f. B f + regs (k_uc w) f \<le> k_refs w f)"

text \<open>What a call returns, in that state.\<close>

fun kw_post :: "(u64 \<Rightarrow> nat \<Rightarrow> nat) \<Rightarrow> nat \<Rightarrow> int \<Rightarrow> (u64 \<Rightarrow> int) \<Rightarrow> int \<times> kworld \<Rightarrow> bool" where
  "kw_post hash n tg B (ret, w) \<longleftrightarrow> ret \<le> 0 \<and> kw_inv hash n tg B w"

lemma uc_inv_keep:
  assumes "uc_inv hash n u" "uc_fdhash u' = uc_fdhash u" "k_tags_ok hash (uc_mm u) \<longrightarrow> k_tags_ok hash (uc_mm u')" "cqs_keep (uc_cq u) (uc_cq u')"
  shows "uc_inv hash n u'"
proof -
  have h: "map kq_handle (cq_list (uc_cq u')) = map kq_handle (cq_list (uc_cq u))"
    "cq_list_next_handle (uc_cq u') = cq_list_next_handle (uc_cq u)" using assms(4) by (simp_all add: cqs_keep_def)
  have hs: "kq_handle ` set (cq_list (uc_cq u')) = kq_handle ` set (cq_list (uc_cq u))" using h(1) by (metis set_map)
  have d: "distinct (map kq_handle (cq_list (uc_cq u)))" using assms(1) by (simp add: uc_inv_def cq_ctx_inv_def)
  have c: "cq_ctx_inv (uc_cq u')"
  proof -
    have "\<forall>h\<in>kq_handle ` set (cq_list (uc_cq u)). h < cq_list_next_handle (uc_cq u)"
      using assms(1) by (simp add: uc_inv_def cq_ctx_inv_def)
    then have "\<forall>q\<in>set (cq_list (uc_cq u')). kq_handle q < cq_list_next_handle (uc_cq u')"
      unfolding hs [symmetric] h(2) by simp
    moreover have "\<forall>q\<in>set (cq_list (uc_cq u')). k_cq_inv q"
      using assms(1,4) by (auto simp: uc_inv_def cq_ctx_inv_def cqs_keep_def)
    ultimately show ?thesis using d h by (simp add: cq_ctx_inv_def)
  qed
  have "map kq_refcnt (cq_list (uc_cq u')) = map kq_refcnt (cq_list (uc_cq u))" using assms(4) d by (simp add: cqs_keep_def)
  with assms(1) have "map kq_refcnt (cq_list (uc_cq u')) = map (use_count u') (map kq_handle (cq_list (uc_cq u')))"
    using h(1) assms(2) by (simp add: uc_inv_def use_count_def [abs_def])
  with assms(1-3) c h(2) hs show ?thesis by (simp add: uc_inv_def sock_ok_def)
qed

lemma kw_inv_upd [simp]:
  "kw_inv hash n tg B (w\<lparr>k_mallocs := ms\<rparr>) = kw_inv hash n tg B w"
  "kw_inv hash n tg B (w\<lparr>k_gup := gs\<rparr>) = kw_inv hash n tg B w"
  "kw_inv hash n tg B (w\<lparr>k_frames := fr\<rparr>) = kw_inv hash n tg B w"
  by (simp_all add: kw_inv_def)

lemma kw_inv_kmalloc: "kmalloc w = (a, w') \<Longrightarrow> kw_inv hash n tg B w' = kw_inv hash n tg B w"
  by (auto simp: kmalloc_def split: list.splits)

lemma kw_inv_frames: "only_frames w w' \<Longrightarrow> kw_inv hash n tg B w' = kw_inv hash n tg B w"
  unfolding only_frames_def by (erule ssubst) simp

lemma kw_inv_fget: "fget fd w = (Some f, w') \<Longrightarrow> kw_inv hash n tg B w \<Longrightarrow> kw_inv hash n tg (B(f := B f + 1)) w'"
  by (auto simp: fget_def kw_inv_def split: option.splits)

lemma kw_inv_fget_none: "fget fd w = (None, w') \<Longrightarrow> w' = w"
  by (auto simp: fget_def split: option.splits)

lemma kw_inv_fput: "kw_inv hash n tg (B(f := B f + 1)) w \<Longrightarrow> kw_inv hash n tg B (fput f w)"
  by (auto simp: fput_def kw_inv_def split: if_splits)

lemma kw_inv_weaken:
  assumes "kw_inv hash n tg (B(f := B f + 1)) w"
  shows "kw_inv hash n tg B w"
proof -
  have "B g + regs (k_uc w) g \<le> k_refs w g" if "(B(f := B f + 1)) g + regs (k_uc w) g \<le> k_refs w g" for g
    using that by (cases "g = f") simp_all
  with assms show ?thesis unfolding kw_inv_def by blast
qed

lemma k_iwsk_lookup_inv:
  assumes "kw_inv hash n tg B w"
  shows "k_iwsk_lookup f w = (case k_ht_map hash (uc_fdhash (k_uc w)) f of None \<Rightarrow> (- ENOENT, None) | Some s \<Rightarrow> (0, Some s))"
  using assms kht.look_abs [of hash "uc_fdhash (k_uc w)" f] by (simp add: k_iwsk_lookup_def kw_inv_def uc_inv_def)

text \<open>Work on a socket, stored back in the table.\<close>

lemma kw_inv_store:
  assumes i: "kw_inv hash n tg B w" and s: "k_ht_map hash (uc_fdhash (k_uc w)) f = Some s" and k: "uk_keeps s w s' w'"
  shows "kw_inv hash n tg B (k_iwsk_store s' w')"
proof -
  let ?u = "k_uc w"
  let ?u' = "k_uc (k_iwsk_store s' w')"
  from i have u: "uc_inv hash n ?u" and sk: "\<And>f s. k_ht_map hash (uc_fdhash ?u) f = Some s \<Longrightarrow> sock_ok (uc_cq ?u) f s"
    by (simp_all add: kw_inv_def uc_inv_def)
  have w': "uc_fdhash (k_uc w') = uc_fdhash ?u" "uc_mm (k_uc w') = uc_mm ?u" "uc_tgid (k_uc w') = uc_tgid ?u"
    "k_hash w' = k_hash w" "k_refs w' = k_refs w" "cqs_keep (uc_cq ?u) (uc_cq (k_uc w'))"
    "kx_filp s' = kx_filp s" "kx_scq s' = kx_scq s" "kx_rcq s' = kx_rcq s" "posted_ok s \<longrightarrow> posted_ok s'"
    using k by (simp_all add: uk_keeps_def k_keeps_def)
  have ok: "sock_ok (uc_cq ?u) f s" and f: "kx_filp s' = f" using sk [OF s] w'(7) by (simp_all add: sock_ok_def)
  have "uc_inv hash n (k_uc w')" by (rule uc_inv_keep [OF u]) (simp_all add: w')
  then have v: "k_ht_inv hash (uc_fdhash (k_uc w'))" "cq_ctx_inv (uc_cq (k_uc w'))" "k_tags_ok hash (uc_mm (k_uc w'))"
    "\<And>f s. k_ht_map hash (uc_fdhash ?u) f = Some s \<Longrightarrow> sock_ok (uc_cq (k_uc w')) f s"
    "map kq_refcnt (cq_list (uc_cq (k_uc w'))) = map (use_count (k_uc w')) (map kq_handle (cq_list (uc_cq (k_uc w'))))"
    "unat (cq_list_next_handle (uc_cq (k_uc w'))) \<le> n"
    by (simp_all add: uc_inv_def w'(1))
  have own: "kx_filp x = g" if "k_ht_map hash (uc_fdhash (k_uc w')) g = Some x" for g x
    using sk [of g x] that w'(1) by (simp add: sock_ok_def)
  note st = k_iwsk_store_vals [OF v(1) _ own, of s' s, unfolded f, simplified w'(1), OF s]
  have o: "uc_cq ?u' = uc_cq (k_uc w')" "uc_mm ?u' = uc_mm ?u" "uc_tgid ?u' = uc_tgid ?u"
    "k_hash (k_iwsk_store s' w') = k_hash w" "k_refs (k_iwsk_store s' w') = k_refs w"
    by (simp_all add: k_iwsk_store_def Let_def w')
  have "use_count ?u' h = use_count (k_uc w') h" for h
    using st(3) [of "uses h"] w'(8,9) by (simp add: use_count_def w'(1) uses_def [of h s] uses_def [of h s'])
  moreover have "regs ?u' g = regs ?u g" for g
    using st(3) [of "\<lambda>s. of_bool (kx_filp s = g) :: int"] by (simp add: regs_def w')
  moreover have "sock_ok (uc_cq (k_uc w')) g x" if "((k_ht_map hash (uc_fdhash ?u))(f \<mapsto> s')) g = Some x" for g x
    using that v(4) [OF s] v(4) [of g x] w'(7-10) by (auto simp: sock_ok_def split: if_splits)
  ultimately show ?thesis
    using i v(2-6) st(1,2) by (simp add: kw_inv_def uc_inv_def o w'(2))
qed

section \<open>Calls on a registered socket\<close>

lemma k_with_sock_inv:
  assumes "kw_inv hash n tg B w" and body: "\<And>s w. okO (uk_post s w) (body s w)"
  shows "okO (kw_post hash n tg B) (k_with_sock fd body w)"
proof -
  have f: "k_iwsk_lookup f w1 = (r, Some s) \<Longrightarrow> kw_inv hash n tg B' w1 \<Longrightarrow> k_ht_map hash (uc_fdhash (k_uc w1)) f = Some s"
    "k_iwsk_lookup f w1 = (r, None) \<Longrightarrow> kw_inv hash n tg B' w1 \<Longrightarrow> r \<le> 0" for f w1 B' r s
    by (auto simp: k_iwsk_lookup_inv split: option.splits)
  show ?thesis
    unfolding k_with_sock_def
    by (intro okO_intros)
      (auto simp: assms(1) dest!: kw_inv_fget_none kw_inv_fget [OF _ assms(1)] f okO_D [OF body]
        intro!: kw_inv_fput intro: kw_inv_store)
qed

lemma k_produce_after:
  assumes "okO (k_post s w) m"
  shows "okO (uk_post s w) (bindO m (\<lambda>(ret, s, w). if ret < 0 then Done (ret, s, w)
           else bindO (k_produce (kx_scq s) e w) (\<lambda>(ret, w). Done (ret, s, w))))"
  by (rule okO_mono [OF _ k_post_uk])
    (auto intro!: okO_intros okO_bind [OF assms] dest: k_produce_keeps)

lemma k_post_body:
  "okO (uk_post s w) (k_send_body wrid ubuf len stag s w)"
  "okO (uk_post s w) (k_write_body wrid ubuf len stag stag' to s w)"
  "okO (uk_post s w) (k_post_recv_body wrid ubuf len stag s w)"
  "okO (uk_post s w) (k_read_body wrid stag to len' stag' to' s w)"
proof -
  show "okO (uk_post s w) (k_send_body wrid ubuf len stag s w)" "okO (uk_post s w) (k_write_body wrid ubuf len stag stag' to s w)"
    unfolding k_send_body_def k_write_body_def
    by (intro okO_intros k_produce_after [OF k_ddp_send_utm_post] k_produce_after [OF k_ddp_send_tm_post]; simp)+
  have "STAG_W AND STAG_W \<noteq> 0" by simp
  then show "okO (uk_post s w) (k_post_recv_body wrid ubuf len stag s w)"
    unfolding k_post_recv_body_def
    by (intro okO_intros)
      (auto simp: uk_keeps_def k_keeps_def posted_ok_def dest!: k_mem_stag_desc_right uk_kmalloc [where s = s and w = w and s' = s])
  have send: "okO (uk_post s w) (k_ddp_send_utm msg ml qn c p (s\<lparr>kx_rdmapsk := (kx_rdmapsk s)\<lparr>kq_rwrq := q\<rparr>\<rparr>) w1)"
    if "k_keeps s w s w1" for msg ml qn c p q w1
    using that by (intro okO_mono [OF okO_post_trans [OF _ k_ddp_send_utm_post] k_post_uk] k_keeps_queue) auto
  show "okO (uk_post s w) (k_read_body wrid stag to len' stag' to' s w)"
    unfolding k_read_body_def Let_def
    by (intro okO_intros send) (auto dest!: kmalloc_keeps [where s = s and w = w and s' = s] intro: k_keeps_uk)
qed

section \<open>Polling\<close>

text \<open>What the peers' bytes may do to memory.\<close>

definition peer_writes :: "kworld \<Rightarrow> kworld \<Rightarrow> bool" where
  "peer_writes w w' \<longleftrightarrow> k_hash w' = k_hash w \<and> uc_mm (k_uc w') = uc_mm (k_uc w)
     \<and> (\<forall>pg off. k_frames w' pg off \<noteq> k_frames w pg off \<longrightarrow> recv_page (k_hash w) (uc_mm (k_uc w)) pg)"

lemma peer_writes_refl [simp]: "peer_writes w w"
  by (simp add: peer_writes_def)

lemma peer_writes_trans: "peer_writes w w1 \<Longrightarrow> peer_writes w1 w2 \<Longrightarrow> peer_writes w w2"
  unfolding peer_writes_def by metis

lemma k_encourage_sock:
  assumes i: "kw_inv hash n tg B w" and l: "snd (k_iwsk_lookup f w) = Some s" and k: "k_keeps s w s' w'"
  shows "kw_inv hash n tg B (k_iwsk_store s' w') \<and> peer_writes w (k_iwsk_store s' w')
    \<and> dom (k_ht_map hash (uc_fdhash (k_uc (k_iwsk_store s' w')))) = dom (k_ht_map hash (uc_fdhash (k_uc w)))"
proof -
  have m: "k_ht_map hash (uc_fdhash (k_uc w)) f = Some s"
    using l by (simp add: k_iwsk_lookup_inv [OF i] split: option.splits)
  then have "sock_ok (uc_cq (k_uc w)) f s" using i by (simp add: kw_inv_def uc_inv_def)
  then have s: "posted_ok s" "kx_filp s = f" by (simp_all add: sock_ok_def)
  have "peer_writes w (k_iwsk_store s' w')"
    using k s by (simp add: k_keeps_def peer_writes_def k_iwsk_store_def Let_def)
  moreover have kw: "kw_inv hash n tg B (k_iwsk_store s' w')" by (rule kw_inv_store [OF i m k_keeps_uk [OF k]])
  moreover have "k_ht_map hash (uc_fdhash (k_uc (k_iwsk_store s' w'))) = (k_ht_map hash (uc_fdhash (k_uc w)))(f \<mapsto> s')"
  proof -
    have w': "uc_fdhash (k_uc w') = uc_fdhash (k_uc w)" "kx_filp s' = f" using k s by (simp_all add: k_keeps_def)
    have own: "kx_filp x = g" if "k_ht_map hash (uc_fdhash (k_uc w)) g = Some x" for g x
      using i that by (simp add: kw_inv_def uc_inv_def sock_ok_def)
    show ?thesis
      using k_iwsk_store_vals(2) [of hash w' s' s] i m own w' by (simp add: kw_inv_def uc_inv_def)
  qed
  ultimately show ?thesis using m by auto
qed

lemma k_poll_chain_inv:
  "kw_inv hash n tg B w \<Longrightarrow> okO (\<lambda>(ret, w'). ret \<le> 0 \<and> kw_inv hash n tg B w' \<and> peer_writes w w') (k_poll_chain fs w)"
proof (induction fs arbitrary: w)
  case (Cons f fs)
  have rest: "okO (\<lambda>(ret, w'). ret \<le> 0 \<and> kw_inv hash n tg B w' \<and> peer_writes w w') (k_poll_chain fs (k_iwsk_store s' w'))"
    if "snd (k_iwsk_lookup f w) = Some s" "k_keeps s w s' w'" for s s' w'
    using k_encourage_sock [OF Cons.prems that] peer_writes_trans
    by (intro okO_mono [OF Cons.IH]) auto
  show ?case
    unfolding k_poll_chain.simps Let_def
    by (intro okO_intros rest)
      (auto dest!: okO_D [OF k_mpa_encourage_post(1)] intro!: k_encourage_sock [OF Cons.prems, THEN conjunct1]
         k_encourage_sock [OF Cons.prems, THEN conjunct2, THEN conjunct1])
qed (simp add: okO_def)

lemma k_encourage_inv:
  assumes "kw_inv hash n tg B w"
  shows "okO (\<lambda>(ret, w'). ret \<le> 0 \<and> kw_inv hash n tg B w' \<and> peer_writes w w') (k_rdmap_encourage one w)"
  unfolding k_rdmap_encourage_def k_mpa_poll_def
  by (intro okO_intros k_poll_chain_inv assms)
    (auto dest!: okO_D [OF k_mpa_encourage_post(2)] intro!: k_encourage_sock [OF assms, THEN conjunct1]
         k_encourage_sock [OF assms, THEN conjunct2, THEN conjunct1])

section \<open>Use counts\<close>

text \<open>The counts of the queues, each changed by \<open>E\<close> of its handle; everything else of the list is kept.\<close>

definition cq_shift :: "(u64 \<Rightarrow> int) \<Rightarrow> cq_ctx \<Rightarrow> cq_ctx \<Rightarrow> bool" where
  "cq_shift E c c' \<longleftrightarrow> cq_list_next_handle c' = cq_list_next_handle c
     \<and> list_all2 (\<lambda>q q'. kq_handle q' = kq_handle q \<and> kq_refcnt q' = kq_refcnt q + E (kq_handle q) \<and> (k_cq_inv q \<longrightarrow> k_cq_inv q'))
         (cq_list c) (cq_list c')"

lemma cq_shift_trans:
  assumes "cq_shift E c c1" "cq_shift E' c1 c2" "\<And>h. E h + E' h = E'' h"
  shows "cq_shift E'' c c2"
proof -
  have l: "list_all2 (\<lambda>q q'. kq_handle q' = kq_handle q \<and> kq_refcnt q' = kq_refcnt q + E (kq_handle q) \<and> (k_cq_inv q \<longrightarrow> k_cq_inv q')) (cq_list c) (cq_list c1)"
    "list_all2 (\<lambda>q q'. kq_handle q' = kq_handle q \<and> kq_refcnt q' = kq_refcnt q + E' (kq_handle q) \<and> (k_cq_inv q \<longrightarrow> k_cq_inv q')) (cq_list c1) (cq_list c2)"
    using assms(1,2) by (simp_all add: cq_shift_def)
  have "list_all2 (\<lambda>q q'. kq_handle q' = kq_handle q \<and> kq_refcnt q' = kq_refcnt q + E'' (kq_handle q) \<and> (k_cq_inv q \<longrightarrow> k_cq_inv q')) (cq_list c) (cq_list c2)"
    by (rule list_all2_trans [OF _ l]) (auto simp flip: assms(3))
  then show ?thesis using assms(1,2) by (simp add: cq_shift_def)
qed

lemma cq_shift_handles: "cq_shift E c c' \<Longrightarrow> map kq_handle (cq_list c') = map kq_handle (cq_list c)"
  unfolding cq_shift_def by (auto simp: list_all2_conv_all_nth list_eq_iff_nth_eq)

lemma cq_shift_inv:
  assumes "cq_ctx_inv c" "cq_shift E c c'"
  shows "cq_ctx_inv c'"
proof -
  have "kq_handle q' < cq_list_next_handle c' \<and> k_cq_inv q'" if "q' \<in> set (cq_list c')" for q'
  proof -
    from that obtain i where i: "i < length (cq_list c')" "q' = cq_list c' ! i" by (auto simp: in_set_conv_nth)
    then have "cq_list c ! i \<in> set (cq_list c)" "kq_handle q' = kq_handle (cq_list c ! i)" "k_cq_inv (cq_list c ! i) \<longrightarrow> k_cq_inv q'"
      using assms(2) by (auto simp: cq_shift_def list_all2_conv_all_nth)
    then show ?thesis using assms by (simp add: cq_ctx_inv_def cq_shift_def)
  qed
  moreover have "distinct (map kq_handle (cq_list c'))"
    using assms cq_shift_handles [OF assms(2)] by (simp add: cq_ctx_inv_def)
  ultimately show ?thesis by (simp add: cq_ctx_inv_def)
qed

lemma k_cq_ref_shift:
  assumes "cq_ctx_inv (uc_cq (k_uc w))" "h \<in> kq_handle ` set (cq_list (uc_cq (k_uc w)))"
    and f: "\<And>q. kq_handle (f q) = kq_handle q" "\<And>q. kq_refcnt (f q) = kq_refcnt q + d" "\<And>q. k_cq_inv (f q) = k_cq_inv q"
  shows "\<exists>c. k_cq_ref f h w = Done (set_cqs c w) \<and> cq_shift (\<lambda>g. if g = h then d else 0) (uc_cq (k_uc w)) c"
proof -
  let ?c = "uc_cq (k_uc w)"
  have d: "distinct (map kq_handle (cq_list ?c))" using assms(1) by (simp add: cq_ctx_inv_def)
  then obtain q where q: "k_cq_lookup h ?c = Some q" "q \<in> set (cq_list ?c)" "kq_handle q = h"
    using assms(2) k_cq_lookup_iff [OF d] by auto
  have u: "x = q" if "x \<in> set (cq_list ?c)" "kq_handle x = kq_handle q" for x
    using inj_onD [OF distinct_map [THEN iffD1, OF d, THEN conjunct2] that(2,1) q(2)] .
  have "cq_shift (\<lambda>g. if g = h then d else 0) ?c (k_cq_store (f q) ?c)"
    using f q(3) u by (auto simp: cq_shift_def k_cq_store_def list_all2_conv_all_nth) (metis nth_mem)+
  moreover have "k_cq_ref f h w = Done (set_cqs (k_cq_store (f q) ?c) w)" using q(1) by (simp add: k_cq_ref_def set_cqs_def)
  ultimately show ?thesis by blast
qed

lemma k_cq_get_shift: "kq_refcnt (k_cq_get q) = kq_refcnt q + 1" "kq_refcnt (k_cq_put q) = kq_refcnt q + - 1"
  by (simp_all add: k_cq_get_def k_cq_put_def)

lemma k_cq_refs:
  assumes "cq_ctx_inv (uc_cq (k_uc w))" "sq \<in> kq_handle ` set (cq_list (uc_cq (k_uc w)))" "rq \<in> kq_handle ` set (cq_list (uc_cq (k_uc w)))"
    and f: "\<And>q. kq_handle (f q) = kq_handle q" "\<And>q. kq_refcnt (f q) = kq_refcnt q + d" "\<And>q. k_cq_inv (f q) = k_cq_inv q"
  shows "\<exists>c. bindO (k_cq_ref f sq w) (k_cq_ref f rq) = Done (set_cqs c w)
    \<and> cq_shift (\<lambda>g. d * (of_bool (sq = g) + of_bool (rq = g))) (uc_cq (k_uc w)) c"
proof -
  obtain c1 where c1: "k_cq_ref f sq w = Done (set_cqs c1 w)" "cq_shift (\<lambda>g. if g = sq then d else 0) (uc_cq (k_uc w)) c1"
    using k_cq_ref_shift [OF assms(1,2) f] by blast
  have u: "uc_cq (k_uc (set_cqs c w)) = c" "set_cqs c' (set_cqs c w) = set_cqs c' w" for c c'
    by (simp_all add: set_cqs_def set_uc_def)
  have hs: "kq_handle ` set (cq_list c1) = kq_handle ` set (cq_list (uc_cq (k_uc w)))"
    using cq_shift_handles [OF c1(2)] by (metis set_map)
  obtain c2 where c2: "k_cq_ref f rq (set_cqs c1 w) = Done (set_cqs c2 (set_cqs c1 w))" "cq_shift (\<lambda>g. if g = rq then d else 0) c1 c2"
    using k_cq_ref_shift [of "set_cqs c1 w" rq f d, OF _ _ f] assms(3) cq_shift_inv [OF assms(1) c1(2)] unfolding u hs by blast
  have "cq_shift (\<lambda>g. d * (of_bool (sq = g) + of_bool (rq = g))) (uc_cq (k_uc w)) c2"
    by (rule cq_shift_trans [OF c1(2) c2(2)]) auto
  with c1(1) c2(1) show ?thesis by (auto simp: u)
qed

text \<open>The invariant after a change of the table of sockets and of the counts to match.\<close>

lemma uc_inv_shift:
  assumes "uc_inv hash n u" "cq_shift E (uc_cq u) (uc_cq u')" "uc_mm u' = uc_mm u" "k_ht_inv hash (uc_fdhash u')"
    and sk: "\<And>f s. k_ht_map hash (uc_fdhash u') f = Some s \<Longrightarrow> sock_ok (uc_cq u) f s"
    and E: "\<And>h. use_count u' h = use_count u h + E h"
  shows "uc_inv hash n u'"
proof -
  have hs: "map kq_handle (cq_list (uc_cq u')) = map kq_handle (cq_list (uc_cq u))" by (rule cq_shift_handles [OF assms(2)])
  then have hset: "kq_handle ` set (cq_list (uc_cq u')) = kq_handle ` set (cq_list (uc_cq u))" by (metis set_map)
  have sk': "sock_ok (uc_cq u') f s" if "k_ht_map hash (uc_fdhash u') f = Some s" for f s
    using sk [OF that] by (simp add: sock_ok_def hset)
  have r: "map kq_refcnt l' = map (\<lambda>h. g h + E h) (map kq_handle l')"
    if "list_all2 (\<lambda>q q'. kq_handle q' = kq_handle q \<and> kq_refcnt q' = kq_refcnt q + E (kq_handle q) \<and> (k_cq_inv q \<longrightarrow> k_cq_inv q')) l l'"
      "map kq_refcnt l = map g (map kq_handle l)" for g l l'
    using that by (induction rule: list_all2_induct) auto
  have "map kq_refcnt (cq_list (uc_cq u')) = map (\<lambda>h. use_count u h + E h) (map kq_handle (cq_list (uc_cq u')))"
    by (rule r [of "cq_list (uc_cq u)"]) (use assms(1,2) in \<open>simp_all add: uc_inv_def cq_shift_def\<close>)
  moreover have "use_count u' = (\<lambda>h. use_count u h + E h)" using E by (rule ext)
  moreover have "cq_ctx_inv (uc_cq u')" using assms(1) by (intro cq_shift_inv [OF _ assms(2)]) (simp add: uc_inv_def)
  moreover have "cq_list_next_handle (uc_cq u') = cq_list_next_handle (uc_cq u)" using assms(2) by (simp add: cq_shift_def)
  moreover have "k_tags_ok hash (uc_mm u')" "unat (cq_list_next_handle (uc_cq u)) \<le> n" using assms(1,3) by (simp_all add: uc_inv_def)
  ultimately show ?thesis
    using assms(4) sk' unfolding uc_inv_def by simp
qed

section \<open>Registering and deregistering\<close>

lemma set_cqs_simps [simp]:
  "uc_cq (k_uc (set_cqs c w)) = c" "uc_fdhash (k_uc (set_cqs c w)) = uc_fdhash (k_uc w)" "uc_mm (k_uc (set_cqs c w)) = uc_mm (k_uc w)"
  "uc_tgid (k_uc (set_cqs c w)) = uc_tgid (k_uc w)" "k_hash (set_cqs c w) = k_hash w" "k_refs (set_cqs c w) = k_refs w"
  "uc_cq (k_uc (k_set_fdhash t w)) = uc_cq (k_uc w)" "uc_fdhash (k_uc (k_set_fdhash t w)) = t" "uc_mm (k_uc (k_set_fdhash t w)) = uc_mm (k_uc w)"
  "uc_tgid (k_uc (k_set_fdhash t w)) = uc_tgid (k_uc w)" "k_hash (k_set_fdhash t w) = k_hash w" "k_refs (k_set_fdhash t w) = k_refs w"
  by (simp_all add: set_cqs_def k_set_fdhash_def)

lemma use_count_add:
  "ht_vals (uc_fdhash u') = add_mset s (ht_vals (uc_fdhash u)) \<Longrightarrow> use_count u' h = use_count u h + uses h s"
  "ht_vals (uc_fdhash u') = add_mset s (ht_vals (uc_fdhash u)) \<Longrightarrow> regs u' f = regs u f + of_bool (kx_filp s = f)"
  by (simp_all add: use_count_def regs_def)

lemma kw_inv_D:
  assumes "kw_inv hash n tg B w"
  shows "k_hash w = hash" "uc_inv hash n (k_uc w)" "k_ht_inv hash (uc_fdhash (k_uc w))" "cq_ctx_inv (uc_cq (k_uc w))"
    "k_ht_map hash (uc_fdhash (k_uc w)) f = Some s \<Longrightarrow> sock_ok (uc_cq (k_uc w)) f s"
  using assms by (simp_all add: kw_inv_def uc_inv_def)

lemma kw_inv_refs:
  assumes "kw_inv hash n tg B w" "sq \<in> kq_handle ` set (cq_list (uc_cq (k_uc w)))" "rq \<in> kq_handle ` set (cq_list (uc_cq (k_uc w)))"
  obtains c where "bindO (k_cq_ref k_cq_get sq w) (k_cq_ref k_cq_get rq) = Done (set_cqs c w)"
    "cq_shift (\<lambda>g. of_bool (sq = g) + of_bool (rq = g)) (uc_cq (k_uc w)) c"
  using k_cq_refs [where f = k_cq_get and d = 1, OF kw_inv_D(4) [OF assms(1)] assms(2,3)]
  by (auto simp: k_cq_keeps k_cq_get_shift k_cq_inv_steps)

lemma kw_inv_unrefs:
  assumes "cq_ctx_inv (uc_cq (k_uc w))" "sq \<in> kq_handle ` set (cq_list (uc_cq (k_uc w)))" "rq \<in> kq_handle ` set (cq_list (uc_cq (k_uc w)))"
  obtains c where "bindO (k_cq_ref k_cq_put sq w) (k_cq_ref k_cq_put rq) = Done (set_cqs c w)"
    "cq_shift (\<lambda>g. - (of_bool (sq = g) + of_bool (rq = g))) (uc_cq (k_uc w)) c"
  using k_cq_refs [where f = k_cq_put and d = "- 1", OF assms]
  by (auto simp: k_cq_keeps k_cq_get_shift k_cq_inv_steps)

lemma k_iwsk_new_simps: "kx_filp (k_iwsk_new f sq rq) = f" "kx_scq (k_iwsk_new f sq rq) = sq" "kx_rcq (k_iwsk_new f sq rq) = rq"
  "posted_ok (k_iwsk_new f sq rq)"
  by (simp_all add: k_iwsk_new_def k_ddp_register_sock_def k_mpa_register_sock_def posted_ok_def Let_def)

lemma register_insert:
  assumes i: "kw_inv hash n tg (B(f := B f + 1)) w"
    and q: "sq \<in> kq_handle ` set (cq_list (uc_cq (k_uc w)))" "rq \<in> kq_handle ` set (cq_list (uc_cq (k_uc w)))"
  shows "\<exists>r. bindO (bindO (k_cq_ref k_cq_get sq w) (k_cq_ref k_cq_get rq)) (\<lambda>w.
        let s = k_iwsk_new f sq rq;
            (node, w') = kmalloc w;
            (ret, t) = k_ht_insert (k_hash w) (node \<noteq> None) (uc_fdhash (k_uc w)) f s;
            w = (if ret = - EEXIST then w else w')
        in if ret < 0 then bindO (bindO (k_cq_ref k_cq_put sq w) (k_cq_ref k_cq_put rq)) (\<lambda>w. Done (ret, fput f w))
           else Done (ret, k_set_fdhash t w)) = Done r \<and> kw_post hash n tg B r"
proof -
  note inv = kw_inv_D [OF i]
  obtain c where c: "bindO (k_cq_ref k_cq_get sq w) (k_cq_ref k_cq_get rq) = Done (set_cqs c w)"
    "cq_shift (\<lambda>g. of_bool (sq = g) + of_bool (rq = g)) (uc_cq (k_uc w)) c"
    by (rule kw_inv_refs [OF i q])
  obtain node w' where n: "kmalloc (set_cqs c w) = (node, w')" by fastforce
  then have w': "k_uc w' = k_uc (set_cqs c w)" "k_refs w' = k_refs w" "k_hash w' = k_hash w"
    by (auto simp: kmalloc_def split: list.splits)
  obtain ret t where r: "k_ht_insert hash (node \<noteq> None) (uc_fdhash (k_uc w)) f (k_iwsk_new f sq rq) = (ret, t)" by fastforce
  define w2 where "w2 = (if ret = - EEXIST then set_cqs c w else w')"
  have w2: "k_uc w2 = (k_uc w)\<lparr>uc_cq := c\<rparr>" "k_refs w2 = k_refs w" "k_hash w2 = hash"
    using w' inv(1) by (auto simp: w2_def set_cqs_def)
  have hs: "kq_handle ` set (cq_list c) = kq_handle ` set (cq_list (uc_cq (k_uc w)))"
    using cq_shift_handles [OF c(2)] by (metis set_map)
  let ?res = "if ret < 0 then bindO (bindO (k_cq_ref k_cq_put sq w2) (k_cq_ref k_cq_put rq)) (\<lambda>w. Done (ret, fput f w))
           else Done (ret, k_set_fdhash t w2)"
  have "\<exists>r. ?res = Done r \<and> kw_post hash n tg B r"
  proof (cases "ret < 0")
    case True
    obtain c2 where c2: "bindO (k_cq_ref k_cq_put sq w2) (k_cq_ref k_cq_put rq) = Done (set_cqs c2 w2)"
      "cq_shift (\<lambda>g. - (of_bool (sq = g) + of_bool (rq = g))) c c2"
      using kw_inv_unrefs [of w2 sq rq] cq_shift_inv [OF inv(4) c(2)] q hs by (auto simp: w2)
    have sh: "cq_shift (\<lambda>_. 0) (uc_cq (k_uc w)) c2" by (rule cq_shift_trans [OF c(2) c2(2)]) simp
    have "uc_inv hash n (k_uc (set_cqs c2 w2))"
      by (rule uc_inv_shift [OF inv(2), where E = "\<lambda>_. 0"]) (use inv sh in \<open>simp_all add: w2 use_count_def\<close>)
    then have "kw_inv hash n tg (B(f := B f + 1)) (set_cqs c2 w2)"
      using i by (simp add: kw_inv_def w2 regs_def)
    with c2(1) True show ?thesis by (simp add: kw_inv_fput)
  next
    case False
    with k_ht_insert_vals [OF inv(3) r] have t: "ret = 0" "k_ht_inv hash t"
      "k_ht_map hash t = (k_ht_map hash (uc_fdhash (k_uc w)))(f \<mapsto> k_iwsk_new f sq rq)"
      "ht_vals t = add_mset (k_iwsk_new f sq rq) (ht_vals (uc_fdhash (k_uc w)))" by auto
    let ?u = "k_uc (k_set_fdhash t w2)"
    have cnt: "use_count ?u h = use_count (k_uc w) h + uses h (k_iwsk_new f sq rq)"
      "regs ?u g = regs (k_uc w) g + of_bool (f = g)" for h g
      using use_count_add [of ?u "k_iwsk_new f sq rq" "k_uc w"] t(4) by (simp_all add: k_iwsk_new_simps)
    have sh: "cq_shift (\<lambda>g. uses g (k_iwsk_new f sq rq)) (uc_cq (k_uc w)) (uc_cq ?u)"
      using c(2) by (simp add: uses_def k_iwsk_new_simps w2)
    have "uc_inv hash n ?u"
      by (rule uc_inv_shift [OF inv(2) sh])
        (use inv(5) t q cnt in \<open>auto simp: w2 sock_ok_def k_iwsk_new_simps split: if_splits\<close>)
    then have "kw_inv hash n tg B (k_set_fdhash t w2)"
      using i cnt(2) by (auto simp: kw_inv_def w2 split: if_splits)
    with t(1) show ?thesis by simp
  qed
  then show ?thesis
    unfolding c(1) bindO.simps Let_def by (simp add: n inv(1) r w2_def cong: if_cong del: not_None_eq)
qed

lemma k_cq_lookup_handle: "k_cq_lookup h c \<noteq> None \<longleftrightarrow> h \<in> kq_handle ` set (cq_list c)"
  by (auto simp: k_cq_lookup_def find_None_iff)

lemma fget_uc: "fget fd w = (r, w') \<Longrightarrow> k_uc w' = k_uc w"
  by (auto simp: fget_def split: option.splits)

lemma kmalloc_uc: "kmalloc w = (r, w') \<Longrightarrow> k_uc w' = k_uc w"
  by (auto simp: kmalloc_def split: list.splits)

lemma dev_register_sock_inv:
  assumes i: "kw_inv hash n tg B w"
  shows "\<exists>r. dev_register_sock fd sq rq w = Done r \<and> kw_post hash n tg B r"
proof (cases "sq \<in> kq_handle ` set (cq_list (uc_cq (k_uc w))) \<and> rq \<in> kq_handle ` set (cq_list (uc_cq (k_uc w)))")
  case True
  obtain f w1 where f: "fget fd w = (f, w1)" by fastforce
  obtain a w2 where a: "kmalloc w1 = (a, w2)" by fastforce
  have lookups: "k_cq_lookup sq (uc_cq (k_uc w)) \<noteq> None" "k_cq_lookup rq (uc_cq (k_uc w)) \<noteq> None"
    using True by (simp_all add: k_cq_lookup_handle del: not_None_eq)
  show ?thesis
  proof (cases f)
    case None
    with f lookups i kw_inv_fget_none [of fd w w1] show ?thesis by (simp add: dev_register_sock_def k_rdmap_register_sock_def)
  next
    case (Some filp)
    have j: "kw_inv hash n tg (B(filp := B filp + 1)) w1" using kw_inv_fget f i Some by blast
    then have j2: "kw_inv hash n tg (B(filp := B filp + 1)) w2" using kw_inv_kmalloc [OF a] by simp
    have q: "sq \<in> kq_handle ` set (cq_list (uc_cq (k_uc w2)))" "rq \<in> kq_handle ` set (cq_list (uc_cq (k_uc w2)))"
      using True fget_uc [OF f] kmalloc_uc [OF a] by simp_all
    from register_insert [OF j2 q, unfolded bindO_assoc Let_def] j j2 f a Some lookups show ?thesis
      by (auto simp: dev_register_sock_def k_rdmap_register_sock_def Let_def kw_inv_fput split: option.splits)
  qed
next
  case False
  with i show ?thesis
    by (auto simp: dev_register_sock_def k_cq_lookup_def find_None_iff) 
qed

lemma k_rdmap_release_sock_inv:
  assumes "cq_ctx_inv (uc_cq (k_uc w))" "kx_scq s \<in> kq_handle ` set (cq_list (uc_cq (k_uc w)))"
    "kx_rcq s \<in> kq_handle ` set (cq_list (uc_cq (k_uc w)))"
  obtains c where "k_rdmap_release_sock_res s w = Done (fput (kx_filp s) (set_cqs c w))"
    "cq_shift (\<lambda>h. - uses h s) (uc_cq (k_uc w)) c"
proof -
  obtain c where c: "bindO (k_cq_ref k_cq_put (kx_scq s) w) (k_cq_ref k_cq_put (kx_rcq s)) = Done (set_cqs c w)"
    "cq_shift (\<lambda>g. - (of_bool (kx_scq s = g) + of_bool (kx_rcq s = g))) (uc_cq (k_uc w)) c"
    by (rule kw_inv_unrefs [OF assms])
  have s: "kx_scq (k_ddp_deregister_sock s) = kx_scq s" "kx_rcq (k_ddp_deregister_sock s) = kx_rcq s"
    "kx_filp (k_ddp_deregister_sock s) = kx_filp s"
    by (simp_all add: k_ddp_deregister_sock_def k_mpa_deregister_sock_def)
  have "k_rdmap_release_sock_res s w = Done (fput (kx_filp s) (set_cqs c w))"
    using c(1) unfolding k_rdmap_release_sock_res_def Let_def s by (simp flip: bindO_assoc)
  with that c(2) show thesis by (simp add: uses_def)
qed

lemma k_rdmap_deregister_sock_inv:
  assumes i: "kw_inv hash n tg B w"
  shows "\<exists>r. k_rdmap_deregister_sock fd w = Done r \<and> kw_post hash n tg B r"
proof -
  obtain f w1 where f: "fget fd w = (f, w1)" by fastforce
  show ?thesis
  proof (cases f)
    case None
    with f i kw_inv_fget_none [of fd w w1] show ?thesis by (simp add: k_rdmap_deregister_sock_def)
  next
    case (Some filp)
    have j: "kw_inv hash n tg (B(filp := B filp + 1)) w1" using kw_inv_fget f i Some by blast
    note inv = kw_inv_D [OF j]
    obtain ret v t where d: "k_ht_delete_callback hash (uc_fdhash (k_uc w1)) filp = (ret, v, t)" using prod_cases3 by blast
    show ?thesis
    proof (cases v)
      case None
      with k_ht_delete_vals [OF inv(3) d] j f Some d show ?thesis
        by (simp add: k_rdmap_deregister_sock_def inv(1) kw_inv_fput)
    next
      case v: (Some s)
      with k_ht_delete_vals [OF inv(3) d] have t: "ret = 0" "k_ht_inv hash t" "k_ht_map hash (uc_fdhash (k_uc w1)) filp = Some s"
        "k_ht_map hash t = (k_ht_map hash (uc_fdhash (k_uc w1)))(filp := None)"
        "ht_vals (uc_fdhash (k_uc w1)) = add_mset s (ht_vals t)" by auto
      have ok: "sock_ok (uc_cq (k_uc w1)) filp s" by (rule inv(5) [OF t(3)])
      let ?w = "k_set_fdhash t w1"
      obtain c where c: "k_rdmap_release_sock_res s ?w = Done (fput (kx_filp s) (set_cqs c ?w))"
        "cq_shift (\<lambda>h. - uses h s) (uc_cq (k_uc w1)) c"
        using k_rdmap_release_sock_inv [of ?w s] ok inv(4) by (auto simp: sock_ok_def)
      let ?u = "k_uc (set_cqs c ?w)"
      have cnt: "use_count (k_uc w1) h = use_count ?u h + uses h s" "regs (k_uc w1) g = regs ?u g + of_bool (kx_filp s = g)" for h g
        using use_count_add [of "k_uc w1" s ?u] t(5) by simp_all
      have "uc_inv hash n ?u"
        by (rule uc_inv_shift [OF inv(2), where E = "\<lambda>h. - uses h s"])
          (use c(2) t(2,4) inv(5) cnt in \<open>auto split: if_splits\<close>)
      then have "kw_inv hash n tg (B(filp := B filp + 1, filp := B filp + 2)) (set_cqs c ?w)"
        using j cnt(2) ok by (auto simp: kw_inv_def sock_ok_def split: if_splits)
      then have "kw_inv hash n tg B (fput filp (fput filp (set_cqs c ?w)))"
        by (intro kw_inv_fput) (simp add: add.commute)
      then show ?thesis
        using f Some d v c(1) t(1) ok by (simp add: k_rdmap_deregister_sock_def inv(1) sock_ok_def)
    qed
  qed
qed

end
