(* ===== verification/K_Dev_Inv.thy ===== *)
theory K_Dev_Inv
  imports K_Socks
begin

text \<open>
  The invariant of the kernel module through every command of a process, its opening of the device and its
  release of it, and what the commands return.
\<close>

section \<open>Sockets and polling\<close>

lemma kw_post_mono: "okO (kw_post hash n tg B) m \<Longrightarrow> (\<And>w. kw_inv hash n tg B w \<Longrightarrow> kw_inv hash n' tg B' w) \<Longrightarrow> okO (kw_post hash n' tg B') m"
  by (erule okO_mono) auto

lemma k_iwsk_lookup_D:
  "k_iwsk_lookup f w = (r, Some s) \<Longrightarrow> kw_inv hash n tg B w \<Longrightarrow> r = 0 \<and> k_ht_map hash (uc_fdhash (k_uc w)) f = Some s"
  "k_iwsk_lookup f w = (r, None) \<Longrightarrow> kw_inv hash n tg B w \<Longrightarrow> r \<le> 0"
  by (auto simp: k_iwsk_lookup_inv split: option.splits)

lemma k_rdmap_set_sock_attrs_inv:
  assumes "kw_inv hash n tg B w"
  shows "kw_post hash n tg B (k_rdmap_set_sock_attrs fd crc mrkrs w)"
proof -
  have store: "kw_inv hash n tg B' (k_iwsk_store (s\<lparr>kx_mpask := m\<rparr>) w1)"
    if "kw_inv hash n tg B' w1" "k_ht_map hash (uc_fdhash (k_uc w1)) f = Some s" for B' s m w1 f
    using that by (rule kw_inv_store) simp
  show ?thesis
    unfolding k_rdmap_set_sock_attrs_def
    by (auto split: prod.splits option.splits dest!: kw_inv_fget_none kw_inv_fget [OF _ assms] k_iwsk_lookup_D
      simp: assms intro: kw_inv_weaken kw_inv_fput store)
qed

lemma k_rdmap_init_startup_inv:
  assumes "kw_inv hash n tg B w"
  shows "okO (kw_post hash n tg B) (k_rdmap_init_startup fd ini pd_in len_in pd_out len_out w)"
  unfolding k_rdmap_init_startup_def
  by (intro okO_intros)
    (auto simp: assms dest!: kw_inv_fget_none kw_inv_fget [OF _ assms] k_iwsk_lookup_D okO_D [OF k_mpa_init_startup_post]
      intro: kw_inv_weaken kw_inv_store)

lemma kw_inv_copy: "copy_to_user a bs w = (ok, w') \<Longrightarrow> kw_inv hash n tg B w' = kw_inv hash n tg B w"
  by (rule kw_inv_frames) (rule copy_to_user_frames)

lemma kw_inv_consume:
  assumes "k_consume h w = Done (ret, e, w')" "kw_inv hash n tg B w"
  shows "ret \<le> 0 \<and> kw_inv hash n tg B w'"
proof -
  have k: "ret \<le> 0" "k_keeps s w s w'" for s using k_consume_keeps [OF assms(1), of s w s] by simp_all
  have "uc_inv hash n (k_uc w')"
    by (rule uc_inv_keep [of hash n "k_uc w"]) (use assms(2) k(2) in \<open>simp_all add: kw_inv_def k_keeps_def\<close>)
  with assms(2) k show ?thesis by (simp add: kw_inv_def k_keeps_def regs_def)
qed

lemma k_rdmap_check_cq_inv: "kw_inv hash n tg B w \<Longrightarrow> okO (kw_post hash n tg B) (k_rdmap_check_cq h uwc w)"
  unfolding k_rdmap_check_cq_def
  by (intro okO_intros) (auto dest!: kw_inv_consume simp: kw_inv_copy)

lemma k_rdmap_encourage_inv: "kw_inv hash n tg B w \<Longrightarrow> okO (kw_post hash n tg B) (k_rdmap_encourage one w)"
  by (rule okO_mono [OF k_encourage_inv]) auto

lemma k_rdmap_poll_inv: "kw_inv hash n tg B w \<Longrightarrow> okO (kw_post hash n tg B) (k_rdmap_poll h uwc w)"
  unfolding k_rdmap_poll_def
  by (intro okO_intros okO_bind [OF k_rdmap_check_cq_inv] okO_bind [OF k_rdmap_encourage_inv]) (auto intro: k_rdmap_check_cq_inv)

lemma k_poll_round_inv:
  assumes "kw_inv hash n tg B w"
  shows "case k_poll_round f h uwc w of Inl m \<Rightarrow> okO (kw_post hash n tg B) m | Inr w' \<Rightarrow> kw_inv hash n tg B w'"
proof (cases "k_rdmap_encourage (Some f) w")
  case (Done r)
  with okO_D [OF k_rdmap_encourage_inv [OF assms] Done] show ?thesis
    by (cases r) (auto simp: k_poll_round_def okO_def split: outcome.splits dest: okO_D [OF k_rdmap_check_cq_inv])
qed (simp add: k_poll_round_def okO_def)

lemma k_poll_rounds_inv:
  assumes "k_poll_rounds f h uwc w = Some m" "kw_inv hash n tg B w"
  shows "okO (kw_post hash n tg B) m"
proof -
  have "kw_inv hash n tg B w \<longrightarrow> okO (kw_post hash n tg B) m"
  proof (rule k_poll_rounds.raw_induct [where P = "\<lambda>f h uwc w m. kw_inv hash n tg B w \<longrightarrow> okO (kw_post hash n tg B) m", OF _ assms(1)], goal_cases)
    case (1 rec f h uwc w m)
    then show ?case
      using k_poll_round_inv [of hash n tg B w f h uwc] by (cases "k_poll_round f h uwc w") (auto simp: Let_def)
  qed
  with assms(2) show ?thesis by simp
qed

lemma k_rdmap_poll_block_inv:
  assumes "k_rdmap_poll_block h fd uwc w = Some m" "kw_inv hash n tg B w"
  shows "okO (kw_post hash n tg B) m"
proof (cases "k_rdmap_check_cq h uwc w")
  case (Done r)
  obtain ret w1 where r: "r = (ret, w1)" by fastforce
  have i: "ret \<le> 0" "kw_inv hash n tg B w1" using okO_D [OF k_rdmap_check_cq_inv [OF assms(2)] Done] r by simp_all
  show ?thesis
  proof (cases "ret = - EAGAIN")
    case True
    obtain f w2 where f: "fget fd w1 = (f, w2)" by fastforce
    show ?thesis
    proof (cases f)
      case None
      with assms(1) Done r True f i kw_inv_fget_none show ?thesis by (auto simp: k_rdmap_poll_block_def okO_def)
    next
      case (Some filp)
      have j: "kw_inv hash n tg (B(filp := B filp + 1)) w2" using kw_inv_fget f i(2) Some by blast
      have "okO (kw_post hash n tg B) (bindO m (\<lambda>(ret, w). Done (ret, fput filp w)))"
        if "k_poll_rounds filp h uwc w2 = Some m" for m
        using k_poll_rounds_inv [OF that j] by (auto simp: okO_def outcome_simps kw_inv_fput)
      with assms(1) Done r True f Some j show ?thesis
        by (auto simp: k_rdmap_poll_block_def okO_def kw_inv_fput split: prod.splits option.splits)
    qed
  qed (use assms(1) Done r i in \<open>auto simp: k_rdmap_poll_block_def okO_def\<close>)
qed (use assms(1) in \<open>simp add: k_rdmap_poll_block_def okO_def\<close>)

section \<open>Queues, regions and tags\<close>

lemma uc_inv_mono: "uc_inv hash n u \<Longrightarrow> n \<le> n' \<Longrightarrow> uc_inv hash n' u"
  by (auto simp: uc_inv_def)

lemma kw_inv_mono: "kw_inv hash n tg B w \<Longrightarrow> n \<le> n' \<Longrightarrow> kw_inv hash n' tg B w"
  by (auto simp: kw_inv_def intro: uc_inv_mono)

lemma sum_mset_zero_member:
  fixes F :: "'a \<Rightarrow> int"
  assumes "(\<Sum>x\<in>#M. F x) = 0" "\<And>x. 0 \<le> F x" "s \<in># M"
  shows "F s = 0"
proof -
  have "0 \<le> (\<Sum>x\<in>#N. F x)" for N by (induction N) (simp_all add: assms(2))
  moreover obtain N where "M = add_mset s N" using assms(3) by (rule mset_add)
  ultimately show ?thesis using assms(1) assms(2) [of s] by (metis add_nonneg_eq_0_iff image_mset_add_mset sum_mset.add_mset)
qed

lemma use_count_unknown:
  assumes "uc_inv hash n u" "h \<notin> kq_handle ` set (cq_list (uc_cq u))"
  shows "use_count u h = 0"
proof -
  have "uses h s = 0" if "s \<in># ht_vals (uc_fdhash u)" for s
  proof -
    have "k_ht_inv hash (uc_fdhash u)" using assms(1) by (simp add: uc_inv_def)
    from ht_vals_ran [OF this, of s] that obtain f where "k_ht_map hash (uc_fdhash u) f = Some s" by blast
    then have "sock_ok (uc_cq u) f s" using assms(1) by (simp add: uc_inv_def)
    with assms(2) show ?thesis by (auto simp: sock_ok_def uses_def)
  qed
  then have "image_mset (uses h) (ht_vals (uc_fdhash u)) = image_mset (\<lambda>_. 0) (ht_vals (uc_fdhash u))" by (intro image_mset_cong)
  then show ?thesis by (simp add: use_count_def)
qed

lemma uc_inv_cq_create:
  assumes i: "uc_inv hash n u" and n: "Suc n < 2 ^ 64" and c: "k_cq_create a b num (uc_cq u) = (q, c')"
    and u': "uc_cq u' = c'" "uc_fdhash u' = uc_fdhash u" "uc_mm u' = uc_mm u"
  shows "uc_inv hash (Suc n) u'"
proof (cases q)
  case None
  with c have "c' = uc_cq u" by (auto simp: k_cq_create_def Let_def split: if_splits option.splits)
  with uc_inv_mono [OF i, of "Suc n"] u' show ?thesis by (auto intro: uc_inv_keep)
next
  case (Some cq)
  let ?h = "cq_list_next_handle (uc_cq u)"
  from c Some obtain junk where c': "0 < num" "cq = \<lparr>kq_handle = ?h, kq_cqe = replicate (nat num) junk, kq_num = num,
      kq_prod = 0, kq_cons = 0, kq_refcnt = 0\<rparr>"
    "c' = (uc_cq u)\<lparr>cq_list_next_handle := ?h + 1, cq_list := cq # cq_list (uc_cq u)\<rparr>"
    by (auto simp: k_cq_create_def Let_def split: if_splits option.splits)
  have h: "unat ?h \<le> n" "cq_ctx_inv (uc_cq u)" using i by (simp_all add: uc_inv_def)
  have "?h \<noteq> - 1"
  proof
    assume "?h = - 1"
    then have "unat ?h = 2 ^ 64 - 1" by (simp add: unsigned_minus_1_eq_mask mask_eq_exp_minus_1)
    with h(1) n show False by simp
  qed
  then have up: "unat (?h + 1) = Suc (unat ?h)" by (metis add.commute add_eq_0_iff2 unatSuc)
  have lt: "?h < ?h + 1" using up by (simp add: word_less_nat_alt)
  have "cq_create True (Some junk) num = Some (ring_of cq)" using c'(1,2) by (simp add: cq_create_def ring_of_def)
  from cq_create_inv [OF this] have ring: "k_cq_inv cq" by (simp add: k_cq_inv_def)
  have new: "?h \<notin> kq_handle ` set (cq_list (uc_cq u))" using h(2) by (auto simp: cq_ctx_inv_def)
  have "cq_ctx_inv c'"
    using h(2) new lt ring unfolding cq_ctx_inv_def c'(3)
    by (auto simp: c'(2) image_iff intro: order.strict_trans [OF _ lt])
  moreover have "use_count u' = use_count u" by (simp add: use_count_def [abs_def] u')
  ultimately show ?thesis
    using i up h(1) use_count_unknown [OF i new] unfolding uc_inv_def u'
    by (auto simp: c'(2,3) sock_ok_def)
qed

lemma give_user_inv: "kw_inv hash n tg B w \<Longrightarrow> kw_post hash n tg B (give_user a bs w)"
  by (auto simp: give_user_def Let_def kw_inv_copy split: prod.splits)

lemma set_uc_kw_inv:
  assumes "uc_inv hash n' u'" "kw_inv hash n tg B w" "uc_tgid u' = uc_tgid (k_uc w)" "regs u' = regs (k_uc w)"
  shows "kw_inv hash n' tg B (set_uc u' w)"
  using assms by (simp add: kw_inv_def)

lemma dev_cq_create_inv:
  assumes i: "kw_inv hash n tg B w" and n: "Suc n < 2 ^ 64"
  shows "kw_post hash (Suc n) tg B (dev_cq_create depth out w)"
proof -
  obtain a w1 where a: "kmalloc w = (a, w1)" by fastforce
  obtain b w2 where b: "kmalloc w1 = (b, w2)" by fastforce
  obtain q c where c: "k_cq_create (a \<noteq> None) (map_option (\<lambda>_. k_junk_cqe w) b) (sint depth) (uc_cq (k_uc w)) = (q, c)" by fastforce
  have w: "kw_inv hash n tg B w3" "k_uc w3 = k_uc w" if "w3 \<in> {w, w1, w2}" for w3
    using that i kw_inv_kmalloc [OF a] kw_inv_kmalloc [OF b] kmalloc_uc [OF a] kmalloc_uc [OF b] by auto
  have "kw_inv hash (Suc n) tg B (set_cqs c w3)" if "w3 \<in> {w, w1, w2}" for w3
    unfolding set_cqs_def
    by (rule set_uc_kw_inv [OF _ w(1) [OF that]], rule uc_inv_cq_create [OF _ n c])
      (use i w(2) [OF that] in \<open>simp_all add: kw_inv_def regs_def [abs_def]\<close>)
  then show ?thesis
    unfolding dev_cq_create_def Let_def a b prod.case c
    by (auto intro!: give_user_inv split: option.splits)
qed

lemma dev_cq_destroy_inv:
  assumes i: "kw_inv hash n tg B w"
  shows "kw_post hash n tg B (dev_cq_destroy h w)"
proof (cases "k_cq_lookup h (uc_cq (k_uc w))")
  case (Some q)
  note inv = kw_inv_D [OF i]
  obtain ret c where c: "k_cq_destroy q (uc_cq (k_uc w)) = (ret, c)" by fastforce
  show ?thesis
  proof (cases "kq_refcnt q = 0")
    case True
    have c': "ret = 0" "c = (uc_cq (k_uc w))\<lparr>cq_list := filter (\<lambda>p. kq_handle p \<noteq> kq_handle q) (cq_list (uc_cq (k_uc w)))\<rparr>"
      using c True by (simp_all add: k_cq_destroy_def)
    have "sock_ok c f s" if s: "k_ht_map hash (uc_fdhash (k_uc w)) f = Some s" for f s
    proof -
      have v: "s \<in># ht_vals (uc_fdhash (k_uc w))" using s ht_vals_ran [OF inv(3)] by blast
      have "use_count (k_uc w) (kq_handle q) = 0"
        using True inv(2) k_cq_lookup_Some [OF Some] by (auto simp: uc_inv_def)
      moreover have "0 \<le> uses (kq_handle q) s" for s by (simp add: uses_def)
      ultimately have "uses (kq_handle q) s = 0"
        using sum_mset_zero_member [where F = "uses (kq_handle q)", OF _ _ v] by (simp add: use_count_def)
      then have ne: "kx_scq s \<noteq> kq_handle q" "kx_rcq s \<noteq> kq_handle q" by (auto simp: uses_def of_bool_def split: if_splits)
      have "kq_handle ` set (cq_list c) = kq_handle ` set (cq_list (uc_cq (k_uc w))) - {kq_handle q}"
        unfolding c'(2) by auto
      then show ?thesis using inv(5) [OF s] ne by (simp add: sock_ok_def)
    qed
    moreover have "cq_ctx_inv c" using inv(4) by (auto simp: cq_ctx_inv_def c'(2) distinct_map_filter)
    moreover have "use_count (k_uc (set_cqs c w)) = use_count (k_uc w)" by (simp add: use_count_def [abs_def])
    ultimately have "uc_inv hash n (k_uc (set_cqs c w))"
      using inv(2) by (simp add: uc_inv_def c'(2))
    then have "kw_inv hash n tg B (set_cqs c w)" unfolding set_cqs_def
      by (intro set_uc_kw_inv [OF _ i]) (simp_all add: regs_def [abs_def])
    with c Some c'(1) show ?thesis by (simp add: dev_cq_destroy_def)
  next
    case False
    with c Some i show ?thesis by (auto simp: dev_cq_destroy_def k_cq_destroy_def set_cqs_def set_uc_def)
  qed
qed (use i in \<open>simp add: dev_cq_destroy_def\<close>)

lemma kw_inv_set_mm:
  assumes "kw_inv hash n tg B w" "k_tags_ok hash (uc_mm (k_uc w)) \<Longrightarrow> k_tags_ok hash m"
  shows "kw_inv hash n tg B (set_mm m w)"
proof -
  have "uc_inv hash n ((k_uc w)\<lparr>uc_mm := m\<rparr>)"
    by (rule uc_inv_keep [of hash n "k_uc w"]) (use assms in \<open>simp_all add: kw_inv_def\<close>)
  then show ?thesis using set_uc_kw_inv [OF _ assms(1)] by (simp add: set_mm_def regs_def [abs_def])
qed

lemma k_mem_slot_tags: "k_mem_slot table mg = Done (slot, mg') \<Longrightarrow> km_stag_ht mg' = km_stag_ht mg"
  by (auto simp: k_mem_slot_def Let_def split: if_splits option.splits)

lemma k_mem_register_tags: "k_mem_register pt ans table pl ca addr len mg = Done (md, mg') \<Longrightarrow> km_stag_ht mg' = km_stag_ht mg"
proof -
  have "okO (\<lambda>(md, mg'). km_stag_ht mg' = km_stag_ht mg) (k_mem_register pt ans table pl ca addr len mg)"
    unfolding k_mem_register_def Let_def by (intro okO_intros) (auto dest: k_mem_slot_tags)
  then show "k_mem_register pt ans table pl ca addr len mg = Done (md, mg') \<Longrightarrow> ?thesis" by (auto dest: okO_D)
qed

lemma k_mem_deregister_tags:
  "k_mem_deregister md mg = Done (ret, mg') \<Longrightarrow> ret \<le> 0 \<and> km_stag_ht mg' = km_stag_ht mg"
  by (auto simp: k_mem_deregister_def Let_def outcome_simps split: option.splits if_splits)

lemma k_mem_stag_create_tags:
  assumes "k_mem_stag_create hash a nodes md start len rw pd mg = Done (stag, mg')" "k_tags_ok hash mg"
  shows "k_tags_ok hash mg'"
  using assms(2,1)
proof (cases rule: k_mem_stag_create_cases)
  case (2 j a t cntr)
  then show ?thesis using assms(2) by (auto simp: k_tags_ok_def split: if_splits)
qed (use assms(2) in simp)

lemma k_mem_stag_destroy_tags:
  assumes "k_mem_stag_destroy hash stag mg = Done (ret, mg')" "k_tags_ok hash mg"
  shows "ret \<le> 0 \<and> k_tags_ok hash mg'"
  using assms(2,1)
proof (cases rule: k_mem_stag_destroy_cases)
  case (2 sd t)
  then show ?thesis using assms(2) by (auto simp: k_tags_ok_def split: if_splits)
qed (use assms(2) in simp)

lemma k_tags_ok_ht: "km_stag_ht m = km_stag_ht m' \<Longrightarrow> k_tags_ok hash m' \<Longrightarrow> k_tags_ok hash m"
  by (simp add: k_tags_ok_def)

lemma dev_mem_inv:
  assumes i: "kw_inv hash n tg B w"
  shows "okO (kw_post hash n tg B) (dev_mem_reg addr len out w)" "okO (kw_post hash n tg B) (dev_mem_dereg md w)"
    "okO (kw_post hash n tg B) (dev_stag_create md start len rw pd out w)" "okO (kw_post hash n tg B) (dev_stag_destroy stag w)"
proof -
  have h: "k_hash w = hash" using i by (simp add: kw_inv_def)
  show "okO (kw_post hash n tg B) (dev_mem_dereg md w)"
    unfolding dev_mem_dereg_def
    by (intro okO_intros) (auto dest!: k_mem_deregister_tags intro!: kw_inv_set_mm [OF i] intro: k_tags_ok_ht)
  have t: "k_tags_ok hash (uc_mm (k_uc w))" using i by (simp add: kw_inv_def uc_inv_def)
  show "okO (kw_post hash n tg B) (dev_stag_destroy stag w)"
    unfolding dev_stag_destroy_def h
    by (intro okO_intros) (auto dest!: k_mem_stag_destroy_tags [OF _ t] intro!: kw_inv_set_mm [OF i])
  show "okO (kw_post hash n tg B) (dev_mem_reg addr len out w)"
  proof -
    obtain a w1 where a: "kmalloc (w\<lparr>k_gup := tl (k_gup w)\<rparr>) = (a, w1)" by fastforce
    obtain b w2 where b: "kmalloc w1 = (b, w2)" by fastforce
    obtain c w3 where c: "kmalloc w2 = (c, w3)" by fastforce
    have w3: "kw_inv hash n tg B w3" using i kw_inv_kmalloc [OF a] kw_inv_kmalloc [OF b] kw_inv_kmalloc [OF c] by simp
    show ?thesis
      unfolding dev_mem_reg_def Let_def a b c prod.case
      by (intro okO_intros)
        (auto intro!: give_user_inv kw_inv_set_mm [OF w3] intro: k_tags_ok_ht dest!: k_mem_register_tags)
  qed
  show "okO (kw_post hash n tg B) (dev_stag_create md start len rw pd out w)"
  proof -
    obtain a w1 where a: "kmalloc w = (a, w1)" by fastforce
    have w1: "kw_inv hash n tg B w1" using i kw_inv_kmalloc [OF a] by simp
    have w2: "kw_inv hash n tg B (w1\<lparr>k_mallocs := ms\<rparr>)" for ms using w1 by simp
    show ?thesis
      unfolding dev_stag_create_def Let_def a prod.case
      by (intro okO_intros)
        (auto intro!: give_user_inv kw_inv_set_mm [OF w2] dest: k_mem_stag_create_tags simp: kw_inv_D(1) [OF w1])
  qed
qed

lemma k_cmd_run_inv:
  assumes "k_cmd_run c w = Some m" "kw_inv hash n tg B w" "Suc n < 2 ^ 64"
  shows "okO (kw_post hash (Suc n) tg B) m"
proof -
  have up: "okO (kw_post hash n tg B) m \<Longrightarrow> okO (kw_post hash (Suc n) tg B) m" for m
    by (erule kw_post_mono) (rule kw_inv_mono, auto)
  have reg: "okO (kw_post hash n tg B) (dev_register_sock fd sq rq w)" "okO (kw_post hash n tg B) (k_rdmap_deregister_sock fd w)" for fd sq rq
    using dev_register_sock_inv [OF assms(2)] k_rdmap_deregister_sock_inv [OF assms(2)] by (metis okO_Done)+
  have sock: "okO (kw_post hash n tg B) (k_with_sock fd body w)" if "\<And>s w. okO (uk_post s w) (body s w)" for fd body
    by (rule k_with_sock_inv [OF assms(2) that])
  show ?thesis
  proof (cases "\<exists>depth out. c = CqCreate depth out")
    case True
    then obtain depth out where "m = Done (dev_cq_create depth out w)" using assms(1) by (auto simp: k_cmd_run_def)
    with dev_cq_create_inv [OF assms(2,3)] show ?thesis by (simp add: okO_Done)
  next
    case False
    with assms(1) show ?thesis
      by (intro up) (auto simp: k_cmd_run_def okO_Done k_rdmap_send_def k_rdmap_post_recv_def k_rdmap_rdma_write_def k_rdmap_rdma_read_def
        k_rdmap_set_sock_attrs_inv assms(2) dev_cq_destroy_inv dev_mem_inv dev_poll_def dev_poll_block_def
        split: k_cmd.splits if_splits
        intro!: reg sock k_post_body k_rdmap_encourage_inv k_rdmap_init_startup_inv
          k_rdmap_poll_inv intro: k_rdmap_poll_block_inv)
  qed
qed

lemma iwarp_write_inv:
  assumes "iwarp_write ubuf cnt w = Some m" "kw_inv hash n tg B w" "Suc n < 2 ^ 64"
  shows "okO (\<lambda>(ret, w'). (if cnt < 4 then ret = - EINVAL else ret = c_int (int cnt) \<or> ret < 0) \<and> kw_inv hash (Suc n) tg B w') m"
proof -
  have run: "okO (\<lambda>(ret, w'). (ret = c_int (int cnt) \<or> ret < 0) \<and> kw_inv hash (Suc n) tg B w')
      (bindO m (\<lambda>(ret, w). Done (if ret = 0 then c_int (int cnt) else ret, w)))" if "k_cmd_run c w = Some m" for c m
    using k_cmd_run_inv [OF that assms(2,3)] by (force simp: okO_def outcome_simps)
  have up: "kw_inv hash (Suc n) tg B w" using kw_inv_mono [OF assms(2)] by simp
  show ?thesis
    using assms(1) unfolding iwarp_write_def Let_def
    by (auto simp: up okO_Done dest!: run split: if_splits option.splits)
qed

section \<open>Opening and releasing\<close>

lemma release_socks_inv:
  assumes "cq_ctx_inv (uc_cq (k_uc w))"
    "\<forall>s\<in>set ss. kx_scq s \<in> kq_handle ` set (cq_list (uc_cq (k_uc w))) \<and> kx_rcq s \<in> kq_handle ` set (cq_list (uc_cq (k_uc w)))"
  shows "\<exists>w'. release_socks ss w = Done w' \<and> cq_shift (\<lambda>h. - (\<Sum>s\<leftarrow>ss. uses h s)) (uc_cq (k_uc w)) (uc_cq (k_uc w'))
    \<and> (\<forall>f. k_refs w' f = k_refs w f - (\<Sum>s\<leftarrow>ss. of_bool (kx_filp s = f)))
    \<and> k_hash w' = k_hash w \<and> uc_mm (k_uc w') = uc_mm (k_uc w) \<and> uc_tgid (k_uc w') = uc_tgid (k_uc w)"
  using assms
proof (induction ss arbitrary: w)
  case Nil
  then show ?case by (auto simp: cq_shift_def list_all2_conv_all_nth)
next
  case (Cons s ss)
  obtain c where c: "k_rdmap_release_sock_res s w = Done (fput (kx_filp s) (set_cqs c w))"
    "cq_shift (\<lambda>h. - uses h s) (uc_cq (k_uc w)) c"
    using k_rdmap_release_sock_inv [of w s] Cons.prems by auto
  let ?w = "fput (kx_filp s) (set_cqs c w)"
  have u: "k_uc ?w = k_uc (set_cqs c w)" "k_hash ?w = k_hash w"
    "k_refs ?w = (k_refs w)(kx_filp s := k_refs w (kx_filp s) - 1)" by (simp_all add: fput_def)
  have hs: "kq_handle ` set (cq_list c) = kq_handle ` set (cq_list (uc_cq (k_uc w)))"
    using cq_shift_handles [OF c(2)] by (metis set_map)
  obtain w' where w': "release_socks ss ?w = Done w'" "cq_shift (\<lambda>h. - (\<Sum>s\<leftarrow>ss. uses h s)) c (uc_cq (k_uc w'))"
    "\<forall>f. k_refs w' f = k_refs ?w f - (\<Sum>s\<leftarrow>ss. of_bool (kx_filp s = f))"
    "k_hash w' = k_hash ?w" "uc_mm (k_uc w') = uc_mm (k_uc ?w)" "uc_tgid (k_uc w') = uc_tgid (k_uc ?w)"
    using Cons.IH [of ?w] Cons.prems cq_shift_inv [OF Cons.prems(1) c(2)] by (auto simp: u hs)
  have "cq_shift (\<lambda>h. - (\<Sum>s\<leftarrow>s # ss. uses h s)) (uc_cq (k_uc w)) (uc_cq (k_uc w'))"
    by (rule cq_shift_trans [OF c(2) w'(2)]) simp
  moreover have "k_refs w' f = k_refs w f - (\<Sum>s\<leftarrow>s # ss. of_bool (kx_filp s = f))" for f
    using w'(3) u(3) by simp
  ultimately show ?case using c(1) w' u by simp
qed

lemma release_cqs_empty:
  assumes "\<forall>q\<in>set (cq_list c). kq_refcnt q = 0"
  shows "cq_list (release_cqs c) = []"
proof -
  have "cq_list (fold (\<lambda>q uc. snd (k_cq_destroy q uc)) qs c') = filter (\<lambda>q. kq_handle q \<notin> kq_handle ` set qs) (cq_list c')"
    if "\<forall>q\<in>set qs. kq_refcnt q = 0" for qs c'
    using that
  proof (induction qs arbitrary: c')
    case (Cons q qs)
    then show ?case by (auto simp: k_cq_destroy_def intro: filter_cong)
  qed simp
  then show ?thesis using assms unfolding release_cqs_def by (auto simp: filter_empty_conv)
qed

text \<open>
  A release that comes back gives back one reference for each registered file and leaves no queue behind; it
  comes back when the tags of the process can be taken off their lists.
\<close>

lemma k_mem_release_zero: "k_mem_release hash mg = Done (ret, mg') \<Longrightarrow> ret = 0"
  by (auto simp: k_mem_release_def outcome_simps)

lemma k_iwarp_release_inv:
  assumes i: "uc_inv (k_hash w) n (k_uc w)"
  shows "case k_mem_release (k_hash w) (uc_mm (k_uc w)) of
      Exit \<Rightarrow> k_iwarp_release w = Exit
    | Done _ \<Rightarrow> \<exists>w'. k_iwarp_release w = Done (0, w') \<and> k_hash w' = k_hash w \<and> cq_list (uc_cq (k_uc w')) = []
        \<and> (\<forall>f. k_refs w' f = k_refs w f - regs (k_uc w) f)"
proof -
  let ?t = "uc_fdhash (k_uc w)" and ?hash = "k_hash w"
  have t: "k_ht_inv ?hash ?t" using i by (simp add: uc_inv_def)
  define vals where "vals = concat (map (map snd) (kh_htab ?t))"
  have m: "mset vals = ht_vals ?t" by (simp add: vals_def ht_vals_def)
  obtain t' where d: "k_ht_destroy_callback ?t = (0, vals, t')"
    using k_ht_values(2) [OF t] by (auto simp: k_ht_destroy_callback_def Let_def vals_def)
  have "sock_ok (uc_cq (k_uc w)) (kx_filp s) s" if "s \<in> set vals" for s
  proof -
    have "s \<in># ht_vals ?t" using that by (simp flip: m)
    then obtain f where "k_ht_map ?hash ?t f = Some s" using ht_vals_ran [OF t] by blast
    then show ?thesis using i by (auto simp: uc_inv_def sock_ok_def)
  qed
  then obtain w1 where w1: "release_socks vals (k_set_fdhash t' w) = Done w1"
    "cq_shift (\<lambda>h. - (\<Sum>s\<leftarrow>vals. uses h s)) (uc_cq (k_uc w)) (uc_cq (k_uc w1))"
    "\<forall>f. k_refs w1 f = k_refs w f - (\<Sum>s\<leftarrow>vals. of_bool (kx_filp s = f))" "k_hash w1 = ?hash"
    "uc_mm (k_uc w1) = uc_mm (k_uc w)"
    using release_socks_inv [of "k_set_fdhash t' w" vals] i by (auto simp: uc_inv_def sock_ok_def)
  have sums: "(\<Sum>s\<leftarrow>vals. F s) = (\<Sum>s\<in>#ht_vals ?t. F s)" for F :: "k_iwsk \<Rightarrow> int"
    unfolding m [symmetric] by (metis mset_map sum_mset_sum_list)
  have "kq_refcnt q = 0" if "q \<in> set (cq_list (uc_cq (k_uc w1)))" for q
  proof -
    from that obtain j where j: "j < length (cq_list (uc_cq (k_uc w1)))" "q = cq_list (uc_cq (k_uc w1)) ! j"
      by (auto simp: in_set_conv_nth)
    let ?p = "cq_list (uc_cq (k_uc w)) ! j"
    have p: "?p \<in> set (cq_list (uc_cq (k_uc w)))" "kq_refcnt q = kq_refcnt ?p - use_count (k_uc w) (kq_handle ?p)"
      using w1(2) j by (auto simp: cq_shift_def list_all2_conv_all_nth sums use_count_def)
    then show ?thesis using i by (auto simp: uc_inv_def)
  qed
  then have q: "cq_list (release_cqs (uc_cq (k_uc w1))) = []" by (intro release_cqs_empty) blast
  with w1 show ?thesis
    by (auto simp: k_iwarp_release_def d Let_def set_mm_def sums regs_def split: outcome.split dest: k_mem_release_zero)
qed

lemma uc_inv_new:
  assumes "\<forall>k. hash k 5 < 2 ^ 5" "\<forall>k. hash k 4 < 2 ^ 4" "k_ht_create True 4 = (r, t)"
    "k_mem_initialize a True True mg = (0, m)" "1 \<le> n"
  shows "uc_inv hash n ((uc_junk tg w)\<lparr>uc_mm := m, uc_fdhash := t\<rparr>)" "regs ((uc_junk tg w)\<lparr>uc_mm := m, uc_fdhash := t\<rparr>) f = 0"
proof -
  have t: "k_ht_inv hash t" "k_ht_map hash t = Map.empty" using k_ht_create_inv [where hash = hash, OF assms(3) _ assms(2)] by simp_all
  have v: "ht_vals t = {#}" using ht_vals_ran [OF t(1)] t(2) by (auto intro: multiset_eqI simp: not_in_iff)
  obtain r5 t5 where t5: "k_ht_create True 5 = (r5, t5 :: k_stag_desc k_ht)" by fastforce
  from k_ht_create_inv [where hash = hash, OF t5 _ assms(1)] have "r5 = 0" "k_ht_inv hash t5" "k_ht_map hash t5 = Map.empty" by simp_all
  then have "k_tags_ok hash m"
    using assms(4) t5 by (auto simp: k_mem_initialize_def k_tags_ok_def Let_def split: option.splits if_splits prod.splits)
  then show "uc_inv hash n ((uc_junk tg w)\<lparr>uc_mm := m, uc_fdhash := t\<rparr>)" "regs ((uc_junk tg w)\<lparr>uc_mm := m, uc_fdhash := t\<rparr>) f = 0"
    using t assms(5) by (simp_all add: uc_inv_def uc_junk_def cq_ctx_inv_def regs_def v)
qed

section \<open>The device\<close>

definition regs_all :: "kdev \<Rightarrow> u64 \<Rightarrow> int" where
  "regs_all d f = (\<Sum>u\<leftarrow>kd_list d. regs u f)"

definition dev_inv :: "(u64 \<Rightarrow> nat \<Rightarrow> nat) \<Rightarrow> nat \<Rightarrow> (u64 \<Rightarrow> int) \<Rightarrow> kdev \<Rightarrow> bool" where
  "dev_inv hash n B d \<longleftrightarrow> k_hash (kd_world d) = hash \<and> distinct (map uc_tgid (kd_list d))
     \<and> (\<forall>u\<in>set (kd_list d). uc_inv hash n u) \<and> (\<forall>f. B f + regs_all d f \<le> k_refs (kd_world d) f)"

text \<open>
  The device as the processes see it: the set of those that have it open, what a call may return then, and the
  set afterwards.
\<close>

fun call_value :: "int set \<Rightarrow> dev_call \<Rightarrow> int \<Rightarrow> bool" where
  "call_value S (DevOpen tgid) r = (if tgid \<in> S then r = - EBUSY else r \<in> {0, - ENOMEM})"
| "call_value S (DevWrite tgid ubuf cnt) r =
     (if tgid \<notin> S then r = - EBADF else if cnt < 4 then r = - EINVAL else r = c_int (int cnt) \<or> r < 0)"
| "call_value S (DevRelease tgid) r = (r = (if tgid \<in> S then 0 else - EBADF))"

fun open_after :: "int set \<Rightarrow> dev_call \<Rightarrow> int \<Rightarrow> int set" where
  "open_after S (DevOpen tgid) r = (if r = 0 then insert tgid S else S)"
| "open_after S (DevWrite tgid ubuf cnt) r = S"
| "open_after S (DevRelease tgid) r = S - {tgid}"

fun dev_spec :: "int set \<Rightarrow> dev_call list \<Rightarrow> int list \<Rightarrow> int set \<Rightarrow> bool" where
  "dev_spec S [] rs T = (rs = [] \<and> T = S)"
| "dev_spec S (c # cs) rs T = (case rs of [] \<Rightarrow> False | r # rs \<Rightarrow> call_value S c r \<and> dev_spec (open_after S c r) cs rs T)"

abbreviation dev_open :: "kdev \<Rightarrow> int set" where
  "dev_open d \<equiv> uc_tgid ` set (kd_list d)"

lemma kmalloc_world: "kmalloc w = (a, w') \<Longrightarrow> k_refs w' = k_refs w \<and> k_hash w' = k_hash w \<and> k_uc w' = k_uc w"
  by (auto simp: kmalloc_def split: list.splits)

lemma iwarp_open_inv:
  assumes d: "dev_inv hash n B d" and h: "\<forall>k. hash k 5 < 2 ^ 5" "\<forall>k. hash k 4 < 2 ^ 4" and n: "1 \<le> n"
    and r: "iwarp_open tgid d = (ret, d')"
  shows "dev_inv hash n B d' \<and> call_value (dev_open d) (DevOpen tgid) ret \<and> dev_open d' = open_after (dev_open d) (DevOpen tgid) ret"
proof -
  have same: "dev_inv hash n B (d\<lparr>kd_world := w\<rparr>)" if "k_refs w = k_refs (kd_world d)" "k_hash w = k_hash (kd_world d)" for w
    using d that by (simp add: dev_inv_def regs_all_def)
  show ?thesis
  proof (cases "\<exists>u\<in>set (kd_list d). uc_tgid u = tgid")
    case True
    with r d show ?thesis by (auto simp: iwarp_open_def)
  next
    case False
    then have new: "tgid \<notin> dev_open d" by auto
    have tg: "uc_tgid ((uc_junk tgid w0)\<lparr>uc_mm := m, uc_fdhash := t\<rparr>) = tgid" for w0 m t by (simp add: uc_junk_def)
    obtain a0 w0 where a0: "kmalloc (kd_world d) = (a0, w0)" by fastforce
    obtain a1 w1 where a1: "kmalloc w0 = (a1, w1)" by fastforce
    obtain a2 w2 where a2: "kmalloc w1 = (a2, w2)" by fastforce
    obtain a3 w3 where a3: "(if a2 = None then (None, w2) else kmalloc w2) = (a3, w3)" by fastforce
    obtain a4 w4 where a4: "(if a3 = None then (None, w3) else kmalloc w3) = (a4, w4)" by fastforce
    obtain a5 w5 where a5: "kmalloc w4 = (a5, w5)" by fastforce
    obtain a6 w6 where a6: "kmalloc w5 = (a6, w6)" by fastforce
    obtain r1 m where m: "k_mem_initialize a2 (a3 \<noteq> None) (a4 \<noteq> None) (uc_mm (uc_junk tgid w0)) = (r1, m)" by fastforce
    obtain r2 t where t: "k_ht_create (a6 \<noteq> None) 4 = (r2, t :: k_iwsk k_ht)" by fastforce
    have w: "k_refs w = k_refs (kd_world d) \<and> k_hash w = k_hash (kd_world d)" if "w \<in> {w0, w1, w4, w5, w6}" for w
      using that kmalloc_world [OF a0] kmalloc_world [OF a1] kmalloc_world [OF a2] a3 a4 kmalloc_world [OF a5] kmalloc_world [OF a6]
      by (auto split: if_splits dest!: kmalloc_world)
    have m0: "r1 = - ENOMEM \<or> r1 = 0 \<and> a3 \<noteq> None \<and> a4 \<noteq> None"
      using m by (auto simp: k_mem_initialize_def k_ht_create_def Let_def split: option.splits if_splits prod.splits)
    have t0: "r2 = - ENOMEM \<or> r2 = 0 \<and> a6 \<noteq> None"
      using t by (auto simp: k_ht_create_def Let_def split: if_splits)
    have "dev_inv hash n B (d\<lparr>kd_world := w6, kd_list := (uc_junk tgid w0)\<lparr>uc_mm := m, uc_fdhash := t\<rparr> # kd_list d\<rparr>)"
      if z: "r1 = 0" "r2 = 0"
    proof -
      have "k_ht_create True 4 = (0, t)" "k_mem_initialize a2 True True (uc_mm (uc_junk tgid w0)) = (0, m)"
        using m t m0 t0 z by simp_all
      note u = uc_inv_new [OF h this n, of tgid w0]
      show ?thesis
        using d u w [of w6] False by (simp add: dev_inv_def regs_all_def) (auto simp: uc_junk_def)
    qed
    with r False m0 t0 show ?thesis
      unfolding iwarp_open_def Let_def a0 a1 a2 prod.case a3 a4 m a5 a6 t
      by (auto split: if_splits intro!: same simp: w new tg)
  qed
qed

lemma find_tgid: "find (\<lambda>u. uc_tgid u = tg) us = Some u \<Longrightarrow> u \<in> set us \<and> uc_tgid u = tg"
  by (auto simp: find_Some_iff)

lemma find_key: "distinct (map k us) \<Longrightarrow> u \<in> set us \<Longrightarrow> find (\<lambda>v. k v = k u) us = Some u"
  by (induction us) (auto simp: image_iff)

lemma sum_split_key:
  fixes F :: "'a \<Rightarrow> int"
  assumes "distinct (map k us)" "u \<in> set us"
  shows "(\<Sum>v\<leftarrow>us. F v) = F u + (\<Sum>v\<leftarrow>filter (\<lambda>v. k v \<noteq> k u) us. F v)"
  using assms
proof (induction us)
  case (Cons v us)
  show ?case
  proof (cases "u \<in> set us")
    case False
    with Cons.prems have "v = u" "filter (\<lambda>v. k v \<noteq> k u) us = us" by (auto simp: filter_id_conv image_iff)
    then show ?thesis by simp
  next
    case True
    with Cons show ?thesis by (auto simp: image_iff)
  qed
qed simp

lemma sum_replace_key:
  fixes F :: "'a \<Rightarrow> int"
  assumes "distinct (map k us)" "u \<in> set us" "k u' = k u"
  shows "(\<Sum>v\<leftarrow>map (\<lambda>v. if k v = k u' then u' else v) us. F v) = F u' + (\<Sum>v\<leftarrow>filter (\<lambda>v. k v \<noteq> k u) us. F v)"
proof -
  have "(\<Sum>v\<leftarrow>map (\<lambda>v. if k v = k u' then u' else v) us. F v) = (\<Sum>v\<leftarrow>us. F (if k v = k u' then u' else v))"
    by (simp add: comp_def)
  also have "\<dots> = F u' + (\<Sum>v\<leftarrow>filter (\<lambda>v. k v \<noteq> k u) us. F (if k v = k u' then u' else v))"
    using sum_split_key [OF assms(1,2), of "\<lambda>v. F (if k v = k u' then u' else v)"] assms(3) by simp
  also have "map (\<lambda>v. F (if k v = k u' then u' else v)) (filter (\<lambda>v. k v \<noteq> k u) us) = map F (filter (\<lambda>v. k v \<noteq> k u) us)"
    using assms(3) by simp
  finally show ?thesis .
qed

lemma kw_inv_enter:
  assumes "dev_inv hash n B d" "u \<in> set (kd_list d)"
  shows "kw_inv hash n (uc_tgid u) (\<lambda>f. B f + (\<Sum>v\<leftarrow>filter (\<lambda>v. uc_tgid v \<noteq> uc_tgid u) (kd_list d). regs v f)) (dev_enter (uc_tgid u) u d)"
  using assms sum_split_key [of uc_tgid "kd_list d" u "\<lambda>v. regs v _"]
  by (auto simp: dev_inv_def kw_inv_def dev_enter_def regs_all_def algebra_simps)

lemma dev_leave_inv:
  assumes "dev_inv hash n B d" "u \<in> set (kd_list d)" "n \<le> n'"
    and "kw_inv hash n' (uc_tgid u) (\<lambda>f. B f + (\<Sum>v\<leftarrow>filter (\<lambda>v. uc_tgid v \<noteq> uc_tgid u) (kd_list d). regs v f)) w"
  shows "dev_inv hash n' B (dev_leave w d)"
proof -
  have t: "uc_tgid (k_uc w) = uc_tgid u" and d: "distinct (map uc_tgid (kd_list d))" using assms by (simp_all add: kw_inv_def dev_inv_def)
  have keys: "map uc_tgid (map (\<lambda>v. if uc_tgid v = uc_tgid (k_uc w) then k_uc w else v) (kd_list d)) = map uc_tgid (kd_list d)" by simp
  have "distinct (map uc_tgid (map (\<lambda>v. if uc_tgid v = uc_tgid (k_uc w) then k_uc w else v) (kd_list d)))"
    unfolding keys by (rule d)
  moreover have "uc_inv hash n' v" if "v \<in> set (map (\<lambda>v. if uc_tgid v = uc_tgid (k_uc w) then k_uc w else v) (kd_list d))" for v
    using that assms by (auto simp: dev_inv_def kw_inv_def intro: uc_inv_mono split: if_splits)
  moreover have "B f + (\<Sum>v\<leftarrow>map (\<lambda>v. if uc_tgid v = uc_tgid (k_uc w) then k_uc w else v) (kd_list d). regs v f) \<le> k_refs w f" for f
    using sum_replace_key [OF d assms(2) t, of "\<lambda>v. regs v f"] assms(4) by (simp add: kw_inv_def algebra_simps)
  ultimately show ?thesis
    using assms(4) unfolding dev_inv_def dev_leave_def regs_all_def by (simp add: kw_inv_def del: map_map)
qed

lemma dev_leave_open: "dev_open (dev_leave w d) = dev_open d"
proof -
  have "map uc_tgid (kd_list (dev_leave w d)) = map uc_tgid (kd_list d)" by (simp add: dev_leave_def)
  then show ?thesis by (metis set_map)
qed

lemma dev_release_inv:
  assumes "dev_inv hash n B d" "u \<in> set (kd_list d)"
  shows "case k_mem_release hash (uc_mm u) of
      Exit \<Rightarrow> dev_call_run (DevRelease (uc_tgid u)) d = Some Exit
    | Done _ \<Rightarrow> \<exists>d'. dev_call_run (DevRelease (uc_tgid u)) d = Some (Done (0, d')) \<and> dev_inv hash n B d'
        \<and> kd_list d' = filter (\<lambda>v. uc_tgid v \<noteq> uc_tgid u) (kd_list d) \<and> cq_list (uc_cq (k_uc (kd_world d'))) = []
        \<and> (\<forall>f. k_refs (kd_world d') f = k_refs (kd_world d) f - regs u f)"
proof -
  have d: "distinct (map uc_tgid (kd_list d))" "uc_inv hash n u" "k_hash (kd_world d) = hash" using assms by (simp_all add: dev_inv_def)
  have f: "find (\<lambda>v. uc_tgid v = uc_tgid u) (kd_list d) = Some u" by (rule find_key [OF d(1) assms(2)])
  have e: "k_hash (dev_enter (uc_tgid u) u d) = hash" "k_uc (dev_enter (uc_tgid u) u d) = u"
    "k_refs (dev_enter (uc_tgid u) u d) = k_refs (kd_world d)" using d(3) by (simp_all add: dev_enter_def)
  note rel = k_iwarp_release_inv [of "dev_enter (uc_tgid u) u d" n, unfolded e, OF d(2)]
  show ?thesis
  proof (cases "k_mem_release hash (uc_mm u)")
    case Exit
    with f rel show ?thesis by (simp add: dev_call_run_def)
  next
    case (Done v)
    with rel obtain w' where w': "k_iwarp_release (dev_enter (uc_tgid u) u d) = Done (0, w')" "k_hash w' = hash"
      "cq_list (uc_cq (k_uc w')) = []" "\<And>f. k_refs w' f = k_refs (kd_world d) f - regs u f"
      by (cases v) auto
    have "B f + (\<Sum>v\<leftarrow>filter (\<lambda>v. uc_tgid v \<noteq> uc_tgid u) (kd_list d). regs v f) \<le> k_refs w' f" for f
    proof -
      have "B f + (\<Sum>v\<leftarrow>kd_list d. regs v f) \<le> k_refs (kd_world d) f" using assms(1) by (simp add: dev_inv_def regs_all_def)
      then show ?thesis using sum_split_key [OF d(1) assms(2), of "\<lambda>v. regs v f"] w'(4) [of f] by linarith
    qed
    then have "dev_inv hash n B (d\<lparr>kd_world := w', kd_list := filter (\<lambda>v. uc_tgid v \<noteq> uc_tgid u) (kd_list d)\<rparr>)"
      using assms(1) w'(2) by (simp add: dev_inv_def regs_all_def distinct_map_filter)
    with f w' Done show ?thesis by (cases v) (simp add: dev_call_run_def)
  qed
qed

lemma dev_call_inv:
  assumes d: "dev_inv hash n B d" and h: "\<forall>k. hash k 5 < 2 ^ 5" "\<forall>k. hash k 4 < 2 ^ 4" and n: "1 \<le> n" "Suc n < 2 ^ 64"
    and r: "dev_call_run c d = Some (Done (ret, d'))"
  shows "dev_inv hash (Suc n) B d' \<and> call_value (dev_open d) c ret \<and> dev_open d' = open_after (dev_open d) c ret"
proof -
  have up: "dev_inv hash (Suc n) B d" if "dev_inv hash n B d" for d
    using that uc_inv_mono [of hash n _ "Suc n"] by (auto simp: dev_inv_def)
  have none: "tg \<notin> dev_open d" if "find (\<lambda>u. uc_tgid u = tg) (kd_list d) = None" for tg
    using that by (auto simp: find_None_iff)
  show ?thesis
  proof (cases c)
    case (DevOpen tgid)
    with r iwarp_open_inv [OF d h n(1), of tgid ret d'] up show ?thesis by (auto simp: dev_call_run_def split: if_splits)
  next
    case (DevWrite tgid ubuf cnt)
    show ?thesis
    proof (cases "find (\<lambda>u. uc_tgid u = tgid) (kd_list d)")
      case None
      with r DevWrite up [OF d] none [OF None] show ?thesis by (auto simp: dev_call_run_def)
    next
      case (Some u)
      note u = find_tgid [OF Some]
      obtain m w' where m: "iwarp_write ubuf cnt (dev_enter tgid u d) = Some m" "m = Done (ret, w')" "d' = dev_leave w' d"
        using r DevWrite Some by (auto simp: dev_call_run_def outcome_simps)
      have e: "kw_inv hash n (uc_tgid u) (\<lambda>f. B f + (\<Sum>v\<leftarrow>filter (\<lambda>v. uc_tgid v \<noteq> uc_tgid u) (kd_list d). regs v f)) (dev_enter tgid u d)"
        using kw_inv_enter [OF d, of u] u by simp
      have "tgid \<in> dev_open d" using u by auto
      with okO_D [OF iwarp_write_inv [OF m(1) e n(2)] m(2)] dev_leave_inv [OF d, of u "Suc n" w'] u DevWrite m(3)
      show ?thesis by (auto simp: dev_leave_open)
    qed
  next
    case (DevRelease tgid)
    show ?thesis
    proof (cases "find (\<lambda>u. uc_tgid u = tgid) (kd_list d)")
      case None
      with r DevRelease up [OF d] none [OF None] show ?thesis by (auto simp: dev_call_run_def)
    next
      case (Some u)
      note u = find_tgid [OF Some]
      then have "tgid \<in> dev_open d" by auto
      moreover have "dev_inv hash n B d'" "ret = 0" "kd_list d' = filter (\<lambda>v. uc_tgid v \<noteq> tgid) (kd_list d)"
        using dev_release_inv [OF d, of u] u r DevRelease by (auto split: outcome.splits)
      ultimately show ?thesis using up DevRelease by auto
    qed
  qed
qed

text \<open>A run of calls, with what they returned; \<open>None\<close> if one does not come back or brings the kernel down.\<close>

fun dev_run :: "dev_call list \<Rightarrow> kdev \<Rightarrow> (int list \<times> kdev) option" where
  "dev_run [] d = Some ([], d)"
| "dev_run (c # cs) d =
     (case dev_call_run c d of
        Some (Done (ret, d)) \<Rightarrow> map_option (\<lambda>(rs, d). (ret # rs, d)) (dev_run cs d)
      | _ \<Rightarrow> None)"

lemma dev_run_inv:
  assumes "dev_inv hash n B d" "\<forall>k. hash k 5 < 2 ^ 5" "\<forall>k. hash k 4 < 2 ^ 4" "1 \<le> n" "n + length cs < 2 ^ 64"
    and "dev_run cs d = Some (rs, d')"
  shows "dev_inv hash (n + length cs) B d' \<and> dev_spec (dev_open d) cs rs (dev_open d')"
  using assms
proof (induction cs arbitrary: n d rs)
  case (Cons c cs)
  from Cons.prems(6) obtain ret d1 rs1 where c: "dev_call_run c d = Some (Done (ret, d1))" "dev_run cs d1 = Some (rs1, d')" "rs = ret # rs1"
    by (auto split: option.splits outcome.splits)
  have "dev_inv hash (Suc n) B d1 \<and> call_value (dev_open d) c ret \<and> dev_open d1 = open_after (dev_open d) c ret"
    by (rule dev_call_inv [OF Cons.prems(1-4) _ c(1)]) (use Cons.prems(5) in simp)
  with Cons.IH [of "Suc n" d1 rs1] Cons.prems(2,3,5) c(2,3) show ?case by simp
qed simp

lemma dev_start_inv:
  assumes "kd_list d = []"
  shows "dev_inv (k_hash (kd_world d)) 1 (k_refs (kd_world d)) d"
  using assms by (simp add: dev_inv_def regs_all_def)

end
