(* ===== verification/K_Dev_Props.thy ===== *)
theory K_Dev_Props
  imports K_Dev_Inv
begin

text \<open>
  The properties of the kernel module as a device: what its calls return, that its books stay in order, that a
  release gives back what a process held, and that the bytes of a peer reach registered pages only.
\<close>

section \<open>Pages of regions\<close>

lemma k_pins_pos:
  assumes "k_pins_ok m" "i < length (km_region m)" "kr_valid (km_region m ! i)"
    "pg \<in> set (take (kr_npages (km_region m ! i)) (kr_page_list (km_region m ! i)))"
  shows "0 < km_pins m pg"
proof -
  let ?f = "\<lambda>mr. if kr_valid mr then int (count_list (take (kr_npages mr) (kr_page_list mr)) pg) else 0"
  have "?f mr \<le> (\<Sum>mr\<leftarrow>rs. ?f mr)" if "mr \<in> set rs" for mr rs
    using that by (intro member_le_sum_list) auto
  from this [OF nth_mem [OF assms(2)]] have "?f (km_region m ! i) \<le> km_pins m pg"
    using assms(1) unfolding k_pins_ok_def by metis
  moreover have "0 < ?f (km_region m ! i)"
    using assms(3,4) by (simp add: count_list_0_iff neq0_conv [symmetric])
  ultimately show ?thesis by linarith
qed

section \<open>An example\<close>

text \<open>
  One process, whose first page holds its commands: create a queue of four entries, register socket 3 with it,
  register 64 bytes of its second page as a region, create a tag with the right to write on it. Descriptor 3
  is a stream socket, on which the segment of an RDMA write to that tag has arrived.
\<close>

definition demo_page :: "u8 list" where
  "demo_page = le32 IWARP_CQ_CREATE @ le32 4 @ le64 0x200
     @ le32 IWARP_REGISTER_SOCK @ le32 3 @ le64 1 @ le64 1
     @ le32 IWARP_MEM_REG @ le32 0 @ le64 0x1000 @ le64 64 @ le64 0x208
     @ le32 IWARP_STAG_CREATE @ le32 0 @ le64 0x3000 @ le64 0x1000 @ le64 64 @ le32 STAG_W @ le32 0 @ le64 0x210"

definition demo_segment :: "u8 list" where
  "demo_segment = [0, 18, 0xc1, rdmap_set_OPCODE (rdmap_set_RV 0) RDMA_WRITE, 0, 0, 0, 1, 0, 0, 0, 0, 0, 0, 0x10, 4, 9, 8, 7, 6]"

definition demo_kdev :: kdev where
  "demo_kdev = \<lparr>kd_list = [], kd_world = \<lparr>k_uc = \<lparr>uc_cq = \<lparr>cq_list = [], cq_list_next_handle = 0\<rparr>,
       uc_fdhash = \<lparr>kh_sz = 0, kh_lg_sz = 0, kh_numnodes = 0, kh_htab = []\<rparr>, uc_mm = demo_fresh, uc_tgid = 0\<rparr>,
     k_hash = demo_hash, k_frames = (\<lambda>pg off. if pg = 0 \<and> off < length demo_page then demo_page ! off else 0), k_pt = (\<lambda>_. None),
     k_gup = [], k_fds = (\<lambda>_. None), k_files = (\<lambda>_. \<lparr>kf_sock = True, kf_stream = True\<rparr>), k_refs = (\<lambda>_. 1),
     k_conns = (\<lambda>_. \<lparr>kc_rx = demo_segment, kc_tx = [], kc_rd = [], kc_wr = [], kc_poll = []\<rparr>),
     k_mallocs = map Some [0x1000, 0x2000, 0x3000, 0x4000, 0x5000, 0x6000, 0x7000, 0x8000, 0x9000, 0xa000, 0xb000, 0xc000, 0xd000, 0xe000, 0xf000, 0x10000, 0x11000, 0x12000, 0x13000, 0x14000, 0x15000, 0x16000, 0x17000, 0x18000, 0x19000, 0x1a000, 0x1b000, 0x1c000, 0x1d000, 0x1e000, 0x1f000, 0x20000], k_junk = (\<lambda>_. 0),
     k_junk_cqe = \<lparr>cqe_op = 0, cqe_status = 0, cqe_id = 0, cqe_msg_len = 0\<rparr>\<rparr>,
     kd_pt = (\<lambda>_ p. if p = 0 then Some 0 else if p = 1 then Some 1 else None), kd_fds = (\<lambda>_ fd. if fd = 3 then Some 77 else None)\<rparr>"

definition demo_calls :: "dev_call list" where
  "demo_calls = [DevOpen 5, DevOpen 5, DevWrite 5 0 16, DevWrite 5 16 24, DevWrite 5 40 32, DevWrite 5 72 48]"

lemma user_place_mask [code]: "user_place pt a = map_option (\<lambda>pg. (pg, unat (a AND 4095))) (pt (drop_bit PAGE_SHIFT a))"
proof -
  have "unat (take_bit 12 a) = unat a mod 2 ^ 12" by (simp only: unsigned_take_bit_eq) (simp only: take_bit_eq_mod)
  then show ?thesis by (simp add: user_place_def take_bit_eq_mask mask_eq_exp_minus_1)
qed

lemma c_int_small [code]: "c_int x = (if - 2147483648 \<le> x \<and> x < 2147483648 then x else signed_take_bit 31 x)"
  using c_int_id [of x] by (simp add: c_int_def)

text \<open>The run, and after it the release of the device or the arrival of the segment.\<close>

lemma demo_run:
  "case dev_run demo_calls demo_kdev of
     None \<Rightarrow> False
   | Some (rs, d) \<Rightarrow> rs = [0, - EBUSY, 16, 24, 32, 48] \<and> map uc_tgid (kd_list d) = [5]
       \<and> map kq_refcnt (cq_list (uc_cq (hd (kd_list d)))) = [2]
       \<and> (case dev_call_run (DevRelease 5) d of Some (Done (r, d')) \<Rightarrow> r = 0 | _ \<Rightarrow> False)
       \<and> (case k_rdmap_encourage None (dev_enter 5 (hd (kd_list d)) d) of
            Exit \<Rightarrow> False
          | Done (ret, w) \<Rightarrow> ret = 0 \<and> k_frames w 1 4 \<noteq> k_frames (kd_world d) 1 4)"
  by code_simp

lemma demo_state:
  obtains d u w where "dev_run demo_calls demo_kdev = Some ([0, - EBUSY, 16, 24, 32, 48], d)" "u \<in> set (kd_list d)" "uc_tgid u = 5"
    "map kq_refcnt (cq_list (uc_cq u)) = [2]" "k_rdmap_encourage None (dev_enter 5 u d) = Done (0, w)"
    "k_frames w 1 4 \<noteq> k_frames (dev_enter 5 u d) 1 4"
proof -
  obtain rs d where d: "dev_run demo_calls demo_kdev = Some (rs, d)" using demo_run by (auto split: option.splits)
  note r = demo_run [unfolded d option.case prod.case]
  then obtain u where u: "kd_list d = [u]" "uc_tgid u = 5" by (auto simp: map_eq_Cons_conv)
  obtain ret w where w: "k_rdmap_encourage None (dev_enter 5 u d) = Done (ret, w)"
    using r u(1) by (auto split: outcome.splits)
  show thesis
    by (rule that [of d u w]) (use r u w d in \<open>simp_all add: dev_enter_def\<close>)
qed

lemma demo_premises: "\<forall>k. demo_hash k 5 < 2 ^ 5" "\<forall>k. demo_hash k 4 < 2 ^ 4" "kd_list demo_kdev = []"
  "k_hash (kd_world demo_kdev) = demo_hash" "Suc (length demo_calls) < 2 ^ 64"
  by (simp_all add: demo_hash_def demo_kdev_def demo_calls_def)

section \<open>Properties\<close>

lemma dev_reached:
  assumes "\<forall>k. hash_long k 5 < 2 ^ 5" "\<forall>k. hash_long k 4 < 2 ^ 4" "kd_list d0 = []" "k_hash (kd_world d0) = hash_long"
    and "Suc (length cs) < 2 ^ 64" "dev_run cs d0 = Some (rs, d)"
  shows "dev_inv hash_long (Suc (length cs)) (k_refs (kd_world d0)) d" "dev_spec {} cs rs (dev_open d)"
  using dev_run_inv [of hash_long 1 "k_refs (kd_world d0)" d0 cs rs d] dev_start_inv [OF assms(3)] assms by simp_all

text \<open>
  C31. What the device returns. Take a device that no process has opened, a hash function whose values fit, and a
  run of fewer than 2 ^ 64 - 1 calls that all come back (a blocking poll may not, nor the search for a free tag,
  and some calls can bring the kernel down: such a run is not covered). What the calls return is what they return
  on the set of the processes that have the device open: an open by one of them is refused with \<open>-EBUSY\<close> and
  any other returns 0 or \<open>-ENOMEM\<close>, a write without an open device is refused with \<open>-EBADF\<close>, one of fewer than
  four bytes with \<open>-EINVAL\<close>, and any other returns its count, as an \<open>int\<close>, or a negative error, whatever bytes
  the process wrote; a release returns 0 for a process in the set and \<open>-EBADF\<close> otherwise. A successful open and a
  release change the set, nothing else does, and the set at the end is that of the contexts the device has.
\<close>

theorem device_call_values:
  assumes "\<forall>k. hash_long k 5 < 2 ^ 5" "\<forall>k. hash_long k 4 < 2 ^ 4" "kd_list d0 = []" "k_hash (kd_world d0) = hash_long"
    and "Suc (length cs) < 2 ^ 64" "dev_run cs d0 = Some (rs, d)"
  shows "dev_spec {} cs rs (uc_tgid ` set (kd_list d))"
  by (rule dev_reached(2) [OF assms])

theorem device_call_values_witness:
  "\<exists>rs d. dev_run demo_calls demo_kdev = Some (rs, d) \<and> dev_spec {} demo_calls rs (uc_tgid ` set (kd_list d))
     \<and> rs = [0, - EBUSY, 16, 24, 32, 48]"
proof (rule demo_state)
  fix d assume d: "dev_run demo_calls demo_kdev = Some ([0, - EBUSY, 16, 24, 32, 48], d)"
  from device_call_values [OF demo_premises d] d show ?thesis by blast
qed

text \<open>
  C32. The books of the device. In every state that a run of calls as in the property before reaches, a process has one context at most;
  in each context every registered socket belongs to its file and has its two completion queues, the use count
  of every queue is the number of uses by the registered sockets, so that no queue a socket points to can be
  destroyed, and handles are distinct; and no file has fewer references than it had at the start plus one for each
  registration, so that none is freed while a socket points to it. (It may have more: \<open>rdmap_init_startup\<close> never
  gives its reference back, and \<open>rdmap_set_sock_attrs\<close> does not on a socket that is not registered.)
\<close>

theorem device_books:
  assumes "\<forall>k. hash_long k 5 < 2 ^ 5" "\<forall>k. hash_long k 4 < 2 ^ 4" "kd_list d0 = []" "k_hash (kd_world d0) = hash_long"
    and "Suc (length cs) < 2 ^ 64" "dev_run cs d0 = Some (rs, d)"
  shows "distinct (map uc_tgid (kd_list d))
    \<and> (\<forall>u\<in>set (kd_list d).
         (\<forall>f s. snd (k_ht_lookup hash_long (uc_fdhash u) f) = Some s \<longrightarrow> kx_filp s = f
            \<and> k_cq_lookup (kx_scq s) (uc_cq u) \<noteq> None \<and> k_cq_lookup (kx_rcq s) (uc_cq u) \<noteq> None)
       \<and> (\<forall>h q. k_cq_lookup h (uc_cq u) = Some q \<longrightarrow> kq_refcnt q = use_count u h)
       \<and> distinct (map kq_handle (cq_list (uc_cq u))))
    \<and> (\<forall>f. k_refs (kd_world d0) f + regs_all d f \<le> k_refs (kd_world d) f)"
proof -
  note i = dev_reached(1) [OF assms]
  have "(\<forall>f s. snd (k_ht_lookup hash_long (uc_fdhash u) f) = Some s \<longrightarrow> kx_filp s = f
            \<and> k_cq_lookup (kx_scq s) (uc_cq u) \<noteq> None \<and> k_cq_lookup (kx_rcq s) (uc_cq u) \<noteq> None)
       \<and> (\<forall>h q. k_cq_lookup h (uc_cq u) = Some q \<longrightarrow> kq_refcnt q = use_count u h)
       \<and> distinct (map kq_handle (cq_list (uc_cq u)))" if "u \<in> set (kd_list d)" for u
  proof -
    have u: "uc_inv hash_long (Suc (length cs)) u" using i that by (simp add: dev_inv_def)
    then have "k_ht_inv hash_long (uc_fdhash u)" by (simp add: uc_inv_def)
    note look = kht.look_abs [OF this]
    show ?thesis
      using u by (auto simp: uc_inv_def look sock_ok_def cq_ctx_inv_def k_cq_lookup_handle simp del: not_None_eq
        split: option.splits dest!: k_cq_lookup_Some)
  qed
  with i show ?thesis by (auto simp: dev_inv_def)
qed

theorem device_books_witness:
  "\<exists>rs d u. dev_run demo_calls demo_kdev = Some (rs, d) \<and> u \<in> set (kd_list d)
     \<and> (\<forall>h q. k_cq_lookup h (uc_cq u) = Some q \<longrightarrow> use_count u h = 2)"
proof (rule demo_state)
  fix d u assume d: "dev_run demo_calls demo_kdev = Some ([0, - EBUSY, 16, 24, 32, 48], d)" "u \<in> set (kd_list d)"
    "map kq_refcnt (cq_list (uc_cq u)) = [2]"
  have "kq_refcnt q = 2" if "k_cq_lookup h (uc_cq u) = Some q" for h q
    using k_cq_lookup_Some [OF that] d(3) by (auto simp: map_eq_Cons_conv)
  with device_books [OF demo_premises d(1)] d show ?thesis by (intro exI conjI) (assumption | fastforce)+
qed

text \<open>
  C33. Release. In every such state, a process that has the device open can close it. If its regions and tags were
  used as they should be (no tag on a region that is not valid, the table not enlarged, fresh memory from the
  allocator), the call comes back. Whenever it comes back, it returns 0, the context of the process is gone and no
  other, each file has lost exactly the references of the sockets that were registered in it, and none of its
  completion queues is left. (It need not come back after the table of regions was enlarged: the list heads that
  its tags point to are then in freed memory.)
\<close>

theorem device_release:
  assumes "\<forall>k. hash_long k 5 < 2 ^ 5" "\<forall>k. hash_long k 4 < 2 ^ 4" "kd_list d0 = []" "k_hash (kd_world d0) = hash_long"
    and "Suc (length cs) < 2 ^ 64" "dev_run cs d0 = Some (rs, d)" "u \<in> set (kd_list d)"
  shows "\<exists>m. dev_call_run (DevRelease (uc_tgid u)) d = Some m
    \<and> (k_mem_reachable hash_long pt (uc_mm u) \<longrightarrow> m \<noteq> Exit)
    \<and> (\<forall>r d'. m = Done (r, d') \<longrightarrow> r = 0
        \<and> kd_list d' = filter (\<lambda>v. uc_tgid v \<noteq> uc_tgid u) (kd_list d)
        \<and> (\<forall>f. k_refs (kd_world d') f = k_refs (kd_world d) f - regs u f)
        \<and> cq_list (uc_cq (k_uc (kd_world d'))) = [])"
proof (cases "k_mem_release hash_long (uc_mm u)")
  case Exit
  then have "\<not> k_mem_reachable hash_long pt (uc_mm u)"
    using k_mem_release_done [OF k_mem_reachable_inv] assms(1) by fastforce
  with Exit dev_release_inv [OF dev_reached(1) [OF assms(1-6)] assms(7)] show ?thesis by simp
next
  case (Done v)
  with dev_release_inv [OF dev_reached(1) [OF assms(1-6)] assms(7)] show ?thesis by auto
qed

theorem device_release_witness:
  "\<exists>d d' u. dev_run demo_calls demo_kdev = Some ([0, - EBUSY, 16, 24, 32, 48], d) \<and> u \<in> set (kd_list d)
     \<and> dev_call_run (DevRelease 5) d = Some (Done (0, d')) \<and> k_refs (kd_world d') 77 = k_refs (kd_world d) 77 - regs u 77"
proof (rule demo_state)
  fix d u assume d: "dev_run demo_calls demo_kdev = Some ([0, - EBUSY, 16, 24, 32, 48], d)" "u \<in> set (kd_list d)" "uc_tgid u = 5"
  have "kd_list d = [u]" using d(2) demo_run unfolding d(1) by (auto simp: map_eq_Cons_conv)
  moreover have "\<exists>r d'. dev_call_run (DevRelease 5) d = Some (Done (r, d'))" using demo_run unfolding d(1) by (auto split: option.splits outcome.splits)
  ultimately show ?thesis using device_release [OF demo_premises d(1,2)] d by fastforce
qed

text \<open>
  C34. Where the bytes of a peer go. In every such state, let what has arrived on the sockets of a process be
  processed, and let the processing come to its end without an access that C leaves undefined (a segment whose
  offset makes \<open>start + offset\<close> wrap in \<open>ddp.c\<close>, a page index past the page list in \<open>mem_fill_iovec\<close>, and the use
  of a freed read request in \<open>rdmap.c\<close> are such accesses; the model then has no result). Whatever was received,
  memory has then changed only in pages of a region for which a tag with the right to write is live; and when the
  region manager was used as it should be (no tag on a region that is not valid, the table not enlarged), these
  pages are held in memory by the region.
\<close>

theorem device_receive_safe:
  assumes "\<forall>k. hash_long k 5 < 2 ^ 5" "\<forall>k. hash_long k 4 < 2 ^ 4" "kd_list d0 = []" "k_hash (kd_world d0) = hash_long"
    and "Suc (length cs) < 2 ^ 64" "dev_run cs d0 = Some (rs, d)" "u \<in> set (kd_list d)"
    and "k_rdmap_encourage one (dev_enter (uc_tgid u) u d) = Done (ret, w)"
    and "k_frames w pg off \<noteq> k_frames (dev_enter (uc_tgid u) u d) pg off"
  shows "\<exists>sd mr. sd \<in> live_tags hash_long (uc_mm u) \<and> ks_rw sd AND STAG_W \<noteq> 0 \<and> sd_region sd (uc_mm u) = Done mr
    \<and> pg \<in> set (take (kr_npages mr) (kr_page_list mr))
    \<and> (k_mem_reachable hash_long pt (uc_mm u) \<longrightarrow> kr_valid mr \<and> 0 < km_pins (uc_mm u) pg)"
proof -
  let ?w = "dev_enter (uc_tgid u) u d"
  note i = dev_reached(1) [OF assms(1-6)]
  have w: "k_hash ?w = hash_long" "k_uc ?w = u" using i by (simp_all add: dev_enter_def dev_inv_def)
  from okO_D [OF k_encourage_inv [OF kw_inv_enter [OF i assms(7)]] assms(8)] assms(9)
  have "recv_page hash_long (uc_mm u) pg" by (auto simp: peer_writes_def w)
  then obtain sd mr where sd: "sd \<in> live_tags hash_long (uc_mm u)" "ks_rw sd AND STAG_W \<noteq> 0" "sd_region sd (uc_mm u) = Done mr"
    "pg \<in> set (take (kr_npages mr) (kr_page_list mr))" by (auto simp: recv_page_def)
  have "kr_valid mr \<and> 0 < km_pins (uc_mm u) pg" if "k_mem_reachable hash_long pt (uc_mm u)"
  proof -
    have m: "k_mem_inv hash_long (uc_mm u)" by (rule k_mem_reachable_inv [OF that assms(1)])
    then obtain j where j: "j < length (km_region (uc_mm u))" "ks_mr sd = region_addr (km_base (uc_mm u)) j"
      "kr_valid (km_region (uc_mm u) ! j)" using sd(1) by (auto simp: k_mem_inv_def)
    then have mr: "mr = km_region (uc_mm u) ! j"
      using k_mr_from_md_region [of "uc_mm u" j] m sd(3) by (simp add: sd_region_def k_mem_inv_def)
    then show ?thesis using k_pins_pos [OF _ j(1,3)] m sd(4) j(3) by (simp add: k_mem_inv_def)
  qed
  with sd show ?thesis by blast
qed

theorem device_receive_safe_witness:
  "\<exists>d u w sd. dev_run demo_calls demo_kdev = Some ([0, - EBUSY, 16, 24, 32, 48], d) \<and> k_rdmap_encourage None (dev_enter 5 u d) = Done (0, w)
     \<and> k_frames w 1 4 \<noteq> k_frames (dev_enter 5 u d) 1 4 \<and> sd \<in> live_tags demo_hash (uc_mm u)"
proof (rule demo_state)
  fix d u w assume d: "dev_run demo_calls demo_kdev = Some ([0, - EBUSY, 16, 24, 32, 48], d)" "u \<in> set (kd_list d)" "uc_tgid u = 5"
    "k_rdmap_encourage None (dev_enter 5 u d) = Done (0, w)" "k_frames w 1 4 \<noteq> k_frames (dev_enter 5 u d) 1 4"
  from device_receive_safe [OF demo_premises d(1,2), unfolded d(3), OF d(4,5)] d show ?thesis by blast
qed

end
