(* ===== verification/K_Wire.thy ===== *)
theory K_Wire
  imports K_Ddp K_Mem_Inv
begin

text \<open>
  The kernel module sends the same bytes as the library. Where the library copies a message out of memory, the
  module sends the pieces of pages it lies in; frame by frame and message by message the stream is the same,
  as long as the kernel takes what it is given and no frame needs both a pad and a checksum.
\<close>

section \<open>One frame\<close>

lemma k_conn_wr: "kc_wr c = [] \<Longrightarrow> c\<lparr>kc_tx := x, kc_wr := []\<rparr> = c\<lparr>kc_tx := x\<rparr>"
  by (cases c) simp

lemma k_mpa_send_wire:
  assumes f: "km_use_mrkr (kx_mpask s) = 0" "kc_wr (k_conns w (kx_filp s)) = []" "k_mallocs w = Some a # ms"
    and len: "2 \<le> length hdr" "length hdr + length (concat v) < 65536" "unat n = length (concat v)"
    and pad: "km_use_crc (kx_mpask s) \<noteq> 0 \<longrightarrow> mpa_pad (length hdr + length (concat v)) = 0"
  shows "k_mpa_send hdr v n s w = Done (0, s, set_kconn (kx_filp s) ((k_conns w (kx_filp s))\<lparr>kc_tx :=
     kc_tx (k_conns w (kx_filp s)) @ plain_fpdu (km_use_crc (kx_mpask s) \<noteq> 0) hdr (concat v)\<rparr>) (w\<lparr>k_mallocs := ms\<rparr>))"
proof -
  define L where "L = length hdr + length (concat v)"
  have "unat (n + of_nat (length hdr)) = L"
    using len by (simp add: unat_word_ariths unat_of_nat mod_add_right_eq L_def)
  then have l: "(ucast (n + of_nat (length hdr)) :: u16) = of_nat L" by (metis of_nat_unat)
  have ul: "unat (of_nat L :: u16) = L" using len(2) by (simp add: unat_of_nat take_bit_nat_eq_self flip: L_def)
  define h where "h = mpa_put_len hdr (of_nat L)"
  have lh: "length h = length hdr" using len(1) by (simp add: h_def)
  have fpdu: "plain_fpdu crc hdr (concat v) = h @ concat v @ replicate (mpa_pad L) 0
      @ (if crc then le32 (htonl (crc32c (h @ concat v @ replicate (mpa_pad L) 0))) else [])" for crc
    by (simp add: plain_fpdu_def Let_def h_def L_def)
  have send: "sendmsg_full [] (h # v) L = Done (0, h @ concat v, [])"
    "sendmsg_full [] (h # v @ [replicate (mpa_pad L) 0]) (L + mpa_pad L) = Done (0, h @ concat v @ replicate (mpa_pad L) 0, [])"
    "sendmsg_full [] (h # v @ [le32 x]) (L + CRC_SZ) = Done (0, h @ concat v @ le32 x, [])" for x
    by (subst sendmsg_full_whole; simp add: lh L_def)+
  show ?thesis
  proof (cases "km_use_crc (kx_mpask s) = 0")
    case True
    with f len(1) ul lh show ?thesis
      by (simp add: k_mpa_send_def k_mpa_send_plain_fpdu_def kmalloc_def l fpdu k_mpa_fill_blkv_eq Let_def
        kernel_sendmsg_full_def send set_kconn_def k_conn_wr flip: h_def)
  next
    case False
    with pad have "mpa_pad L = 0" by (simp add: L_def)
    moreover have "length h < 2 ^ 31" using len(2) lh by simp
    moreover have "\<forall>x\<in>set v. length x < 2 ^ 31"
    proof
      fix x assume "x \<in> set v"
      then have "length x \<le> length (concat v)" by (auto simp: length_concat intro: member_le_sum_list)
      then show "length x < 2 ^ 31" using len(2) by simp
    qed
    ultimately show ?thesis using f len(1) ul lh False
      by (simp add: k_mpa_send_def k_mpa_send_plain_fpdu_def kmalloc_def l fpdu k_mpa_fill_blkv_eq Let_def
        kernel_sendmsg_full_def send set_kconn_def k_crc32c_vec_same k_conn_wr flip: h_def)
  qed
qed

section \<open>Untagged messages\<close>

text \<open>
  The message is the bytes \<open>bs\<close>: every part of it of at most \<open>P\<close> bytes can be put into a vector, which holds it,
  and be given back.
\<close>

definition msg_reads :: "nat \<Rightarrow> k_msg \<Rightarrow> u8 list \<Rightarrow> kworld \<Rightarrow> bool" where
  "msg_reads P msg bs w \<longleftrightarrow> (\<forall>mo len. mo + len \<le> length bs \<and> len \<le> P \<longrightarrow>
     (\<exists>v. k_msg_vec msg (of_nat len) (of_nat mo) w = Done (0, v) \<and> concat v = take len (drop mo bs))
     \<and> k_msg_unmap msg (of_nat len) (of_nat mo) w = Done ())"

lemma msg_reads_sent [simp]:
  "msg_reads P msg bs (w\<lparr>k_mallocs := ms\<rparr>) = msg_reads P msg bs w" "msg_reads P msg bs (set_kconn f c w) = msg_reads P msg bs w"
  by (simp_all add: msg_reads_def k_msg_vec_def k_msg_unmap_def set_kconn_def cong: k_msg.case_cong)

lemma set_kconn_simps [simp]:
  "k_conns (set_kconn f c w) f = c" "k_mallocs (set_kconn f c w) = k_mallocs w"
  "set_kconn f c' ((set_kconn f c w)\<lparr>k_mallocs := ms\<rparr>) = set_kconn f c' (w\<lparr>k_mallocs := ms\<rparr>)"
  by (simp_all add: set_kconn_def)

abbreviation fpdus :: "u32 \<Rightarrow> (u8 list \<times> u8 list) list \<Rightarrow> u8 list" where
  "fpdus crc fs \<equiv> concat (map (\<lambda>(hdr, pl). plain_fpdu (crc \<noteq> 0) hdr pl) fs)"

lemma mpa_pad_4: "4 dvd l \<Longrightarrow> mpa_pad l = 0"
  by (auto simp: mpa_pad_def elim!: dvdE)

lemma k_utm_loop_wire:
  assumes P: "0 < P" "20 + P < 65536" "length bs + P < 2 ^ 32"
    and s: "km_use_mrkr (kx_mpask s) = 0" "km_use_crc (kx_mpask s) \<noteq> 0 \<longrightarrow> 4 dvd P"
    and w: "off \<le> length bs" "km_use_crc (kx_mpask s) \<noteq> 0 \<longrightarrow> 4 dvd length bs - off" "kc_wr (k_conns w (kx_filp s)) = []"
      "k_mallocs w = map Some as @ ms" "length as = length (segments P off (drop off bs))" "msg_reads P msg bs w"
  shows "k_utm_loop (length as) msg (of_nat (length bs)) h (of_nat P) (of_nat off) ret s w
    = Done (0, s, set_kconn (kx_filp s) ((k_conns w (kx_filp s))\<lparr>kc_tx := kc_tx (k_conns w (kx_filp s))
        @ fpdus (km_use_crc (kx_mpask s)) (map (untagged_frame h) (segments P off (drop off bs)))\<rparr>) (w\<lparr>k_mallocs := ms\<rparr>))"
  using w
proof (induction "length bs - off" arbitrary: off h ret w as rule: less_induct)
  case less
  let ?f = "kx_filp s" and ?n = "length bs"
  have uP: "unat (of_nat P :: u16) = P" using P(2) by (simp add: unat_of_nat take_bit_nat_eq_self)
  obtain a as' where as: "as = a # as'" using less(6) by (cases as) simp_all
  define fin where "fin \<longleftrightarrow> ?n - off \<le> P"
  define len where "len = (if fin then ?n - off else P)"
  have len: "off + len \<le> ?n" "len \<le> P" using less(2) by (auto simp: len_def fin_def)
  let ?rest = "if fin then [] else segments P (off + P) (drop (off + P) bs)"
  have seg: "segments P off (drop off bs) = (off, take len (drop off bs), fin) # ?rest"
    using P(1) by (subst segments.simps) (auto simp: fin_def len_def add.commute)
  obtain v where v: "k_msg_vec msg (of_nat len) (of_nat off) w = Done (0, v)" "concat v = take len (drop off bs)"
    "k_msg_unmap msg (of_nat len) (of_nat off) w = Done ()"
    using less(7) len by (auto simp: msg_reads_def)
  let ?h = "h\<lparr>uh_mo := htonl (of_nat off)\<rparr>"
  let ?hl = "if fin then ?h\<lparr>uh_cf := ddp_set_LAST (uh_cf ?h)\<rparr> else ?h"
  have fr: "untagged_frame ?h = untagged_frame h" "untagged_frame h (off, take len (drop off bs), fin) = (untagged_bytes ?hl, take len (drop off bs))"
    by (auto simp: untagged_frame_def cong: if_cong)
  have u16: "unat (of_nat len :: u16) = len" using len(2) P(2) by (simp add: unat_of_nat take_bit_nat_eq_self)
  then have ulen: "unat (ucast (of_nat len :: u16) :: u32) = len" using len(2) P(2) by (simp add: ucast_u16 u16 unat_of_nat take_bit_nat_eq_self)
  let ?w1 = "set_kconn ?f ((k_conns w ?f)\<lparr>kc_tx := kc_tx (k_conns w ?f)
      @ plain_fpdu (km_use_crc (kx_mpask s) \<noteq> 0) (untagged_bytes ?hl) (take len (drop off bs))\<rparr>) (w\<lparr>k_mallocs := map Some as' @ ms\<rparr>)"
  have "4 dvd 20 + len" if "km_use_crc (kx_mpask s) \<noteq> 0"
    using that s(2) less(3) by (auto simp: len_def)
  then have send: "k_mpa_send (untagged_bytes ?hl) v (ucast (of_nat len :: u16)) s w = Done (0, s, ?w1)"
    using k_mpa_send_wire [of s w a "map Some as' @ ms" "untagged_bytes ?hl" v "ucast (of_nat len :: u16)"]
      s(1) less(4,5) len P(2) v(2) by (simp add: as mpa_pad_4 ulen)
  have step: "k_utm_loop (length as) msg (of_nat ?n) h (of_nat P) (of_nat off) ret s w
      = k_utm_loop (length as') msg (of_nat ?n) ?hl (of_nat len) (of_nat off + ucast (of_nat len :: u16)) 0 s ?w1"
  proof -
    have n0: "length as' = 0 \<longleftrightarrow> fin" using less(6) seg as by auto
    have diff: "(ucast (of_nat ?n - of_nat off :: u32) :: u16) = of_nat len" if fin
    proof -
      have "unat (of_nat ?n - of_nat off :: u32) = len"
        using less(2) P(3) that by (simp add: unat_of_nat take_bit_nat_eq_self len_def flip: of_nat_diff)
      then show ?thesis by (metis of_nat_unat)
    qed
    have "msg_reads P msg bs ?w1" using less(7) by simp
    then have "k_msg_unmap msg (of_nat len) (of_nat off) ?w1 = Done ()" using len by (auto simp: msg_reads_def)
    with v(1) send n0 diff show ?thesis
      by (cases fin) (simp_all add: as Let_def len_def)
  qed
  show ?case
  proof (cases fin)
    case True
    then have "as' = []" using less(6) seg as by simp
    then show ?thesis using step seg True fr by simp
  next
    case False
    then have l: "len = P" "P < ?n - off" by (simp_all add: len_def fin_def)
    have mo: "(of_nat off + ucast (of_nat len :: u16) :: u32) = of_nat (off + P)"
      using u16 unfolding l(1) by (simp add: ucast_u16)
    have "k_utm_loop (length as') msg (of_nat ?n) ?h (of_nat P) (of_nat (off + P)) 0 s ?w1
      = Done (0, s, set_kconn ?f ((k_conns ?w1 ?f)\<lparr>kc_tx := kc_tx (k_conns ?w1 ?f)
        @ fpdus (km_use_crc (kx_mpask s)) (map (untagged_frame ?h) (segments P (off + P) (drop (off + P) bs)))\<rparr>) (?w1\<lparr>k_mallocs := ms\<rparr>))"
      by (rule less(1)) (use less(2-7) l P(1) seg as False s(2) in \<open>auto simp: dvd_diff_nat simp flip: diff_diff_left\<close>)
    then show ?thesis using step seg False fr mo l(1) by simp
  qed
qed

section \<open>Messages\<close>

lemma msg_reads_kernel: "length bs < 2 ^ 31 \<Longrightarrow> P < 65536 \<Longrightarrow> msg_reads P (KMsg bs) bs w"
  by (auto simp: msg_reads_def k_msg_vec_def k_msg_unmap_def unat_of_nat take_bit_nat_eq_self)

text \<open>A vector of \<open>alloc\<close> pieces has room for the rest of a page and a page for each piece that is left.\<close>

lemma fill_loop_fits:
  assumes "len \<le> 4096 - int (unat (buf AND NOT PAGE_MASK)) + 4096 * (int alloc - int k - 1)"
  shows "okO (\<lambda>(ret, v). ret = 0) (fill_loop pgs ms len buf alloc k)"
  using assms
proof (induction "nat len" arbitrary: len buf k rule: less_induct)
  case less
  define off where "off = int (unat (buf AND NOT PAGE_MASK))"
  have off: "0 \<le> off" "off < 4096" unfolding off_def using page_offset_less [of buf] by linarith+
  have bound: "len \<le> 4096 - off + 4096 * (int alloc - int k - 1)" using less(2) by (simp only: off_def)
  define n where "n = (if len > int (unat PAGE_SIZE) - off then int (unat PAGE_SIZE) - off else len)"
  show ?case
  proof (cases "0 < len")
    case True
    then have n: "0 < n" "n \<le> len" using off by (auto simp: n_def)
    have k: "k \<noteq> alloc" using bound True off by auto
    have IH: "okO (\<lambda>(ret, v). ret = 0) (fill_loop pgs ms (len - n) (buf + of_int n) alloc (Suc k))"
    proof (cases "len > 4096 - off")
      case big: True
      then have hn: "n = 4096 - off" by (simp add: n_def)
      then have "n = int (4096 - unat buf mod 4096)" by (simp add: off_def offset_of of_nat_diff order_less_imp_le)
      then have "unat (buf + of_int n) = (unat buf + (4096 - unat buf mod 4096)) mod 2 ^ 64"
        by (simp add: unat_word_ariths unat_of_nat mod_add_right_eq del: of_nat_diff)
      moreover have "(4096 :: nat) dvd 2 ^ 64" by simp
      ultimately have "unat (buf + of_int n) mod 4096 = (unat buf + (4096 - unat buf mod 4096)) mod 4096"
        by (simp only: mod_mod_cancel)
      also have "\<dots> = (unat buf mod 4096 + (4096 - unat buf mod 4096)) mod 4096" by (simp only: mod_add_left_eq)
      also have "\<dots> = 0" by (simp add: order_less_imp_le)
      finally have "unat ((buf + of_int n) AND NOT PAGE_MASK) = 0" by (simp add: offset_of)
      then show ?thesis using bound n big hn by (intro less(1)) auto
    next
      case False
      then show ?thesis by (simp add: n_def fill_loop.simps [of _ _ 0] okO_def)
    qed
    show ?thesis using k True
      by (subst fill_loop.simps, unfold Let_def, fold off_def, fold n_def) (intro okO_intros okO_bind [OF IH]; auto)
  qed (simp add: fill_loop.simps [of _ _ len] okO_def)
qed

lemma copy_from_user_places:
  "copy_from_user a n w = Some bs \<Longrightarrow> length bs = n \<and>
     (\<forall>i<n. \<exists>pg off. user_place (k_pt w) (a + of_nat i) = Some (pg, off) \<and> bs ! i = k_frames w pg off)"
proof (induction a n w arbitrary: bs rule: copy_from_user.induct)
  case (2 a n w)
  then obtain pg off bs' where b: "user_place (k_pt w) a = Some (pg, off)" "bs = k_frames w pg off # bs'" "copy_from_user (a + 1) n w = Some bs'"
    by (auto split: option.splits)
  from 2(1) [OF b(1) refl b(3)] b(1,2) show ?case
    by (auto simp: nth_Cons' less_Suc_eq_0_disj add.assoc)
qed simp

lemma msg_reads_user:
  assumes r: "sd_region sd (uc_mm (k_uc w)) = Done mr" "k_region_ok (k_pt w) mr" "unat (kr_len mr) + 8192 \<le> 2 ^ 64"
    and b: "unat (kr_start mr) \<le> unat ubuf" "unat ubuf + n \<le> unat (kr_start mr) + unat (kr_len mr)" "unat ubuf + n < 2 ^ 64"
    and n: "n < 2 ^ 31" "P \<le> 16384" and bs: "copy_from_user ubuf n w = Some bs"
  shows "msg_reads P (UMsg sd ubuf) bs w"
  unfolding msg_reads_def
proof (intro allI impI)
  fix mo len assume l: "mo + len \<le> length bs \<and> len \<le> P"
  note c = copy_from_user_places [OF bs]
  have m: "mo + len \<le> n" "len \<le> 16384" using l c n(2) by simp_all
  have off: "(scast (of_nat mo :: u32) :: u64) = of_nat mo"
  proof -
    have m31: "mo < 2 ^ 31" using m(1) n(1) by simp
    then have "uint (of_nat mo :: u32) = int mo" by (simp add: unsigned_of_nat take_bit_nat_eq_self)
    then have "sint (of_nat mo :: u32) = int mo" using m31 by (simp add: sint_uint signed_take_bit_int_eq_self_iff)
    then show ?thesis by (simp add: scast_eq)
  qed
  have ul: "unat (of_nat len :: u16) = len" using m(2) by (simp add: unat_of_nat take_bit_nat_eq_self)
  let ?buf = "ubuf + of_nat mo"
  have ub: "unat ?buf = unat ubuf + mo" using b(3) m(1) by (intro unat_add_nat) simp
  obtain ret v where v: "fill_loop (take (kr_npages mr) (kr_page_list mr)) (drop_bit PAGE_SHIFT (kr_start mr)) (int len) ?buf 5 0 = Done (ret, v)"
    "ret = 0 \<and> map Some (places v) = map (\<lambda>i. user_place (k_pt w) (?buf + of_nat i)) [0..<len]
      \<and> unmap_loop (take (kr_npages mr) (kr_page_list mr)) (drop_bit PAGE_SHIFT (kr_start mr)) (int len) ?buf = Done (map fst v)
     \<or> ret = - EOVERFLOW \<and> length v = 5"
    using region_range_places [OF r(2,3), of ?buf len 0 5] b m(1) ub by auto
  have "int (unat (?buf AND NOT PAGE_MASK)) < 4096" using page_offset_less [of ?buf] by linarith
  moreover have "4096 * (int 5 - int 0 - 1) = 16384" "int len \<le> 16384" using m(2) by simp_all
  ultimately have "int len \<le> 4096 - int (unat (?buf AND NOT PAGE_MASK)) + 4096 * (int 5 - int 0 - 1)" by linarith
  then have "okO (\<lambda>(ret, v). ret = 0) (fill_loop (take (kr_npages mr) (kr_page_list mr)) (drop_bit PAGE_SHIFT (kr_start mr)) (int len) ?buf 5 0)"
    by (rule fill_loop_fits)
  from okO_D [OF this v(1)] have ret: "ret = 0" by simp
  with v(2) have v': "map Some (places v) = map (\<lambda>i. user_place (k_pt w) (?buf + of_nat i)) [0..<len]"
    "unmap_loop (take (kr_npages mr) (kr_page_list mr)) (drop_bit PAGE_SHIFT (kr_start mr)) (int len) ?buf = Done (map fst v)" by auto
  have "concat (map (piece_bytes (k_frames w)) v) = map (\<lambda>(pg, off). k_frames w pg off) (places v)" for v
    by (induction v) (auto simp: places_def piece_bytes_def)
  moreover have "map (\<lambda>(pg, off). k_frames w pg off) (places v) = take len (drop mo bs)"
  proof (rule nth_equalityI)
    have lv: "length (places v) = len" using arg_cong [OF v'(1), of length] by simp
    then show "length (map (\<lambda>(pg, off). k_frames w pg off) (places v)) = length (take len (drop mo bs))" using l c by auto
    fix i assume "i < length (map (\<lambda>(pg, off). k_frames w pg off) (places v))"
    then have i: "i < len" using lv by simp
    have "Some (places v ! i) = user_place (k_pt w) (?buf + of_nat i)"
      using arg_cong [OF v'(1), of "\<lambda>xs. xs ! i"] i lv by simp
    moreover have "mo + i < n" using i m(1) by simp
    then obtain pg off where "user_place (k_pt w) (ubuf + of_nat (mo + i)) = Some (pg, off)" "bs ! (mo + i) = k_frames w pg off"
      using c by blast
    ultimately show "map (\<lambda>(pg, off). k_frames w pg off) (places v) ! i = take len (drop mo bs) ! i"
      using i lv l by (simp add: add.assoc)
  qed
  ultimately show "(\<exists>v. k_msg_vec (UMsg sd ubuf) (of_nat len) (of_nat mo) w = Done (0, v) \<and> concat v = take len (drop mo bs))
     \<and> k_msg_unmap (UMsg sd ubuf) (of_nat len) (of_nat mo) w = Done ()"
    using v(1) v'(2) ret r(1) by (simp add: k_msg_vec_def k_msg_unmap_def k_mem_fill_iovec_def k_mem_unmap_iovec_def off ul)
qed

section \<open>The message\<close>

lemma k_ddp_send_utm_wire:
  assumes s: "kd_sgmnt_len (kx_ddpsk s) = DDP_SEGLEN" "km_use_mrkr (kx_mpask s) = 0" "km_use_crc (kx_mpask s) \<noteq> 0 \<longrightarrow> 4 dvd length bs"
    and w: "kc_wr (k_conns w (kx_filp s)) = []" "k_mallocs w = map Some as @ ms" "length as = length (segments 1424 0 bs)"
    and m: "msg_reads 1424 msg bs w" "length bs < 2 ^ 31"
  shows "k_ddp_send_utm msg (of_nat (length bs)) qn c p s w
    = Done (0, k_iwsk_inc_ddpsk_send_msn s, set_kconn (kx_filp s) ((k_conns w (kx_filp s))\<lparr>kc_tx := kc_tx (k_conns w (kx_filp s))
        @ fpdus (km_use_crc (kx_mpask s)) (map (untagged_frame (untagged_hdr c p qn (kd_send_msn (kx_ddpsk s)))) (segments 1424 0 bs))\<rparr>)
        (w\<lparr>k_mallocs := ms\<rparr>))"
proof -
  let ?n = "length bs"
  let ?k = "(of_nat ?n + 1424 - 1 :: u32) div 1424"
  have k: "unat ?k = (?n + 1423) div 1424"
    using num_sgmnts_eq [of 1424 ?n] m(2) by simp
  have segs: "length (segments 1424 0 bs) = (if ?n = 0 then 1 else (?n + 1423) div 1424)"
    using segments_count [of 1424 0 bs] by (simp add: add.commute)
  have "unat (if ?k = 0 then 1 else ?k) = length (segments 1424 0 bs)"
  proof (cases "?n = 0")
    case False
    then have "(?n + 1423) div 1424 \<noteq> 0" by (simp add: div_eq_0_iff)
    with False segs k show ?thesis by auto
  qed (use segs k in simp)
  moreover have "length (segments 1424 0 bs) < 2 ^ 31"
    using segs m(2) by (simp add: div_less_iff_less_mult)
  ultimately have cnt: "nat (sint (if ?k = 0 then 1 else ?k)) = length as"
    unfolding w(3) by (simp add: sint_uint signed_take_bit_int_eq_self uint_nat)
  have loop: "k_utm_loop (length as) msg (of_nat ?n) (untagged_hdr c p qn (kd_send_msn (kx_ddpsk s))) 1424 0 0 s w
    = Done (0, s, set_kconn (kx_filp s) ((k_conns w (kx_filp s))\<lparr>kc_tx := kc_tx (k_conns w (kx_filp s))
        @ fpdus (km_use_crc (kx_mpask s)) (map (untagged_frame (untagged_hdr c p qn (kd_send_msn (kx_ddpsk s)))) (segments 1424 0 bs))\<rparr>)
        (w\<lparr>k_mallocs := ms\<rparr>))"
    using k_utm_loop_wire [of 1424 bs s 0 w as ms msg "untagged_hdr c p qn (kd_send_msn (kx_ddpsk s))" 0] s(2,3) w m by simp
  have P: "(ucast (DDP_SEGLEN - of_nat UNTAGGED_HDR_SZ) :: u16) = 1424" by (simp add: DDP_SEGLEN_def UNTAGGED_HDR_SZ_def)
  have P': "(ucast (1424 :: u16) :: u32) = 1424" by simp
  have h: "\<lparr>uh_llp_hdr = 0, uh_cf = DDP_CF_DV, uh_ulp_ctrl = c, uh_ulp_payld = htonl p, uh_qn = htonl qn,
      uh_msn = htonl (kd_send_msn (kx_ddpsk s)), uh_mo = 0\<rparr> = untagged_hdr c p qn (kd_send_msn (kx_ddpsk s))"
    by (simp add: untagged_hdr_def)
  show ?thesis
    unfolding k_ddp_send_utm_def Let_def s(1) P P' k_iwsk_get_ddpsk_send_msn_def h cnt loop by simp
qed

section \<open>Properties\<close>

text \<open>
  C35. The kernel module and the library send the same bytes. Take a message in a registered region of a process:
  if the library sends the bytes the process sees there as an untagged message on a socket with the module's
  segment size, the same message number and the same use of checksums, then both succeed, add the same bytes
  to their streams and count their message number on. It takes a kernel that accepts what it is given, memory
  for a vector per segment, no markers, and with checksums a length that needs no pad.
\<close>

theorem kernel_sends_as_library:
  assumes "kd_sgmnt_len (kx_ddpsk sk) = DDP_SEGLEN" "km_use_mrkr (kx_mpask sk) = 0" "km_use_crc (kx_mpask sk) = 0 \<or> 4 dvd n"
    and "kc_wr (k_conns wk (kx_filp sk)) = []" "k_mallocs wk = map Some as @ ms" "length as = length (segments 1424 0 bs)"
    and "sd_region sd (uc_mm (k_uc wk)) = Done mr" "k_region_ok (k_pt wk) mr" "unat (kr_len mr) + 8192 \<le> 2 ^ 64"
    and "unat (kr_start mr) \<le> unat ubuf" "unat ubuf + n \<le> unat (kr_start mr) + unat (kr_len mr)" "unat ubuf + n < 2 ^ 64"
    and "n < 2 ^ 31" "copy_from_user ubuf n wk = Some bs"
    and "untagged_payld_len wl = 1424" "use_mrkr (mpask sl) = 0" "(use_crc (mpask sl) \<noteq> 0) = (km_use_crc (kx_mpask sk) \<noteq> 0)"
    and "send_msn (ddpsk sl) = kd_send_msn (kx_ddpsk sk)" "conn_ok (conns wl (sk_fd sl))" "msg_bytes m n = bs"
  shows "\<exists>out sl' wl' sk' wk'.
      ddp_send_untagged m (of_nat n) qn c p sl wl = Done (0, sl', wl')
    \<and> k_ddp_send_utm (UMsg sd ubuf) (of_nat n) qn c p sk wk = Done (0, sk', wk')
    \<and> tx (conns wl' (sk_fd sl)) = tx (conns wl (sk_fd sl)) @ out
    \<and> kc_tx (k_conns wk' (kx_filp sk)) = kc_tx (k_conns wk (kx_filp sk)) @ out
    \<and> send_msn (ddpsk sl') = kd_send_msn (kx_ddpsk sk') \<and> kd_send_msn (kx_ddpsk sk') = kd_send_msn (kx_ddpsk sk) + 1"
proof -
  have n: "length bs = n" using copy_from_user_places [OF assms(14)] by simp
  let ?fs = "map (untagged_frame (untagged_hdr c p qn (kd_send_msn (kx_ddpsk sk)))) (segments 1424 0 bs)"
  have reads: "msg_reads 1424 (UMsg sd ubuf) bs wk"
    by (rule msg_reads_user [OF assms(7-13) _ assms(14)]) simp
  have K: "k_ddp_send_utm (UMsg sd ubuf) (of_nat n) qn c p sk wk
    = Done (0, k_iwsk_inc_ddpsk_send_msn sk, set_kconn (kx_filp sk) ((k_conns wk (kx_filp sk))\<lparr>kc_tx := kc_tx (k_conns wk (kx_filp sk))
        @ fpdus (km_use_crc (kx_mpask sk)) ?fs\<rparr>) (wk\<lparr>k_mallocs := ms\<rparr>))"
    using k_ddp_send_utm_wire [OF assms(1,2) _ assms(4-6) reads] assms(3,13) n by auto
  have "\<forall>(hdr, payld)\<in>set ?fs. 2 \<le> length hdr \<and> length payld + length hdr < 65536"
    by (auto simp: untagged_frame_def dest!: segments_max [rotated])
  from mpa_send_list_plain [OF assms(19,16) this] assms(17) obtain cn sp where
    L: "mpa_send_list ?fs sl wl = Done (0, sl\<lparr>mpask := (mpask sl)\<lparr>send_sp := sp\<rparr>\<rparr>, set_conn (sk_fd sl) cn wl)"
      "tx cn = tx (conns wl (sk_fd sl)) @ fpdus (km_use_crc (kx_mpask sk)) ?fs" by auto
  have "ddp_send_untagged m (of_nat n) qn c p sl wl = Done (0, sl\<lparr>mpask := (mpask sl)\<lparr>send_sp := sp\<rparr>,
      ddpsk := (ddpsk sl)\<lparr>send_msn := send_msn (ddpsk sl) + 1\<rparr>\<rparr>, set_conn (sk_fd sl) cn wl)"
    using ddp_send_untagged_list [of 1424 wl n m qn c p sl] assms(13,15,18,20) L(1) by simp
  with K L(2) show ?thesis
    by (intro exI conjI) (assumption | simp add: set_conn_def k_iwsk_inc_ddpsk_send_msn_def assms(18))+
qed

text \<open>A page of a process of 64 registered bytes, and the same bytes in the memory of the library.\<close>

definition wire_mr :: k_mem_region where
  "wire_mr = \<lparr>kr_start = 0x1000, kr_len = 64, kr_valid = True, kr_page_list = [7], kr_npages = 1\<rparr>"

definition wire_sd :: k_stag_desc where
  "wire_sd = \<lparr>ks_addr = 0x3000, ks_mr = 0x2000, ks_start = 0x1000, ks_len = 64, ks_stag = 1, ks_rw = STAG_R, ks_prot = 0\<rparr>"

definition wire_world :: kworld where
  "wire_world = \<lparr>k_uc = \<lparr>uc_cq = \<lparr>cq_list = [], cq_list_next_handle = 0\<rparr>,
       uc_fdhash = \<lparr>kh_sz = 0, kh_lg_sz = 0, kh_numnodes = 0, kh_htab = []\<rparr>,
       uc_mm = \<lparr>km_num = 1, km_base = 0x2000, km_region = [wire_mr], km_next_cntr = 2,
         km_stag_ht = \<lparr>kh_sz = 0, kh_lg_sz = 0, kh_numnodes = 0, kh_htab = []\<rparr>,
         km_links = \<lparr>nxt = (\<lambda>n. n), prv = (\<lambda>n. n)\<rparr>, km_pins = (\<lambda>_. 1), km_dead = (\<lambda>_. False)\<rparr>, uc_tgid = 5\<rparr>,
     k_hash = (\<lambda>_ _. 0), k_frames = (\<lambda>_ off. of_nat off), k_pt = (\<lambda>_. Some 7),
     k_gup = [], k_fds = (\<lambda>_. None), k_files = (\<lambda>_. \<lparr>kf_sock = True, kf_stream = True\<rparr>), k_refs = (\<lambda>_. 1),
     k_conns = (\<lambda>_. \<lparr>kc_rx = [], kc_tx = [], kc_rd = [], kc_wr = [], kc_poll = []\<rparr>),
     k_mallocs = [Some 0x4000], k_junk = (\<lambda>_. 0),
     k_junk_cqe = \<lparr>cqe_op = 0, cqe_status = 0, cqe_id = 0, cqe_msg_len = 0\<rparr>\<rparr>"

definition wire_sk :: k_iwsk where
  "wire_sk = \<lparr>kx_valid = True, kx_filp = 77, kx_scq = 0, kx_rcq = 0,
     kx_rdmapsk = \<lparr>kq_send = [], kq_rdmareq = [], kq_term = [], kq_rwrq = [], kq_sink_msn = 0\<rparr>,
     kx_ddpsk = \<lparr>kd_recv_msn = 0, kd_send_msn = 0, kd_sgmnt_len = DDP_SEGLEN, kd_outst_tag = [], kd_outst_untag = []\<rparr>,
     kx_mpask = \<lparr>km_use_crc = 0, km_use_mrkr = 0, km_recv_mp = 0, km_send_mp = 0, km_recv_sp = 0, km_send_sp = 0\<rparr>\<rparr>"

abbreviation wire_lib :: world where
  "wire_lib \<equiv> (world_start (\<lambda>_. conn_start []))\<lparr>untagged_payld_len := 1424\<rparr>"

theorem kernel_sends_as_library_witness:
  "\<exists>out sl' wl' sk' wk'.
      ddp_send_untagged (\<lambda>i. ucast (4 + i)) (of_nat 4) 0 0x43 0 (iwsk_zero 1) wire_lib = Done (0, sl', wl')
    \<and> k_ddp_send_utm (UMsg wire_sd 0x1004) (of_nat 4) 0 0x43 0 wire_sk wire_world = Done (0, sk', wk')
    \<and> tx (conns wl' (sk_fd (iwsk_zero 1))) = tx (conns wire_lib (sk_fd (iwsk_zero 1))) @ out
    \<and> kc_tx (k_conns wk' (kx_filp wire_sk)) = kc_tx (k_conns wire_world (kx_filp wire_sk)) @ out
    \<and> send_msn (ddpsk sl') = kd_send_msn (kx_ddpsk sk') \<and> kd_send_msn (kx_ddpsk sk') = kd_send_msn (kx_ddpsk wire_sk) + 1"
proof -
  have "copy_from_user 0x1004 (Suc (Suc (Suc (Suc 0)))) wire_world = Some [4, 5, 6, 7]"
    by (simp add: user_place_def wire_world_def)
  then have c: "copy_from_user 0x1004 4 wire_world = Some [4, 5, 6, 7]" by (simp add: eval_nat_numeral)
  have sd: "sd_region wire_sd (uc_mm (k_uc wire_world)) = Done wire_mr"
    by (simp add: sd_region_def k_mr_from_md_def wire_sd_def wire_world_def)
  have ok: "k_region_ok (k_pt wire_world) wire_mr"
    by (simp add: k_region_ok_def wire_world_def wire_mr_def mem_npages_def PAGE_MASK_def)
  have b: "msg_bytes (\<lambda>i. ucast (4 + i)) 4 = [4, 5, 6, 7]"
    by (simp add: msg_bytes_def upt_rec)
  show ?thesis
    by (rule kernel_sends_as_library [where as = "[0x4000]" and ms = "[]", OF _ _ _ _ _ _ sd ok _ _ _ _ _ c _ _ _ _ _ b])
      (simp_all add: wire_sk_def iwsk_zero_def wire_world_def wire_mr_def segments.simps conn_start_def conn_ok_def no_errors_def)
qed

end
