(* ===== verification/V_Types.thy ===== *)
theory V_Types
  imports Iw_Mem Iw_Cq
begin

text \<open>
  The types of the verbs layer (\<open>verbs/types.h\<close>, \<open>verbs/limits.h\<close>), its status codes (\<open>verbs/errno.h\<close>,
  \<open>verbs/errno.c\<close>) and the way its calls are composed. The layer is compiled for the library or for the kernel
  module; the handle of a completion queue differs and is the type variable \<open>'c\<close>.
\<close>

section \<open>Calls\<close>

text \<open>A call may not return at all (\<open>None\<close>), end the process or be undefined (\<open>Exit\<close>), or be done.\<close>

type_synonym 'a call = "'a outcome option"

abbreviation ret :: "'a \<Rightarrow> 'a call" where "ret x \<equiv> Some (Done x)"
abbreviation crash :: "'a call" where "crash \<equiv> Some Exit"

definition bindC :: "'a call \<Rightarrow> ('a \<Rightarrow> 'b call) \<Rightarrow> 'b call" where
  "bindC m f = (case m of None \<Rightarrow> None | Some Exit \<Rightarrow> crash | Some (Done x) \<Rightarrow> f x)"

lemma bindC_simps [simp]: "bindC (ret x) f = f x" "bindC crash f = crash" "bindC None f = None"
  by (simp_all add: bindC_def)

lemma bindC_ret_iff [outcome_simps]: "bindC m f = ret y \<longleftrightarrow> (\<exists>x. m = ret x \<and> f x = ret y)"
  by (auto simp: bindC_def split: option.splits outcome.splits)

lemma bindC_assoc: "bindC (bindC m f) g = bindC m (\<lambda>x. bindC (f x) g)"
  by (auto simp: bindC_def split: option.splits outcome.splits)

text \<open>What holds of the result of a call that comes back, and the rules that take a body apart.\<close>

definition okC :: "('a \<Rightarrow> bool) \<Rightarrow> 'a call \<Rightarrow> bool" where
  "okC P m \<longleftrightarrow> (\<forall>x. m = ret x \<longrightarrow> P x)"

named_theorems okC_intros

lemma okC_ret [okC_intros]: "P x \<Longrightarrow> okC P (ret x)"
  and okC_crash [okC_intros]: "okC P crash"
  and okC_None [okC_intros]: "okC P None"
  and okC_if [okC_intros]: "(c \<Longrightarrow> okC P a) \<Longrightarrow> (\<not> c \<Longrightarrow> okC P b) \<Longrightarrow> okC P (if c then a else b)"
  and okC_let [okC_intros]: "okC P (lf lx) \<Longrightarrow> okC P (Let lx lf)"
  and okC_pair [okC_intros]: "(\<And>u v. pr = (u, v) \<Longrightarrow> okC P (g u v)) \<Longrightarrow> okC P (case pr of (u, v) \<Rightarrow> g u v)"
  and okC_option [okC_intros]: "(y = None \<Longrightarrow> okC P n) \<Longrightarrow> (\<And>z. y = Some z \<Longrightarrow> okC P (k z)) \<Longrightarrow>
    okC P (case y of None \<Rightarrow> n | Some z \<Rightarrow> k z)"
  by (simp_all add: okC_def split: prod.split option.split)

lemma okC_bind: "okC Q m \<Longrightarrow> (\<And>x. Q x \<Longrightarrow> okC P (f x)) \<Longrightarrow> okC P (bindC m f)"
  by (auto simp: okC_def outcome_simps)

lemma okC_bind_any [okC_intros]: "(\<And>x. m = ret x \<Longrightarrow> okC P (f x)) \<Longrightarrow> okC P (bindC m f)"
  by (auto simp: okC_def outcome_simps)

lemma okC_D: "okC P m \<Longrightarrow> m = ret x \<Longrightarrow> P x"
  by (simp add: okC_def)

lemma okC_mono: "okC Q m \<Longrightarrow> (\<And>x. Q x \<Longrightarrow> P x) \<Longrightarrow> okC P m"
  by (simp add: okC_def)

text \<open>A pointer: the null pointer, one to memory that is not (or no longer) the program's, or one to a value.\<close>

datatype 'a ptr = Null | Wild | Ptr 'a

definition deref :: "'a ptr \<Rightarrow> ('a \<Rightarrow> 'b call) \<Rightarrow> 'b call" where
  "deref p f = (case p of Ptr x \<Rightarrow> f x | _ \<Rightarrow> crash)"

lemma deref_simps [simp]: "deref (Ptr x) f = f x" "deref Null f = crash" "deref Wild f = crash"
  by (simp_all add: deref_def)

lemma okC_deref [okC_intros]: "(\<And>x. p = Ptr x \<Longrightarrow> okC P (f x)) \<Longrightarrow> okC P (deref p f)"
  by (cases p) (simp_all add: okC_intros)

text \<open>An element of an array of C; an index out of range is undefined.\<close>

definition elem :: "'a list \<Rightarrow> int \<Rightarrow> ('a \<Rightarrow> 'b call) \<Rightarrow> 'b call" where
  "elem xs i f = (if 0 \<le> i \<and> i < int (length xs) then f (xs ! nat i) else crash)"

lemma okC_elem [okC_intros]: "(0 \<le> i \<Longrightarrow> i < int (length xs) \<Longrightarrow> okC P (f (xs ! nat i))) \<Longrightarrow> okC P (elem xs i f)"
  by (auto simp: elem_def okC_intros)

section \<open>Status codes\<close>

definition errno_names :: "string list" where
  "errno_names =
  [''IWARP_OK'', ''IWARP_INSUFFICIENT_RESOURCES'', ''IWARP_INVALID_MODIFIER'', ''IWARP_BLOCK_LIST_NOT_SUPPORTED'',
   ''IWARP_RNIC_INUSE'', ''IWARP_PD_INUSE'', ''IWARP_INVALID_PD_ID'', ''IWARP_RNIC_QUERY_FAILURE'',
   ''IWARP_CAN_NOT_BUILD_SOCKET'', ''IWARP_CAN_NOT_BIND_SOCKET'', ''IWARP_CAN_NOT_LISTEN_SOCKET'', ''IWARP_CAN_NOT_ACCEPT_CONNECTION'',
   ''IWARP_SERVER_QUERY_FAILURE'', ''IWARP_CAN_NOT_CONNECT'', ''IWARP_INVALID_QP_ID'', ''IWARP_INVALID_QP_ATTR'',
   ''IWARP_CQE_HANDLER_UNSUPPORTED'', ''IWARP_UNSUPPORTED_ADDRESS_TYPE'', ''IWARP_MEMORY_REGISTRATION_FAILURE'', ''IWARP_UNABLE_DESTROY_STAG'',
   ''IWARP_INVALID_MEM_REGION'', ''IWARP_SGL_FULL'', ''IWARP_RWQ_FULL'', ''IWARP_UNSUPPORTED_WR_COUNT'',
   ''IWARP_SWQ_FULL'', ''IWARP_NO_CONNECTION'', ''IWARP_POST_SWQ_FAILED'', ''IWARP_POST_RWQ_FAILED'',
   ''IWARP_UNKNOWN_WR_TYPE'', ''IWARP_UNKNOWN_STATUS_TYPE'', ''IWARP_SWQ_INTERNAL_ERROR'', ''IWARP_INVALID_SQ_OPERATION'',
   ''IWARP_RECV_DISPATCHING_FAILURE'', ''IWARP_CONNECTED_QP'', ''IWARP_CLOSE_SOCKET_ERROR'', ''IWARP_RWQ_INTERNAL_ERROR'',
   ''IWARP_RDMAP_POLL_FAILURE'', ''IWARP_RDMAP_POST_RECV_FAILURE'', ''IWARP_RDMAP_POST_SEND_FAILURE'', ''IWARP_RDMAP_RDMA_WRITE_FAILURE'',
   ''IWARP_RDMAP_RDMA_READ_FAILURE'', ''IWARP_RDMAP_REGISTER_SOCKET_FAILURE'', ''IWARP_RDMAP_SET_MARKER_FAILURE'', ''IWARP_RDMAP_SET_CRC_FAILURE'',
   ''IWARP_RDMAP_DEREGISTER_SOCKET_FAILURE'', ''IWARP_RDMAP_INIT_FAILURE'', ''IWARP_RDMAP_FIN_FAILURE'', ''IWARP_MPA_INIT_FAILURE'',
   ''IWARP_UNABLE_TO_OPEN_RNIC'', ''IWARP_RNIC_CLOSE_FAILURE'', ''IWARP_UNSUPORTED_COMPL_TYPE'', ''IWARP_STAG_REGISTRATION_FAILURE'']"

definition iwarp_string_from_errno :: "int \<Rightarrow> string option" where
  "iwarp_string_from_errno en = map_of (zip (map int [0..<length errno_names]) errno_names) en"

abbreviation (input) IWARP_OK :: int where "IWARP_OK \<equiv> 0"
abbreviation (input) IWARP_INSUFFICIENT_RESOURCES :: int where "IWARP_INSUFFICIENT_RESOURCES \<equiv> 1"
abbreviation (input) IWARP_INVALID_MODIFIER :: int where "IWARP_INVALID_MODIFIER \<equiv> 2"
abbreviation (input) IWARP_BLOCK_LIST_NOT_SUPPORTED :: int where "IWARP_BLOCK_LIST_NOT_SUPPORTED \<equiv> 3"
abbreviation (input) IWARP_RNIC_INUSE :: int where "IWARP_RNIC_INUSE \<equiv> 4"
abbreviation (input) IWARP_PD_INUSE :: int where "IWARP_PD_INUSE \<equiv> 5"
abbreviation (input) IWARP_INVALID_PD_ID :: int where "IWARP_INVALID_PD_ID \<equiv> 6"
abbreviation (input) IWARP_RNIC_QUERY_FAILURE :: int where "IWARP_RNIC_QUERY_FAILURE \<equiv> 7"
abbreviation (input) IWARP_CAN_NOT_BUILD_SOCKET :: int where "IWARP_CAN_NOT_BUILD_SOCKET \<equiv> 8"
abbreviation (input) IWARP_CAN_NOT_BIND_SOCKET :: int where "IWARP_CAN_NOT_BIND_SOCKET \<equiv> 9"
abbreviation (input) IWARP_CAN_NOT_LISTEN_SOCKET :: int where "IWARP_CAN_NOT_LISTEN_SOCKET \<equiv> 10"
abbreviation (input) IWARP_CAN_NOT_ACCEPT_CONNECTION :: int where "IWARP_CAN_NOT_ACCEPT_CONNECTION \<equiv> 11"
abbreviation (input) IWARP_SERVER_QUERY_FAILURE :: int where "IWARP_SERVER_QUERY_FAILURE \<equiv> 12"
abbreviation (input) IWARP_CAN_NOT_CONNECT :: int where "IWARP_CAN_NOT_CONNECT \<equiv> 13"
abbreviation (input) IWARP_INVALID_QP_ID :: int where "IWARP_INVALID_QP_ID \<equiv> 14"
abbreviation (input) IWARP_INVALID_QP_ATTR :: int where "IWARP_INVALID_QP_ATTR \<equiv> 15"
abbreviation (input) IWARP_CQE_HANDLER_UNSUPPORTED :: int where "IWARP_CQE_HANDLER_UNSUPPORTED \<equiv> 16"
abbreviation (input) IWARP_UNSUPPORTED_ADDRESS_TYPE :: int where "IWARP_UNSUPPORTED_ADDRESS_TYPE \<equiv> 17"
abbreviation (input) IWARP_MEMORY_REGISTRATION_FAILURE :: int where "IWARP_MEMORY_REGISTRATION_FAILURE \<equiv> 18"
abbreviation (input) IWARP_UNABLE_DESTROY_STAG :: int where "IWARP_UNABLE_DESTROY_STAG \<equiv> 19"
abbreviation (input) IWARP_INVALID_MEM_REGION :: int where "IWARP_INVALID_MEM_REGION \<equiv> 20"
abbreviation (input) IWARP_SGL_FULL :: int where "IWARP_SGL_FULL \<equiv> 21"
abbreviation (input) IWARP_RWQ_FULL :: int where "IWARP_RWQ_FULL \<equiv> 22"
abbreviation (input) IWARP_UNSUPPORTED_WR_COUNT :: int where "IWARP_UNSUPPORTED_WR_COUNT \<equiv> 23"
abbreviation (input) IWARP_SWQ_FULL :: int where "IWARP_SWQ_FULL \<equiv> 24"
abbreviation (input) IWARP_NO_CONNECTION :: int where "IWARP_NO_CONNECTION \<equiv> 25"
abbreviation (input) IWARP_POST_SWQ_FAILED :: int where "IWARP_POST_SWQ_FAILED \<equiv> 26"
abbreviation (input) IWARP_POST_RWQ_FAILED :: int where "IWARP_POST_RWQ_FAILED \<equiv> 27"
abbreviation (input) IWARP_UNKNOWN_WR_TYPE :: int where "IWARP_UNKNOWN_WR_TYPE \<equiv> 28"
abbreviation (input) IWARP_UNKNOWN_STATUS_TYPE :: int where "IWARP_UNKNOWN_STATUS_TYPE \<equiv> 29"
abbreviation (input) IWARP_SWQ_INTERNAL_ERROR :: int where "IWARP_SWQ_INTERNAL_ERROR \<equiv> 30"
abbreviation (input) IWARP_INVALID_SQ_OPERATION :: int where "IWARP_INVALID_SQ_OPERATION \<equiv> 31"
abbreviation (input) IWARP_RECV_DISPATCHING_FAILURE :: int where "IWARP_RECV_DISPATCHING_FAILURE \<equiv> 32"
abbreviation (input) IWARP_CONNECTED_QP :: int where "IWARP_CONNECTED_QP \<equiv> 33"
abbreviation (input) IWARP_CLOSE_SOCKET_ERROR :: int where "IWARP_CLOSE_SOCKET_ERROR \<equiv> 34"
abbreviation (input) IWARP_RWQ_INTERNAL_ERROR :: int where "IWARP_RWQ_INTERNAL_ERROR \<equiv> 35"
abbreviation (input) IWARP_RDMAP_POLL_FAILURE :: int where "IWARP_RDMAP_POLL_FAILURE \<equiv> 36"
abbreviation (input) IWARP_RDMAP_POST_RECV_FAILURE :: int where "IWARP_RDMAP_POST_RECV_FAILURE \<equiv> 37"
abbreviation (input) IWARP_RDMAP_POST_SEND_FAILURE :: int where "IWARP_RDMAP_POST_SEND_FAILURE \<equiv> 38"
abbreviation (input) IWARP_RDMAP_RDMA_WRITE_FAILURE :: int where "IWARP_RDMAP_RDMA_WRITE_FAILURE \<equiv> 39"
abbreviation (input) IWARP_RDMAP_RDMA_READ_FAILURE :: int where "IWARP_RDMAP_RDMA_READ_FAILURE \<equiv> 40"
abbreviation (input) IWARP_RDMAP_REGISTER_SOCKET_FAILURE :: int where "IWARP_RDMAP_REGISTER_SOCKET_FAILURE \<equiv> 41"
abbreviation (input) IWARP_RDMAP_SET_MARKER_FAILURE :: int where "IWARP_RDMAP_SET_MARKER_FAILURE \<equiv> 42"
abbreviation (input) IWARP_RDMAP_SET_CRC_FAILURE :: int where "IWARP_RDMAP_SET_CRC_FAILURE \<equiv> 43"
abbreviation (input) IWARP_RDMAP_DEREGISTER_SOCKET_FAILURE :: int where "IWARP_RDMAP_DEREGISTER_SOCKET_FAILURE \<equiv> 44"
abbreviation (input) IWARP_RDMAP_INIT_FAILURE :: int where "IWARP_RDMAP_INIT_FAILURE \<equiv> 45"
abbreviation (input) IWARP_RDMAP_FIN_FAILURE :: int where "IWARP_RDMAP_FIN_FAILURE \<equiv> 46"
abbreviation (input) IWARP_MPA_INIT_FAILURE :: int where "IWARP_MPA_INIT_FAILURE \<equiv> 47"
abbreviation (input) IWARP_UNABLE_TO_OPEN_RNIC :: int where "IWARP_UNABLE_TO_OPEN_RNIC \<equiv> 48"
abbreviation (input) IWARP_RNIC_CLOSE_FAILURE :: int where "IWARP_RNIC_CLOSE_FAILURE \<equiv> 49"
abbreviation (input) IWARP_UNSUPORTED_COMPL_TYPE :: int where "IWARP_UNSUPORTED_COMPL_TYPE \<equiv> 50"
abbreviation (input) IWARP_STAG_REGISTRATION_FAILURE :: int where "IWARP_STAG_REGISTRATION_FAILURE \<equiv> 51"

text \<open>The numbers are the positions in the list, and the name of each is found.\<close>

lemma status_names: "map iwarp_string_from_errno
  [IWARP_OK, IWARP_INSUFFICIENT_RESOURCES, IWARP_INVALID_MODIFIER, IWARP_BLOCK_LIST_NOT_SUPPORTED, IWARP_RNIC_INUSE,
   IWARP_PD_INUSE, IWARP_INVALID_PD_ID, IWARP_RNIC_QUERY_FAILURE, IWARP_CAN_NOT_BUILD_SOCKET, IWARP_CAN_NOT_BIND_SOCKET,
   IWARP_CAN_NOT_LISTEN_SOCKET, IWARP_CAN_NOT_ACCEPT_CONNECTION, IWARP_SERVER_QUERY_FAILURE, IWARP_CAN_NOT_CONNECT, IWARP_INVALID_QP_ID,
   IWARP_INVALID_QP_ATTR, IWARP_CQE_HANDLER_UNSUPPORTED, IWARP_UNSUPPORTED_ADDRESS_TYPE, IWARP_MEMORY_REGISTRATION_FAILURE, IWARP_UNABLE_DESTROY_STAG,
   IWARP_INVALID_MEM_REGION, IWARP_SGL_FULL, IWARP_RWQ_FULL, IWARP_UNSUPPORTED_WR_COUNT, IWARP_SWQ_FULL,
   IWARP_NO_CONNECTION, IWARP_POST_SWQ_FAILED, IWARP_POST_RWQ_FAILED, IWARP_UNKNOWN_WR_TYPE, IWARP_UNKNOWN_STATUS_TYPE,
   IWARP_SWQ_INTERNAL_ERROR, IWARP_INVALID_SQ_OPERATION, IWARP_RECV_DISPATCHING_FAILURE, IWARP_CONNECTED_QP, IWARP_CLOSE_SOCKET_ERROR,
   IWARP_RWQ_INTERNAL_ERROR, IWARP_RDMAP_POLL_FAILURE, IWARP_RDMAP_POST_RECV_FAILURE, IWARP_RDMAP_POST_SEND_FAILURE, IWARP_RDMAP_RDMA_WRITE_FAILURE,
   IWARP_RDMAP_RDMA_READ_FAILURE, IWARP_RDMAP_REGISTER_SOCKET_FAILURE, IWARP_RDMAP_SET_MARKER_FAILURE, IWARP_RDMAP_SET_CRC_FAILURE, IWARP_RDMAP_DEREGISTER_SOCKET_FAILURE,
   IWARP_RDMAP_INIT_FAILURE, IWARP_RDMAP_FIN_FAILURE, IWARP_MPA_INIT_FAILURE, IWARP_UNABLE_TO_OPEN_RNIC, IWARP_RNIC_CLOSE_FAILURE,
   IWARP_UNSUPORTED_COMPL_TYPE, IWARP_STAG_REGISTRATION_FAILURE]
  = map Some errno_names"
  by code_simp

lemma map_of_positions: "map_of (zip (map int [0..<length xs]) xs) en = (if 0 \<le> en \<and> nat en < length xs then Some (xs ! nat en) else None)"
proof (cases "0 \<le> en \<and> nat en < length xs")
  case True
  then have "map int [0..<length xs] ! nat en = en" by simp
  with True map_of_zip_nth [of "map int [0..<length xs]" xs "nat en"] show ?thesis by (simp add: distinct_map)
next
  case False
  then have "en \<notin> set (map int [0..<length xs])" by auto
  then have "map_of (zip (map int [0..<length xs]) xs) en = None" by (auto simp: map_of_eq_None_iff dest: set_zip_leftD)
  then show ?thesis using if_not_P [OF False] by metis
qed

lemma string_from_errno: "iwarp_string_from_errno en
    = (if 0 \<le> en \<and> nat en < length errno_names then Some (errno_names ! nat en) else None)"
  unfolding iwarp_string_from_errno_def by (rule map_of_positions)

section \<open>Limits and types\<close>

abbreviation (input) MAX_QP :: nat where "MAX_QP \<equiv> 10"
abbreviation (input) MAX_WRQ :: nat where "MAX_WRQ \<equiv> 250"
abbreviation (input) MAX_PROT_DOMAIN :: nat where "MAX_PROT_DOMAIN \<equiv> 10"
abbreviation (input) MAX_SGE :: nat where "MAX_SGE \<equiv> 1"
abbreviation (input) MAX_S_SGL :: u32 where "MAX_S_SGL \<equiv> 10"
abbreviation (input) MAX_RDMA_W_SGL :: u32 where "MAX_RDMA_W_SGL \<equiv> 10"
abbreviation (input) MAX_R_SGL :: u32 where "MAX_R_SGL \<equiv> 10"
abbreviation (input) MAX_IRD :: u32 where "MAX_IRD \<equiv> 1"
abbreviation (input) MAX_ORD :: u32 where "MAX_ORD \<equiv> 1"
abbreviation (input) MAX_CQ_DEPTH :: u32 where "MAX_CQ_DEPTH \<equiv> 1024"

record iwarp_sge =
  sge_length :: u32
  sge_stag :: stag
  sge_to :: u64

text \<open>The array of entries has \<open>MAX_SGE\<close> elements.\<close>

record iwarp_sgl =
  sgl_sge :: "iwarp_sge list"
  sge_count :: u32

abbreviation (input) WR_TYPE_SEND :: int where "WR_TYPE_SEND \<equiv> 0"
abbreviation (input) WR_TYPE_RECV :: int where "WR_TYPE_RECV \<equiv> 1"
abbreviation (input) WR_TYPE_RDMA_WRITE :: int where "WR_TYPE_RDMA_WRITE \<equiv> 2"
abbreviation (input) WR_TYPE_RDMA_READ :: int where "WR_TYPE_RDMA_READ \<equiv> 3"
abbreviation (input) SIGNALED :: int where "SIGNALED \<equiv> 0"
abbreviation (input) UNSIGNALED :: int where "UNSIGNALED \<equiv> 1"
abbreviation (input) WR_SUCCESS :: int where "WR_SUCCESS \<equiv> 0"
abbreviation (input) WR_FAILURE :: int where "WR_FAILURE \<equiv> 1"

record iwarp_wr =
  wr_id :: u64
  wr_sgl :: "iwarp_sgl ptr"
  wr_remote_sgl :: "iwarp_sgl ptr"
  wr_type :: int
  wr_cq_type :: int

record iwarp_pd =
  pd_available :: int
  pd_in_use :: int

record 'c qp_attrs =
  sq_cq :: 'c
  rq_cq :: 'c
  sq_depth :: u32
  rq_depth :: u32
  rdma_r_enable :: int
  rdma_w_enable :: int
  bind_mem_window_enable :: int
  send_sgl_max :: u32
  rdma_w_sgl_max :: u32
  recv_sgl_max :: u32
  qp_ord :: u32
  qp_ird :: u32
  prot_d_id :: int
  zero_stag_enable :: int
  disable_mpa_markers :: int
  disable_mpa_crc :: int

record 'c iwarp_qp =
  qp_fd :: int
  qp_available :: int
  qp_attributes :: "'c qp_attrs ptr"
  qp_connected :: int
  qp_pre_posts :: int

text \<open>The adapter; the work queue is its array of \<open>MAX_WRQ\<close> requests and the count of those in use.\<close>

record 'c rnic =
  rn_qp :: "'c iwarp_qp list"
  rn_pd :: "iwarp_pd list"
  rn_queue :: "iwarp_wr list"
  rn_size :: int
  rn_fd :: int

record iwarp_wc =
  wc_id :: u64
  wc_type :: int
  wc_status :: int
  wc_bytes :: u32

record rnic_attrs =
  at_vendor :: string
  at_version :: int
  at_max_qp :: int
  at_max_wrq :: int
  at_max_srq :: int
  at_fd :: int

end
