(* ===== verification/V_Verbs.thy ===== *)
theory V_Verbs
  imports V_Types
begin

text \<open>
  The verbs (\<open>verbs/rnic.c\<close>, \<open>verbs/pd.c\<close>, \<open>verbs/cq.c\<close>, \<open>verbs/qp.c\<close>, \<open>verbs/rwr.c\<close>, \<open>verbs/swr.c\<close>,
  \<open>verbs/protected.c\<close>) over the functions of \<open>verbs/stubs.h\<close>, which are compiled for the library or for
  the kernel module: a record of functions is the argument \<open>B\<close>.

  The state is the adapter the handle points to, what lies below the stubs, the answers of \<open>malloc\<close> and of
  the system calls that make a connection, in the order of the calls, and what fresh memory holds.
\<close>

section \<open>The functions below\<close>

record ('c, 'm, 'w) stubs =
  st_RNIC_open :: "int \<Rightarrow> 'c rnic \<Rightarrow> 'w \<Rightarrow> (int \<times> 'c rnic \<times> 'w) call"
  st_rnic_close :: "'c rnic \<Rightarrow> 'w \<Rightarrow> (int \<times> 'w) call"
  st_mem_init :: "'w \<Rightarrow> (int \<times> 'w) call"
  st_rdmap_init :: "'w \<Rightarrow> (int \<times> 'w) call"
  st_mem_register :: "'c rnic \<Rightarrow> u64 \<Rightarrow> u32 \<Rightarrow> 'm \<Rightarrow> 'w \<Rightarrow> (int \<times> 'm \<times> 'w) call"
  st_mem_stag_create :: "'c rnic \<Rightarrow> 'm \<Rightarrow> u64 \<Rightarrow> u32 \<Rightarrow> u32 \<Rightarrow> int \<Rightarrow> stag \<Rightarrow> 'w \<Rightarrow> (int \<times> stag \<times> 'w) call"
  st_mem_stag_destroy :: "'c rnic \<Rightarrow> stag \<Rightarrow> 'w \<Rightarrow> (int \<times> 'w) call"
  st_mem_deregister :: "'c rnic \<Rightarrow> 'm \<Rightarrow> 'w \<Rightarrow> (int \<times> 'w) call"
  st_rnic_advance :: "'c rnic \<Rightarrow> 'w \<Rightarrow> (int \<times> 'w) call"
  st_create_cq :: "'c rnic \<Rightarrow> u32 \<Rightarrow> 'c \<Rightarrow> 'w \<Rightarrow> (int \<times> 'c \<times> 'w) call"
  st_destroy_cq :: "'c rnic \<Rightarrow> 'c \<Rightarrow> 'w \<Rightarrow> (int \<times> 'w) call"
  st_poll_cq :: "'c rnic \<Rightarrow> 'c \<Rightarrow> int \<Rightarrow> iwarp_wc \<Rightarrow> 'w \<Rightarrow> (int \<times> iwarp_wc \<times> 'w) call"
  st_poll_block_qp :: "'c rnic \<Rightarrow> 'c \<Rightarrow> int \<Rightarrow> iwarp_wc \<Rightarrow> 'w \<Rightarrow> (int \<times> iwarp_wc \<times> 'w) call"
  st_register_connection :: "'c rnic \<Rightarrow> int \<Rightarrow> u8 list \<Rightarrow> u64 \<Rightarrow> int \<Rightarrow> bool \<Rightarrow> 'w \<Rightarrow> (int \<times> 'w) call"
  st_throw_away_cqe :: "'c rnic \<Rightarrow> 'c \<Rightarrow> 'w \<Rightarrow> (int \<times> 'w) call"
  st_post_recv :: "'c rnic \<Rightarrow> int \<Rightarrow> u64 \<Rightarrow> u32 \<Rightarrow> u64 \<Rightarrow> stag \<Rightarrow> 'w \<Rightarrow> (int \<times> 'w) call"
  st_post_send :: "'c rnic \<Rightarrow> int \<Rightarrow> u64 \<Rightarrow> u32 \<Rightarrow> u64 \<Rightarrow> stag \<Rightarrow> 'w \<Rightarrow> (int \<times> 'w) call"
  st_rdma_write :: "'c rnic \<Rightarrow> int \<Rightarrow> stag \<Rightarrow> u64 \<Rightarrow> u64 \<Rightarrow> u32 \<Rightarrow> u64 \<Rightarrow> stag \<Rightarrow> 'w \<Rightarrow> (int \<times> 'w) call"
  st_rdma_read :: "'c rnic \<Rightarrow> int \<Rightarrow> stag \<Rightarrow> u64 \<Rightarrow> u32 \<Rightarrow> stag \<Rightarrow> u64 \<Rightarrow> u64 \<Rightarrow> 'w \<Rightarrow> (int \<times> 'w) call"
  st_deregister_sock :: "'c rnic \<Rightarrow> int \<Rightarrow> 'w \<Rightarrow> (int \<times> 'w) call"

record ('c, 'w) verbs =
  vs_rnic :: "'c rnic ptr"
  vs_low :: 'w
  vs_mallocs :: "bool list"
  vs_sys :: "int list"
  vs_junk :: "'c rnic"
  vs_junk_attrs :: "'c qp_attrs"

definition vmalloc :: "('c, 'w) verbs \<Rightarrow> bool \<times> ('c, 'w) verbs" where
  "vmalloc s = (case vs_mallocs s of [] \<Rightarrow> (False, s) | m # ms \<Rightarrow> (m, s\<lparr>vs_mallocs := ms\<rparr>))"

definition vsys :: "('c, 'w) verbs \<Rightarrow> int \<times> ('c, 'w) verbs" where
  "vsys s = (case vs_sys s of [] \<Rightarrow> (- 1, s) | a # as \<Rightarrow> (a, s\<lparr>vs_sys := as\<rparr>))"

text \<open>A call of a stub that returns a status, and one that also hands out a value.\<close>

definition low :: "('w \<Rightarrow> (int \<times> 'w) call) \<Rightarrow> ('c, 'w) verbs \<Rightarrow> (int \<times> ('c, 'w) verbs) call" where
  "low f s = bindC (f (vs_low s)) (\<lambda>(st, w). ret (st, s\<lparr>vs_low := w\<rparr>))"

definition low_out :: "('w \<Rightarrow> (int \<times> 'x \<times> 'w) call) \<Rightarrow> ('c, 'w) verbs \<Rightarrow> (int \<times> 'x \<times> ('c, 'w) verbs) call" where
  "low_out f s = bindC (f (vs_low s)) (\<lambda>(st, x, w). ret (st, x, s\<lparr>vs_low := w\<rparr>))"

definition set_rnic :: "'c rnic \<Rightarrow> ('c, 'w) verbs \<Rightarrow> ('c, 'w) verbs" where
  "set_rnic r s = s\<lparr>vs_rnic := Ptr r\<rparr>"

definition set_qp :: "int \<Rightarrow> 'c iwarp_qp \<Rightarrow> 'c rnic \<Rightarrow> 'c rnic" where
  "set_qp i q r = r\<lparr>rn_qp := (rn_qp r)[nat i := q]\<rparr>"

definition set_pd :: "int \<Rightarrow> iwarp_pd \<Rightarrow> 'c rnic \<Rightarrow> 'c rnic" where
  "set_pd i p r = r\<lparr>rn_pd := (rn_pd r)[nat i := p]\<rparr>"

section \<open>The adapter\<close>

text \<open>The layers below are started before the arguments are looked at.\<close>

definition iwarp_rnic_open :: "('c, 'm, 'w) stubs \<Rightarrow> int \<Rightarrow> int \<Rightarrow> ('c, 'w) verbs \<Rightarrow> (int \<times> ('c, 'w) verbs) call" where
  "iwarp_rnic_open B index mode s =
     bindC (low (st_mem_init B) s) (\<lambda>(_, s).
     bindC (low (st_rdmap_init B) s) (\<lambda>(r, s).
       if r \<noteq> 0 then ret (IWARP_RDMAP_INIT_FAILURE, s)
       else if index \<noteq> 0 then ret (IWARP_INVALID_MODIFIER, s)
       else if mode \<noteq> 0 then ret (IWARP_BLOCK_LIST_NOT_SUPPORTED, s)
       else let (m, s) = vmalloc s in
            if \<not> m then ret (IWARP_INSUFFICIENT_RESOURCES, s)
            else let r = vs_junk s;
                     r = r\<lparr>rn_pd := map (\<lambda>p. p\<lparr>pd_available := 1\<rparr>) (rn_pd r)\<rparr>;
                     r = r\<lparr>rn_qp := map (\<lambda>q. q\<lparr>qp_available := 1\<rparr>) (rn_qp r)\<rparr>;
                     r = r\<lparr>rn_size := 0\<rparr>
                 in bindC (low_out (st_RNIC_open B index r) s) (\<lambda>(st, r, s).
                      if st \<noteq> IWARP_OK then ret (IWARP_UNABLE_TO_OPEN_RNIC, s)
                      else ret (IWARP_OK, set_rnic r s))))"

text \<open>\<open>strsave\<close> ends the process when there is no memory.\<close>

definition iwarp_rnic_query :: "('c, 'w) verbs \<Rightarrow> (int \<times> rnic_attrs \<times> ('c, 'w) verbs) call" where
  "iwarp_rnic_query s =
     deref (vs_rnic s) (\<lambda>r.
       let (m, s) = vmalloc s in
       if \<not> m then crash
       else ret (IWARP_OK, \<lparr>at_vendor = ''OSC iwarp'', at_version = 1, at_max_qp = int MAX_QP, at_max_wrq = int MAX_WRQ,
                            at_max_srq = 0, at_fd = rn_fd r\<rparr>, s))"

definition iwarp_rnic_close :: "('c, 'm, 'w) stubs \<Rightarrow> ('c, 'w) verbs \<Rightarrow> (int \<times> ('c, 'w) verbs) call" where
  "iwarp_rnic_close B s =
     deref (vs_rnic s) (\<lambda>r.
     bindC (low (st_rnic_close B r) s) (\<lambda>(_, s).
       ret (IWARP_OK, s\<lparr>vs_rnic := Wild\<rparr>)))"

definition iwarp_rnic_advance :: "('c, 'm, 'w) stubs \<Rightarrow> ('c, 'w) verbs \<Rightarrow> (int \<times> ('c, 'w) verbs) call" where
  "iwarp_rnic_advance B s =
     deref (vs_rnic s) (\<lambda>r.
     bindC (low (st_rnic_advance B r) s) (\<lambda>(st, s).
       ret (if st \<noteq> IWARP_OK then IWARP_RDMAP_POLL_FAILURE else IWARP_OK, s)))"

section \<open>Protection domains\<close>

definition iwarp_pd_allocate :: "('c, 'w) verbs \<Rightarrow> (int \<times> int option \<times> ('c, 'w) verbs) call" where
  "iwarp_pd_allocate s =
     deref (vs_rnic s) (\<lambda>r.
       let i = length (takeWhile (\<lambda>p. pd_available p \<noteq> 1) (take MAX_PROT_DOMAIN (rn_pd r))) in
       if i < MAX_PROT_DOMAIN
       then ret (IWARP_OK, Some (int i),
                 set_rnic (set_pd (int i) ((rn_pd r ! i)\<lparr>pd_available := 0, pd_in_use := 0\<rparr>) r) s)
       else ret (IWARP_INSUFFICIENT_RESOURCES, None, s))"

text \<open>The index \<open>MAX_PROT_DOMAIN\<close> passes the test.\<close>

definition iwarp_pd_deallocate :: "int \<Rightarrow> ('c, 'w) verbs \<Rightarrow> (int \<times> ('c, 'w) verbs) call" where
  "iwarp_pd_deallocate index s =
     deref (vs_rnic s) (\<lambda>r.
       if index < 0 \<or> index > int MAX_PROT_DOMAIN then ret (IWARP_INVALID_PD_ID, s)
       else elem (rn_pd r) index (\<lambda>p.
              if pd_in_use p > 0 then ret (IWARP_PD_INUSE, s)
              else if pd_available p = 1 then ret (IWARP_INVALID_PD_ID, s)
              else ret (IWARP_OK, set_rnic (set_pd index (p\<lparr>pd_available := 1\<rparr>) r) s)))"

section \<open>Memory\<close>

definition iwarp_nsmr_register :: "('c, 'm, 'w) stubs \<Rightarrow> int \<Rightarrow> u64 \<Rightarrow> u32 \<Rightarrow> int \<Rightarrow> u32 \<Rightarrow> stag \<Rightarrow> 'm \<Rightarrow> ('c, 'w) verbs
    \<Rightarrow> (int \<times> stag \<times> 'm \<times> ('c, 'w) verbs) call" where
  "iwarp_nsmr_register B addr_t buffer len pd access stag md s =
     deref (vs_rnic s) (\<lambda>r.
       if addr_t \<noteq> 0 then ret (IWARP_UNSUPPORTED_ADDRESS_TYPE, stag, md, s)
       else bindC (low_out (st_mem_register B r buffer len md) s) (\<lambda>(st, md, s).
              if st \<noteq> IWARP_OK then ret (IWARP_MEMORY_REGISTRATION_FAILURE, stag, md, s)
              else bindC (low_out (st_mem_stag_create B r md buffer len access pd stag) s) (\<lambda>(st, stag, s).
                     if st \<noteq> IWARP_OK then ret (IWARP_STAG_REGISTRATION_FAILURE, stag, md, s)
                     else elem (rn_pd r) pd (\<lambda>p.
                            ret (IWARP_OK, stag, md, set_rnic (set_pd pd (p\<lparr>pd_in_use := pd_in_use p + 1\<rparr>) r) s)))))"

definition iwarp_deallocate_stag :: "('c, 'm, 'w) stubs \<Rightarrow> stag \<Rightarrow> ('c, 'w) verbs \<Rightarrow> (int \<times> ('c, 'w) verbs) call" where
  "iwarp_deallocate_stag B stag s =
     deref (vs_rnic s) (\<lambda>r.
     bindC (low (st_mem_stag_destroy B r stag) s) (\<lambda>(st, s).
       ret (if st < 0 then IWARP_UNABLE_DESTROY_STAG else IWARP_OK, s)))"

definition iwarp_deregister_mem :: "('c, 'm, 'w) stubs \<Rightarrow> int \<Rightarrow> 'm \<Rightarrow> ('c, 'w) verbs \<Rightarrow> (int \<times> ('c, 'w) verbs) call" where
  "iwarp_deregister_mem B pd md s =
     deref (vs_rnic s) (\<lambda>r.
     bindC (low (st_mem_deregister B r md) s) (\<lambda>(st, s).
       if st < 0 then ret (IWARP_INVALID_MEM_REGION, s)
       else elem (rn_pd r) pd (\<lambda>p. ret (IWARP_OK, set_rnic (set_pd pd (p\<lparr>pd_in_use := pd_in_use p - 1\<rparr>) r) s))))"

definition iwarp_create_sgl :: "iwarp_sgl \<Rightarrow> int \<times> iwarp_sgl" where
  "iwarp_create_sgl sgl = (IWARP_OK, sgl\<lparr>sge_count := 0\<rparr>)"

definition iwarp_register_sge :: "iwarp_sgl \<Rightarrow> iwarp_sge \<Rightarrow> (int \<times> iwarp_sgl) call" where
  "iwarp_register_sge sgl sge =
     (if sge_count sgl = of_nat MAX_SGE then ret (IWARP_SGL_FULL, sgl)
      else elem (sgl_sge sgl) (uint (sge_count sgl)) (\<lambda>_.
             ret (IWARP_OK, sgl\<lparr>sgl_sge := (sgl_sge sgl)[unat (sge_count sgl) := sge], sge_count := sge_count sgl + 1\<rparr>)))"

section \<open>Completion queues\<close>

definition iwarp_cq_create :: "('c, 'm, 'w) stubs \<Rightarrow> bool \<Rightarrow> u32 \<Rightarrow> 'c \<Rightarrow> ('c, 'w) verbs \<Rightarrow> (int \<times> 'c \<times> ('c, 'w) verbs) call" where
  "iwarp_cq_create B handler num_evts cq s =
     deref (vs_rnic s) (\<lambda>r.
       if handler then ret (IWARP_CQE_HANDLER_UNSUPPORTED, cq, s)
       else if num_evts > MAX_CQ_DEPTH then ret (IWARP_INSUFFICIENT_RESOURCES, cq, s)
       else low_out (st_create_cq B r num_evts cq) s)"

definition iwarp_cq_destroy :: "('c, 'm, 'w) stubs \<Rightarrow> 'c \<Rightarrow> ('c, 'w) verbs \<Rightarrow> (int \<times> ('c, 'w) verbs) call" where
  "iwarp_cq_destroy B cq s = deref (vs_rnic s) (\<lambda>r. low (st_destroy_cq B r cq) s)"

definition iwarp_cq_poll :: "('c, 'm, 'w) stubs \<Rightarrow> 'c \<Rightarrow> int \<Rightarrow> iwarp_wc \<Rightarrow> ('c, 'w) verbs \<Rightarrow> (int \<times> iwarp_wc \<times> ('c, 'w) verbs) call" where
  "iwarp_cq_poll B cq retrys wc s = deref (vs_rnic s) (\<lambda>r. low_out (st_poll_cq B r cq retrys wc) s)"

definition iwarp_cq_poll_block :: "('c, 'm, 'w) stubs \<Rightarrow> 'c \<Rightarrow> int \<Rightarrow> iwarp_wc \<Rightarrow> ('c, 'w) verbs
    \<Rightarrow> (int \<times> iwarp_wc \<times> ('c, 'w) verbs) call" where
  "iwarp_cq_poll_block B cq qp_id wc s = deref (vs_rnic s) (\<lambda>r. low_out (st_poll_block_qp B r cq qp_id wc) s)"

end
