(* ===== verification/V_Qp.thy ===== *)
theory V_Qp
  imports V_Verbs
begin

text \<open>
  Queue pairs (\<open>verbs/qp.c\<close>), the work requests posted to them (\<open>verbs/rwr.c\<close>, \<open>verbs/swr.c\<close>) and
  their dispatch (\<open>verbs/protected.c\<close>). Receives posted before the connection wait in the work queue of the
  adapter, which all queue pairs share.
\<close>

section \<open>Creation\<close>

text \<open>
  The attributes are checked and stored one after the other; where a check fails those before it are in
  the new block, those after it are not.
\<close>

definition qp_fill :: "'c qp_attrs \<Rightarrow> iwarp_pd list \<Rightarrow> 'c qp_attrs \<Rightarrow> (int \<times> 'c qp_attrs) call" where
  "qp_fill i pds a =
     (let a = a\<lparr>sq_cq := sq_cq i, rq_cq := rq_cq i\<rparr> in
      if \<not> (sq_depth i \<le> of_nat MAX_WRQ \<and> rq_depth i \<le> of_nat MAX_WRQ) then ret (IWARP_INVALID_QP_ATTR, a)
      else let a = a\<lparr>sq_depth := sq_depth i, rq_depth := rq_depth i\<rparr> in
      if \<not> (rdma_r_enable i = 1 \<or> rdma_r_enable i = 0) then ret (IWARP_INVALID_QP_ATTR, a)
      else let a = a\<lparr>rdma_r_enable := rdma_r_enable i\<rparr> in
      if \<not> (rdma_w_enable i = 1 \<or> rdma_w_enable i = 0) then ret (IWARP_INVALID_QP_ATTR, a)
      else let a = a\<lparr>rdma_w_enable := rdma_w_enable i\<rparr> in
      if bind_mem_window_enable i = 1 then ret (IWARP_INVALID_QP_ATTR, a)
      else let a = a\<lparr>bind_mem_window_enable := bind_mem_window_enable i\<rparr> in
      if \<not> send_sgl_max i \<le> MAX_S_SGL then ret (IWARP_INVALID_QP_ATTR, a)
      else let a = a\<lparr>send_sgl_max := send_sgl_max i\<rparr> in
      if \<not> rdma_w_sgl_max i \<le> MAX_RDMA_W_SGL then ret (IWARP_INVALID_QP_ATTR, a)
      else let a = a\<lparr>rdma_w_sgl_max := rdma_w_sgl_max i\<rparr> in
      if \<not> recv_sgl_max i \<le> MAX_R_SGL then ret (IWARP_INVALID_QP_ATTR, a)
      else let a = a\<lparr>recv_sgl_max := recv_sgl_max i\<rparr> in
      if \<not> (qp_ord i \<le> MAX_ORD \<and> qp_ird i \<le> MAX_IRD) then ret (IWARP_INVALID_QP_ATTR, a)
      else let a = a\<lparr>qp_ord := qp_ord i, qp_ird := qp_ird i\<rparr> in
      elem pds (prot_d_id i) (\<lambda>p.
        if pd_available p = 1 then ret (IWARP_INVALID_QP_ATTR, a)
        else let a = a\<lparr>prot_d_id := prot_d_id i\<rparr> in
        if zero_stag_enable i = 1 then ret (IWARP_INVALID_QP_ATTR, a)
        else ret (IWARP_OK, a\<lparr>zero_stag_enable := zero_stag_enable i\<rparr>)))"

definition iwarp_qp_create :: "'c qp_attrs \<Rightarrow> ('c, 'w) verbs \<Rightarrow> (int \<times> int option \<times> ('c, 'w) verbs) call" where
  "iwarp_qp_create i s =
     deref (vs_rnic s) (\<lambda>r.
       let n = length (takeWhile (\<lambda>q. qp_available q \<noteq> 1) (take MAX_QP (rn_qp r))) in
       if \<not> n < MAX_QP then ret (IWARP_INSUFFICIENT_RESOURCES, None, s)
       else let q = rn_qp r ! n; (m, s) = vmalloc s in
            if \<not> m then ret (IWARP_INSUFFICIENT_RESOURCES, Some (int n), set_rnic (set_qp (int n) (q\<lparr>qp_attributes := Null\<rparr>) r) s)
            else bindC (qp_fill i (rn_pd r) (vs_junk_attrs s)) (\<lambda>(st, a).
                   if st \<noteq> IWARP_OK then ret (st, Some (int n), set_rnic (set_qp (int n) (q\<lparr>qp_attributes := Ptr a\<rparr>) r) s)
                   else let a = a\<lparr>disable_mpa_markers := disable_mpa_markers i, disable_mpa_crc := disable_mpa_crc i\<rparr>;
                            q = q\<lparr>qp_attributes := Ptr a, qp_available := 0, qp_connected := 0, qp_pre_posts := 0\<rparr>
                        in ret (IWARP_OK, Some (int n), set_rnic (set_qp (int n) q r) s)))"

text \<open>The index is used before it is compared with the range.\<close>

definition iwarp_qp_destroy :: "int \<Rightarrow> ('c, 'w) verbs \<Rightarrow> (int \<times> ('c, 'w) verbs) call" where
  "iwarp_qp_destroy index s =
     deref (vs_rnic s) (\<lambda>r.
     elem (rn_qp r) index (\<lambda>q.
       if qp_connected q = 1 then ret (IWARP_CONNECTED_QP, s)
       else if index < 0 \<or> index > int MAX_QP then ret (IWARP_INVALID_QP_ID, s)
       else if qp_available q = 1 then ret (IWARP_INVALID_QP_ID, s)
       else if qp_attributes q = Wild then crash
       else ret (IWARP_OK, set_rnic (set_qp index (q\<lparr>qp_attributes := Wild, qp_available := 1\<rparr>) r) s)))"

section \<open>Dispatch\<close>

definition iwarp_recv_event_dispatch_one :: "('c, 'm, 'w) stubs \<Rightarrow> 'c rnic \<Rightarrow> int \<Rightarrow> iwarp_wr \<Rightarrow> 'w \<Rightarrow> (int \<times> 'w) call" where
  "iwarp_recv_event_dispatch_one B r fd wr w =
     deref (wr_sgl wr) (\<lambda>sgl.
     elem (sgl_sge sgl) 0 (\<lambda>sge.
       if sge_count sgl \<noteq> 1 then ret (IWARP_UNSUPPORTED_WR_COUNT, w)
       else bindC (st_post_recv B r fd (sge_to sge) (sge_length sge) (wr_id wr) (sge_stag sge) w) (\<lambda>(st, w).
              ret (if st \<noteq> IWARP_OK then IWARP_RDMAP_POST_RECV_FAILURE else 0, w))))"

fun recv_dispatch_loop :: "('c, 'm, 'w) stubs \<Rightarrow> 'c rnic \<Rightarrow> int \<Rightarrow> iwarp_wr list \<Rightarrow> 'w \<Rightarrow> (int \<times> 'w) call" where
  "recv_dispatch_loop B r fd [] w = ret (0, w)"
| "recv_dispatch_loop B r fd (wr # wrs) w =
     bindC (iwarp_recv_event_dispatch_one B r fd wr w) (\<lambda>(st, w).
       if st \<noteq> 0 then ret (st, w) else recv_dispatch_loop B r fd wrs w)"

text \<open>
  The queue is reset before the list of a request is freed, so that it is the list of the first slot that is freed,
  whatever it is, and no other.
\<close>

definition iwarp_recv_event_dispatcher :: "('c, 'm, 'w) stubs \<Rightarrow> int \<Rightarrow> ('c, 'w) verbs \<Rightarrow> (int \<times> ('c, 'w) verbs) call" where
  "iwarp_recv_event_dispatcher B fd s =
     deref (vs_rnic s) (\<lambda>r.
     bindC (low (recv_dispatch_loop B r fd (take (nat (rn_size r)) (rn_queue r))) s) (\<lambda>(st, s).
       if st \<noteq> 0 then ret (st, s)
       else elem (rn_queue r) 0 (\<lambda>wr.
              if wr_sgl wr = Wild then crash
              else let wr = (if wr_sgl wr = Null then wr else wr\<lparr>wr_sgl := Wild\<rparr>)
                   in ret (0, set_rnic (r\<lparr>rn_size := 0, rn_queue := (rn_queue r)[0 := wr]\<rparr>) s))))"

definition iwarp_send_event_dispatch_one :: "('c, 'm, 'w) stubs \<Rightarrow> 'c rnic \<Rightarrow> int \<Rightarrow> iwarp_wr \<Rightarrow> 'w \<Rightarrow> (int \<times> 'w) call" where
  "iwarp_send_event_dispatch_one B r fd wr w =
     deref (wr_sgl wr) (\<lambda>sgl.
     elem (sgl_sge sgl) 0 (\<lambda>sge.
       let local_stag = sge_stag sge in
       if sge_count sgl \<noteq> 1 then ret (IWARP_UNSUPPORTED_WR_COUNT, w)
       else if wr_type wr = WR_TYPE_SEND then
         bindC (st_post_send B r fd (sge_to sge) (sge_length sge) (wr_id wr) local_stag w) (\<lambda>(err, w).
           ret (if err \<noteq> IWARP_OK then IWARP_RDMAP_POST_SEND_FAILURE else 0, w))
       else if wr_type wr = WR_TYPE_RECV then ret (IWARP_INVALID_SQ_OPERATION, w)
       else if wr_type wr = WR_TYPE_RDMA_WRITE then
         deref (wr_remote_sgl wr) (\<lambda>rsgl.
           if sge_count rsgl \<noteq> 1 then ret (IWARP_UNSUPPORTED_WR_COUNT, w)
           else elem (sgl_sge rsgl) 0 (\<lambda>rsge.
                  bindC (st_rdma_write B r fd (sge_stag rsge) (sge_to rsge) (sge_to sge) (sge_length sge) (wr_id wr) local_stag w) (\<lambda>(err, w).
                    ret (if err \<noteq> IWARP_OK then IWARP_RDMAP_RDMA_WRITE_FAILURE else 0, w))))
       else if wr_type wr = WR_TYPE_RDMA_READ then
         deref (wr_remote_sgl wr) (\<lambda>rsgl.
           if sge_count rsgl \<noteq> 1 then ret (IWARP_UNSUPPORTED_WR_COUNT, w)
           else elem (sgl_sge rsgl) 0 (\<lambda>rsge.
                  bindC (st_rdma_read B r fd local_stag (sge_to sge) (sge_length sge) (sge_stag rsge) (sge_to rsge) (wr_id wr) w) (\<lambda>(err, w).
                    ret (if err \<noteq> IWARP_OK then IWARP_RDMAP_RDMA_READ_FAILURE else 0, w))))
       else ret (IWARP_INVALID_SQ_OPERATION, w)))"

section \<open>Connections\<close>

text \<open>
  What the client and the server do once the socket is there. The status of the registration is not
  looked at.
\<close>

definition qp_connected_now :: "('c, 'm, 'w) stubs \<Rightarrow> int \<Rightarrow> u8 list \<Rightarrow> u64 \<Rightarrow> int \<Rightarrow> bool \<Rightarrow> ('c, 'w) verbs \<Rightarrow> (int \<times> ('c, 'w) verbs) call" where
  "qp_connected_now B qp_id pd rpd_buf rpd is_client s =
     deref (vs_rnic s) (\<lambda>r.
     elem (rn_qp r) qp_id (\<lambda>q.
     bindC (low (st_register_connection B r qp_id pd rpd_buf rpd is_client) s) (\<lambda>(_, s).
     bindC (iwarp_recv_event_dispatcher B (qp_fd q) (set_rnic (set_qp qp_id (q\<lparr>qp_connected := 1\<rparr>) r) s)) (\<lambda>(st, s).
       ret (if st \<noteq> 0 then IWARP_RECV_DISPATCHING_FAILURE else IWARP_OK, s)))))"

text \<open>A system call whose answer is kept in the queue pair, as its descriptor.\<close>

definition qp_socket :: "int \<Rightarrow> ('c, 'w) verbs \<Rightarrow> (int \<times> ('c, 'w) verbs) call" where
  "qp_socket qp_id s =
     deref (vs_rnic s) (\<lambda>r.
     elem (rn_qp r) qp_id (\<lambda>q.
       let (fd, s) = vsys s in ret (fd, set_rnic (set_qp qp_id (q\<lparr>qp_fd := fd\<rparr>) r) s)))"

definition iwarp_qp_passive_connect :: "('c, 'm, 'w) stubs \<Rightarrow> int \<Rightarrow> u8 list \<Rightarrow> u64 \<Rightarrow> int \<Rightarrow> ('c, 'w) verbs \<Rightarrow> (int \<times> ('c, 'w) verbs) call" where
  "iwarp_qp_passive_connect B qp_id pd rpd_buf rpd s =
     bindC (iwarp_rnic_query s) (\<lambda>(st, _, s).
       if st \<noteq> IWARP_OK then ret (st, s)
       else bindC (qp_socket qp_id s) (\<lambda>(fd, s).
         if fd < 0 then ret (IWARP_CAN_NOT_BUILD_SOCKET, s)
         else let (a, s) = vsys s in
         if a < 0 then ret (IWARP_CAN_NOT_BIND_SOCKET, s)
         else let (a, s) = vsys s in
         if a < 0 then ret (IWARP_CAN_NOT_BIND_SOCKET, s)
         else let (a, s) = vsys s in
         if a < 0 then ret (IWARP_CAN_NOT_LISTEN_SOCKET, s)
         else bindC (qp_socket qp_id s) (\<lambda>(fd, s).
           if fd < 0 then ret (IWARP_CAN_NOT_ACCEPT_CONNECTION, s)
           else qp_connected_now B qp_id pd rpd_buf rpd False s)))"

text \<open>\<open>for (k = 0; k < retrys; k++)\<close>: the loop over \<open>connect\<close>.\<close>

fun connect_loop :: "nat \<Rightarrow> ('c, 'w) verbs \<Rightarrow> bool \<times> ('c, 'w) verbs" where
  "connect_loop 0 s = (False, s)"
| "connect_loop (Suc k) s = (let (a, s) = vsys s in if a < 0 then connect_loop k s else (True, s))"

text \<open>The first answer is that of \<open>gethostbyname\<close>, negative for the null pointer.\<close>

definition iwarp_qp_active_connect :: "('c, 'm, 'w) stubs \<Rightarrow> int \<Rightarrow> int \<Rightarrow> u8 list \<Rightarrow> u64 \<Rightarrow> int \<Rightarrow> ('c, 'w) verbs \<Rightarrow> (int \<times> ('c, 'w) verbs) call" where
  "iwarp_qp_active_connect B retrys qp_id pd rpd_buf rpd s =
     (let (a, s) = vsys s in
      if a < 0 then ret (IWARP_SERVER_QUERY_FAILURE, s)
      else bindC (qp_socket qp_id s) (\<lambda>(fd, s).
        if fd < 0 then ret (IWARP_CAN_NOT_BUILD_SOCKET, s)
        else let (a, s) = vsys s in
        if a < 0 then ret (IWARP_CAN_NOT_BIND_SOCKET, s)
        else let (connected, s) = connect_loop (nat retrys) s in
        if connected then qp_connected_now B qp_id pd rpd_buf rpd True s
        else ret (IWARP_CAN_NOT_CONNECT, s)))"

definition iwarp_qp_disconnect :: "('c, 'm, 'w) stubs \<Rightarrow> int \<Rightarrow> ('c, 'w) verbs \<Rightarrow> (int \<times> ('c, 'w) verbs) call" where
  "iwarp_qp_disconnect B qp_id s =
     deref (vs_rnic s) (\<lambda>r.
     elem (rn_qp r) qp_id (\<lambda>q.
       let r = set_qp qp_id (q\<lparr>qp_connected := 0\<rparr>) r; s = set_rnic r s in
       bindC (low (st_deregister_sock B r (qp_fd q)) s) (\<lambda>(st, s).
         if st \<noteq> IWARP_OK then ret (IWARP_RDMAP_DEREGISTER_SOCKET_FAILURE, s)
         else let (err, s) = vsys s in
              ret (if err \<noteq> 0 then IWARP_CLOSE_SOCKET_ERROR else IWARP_OK, s))))"

section \<open>Work requests\<close>

text \<open>The entries of a list are copied one by one: more of them than \<open>MAX_SGE\<close> overrun it.\<close>

definition copy_sgl :: "iwarp_sgl \<Rightarrow> iwarp_sgl call" where
  "copy_sgl l = (if unat (sge_count l) > length (sgl_sge l) then crash else ret l)"

definition iwarp_qp_post_rq :: "('c, 'm, 'w) stubs \<Rightarrow> int \<Rightarrow> iwarp_wr \<Rightarrow> ('c, 'w) verbs \<Rightarrow> (int \<times> ('c, 'w) verbs) call" where
  "iwarp_qp_post_rq B qp_hndl wr s =
     deref (vs_rnic s) (\<lambda>r.
     elem (rn_qp r) qp_hndl (\<lambda>q.
     bindC
       (if qp_connected q \<noteq> 0 then low (iwarp_recv_event_dispatch_one B r (qp_fd q) wr) s
        else if rn_size r = int MAX_WRQ then ret (IWARP_RWQ_FULL, s)
        else let (m, s) = vmalloc s in
             deref (wr_sgl wr) (\<lambda>l.
               if \<not> m then crash
               else bindC (copy_sgl l) (\<lambda>l.
                    elem (rn_queue r) (rn_size r) (\<lambda>_.
                      ret (IWARP_OK, set_rnic (set_qp qp_hndl (q\<lparr>qp_pre_posts := qp_pre_posts q + 1\<rparr>)
                        (r\<lparr>rn_queue := (rn_queue r)[nat (rn_size r) := wr\<lparr>wr_sgl := Ptr l\<rparr>], rn_size := rn_size r + 1\<rparr>)) s)))))
       (\<lambda>(st, s).
          if st \<noteq> 0 then ret (st, s)
          else if wr_cq_type wr = UNSIGNALED then ret (IWARP_UNSUPORTED_COMPL_TYPE, s)
          else ret (st, s))))"

definition iwarp_qp_post_sq :: "('c, 'm, 'w) stubs \<Rightarrow> int \<Rightarrow> iwarp_wr \<Rightarrow> ('c, 'w) verbs \<Rightarrow> (int \<times> ('c, 'w) verbs) call" where
  "iwarp_qp_post_sq B qp_hndl wr s =
     deref (vs_rnic s) (\<lambda>r.
     elem (rn_qp r) qp_hndl (\<lambda>q.
       if qp_connected q \<noteq> 1 then ret (IWARP_NO_CONNECTION, s)
       else bindC (low (iwarp_send_event_dispatch_one B r (qp_fd q) wr) s) (\<lambda>(st, s).
              if st \<noteq> 0 then ret (st, s)
              else if wr_cq_type wr = UNSIGNALED then
                deref (qp_attributes q) (\<lambda>a.
                bindC (low (st_throw_away_cqe B r (sq_cq a)) s) (\<lambda>(st, s).
                  ret (if st \<noteq> IWARP_OK then IWARP_RWQ_INTERNAL_ERROR else st, s)))
              else ret (st, s))))"

end
