(* ===== verification/V_User.thy ===== *)
theory V_User
  imports V_Qp Iw_Stack
begin

text \<open>
  The functions below the verbs in the build for the library (\<open>verbs/stubs.c\<close> without \<open>KERNEL_IWARP\<close>). The
  handle of a completion queue is the pointer \<open>cq_create\<close> returned, a memory descriptor that of the library.
  Next to the state of the library there are the answers of \<open>malloc\<close> in \<open>cq_create\<close>, the place the next
  queue gets, and what \<open>poll\<close> reports in each call of \<open>rdmap_poll\<close>: its answer, whether it was interrupted
  and which sockets are ready.
\<close>

record vuser =
  vu_world :: world
  vu_mallocs :: "bool list"
  vu_next_cq :: nat
  vu_polls :: "nat \<Rightarrow> int \<times> bool \<times> bool list"
  vu_npoll :: nat
  vu_junk_cqe :: cqe

definition set_world :: "world \<Rightarrow> vuser \<Rightarrow> vuser" where
  "set_world w u = u\<lparr>vu_world := w\<rparr>"

text \<open>A call of the library that returns a value.\<close>

definition lib :: "(world \<Rightarrow> (int \<times> world) outcome) \<Rightarrow> vuser \<Rightarrow> (int \<times> vuser) call" where
  "lib f u = Some (bindO (f (vu_world u)) (\<lambda>(st, w). Done (st, set_world w u)))"

text \<open>A value other than 0 becomes the status \<open>err\<close>.\<close>

definition lib_err :: "int \<Rightarrow> (world \<Rightarrow> (int \<times> world) outcome) \<Rightarrow> vuser \<Rightarrow> (int \<times> vuser) call" where
  "lib_err err f u = bindC (lib f u) (\<lambda>(st, u). ret (if st \<noteq> 0 then err else IWARP_OK, u))"

section \<open>Start and end\<close>

definition u_RNIC_open :: "int \<Rightarrow> (nat option) rnic \<Rightarrow> vuser \<Rightarrow> (int \<times> (nat option) rnic \<times> vuser) call" where
  "u_RNIC_open index r u = ret (IWARP_OK, r, u)"

definition u_mem_init :: "vuser \<Rightarrow> (int \<times> vuser) call" where
  "u_mem_init u = lib (\<lambda>w. Done (IWARP_OK, w\<lparr>mm := (mm w)\<lparr>stag_avl := avl_create mem_avl_stag_comp\<rparr>\<rparr>)) u"

definition u_rdmap_init :: "vuser \<Rightarrow> (int \<times> vuser) call" where
  "u_rdmap_init u = lib rdmap_init u"

definition u_mem_fini :: "vuser \<Rightarrow> (int \<times> vuser) call" where
  "u_mem_fini u = lib (\<lambda>w. bindO (mem_fini (mm w)) (\<lambda>(_, m). Done (IWARP_OK, w\<lparr>mm := m\<rparr>))) u"

definition u_rdmap_fin :: "vuser \<Rightarrow> (int \<times> vuser) call" where
  "u_rdmap_fin u = lib rdmap_fin u"

definition u_rnic_close :: "(nat option) rnic \<Rightarrow> vuser \<Rightarrow> (int \<times> vuser) call" where
  "u_rnic_close r u =
     bindC (u_mem_fini u) (\<lambda>(_, u). bindC (u_rdmap_fin u) (\<lambda>(st, u).
       ret (if st \<noteq> 0 then IWARP_RDMAP_FIN_FAILURE else IWARP_OK, u)))"

section \<open>Memory\<close>

definition u_mem_register :: "(nat option) rnic \<Rightarrow> u64 \<Rightarrow> u32 \<Rightarrow> mem_desc \<Rightarrow> vuser \<Rightarrow> (int \<times> mem_desc \<times> vuser) call" where
  "u_mem_register r buffer len _ u =
     (let w = vu_world u; (md, m) = mem_register buffer (ucast len) (mm w)
      in ret (IWARP_OK, md, set_world (w\<lparr>mm := m\<rparr>) u))"

text \<open>The start of the tag is the start of the region.\<close>

definition u_mem_stag_create :: "(nat option) rnic \<Rightarrow> mem_desc \<Rightarrow> u64 \<Rightarrow> u32 \<Rightarrow> u32 \<Rightarrow> int \<Rightarrow> stag \<Rightarrow> vuser
    \<Rightarrow> (int \<times> stag \<times> vuser) call" where
  "u_mem_stag_create r md start len access pd _ u =
     (let w = vu_world u
      in Some (bindO (mem_stag_create 0 md 0 (ucast len) access (of_int pd) (mm w)) (\<lambda>(stag, m).
           Done (if sint stag < 0 then - 1 else IWARP_OK, stag, set_world (w\<lparr>mm := m\<rparr>) u))))"

definition u_mem_stag_destroy :: "(nat option) rnic \<Rightarrow> stag \<Rightarrow> vuser \<Rightarrow> (int \<times> vuser) call" where
  "u_mem_stag_destroy r stag u = lib (\<lambda>w. bindO (mem_stag_destroy stag (mm w)) (\<lambda>(st, m). Done (st, w\<lparr>mm := m\<rparr>))) u"

definition u_mem_deregister :: "(nat option) rnic \<Rightarrow> mem_desc \<Rightarrow> vuser \<Rightarrow> (int \<times> vuser) call" where
  "u_mem_deregister r md u = lib (\<lambda>w. let (st, m) = mem_deregister md (mm w) in Done (st, w\<lparr>mm := m\<rparr>)) u"

section \<open>Polling and completion queues\<close>

definition u_poll :: "vuser \<Rightarrow> (int \<times> vuser) outcome" where
  "u_poll u =
     (let (answer, eintr, ready) = vu_polls u (vu_npoll u)
      in bindO (rdmap_poll answer eintr ready (vu_world u)) (\<lambda>(st, w). Done (st, set_world w (u\<lparr>vu_npoll := vu_npoll u + 1\<rparr>))))"

definition u_rnic_advance :: "(nat option) rnic \<Rightarrow> vuser \<Rightarrow> (int \<times> vuser) call" where
  "u_rnic_advance r u = Some (u_poll u)"

definition u_create_cq :: "(nat option) rnic \<Rightarrow> u32 \<Rightarrow> nat option \<Rightarrow> vuser \<Rightarrow> (int \<times> nat option \<times> vuser) call" where
  "u_create_cq r num_evts _ u =
     (let n = sint num_evts;
          ms = vu_mallocs u;
          m1 = (ms \<noteq> [] \<and> hd ms); m2 = (drop 1 ms \<noteq> [] \<and> hd (drop 1 ms));
          u = u\<lparr>vu_mallocs := drop (if n \<le> 0 then 0 else if m1 then 2 else 1) ms\<rparr>
      in case cq_create m1 (if m2 then Some (vu_junk_cqe u) else None) n of
           None \<Rightarrow> ret (IWARP_INSUFFICIENT_RESOURCES, None, u)
         | Some q \<Rightarrow> ret (IWARP_OK, Some (vu_next_cq u),
                       set_world (set_cq (vu_next_cq u) q (vu_world u)) (u\<lparr>vu_next_cq := vu_next_cq u + 1\<rparr>)))"

text \<open>The memory of the queue is freed; nothing else changes. A later use of the handle is not followed.\<close>

definition u_destroy_cq :: "(nat option) rnic \<Rightarrow> nat option \<Rightarrow> vuser \<Rightarrow> (int \<times> vuser) call" where
  "u_destroy_cq r cq u = (case cq of None \<Rightarrow> crash | Some _ \<Rightarrow> ret (IWARP_OK, u))"

text \<open>
  \<open>fail\<close> is the number of \<open>RDMAP_FAILURE\<close>, which differs between the library and the module. On an unknown
  operation or status the fields set so far stay set.
\<close>

definition wc_convert :: "int \<Rightarrow> cqe \<Rightarrow> iwarp_wc \<Rightarrow> int \<times> iwarp_wc" where
  "wc_convert fail e wc =
     (let ty = (if cqe_op e = OP_RDMA_WRITE then Some WR_TYPE_RDMA_WRITE
                else if cqe_op e = OP_RDMA_READ then Some WR_TYPE_RDMA_READ
                else if cqe_op e = OP_SEND then Some WR_TYPE_SEND
                else if cqe_op e = OP_RECV then Some WR_TYPE_RECV else None)
      in case ty of
           None \<Rightarrow> (IWARP_UNKNOWN_WR_TYPE, wc)
         | Some t \<Rightarrow>
             let wc = wc\<lparr>wc_type := t\<rparr>;
                 st = (if cqe_status e = 0 then Some WR_SUCCESS else if cqe_status e = fail then Some WR_FAILURE else None)
             in case st of
                  None \<Rightarrow> (IWARP_UNKNOWN_STATUS_TYPE, wc)
                | Some x \<Rightarrow> (IWARP_OK, wc\<lparr>wc_status := x, wc_id := cqe_id e, wc_bytes := cqe_msg_len e\<rparr>))"

text \<open>
  One turn of the loop of \<open>v_poll_cq\<close>: a result, with the entry when there is one, or the count of turns and
  the state to go on with. When the turns are used up the loop ends without an entry.
\<close>

definition u_poll_turn :: "nat option \<Rightarrow> int \<Rightarrow> int \<Rightarrow> vuser \<Rightarrow> (int \<times> cqe option \<times> vuser) outcome + int \<times> vuser" where
  "u_poll_turn cq retrys i u =
     (case u_poll u of
        Exit \<Rightarrow> Inl Exit
      | Done (st, u) \<Rightarrow>
          if st \<noteq> 0 then Inl (Done (IWARP_RDMAP_POLL_FAILURE, None, u))
          else case cq of
                 None \<Rightarrow> Inl Exit
               | Some q \<Rightarrow>
                   let (st, e, cq') = cq_consume (cqs (vu_world u) q); u = set_world (set_cq q cq' (vu_world u)) u
                   in if st = 0 then Inl (Done (0, e, u))
                      else if retrys \<noteq> - 1 then
                        (if i + 1 > retrys then Inl (Done (0, None, u)) else Inr (i + 1, u))
                      else Inr (i, u))"

partial_function (option) u_poll_loop :: "nat option \<Rightarrow> int \<Rightarrow> int \<Rightarrow> vuser \<Rightarrow> (int \<times> cqe option \<times> vuser) outcome option" where
  "u_poll_loop cq retrys i u =
     (let r = u_poll_turn cq retrys i u
      in if isl r then Some (projl r) else u_poll_loop cq retrys (fst (projr r)) (snd (projr r)))"

declare u_poll_loop.simps [code]

text \<open>An entry that was not found is what the variable on the stack happens to hold.\<close>

definition u_poll_cq :: "(nat option) rnic \<Rightarrow> nat option \<Rightarrow> int \<Rightarrow> iwarp_wc \<Rightarrow> vuser \<Rightarrow> (int \<times> iwarp_wc \<times> vuser) call" where
  "u_poll_cq r cq retrys wc u =
     bindC (u_poll_loop cq retrys 0 u) (\<lambda>(st, e, u).
       if st \<noteq> 0 then ret (st, wc, u)
       else let (st, wc) = wc_convert (- 1) (case e of Some e \<Rightarrow> e | None \<Rightarrow> vu_junk_cqe u) wc in ret (st, wc, u))"

definition u_poll_block_qp :: "(nat option) rnic \<Rightarrow> nat option \<Rightarrow> int \<Rightarrow> iwarp_wc \<Rightarrow> vuser \<Rightarrow> (int \<times> iwarp_wc \<times> vuser) call" where
  "u_poll_block_qp r cq qp_id wc u = crash"

definition u_throw_away_cqe :: "(nat option) rnic \<Rightarrow> nat option \<Rightarrow> vuser \<Rightarrow> (int \<times> vuser) call" where
  "u_throw_away_cqe r cq u =
     (case cq of
        None \<Rightarrow> crash
      | Some q \<Rightarrow> let (st, _, cq') = cq_consume (cqs (vu_world u) q); u = set_world (set_cq q cq' (vu_world u)) u
                  in ret (if st \<noteq> 0 then IWARP_RWQ_INTERNAL_ERROR else IWARP_OK, u))"

section \<open>Connections and work requests\<close>

definition u_register_connection :: "(nat option) rnic \<Rightarrow> int \<Rightarrow> u8 list \<Rightarrow> u64 \<Rightarrow> int \<Rightarrow> bool \<Rightarrow> vuser \<Rightarrow> (int \<times> vuser) call" where
  "u_register_connection r qp_id pd rpd_buf rpd is_client u =
     elem (rn_qp r) qp_id (\<lambda>q.
     deref (qp_attributes q) (\<lambda>a.
       let fd = of_int (qp_fd q) in
       bindC (lib (rdmap_register_sock fd (sq_cq a) (rq_cq a)) u) (\<lambda>(st, u).
       if st \<noteq> 0 then ret (IWARP_RDMAP_REGISTER_SOCKET_FAILURE, u)
       else bindC (lib (rdmap_mpa_use_markers fd (if disable_mpa_markers a = 0 then 1 else 0)) u) (\<lambda>(st, u).
       if st \<noteq> 0 then ret (IWARP_RDMAP_SET_MARKER_FAILURE, u)
       else bindC (lib (rdmap_mpa_use_crc fd (if disable_mpa_crc a = 0 then 1 else 0)) u) (\<lambda>(st, u).
       if st \<noteq> 0 then ret (IWARP_RDMAP_SET_CRC_FAILURE, u)
       else bindC (lib (rdmap_init_startup fd is_client (Some pd) rpd_buf (of_int rpd)) u) (\<lambda>(st, u).
       if st \<noteq> 0 then ret (IWARP_MPA_INIT_FAILURE, u) else ret (IWARP_OK, u)))))))"

definition u_post_recv :: "(nat option) rnic \<Rightarrow> int \<Rightarrow> u64 \<Rightarrow> u32 \<Rightarrow> u64 \<Rightarrow> stag \<Rightarrow> vuser \<Rightarrow> (int \<times> vuser) call" where
  "u_post_recv r fd buffer len wid local_stag u = lib_err IWARP_RDMAP_POST_RECV_FAILURE (rdmap_post_recv (of_int fd) buffer len wid) u"

definition u_post_send :: "(nat option) rnic \<Rightarrow> int \<Rightarrow> u64 \<Rightarrow> u32 \<Rightarrow> u64 \<Rightarrow> stag \<Rightarrow> vuser \<Rightarrow> (int \<times> vuser) call" where
  "u_post_send r fd buffer len wid local_stag u = lib_err IWARP_RDMAP_POST_SEND_FAILURE (rdmap_send (of_int fd) buffer len wid) u"

definition u_rdma_write :: "(nat option) rnic \<Rightarrow> int \<Rightarrow> stag \<Rightarrow> u64 \<Rightarrow> u64 \<Rightarrow> u32 \<Rightarrow> u64 \<Rightarrow> stag \<Rightarrow> vuser \<Rightarrow> (int \<times> vuser) call" where
  "u_rdma_write r fd remote_stag to buffer len wid local_stag u =
     lib_err IWARP_RDMAP_RDMA_WRITE_FAILURE (rdmap_rdma_write (of_int fd) remote_stag to buffer len wid) u"

definition u_rdma_read :: "(nat option) rnic \<Rightarrow> int \<Rightarrow> stag \<Rightarrow> u64 \<Rightarrow> u32 \<Rightarrow> stag \<Rightarrow> u64 \<Rightarrow> u64 \<Rightarrow> vuser \<Rightarrow> (int \<times> vuser) call" where
  "u_rdma_read r fd local_stag to len remote_stag remote_to wid u =
     lib_err IWARP_RDMAP_RDMA_READ_FAILURE (rdmap_rdma_read (of_int fd) local_stag to len remote_stag remote_to wid) u"

definition u_deregister_sock :: "(nat option) rnic \<Rightarrow> int \<Rightarrow> vuser \<Rightarrow> (int \<times> vuser) call" where
  "u_deregister_sock r fd u = lib_err IWARP_RDMAP_DEREGISTER_SOCKET_FAILURE (rdmap_deregister_sock (of_int fd)) u"

definition user_stubs :: "(nat option, mem_desc, vuser) stubs" where
  "user_stubs = \<lparr>st_RNIC_open = u_RNIC_open, st_rnic_close = u_rnic_close, st_mem_init = u_mem_init, st_rdmap_init = u_rdmap_init,
     st_mem_register = u_mem_register, st_mem_stag_create = u_mem_stag_create, st_mem_stag_destroy = u_mem_stag_destroy,
     st_mem_deregister = u_mem_deregister, st_rnic_advance = u_rnic_advance, st_create_cq = u_create_cq,
     st_destroy_cq = u_destroy_cq, st_poll_cq = u_poll_cq, st_poll_block_qp = u_poll_block_qp,
     st_register_connection = u_register_connection, st_throw_away_cqe = u_throw_away_cqe, st_post_recv = u_post_recv,
     st_post_send = u_post_send, st_rdma_write = u_rdma_write, st_rdma_read = u_rdma_read,
     st_deregister_sock = u_deregister_sock\<rparr>"

end
