(* ===== verification/V_Kernel.thy ===== *)
theory V_Kernel
  imports V_User K_Dev_Inv
begin

text \<open>
  The functions below the verbs in the build for the kernel module (\<open>verbs/stubs.c\<close> with \<open>KERNEL_IWARP\<close>):
  each fills in the structure of a command (\<open>kiwarp/user.h\<close>) and writes it to the device. The state is the
  device, the process, and where in its memory the structures and the variables that results are
  handed out in lie; the bytes between the fields of a structure are what the stack held.
\<close>

section \<open>The layout of the commands\<close>

definition cmd_number :: "k_cmd \<Rightarrow> u32" where
  "cmd_number c =
     (case c of
        RegisterSock _ _ _ \<Rightarrow> IWARP_REGISTER_SOCK | SetSockAttrs _ _ _ \<Rightarrow> IWARP_SET_SOCK_ATTRS
      | InitStartup _ _ _ _ _ _ \<Rightarrow> IWARP_INIT_STARTUP | DeregisterSock _ \<Rightarrow> IWARP_DEREGISTER_SOCK
      | Poll _ _ \<Rightarrow> IWARP_POLL | PollBlock _ _ _ \<Rightarrow> IWARP_POLL_BLOCK | CqCreate _ _ \<Rightarrow> IWARP_CQ_CREATE
      | CqDestroy _ \<Rightarrow> IWARP_CQ_DESTROY | MemReg _ _ _ \<Rightarrow> IWARP_MEM_REG | MemDereg _ \<Rightarrow> IWARP_MEM_DEREG
      | StagCreate _ _ _ _ _ _ \<Rightarrow> IWARP_STAG_CREATE | StagDestroy _ \<Rightarrow> IWARP_STAG_DESTROY
      | Send _ _ _ _ _ \<Rightarrow> IWARP_SEND | PostRecv _ _ _ _ _ \<Rightarrow> IWARP_POST_RECV | RdmaWrite _ _ _ _ _ _ _ \<Rightarrow> IWARP_RDMA_WRITE
      | RdmaRead _ _ _ _ _ _ _ \<Rightarrow> IWARP_RDMA_READ | Encourage \<Rightarrow> IWARP_ENCOURAGE)"

definition cmd_bytes :: "(nat \<Rightarrow> u8) \<Rightarrow> k_cmd \<Rightarrow> u8 list" where
  "cmd_bytes junk c = le32 (cmd_number c) @
     (case c of
        RegisterSock fd sq rq \<Rightarrow> le32 fd @ le64 sq @ le64 rq
      | SetSockAttrs fd crc um \<Rightarrow> le32 fd @ le32 crc @ le32 um
      | InitStartup fd ini pd_in len_in pd_out len_out \<Rightarrow>
          le32 fd @ le32 ini @ map junk [12..<16] @ le64 pd_in @ le16 len_in @ map junk [26..<32] @ le64 pd_out @ le16 len_out
          @ map junk [42..<48]
      | DeregisterSock fd \<Rightarrow> le32 fd
      | Poll h wc \<Rightarrow> map junk [4..<8] @ le64 h @ le64 wc
      | PollBlock fd h wc \<Rightarrow> le32 fd @ le64 h @ le64 wc
      | CqCreate depth out \<Rightarrow> le32 depth @ le64 out
      | CqDestroy h \<Rightarrow> map junk [4..<8] @ le64 h
      | MemReg addr len out \<Rightarrow> map junk [4..<8] @ le64 addr @ le64 len @ le64 out
      | MemDereg md \<Rightarrow> map junk [4..<8] @ le64 md
      | StagCreate md start len rw prot out \<Rightarrow> map junk [4..<8] @ le64 md @ le64 start @ le64 len @ le32 rw @ le32 prot @ le64 out
      | StagDestroy stag \<Rightarrow> le32 stag
      | Send fd i buf len stag \<Rightarrow> le32 fd @ le64 i @ le64 buf @ le32 len @ le32 stag
      | PostRecv fd i buf len stag \<Rightarrow> le32 fd @ le64 i @ le64 buf @ le32 len @ le32 stag
      | RdmaWrite fd i buf len stag sink_stag sink_to \<Rightarrow>
          le32 fd @ le64 i @ le64 buf @ le32 len @ le32 stag @ le32 sink_stag @ map junk [36..<40] @ le64 sink_to
      | RdmaRead fd i sink_stag sink_to len src_stag src_to \<Rightarrow>
          le32 fd @ le64 i @ le32 sink_stag @ le32 sink_to @ le32 len @ le32 src_stag @ le32 src_to @ map junk [36..<40]
      | Encourage \<Rightarrow> [])"

lemma cmd_size_bytes: "c \<noteq> Encourage \<Longrightarrow> cmd_size (cmd_number c) = Some (length (cmd_bytes junk c))"
  by (cases c) (simp_all add: cmd_size_def cmd_number_def cmd_bytes_def iwarp_cmd_defs)

lemma cmd_parse_bytes: "cmd_parse (cmd_number c) (cmd_bytes junk c) = c"
  by (cases c) (simp_all add: cmd_parse_def cmd_number_def cmd_bytes_def iwarp_cmd_defs fld16_def fld32_def fld64_def)

section \<open>The process\<close>

record vkern =
  vk_dev :: kdev
  vk_tgid :: int
  vk_stack :: u64
  vk_var :: u64
  vk_kwc :: u64
  vk_heap :: "u64 option list"
  vk_junk :: "nat \<Rightarrow> u8"
  vk_fd :: int

definition vk_world :: "vkern \<Rightarrow> kworld" where
  "vk_world v = (kd_world (vk_dev v))\<lparr>k_pt := kd_pt (vk_dev v) (vk_tgid v)\<rparr>"

definition user_store :: "u64 \<Rightarrow> u8 list \<Rightarrow> vkern \<Rightarrow> vkern call" where
  "user_store a bs v =
     (let (ok, w) = copy_to_user a bs (vk_world v)
      in if ok then ret (v\<lparr>vk_dev := (vk_dev v)\<lparr>kd_world := w\<rparr>\<rparr>) else crash)"

definition user_load :: "u64 \<Rightarrow> nat \<Rightarrow> vkern \<Rightarrow> u8 list call" where
  "user_load a n v = (case copy_from_user a n (vk_world v) of None \<Rightarrow> crash | Some bs \<Rightarrow> ret bs)"

definition k_dev :: "dev_call \<Rightarrow> vkern \<Rightarrow> (int \<times> vkern) call" where
  "k_dev c v = bindC (dev_call_run c (vk_dev v)) (\<lambda>(r, d). ret (r, v\<lparr>vk_dev := d\<rparr>))"

text \<open>The structure is filled in and written; whether the write returned its size.\<close>

definition k_write :: "k_cmd \<Rightarrow> vkern \<Rightarrow> (bool \<times> vkern) call" where
  "k_write c v =
     (let bs = cmd_bytes (vk_junk v) c in
      bindC (user_store (vk_stack v) bs v) (\<lambda>v.
      bindC (k_dev (DevWrite (vk_tgid v) (vk_stack v) (length bs)) v) (\<lambda>(r, v).
        ret (r = int (length bs), v))))"

definition k_cmd_status :: "k_cmd \<Rightarrow> vkern \<Rightarrow> (int \<times> vkern) call" where
  "k_cmd_status c v = bindC (k_write c v) (\<lambda>(ok, v). ret (if ok then IWARP_OK else - 1, v))"

text \<open>A command that hands a result out into a variable, which holds \<open>old\<close> before.\<close>

definition k_cmd_out :: "(u64 \<Rightarrow> k_cmd) \<Rightarrow> u8 list \<Rightarrow> vkern \<Rightarrow> (int \<times> u8 list \<times> vkern) call" where
  "k_cmd_out c old v =
     bindC (user_store (vk_var v) old v) (\<lambda>v.
     bindC (k_cmd_status (c (vk_var v)) v) (\<lambda>(st, v).
     bindC (user_load (vk_var v) (length old) v) (\<lambda>bs. ret (st, bs, v))))"

section \<open>Start and end\<close>

definition kv_RNIC_open :: "int \<Rightarrow> u64 rnic \<Rightarrow> vkern \<Rightarrow> (int \<times> u64 rnic \<times> vkern) call" where
  "kv_RNIC_open index r v =
     bindC (k_dev (DevOpen (vk_tgid v)) v) (\<lambda>(st, v).
       let fd = (if st < 0 then - 1 else vk_fd v)
       in if fd < 0 then ret (fd, r, v) else ret (IWARP_OK, r\<lparr>rn_fd := fd\<rparr>, v))"

text \<open>\<open>close\<close> does not return what the release of the device returns.\<close>

definition kv_rnic_close :: "u64 rnic \<Rightarrow> vkern \<Rightarrow> (int \<times> vkern) call" where
  "kv_rnic_close r v =
     (if find (\<lambda>u. uc_tgid u = vk_tgid v) (kd_list (vk_dev v)) = None then ret (IWARP_RNIC_CLOSE_FAILURE, v)
      else bindC (k_dev (DevRelease (vk_tgid v)) v) (\<lambda>(_, v). ret (IWARP_OK, v)))"

definition kv_init :: "vkern \<Rightarrow> (int \<times> vkern) call" where
  "kv_init v = ret (IWARP_OK, v)"

section \<open>Memory and completion queues\<close>

definition kv_mem_register :: "u64 rnic \<Rightarrow> u64 \<Rightarrow> u32 \<Rightarrow> u64 \<Rightarrow> vkern \<Rightarrow> (int \<times> u64 \<times> vkern) call" where
  "kv_mem_register r buffer len md v =
     bindC (k_cmd_out (\<lambda>out. MemReg buffer (ucast len) out) (le64 md) v) (\<lambda>(st, bs, v). ret (st, of_le bs, v))"

definition kv_mem_stag_create :: "u64 rnic \<Rightarrow> u64 \<Rightarrow> u64 \<Rightarrow> u32 \<Rightarrow> u32 \<Rightarrow> int \<Rightarrow> stag \<Rightarrow> vkern \<Rightarrow> (int \<times> stag \<times> vkern) call" where
  "kv_mem_stag_create r md start len access pd stag v =
     bindC (k_cmd_out (\<lambda>out. StagCreate md start (ucast len) access (of_int pd) out) (le32 stag) v) (\<lambda>(st, bs, v).
       ret (st, of_le bs, v))"

definition kv_mem_stag_destroy :: "u64 rnic \<Rightarrow> stag \<Rightarrow> vkern \<Rightarrow> (int \<times> vkern) call" where
  "kv_mem_stag_destroy r stag v = k_cmd_status (StagDestroy stag) v"

definition kv_mem_deregister :: "u64 rnic \<Rightarrow> u64 \<Rightarrow> vkern \<Rightarrow> (int \<times> vkern) call" where
  "kv_mem_deregister r md v = k_cmd_status (MemDereg md) v"

definition kv_rnic_advance :: "u64 rnic \<Rightarrow> vkern \<Rightarrow> (int \<times> vkern) call" where
  "kv_rnic_advance r v = k_cmd_status Encourage v"

definition kv_create_cq :: "u64 rnic \<Rightarrow> u32 \<Rightarrow> u64 \<Rightarrow> vkern \<Rightarrow> (int \<times> u64 \<times> vkern) call" where
  "kv_create_cq r num_evts cq v =
     bindC (k_cmd_out (\<lambda>out. CqCreate num_evts out) (le64 cq) v) (\<lambda>(st, bs, v). ret (st, of_le bs, v))"

definition kv_destroy_cq :: "u64 rnic \<Rightarrow> u64 \<Rightarrow> vkern \<Rightarrow> (int \<times> vkern) call" where
  "kv_destroy_cq r cq v = k_cmd_status (CqDestroy cq) v"

text \<open>One turn of the loop of \<open>v_poll_cq\<close>, and the loop; whether an entry came is not kept.\<close>

definition k_poll_turn :: "u64 \<Rightarrow> int \<Rightarrow> int \<Rightarrow> vkern \<Rightarrow> (vkern outcome + int \<times> vkern) option" where
  "k_poll_turn cq retrys i v =
     map_option (\<lambda>m. case m of
          Exit \<Rightarrow> Inl Exit
        | Done (ok, v) \<Rightarrow>
            if ok then Inl (Done v)
            else if retrys \<noteq> - 1 then (if i + 1 > retrys then Inl (Done v) else Inr (i + 1, v))
            else Inr (i, v)) (k_write (Poll cq (vk_kwc v)) v)"

partial_function (option) k_poll_loop :: "u64 \<Rightarrow> int \<Rightarrow> int \<Rightarrow> vkern \<Rightarrow> vkern outcome option" where
  "k_poll_loop cq retrys i v =
     Option.bind (k_poll_turn cq retrys i v) (\<lambda>r.
       if isl r then Some (projl r) else k_poll_loop cq retrys (fst (projr r)) (snd (projr r)))"

declare k_poll_loop.simps [code]

text \<open>The structure \<open>kwc\<close> of the caller, as the bytes at its address are.\<close>

definition kwc_load :: "vkern \<Rightarrow> cqe call" where
  "kwc_load v = bindC (user_load (vk_kwc v) 24 v) (\<lambda>bs.
     ret \<lparr>cqe_op = sint (fld32 bs 8), cqe_status = sint (fld32 bs 12), cqe_id = fld64 bs 0, cqe_msg_len = fld32 bs 16\<rparr>)"

definition kv_poll_cq :: "u64 rnic \<Rightarrow> u64 \<Rightarrow> int \<Rightarrow> iwarp_wc \<Rightarrow> vkern \<Rightarrow> (int \<times> iwarp_wc \<times> vkern) call" where
  "kv_poll_cq r cq retrys wc v =
     bindC (k_poll_loop cq retrys 0 v) (\<lambda>v.
     bindC (kwc_load v) (\<lambda>e. let (st, wc) = wc_convert 1 e wc in ret (st, wc, v)))"

text \<open>A write that fails ends the process.\<close>

definition kv_poll_block_qp :: "u64 rnic \<Rightarrow> u64 \<Rightarrow> int \<Rightarrow> iwarp_wc \<Rightarrow> vkern \<Rightarrow> (int \<times> iwarp_wc \<times> vkern) call" where
  "kv_poll_block_qp r cq qp_id wc v =
     elem (rn_qp r) qp_id (\<lambda>q.
     bindC (k_write (PollBlock (of_int (qp_fd q)) cq (vk_kwc v)) v) (\<lambda>(ok, v).
       if \<not> ok then crash
       else bindC (kwc_load v) (\<lambda>e. let (st, wc) = wc_convert 1 e wc in ret (st, wc, v))))"

definition kv_throw_away_cqe :: "u64 rnic \<Rightarrow> u64 \<Rightarrow> vkern \<Rightarrow> (int \<times> vkern) call" where
  "kv_throw_away_cqe r cq v =
     bindC (kv_poll_cq r cq 1 \<lparr>wc_id = 0, wc_type = 0, wc_status = 0, wc_bytes = 0\<rparr> v) (\<lambda>(st, _, v). ret (st, v))"

section \<open>Connections and work requests\<close>

text \<open>
  The private data is copied into a block of exactly its length: its terminator lands in the byte after the block.
\<close>

definition kv_register_connection :: "u64 rnic \<Rightarrow> int \<Rightarrow> u8 list \<Rightarrow> u64 \<Rightarrow> int \<Rightarrow> bool \<Rightarrow> vkern \<Rightarrow> (int \<times> vkern) call" where
  "kv_register_connection r qp_id pd rpd_buf rpd is_client v =
     (case vk_heap v of
        Some temp # as \<Rightarrow>
          bindC (user_store temp (pd @ [0]) (v\<lparr>vk_heap := as\<rparr>)) (\<lambda>v.
          elem (rn_qp r) qp_id (\<lambda>q.
          deref (qp_attributes q) (\<lambda>a.
            let fd = of_int (qp_fd q) in
            bindC (k_write (RegisterSock fd (sq_cq a) (rq_cq a)) v) (\<lambda>(ok, v).
            if \<not> ok then ret (- 1, v)
            else bindC (k_write (SetSockAttrs fd (if disable_mpa_crc a = 0 then 1 else 0)
                                  (if disable_mpa_markers a = 0 then 1 else 0)) v) (\<lambda>(ok, v).
            if \<not> ok then ret (- 1, v)
            else k_cmd_status (InitStartup fd (if is_client then 1 else 0) temp (of_nat (length pd)) rpd_buf (of_int rpd)) v)))))
      | _ \<Rightarrow> crash)"

definition kv_post_recv :: "u64 rnic \<Rightarrow> int \<Rightarrow> u64 \<Rightarrow> u32 \<Rightarrow> u64 \<Rightarrow> stag \<Rightarrow> vkern \<Rightarrow> (int \<times> vkern) call" where
  "kv_post_recv r fd buffer len wid local_stag v = k_cmd_status (PostRecv (of_int fd) wid buffer len local_stag) v"

definition kv_post_send :: "u64 rnic \<Rightarrow> int \<Rightarrow> u64 \<Rightarrow> u32 \<Rightarrow> u64 \<Rightarrow> stag \<Rightarrow> vkern \<Rightarrow> (int \<times> vkern) call" where
  "kv_post_send r fd buffer len wid local_stag v = k_cmd_status (Send (of_int fd) wid buffer len local_stag) v"

definition kv_rdma_write :: "u64 rnic \<Rightarrow> int \<Rightarrow> stag \<Rightarrow> u64 \<Rightarrow> u64 \<Rightarrow> u32 \<Rightarrow> u64 \<Rightarrow> stag \<Rightarrow> vkern \<Rightarrow> (int \<times> vkern) call" where
  "kv_rdma_write r fd remote_stag to buffer len wid local_stag v =
     k_cmd_status (RdmaWrite (of_int fd) wid buffer len local_stag remote_stag to) v"

definition kv_rdma_read :: "u64 rnic \<Rightarrow> int \<Rightarrow> stag \<Rightarrow> u64 \<Rightarrow> u32 \<Rightarrow> stag \<Rightarrow> u64 \<Rightarrow> u64 \<Rightarrow> vkern \<Rightarrow> (int \<times> vkern) call" where
  "kv_rdma_read r fd local_stag to len remote_stag remote_to wid v =
     k_cmd_status (RdmaRead (of_int fd) wid local_stag (ucast to) len remote_stag (ucast remote_to)) v"

definition kv_deregister_sock :: "u64 rnic \<Rightarrow> int \<Rightarrow> vkern \<Rightarrow> (int \<times> vkern) call" where
  "kv_deregister_sock r fd v = k_cmd_status (DeregisterSock (of_int fd)) v"

definition kernel_stubs :: "(u64, u64, vkern) stubs" where
  "kernel_stubs = \<lparr>st_RNIC_open = kv_RNIC_open, st_rnic_close = kv_rnic_close, st_mem_init = kv_init, st_rdmap_init = kv_init,
     st_mem_register = kv_mem_register, st_mem_stag_create = kv_mem_stag_create, st_mem_stag_destroy = kv_mem_stag_destroy,
     st_mem_deregister = kv_mem_deregister, st_rnic_advance = kv_rnic_advance, st_create_cq = kv_create_cq,
     st_destroy_cq = kv_destroy_cq, st_poll_cq = kv_poll_cq, st_poll_block_qp = kv_poll_block_qp,
     st_register_connection = kv_register_connection, st_throw_away_cqe = kv_throw_away_cqe, st_post_recv = kv_post_recv,
     st_post_send = kv_post_send, st_rdma_write = kv_rdma_write, st_rdma_read = kv_rdma_read,
     st_deregister_sock = kv_deregister_sock\<rparr>"

end
