(* ===== verification/V_Kernel_Props.thy ===== *)
theory V_Kernel_Props
  imports V_Kernel
begin

text \<open>
  What a command of the verbs does to the device: the structure a stub fills in is the one the module reads, so that
  writing it is running the command with the arguments of the stub.
\<close>

section \<open>Memory of the process\<close>

text \<open>The bytes from \<open>a\<close> on are mapped, each to a place of its own.\<close>

definition places_at :: "(u64 \<Rightarrow> nat option) \<Rightarrow> u64 \<Rightarrow> (nat \<times> nat) list \<Rightarrow> bool" where
  "places_at pt a xs \<longleftrightarrow> map (\<lambda>i. user_place pt (a + of_nat i)) [0..<length xs] = map Some xs"

lemma places_at_Cons: "places_at pt a (x # xs) \<longleftrightarrow> user_place pt a = Some x \<and> places_at pt (a + 1) xs"
proof -
  have "map (\<lambda>i. user_place pt (a + of_nat i)) [0..<Suc (length xs)]
    = user_place pt a # map (\<lambda>i. user_place pt (a + 1 + of_nat i)) [0..<length xs]"
    by (simp add: upt_conv_Cons map_Suc_upt [symmetric] add.assoc o_def del: upt_Suc map_Suc_upt)
  then show ?thesis by (simp add: places_at_def del: upt_Suc)
qed

lemma places_at_Nil [simp]: "places_at pt a []"
  by (simp add: places_at_def)

lemma places_at_take: "places_at pt a xs \<Longrightarrow> places_at pt a (take n xs)"
  by (induction xs arbitrary: a n) (auto simp: places_at_Cons take_Cons split: nat.splits)

definition store_at :: "(nat \<times> nat) list \<Rightarrow> u8 list \<Rightarrow> kworld \<Rightarrow> kworld" where
  "store_at xs bs w = w\<lparr>k_frames := (\<lambda>pg off. case map_of (zip xs bs) (pg, off) of Some b \<Rightarrow> b | None \<Rightarrow> k_frames w pg off)\<rparr>"

lemma copy_to_places:
  "places_at (k_pt w) a xs \<Longrightarrow> distinct xs \<Longrightarrow> length bs = length xs \<Longrightarrow> copy_to_user a bs w = (True, store_at xs bs w)"
proof (induction xs arbitrary: a bs w)
  case (Cons x xs)
  obtain b bs' where bs: "bs = b # bs'" using Cons(4) by (cases bs) simp_all
  obtain pg off where x: "x = (pg, off)" by (cases x)
  have p: "user_place (k_pt w) a = Some (pg, off)" "places_at (k_pt w) (a + 1) xs"
    using Cons(2) x by (simp_all add: places_at_Cons)
  have "copy_to_user (a + 1) bs' (set_frame pg off b w) = (True, store_at xs bs' (set_frame pg off b w))"
    using Cons(3,4) p(2) bs by (intro Cons(1)) (simp_all add: set_frame_def)
  moreover have "map_of (zip xs bs') (pg, off) = None"
    using Cons(3) x by (auto simp: map_of_eq_None_iff dest: set_zip_leftD)
  then have "(\<lambda>p q. case map_of (zip xs bs') (p, q) of Some b \<Rightarrow> b | None \<Rightarrow> ((k_frames w)(pg := (k_frames w pg)(off := b))) p q)
      = (\<lambda>p q. case map_of (zip (x # xs) bs) (p, q) of Some b \<Rightarrow> b | None \<Rightarrow> k_frames w p q)"
    by (intro ext) (auto simp: bs x split: option.splits)
  then have "store_at xs bs' (set_frame pg off b w) = store_at (x # xs) bs w"
    by (simp add: store_at_def set_frame_def del: fun_upd_apply cong: option.case_cong)
  ultimately show ?case using p(1) bs by simp
qed (simp add: store_at_def)

lemma copy_from_places:
  "places_at (k_pt w) a xs \<Longrightarrow> copy_from_user a (length xs) w = Some (map (\<lambda>(pg, off). k_frames w pg off) xs)"
  by (induction xs arbitrary: a) (auto simp: places_at_Cons)

lemma store_at_reads: "distinct xs \<Longrightarrow> length bs = length xs \<Longrightarrow> map (\<lambda>(pg, off). k_frames (store_at xs bs w) pg off) xs = bs"
  by (rule nth_equalityI) (auto simp: store_at_def map_of_zip_nth case_prod_unfold simp flip: surjective_pairing)

lemma store_at_same [simp]: "k_pt (store_at xs bs w) = k_pt w" "k_uc (store_at xs bs w) = k_uc w"
  by (simp_all add: store_at_def)

text \<open>A store by the process.\<close>

definition stored :: "u64 \<Rightarrow> (nat \<times> nat) list \<Rightarrow> u8 list \<Rightarrow> vkern \<Rightarrow> vkern" where
  "stored a xs bs v = v\<lparr>vk_dev := (vk_dev v)\<lparr>kd_world := store_at xs bs (vk_world v)\<rparr>\<rparr>"

lemma user_store_places:
  "places_at (kd_pt (vk_dev v) (vk_tgid v)) a xs \<Longrightarrow> distinct xs \<Longrightarrow> length bs = length xs \<Longrightarrow> user_store a bs v = ret (stored a xs bs v)"
  by (simp add: user_store_def stored_def copy_to_places vk_world_def)

section \<open>Commands\<close>

lemma cmd_number_head: "take 4 (cmd_bytes junk c) = le32 (cmd_number c)" "4 \<le> length (cmd_bytes junk c)"
  by (simp_all add: cmd_bytes_def)

lemma cmd_number_encourage: "cmd_number c = IWARP_ENCOURAGE \<longleftrightarrow> c = Encourage"
  by (cases c) (simp_all add: cmd_number_def iwarp_cmd_defs)

text \<open>The command in memory is the command the module runs.\<close>

lemma iwarp_write_cmd:
  assumes "places_at (k_pt w) a xs" "length xs = length (cmd_bytes junk c)" "map (\<lambda>(pg, off). k_frames w pg off) xs = cmd_bytes junk c"
  shows "iwarp_write a (length xs) w = map_option (\<lambda>m. bindO m (\<lambda>(st, w). Done (if st = 0 then int (length xs) else st, w))) (k_cmd_run c w)"
proof -
  have all: "copy_from_user a (length xs) w = Some (cmd_bytes junk c)"
    using copy_from_places [OF assms(1)] assms(3) by simp
  have len: "length (take 4 xs) = 4" using assms(2) cmd_number_head(2) [of junk c] by simp
  have "copy_from_user a 4 w = Some (le32 (cmd_number c))"
    using copy_from_places [OF places_at_take [OF assms(1)], of 4] assms(3) cmd_number_head(1) [of junk c]
    by (simp only: len take_map [symmetric])
  moreover have "\<not> length xs < 4" using assms(2) cmd_number_head(2) [of junk c] by simp
  moreover have "length (cmd_bytes junk c) < 64" by (cases c) (simp_all add: cmd_bytes_def)
  then have "c_int (int (length (cmd_bytes junk c))) = int (length (cmd_bytes junk c))" by (intro c_int_id) simp_all
  ultimately show ?thesis
    using all cmd_size_bytes [of c junk] unfolding assms(2)
    by (cases "c = Encourage") (auto simp: iwarp_write_def cmd_number_encourage cmd_parse_bytes Let_def cong: if_cong)
qed

lemma find_stored: "kd_list (vk_dev (stored a xs bs v)) = kd_list (vk_dev v)" "kd_pt (vk_dev (stored a xs bs v)) = kd_pt (vk_dev v)"
    "kd_fds (vk_dev (stored a xs bs v)) = kd_fds (vk_dev v)"
    "vk_tgid (stored a xs bs v) = vk_tgid v" "vk_stack (stored a xs bs v) = vk_stack v"
    "kd_world (vk_dev (stored a xs bs v)) = store_at xs bs (vk_world v)"
  by (simp_all add: stored_def)

lemma k_write_eq:
  assumes "find (\<lambda>u. uc_tgid u = vk_tgid v) (kd_list (vk_dev v)) = Some u"
    and "places_at (kd_pt (vk_dev v) (vk_tgid v)) (vk_stack v) xs" "distinct xs" "length xs = length (cmd_bytes (vk_junk v) c)"
    and "v' = stored (vk_stack v) xs (cmd_bytes (vk_junk v) c) v"
  shows "k_write c v = bindC (k_cmd_run c (dev_enter (vk_tgid v) u (vk_dev v'))) (\<lambda>(st, w).
      ret (st = 0 \<or> st = int (length xs), v'\<lparr>vk_dev := dev_leave w (vk_dev v')\<rparr>))"
proof -
  let ?w = "dev_enter (vk_tgid v) u (vk_dev v')"
  have st: "user_store (vk_stack v) (cmd_bytes (vk_junk v) c) v = ret v'"
    using user_store_places [OF assms(2,3)] assms(4,5) by simp
  have w: "places_at (k_pt ?w) (vk_stack v) xs" "map (\<lambda>(pg, off). k_frames ?w pg off) xs = cmd_bytes (vk_junk v) c"
    using assms(2-5) store_at_reads [of xs "cmd_bytes (vk_junk v) c" "vk_world v"] by (simp_all add: dev_enter_def find_stored)
  have "dev_call_run (DevWrite (vk_tgid v) (vk_stack v) (length xs)) (vk_dev v') = bindC (k_cmd_run c ?w) (\<lambda>(st, w).
      ret (if st = 0 then int (length xs) else st, dev_leave w (vk_dev v')))"
    using iwarp_write_cmd [OF w(1) assms(4) w(2)] assms(1,5)
    by (auto simp: dev_call_run_def find_stored bindC_def split: option.splits outcome.splits)
  note run = this
  have "k_write c v = bindC (k_dev (DevWrite (vk_tgid v) (vk_stack v) (length xs)) v') (\<lambda>(r, v). ret (r = int (length xs), v))"
    using st by (simp add: k_write_def Let_def assms(4,5) find_stored)
  moreover have "((if st = 0 then m else st) = m) = (st = 0 \<or> st = m)" for st m :: int by auto
  ultimately show ?thesis by (simp add: k_dev_def run bindC_assoc case_prod_unfold)
qed

lemma dev_inv_stored: "dev_inv hash n B (vk_dev v) \<Longrightarrow> dev_inv hash n B (vk_dev (stored a xs bs v))"
  by (simp add: dev_inv_def find_stored regs_all_def store_at_def vk_world_def)

end
