(* ===== verification/V_Books.thy ===== *)
theory V_Books
  imports V_Kernel
begin

text \<open>
  Runs of verbs over any functions below that leave the adapter to the verbs, in particular over those of the two
  builds: what holds of the adapter in every state they reach.
\<close>

section \<open>Runs\<close>

datatype ('c, 'm) verb =
    VOpen int int | VQuery | VClose | VAdvance
  | VPdAllocate | VPdDeallocate int
  | VRegister int u64 u32 int u32 stag 'm | VDeallocStag stag | VDeregister int 'm
  | VCqCreate bool u32 'c | VCqDestroy 'c | VCqPoll 'c int iwarp_wc | VCqPollBlock 'c int iwarp_wc
  | VQpCreate "'c qp_attrs" | VQpDestroy int
  | VPassive int "u8 list" u64 int | VActive int int "u8 list" u64 int | VDisconnect int
  | VPostRq int iwarp_wr | VPostSq int iwarp_wr

text \<open>The values a verb hands out do not matter here.\<close>

definition first_of3 :: "(int \<times> 'x \<times> 's) call \<Rightarrow> (int \<times> 's) call" where
  "first_of3 m = bindC m (\<lambda>(st, _, s). ret (st, s))"

definition verb_run :: "('c, 'm, 'w) stubs \<Rightarrow> ('c, 'm) verb \<Rightarrow> ('c, 'w) verbs \<Rightarrow> (int \<times> ('c, 'w) verbs) call" where
  "verb_run B v s =
     (case v of
        VOpen index mode \<Rightarrow> iwarp_rnic_open B index mode s
      | VQuery \<Rightarrow> first_of3 (iwarp_rnic_query s)
      | VClose \<Rightarrow> iwarp_rnic_close B s
      | VAdvance \<Rightarrow> iwarp_rnic_advance B s
      | VPdAllocate \<Rightarrow> first_of3 (iwarp_pd_allocate s)
      | VPdDeallocate i \<Rightarrow> iwarp_pd_deallocate i s
      | VRegister t buffer len pd access stag md \<Rightarrow>
          bindC (iwarp_nsmr_register B t buffer len pd access stag md s) (\<lambda>(st, _, _, s). ret (st, s))
      | VDeallocStag stag \<Rightarrow> iwarp_deallocate_stag B stag s
      | VDeregister pd md \<Rightarrow> iwarp_deregister_mem B pd md s
      | VCqCreate h n cq \<Rightarrow> first_of3 (iwarp_cq_create B h n cq s)
      | VCqDestroy cq \<Rightarrow> iwarp_cq_destroy B cq s
      | VCqPoll cq retrys wc \<Rightarrow> first_of3 (iwarp_cq_poll B cq retrys wc s)
      | VCqPollBlock cq qp wc \<Rightarrow> first_of3 (iwarp_cq_poll_block B cq qp wc s)
      | VQpCreate a \<Rightarrow> first_of3 (iwarp_qp_create a s)
      | VQpDestroy i \<Rightarrow> iwarp_qp_destroy i s
      | VPassive i pd b n \<Rightarrow> iwarp_qp_passive_connect B i pd b n s
      | VActive retrys i pd b n \<Rightarrow> iwarp_qp_active_connect B retrys i pd b n s
      | VDisconnect i \<Rightarrow> iwarp_qp_disconnect B i s
      | VPostRq i wr \<Rightarrow> iwarp_qp_post_rq B i wr s
      | VPostSq i wr \<Rightarrow> iwarp_qp_post_sq B i wr s)"

fun verbs_run :: "('c, 'm, 'w) stubs \<Rightarrow> ('c, 'm) verb list \<Rightarrow> ('c, 'w) verbs \<Rightarrow> (int list \<times> ('c, 'w) verbs) call" where
  "verbs_run B [] s = ret ([], s)"
| "verbs_run B (v # vs) s = bindC (verb_run B v s) (\<lambda>(st, s). bindC (verbs_run B vs s) (\<lambda>(sts, s). ret (st # sts, s)))"

section \<open>The invariant\<close>

definition rnic_shape :: "'c rnic \<Rightarrow> bool" where
  "rnic_shape r \<longleftrightarrow> length (rn_qp r) = MAX_QP \<and> length (rn_pd r) = MAX_PROT_DOMAIN \<and> length (rn_queue r) = MAX_WRQ"

definition attrs_ok :: "'c qp_attrs \<Rightarrow> bool" where
  "attrs_ok a \<longleftrightarrow> sq_depth a \<le> of_nat MAX_WRQ \<and> rq_depth a \<le> of_nat MAX_WRQ \<and> rdma_r_enable a \<in> {0, 1} \<and> rdma_w_enable a \<in> {0, 1}
     \<and> bind_mem_window_enable a \<noteq> 1 \<and> zero_stag_enable a \<noteq> 1
     \<and> send_sgl_max a \<le> MAX_S_SGL \<and> rdma_w_sgl_max a \<le> MAX_RDMA_W_SGL \<and> recv_sgl_max a \<le> MAX_R_SGL
     \<and> qp_ord a \<le> MAX_ORD \<and> qp_ird a \<le> MAX_IRD \<and> 0 \<le> prot_d_id a \<and> prot_d_id a < int MAX_PROT_DOMAIN"

definition qp_ok :: "'c iwarp_qp \<Rightarrow> bool" where
  "qp_ok q \<longleftrightarrow> qp_available q = 1 \<or>
     qp_available q = 0 \<and> qp_connected q \<in> {0, 1} \<and> (\<exists>a. qp_attributes q = Ptr a \<and> attrs_ok a)"

definition wr_queued :: "iwarp_wr \<Rightarrow> bool" where
  "wr_queued wr \<longleftrightarrow> (\<exists>l. wr_sgl wr = Ptr l \<and> unat (sge_count l) \<le> length (sgl_sge l))"

definition rnic_ok :: "'c rnic \<Rightarrow> bool" where
  "rnic_ok r \<longleftrightarrow> rnic_shape r \<and> (\<forall>q\<in>set (rn_qp r). qp_ok q) \<and> (\<forall>p\<in>set (rn_pd r). pd_available p \<in> {0, 1})
     \<and> 0 \<le> rn_size r \<and> rn_size r \<le> int MAX_WRQ \<and> (\<forall>i<nat (rn_size r). wr_queued (rn_queue r ! i))"

definition verbs_inv :: "('c, 'w) verbs \<Rightarrow> bool" where
  "verbs_inv s \<longleftrightarrow> rnic_shape (vs_junk s) \<and> (\<forall>r. vs_rnic s = Ptr r \<longrightarrow> rnic_ok r)"

abbreviation ok_post :: "int \<times> ('c, 'w) verbs \<Rightarrow> bool" where
  "ok_post \<equiv> \<lambda>(st, s). verbs_inv s"

abbreviation ok_post3 :: "int \<times> 'x \<times> ('c, 'w) verbs \<Rightarrow> bool" where
  "ok_post3 \<equiv> \<lambda>(st, x, s). verbs_inv s"

lemma verbs_inv_fields [simp]:
  "verbs_inv (s\<lparr>vs_low := w\<rparr>) = verbs_inv s" "verbs_inv (s\<lparr>vs_mallocs := ms\<rparr>) = verbs_inv s" "verbs_inv (s\<lparr>vs_sys := as\<rparr>) = verbs_inv s"
  "verbs_inv (s\<lparr>vs_rnic := Wild\<rparr>) = rnic_shape (vs_junk s)"
  by (simp_all add: verbs_inv_def)

lemma verbs_inv_set [simp]: "verbs_inv (set_rnic r s) \<longleftrightarrow> rnic_shape (vs_junk s) \<and> rnic_ok r"
  by (simp add: verbs_inv_def set_rnic_def)

lemma verbs_inv_D: "verbs_inv s \<Longrightarrow> vs_rnic s = Ptr r \<Longrightarrow> rnic_ok r" "verbs_inv s \<Longrightarrow> rnic_shape (vs_junk s)"
  by (simp_all add: verbs_inv_def)

text \<open>What the helpers leave as it is.\<close>

lemma vmalloc_same: "vmalloc s = (m, s') \<Longrightarrow> verbs_inv s' = verbs_inv s \<and> vs_rnic s' = vs_rnic s \<and> vs_junk s' = vs_junk s \<and> vs_low s' = vs_low s"
  by (auto simp: vmalloc_def split: list.splits)

lemma vsys_same: "vsys s = (a, s') \<Longrightarrow> verbs_inv s' = verbs_inv s \<and> vs_rnic s' = vs_rnic s \<and> vs_junk s' = vs_junk s \<and> vs_low s' = vs_low s"
  by (auto simp: vsys_def split: list.splits)

lemma low_same: "low f s = ret (st, s') \<Longrightarrow> verbs_inv s' = verbs_inv s \<and> vs_rnic s' = vs_rnic s \<and> vs_junk s' = vs_junk s"
  by (auto simp: low_def outcome_simps)

lemma low_out_same: "low_out f s = ret (st, x, s') \<Longrightarrow> verbs_inv s' = verbs_inv s \<and> vs_rnic s' = vs_rnic s \<and> vs_junk s' = vs_junk s"
  by (auto simp: low_out_def outcome_simps)

lemmas same_rules = vmalloc_same vsys_same low_same low_out_same

text \<open>Changes of one element.\<close>

lemma rnic_ok_set_qp: "rnic_ok r \<Longrightarrow> qp_ok q \<Longrightarrow> rnic_ok (set_qp i q r)"
  by (auto simp: rnic_ok_def rnic_shape_def set_qp_def dest: set_update_subset_insert [THEN subsetD])

lemma rnic_ok_set_pd: "rnic_ok r \<Longrightarrow> pd_available p \<in> {0, 1} \<Longrightarrow> rnic_ok (set_pd i p r)"
  by (auto simp: rnic_ok_def rnic_shape_def set_pd_def dest: set_update_subset_insert [THEN subsetD])

lemma rnic_ok_pd: "rnic_ok r \<Longrightarrow> 0 \<le> i \<Longrightarrow> i < int (length (rn_pd r)) \<Longrightarrow> pd_available (rn_pd r ! nat i) \<in> {0, 1}"
  by (simp add: rnic_ok_def)

lemma rnic_ok_qp: "rnic_ok r \<Longrightarrow> 0 \<le> i \<Longrightarrow> i < int (length (rn_qp r)) \<Longrightarrow> qp_ok (rn_qp r ! nat i)"
  by (simp add: rnic_ok_def)

lemma rnic_ok_pd_use [intro]:
  "rnic_ok r \<Longrightarrow> 0 \<le> i \<Longrightarrow> i < int (length (rn_pd r)) \<Longrightarrow> rnic_ok (set_pd i ((rn_pd r ! nat i)\<lparr>pd_in_use := k\<rparr>) r)"
  by (rule rnic_ok_set_pd) (use rnic_ok_pd [of r i] in auto)

lemma rnic_ok_qp_upd [intro]:
  assumes "rnic_ok r" "0 \<le> i" "i < int (length (rn_qp r))"
  shows "rnic_ok (set_qp i ((rn_qp r ! nat i)\<lparr>qp_fd := fd\<rparr>) r)" "rnic_ok (set_qp i ((rn_qp r ! nat i)\<lparr>qp_connected := 0\<rparr>) r)"
    "rnic_ok (set_qp i ((rn_qp r ! nat i)\<lparr>qp_connected := 1\<rparr>) r)"
  using rnic_ok_qp [OF assms] assms(1) by (auto intro!: rnic_ok_set_qp simp: qp_ok_def)

lemma okC_rnic:
  "verbs_inv s \<Longrightarrow> (\<And>r. vs_rnic s = Ptr r \<Longrightarrow> rnic_ok r \<Longrightarrow> rnic_shape (vs_junk s) \<Longrightarrow> okC P (f r)) \<Longrightarrow> okC P (deref (vs_rnic s) f)"
  by (cases "vs_rnic s") (simp_all add: verbs_inv_def okC_intros)

section \<open>Every verb keeps it\<close>

lemma first_of3_ok: "okC ok_post3 m \<Longrightarrow> okC ok_post (first_of3 m)"
  by (auto simp: first_of3_def okC_def outcome_simps)

lemma iwarp_rnic_query_inv: "verbs_inv s \<Longrightarrow> okC ok_post3 (iwarp_rnic_query s)"
  unfolding iwarp_rnic_query_def by (intro okC_intros) (auto dest: same_rules)

lemma iwarp_pd_allocate_inv: "verbs_inv s \<Longrightarrow> okC ok_post3 (iwarp_pd_allocate s)"
  unfolding iwarp_pd_allocate_def
  by (intro okC_intros) (auto dest: verbs_inv_D intro!: rnic_ok_set_pd)

lemma iwarp_pd_deallocate_inv: "verbs_inv s \<Longrightarrow> okC ok_post (iwarp_pd_deallocate i s)"
  unfolding iwarp_pd_deallocate_def
  by (intro okC_intros) (auto dest: verbs_inv_D intro!: rnic_ok_set_pd)

lemma qp_fill_ok: "okC (\<lambda>(st, a). st = IWARP_OK \<longrightarrow> length pds = MAX_PROT_DOMAIN \<longrightarrow> attrs_ok a) (qp_fill i pds a)"
  unfolding qp_fill_def
  by (intro okC_intros) (auto simp: attrs_ok_def)

lemma qp_available_cases: "qp_ok q \<Longrightarrow> qp_available q = 1 \<or> qp_available q = 0"
  by (auto simp: qp_ok_def)

lemma first_free_qp:
  assumes "n = length (takeWhile (\<lambda>q. qp_available q \<noteq> 1) (take MAX_QP (rn_qp r)))" "n < MAX_QP" "rnic_ok r"
  shows "qp_available (rn_qp r ! n) = 1"
proof -
  have "length (take MAX_QP (rn_qp r)) = MAX_QP" using assms(3) by (simp add: rnic_ok_def rnic_shape_def)
  with assms(1,2) nth_length_takeWhile [of "\<lambda>q. qp_available q \<noteq> 1" "take MAX_QP (rn_qp r)"] show ?thesis by simp
qed

lemma iwarp_qp_create_inv:
  assumes "verbs_inv s"
  shows "okC ok_post3 (iwarp_qp_create i s)"
proof (cases "vs_rnic s")
  case (Ptr r)
  define n where "n = length (takeWhile (\<lambda>q. qp_available q \<noteq> 1) (take MAX_QP (rn_qp r)))"
  have r: "rnic_ok r" "rnic_shape (vs_junk s)" "length (rn_pd r) = MAX_PROT_DOMAIN"
    using assms Ptr by (auto simp: verbs_inv_def rnic_ok_def rnic_shape_def)
  have free: "n < MAX_QP \<Longrightarrow> qp_available (rn_qp r ! n) = 1" using first_free_qp [OF n_def _ r(1)] by simp
  show ?thesis
    unfolding iwarp_qp_create_def Ptr deref_simps Let_def
    by (fold n_def, intro okC_intros okC_bind [OF qp_fill_ok])
       (use assms r free in \<open>auto dest!: vmalloc_same intro!: rnic_ok_set_qp simp: qp_ok_def attrs_ok_def\<close>)
qed (simp_all add: iwarp_qp_create_def okC_intros)

lemma iwarp_qp_destroy_inv: "verbs_inv s \<Longrightarrow> okC ok_post (iwarp_qp_destroy i s)"
  unfolding iwarp_qp_destroy_def
  by (intro okC_intros) (auto dest: verbs_inv_D intro!: rnic_ok_set_qp simp: qp_ok_def)

text \<open>A destroyed queue pair has its block still: nothing is freed twice.\<close>

lemma iwarp_qp_destroy_returns:
  assumes "verbs_inv s" "vs_rnic s = Ptr r" "0 \<le> i" "i < int MAX_QP"
  shows "iwarp_qp_destroy i s \<noteq> crash \<and> iwarp_qp_destroy i s \<noteq> None"
proof -
  have "rnic_ok r" using assms(1,2) by (simp add: verbs_inv_def)
  then have "length (rn_qp r) = 10" "qp_ok (rn_qp r ! nat i)"
    using assms(3,4) by (simp_all add: rnic_ok_def rnic_shape_def)
  then show ?thesis
    using assms(2-4) by (auto simp: iwarp_qp_destroy_def elem_def qp_ok_def)
qed

lemma iwarp_rnic_close_inv: "verbs_inv s \<Longrightarrow> okC ok_post (iwarp_rnic_close B s)"
  unfolding iwarp_rnic_close_def
  by (intro okC_intros) (auto dest!: low_same dest: verbs_inv_D)

lemma iwarp_rnic_advance_inv: "verbs_inv s \<Longrightarrow> okC ok_post (iwarp_rnic_advance B s)"
  unfolding iwarp_rnic_advance_def by (intro okC_intros) (auto dest: low_same)

lemma iwarp_nsmr_register_inv: "verbs_inv s \<Longrightarrow> okC (\<lambda>(st, _, _, s). verbs_inv s) (iwarp_nsmr_register B t buffer len pd access stag md s)"
  unfolding iwarp_nsmr_register_def
  by (rule okC_rnic, assumption, intro okC_intros) (auto dest!: low_same low_out_same vsys_same)

lemma iwarp_deallocate_stag_inv: "verbs_inv s \<Longrightarrow> okC ok_post (iwarp_deallocate_stag B stag s)"
  unfolding iwarp_deallocate_stag_def by (intro okC_intros) (auto dest: low_same)

lemma iwarp_deregister_mem_inv: "verbs_inv s \<Longrightarrow> okC ok_post (iwarp_deregister_mem B pd md s)"
  unfolding iwarp_deregister_mem_def
  by (rule okC_rnic, assumption, intro okC_intros) (auto dest!: low_same low_out_same vsys_same)

lemma iwarp_cq_inv:
  assumes "verbs_inv s"
  shows "okC ok_post3 (iwarp_cq_create B h n cq s)" "okC ok_post (iwarp_cq_destroy B cq s)"
    "okC ok_post3 (iwarp_cq_poll B cq retrys wc s)" "okC ok_post3 (iwarp_cq_poll_block B cq qp wc s)"
  using assms unfolding iwarp_cq_create_def iwarp_cq_destroy_def iwarp_cq_poll_def iwarp_cq_poll_block_def
  by (intro okC_intros; auto simp: okC_def dest: low_same low_out_same)+

lemma dispatcher_inv: "verbs_inv s \<Longrightarrow> okC ok_post (iwarp_recv_event_dispatcher B fd s)"
  unfolding iwarp_recv_event_dispatcher_def
  by (rule okC_rnic, assumption, intro okC_intros) (auto dest!: low_same simp: rnic_ok_def rnic_shape_def)

lemma qp_socket_inv: "verbs_inv s \<Longrightarrow> okC ok_post (qp_socket i s)"
  unfolding qp_socket_def
  by (rule okC_rnic, assumption, intro okC_intros) (auto dest!: low_same low_out_same vsys_same)

lemma qp_connected_now_inv:
  assumes "verbs_inv s"
  shows "okC ok_post (qp_connected_now B i pd b n c s)"
  unfolding qp_connected_now_def
  by (rule okC_rnic [OF assms], intro okC_intros okC_bind [OF dispatcher_inv]) (auto dest!: low_same)

lemma connect_loop_inv: "connect_loop k s = (b, s') \<Longrightarrow> verbs_inv s' = verbs_inv s"
  by (induction k s rule: connect_loop.induct) (auto dest!: vsys_same split: prod.splits if_splits)

lemma iwarp_qp_passive_connect_inv: "verbs_inv s \<Longrightarrow> okC ok_post (iwarp_qp_passive_connect B i pd b n s)"
  unfolding iwarp_qp_passive_connect_def
  by (rule okC_bind [OF iwarp_rnic_query_inv], assumption, intro okC_intros okC_bind [OF qp_socket_inv] qp_connected_now_inv)
     (auto dest!: vsys_same)

lemma iwarp_qp_active_connect_inv: "verbs_inv s \<Longrightarrow> okC ok_post (iwarp_qp_active_connect B k i pd b n s)"
  unfolding iwarp_qp_active_connect_def
  by (intro okC_intros okC_bind [OF qp_socket_inv] qp_connected_now_inv) (auto dest!: vsys_same connect_loop_inv)

lemma iwarp_qp_disconnect_inv:
  assumes "verbs_inv s"
  shows "okC ok_post (iwarp_qp_disconnect B i s)"
  unfolding iwarp_qp_disconnect_def
  by (rule okC_rnic [OF assms], intro okC_intros) (auto dest!: low_same vsys_same)

lemma rnic_ok_enqueue:
  assumes "rnic_ok r" "rn_size r < int MAX_WRQ" "wr_queued wr" "0 \<le> i" "i < int (length (rn_qp r))"
  shows "rnic_ok (set_qp i ((rn_qp r ! nat i)\<lparr>qp_pre_posts := k\<rparr>)
    (r\<lparr>rn_queue := (rn_queue r)[nat (rn_size r) := wr], rn_size := rn_size r + 1\<rparr>))"
proof (rule rnic_ok_set_qp)
  have "nat (rn_size r + 1) = Suc (nat (rn_size r))" using assms(1) by (simp add: rnic_ok_def nat_add_distrib)
  with assms(1-3) show "rnic_ok (r\<lparr>rn_queue := (rn_queue r)[nat (rn_size r) := wr], rn_size := rn_size r + 1\<rparr>)"
    by (auto simp: rnic_ok_def rnic_shape_def less_Suc_eq nth_list_update)
  show "qp_ok ((rn_qp r ! nat i)\<lparr>qp_pre_posts := k\<rparr>)"
    using rnic_ok_qp [OF assms(1,4,5)] by (simp add: qp_ok_def)
qed

lemma low_ok: "verbs_inv s \<Longrightarrow> okC ok_post (low f s)"
  by (auto simp: okC_def dest: low_same)

lemma copy_sgl_queued: "copy_sgl l = ret l' \<Longrightarrow> wr_queued (wr\<lparr>wr_sgl := Ptr l'\<rparr>)"
  by (auto simp: copy_sgl_def wr_queued_def split: if_splits)

lemma rnic_ok_room: "rnic_ok r \<Longrightarrow> rn_size r \<noteq> int MAX_WRQ \<Longrightarrow> rn_size r < int MAX_WRQ"
  by (simp add: rnic_ok_def)

lemma iwarp_qp_post_rq_inv:
  assumes "verbs_inv s"
  shows "okC ok_post (iwarp_qp_post_rq B i wr s)"
proof -
  have "okC ok_post (if qp_connected (rn_qp r ! nat i) \<noteq> 0 then low (iwarp_recv_event_dispatch_one B r (qp_fd (rn_qp r ! nat i)) wr) s
        else if rn_size r = int MAX_WRQ then ret (IWARP_RWQ_FULL, s)
        else let (m, s) = vmalloc s in
             deref (wr_sgl wr) (\<lambda>l.
               if \<not> m then crash
               else bindC (copy_sgl l) (\<lambda>l.
                    elem (rn_queue r) (rn_size r) (\<lambda>_.
                      ret (IWARP_OK, set_rnic (set_qp i ((rn_qp r ! nat i)\<lparr>qp_pre_posts := qp_pre_posts (rn_qp r ! nat i) + 1\<rparr>)
                        (r\<lparr>rn_queue := (rn_queue r)[nat (rn_size r) := wr\<lparr>wr_sgl := Ptr l\<rparr>], rn_size := rn_size r + 1\<rparr>)) s)))))"
    if "rnic_ok r" "0 \<le> i" "i < int (length (rn_qp r))" for r
    using assms that rnic_ok_room [OF that(1)]
    by (intro okC_intros low_ok) (auto dest!: vmalloc_same dest: verbs_inv_D(2) intro!: rnic_ok_enqueue copy_sgl_queued)
  note body = this
  show ?thesis
    unfolding iwarp_qp_post_rq_def
    by (rule okC_rnic [OF assms], rule okC_elem, rule okC_bind, rule body, assumption+) (auto intro!: okC_intros)
qed

lemma iwarp_qp_post_sq_inv:
  assumes "verbs_inv s"
  shows "okC ok_post (iwarp_qp_post_sq B i wr s)"
  unfolding iwarp_qp_post_sq_def
  by (rule okC_rnic [OF assms], intro okC_intros) (use assms in \<open>auto dest!: low_same\<close>)

text \<open>Opening is the one verb that takes an adapter from the functions below.\<close>

locale stubs_leave_rnic =
  fixes B :: "('c, 'm, 'w) stubs"
  assumes open_leaves: "st_RNIC_open B index r w = ret (st, r', w') \<Longrightarrow> \<exists>fd. r' = r\<lparr>rn_fd := fd\<rparr>"
begin

lemma rnic_open_inv:
  assumes "verbs_inv s"
  shows "okC ok_post (iwarp_rnic_open B index mode s)"
proof -
  have fresh: "rnic_ok (r\<lparr>rn_pd := map (\<lambda>p. p\<lparr>pd_available := 1\<rparr>) (rn_pd r), rn_qp := map (\<lambda>q. q\<lparr>qp_available := 1\<rparr>) (rn_qp r),
      rn_size := 0\<rparr>)" if "rnic_shape r" for r :: "'c rnic"
    using that by (auto simp: rnic_ok_def rnic_shape_def qp_ok_def)
  have fd: "rnic_ok r' = rnic_ok r" if "st_RNIC_open B index r w = ret (st, r', w')" for r r' st w w'
    using open_leaves [OF that] by (auto simp: rnic_ok_def rnic_shape_def)
  show ?thesis
    unfolding iwarp_rnic_open_def
    using assms fresh [OF verbs_inv_D(2) [OF assms]]
    by (intro okC_intros) (auto dest!: low_same vmalloc_same dest: verbs_inv_D(2) simp: low_out_def outcome_simps fd)
qed

lemmas verb_invs = rnic_open_inv first_of3_ok [OF iwarp_rnic_query_inv] iwarp_rnic_close_inv iwarp_rnic_advance_inv
  first_of3_ok [OF iwarp_pd_allocate_inv] iwarp_pd_deallocate_inv iwarp_deallocate_stag_inv iwarp_deregister_mem_inv
  first_of3_ok [OF iwarp_cq_inv(1)] iwarp_cq_inv(2) first_of3_ok [OF iwarp_cq_inv(3)] first_of3_ok [OF iwarp_cq_inv(4)]
  first_of3_ok [OF iwarp_qp_create_inv] iwarp_qp_destroy_inv iwarp_qp_passive_connect_inv iwarp_qp_active_connect_inv
  iwarp_qp_disconnect_inv iwarp_qp_post_rq_inv iwarp_qp_post_sq_inv

lemma verb_inv:
  assumes "verbs_inv s"
  shows "okC ok_post (verb_run B v s)"
proof -
  have "okC ok_post (bindC (iwarp_nsmr_register B t buffer len pd access stag md s) (\<lambda>(st, _, _, s). ret (st, s)))"
    for t buffer len pd access stag md
    by (rule okC_bind [OF iwarp_nsmr_register_inv [OF assms]]) (auto intro!: okC_intros)
  with verb_invs [OF assms] show ?thesis by (cases v) (simp_all add: verb_run_def)
qed

lemma verbs_run_inv: "verbs_inv s \<Longrightarrow> okC (\<lambda>(sts, s'). verbs_inv s') (verbs_run B vs s)"
proof (induction vs arbitrary: s)
  case (Cons v vs)
  show ?case
    unfolding verbs_run.simps
    by (rule okC_bind [OF verb_inv [OF Cons(2)]], clarify, rule okC_bind [OF Cons(1)]) (auto intro!: okC_intros)
qed (simp add: okC_intros)

end

interpretation user_build: stubs_leave_rnic user_stubs
proof
  fix index r w st w' and r' :: "nat option rnic"
  assume "st_RNIC_open user_stubs index r w = ret (st, r', w')"
  then have "r' = r\<lparr>rn_fd := rn_fd r\<rparr>" by (simp add: user_stubs_def u_RNIC_open_def)
  then show "\<exists>fd. r' = r\<lparr>rn_fd := fd\<rparr>" by blast
qed

interpretation kernel_build: stubs_leave_rnic kernel_stubs
proof
  fix index r w st w' and r' :: "u64 rnic"
  assume "st_RNIC_open kernel_stubs index r w = ret (st, r', w')"
  then have "r' = r \<or> r' = r\<lparr>rn_fd := vk_fd w'\<rparr> \<or> (\<exists>fd. r' = r\<lparr>rn_fd := fd\<rparr>)"
    by (auto simp: kernel_stubs_def kv_RNIC_open_def Let_def outcome_simps split: if_splits)
  then show "\<exists>fd. r' = r\<lparr>rn_fd := fd\<rparr>" by (metis rnic.surjective rnic.update_convs(5))
qed

end
