(* ===== verification/V_Props.thy ===== *)
theory V_Props
  imports V_Kernel_Props V_Books K_Dev_Props
begin

text \<open>What the verbs promise, in both builds and over both stacks.\<close>

section \<open>Commands of the kernel build\<close>

lemma bindC_cong_ok: "okC (\<lambda>x. f x = g x) m \<Longrightarrow> bindC m f = bindC m g"
  by (auto simp: okC_def bindC_def split: option.splits outcome.splits)

text \<open>
  C36. The command a stub writes is the command the module runs. Take a process that has the device open, in any
  state of the device in order, whose stack has room for the structure in mapped pages: writing the structure
  that the verbs fill in for a command is running this command, with these arguments, in the context of the
  process, and the stub reports success exactly when the command returned 0. So the layout of every
  structure, padding included, is the same on both sides.
\<close>

theorem kernel_stub_command:
  assumes "dev_inv hash_long n B (vk_dev v)" "Suc n < 2 ^ 64" "u \<in> set (kd_list (vk_dev v))" "uc_tgid u = vk_tgid v"
    and "places_at (kd_pt (vk_dev v) (vk_tgid v)) (vk_stack v) xs" "distinct xs" "length xs = length (cmd_bytes (vk_junk v) c)"
    and "v' = stored (vk_stack v) xs (cmd_bytes (vk_junk v) c) v"
  shows "k_write c v = bindC (k_cmd_run c (dev_enter (vk_tgid v) u (vk_dev v'))) (\<lambda>(st, w).
      ret (st = 0, v'\<lparr>vk_dev := dev_leave w (vk_dev v')\<rparr>))"
proof -
  have d: "dev_inv hash_long n B (vk_dev v')" using dev_inv_stored [OF assms(1)] assms(8) by simp
  have u: "u \<in> set (kd_list (vk_dev v'))" using assms(3,8) by (simp add: find_stored)
  have "find (\<lambda>u. uc_tgid u = vk_tgid v) (kd_list (vk_dev v)) = Some u"
    using find_key [of uc_tgid "kd_list (vk_dev v)" u] assms(1,3,4) by (simp add: dev_inv_def)
  note eq = k_write_eq [OF this assms(5-8)]
  let ?w = "dev_enter (vk_tgid v) u (vk_dev v')"
  have "okC (\<lambda>(st, w). st \<le> 0) (k_cmd_run c ?w)"
    using k_cmd_run_inv [of c ?w _ hash_long n, OF _ kw_inv_enter [OF d u, unfolded assms(4)] assms(2)]
    by (auto simp: okC_def okO_def split: option.splits outcome.splits)
  moreover have "0 < int (length xs)" using assms(7) cmd_number_head(2) [of "vk_junk v" c] by linarith
  ultimately show ?thesis
    unfolding eq by (intro bindC_cong_ok) (auto simp: okC_def)
qed

text \<open>A process that has opened the device and destroys tag 7, its stack in its first page.\<close>

lemma demo_opened:
  obtains d u where "dev_run [DevOpen 5] demo_kdev = Some ([0], d)" "kd_list d = [u]" "uc_tgid u = 5" "kd_pt d 5 0 = Some 0"
proof -
  have c: "case dev_run [DevOpen 5] demo_kdev of None \<Rightarrow> False
    | Some (rs, d) \<Rightarrow> rs = [0] \<and> map uc_tgid (kd_list d) = [5] \<and> kd_pt d 5 0 = Some 0"
    by code_simp
  obtain rs d where d: "dev_run [DevOpen 5] demo_kdev = Some (rs, d)" using c by (auto split: option.splits)
  then obtain u where "kd_list d = [u]" "uc_tgid u = 5" using c [unfolded d option.case prod.case] by (auto simp: map_eq_Cons_conv)
  then show thesis using that d c [unfolded d option.case prod.case] by simp
qed

theorem kernel_stub_command_witness:
  "\<exists>d u v v'. dev_run [DevOpen 5] demo_kdev = Some ([0], d) \<and> kd_list d = [u] \<and> vk_dev v = d \<and> vk_tgid v = 5 \<and> vk_stack v = 0x300
    \<and> v' = stored 0x300 (map (Pair 0) [0x300..<0x308]) (le32 IWARP_STAG_DESTROY @ le32 7) v
    \<and> k_write (StagDestroy 7) v = bindC (k_cmd_run (StagDestroy 7) (dev_enter 5 u (vk_dev v'))) (\<lambda>(st, w).
        ret (st = 0, v'\<lparr>vk_dev := dev_leave w (vk_dev v')\<rparr>))"
proof (rule demo_opened)
  fix d u assume d: "dev_run [DevOpen 5] demo_kdev = Some ([0], d)" "kd_list d = [u]" "uc_tgid u = 5" "kd_pt d 5 0 = Some 0"
  define v where "v = \<lparr>vk_dev = d, vk_tgid = 5, vk_stack = 0x300, vk_var = 0x400, vk_kwc = 0x500, vk_heap = [], vk_junk = (\<lambda>_. 0xaa), vk_fd = 4\<rparr>"
  have v: "vk_dev v = d" "vk_tgid v = 5" "vk_stack v = 0x300" by (simp_all add: v_def)
  let ?xs = "map (Pair 0) [0x300..<0x308] :: (nat \<times> nat) list"
  have c: "cmd_bytes (vk_junk v) (StagDestroy 7) = le32 IWARP_STAG_DESTROY @ le32 7"
    by (simp add: cmd_bytes_def cmd_number_def iwarp_cmd_defs)
  have "user_place (kd_pt d 5) (0x300 + of_nat i) = Some (0, 0x300 + i)" if "i < 8" for i
  proof -
    have "unat (0x300 + of_nat i :: u64) = 0x300 + i" using that by (simp add: unat_word_ariths unat_of_nat)
    moreover from this have "unat (drop_bit PAGE_SHIFT (0x300 + of_nat i :: u64)) = 0"
      using that by (simp only: unsigned_drop_bit_eq) (simp add: drop_bit_eq_div take_bit_eq_mod)
    then have "drop_bit PAGE_SHIFT (0x300 + of_nat i :: u64) = 0" by (simp only: unat_eq_zero)
    ultimately show ?thesis using d(4) that by (simp add: user_place_def)
  qed
  moreover have xs: "map Some ?xs = map (\<lambda>i. Some (0, 0x300 + i)) [0..<8]" by (simp add: upt_conv_Cons)
  ultimately have "places_at (kd_pt (vk_dev v) (vk_tgid v)) (vk_stack v) ?xs"
    unfolding v places_at_def length_map length_upt by (simp only: xs) simp
  moreover have two: "Suc (Suc 0) = 2" by simp
  then have "dev_inv demo_hash 2 (k_refs (kd_world demo_kdev)) (vk_dev v)"
    using dev_reached(1) [OF demo_premises(1-4) _ d(1)] by (simp add: v two)
  ultimately show ?thesis
    using kernel_stub_command [of demo_hash 2 "k_refs (kd_world demo_kdev)" v u ?xs "StagDestroy 7" "stored 0x300 ?xs (le32 IWARP_STAG_DESTROY @ le32 7) v"] d v c
    by (intro exI [of _ d] exI [of _ u] exI [of _ v] exI [of _ "stored 0x300 ?xs (le32 IWARP_STAG_DESTROY @ le32 7) v"])
       (simp add: distinct_map)
qed

section \<open>Receives posted before the connection\<close>

definition recv_wr :: "u64 \<times> u32 \<times> u64 \<times> stag \<Rightarrow> iwarp_wr" where
  "recv_wr p = (case p of (buf, len, wid, stag) \<Rightarrow>
     \<lparr>wr_id = wid, wr_sgl = Ptr \<lparr>sgl_sge = [\<lparr>sge_length = len, sge_stag = stag, sge_to = buf\<rparr>], sge_count = 1\<rparr>,
      wr_remote_sgl = Wild, wr_type = WR_TYPE_RECV, wr_cq_type = SIGNALED\<rparr>)"

text \<open>What the posts leave of the adapter: the queue pair but for the count, and the queue up to its size.\<close>

definition posted :: "int \<Rightarrow> (u64 \<times> u32 \<times> u64 \<times> stag) list \<Rightarrow> 'c rnic \<Rightarrow> 'c rnic \<Rightarrow> bool" where
  "posted i ps r r' \<longleftrightarrow> length (rn_qp r') = length (rn_qp r) \<and> length (rn_queue r') = length (rn_queue r) \<and> rn_fd r' = rn_fd r
     \<and> (\<exists>c. rn_qp r' ! nat i = (rn_qp r ! nat i)\<lparr>qp_pre_posts := c\<rparr>) \<and> rn_size r' = rn_size r + int (length ps)
     \<and> take (nat (rn_size r')) (rn_queue r') = take (nat (rn_size r)) (rn_queue r) @ map recv_wr ps"

lemma post_rq_waits:
  assumes "vs_rnic s = Ptr r" "0 \<le> i" "i < int (length (rn_qp r))" "qp_connected (rn_qp r ! nat i) = 0"
    and "0 \<le> rn_size r" "rn_size r < int MAX_WRQ" "length (rn_queue r) = MAX_WRQ" "vs_mallocs s = True # ms"
  shows "\<exists>r'. iwarp_qp_post_rq B i (recv_wr p) s = ret (IWARP_OK, set_rnic r' (s\<lparr>vs_mallocs := ms\<rparr>)) \<and> posted i [p] r r'"
proof -
  obtain buf len wid stag where p: "p = (buf, len, wid, stag)" by (cases p)
  let ?r' = "set_qp i ((rn_qp r ! nat i)\<lparr>qp_pre_posts := qp_pre_posts (rn_qp r ! nat i) + 1\<rparr>)
    (r\<lparr>rn_queue := (rn_queue r)[nat (rn_size r) := recv_wr p], rn_size := rn_size r + 1\<rparr>)"
  have "nat (rn_size r + 1) = Suc (nat (rn_size r))" using assms(5) by simp
  then have "posted i [p] r ?r'"
    using assms(2-7) by (auto simp: posted_def set_qp_def take_Suc_conv_app_nth)
  moreover have "(recv_wr p)\<lparr>wr_sgl := wr_sgl (recv_wr p)\<rparr> = recv_wr p" by simp
  ultimately show ?thesis
    using assms by (auto simp: iwarp_qp_post_rq_def elem_def vmalloc_def copy_sgl_def recv_wr_def p intro!: exI [of _ ?r'])
qed

lemma posted_trans:
  assumes "posted i [p] r r'" "posted i ps r' r''"
  shows "posted i (p # ps) r r''"
  using assms unfolding posted_def by auto

lemma posts_wait:
  assumes "vs_rnic s = Ptr r" "0 \<le> i" "i < int (length (rn_qp r))" "qp_connected (rn_qp r ! nat i) = 0"
    and "0 \<le> rn_size r" "rn_size r + int (length ps) \<le> int MAX_WRQ" "length (rn_queue r) = MAX_WRQ"
    and "vs_mallocs s = replicate (length ps) True @ ms"
  shows "\<exists>r'. verbs_run B (map (\<lambda>p. VPostRq i (recv_wr p)) ps) s = ret (replicate (length ps) IWARP_OK, s\<lparr>vs_rnic := Ptr r', vs_mallocs := ms\<rparr>)
    \<and> posted i ps r r'"
  using assms
proof (induction ps arbitrary: s r)
  case Nil
  then show ?case by (cases s) (auto simp: posted_def intro!: exI [of _ "qp_pre_posts (rn_qp r ! nat i)"])
next
  case (Cons p ps)
  obtain r1 where r1: "iwarp_qp_post_rq B i (recv_wr p) s = ret (IWARP_OK, set_rnic r1 (s\<lparr>vs_mallocs := replicate (length ps) True @ ms\<rparr>))"
    "posted i [p] r r1"
    using post_rq_waits [of s r i "replicate (length ps) True @ ms" B p] Cons.prems by auto
  let ?s1 = "set_rnic r1 (s\<lparr>vs_mallocs := replicate (length ps) True @ ms\<rparr>)"
  have pre: "vs_rnic ?s1 = Ptr r1" "i < int (length (rn_qp r1))" "qp_connected (rn_qp r1 ! nat i) = 0" "0 \<le> rn_size r1"
    "rn_size r1 + int (length ps) \<le> int MAX_WRQ" "length (rn_queue r1) = MAX_WRQ" "vs_mallocs ?s1 = replicate (length ps) True @ ms"
    using Cons.prems r1(2) by (auto simp: posted_def set_rnic_def)
  from Cons.IH [OF pre(1) Cons.prems(2) pre(2-7)] obtain r2 where
    "verbs_run B (map (\<lambda>p. VPostRq i (recv_wr p)) ps) ?s1 = ret (replicate (length ps) IWARP_OK, ?s1\<lparr>vs_rnic := Ptr r2, vs_mallocs := ms\<rparr>)"
    "posted i ps r1 r2" by blast
  with r1 posted_trans [OF r1(2)] show ?case by (auto simp: verb_run_def set_rnic_def)
qed

text \<open>Handing the queue to a registered socket.\<close>

definition recv_bufs :: "(u64 \<times> u32 \<times> u64 \<times> stag) list \<Rightarrow> rdmap_untag_wrd list" where
  "recv_bufs = map (\<lambda>(buf, len, wid, stag). \<lparr>uw_id = wid, uw_buf = buf, uw_len = ucast len\<rparr>)"

lemma dispatch_posts:
  assumes "api_inv (vu_world u)" "sk_map (vu_world u) (of_int fd) = Some k" "lists_set k" "\<not> cq_opt_full (rcq k) (vu_world u)"
  shows "\<exists>u' k'. recv_dispatch_loop user_stubs r fd (map recv_wr ps) u = ret (0, u') \<and> api_inv (vu_world u')
    \<and> sk_map (vu_world u') (of_int fd) = Some k' \<and> \<not> cq_opt_full (rcq k') (vu_world u')
    \<and> send_q (rdmapsk k') = send_q (rdmapsk k) @ recv_bufs ps"
  using assms
proof (induction ps arbitrary: u k)
  case (Cons p ps)
  obtain buf len wid stag where p: "p = (buf, len, wid, stag)" by (cases p)
  let ?w = "vu_world u" and ?sk = "of_int fd :: sock"
  let ?k = "k\<lparr>rdmapsk := (rdmapsk k)\<lparr>send_q := send_q (rdmapsk k) @ recv_bufs [p]\<rparr>\<rparr>"
  let ?w' = "iwsk_store ?k (?w\<lparr>last_recv_sk := Some ?sk\<rparr>)"
  have fd: "sk_fd k = ?sk" using Cons(2,3) by (simp add: api_inv_def table_ok_def)
  have post: "rdmap_post_recv ?sk buf len wid ?w = Done (0, ?w')"
    using Cons(2-5) by (simp add: rdmap_post_recv_def use_recv_sk_eq cq_opt_full_def recv_bufs_def p Let_def cong: option.case_cong)
  then have one: "iwarp_recv_event_dispatch_one user_stubs r fd (recv_wr p) u = ret (0, set_world ?w' u)"
    by (simp add: iwarp_recv_event_dispatch_one_def recv_wr_def p elem_def user_stubs_def u_post_recv_def lib_err_def lib_def)
  have inv: "api_inv ?w'" using okO_D [OF rdmap_post_recv_inv [OF Cons(2)] post] by simp
  have map: "sk_map ?w' ?sk = Some ?k"
  proof -
    have "ht_inv (iwht (?w\<lparr>last_recv_sk := Some ?sk\<rparr>))" "sk_map (?w\<lparr>last_recv_sk := Some ?sk\<rparr>) = sk_map ?w"
      using Cons(2) by (simp_all add: api_inv_def table_ok_ht sk_map_def)
    then show ?thesis using Cons(3) fd by (simp add: sk_map_store)
  qed
  obtain u' k' where "recv_dispatch_loop user_stubs r fd (map recv_wr ps) (set_world ?w' u) = ret (0, u')" "api_inv (vu_world u')"
    "sk_map (vu_world u') ?sk = Some k'" "\<not> cq_opt_full (rcq k') (vu_world u')" "send_q (rdmapsk k') = send_q (rdmapsk ?k) @ recv_bufs ps"
    using Cons.IH [of "set_world ?w' u" ?k] inv map Cons(4,5) by (auto simp: set_world_def cq_opt_full_def cong: option.case_cong)
  with one show ?case by (auto simp: recv_bufs_def)
qed (simp add: recv_bufs_def)

lemma register_connection_posted:
  assumes "length (rn_qp r') = length (rn_qp r)" "qp_fd (rn_qp r' ! nat i) = qp_fd (rn_qp r ! nat i)"
    "qp_attributes (rn_qp r' ! nat i) = qp_attributes (rn_qp r ! nat i)"
  shows "u_register_connection r' i pd b n c u = u_register_connection r i pd b n c u"
  using assms by (simp add: u_register_connection_def elem_def)

lemma connected_now_dispatches:
  assumes "vs_rnic s = Ptr r'" "posted i ps r r'" "rn_size r = int (length ws)" "take (length ws) (rn_queue r) = map recv_wr ws"
    and "ps \<noteq> []" "0 \<le> i" "i < int (length (rn_qp r))"
    and "u_register_connection r i pd b n c (vs_low s) = ret (st, u)"
    and "api_inv (vu_world u)" "sk_map (vu_world u) (of_int (qp_fd (rn_qp r ! nat i))) = Some k" "lists_set k"
      "\<not> cq_opt_full (rcq k) (vu_world u)"
  shows "\<exists>s2 r2 k'. qp_connected_now user_stubs i pd b n c s = ret (IWARP_OK, s2) \<and> vs_rnic s2 = Ptr r2 \<and> rn_size r2 = 0
    \<and> qp_connected (rn_qp r2 ! nat i) = 1 \<and> sk_map (vu_world (vs_low s2)) (of_int (qp_fd (rn_qp r ! nat i))) = Some k'
    \<and> send_q (rdmapsk k') = send_q (rdmapsk k) @ recv_bufs (ws @ ps)"
proof -
  let ?fd = "qp_fd (rn_qp r ! nat i)" and ?q = "rn_qp r' ! nat i"
  have q: "length (rn_qp r') = length (rn_qp r)" "qp_fd ?q = ?fd" "qp_attributes ?q = qp_attributes (rn_qp r ! nat i)"
    and queue: "take (nat (rn_size r')) (rn_queue r') = map recv_wr (ws @ ps)" "rn_size r' = int (length (ws @ ps))"
    using assms(2-4) by (auto simp: posted_def)
  let ?r = "set_qp i (?q\<lparr>qp_connected := 1\<rparr>) r'"
  obtain u' k' where d: "recv_dispatch_loop user_stubs ?r ?fd (map recv_wr (ws @ ps)) u = ret (0, u')"
    "sk_map (vu_world u') (of_int ?fd) = Some k'" "send_q (rdmapsk k') = send_q (rdmapsk k) @ recv_bufs (ws @ ps)"
    using dispatch_posts [OF assms(9-12), of ?r "ws @ ps"] by blast
  have ne: "rn_queue r' \<noteq> []" "rn_queue r' ! 0 = recv_wr (hd (ws @ ps))"
  proof -
    have l: "0 < length (ws @ ps)" "take (length (ws @ ps)) (rn_queue r') = map recv_wr (ws @ ps)"
      using queue assms(5) by (simp_all add: nat_add_distrib)
    then show "rn_queue r' \<noteq> []" by auto
    show "rn_queue r' ! 0 = recv_wr (hd (ws @ ps))"
      using arg_cong [OF l(2), of "\<lambda>xs. xs ! 0"] l(1) by (cases ws) (auto simp: hd_conv_nth nth_append)
  qed
  have "qp_connected_now user_stubs i pd b n c s = bindC (iwarp_recv_event_dispatcher user_stubs ?fd (set_rnic ?r (s\<lparr>vs_low := u\<rparr>)))
      (\<lambda>(st, s). ret (if st \<noteq> 0 then IWARP_RECV_DISPATCHING_FAILURE else IWARP_OK, s))"
  proof -
    have "st_register_connection user_stubs r' i pd b n c (vs_low s) = ret (st, u)"
      using assms(8) register_connection_posted [OF q] by (simp add: user_stubs_def)
    moreover have "i < int (length (rn_qp r'))" using assms(7) q(1) by simp
    ultimately show ?thesis
      unfolding qp_connected_now_def low_def assms(1) deref_simps elem_def using assms(6) q(2) by simp
  qed
  moreover have "rn_queue ?r = rn_queue r'" "rn_size ?r = rn_size r'" by (simp_all add: set_qp_def)
  ultimately show ?thesis
    using d queue ne assms(6,7) q(1)
    by (auto simp: iwarp_recv_event_dispatcher_def low_def set_rnic_def elem_def recv_wr_def set_qp_def split: prod.splits)
qed

lemma u_register_connection_inv:
  assumes "api_inv (vu_world u)"
  shows "okC (\<lambda>(st, u'). api_inv (vu_world u')) (u_register_connection r i pd b n c u)"
proof -
  have l: "okC (\<lambda>(st, u'). api_inv (vu_world u')) (lib f u)" if "okO (\<lambda>(st, w'). api_inv w') (f (vu_world u))" for f u
    using that by (auto simp: lib_def okC_def okO_def outcome_simps set_world_def)
  have w: "api_inv (vu_world u) \<Longrightarrow> okC (\<lambda>(st, u'). api_inv (vu_world u')) (lib (with_sock sk f) u)" for sk f u
    by (rule l, rule with_sock_inv)
  show ?thesis
    unfolding u_register_connection_def rdmap_mpa_use_markers_def rdmap_mpa_use_crc_def Let_def
    by (intro okC_intros okC_bind [OF l [OF rdmap_register_sock_inv]] okC_bind [OF w] okC_bind [OF l [OF rdmap_init_startup_inv]])
       (use assms in auto)
qed

text \<open>Registering a new socket as a client whose peer answers: the library knows the socket afterwards, with the attributes' queues.\<close>

lemma ht_insert_new:
  assumes "ht_inv t" "ht_map t k = None"
  obtains t' where "ht_insert t k v = Done t'" "ht_inv t'" "ht_map t' = (ht_map t)(k \<mapsto> v)"
  using ht.ins_new [OF assms, of v] by auto

lemma rdmap_register_new:
  assumes inv: "api_inv w" and new: "sk_map w sk = None" and "ip_mtu (conns w sk) = Some mtu" "length (pollsks w) < MAX_SOCKETS"
    "\<not> mpa_freed w" "nodelay_ok (conns w sk)"
  shows "\<exists>w' k. rdmap_register_sock sk sq rq w = Done (0, w') \<and> api_inv w' \<and> sk_map w' sk = Some k \<and> sk_fd k = sk \<and> rcq k = rq
    \<and> lists_set k \<and> send_q (rdmapsk k) = [] \<and> conns w' = conns w \<and> cqs w' = cqs w"
proof -
  have ht: "ht_inv (iwht w)" using inv by (simp add: api_inv_def table_ok_ht)
  obtain t where t: "ht_insert (iwht w) sk (iwsk_zero sk) = Done t" "ht_inv t" "ht_map t = (ht_map (iwht w))(sk \<mapsto> iwsk_zero sk)"
    using ht_insert_new [OF ht] new unfolding sk_map_def by blast
  have fd: "sk_fd (iwsk_zero sk) = sk" by (simp add: iwsk_zero_def)
  have look: "ht_lookup t sk = Done (Some (iwsk_zero sk))" using ht.look_abs [OF t(2), of sk] t(3) by simp
  obtain s1 w1 where d: "ddp_register_sock ((iwsk_zero sk)\<lparr>scq := sq, rcq := rq\<rparr>) (w\<lparr>iwht := t\<rparr>) = Done (0, s1, w1)"
    "sk_fd s1 = sk" "rcq s1 = rq" "iwht w1 = t" "conns w1 = conns w" "cqs w1 = cqs w"
    using assms(3-6) fd by (simp add: ddp_register_sock_def mpa_register_sock_def mpa_get_mtu_def Let_def)
  have r: "rdmap_register_sock sk sq rq w
      = Done (0, iwsk_store (s1\<lparr>lists_set := True, rdmapsk := \<lparr>send_q = [], rdmareq_q = [], term_q = [], rwrq = [], sink_msn = 1\<rparr>\<rparr>) w1)"
    using t(1) look d(1) by (simp add: rdmap_register_sock_def iwsk_insert_def iwsk_lookup_def)
  moreover have "ht_inv (iwht w1)" "sk_map w1 sk \<noteq> None" using t(2,3) d(4) by (simp_all add: sk_map_def)
  ultimately show ?thesis using d okO_D [OF rdmap_register_sock_inv [OF inv] r] by (simp add: sk_map_store)
qed

lemma with_sock_eq: "api_inv w \<Longrightarrow> sk_map w sk = Some k \<Longrightarrow> with_sock sk f w = Done (0, iwsk_store (f k) w)"
  using iwsk_lookup_map [of w sk] by (simp add: with_sock_def api_inv_def)

lemma store_same:
  assumes "api_inv w" "sk_map w sk = Some k" "sk_fd k' = sk"
  shows "api_inv (iwsk_store k' w)" "sk_map (iwsk_store k' w) sk = Some k'"
  using assms by (simp_all add: api_inv_store) (simp add: sk_map_store api_inv_def table_ok_ht)

definition startup_frame :: "iwsk \<Rightarrow> world \<Rightarrow> iwsk \<Rightarrow> world \<Rightarrow> bool" where
  "startup_frame s w s' w' \<longleftrightarrow> rcq s' = rcq s \<and> lists_set s' = lists_set s \<and> rdmapsk s' = rdmapsk s \<and> sk_fd s' = sk_fd s \<and> iwht w' = iwht w \<and> cqs w' = cqs w"

lemma startup_frame_simps [simp]:
  "startup_frame s w s w" "startup_frame s w s' (set_conn fd c w') = startup_frame s w s' w'"
  "startup_frame s w s' (w'\<lparr>mem := mm'\<rparr>) = startup_frame s w s' w'"
  "startup_frame s w (s'\<lparr>mpask := m\<rparr>) w' = startup_frame s w s' w'"
  by (simp_all add: startup_frame_def set_conn_def)

lemma mpa_init_startup_frame: "okO (\<lambda>(ret, s', w'). startup_frame s w s' w') (mpa_init_startup i pd out rpd s w)"
  unfolding mpa_init_startup_def
  by (intro okO_intros) (auto dest!: sock_read_keeps sock_write_keeps)

lemma register_connection_starts:
  fixes u :: vuser
  defines "w \<equiv> vu_world u"
  assumes "0 \<le> i" "i < int (length (rn_qp r))" "qp_fd (rn_qp r ! nat i) = fd" "qp_attributes (rn_qp r ! nat i) = Ptr a"
    and inv: "api_inv w" "sk_map w (of_int fd) = None" "ip_mtu (conns w (of_int fd)) = Some mtu" "length (pollsks w) < MAX_SOCKETS"
      "\<not> mpa_freed w" "nodelay_ok (conns w (of_int fd))"
    and peer: "conn_ok (conns w (of_int fd))" "rx (conns w (of_int fd)) = mpa_frame MPA_REP_KEY pd' m cr 1 @ rest"
    and pd: "length pd < 65535" "length pd' < 65535" "b \<noteq> 0" "length (pd_bytes pd') \<le> unat (of_int n :: u16)" "pd \<noteq> []"
  shows "\<exists>u' k. u_register_connection r i pd b n True u = ret (IWARP_OK, u') \<and> api_inv (vu_world u')
    \<and> sk_map (vu_world u') (of_int fd) = Some k \<and> rcq k = rq_cq a \<and> lists_set k \<and> send_q (rdmapsk k) = [] \<and> cqs (vu_world u') = cqs w"
proof -
  let ?sk = "of_int fd :: sock"
  obtain w1 k1 where w1: "rdmap_register_sock ?sk (sq_cq a) (rq_cq a) w = Done (0, w1)" "api_inv w1" "sk_map w1 ?sk = Some k1"
    "sk_fd k1 = ?sk" "rcq k1 = rq_cq a" "lists_set k1" "send_q (rdmapsk k1) = []" "conns w1 = conns w" "cqs w1 = cqs w"
    using rdmap_register_new [OF inv, of "sq_cq a" "rq_cq a"] by blast
  define mk ck :: int where "mk = (if disable_mpa_markers a = 0 then 1 else 0)" and "ck = (if disable_mpa_crc a = 0 then 1 else 0)"
  obtain k2 where k2: "rdmap_mpa_use_markers ?sk mk w1 = Done (0, iwsk_store k2 w1)" "sk_fd k2 = ?sk" "rcq k2 = rcq k1" "lists_set k2 = lists_set k1" "rdmapsk k2 = rdmapsk k1"
    using with_sock_eq [OF w1(2,3)] w1(4) by (simp add: rdmap_mpa_use_markers_def)
  let ?w2 = "iwsk_store k2 w1"
  note s2 = store_same [OF w1(2,3) k2(2)]
  obtain k3 where k3: "rdmap_mpa_use_crc ?sk ck ?w2 = Done (0, iwsk_store k3 ?w2)" "sk_fd k3 = ?sk" "rcq k3 = rcq k1" "lists_set k3 = lists_set k1" "rdmapsk k3 = rdmapsk k1"
    using with_sock_eq [OF s2] k2(2-) by (simp add: rdmap_mpa_use_crc_def)
  let ?w3 = "iwsk_store k3 ?w2"
  note s3 = store_same [OF s2 k3(2)]
  have "conn_ok (conns ?w3 (sk_fd k3))" "rx (conns ?w3 (sk_fd k3)) = mpa_frame MPA_REP_KEY pd' m cr 1 @ rest"
    using peer w1(8) k3(2) by simp_all
  from startup_initiator [OF this pd] obtain s4 w4 where
    m4: "mpa_init_startup True (Some pd) b (of_int n) k3 ?w3 = Done (0, s4, w4)" by blast
  then have w4: "rcq s4 = rcq k3" "lists_set s4 = lists_set k3" "rdmapsk s4 = rdmapsk k3" "sk_fd s4 = sk_fd k3" "iwht w4 = iwht ?w3" "cqs w4 = cqs ?w3"
    using okO_D [OF mpa_init_startup_frame m4] by (simp_all add: startup_frame_def)
  have "iwsk_lookup ?sk ?w3 = Done (Some k3)" using s3 iwsk_lookup_map [of ?w3 ?sk] by (simp add: api_inv_def)
  then have st: "rdmap_init_startup ?sk True (Some pd) b (of_int n) ?w3 = Done (0, iwsk_store s4 w4)"
    by (simp add: rdmap_init_startup_def m4)
  have "api_inv (iwsk_store s4 w4)" using okO_D [OF rdmap_init_startup_inv [OF s3(1)] st] by simp
  moreover have "ht_inv (iwht w4)" "sk_map w4 ?sk \<noteq> None" using s3 w4(5) by (simp_all add: api_inv_def table_ok_ht sk_map_def)
  then have "sk_map (iwsk_store s4 w4) ?sk = Some s4" using w4(4) k3(2) by (simp add: sk_map_store)
  moreover have "u_register_connection r i pd b n True u = ret (IWARP_OK, set_world (iwsk_store s4 w4) u)"
    using assms(2-5) w1(1) k2(1) k3(1) st
    by (simp add: u_register_connection_def elem_def lib_def set_world_def w_def mk_def ck_def)
  ultimately show ?thesis using w4 k3 w1 by (simp add: set_world_def)
qed

text \<open>
  C37. Receives posted before the connection. The adapter keeps receives that are posted before a connection in one
  queue for all its queue pairs (\<open>rwr.c\<close>). When a process posts receives to a queue pair that is not connected,
  each post waits there, behind those \<open>ws\<close> that already wait. When the queue pair then connects as a client over a
  socket that is new to the library and whose peer answers the start-up (with private data of its own that is not the
  empty string, an address to put that of the peer, room for it, room in the completion queue and in the poll
  set), the call succeeds and the socket's receive queue is exactly the waiting buffers, \<open>ws\<close> and then the posted
  ones, in the order of the posts, with their identifiers and lengths; the waiting queue is empty again and the queue
  pair connected. So the buffers are the posted ones exactly if nothing waited before, and those waiting for
  another queue pair are lost to it.
\<close>

theorem preposted_receives_arrive:
  fixes s :: "(nat option, vuser) verbs"
  defines "w \<equiv> vu_world (vs_low s)"
  assumes r: "vs_rnic s = Ptr r" "rnic_shape r" "rn_size r = int (length ws)" "take (length ws) (rn_queue r) = map recv_wr ws" "0 \<le> i" "i < int MAX_QP" "qp_connected (rn_qp r ! nat i) = 0"
      "qp_attributes (rn_qp r ! nat i) = Ptr a"
    and ps: "ps \<noteq> []" "length ws + length ps \<le> MAX_WRQ" "vs_mallocs s = replicate (length ps) True @ ms"
    and sys: "0 < retrys" "vs_sys s = [0, fd, 0, 0] @ as" "0 \<le> fd"
    and inv: "api_inv w" "sk_map w (of_int fd) = None" "ip_mtu (conns w (of_int fd)) = Some mtu" "length (pollsks w) < MAX_SOCKETS"
      "\<not> mpa_freed w" "nodelay_ok (conns w (of_int fd))" "\<not> cq_opt_full (rq_cq a) w"
    and peer: "conn_ok (conns w (of_int fd))" "rx (conns w (of_int fd)) = mpa_frame MPA_REP_KEY pd' m cr 1 @ rest"
    and pd: "length pd < 65535" "length pd' < 65535" "b \<noteq> 0" "length (pd_bytes pd') \<le> unat (of_int n :: u16)" "pd \<noteq> []"
  shows "\<exists>s1 s2 r2 k. verbs_run user_stubs (map (\<lambda>p. VPostRq i (recv_wr p)) ps) s = ret (replicate (length ps) IWARP_OK, s1)
    \<and> iwarp_qp_active_connect user_stubs retrys i pd b n s1 = ret (IWARP_OK, s2)
    \<and> vs_rnic s2 = Ptr r2 \<and> rn_size r2 = 0 \<and> qp_connected (rn_qp r2 ! nat i) = 1
    \<and> sk_map (vu_world (vs_low s2)) (of_int fd) = Some k \<and> send_q (rdmapsk k) = recv_bufs (ws @ ps)"
proof -
  have len: "length (rn_qp r) = 10" "length (rn_queue r) = MAX_WRQ" using r(2) by (simp_all add: rnic_shape_def)
  from posts_wait [OF r(1,5) _ r(7) _ _ len(2) ps(3), of user_stubs] obtain r1 where
    p: "verbs_run user_stubs (map (\<lambda>p. VPostRq i (recv_wr p)) ps) s = ret (replicate (length ps) IWARP_OK, s\<lparr>vs_rnic := Ptr r1, vs_mallocs := ms\<rparr>)"
    "posted i ps r r1"
    using r(3,6) ps(2) len(1) by auto
  let ?s1 = "s\<lparr>vs_rnic := Ptr r1, vs_mallocs := ms\<rparr>"
  let ?r = "set_qp i ((rn_qp r ! nat i)\<lparr>qp_fd := fd\<rparr>) r" and ?r1 = "set_qp i ((rn_qp r1 ! nat i)\<lparr>qp_fd := fd\<rparr>) r1"
  have l1: "length (rn_qp r1) = 10" using p(2) len(1) by (simp add: posted_def)
  obtain c where "rn_qp r1 ! nat i = (rn_qp r ! nat i)\<lparr>qp_pre_posts := c\<rparr>" using p(2) by (auto simp: posted_def)
  then have post: "posted i ps ?r ?r1"
    using p(2) r(5,6) len(1) l1 by (simp add: posted_def set_qp_def) (rule conjI, rule exI [of _ c], simp, metis)
  have fd: "qp_fd (rn_qp ?r ! nat i) = fd" "qp_attributes (rn_qp ?r ! nat i) = Ptr a" and i: "i < int (length (rn_qp ?r))"
    using r(5,6,8) len(1) by (simp_all add: set_qp_def)
  from register_connection_starts [OF r(5) i fd inv(1-6) [unfolded w_def] peer [unfolded w_def] pd] obtain u k where
    u: "u_register_connection ?r i pd b n True (vs_low s) = ret (IWARP_OK, u)" "api_inv (vu_world u)"
      "sk_map (vu_world u) (of_int fd) = Some k" "rcq k = rq_cq a" "lists_set k" "send_q (rdmapsk k) = []" "cqs (vu_world u) = cqs w"
    unfolding w_def by blast
  have room: "\<not> cq_opt_full (rcq k) (vu_world u)" using inv(7) u(4,7) by (simp add: cq_opt_full_def cong: option.case_cong)
  obtain mm' where m: "nat retrys = Suc mm'" using sys(1) by (metis gr0_implies_Suc zero_less_nat_eq)
  let ?s2 = "s\<lparr>vs_mallocs := ms, vs_rnic := Ptr ?r1, vs_sys := as\<rparr>"
  have "iwarp_qp_active_connect user_stubs retrys i pd b n ?s1 = qp_connected_now user_stubs i pd b n True ?s2"
    using r(5,6) sys(2,3) l1 by (cases s) (simp add: iwarp_qp_active_connect_def vsys_def qp_socket_def elem_def m set_rnic_def)
  moreover have "rn_size ?r = int (length ws)" "take (length ws) (rn_queue ?r) = map recv_wr ws" "vs_rnic ?s2 = Ptr ?r1"
    "vs_low ?s2 = vs_low s" using r(3,4) by (simp_all add: set_qp_def)
  from connected_now_dispatches [OF this(3) post this(1,2) ps(1) r(5) i u(1) [folded this(4)] u(2)] u(3,5,6) room fd(1)
  obtain s2 r2 k' where "qp_connected_now user_stubs i pd b n True ?s2 = ret (IWARP_OK, s2)" "vs_rnic s2 = Ptr r2" "rn_size r2 = 0"
    "qp_connected (rn_qp r2 ! nat i) = 1" "sk_map (vu_world (vs_low s2)) (of_int fd) = Some k'" "send_q (rdmapsk k') = recv_bufs (ws @ ps)"
    by auto
  ultimately show ?thesis using p(1) by metis
qed

text \<open>An adapter whose first queue pair is in use, a library that has started, and a peer that answers the request.\<close>

definition demo_attrs :: "nat option qp_attrs" where
  "demo_attrs = \<lparr>sq_cq = Some 0, rq_cq = Some 1, sq_depth = 8, rq_depth = 8, rdma_r_enable = 1, rdma_w_enable = 1,
     bind_mem_window_enable = 0, send_sgl_max = 1, rdma_w_sgl_max = 1, recv_sgl_max = 1, qp_ord = 1, qp_ird = 1, prot_d_id = 0,
     zero_stag_enable = 0, disable_mpa_markers = 1, disable_mpa_crc = 1\<rparr>"

definition demo_adapter :: "'c qp_attrs ptr \<Rightarrow> 'c rnic" where
  "demo_adapter a = \<lparr>rn_qp = \<lparr>qp_fd = 0, qp_available = 0, qp_attributes = a, qp_connected = 0, qp_pre_posts = 0\<rparr>
       # replicate 9 \<lparr>qp_fd = 0, qp_available = 1, qp_attributes = Wild, qp_connected = 0, qp_pre_posts = 0\<rparr>,
     rn_pd = replicate 10 \<lparr>pd_available = 0, pd_in_use = 0\<rparr>,
     rn_queue = replicate 250 \<lparr>wr_id = 0, wr_sgl = Null, wr_remote_sgl = Null, wr_type = 0, wr_cq_type = 0\<rparr>, rn_size = 0, rn_fd = 0\<rparr>"

definition demo_world :: world where
  "demo_world = (world_start (\<lambda>_. conn_start (mpa_frame MPA_REP_KEY [104] False False 1)))
       \<lparr>cqs := (\<lambda>_. \<lparr>cqe = replicate 4 \<lparr>cqe_op = 0, cqe_status = 0, cqe_id = 0, cqe_msg_len = 0\<rparr>, num_cqe = 4, cq_prod = 0, cq_cons = 0\<rparr>)\<rparr>"

definition demo_lib :: vuser where
  "demo_lib = \<lparr>vu_world = demo_world, vu_mallocs = [], vu_next_cq = 2, vu_polls = (\<lambda>_. (0, False, [])), vu_npoll = 0,
     vu_junk_cqe = \<lparr>cqe_op = 0, cqe_status = 0, cqe_id = 0, cqe_msg_len = 0\<rparr>\<rparr>"

definition demo_verbs :: "'c qp_attrs \<Rightarrow> 'w \<Rightarrow> ('c, 'w) verbs" where
  "demo_verbs a w = \<lparr>vs_rnic = Ptr (demo_adapter (Ptr a)), vs_low = w, vs_mallocs = [True, True], vs_sys = [0, 5, 0, 0],
     vs_junk = demo_adapter Wild, vs_junk_attrs = a\<rparr>"

lemma demo_world_init: "rdmap_init demo_world = Done (0, demo_world)"
  by (simp add: rdmap_init_def iwsk_init_eq mpa_init_def demo_world_def world_start_def)

lemma demo_lib_ok:
  "api_inv (vu_world demo_lib)" "sk_map (vu_world demo_lib) sk = None" "pollsks (vu_world demo_lib) = []"
  "conns (vu_world demo_lib) sk = conn_start (mpa_frame MPA_REP_KEY [104] False False 1)" "\<not> cq_opt_full (Some q) (vu_world demo_lib)"
  "\<not> mpa_freed (vu_world demo_lib)"
proof -
  show "api_inv (vu_world demo_lib)"
    using api_inv_init [OF _ _ demo_world_init] by (simp add: demo_lib_def demo_world_def cq_inv_def mem_init_inv)
  show "sk_map (vu_world demo_lib) sk = None" by (simp add: demo_lib_def demo_world_def sk_map_def iwht_new_inv)
qed (simp_all add: demo_lib_def demo_world_def cq_opt_full_def cq_isfull_def cq_num_occupied_def world_start_def)

theorem preposted_receives_arrive_witness:
  "\<exists>s1 s2 r2 k. verbs_run user_stubs (map (\<lambda>p. VPostRq 0 (recv_wr p)) [(0x1000, 64, 7, 0), (0x2000, 32, 8, 0)]) (demo_verbs demo_attrs demo_lib)
      = ret ([IWARP_OK, IWARP_OK], s1)
    \<and> iwarp_qp_active_connect user_stubs 3 0 [104] 0x3000 16 s1 = ret (IWARP_OK, s2)
    \<and> vs_rnic s2 = Ptr r2 \<and> rn_size r2 = 0 \<and> qp_connected (rn_qp r2 ! 0) = 1
    \<and> sk_map (vu_world (vs_low s2)) 5 = Some k
    \<and> send_q (rdmapsk k) = [\<lparr>uw_id = 7, uw_buf = 0x1000, uw_len = 64\<rparr>, \<lparr>uw_id = 8, uw_buf = 0x2000, uw_len = 32\<rparr>]"
proof -
  let ?s = "demo_verbs demo_attrs demo_lib" and ?r = "demo_adapter (Ptr demo_attrs)"
  have r: "vs_rnic ?s = Ptr ?r" "vs_low ?s = demo_lib" "vs_mallocs ?s = [True, True]" "vs_sys ?s = [0, 5, 0, 0]"
    by (simp_all add: demo_verbs_def)
  have r2: "rnic_shape ?r" "rn_size ?r = int (length [])" "take (length []) (rn_queue ?r) = map recv_wr []" "qp_connected (rn_qp ?r ! nat 0) = 0" "qp_attributes (rn_qp ?r ! nat 0) = Ptr demo_attrs"
    by (simp_all add: demo_adapter_def rnic_shape_def)
  have a: "rq_cq demo_attrs = Some 1" by (simp add: demo_attrs_def)
  have ps: "vs_mallocs ?s = replicate (length [(0x1000, 64, 7, 0), (0x2000 :: u64, 32 :: u32, 8 :: u64, 0 :: stag)]) True @ []"
    "vs_sys ?s = [0, 5, 0, 0] @ []" using r by simp_all
  have c: "ip_mtu (conns (vu_world (vs_low ?s)) (of_int 5)) = Some 1500" "conn_ok (conns (vu_world (vs_low ?s)) (of_int 5))"
    "rx (conns (vu_world (vs_low ?s)) (of_int 5)) = mpa_frame MPA_REP_KEY [104] False False 1 @ []"
    "length (pollsks (vu_world (vs_low ?s))) < MAX_SOCKETS" "\<not> cq_opt_full (rq_cq demo_attrs) (vu_world (vs_low ?s))"
    "length (pd_bytes [104]) \<le> unat (of_int 16 :: u16)" "api_inv (vu_world (vs_low ?s))" "sk_map (vu_world (vs_low ?s)) (of_int 5) = None"
    "\<not> mpa_freed (vu_world (vs_low ?s))" "nodelay_ok (conns (vu_world (vs_low ?s)) (of_int 5))"
    unfolding r(2) a demo_lib_ok(3,4) by (simp_all add: conn_start_def conn_ok_def no_errors_def demo_lib_ok pd_bytes_def)
  show ?thesis
    using preposted_receives_arrive [of ?s ?r "[]" 0 demo_attrs "[(0x1000, 64, 7, 0), (0x2000, 32, 8, 0)]" "[]" 3 5 "[]" 1500 "[104]" False False "[]"
        "[104]" "0x3000" 16, OF r(1) r2(1,2,3) _ _ r2(4,5) _ _ ps(1) _ ps(2) _ c(7,8,1,4,9,10,5,2,3) _ _ _ c(6)]
    by (simp add: recv_bufs_def)
qed

section \<open>The books of the adapter\<close>

text \<open>
  What holds of an adapter the process uses: a queue pair in use has its attributes, within the limits; the
  waiting receives fit their queue and have their copied lists; and destroying a queue pair comes back,
  whatever its index in the table.
\<close>

definition adapter_books :: "('c, 'w) verbs \<Rightarrow> bool" where
  "adapter_books s \<longleftrightarrow> (\<forall>r. vs_rnic s = Ptr r \<longrightarrow>
     (\<forall>q\<in>set (rn_qp r). qp_available q = 0 \<longrightarrow> qp_connected q \<in> {0, 1} \<and> (\<exists>a. qp_attributes q = Ptr a \<and> attrs_ok a))
     \<and> 0 \<le> rn_size r \<and> rn_size r \<le> int MAX_WRQ \<and> (\<forall>i<nat (rn_size r). wr_queued (rn_queue r ! i))
     \<and> (\<forall>i. 0 \<le> i \<and> i < int MAX_QP \<longrightarrow> (\<exists>st s'. iwarp_qp_destroy i s = ret (st, s'))))"

lemma call_cases: "m \<noteq> crash \<Longrightarrow> m \<noteq> None \<Longrightarrow> \<exists>x. m = ret x"
  by (cases m) (auto split: outcome.splits, metis outcome.exhaust)

lemma verbs_inv_books:
  assumes "verbs_inv s"
  shows "adapter_books s"
proof -
  have "\<exists>st s'. iwarp_qp_destroy i s = ret (st, s')" if "vs_rnic s = Ptr r" "0 \<le> i" "i < int MAX_QP" for r i
    using call_cases [of "iwarp_qp_destroy i s"] iwarp_qp_destroy_returns [OF assms that] by auto
  moreover have "qp_connected q \<in> {0, 1} \<and> (\<exists>a. qp_attributes q = Ptr a \<and> attrs_ok a)"
    if "vs_rnic s = Ptr r" "q \<in> set (rn_qp r)" "qp_available q = 0" for r q
  proof -
    have "qp_ok q" using assms that(1,2) by (simp add: verbs_inv_def rnic_ok_def)
    with that(3) show ?thesis by (simp add: qp_ok_def)
  qed
  ultimately show ?thesis
    using assms by (simp add: adapter_books_def verbs_inv_def rnic_ok_def)
qed

text \<open>
  C38. The books of the adapter. Start from a process that has no adapter. Whatever verbs it runs, in whatever order and with
  whatever arguments, in the build over the library and in the build over the kernel module, as long as no
  verb crashes or hangs: every queue pair in use has its attributes, within the limits; the waiting receives fit their queue and
  are copies with as many elements as they say; and destroying any queue pair of the table returns.
\<close>

theorem verbs_books:
  fixes s0 :: "(nat option, vuser) verbs" and k0 :: "(u64, vkern) verbs"
  assumes "vs_rnic s0 = Null" "rnic_shape (vs_junk s0)" "vs_rnic k0 = Null" "rnic_shape (vs_junk k0)"
  shows "(\<forall>vs sts s. verbs_run user_stubs vs s0 = ret (sts, s) \<longrightarrow> adapter_books s)
    \<and> (\<forall>vs sts s. verbs_run kernel_stubs vs k0 = ret (sts, s) \<longrightarrow> adapter_books s)"
proof -
  have i: "verbs_inv s0" "verbs_inv k0" using assms by (simp_all add: verbs_inv_def)
  show ?thesis
    using okC_D [OF user_build.verbs_run_inv [OF i(1)]] okC_D [OF kernel_build.verbs_run_inv [OF i(2)]] by (auto intro!: verbs_inv_books)
qed

definition demo_start :: "'c qp_attrs \<Rightarrow> 'w \<Rightarrow> ('c, 'w) verbs" where
  "demo_start a w = \<lparr>vs_rnic = Null, vs_low = w, vs_mallocs = replicate 4 True, vs_sys = [], vs_junk = demo_adapter Wild, vs_junk_attrs = a\<rparr>"

definition demo_verb_calls :: "(nat option, mem_desc) verb list" where
  "demo_verb_calls = [VOpen 0 0, VPdAllocate, VQpCreate demo_attrs, VPostRq 0 (recv_wr (0x1000, 64, 7, 0))]"

lemma demo_verb_run:
  "case verbs_run user_stubs demo_verb_calls (demo_start demo_attrs demo_lib) of
     Some (Done (sts, s)) \<Rightarrow> sts = [0, 0, 0, 0] \<and> (case vs_rnic s of Ptr r \<Rightarrow> qp_available (rn_qp r ! 0) = 0 \<and> rn_size r = 1 | _ \<Rightarrow> False)
   | _ \<Rightarrow> False"
  by code_simp

theorem verbs_books_witness:
  "\<exists>s r. verbs_run user_stubs demo_verb_calls (demo_start demo_attrs demo_lib) = ret ([0, 0, 0, 0], s) \<and> adapter_books s
     \<and> vs_rnic s = Ptr r \<and> qp_available (rn_qp r ! 0) = 0 \<and> rn_size r = 1"
proof -
  let ?k0 = "demo_start undefined undefined :: (u64, vkern) verbs"
  obtain sts s where run: "verbs_run user_stubs demo_verb_calls (demo_start demo_attrs demo_lib) = ret (sts, s)"
    using demo_verb_run by (auto split: option.splits outcome.splits)
  note c = demo_verb_run [unfolded run option.case outcome.case prod.case]
  obtain r where "vs_rnic s = Ptr r" using c by (cases "vs_rnic s") simp_all
  with c run have r: "verbs_run user_stubs demo_verb_calls (demo_start demo_attrs demo_lib) = ret ([0, 0, 0, 0], s)"
    "vs_rnic s = Ptr r" "qp_available (rn_qp r ! 0) = 0" "rn_size r = 1" by simp_all
  have "vs_rnic (demo_start demo_attrs demo_lib) = Null" "rnic_shape (vs_junk (demo_start demo_attrs demo_lib))"
    "vs_rnic ?k0 = Null" "rnic_shape (vs_junk ?k0)"
    by (simp_all add: demo_start_def demo_adapter_def rnic_shape_def)
  from conjunct1 [OF verbs_books [OF this]] r show ?thesis by blast
qed

end
