(* ===== verification/V_Ofab.thy ===== *)
theory V_Ofab
  imports V_Qp
begin

text \<open>
  The OpenFabrics interface over the verbs (\<open>verbs/openfab.c\<close>): the connection manager with its events, and the
  verbs of \<open>libibverbs\<close>. Its objects are blocks of the heap that point to one another, so the state keeps one
  map from addresses to structures for each type, with the blocks that have not been freed. A pointer is
  null, wild (never set, or set to something that is no block), or an address; a load through a pointer to a block that
  is gone is undefined. Fields that this code neither sets nor reads are left out.

  A context opens an adapter of its own, so the adapters lie in a map too, by their handles. A verb runs on the
  one its handle points to; the handle 0 is that of a context that has not opened one.
\<close>

section \<open>The objects\<close>

type_synonym ref = "nat ptr"

record of_chan =
  ch_fd :: int
  ch_next :: int
  ch_conn_valid :: int
  ch_id :: ref

record of_info =
  sw_port :: int
  sw_rnic :: nat
  sw_host :: "string ptr"
  sw_fd :: int
  sw_listening :: int

record of_id =
  id_verbs :: ref
  id_channel :: ref
  id_context :: u64
  id_qp :: ref
  id_port :: u8
  id_swinfo :: ref

record of_event =
  ev_id :: ref
  ev_event :: int

record of_pd =
  pd_context :: ref
  pd_sw :: int

record 'c of_cq =
  cq_context :: ref
  cq_sw :: 'c

record 'm of_mr =
  mr_context :: ref
  mr_pd :: ref
  mr_lkey :: u32
  mr_rkey :: u32
  mr_sw :: 'm

record of_qp =
  oq_context :: ref
  oq_sw :: int

text \<open>What fresh blocks and variables hold before they are set.\<close>

record ('c, 'm) of_junk =
  jk_chan :: of_chan
  jk_id :: of_id
  jk_info :: of_info
  jk_qp :: of_qp
  jk_cq :: 'c
  jk_stag :: stag
  jk_md :: 'm
  jk_sgl :: iwarp_sgl
  jk_stack :: u64

text \<open>
  \<open>of_selects\<close> and \<open>of_reads\<close> are the answers, for each descriptor, to the calls of \<open>select\<close> and \<open>read\<close> in the
  loops that wait.
\<close>

record ('c, 'm, 'w) ofab =
  of_verbs :: "('c, 'w) verbs"
  of_rnics :: "nat \<Rightarrow> 'c rnic ptr"
  of_chans :: "nat \<rightharpoonup> of_chan"
  of_ids :: "nat \<rightharpoonup> of_id"
  of_ctxs :: "nat \<rightharpoonup> ref"
  of_infos :: "nat \<rightharpoonup> of_info"
  of_events :: "nat \<rightharpoonup> of_event"
  of_pds :: "nat \<rightharpoonup> of_pd"
  of_cqs :: "nat \<rightharpoonup> 'c of_cq"
  of_mrs :: "nat \<rightharpoonup> 'm of_mr"
  of_qps :: "nat \<rightharpoonup> of_qp"
  of_next :: nat
  of_selects :: "int \<Rightarrow> nat \<Rightarrow> int"
  of_reads :: "int \<Rightarrow> nat \<Rightarrow> int"
  of_junk :: "('c, 'm) of_junk"

section \<open>The heap\<close>

definition omalloc :: "('c, 'm, 'w) ofab \<Rightarrow> ref \<times> ('c, 'm, 'w) ofab" where
  "omalloc s = (let (m, v) = vmalloc (of_verbs s); s = s\<lparr>of_verbs := v\<rparr>
                in if m then (Ptr (of_next s), s\<lparr>of_next := of_next s + 1\<rparr>) else (Null, s))"

definition osys :: "('c, 'm, 'w) ofab \<Rightarrow> int \<times> ('c, 'm, 'w) ofab" where
  "osys s = (let (a, v) = vsys (of_verbs s) in (a, s\<lparr>of_verbs := v\<rparr>))"

definition load :: "(nat \<rightharpoonup> 'a) \<Rightarrow> ref \<Rightarrow> (nat \<Rightarrow> 'a \<Rightarrow> 'b call) \<Rightarrow> 'b call" where
  "load h p f = deref p (\<lambda>n. case h n of None \<Rightarrow> crash | Some x \<Rightarrow> f n x)"

text \<open>\<open>free\<close>: nothing for the null pointer, undefined for what is not a block.\<close>

definition release :: "(nat \<rightharpoonup> 'a) \<Rightarrow> ref \<Rightarrow> ((nat \<rightharpoonup> 'a) \<Rightarrow> 'b call) \<Rightarrow> 'b call" where
  "release h p f = (case p of Null \<Rightarrow> f h | Wild \<Rightarrow> crash | Ptr n \<Rightarrow> if h n = None then crash else f (h(n := None)))"

text \<open>A verb on the adapter of a handle, which may also hand out a value.\<close>

definition on_rnic_out :: "nat \<Rightarrow> (('c, 'w) verbs \<Rightarrow> (int \<times> 'x \<times> ('c, 'w) verbs) call) \<Rightarrow> ('c, 'm, 'w) ofab
    \<Rightarrow> (int \<times> 'x \<times> ('c, 'm, 'w) ofab) call" where
  "on_rnic_out h f s = bindC (f ((of_verbs s)\<lparr>vs_rnic := of_rnics s h\<rparr>)) (\<lambda>(st, x, v).
     ret (st, x, s\<lparr>of_verbs := v, of_rnics := (of_rnics s)(h := vs_rnic v)\<rparr>))"

definition on_rnic :: "nat \<Rightarrow> (('c, 'w) verbs \<Rightarrow> (int \<times> ('c, 'w) verbs) call) \<Rightarrow> ('c, 'm, 'w) ofab \<Rightarrow> (int \<times> ('c, 'm, 'w) ofab) call" where
  "on_rnic h f s = bindC (f ((of_verbs s)\<lparr>vs_rnic := of_rnics s h\<rparr>)) (\<lambda>(st, v).
     ret (st, s\<lparr>of_verbs := v, of_rnics := (of_rnics s)(h := vs_rnic v)\<rparr>))"

text \<open>\<open>context->swinfo\<close>.\<close>

definition info_of :: "ref \<Rightarrow> ('c, 'm, 'w) ofab \<Rightarrow> (nat \<Rightarrow> of_info \<Rightarrow> 'b call) \<Rightarrow> 'b call" where
  "info_of ctx s f = load (of_ctxs s) ctx (\<lambda>_ p. load (of_infos s) p f)"

definition set_info :: "nat \<Rightarrow> of_info \<Rightarrow> ('c, 'm, 'w) ofab \<Rightarrow> ('c, 'm, 'w) ofab" where
  "set_info n i s = s\<lparr>of_infos := (of_infos s)(n \<mapsto> i)\<rparr>"

definition set_id :: "nat \<Rightarrow> of_id \<Rightarrow> ('c, 'm, 'w) ofab \<Rightarrow> ('c, 'm, 'w) ofab" where
  "set_id n i s = s\<lparr>of_ids := (of_ids s)(n \<mapsto> i)\<rparr>"

section \<open>Events\<close>

abbreviation (input) EVENT_ADDR_RESOLVED :: int where "EVENT_ADDR_RESOLVED \<equiv> 0"
abbreviation (input) EVENT_ROUTE_RESOLVED :: int where "EVENT_ROUTE_RESOLVED \<equiv> 2"
abbreviation (input) EVENT_CONNECT_REQUEST :: int where "EVENT_CONNECT_REQUEST \<equiv> 4"
abbreviation (input) EVENT_REJECTED :: int where "EVENT_REJECTED \<equiv> 8"
abbreviation (input) EVENT_ESTABLISHED :: int where "EVENT_ESTABLISHED \<equiv> 9"
abbreviation (input) EVENT_DISCONNECTED :: int where "EVENT_DISCONNECTED \<equiv> 10"

text \<open>\<open>id->channel->next_event = e; id->channel->cm_id = i\<close>.\<close>

definition next_event :: "ref \<Rightarrow> int \<Rightarrow> ref \<Rightarrow> ('c, 'm, 'w) ofab \<Rightarrow> (('c, 'm, 'w) ofab \<Rightarrow> 'b call) \<Rightarrow> 'b call" where
  "next_event ch e i s f = load (of_chans s) ch (\<lambda>n c. f (s\<lparr>of_chans := (of_chans s)(n \<mapsto> c\<lparr>ch_next := e, ch_id := i\<rparr>)\<rparr>))"

text \<open>\<open>for (;;) { ret = select(...); if (ret) break; usleep(1000); }\<close> and the loop that reads until an error.\<close>

partial_function (option) select_loop :: "(nat \<Rightarrow> int) \<Rightarrow> nat \<Rightarrow> nat option" where
  "select_loop a n = (if a n \<noteq> 0 then Some (Suc n) else select_loop a (Suc n))"

partial_function (option) read_loop :: "(nat \<Rightarrow> int) \<Rightarrow> nat \<Rightarrow> nat option" where
  "read_loop a n = (if a n < 0 then Some (Suc n) else read_loop a (Suc n))"

declare select_loop.simps [code] read_loop.simps [code]

definition rdma_create_event_channel :: "('c, 'm, 'w) ofab \<Rightarrow> (ref \<times> ('c, 'm, 'w) ofab) call" where
  "rdma_create_event_channel s =
     (let (p, s) = omalloc s in
      deref p (\<lambda>n. ret (p, s\<lparr>of_chans := (of_chans s)(n \<mapsto> (jk_chan (of_junk s))\<lparr>ch_conn_valid := 1\<rparr>)\<rparr>)))"

definition rdma_destroy_event_channel :: "ref \<Rightarrow> ('c, 'm, 'w) ofab \<Rightarrow> ('c, 'm, 'w) ofab call" where
  "rdma_destroy_event_channel ch s = release (of_chans s) ch (\<lambda>h. ret (s\<lparr>of_chans := h\<rparr>))"

text \<open>What a \<open>fd_set\<close> has room for: \<open>FD_SET\<close> of another descriptor is undefined.\<close>

abbreviation (input) FD_SETSIZE :: int where "FD_SETSIZE \<equiv> 1024"

text \<open>The wait for the peer to close comes before the event is handed out; the block of the event is not tested.\<close>

definition rdma_get_cm_event :: "ref \<Rightarrow> ('c, 'm, 'w) ofab \<Rightarrow> (int \<times> ref \<times> ('c, 'm, 'w) ofab) call" where
  "rdma_get_cm_event ch s =
     (let (p, s) = omalloc s in
      load (of_chans s) ch (\<lambda>n c.
        if ch_next c = EVENT_CONNECT_REQUEST \<and> (ch_fd c < 0 \<or> FD_SETSIZE \<le> ch_fd c) then crash
        else Option.bind (if ch_next c = EVENT_CONNECT_REQUEST
                     then map_option (\<lambda>k. s\<lparr>of_selects := (of_selects s)(ch_fd c := \<lambda>i. of_selects s (ch_fd c) (k + i))\<rparr>)
                            (select_loop (of_selects s (ch_fd c)) 0)
                     else Some s) (\<lambda>s.
        Option.bind (if ch_next c = EVENT_ESTABLISHED \<and> ch_conn_valid c = 0
                     then map_option (\<lambda>k. (c\<lparr>ch_next := EVENT_DISCONNECTED\<rparr>,
                              s\<lparr>of_reads := (of_reads s)(ch_fd c := \<lambda>i. of_reads s (ch_fd c) (k + i))\<rparr>))
                            (read_loop (of_reads s (ch_fd c)) 0)
                     else Some (c, s)) (\<lambda>(c, s).
          let c = (if ch_next c = EVENT_ESTABLISHED \<and> ch_conn_valid c = 1 then c\<lparr>ch_conn_valid := 0\<rparr> else c);
              s = s\<lparr>of_chans := (of_chans s)(n \<mapsto> c)\<rparr>
          in deref p (\<lambda>e. ret (0, p, s\<lparr>of_events := (of_events s)(e \<mapsto> \<lparr>ev_id = ch_id c, ev_event = ch_next c\<rparr>)\<rparr>))))))"

definition rdma_ack_cm_event :: "ref \<Rightarrow> ('c, 'm, 'w) ofab \<Rightarrow> (int \<times> ('c, 'm, 'w) ofab) call" where
  "rdma_ack_cm_event ev s = release (of_events s) ev (\<lambda>h. ret (0, s\<lparr>of_events := h\<rparr>))"

section \<open>Identifiers\<close>

text \<open>The three blocks of an identifier, its context and what hangs off it; none of them is tested.\<close>

definition new_id :: "of_info \<Rightarrow> (ref \<Rightarrow> of_id) \<Rightarrow> ('c, 'm, 'w) ofab \<Rightarrow> (ref \<times> ('c, 'm, 'w) ofab) call" where
  "new_id i mk s =
     (let (pid, s) = omalloc s; (pctx, s) = omalloc s; (pinfo, s) = omalloc s
      in deref pinfo (\<lambda>ni. deref pctx (\<lambda>nc. deref pid (\<lambda>nd.
           ret (pid, s\<lparr>of_infos := (of_infos s)(ni \<mapsto> i), of_ctxs := (of_ctxs s)(nc \<mapsto> pinfo), of_ids := (of_ids s)(nd \<mapsto> mk pctx)\<rparr>)))))"

definition rdma_create_id :: "ref \<Rightarrow> u64 \<Rightarrow> ('c, 'm, 'w) ofab \<Rightarrow> (int \<times> ref \<times> ('c, 'm, 'w) ofab) call" where
  "rdma_create_id ch context s =
     bindC (new_id ((jk_info (of_junk s))\<lparr>sw_rnic := 0, sw_fd := - 1, sw_listening := 0\<rparr>)
              (\<lambda>v. (jk_id (of_junk s))\<lparr>id_channel := ch, id_verbs := v, id_context := context, id_qp := Null, id_port := 99\<rparr>) s)
       (\<lambda>(p, s). ret (0, p, s))"

text \<open>The port in the address is in network order; the identifier keeps its low byte only.\<close>

definition rdma_bind_addr :: "ref \<Rightarrow> u16 \<Rightarrow> ('c, 'm, 'w) ofab \<Rightarrow> (int \<times> ('c, 'm, 'w) ofab) call" where
  "rdma_bind_addr cid sin_port s =
     load (of_ids s) cid (\<lambda>n d.
     let s = set_id n (d\<lparr>id_port := ucast (ntohs sin_port)\<rparr>) s in
     info_of (id_verbs d) s (\<lambda>m i. ret (0, set_info m (i\<lparr>sw_port := uint (ntohs sin_port)\<rparr>) s)))"

text \<open>\<open>id->swinfo\<close>, which is freed, is set nowhere; what hangs off the context is not freed.\<close>

definition rdma_destroy_id :: "ref \<Rightarrow> ('c, 'm, 'w) ofab \<Rightarrow> (int \<times> ('c, 'm, 'w) ofab) call" where
  "rdma_destroy_id cid s =
     load (of_ids s) cid (\<lambda>n d.
     release (of_ctxs s) (id_verbs d) (\<lambda>hc.
     release (of_infos s) (id_swinfo d) (\<lambda>hi.
       ret (0, s\<lparr>of_ctxs := hc, of_infos := hi, of_ids := (of_ids s)(n := None)\<rparr>))))"

text \<open>The adapter of a context is opened on its first use.\<close>

definition check_open :: "('c, 'm, 'w) stubs \<Rightarrow> ref \<Rightarrow> ('c, 'm, 'w) ofab \<Rightarrow> (int \<times> ('c, 'm, 'w) ofab) call" where
  "check_open B ctx s =
     info_of ctx s (\<lambda>m i.
       if sw_rnic i \<noteq> 0 then ret (0, s)
       else bindC (iwarp_rnic_open B 0 0 ((of_verbs s)\<lparr>vs_rnic := Null\<rparr>)) (\<lambda>(st, v).
              if st \<noteq> 0 then ret (- 1, s\<lparr>of_verbs := v\<rparr>)
              else let h = of_next s
                   in ret (0, set_info m (i\<lparr>sw_rnic := h\<rparr>) (s\<lparr>of_verbs := v, of_rnics := (of_rnics s)(h := vs_rnic v), of_next := h + 1\<rparr>))))"

section \<open>Connections\<close>

text \<open>
  \<open>rdma_resolve_addr\<close>: \<open>host\<close> is the name \<open>gethostbyaddr\<close> finds. The event is set before the adapter is opened.
\<close>

definition rdma_resolve_addr :: "('c, 'm, 'w) stubs \<Rightarrow> ref \<Rightarrow> u16 \<Rightarrow> string option \<Rightarrow> ('c, 'm, 'w) ofab \<Rightarrow> (int \<times> ('c, 'm, 'w) ofab) call" where
  "rdma_resolve_addr B cid sin_port host s =
     (case host of
        None \<Rightarrow> ret (- 1, s)
      | Some name \<Rightarrow>
          load (of_ids s) cid (\<lambda>n d.
          let s = set_id n (d\<lparr>id_port := ucast (ntohs sin_port)\<rparr>) s in
          info_of (id_verbs d) s (\<lambda>m i.
            let (c, v) = vmalloc (of_verbs s);
                s = set_info m (i\<lparr>sw_port := uint (ntohs sin_port), sw_host := (if c then Ptr name else Null)\<rparr>) (s\<lparr>of_verbs := v\<rparr>)
            in next_event (id_channel d) EVENT_ADDR_RESOLVED cid s (check_open B (id_verbs d)))))"

definition rdma_resolve_route :: "ref \<Rightarrow> ('c, 'm, 'w) ofab \<Rightarrow> (int \<times> ('c, 'm, 'w) ofab) call" where
  "rdma_resolve_route cid s =
     load (of_ids s) cid (\<lambda>_ d. next_event (id_channel d) EVENT_ROUTE_RESOLVED cid s (\<lambda>s. ret (0, s)))"

text \<open>\<open>GET_OUT\<close> of \<open>rdma_listen\<close> and \<open>rdma_accept\<close>.\<close>

definition rejected :: "ref \<Rightarrow> int \<Rightarrow> ('c, 'm, 'w) ofab \<Rightarrow> (int \<times> ('c, 'm, 'w) ofab) call" where
  "rejected cid st s = load (of_ids s) cid (\<lambda>_ d. next_event (id_channel d) EVENT_REJECTED cid s (\<lambda>s. ret (st, s)))"

text \<open>The calls after \<open>socket\<close>: \<open>setsockopt\<close>, \<open>bind\<close> and \<open>listen\<close>, until one fails.\<close>

fun sys_calls :: "nat \<Rightarrow> ('c, 'm, 'w) ofab \<Rightarrow> bool \<times> ('c, 'm, 'w) ofab" where
  "sys_calls 0 s = (True, s)"
| "sys_calls (Suc k) s = (let (a, s) = osys s in if a < 0 then (False, s) else sys_calls k s)"

definition rdma_listen :: "('c, 'm, 'w) stubs \<Rightarrow> ref \<Rightarrow> int \<Rightarrow> ('c, 'm, 'w) ofab \<Rightarrow> (int \<times> ('c, 'm, 'w) ofab) call" where
  "rdma_listen B cid backlog s =
     load (of_ids s) cid (\<lambda>_ d.
     bindC (check_open B (id_verbs d) s) (\<lambda>(st, s).
     if st \<noteq> 0 then rejected cid st s
     else info_of (id_verbs d) s (\<lambda>m i.
       bindC (on_rnic_out (sw_rnic i) iwarp_rnic_query s) (\<lambda>(st, _, s).
       if st \<noteq> 0 then rejected cid st s
       else let (fd, s) = osys s; i = i\<lparr>sw_fd := fd\<rparr>; s = set_info m i s in
       if fd < 0 then rejected cid IWARP_CAN_NOT_BUILD_SOCKET s
       else let (ok, s) = sys_calls 3 s in
       if \<not> ok then rejected cid IWARP_CAN_NOT_BUILD_SOCKET s
       else let s = set_info m (i\<lparr>sw_listening := 1\<rparr>) s in
       bindC (new_id ((jk_info (of_junk s))\<lparr>sw_rnic := sw_rnic i, sw_fd := fd, sw_listening := 0\<rparr>)
                (\<lambda>v. (jk_id (of_junk s))\<lparr>id_channel := id_channel d, id_verbs := v, id_context := id_context d, id_qp := id_qp d, id_port := 80\<rparr>) s)
         (\<lambda>(p, s). next_event (id_channel d) EVENT_CONNECT_REQUEST p s (\<lambda>s.
                   load (of_chans s) (id_channel d) (\<lambda>n c.
                     ret (0, s\<lparr>of_chans := (of_chans s)(n \<mapsto> c\<lparr>ch_fd := fd\<rparr>)\<rparr>))))))))"

text \<open>The private data of the client is the text \<open>client\<close>; the peer's goes to a variable of 200 bytes.\<close>

definition rdma_connect :: "('c, 'm, 'w) stubs \<Rightarrow> ref \<Rightarrow> ('c, 'm, 'w) ofab \<Rightarrow> (int \<times> ('c, 'm, 'w) ofab) call" where
  "rdma_connect B cid s =
     load (of_ids s) cid (\<lambda>_ d.
     info_of (id_verbs d) s (\<lambda>_ i.
     load (of_qps s) (id_qp d) (\<lambda>_ q.
     deref (sw_host i) (\<lambda>_.
     bindC (on_rnic (sw_rnic i) (iwarp_qp_active_connect B 1000 (oq_sw q) [99, 108, 105, 101, 110, 116] (jk_stack (of_junk s)) 200) s) (\<lambda>(st, s).
       if st \<noteq> IWARP_OK then ret (- 1, s)
       else next_event (id_channel d) EVENT_ESTABLISHED cid s (\<lambda>s. ret (0, s)))))))"

text \<open>
  Accepting, registering and dispatching, here with the status of the registration looked at. A value other than 0
  stands for the ways to \<open>GET_OUT\<close>.
\<close>

definition accept_connection :: "('c, 'm, 'w) stubs \<Rightarrow> int \<Rightarrow> u64 \<Rightarrow> ('c, 'w) verbs \<Rightarrow> (int \<times> ('c, 'w) verbs) call" where
  "accept_connection B qp_id buf v =
     bindC (qp_socket qp_id v) (\<lambda>(fd, v).
     if fd < 0 then ret (- 1, v)
     else deref (vs_rnic v) (\<lambda>r.
     bindC (low (st_register_connection B r qp_id [] buf 200 False) v) (\<lambda>(st, v).
     if st \<noteq> 0 then ret (st, v)
     else elem (rn_qp r) qp_id (\<lambda>q.
            iwarp_recv_event_dispatcher B (qp_fd q) (set_rnic (set_qp qp_id (q\<lparr>qp_connected := 1\<rparr>) r) v)))))"

definition rdma_accept :: "('c, 'm, 'w) stubs \<Rightarrow> ref \<Rightarrow> ('c, 'm, 'w) ofab \<Rightarrow> (int \<times> ('c, 'm, 'w) ofab) call" where
  "rdma_accept B cid s =
     load (of_ids s) cid (\<lambda>_ d.
     info_of (id_verbs d) s (\<lambda>_ i.
     load (of_qps s) (id_qp d) (\<lambda>_ q.
     bindC (on_rnic_out (sw_rnic i) iwarp_rnic_query s) (\<lambda>(st, _, s).
     if st \<noteq> IWARP_OK then ret (st, s)
     else bindC (on_rnic (sw_rnic i) (accept_connection B (oq_sw q) (jk_stack (of_junk s))) s) (\<lambda>(st, s).
     if st \<noteq> 0 then rejected cid IWARP_CAN_NOT_ACCEPT_CONNECTION s
     else next_event (id_channel d) EVENT_ESTABLISHED cid s (\<lambda>s. ret (0, s)))))))"

section \<open>Queue pairs of an identifier\<close>

record of_qp_cap =
  max_send_wr :: u32
  max_recv_wr :: u32
  max_send_sge :: u32
  max_recv_sge :: u32

definition rdma_create_qp :: "ref \<Rightarrow> ref \<Rightarrow> ref \<Rightarrow> ref \<Rightarrow> of_qp_cap \<Rightarrow> ('c, 'm, 'w) ofab \<Rightarrow> (int \<times> ('c, 'm, 'w) ofab) call" where
  "rdma_create_qp cid pd send_cq recv_cq cap s =
     load (of_pds s) pd (\<lambda>_ pdr.
     load (of_ctxs s) (pd_context pdr) (\<lambda>_ i1.
     load (of_ids s) cid (\<lambda>n d.
     load (of_ctxs s) (id_verbs d) (\<lambda>_ i2.
     if i1 \<noteq> i2 then ret (- 1, s)
     else load (of_cqs s) send_cq (\<lambda>_ scq. load (of_cqs s) recv_cq (\<lambda>_ rcq.
     if max_send_wr cap > of_nat MAX_WRQ \<or> max_recv_wr cap > of_nat MAX_WRQ then ret (- 1, s)
     else if max_send_sge cap > MAX_S_SGL \<or> max_recv_sge cap > MAX_S_SGL then ret (- 1, s)
     else let attrs = \<lparr>sq_cq = cq_sw scq, rq_cq = cq_sw rcq, sq_depth = max_send_wr cap, rq_depth = max_recv_wr cap,
                rdma_r_enable = 1, rdma_w_enable = 1, bind_mem_window_enable = 0, send_sgl_max = max_send_sge cap,
                rdma_w_sgl_max = MAX_RDMA_W_SGL, recv_sgl_max = max_recv_sge cap, qp_ord = MAX_ORD, qp_ird = MAX_IRD,
                prot_d_id = pd_sw pdr, zero_stag_enable = 0, disable_mpa_markers = 1, disable_mpa_crc = 1\<rparr>;
              (p, s) = omalloc s; s = set_id n (d\<lparr>id_qp := p\<rparr>) s in
     deref p (\<lambda>nq.
     load (of_infos s) i2 (\<lambda>_ i.
     bindC (on_rnic_out (sw_rnic i) (iwarp_qp_create attrs) s) (\<lambda>(st, k, s).
       let q = jk_qp (of_junk s); q = (case k of None \<Rightarrow> q | Some k \<Rightarrow> q\<lparr>oq_sw := k\<rparr>)
       in if st \<noteq> 0 then ret (- 1, s\<lparr>of_qps := (of_qps s)(nq \<mapsto> q)\<rparr>)
          else ret (0, s\<lparr>of_qps := (of_qps s)(nq \<mapsto> q\<lparr>oq_context := id_verbs d\<rparr>)\<rparr>))))))))))"

text \<open>\<open>qp->context->swinfo->rnic_hndl\<close> and \<open>qp->sw_qp\<close>.\<close>

definition on_qp :: "ref \<Rightarrow> (int \<Rightarrow> ('c, 'w) verbs \<Rightarrow> (int \<times> ('c, 'w) verbs) call) \<Rightarrow> ('c, 'm, 'w) ofab \<Rightarrow> (int \<times> ('c, 'm, 'w) ofab) call" where
  "on_qp qp f s = load (of_qps s) qp (\<lambda>_ q. info_of (oq_context q) s (\<lambda>_ i. on_rnic (sw_rnic i) (f (oq_sw q)) s))"

definition rdma_disconnect :: "('c, 'm, 'w) stubs \<Rightarrow> ref \<Rightarrow> ('c, 'm, 'w) ofab \<Rightarrow> (int \<times> ('c, 'm, 'w) ofab) call" where
  "rdma_disconnect B cid s =
     load (of_ids s) cid (\<lambda>_ d. bindC (on_qp (id_qp d) (iwarp_qp_disconnect B) s) (\<lambda>(st, s). ret (if st \<noteq> 0 then - 1 else st, s)))"

definition rdma_destroy_qp :: "ref \<Rightarrow> ('c, 'm, 'w) ofab \<Rightarrow> ('c, 'm, 'w) ofab call" where
  "rdma_destroy_qp cid s =
     load (of_ids s) cid (\<lambda>_ d. bindC (on_qp (id_qp d) iwarp_qp_destroy s) (\<lambda>(_, s).
       release (of_qps s) (id_qp d) (\<lambda>h. ret (s\<lparr>of_qps := h\<rparr>))))"

section \<open>The verbs of OpenFabrics\<close>

definition ibv_alloc_pd :: "ref \<Rightarrow> ('c, 'm, 'w) ofab \<Rightarrow> (ref \<times> ('c, 'm, 'w) ofab) call" where
  "ibv_alloc_pd ctx s =
     info_of ctx s (\<lambda>_ i.
     bindC (on_rnic_out (sw_rnic i) iwarp_pd_allocate s) (\<lambda>(st, k, s).
       if st \<noteq> 0 then ret (Null, s)
       else case k of
              None \<Rightarrow> crash
            | Some k \<Rightarrow> let (p, s) = omalloc s
                        in deref p (\<lambda>n. ret (p, s\<lparr>of_pds := (of_pds s)(n \<mapsto> \<lparr>pd_context = ctx, pd_sw = k\<rparr>)\<rparr>))))"

definition ibv_dealloc_pd :: "ref \<Rightarrow> ('c, 'm, 'w) ofab \<Rightarrow> (int \<times> ('c, 'm, 'w) ofab) call" where
  "ibv_dealloc_pd pd s =
     load (of_pds s) pd (\<lambda>n d.
     info_of (pd_context d) s (\<lambda>_ i.
     bindC (on_rnic (sw_rnic i) (iwarp_pd_deallocate (pd_sw d)) s) (\<lambda>(st, s).
       if st \<noteq> 0 then ret (- 1, s) else ret (0, s\<lparr>of_pds := (of_pds s)(n := None)\<rparr>))))"

record of_device_attr =
  da_max_qp :: int
  da_max_qp_wr :: int
  da_max_sge :: int
  da_max_cq :: int
  da_max_cqe :: int
  da_max_pd :: int

definition ibv_query_device :: "int \<times> of_device_attr" where
  "ibv_query_device = (0, \<lparr>da_max_qp = int MAX_QP, da_max_qp_wr = int MAX_WRQ, da_max_sge = int MAX_SGE, da_max_cq = 10,
     da_max_cqe = 1024, da_max_pd = int MAX_PROT_DOMAIN\<rparr>)"

text \<open>The block of a queue that cannot be created is not freed.\<close>

definition ibv_create_cq :: "('c, 'm, 'w) stubs \<Rightarrow> ref \<Rightarrow> int \<Rightarrow> ('c, 'm, 'w) ofab \<Rightarrow> (ref \<times> ('c, 'm, 'w) ofab) call" where
  "ibv_create_cq B ctx depth s =
     (if depth > 1024 then ret (Null, s)
      else let (p, s) = omalloc s in
           info_of ctx s (\<lambda>_ i.
           deref p (\<lambda>n.
           bindC (on_rnic_out (sw_rnic i) (iwarp_cq_create B False (of_int depth) (jk_cq (of_junk s))) s) (\<lambda>(st, cq, s).
             if st \<noteq> 0 then ret (Null, s)
             else ret (p, s\<lparr>of_cqs := (of_cqs s)(n \<mapsto> \<lparr>cq_context = ctx, cq_sw = cq\<rparr>)\<rparr>)))))"

definition ibv_destroy_cq :: "('c, 'm, 'w) stubs \<Rightarrow> ref \<Rightarrow> ('c, 'm, 'w) ofab \<Rightarrow> (int \<times> ('c, 'm, 'w) ofab) call" where
  "ibv_destroy_cq B cq s =
     load (of_cqs s) cq (\<lambda>n q.
     info_of (cq_context q) s (\<lambda>_ i.
     bindC (on_rnic (sw_rnic i) (iwarp_cq_destroy B (cq_sw q)) s) (\<lambda>(st, s).
       if st \<noteq> 0 then ret (- 1, s) else ret (0, s\<lparr>of_cqs := (of_cqs s)(n := None)\<rparr>))))"

text \<open>The length is cut to 32 bits on its way to the verbs.\<close>

definition access_rights :: "u32 \<Rightarrow> u32" where
  "access_rights access = (if access AND 2 \<noteq> 0 then STAG_W else 0) OR (if access AND 4 \<noteq> 0 then STAG_R else 0)"

definition ibv_reg_mr :: "('c, 'm, 'w) stubs \<Rightarrow> ref \<Rightarrow> u64 \<Rightarrow> u64 \<Rightarrow> u32 \<Rightarrow> ('c, 'm, 'w) ofab \<Rightarrow> (ref \<times> ('c, 'm, 'w) ofab) call" where
  "ibv_reg_mr B pd addr len access s =
     load (of_pds s) pd (\<lambda>_ d.
     info_of (pd_context d) s (\<lambda>_ i.
     bindC (on_rnic_out (sw_rnic i) (\<lambda>v.
              bindC (iwarp_nsmr_register B 0 addr (ucast len) (pd_sw d) (access_rights access) (jk_stag (of_junk s)) (jk_md (of_junk s)) v)
                (\<lambda>(st, stag, md, v). ret (st, (stag, md), v))) s) (\<lambda>(st, (stag, md), s).
       if st \<noteq> 0 then ret (Null, s)
       else let (p, s) = omalloc s
            in deref p (\<lambda>n. ret (p, s\<lparr>of_mrs := (of_mrs s)(n \<mapsto>
                 \<lparr>mr_context = pd_context d, mr_pd = pd, mr_lkey = stag, mr_rkey = stag, mr_sw = md\<rparr>)\<rparr>)))))"

text \<open>The region is deregistered whether or not its tag could be destroyed.\<close>

definition ibv_dereg_mr :: "('c, 'm, 'w) stubs \<Rightarrow> ref \<Rightarrow> ('c, 'm, 'w) ofab \<Rightarrow> (int \<times> ('c, 'm, 'w) ofab) call" where
  "ibv_dereg_mr B mr s =
     load (of_mrs s) mr (\<lambda>n m.
     if mr_lkey m \<noteq> mr_rkey m then ret (- 1, s)
     else info_of (mr_context m) s (\<lambda>_ i.
     bindC (on_rnic (sw_rnic i) (iwarp_deallocate_stag B (mr_lkey m)) s) (\<lambda>(_, s).
     load (of_pds s) (mr_pd m) (\<lambda>_ d.
     bindC (on_rnic (sw_rnic i) (iwarp_deregister_mem B (pd_sw d) (mr_sw m)) s) (\<lambda>(st, s).
       ret (st, s\<lparr>of_mrs := (of_mrs s)(n := None)\<rparr>))))))"

section \<open>Work requests\<close>

record ibv_sge =
  is_addr :: u64
  is_length :: u32
  is_lkey :: u32

text \<open>The list of entries is the memory \<open>sg_list\<close> points to; however many entries it has, the first is taken.\<close>

record ibv_recv_wr =
  rw_wr_id :: u64
  rw_sg_list :: "ibv_sge list"
  rw_num_sge :: int

record ibv_send_wr =
  sd_wr_id :: u64
  sd_sg_list :: "ibv_sge list"
  sd_num_sge :: int
  sd_opcode :: int
  sd_send_flags :: int
  sd_remote_addr :: u64
  sd_rkey :: u32

text \<open>A scatter-gather list with one entry, as the verbs make it.\<close>

definition one_sge :: "iwarp_sgl \<Rightarrow> iwarp_sge \<Rightarrow> (int \<times> iwarp_sgl) call" where
  "one_sge sgl sge =
     (let (st, sgl) = iwarp_create_sgl sgl in if st \<noteq> 0 then ret (st, sgl) else iwarp_register_sge sgl sge)"

definition ibv_post_recv :: "('c, 'm, 'w) stubs \<Rightarrow> ref \<Rightarrow> ibv_recv_wr \<Rightarrow> ('c, 'm, 'w) ofab \<Rightarrow> (int \<times> ('c, 'm, 'w) ofab) call" where
  "ibv_post_recv B qp wr s =
     load (of_qps s) qp (\<lambda>_ q. info_of (oq_context q) s (\<lambda>_ _.
     elem (rw_sg_list wr) 0 (\<lambda>g.
     bindC (one_sge (jk_sgl (of_junk s)) \<lparr>sge_length = is_length g, sge_stag = is_lkey g, sge_to = is_addr g\<rparr>) (\<lambda>(st, sgl).
     if st \<noteq> 0 then ret (st, s)
     else on_qp qp (\<lambda>k. iwarp_qp_post_rq B k \<lparr>wr_id = rw_wr_id wr, wr_sgl = Ptr sgl, wr_remote_sgl = Wild, wr_type = WR_TYPE_RECV,
                                              wr_cq_type = SIGNALED\<rparr>) s))))"

abbreviation (input) IBV_WR_RDMA_WRITE :: int where "IBV_WR_RDMA_WRITE \<equiv> 0"
abbreviation (input) IBV_WR_SEND :: int where "IBV_WR_SEND \<equiv> 2"
abbreviation (input) IBV_SEND_SIGNALED :: int where "IBV_SEND_SIGNALED \<equiv> 2"

definition ibv_post_send :: "('c, 'm, 'w) stubs \<Rightarrow> ref \<Rightarrow> ibv_send_wr \<Rightarrow> ('c, 'm, 'w) ofab \<Rightarrow> (int \<times> ('c, 'm, 'w) ofab) call" where
  "ibv_post_send B qp wr s =
     load (of_qps s) qp (\<lambda>_ q. info_of (oq_context q) s (\<lambda>_ _.
     elem (sd_sg_list wr) 0 (\<lambda>g.
     bindC (one_sge (jk_sgl (of_junk s)) \<lparr>sge_length = is_length g, sge_stag = is_lkey g, sge_to = is_addr g\<rparr>) (\<lambda>(st, sgl).
     if st \<noteq> 0 then ret (st, s)
     else let cq_type = (if sd_send_flags wr = IBV_SEND_SIGNALED then SIGNALED else UNSIGNALED) in
       if sd_opcode wr = IBV_WR_SEND then
         on_qp qp (\<lambda>k. iwarp_qp_post_sq B k \<lparr>wr_id = sd_wr_id wr, wr_sgl = Ptr sgl, wr_remote_sgl = Wild, wr_type = WR_TYPE_SEND,
                                              wr_cq_type = cq_type\<rparr>) s
       else if sd_opcode wr = IBV_WR_RDMA_WRITE then
         bindC (one_sge (jk_sgl (of_junk s)) \<lparr>sge_length = is_length g, sge_stag = sd_rkey wr, sge_to = sd_remote_addr wr\<rparr>) (\<lambda>(st, rsgl).
           if st \<noteq> 0 then ret (st, s)
           else on_qp qp (\<lambda>k. iwarp_qp_post_sq B k \<lparr>wr_id = sd_wr_id wr, wr_sgl = Ptr sgl, wr_remote_sgl = Ptr rsgl,
                                                    wr_type = WR_TYPE_RDMA_WRITE, wr_cq_type = cq_type\<rparr>) s)
       else ret (- 1, s)))))"

text \<open>A completion, with the fields that are set; the polling waits for one without end.\<close>

record ibv_wc =
  wc_wr_id :: u64
  wc_of_status :: int
  wc_opcode :: int

definition wc_to_ofab :: "iwarp_wc \<Rightarrow> ibv_wc \<Rightarrow> int \<times> ibv_wc" where
  "wc_to_ofab e wc =
     (let wc = wc\<lparr>wc_wr_id := wc_id e, wc_of_status := (if wc_status e = WR_SUCCESS then 0 else 19)\<rparr>
      in if wc_type e = WR_TYPE_SEND then (1, wc\<lparr>wc_opcode := 0\<rparr>)
         else if wc_type e = WR_TYPE_RECV then (1, wc\<lparr>wc_opcode := 128\<rparr>)
         else if wc_type e = WR_TYPE_RDMA_WRITE then (1, wc\<lparr>wc_opcode := 1\<rparr>)
         else if wc_type e = WR_TYPE_RDMA_READ then (1, wc\<lparr>wc_opcode := 2\<rparr>)
         else (- 1, wc))"

definition ibv_poll_cq :: "('c, 'm, 'w) stubs \<Rightarrow> ref \<Rightarrow> int \<Rightarrow> ibv_wc \<Rightarrow> ('c, 'm, 'w) ofab \<Rightarrow> (int \<times> ibv_wc \<times> ('c, 'm, 'w) ofab) call" where
  "ibv_poll_cq B cq num_entries wc s =
     (if num_entries \<noteq> 1 then ret (- 1, wc, s)
      else load (of_cqs s) cq (\<lambda>_ q.
           info_of (cq_context q) s (\<lambda>_ i.
           bindC (on_rnic_out (sw_rnic i) (iwarp_cq_poll B (cq_sw q) (- 1) \<lparr>wc_id = 0, wc_type = - 1, wc_status = - 1, wc_bytes = 0\<rparr>) s)
             (\<lambda>(st, e, s). if st \<noteq> 0 then ret (0, wc, s) else let (st, wc) = wc_to_ofab e wc in ret (st, wc, s)))))"

definition ibv_destroy_qp :: "('c, 'm, 'w) stubs \<Rightarrow> ref \<Rightarrow> ('c, 'm, 'w) ofab \<Rightarrow> (int \<times> ('c, 'm, 'w) ofab) call" where
  "ibv_destroy_qp B qp s =
     bindC (on_qp qp (iwarp_qp_disconnect B) s) (\<lambda>(st, s).
     if st \<noteq> 0 then ret (- 1, s)
     else bindC (on_qp qp iwarp_qp_destroy s) (\<lambda>(st, s).
     if st \<noteq> 0 then ret (- 1, s)
     else release (of_qps s) qp (\<lambda>h. ret (0, s\<lparr>of_qps := h\<rparr>))))"

definition ibv_advance_sw_rnic :: "('c, 'm, 'w) stubs \<Rightarrow> ref \<Rightarrow> ('c, 'm, 'w) ofab \<Rightarrow> (int \<times> ('c, 'm, 'w) ofab) call" where
  "ibv_advance_sw_rnic B ctx s = info_of ctx s (\<lambda>_ i. on_rnic (sw_rnic i) (iwarp_rnic_advance B) s)"

end
