(* ===== verification/V_Ofab_Props.thy ===== *)
theory V_Ofab_Props
  imports V_Ofab V_Props
begin

text \<open>
  What the OpenFabrics interface keeps: the adapters of all contexts in order, and the events of a connection.
\<close>

section \<open>Adapters stay open\<close>

definition is_open :: "('c, 'w) verbs \<Rightarrow> bool" where
  "is_open v \<longleftrightarrow> (\<exists>r. vs_rnic v = Ptr r)"

lemma is_open_simps [simp]:
  "is_open (v\<lparr>vs_low := w\<rparr>) = is_open v" "is_open (v\<lparr>vs_mallocs := ms\<rparr>) = is_open v" "is_open (v\<lparr>vs_sys := as\<rparr>) = is_open v"
  "is_open (set_rnic r v)"
  by (simp_all add: is_open_def set_rnic_def)

lemma is_open_same: "vs_rnic v' = vs_rnic v \<Longrightarrow> is_open v' = is_open v"
  by (simp add: is_open_def)

lemma open_vmalloc: "vmalloc v = (m, v') \<Longrightarrow> is_open v' = is_open v"
  by (auto dest: vmalloc_same is_open_same)

lemma open_vsys: "vsys v = (a, v') \<Longrightarrow> is_open v' = is_open v"
  by (auto dest: vsys_same is_open_same)

lemma open_low: "low f v = ret (st, v') \<Longrightarrow> is_open v' = is_open v"
  by (auto dest: low_same is_open_same)

lemma open_low_out: "low_out f v = ret (st, x, v') \<Longrightarrow> is_open v' = is_open v"
  by (auto dest: low_out_same is_open_same)

lemmas open_rules = open_vmalloc open_vsys open_low open_low_out

abbreviation open_post :: "int \<times> ('c, 'w) verbs \<Rightarrow> bool" where
  "open_post \<equiv> \<lambda>(st, v). is_open v"

abbreviation open_post3 :: "int \<times> 'x \<times> ('c, 'w) verbs \<Rightarrow> bool" where
  "open_post3 \<equiv> \<lambda>(st, x, v). is_open v"

lemma open_small:
  assumes "is_open v"
  shows "okC open_post3 (iwarp_rnic_query v)" "okC open_post3 (iwarp_pd_allocate v)" "okC open_post (iwarp_pd_deallocate i v)"
    "okC open_post (iwarp_qp_destroy i v)" "okC open_post (iwarp_rnic_advance B v)" "okC open_post (iwarp_deallocate_stag B stag v)"
    "okC open_post3 (iwarp_cq_create B h n cq v)" "okC open_post (iwarp_cq_destroy B cq v)" "okC open_post3 (iwarp_cq_poll B cq k wc v)"
  using assms
  unfolding iwarp_rnic_query_def iwarp_pd_allocate_def iwarp_pd_deallocate_def iwarp_qp_destroy_def iwarp_rnic_advance_def
    iwarp_deallocate_stag_def iwarp_cq_create_def iwarp_cq_destroy_def iwarp_cq_poll_def
  by (intro okC_intros; auto simp: okC_def dest: open_rules)+

lemma open_mem:
  assumes "is_open v"
  shows "okC (\<lambda>(st, _, _, v). is_open v) (iwarp_nsmr_register B t buffer len pd access stag md v)"
    "okC open_post (iwarp_deregister_mem B pd md v)"
  using assms unfolding iwarp_nsmr_register_def iwarp_deregister_mem_def
  by (intro okC_intros; auto dest: open_rules)+

lemma open_qp_create:
  assumes "is_open v"
  shows "okC open_post3 (iwarp_qp_create i v)"
  using assms unfolding iwarp_qp_create_def Let_def
  by (intro okC_intros) (auto dest: open_rules)

lemma open_connect:
  assumes "is_open v"
  shows "okC open_post (iwarp_recv_event_dispatcher B fd v)" "okC open_post (qp_socket i v)" "okC open_post (iwarp_qp_disconnect B i v)"
  using assms unfolding iwarp_recv_event_dispatcher_def qp_socket_def iwarp_qp_disconnect_def
  by (intro okC_intros; auto dest: open_rules)+

lemma open_connected_now: "is_open v \<Longrightarrow> okC open_post (qp_connected_now B i pd b n c v)"
  unfolding qp_connected_now_def
  by (intro okC_intros okC_bind [OF open_connect(1)]) (auto dest: open_rules)

lemma open_connect_loop: "connect_loop k v = (b, v') \<Longrightarrow> is_open v' = is_open v"
  by (induction k v rule: connect_loop.induct) (auto dest!: open_vsys split: prod.splits if_splits)

lemma open_active: "is_open v \<Longrightarrow> okC open_post (iwarp_qp_active_connect B k i pd b n v)"
  unfolding iwarp_qp_active_connect_def
  by (intro okC_intros okC_bind [OF open_connect(2)] open_connected_now) (auto dest!: open_vsys open_connect_loop)

lemma open_post_rq:
  assumes "is_open v"
  shows "okC open_post (iwarp_qp_post_rq B i wr v)"
  unfolding iwarp_qp_post_rq_def
proof (intro okC_deref okC_elem okC_bind [where Q = open_post])
  fix r assume "vs_rnic v = Ptr r"
  show "okC open_post (if qp_connected (rn_qp r ! nat i) \<noteq> 0 then low (iwarp_recv_event_dispatch_one B r (qp_fd (rn_qp r ! nat i)) wr) v
        else if rn_size r = int MAX_WRQ then ret (IWARP_RWQ_FULL, v)
        else let (m, v) = vmalloc v in
             deref (wr_sgl wr) (\<lambda>l.
               if \<not> m then crash
               else bindC (copy_sgl l) (\<lambda>l.
                    elem (rn_queue r) (rn_size r) (\<lambda>_.
                      ret (IWARP_OK, set_rnic (set_qp i ((rn_qp r ! nat i)\<lparr>qp_pre_posts := qp_pre_posts (rn_qp r ! nat i) + 1\<rparr>)
                        (r\<lparr>rn_queue := (rn_queue r)[nat (rn_size r) := wr\<lparr>wr_sgl := Ptr l\<rparr>], rn_size := rn_size r + 1\<rparr>)) v)))))"
    using assms by (intro okC_intros) (auto simp: okC_def dest: open_rules)
qed (auto intro!: okC_intros)

lemma open_post_sq: "is_open v \<Longrightarrow> okC open_post (iwarp_qp_post_sq B i wr v)"
  unfolding iwarp_qp_post_sq_def by (intro okC_intros) (auto dest: open_rules)

lemma open_accept: "is_open v \<Longrightarrow> okC open_post (accept_connection B i b v)"
  unfolding accept_connection_def
  by (intro okC_intros okC_bind [OF open_connect(2)] open_connect(1)) (auto dest: open_rules)

lemma accept_connection_inv: "verbs_inv v \<Longrightarrow> okC ok_post (accept_connection B i b v)"
  unfolding accept_connection_def
  by (rule okC_bind [OF qp_socket_inv], assumption, intro okC_intros dispatcher_inv) (auto dest!: low_same dest: verbs_inv_D)

section \<open>The invariant\<close>

definition handle_ok :: "nat \<Rightarrow> ('c, 'm, 'w) ofab \<Rightarrow> bool" where
  "handle_ok h s \<longleftrightarrow> (h \<noteq> 0 \<longrightarrow> (\<exists>r. of_rnics s h = Ptr r))"

definition of_inv :: "('c, 'm, 'w) ofab \<Rightarrow> bool" where
  "of_inv s \<longleftrightarrow> rnic_shape (vs_junk (of_verbs s)) \<and> 0 < of_next s \<and> (\<forall>h r. of_rnics s h = Ptr r \<longrightarrow> rnic_ok r)
     \<and> (\<forall>n i. of_infos s n = Some i \<longrightarrow> handle_ok (sw_rnic i) s)"

text \<open>What the steps between calls of verbs keep.\<close>

definition keeps :: "('c, 'm, 'w) ofab \<Rightarrow> ('c, 'm, 'w) ofab \<Rightarrow> bool" where
  "keeps s s' \<longleftrightarrow> of_inv s' \<and> (\<forall>h. handle_ok h s \<longrightarrow> handle_ok h s')"

lemma of_inv_fields [simp]:
  "of_inv (s\<lparr>of_chans := a\<rparr>) = of_inv s" "of_inv (s\<lparr>of_ids := b\<rparr>) = of_inv s" "of_inv (s\<lparr>of_ctxs := c\<rparr>) = of_inv s"
  "of_inv (s\<lparr>of_events := d\<rparr>) = of_inv s" "of_inv (s\<lparr>of_pds := e\<rparr>) = of_inv s" "of_inv (s\<lparr>of_cqs := f\<rparr>) = of_inv s"
  "of_inv (s\<lparr>of_mrs := g\<rparr>) = of_inv s" "of_inv (s\<lparr>of_qps := q\<rparr>) = of_inv s" "of_inv (s\<lparr>of_selects := k\<rparr>) = of_inv s"
  "of_inv (s\<lparr>of_reads := l\<rparr>) = of_inv s"
  by (simp_all add: of_inv_def handle_ok_def)

lemma handle_ok_fields [simp]:
  "handle_ok h (s\<lparr>of_chans := a\<rparr>) = handle_ok h s" "handle_ok h (s\<lparr>of_ids := b\<rparr>) = handle_ok h s" "handle_ok h (s\<lparr>of_ctxs := c\<rparr>) = handle_ok h s"
  "handle_ok h (s\<lparr>of_events := d\<rparr>) = handle_ok h s" "handle_ok h (s\<lparr>of_pds := e\<rparr>) = handle_ok h s" "handle_ok h (s\<lparr>of_cqs := f\<rparr>) = handle_ok h s"
  "handle_ok h (s\<lparr>of_mrs := g\<rparr>) = handle_ok h s" "handle_ok h (s\<lparr>of_qps := q\<rparr>) = handle_ok h s" "handle_ok h (s\<lparr>of_selects := k\<rparr>) = handle_ok h s"
  "handle_ok h (s\<lparr>of_reads := l\<rparr>) = handle_ok h s" "handle_ok h (s\<lparr>of_infos := m\<rparr>) = handle_ok h s" "handle_ok h (s\<lparr>of_verbs := v\<rparr>) = handle_ok h s"
  "handle_ok h (set_info n i s) = handle_ok h s" "handle_ok h (set_id n d' s) = handle_ok h s" "handle_ok 0 s"
  by (simp_all add: handle_ok_def set_info_def set_id_def)

lemma of_inv_set_info [simp]: "of_inv s \<Longrightarrow> handle_ok (sw_rnic i) s \<Longrightarrow> of_inv (set_info n i s)"
  by (auto simp: of_inv_def set_info_def)

lemma of_inv_set_id [simp]: "of_inv (set_id n d s) = of_inv s"
  by (simp add: set_id_def)

lemma of_inv_infos: "of_inv s \<Longrightarrow> handle_ok (sw_rnic i) s \<Longrightarrow> of_inv (s\<lparr>of_infos := (of_infos s)(n \<mapsto> i)\<rparr>)"
  using of_inv_set_info [of s i n] by (simp add: set_info_def)

lemma of_inv_release: "of_inv s \<Longrightarrow> of_inv (s\<lparr>of_infos := (of_infos s)(n := None)\<rparr>)"
  by (auto simp: of_inv_def)

lemma of_inv_handle: "of_inv s \<Longrightarrow> of_infos s n = Some i \<Longrightarrow> handle_ok (sw_rnic i) s"
  by (simp add: of_inv_def)

lemma keeps_refl: "of_inv s \<Longrightarrow> keeps s s"
  by (simp add: keeps_def)

lemma keeps_D: "keeps s s' \<Longrightarrow> of_inv s'" "keeps s s' \<Longrightarrow> handle_ok h s \<Longrightarrow> handle_ok h s'"
  by (simp_all add: keeps_def)

lemma of_inv_verbs: "of_inv s \<Longrightarrow> vs_junk v = vs_junk (of_verbs s) \<Longrightarrow> keeps s (s\<lparr>of_verbs := v\<rparr>)"
  by (simp add: keeps_def) (simp add: of_inv_def)

lemma omalloc_keeps: "omalloc s = (p, s') \<Longrightarrow> of_inv s \<Longrightarrow> keeps s s'"
  by (auto simp: omalloc_def Let_def keeps_def of_inv_def handle_ok_def dest!: vmalloc_same split: prod.splits if_splits)

lemma osys_keeps: "osys s = (a, s') \<Longrightarrow> of_inv s \<Longrightarrow> keeps s s'"
  by (auto simp: osys_def dest!: vsys_same split: prod.splits intro!: of_inv_verbs)

lemma keeps_trans: "keeps s s' \<Longrightarrow> keeps s' s'' \<Longrightarrow> keeps s s''"
  by (simp add: keeps_def)

lemma sys_calls_keeps: "sys_calls k s = (ok, s') \<Longrightarrow> of_inv s \<Longrightarrow> keeps s s'"
proof (induction k arbitrary: s)
  case (Suc k)
  obtain a s1 where a: "osys s = (a, s1)" by (cases "osys s")
  note s1 = osys_keeps [OF a Suc.prems(2)]
  show ?case
  proof (cases "a < 0")
    case True
    with Suc.prems a s1 show ?thesis by simp
  next
    case False
    with Suc.prems a have "sys_calls k s1 = (ok, s')" by simp
    from keeps_trans [OF s1 Suc.IH [OF this keeps_D(1) [OF s1]]] show ?thesis .
  qed
qed (simp add: keeps_refl)

lemma okC_load [okC_intros]: "(\<And>n x. p = Ptr n \<Longrightarrow> h n = Some x \<Longrightarrow> okC P (f n x)) \<Longrightarrow> okC P (load h p f)"
  unfolding load_def by (intro okC_intros) auto

lemma okC_info [okC_intros]: "(\<And>m i. of_infos s m = Some i \<Longrightarrow> okC P (f m i)) \<Longrightarrow> okC P (info_of ctx s f)"
  unfolding info_of_def by (intro okC_intros) auto

lemma okC_release [okC_intros]: "okC P (f h) \<Longrightarrow> (\<And>n. p = Ptr n \<Longrightarrow> okC P (f (h(n := None)))) \<Longrightarrow> okC P (release h p f)"
  unfolding release_def by (cases p) (auto intro: okC_intros)

lemma okC_next_event [okC_intros]:
  "(\<And>cs. okC P (f (s\<lparr>of_chans := cs\<rparr>))) \<Longrightarrow> okC P (next_event ch e i s f)"
  unfolding next_event_def by (intro okC_intros)

lemma okC_Option_bind [okC_intros]: "(\<And>x. m = Some x \<Longrightarrow> okC P (f x)) \<Longrightarrow> okC P (Option.bind m f)"
  by (cases m) (simp_all add: okC_intros)

section \<open>Every call keeps it\<close>

text \<open>The result of a verb on the adapter of a handle.\<close>

lemma verb_keeps:
  assumes "of_inv s" "verbs_inv v'" "is_open ((of_verbs s)\<lparr>vs_rnic := of_rnics s h\<rparr>) \<Longrightarrow> is_open v'"
  shows "keeps s (s\<lparr>of_verbs := v', of_rnics := (of_rnics s)(h := vs_rnic v')\<rparr>)"
proof -
  let ?s = "s\<lparr>of_verbs := v', of_rnics := (of_rnics s)(h := vs_rnic v')\<rparr>"
  have "handle_ok k ?s" if "handle_ok k s" for k
    using that assms(3) by (auto simp: handle_ok_def is_open_def)
  moreover have "of_inv ?s"
    using assms(1,2) of_inv_handle [OF assms(1)] calculation by (simp add: of_inv_def verbs_inv_def)
  ultimately show ?thesis by (simp add: keeps_def)
qed

lemma handle_inv: "of_inv s \<Longrightarrow> verbs_inv ((of_verbs s)\<lparr>vs_rnic := of_rnics s h\<rparr>)"
  by (auto simp: of_inv_def verbs_inv_def)

lemma on_rnic_out_inv:
  assumes "of_inv s" "\<And>v. verbs_inv v \<Longrightarrow> okC ok_post3 (f v)" "\<And>v. is_open v \<Longrightarrow> okC open_post3 (f v)"
  shows "okC (\<lambda>(st, x, s'). keeps s s') (on_rnic_out h f s)"
  unfolding on_rnic_out_def
  using okC_D [OF assms(2) [OF handle_inv [OF assms(1)]]] okC_D [OF assms(3)]
  by (intro okC_intros) (auto intro!: verb_keeps [OF assms(1)])

lemma on_rnic_inv:
  assumes "of_inv s" "\<And>v. verbs_inv v \<Longrightarrow> okC ok_post (f v)" "\<And>v. is_open v \<Longrightarrow> okC open_post (f v)"
  shows "okC (\<lambda>(st, s'). keeps s s') (on_rnic h f s)"
  unfolding on_rnic_def
  using okC_D [OF assms(2) [OF handle_inv [OF assms(1)]]] okC_D [OF assms(3)]
  by (intro okC_intros) (auto intro!: verb_keeps [OF assms(1)])

lemma on_qp_inv:
  assumes "of_inv s" "\<And>k v. verbs_inv v \<Longrightarrow> okC ok_post (f k v)" "\<And>k v. is_open v \<Longrightarrow> okC open_post (f k v)"
  shows "okC (\<lambda>(st, s'). keeps s s') (on_qp p f s)"
  unfolding on_qp_def by (intro okC_intros on_rnic_inv assms)

text \<open>The calls, in the order of their definitions.\<close>

abbreviation (input) of_post :: "'x \<times> ('c, 'm, 'w) ofab \<Rightarrow> bool" where
  "of_post \<equiv> \<lambda>(x, s). of_inv s"

abbreviation (input) of_post3 :: "int \<times> 'x \<times> ('c, 'm, 'w) ofab \<Rightarrow> bool" where
  "of_post3 \<equiv> \<lambda>(st, x, s). of_inv s"

lemmas step_rules = omalloc_keeps osys_keeps sys_calls_keeps

lemma channel_inv:
  assumes "of_inv s"
  shows "okC of_post (rdma_create_event_channel s)" "okC of_inv (rdma_destroy_event_channel ch s)"
    "okC of_post3 (rdma_get_cm_event ch s)" "okC of_post (rdma_ack_cm_event ch s)"
  using assms
  unfolding rdma_create_event_channel_def rdma_destroy_event_channel_def rdma_get_cm_event_def rdma_ack_cm_event_def
  by (intro okC_intros; auto dest!: step_rules dest: keeps_D split: if_splits)+

lemma new_id_inv:
  assumes "of_inv s" "handle_ok (sw_rnic i) s"
  shows "okC of_post (new_id i mk s)"
  using assms unfolding new_id_def
  by (intro okC_intros) (auto dest!: step_rules intro!: of_inv_infos dest: keeps_D)

lemma rdma_create_id_inv: "of_inv s \<Longrightarrow> okC of_post3 (rdma_create_id ch c s)"
  unfolding rdma_create_id_def by (rule okC_bind [OF new_id_inv]) (auto intro!: okC_intros)

lemma rdma_bind_addr_inv: "of_inv s \<Longrightarrow> okC of_post (rdma_bind_addr p port s)"
  unfolding rdma_bind_addr_def
  by (intro okC_intros) (auto intro!: of_inv_set_info simp: set_id_def dest: of_inv_handle)

lemma rdma_destroy_id_inv: "of_inv s \<Longrightarrow> okC of_post (rdma_destroy_id p s)"
  unfolding rdma_destroy_id_def
  by (intro okC_intros) (auto simp: of_inv_def handle_ok_def)

lemma rdma_resolve_route_inv: "of_inv s \<Longrightarrow> okC of_post (rdma_resolve_route p s)"
  unfolding rdma_resolve_route_def by (intro okC_intros) auto

lemma rejected_inv: "of_inv s \<Longrightarrow> okC of_post (rejected p st s)"
  unfolding rejected_def by (intro okC_intros) auto

lemma rdma_connect_inv: "of_inv s \<Longrightarrow> okC of_post (rdma_connect B p s)"
  unfolding rdma_connect_def
  by (intro okC_intros okC_bind [OF on_rnic_inv] iwarp_qp_active_connect_inv open_active) (auto dest: keeps_D)

lemma rdma_accept_inv: "of_inv s \<Longrightarrow> okC of_post (rdma_accept B p s)"
  unfolding rdma_accept_def
  by (intro okC_intros okC_bind [OF on_rnic_inv] okC_bind [OF on_rnic_out_inv] iwarp_rnic_query_inv open_small accept_connection_inv
      open_accept rejected_inv) (auto dest: keeps_D)

lemma rdma_create_qp_inv: "of_inv s \<Longrightarrow> okC of_post (rdma_create_qp p pd qs qr cap s)"
  unfolding rdma_create_qp_def Let_def
  by (intro okC_intros okC_bind [OF on_rnic_out_inv] iwarp_qp_create_inv open_qp_create) (auto dest!: step_rules dest: keeps_D)

lemma rdma_qp_inv:
  assumes "of_inv s"
  shows "okC of_post (rdma_disconnect B p s)" "okC of_inv (rdma_destroy_qp p s)" "okC of_post (ibv_destroy_qp B p s)"
  using assms unfolding rdma_disconnect_def rdma_destroy_qp_def ibv_destroy_qp_def
  by (intro okC_intros okC_bind [OF on_qp_inv] iwarp_qp_disconnect_inv open_connect iwarp_qp_destroy_inv open_small; auto dest: keeps_D)+

lemma ibv_pd_inv:
  assumes "of_inv s"
  shows "okC of_post (ibv_alloc_pd ctx s)" "okC of_post (ibv_dealloc_pd p s)"
  using assms unfolding ibv_alloc_pd_def ibv_dealloc_pd_def
  by (intro okC_intros okC_bind [OF on_rnic_out_inv] okC_bind [OF on_rnic_inv] iwarp_pd_allocate_inv iwarp_pd_deallocate_inv open_small;
      auto dest!: step_rules dest: keeps_D)+

lemma ibv_cq_inv:
  assumes "of_inv s"
  shows "okC of_post (ibv_create_cq B ctx n s)" "okC of_post (ibv_destroy_cq B p s)" "okC of_post3 (ibv_poll_cq B p k wc s)"
  using assms unfolding ibv_create_cq_def ibv_destroy_cq_def ibv_poll_cq_def
  by (intro okC_intros okC_bind [OF on_rnic_out_inv] okC_bind [OF on_rnic_inv] iwarp_cq_inv open_small;
      auto dest!: step_rules dest: keeps_D)+

lemma nsmr_pair_inv:
  "verbs_inv v \<Longrightarrow> okC ok_post3 (bindC (iwarp_nsmr_register B t addr len pd acc st md v) (\<lambda>(st, stag, md, v). ret (st, (stag, md), v)))"
  by (rule okC_bind [OF iwarp_nsmr_register_inv]) (auto intro!: okC_intros)

lemma nsmr_pair_open:
  "is_open v \<Longrightarrow> okC open_post3 (bindC (iwarp_nsmr_register B t addr len pd acc st md v) (\<lambda>(st, stag, md, v). ret (st, (stag, md), v)))"
  by (rule okC_bind [OF open_mem(1)]) (auto intro!: okC_intros)

lemma ibv_reg_mr_inv: "of_inv s \<Longrightarrow> okC of_post (ibv_reg_mr B p addr len acc s)"
  unfolding ibv_reg_mr_def
  by (intro okC_load okC_info, rule okC_bind [OF on_rnic_out_inv [OF _ nsmr_pair_inv nsmr_pair_open]])
     (auto dest!: step_rules dest: keeps_D intro!: okC_intros)

lemma ibv_dereg_mr_inv: "of_inv s \<Longrightarrow> okC of_post (ibv_dereg_mr B p s)"
  unfolding ibv_dereg_mr_def
  by (intro okC_intros okC_bind [OF on_rnic_inv] iwarp_deallocate_stag_inv iwarp_deregister_mem_inv open_small open_mem(2))
     (auto dest: keeps_D)

lemma ibv_post_inv:
  assumes "of_inv s"
  shows "okC of_post (ibv_post_recv B p wr s)" "okC of_post (ibv_post_send B p wr' s)"
  using assms unfolding ibv_post_recv_def ibv_post_send_def Let_def
  by (intro okC_intros okC_mono [OF on_qp_inv] iwarp_qp_post_rq_inv iwarp_qp_post_sq_inv open_post_rq open_post_sq; auto dest: keeps_D)+

lemma ibv_advance_inv: "of_inv s \<Longrightarrow> okC of_post (ibv_advance_sw_rnic B ctx s)"
  unfolding ibv_advance_sw_rnic_def
  by (intro okC_intros okC_mono [OF on_rnic_inv] iwarp_rnic_advance_inv open_small) (auto dest: keeps_D)

text \<open>Opening an adapter: here the functions below matter.\<close>

lemma iwarp_rnic_open_opens: "okC (\<lambda>(st, v). st = 0 \<longrightarrow> is_open v) (iwarp_rnic_open B index mode v)"
  unfolding iwarp_rnic_open_def Let_def by (intro okC_intros) auto

text \<open>A call of the interface, by a program that may pass any pointers.\<close>

inductive of_step :: "('c, 'm, 'w) stubs \<Rightarrow> ('c, 'm, 'w) ofab \<Rightarrow> ('c, 'm, 'w) ofab \<Rightarrow> bool" for B where
  create_channel: "rdma_create_event_channel s = ret (p, s') \<Longrightarrow> of_step B s s'"
| destroy_channel: "rdma_destroy_event_channel ch s = ret s' \<Longrightarrow> of_step B s s'"
| get_event: "rdma_get_cm_event ch s = ret (st, p, s') \<Longrightarrow> of_step B s s'"
| ack_event: "rdma_ack_cm_event ev s = ret (st, s') \<Longrightarrow> of_step B s s'"
| create_id: "rdma_create_id ch c s = ret (st, p, s') \<Longrightarrow> of_step B s s'"
| destroy_id: "rdma_destroy_id i s = ret (st, s') \<Longrightarrow> of_step B s s'"
| bind_addr: "rdma_bind_addr i port s = ret (st, s') \<Longrightarrow> of_step B s s'"
| listen: "rdma_listen B i backlog s = ret (st, s') \<Longrightarrow> of_step B s s'"
| resolve_addr: "rdma_resolve_addr B i port host s = ret (st, s') \<Longrightarrow> of_step B s s'"
| resolve_route: "rdma_resolve_route i s = ret (st, s') \<Longrightarrow> of_step B s s'"
| connect: "rdma_connect B i s = ret (st, s') \<Longrightarrow> of_step B s s'"
| accept: "rdma_accept B i s = ret (st, s') \<Longrightarrow> of_step B s s'"
| create_qp: "rdma_create_qp i pd c1 c2 cap s = ret (st, s') \<Longrightarrow> of_step B s s'"
| disconnect: "rdma_disconnect B i s = ret (st, s') \<Longrightarrow> of_step B s s'"
| destroy_qp: "rdma_destroy_qp i s = ret s' \<Longrightarrow> of_step B s s'"
| alloc_pd: "ibv_alloc_pd ctx s = ret (p, s') \<Longrightarrow> of_step B s s'"
| dealloc_pd: "ibv_dealloc_pd pd s = ret (st, s') \<Longrightarrow> of_step B s s'"
| create_cq: "ibv_create_cq B ctx n s = ret (p, s') \<Longrightarrow> of_step B s s'"
| destroy_cq: "ibv_destroy_cq B q s = ret (st, s') \<Longrightarrow> of_step B s s'"
| reg_mr: "ibv_reg_mr B pd addr len acc s = ret (p, s') \<Longrightarrow> of_step B s s'"
| dereg_mr: "ibv_dereg_mr B m s = ret (st, s') \<Longrightarrow> of_step B s s'"
| post_recv: "ibv_post_recv B q wr s = ret (st, s') \<Longrightarrow> of_step B s s'"
| post_send: "ibv_post_send B q wr2 s = ret (st, s') \<Longrightarrow> of_step B s s'"
| poll_cq: "ibv_poll_cq B q k wc s = ret (st, wc', s') \<Longrightarrow> of_step B s s'"
| ibv_destroy: "ibv_destroy_qp B q s = ret (st, s') \<Longrightarrow> of_step B s s'"
| advance: "ibv_advance_sw_rnic B ctx s = ret (st, s') \<Longrightarrow> of_step B s s'"

context stubs_leave_rnic
begin

lemma check_open_inv:
  assumes "of_inv s"
  shows "okC (\<lambda>(st, s'). keeps s s') (check_open B ctx s)"
proof -
  have v: "verbs_inv ((of_verbs s)\<lparr>vs_rnic := Null\<rparr>)" using assms by (simp add: of_inv_def verbs_inv_def)
  have fail: "keeps s (s\<lparr>of_verbs := v\<rparr>)" if "verbs_inv v" for v
    using that assms by (simp add: keeps_def) (simp add: of_inv_def verbs_inv_def)
  have opens: "keeps s (set_info m (i\<lparr>sw_rnic := of_next s\<rparr>)
      (s\<lparr>of_verbs := v, of_rnics := (of_rnics s)(of_next s := vs_rnic v), of_next := Suc (of_next s)\<rparr>))"
    if "verbs_inv v" "is_open v" for v m i
    using that assms by (auto simp: keeps_def of_inv_def handle_ok_def set_info_def verbs_inv_def is_open_def)
  have op: "is_open w" if "iwarp_rnic_open B 0 0 v = ret (0, w)" for v w
    using okC_D [OF iwarp_rnic_open_opens that] by simp
  show ?thesis
    unfolding check_open_def Let_def
    using okC_D [OF rnic_open_inv [OF v]]
    by (intro okC_intros) (use assms in \<open>auto intro!: keeps_refl fail opens dest: op\<close>)
qed

lemma rdma_resolve_addr_inv: "of_inv s \<Longrightarrow> okC of_post (rdma_resolve_addr B p port host s)"
  unfolding rdma_resolve_addr_def Let_def
  by (intro okC_intros okC_mono [OF check_open_inv])
     (auto dest: keeps_D of_inv_handle dest!: vmalloc_same simp: of_inv_def set_info_def set_id_def handle_ok_def)

lemma rdma_listen_inv:
  assumes "of_inv s"
  shows "okC of_post (rdma_listen B p backlog s)"
proof -
  have opened: "keeps s s'" if "check_open B ctx s = ret (st, s')" for ctx st s' using okC_D [OF check_open_inv [OF assms] that] by simp
  have query: "keeps s s'" if "on_rnic_out h iwarp_rnic_query s = ret (st, x, s')" "of_inv s" for h st x and s s' :: "('c, 'm, 'w) ofab"
    using okC_D [OF on_rnic_out_inv [OF that(2) iwarp_rnic_query_inv open_small(1)] that(1)] by simp
  have new: "of_inv s'" if "new_id i mk s = ret (q, s')" "of_inv s" "handle_ok (sw_rnic i) s" for i mk q and s s' :: "('c, 'm, 'w) ofab"
    using okC_D [OF new_id_inv [OF that(2,3)] that(1)] by simp
  have handle: "handle_ok (sw_rnic i) s" if "of_infos s n = Some i" "of_inv s" for n i and s :: "('c, 'm, 'w) ofab"
    using of_inv_handle that by blast
  show ?thesis
    unfolding rdma_listen_def
    by (intro okC_intros rejected_inv)
       (auto dest!: opened query step_rules new handle intro!: of_inv_set_info simp: keeps_def)
qed

lemma of_step_inv: "of_step B s s' \<Longrightarrow> of_inv s \<Longrightarrow> of_inv s'"
  by (induction rule: of_step.induct)
     (auto dest: okC_D [OF channel_inv(1)] okC_D [OF channel_inv(2)] okC_D [OF channel_inv(3)] okC_D [OF channel_inv(4)]
        okC_D [OF rdma_create_id_inv] okC_D [OF rdma_destroy_id_inv] okC_D [OF rdma_bind_addr_inv] okC_D [OF rdma_listen_inv]
        okC_D [OF rdma_resolve_addr_inv] okC_D [OF rdma_resolve_route_inv] okC_D [OF rdma_connect_inv] okC_D [OF rdma_accept_inv]
        okC_D [OF rdma_create_qp_inv] okC_D [OF rdma_qp_inv(1)] okC_D [OF rdma_qp_inv(2)] okC_D [OF rdma_qp_inv(3)]
        okC_D [OF ibv_pd_inv(1)] okC_D [OF ibv_pd_inv(2)] okC_D [OF ibv_cq_inv(1)] okC_D [OF ibv_cq_inv(2)] okC_D [OF ibv_cq_inv(3)]
        okC_D [OF ibv_reg_mr_inv] okC_D [OF ibv_dereg_mr_inv] okC_D [OF ibv_post_inv(1)] okC_D [OF ibv_post_inv(2)] okC_D [OF ibv_advance_inv])

lemma of_run_inv: "(of_step B)\<^sup>*\<^sup>* s s' \<Longrightarrow> of_inv s \<Longrightarrow> of_inv s'"
  by (induction rule: rtranclp_induct) (auto intro: of_step_inv)

end

text \<open>A process that has not called anything yet.\<close>

definition of_start :: "('c, 'm, 'w) ofab \<Rightarrow> bool" where
  "of_start s \<longleftrightarrow> rnic_shape (vs_junk (of_verbs s)) \<and> 0 < of_next s \<and> of_rnics s = (\<lambda>_. Null) \<and> of_infos s = Map.empty"

definition contexts_in_order :: "('c, 'm, 'w) ofab \<Rightarrow> bool" where
  "contexts_in_order s \<longleftrightarrow> (\<forall>n i. of_infos s n = Some i \<longrightarrow> sw_rnic i \<noteq> 0 \<longrightarrow>
     (\<exists>r. of_rnics s (sw_rnic i) = Ptr r) \<and> adapter_books ((of_verbs s)\<lparr>vs_rnic := of_rnics s (sw_rnic i)\<rparr>))"

lemma of_inv_start: "of_start s \<Longrightarrow> of_inv s"
  by (simp add: of_start_def of_inv_def)

lemma of_inv_contexts:
  assumes "of_inv s"
  shows "contexts_in_order s"
  unfolding contexts_in_order_def
  using of_inv_handle [OF assms] verbs_inv_books [OF handle_inv [OF assms]] by (auto simp: handle_ok_def)

text \<open>
  C39. The contexts of the OpenFabrics interface. Whatever calls a process makes, with whatever pointers, as long as none
  crashes or hangs, and in both builds: every context that has opened its adapter has an adapter still, and the
  books of that adapter are in order, in the sense of the books of an adapter above, so that its queue pairs in use have
  attributes within the limits, its waiting receives fit their queue, and destroying a queue pair returns.
\<close>

theorem openfab_contexts:
  fixes s0 :: "(nat option, mem_desc, vuser) ofab" and k0 :: "(u64, u64, vkern) ofab"
  assumes "of_start s0" "of_start k0"
  shows "(\<forall>s. (of_step user_stubs)\<^sup>*\<^sup>* s0 s \<longrightarrow> contexts_in_order s) \<and> (\<forall>s. (of_step kernel_stubs)\<^sup>*\<^sup>* k0 s \<longrightarrow> contexts_in_order s)"
  using user_build.of_run_inv [OF _ of_inv_start [OF assms(1)]] kernel_build.of_run_inv [OF _ of_inv_start [OF assms(2)]]
  by (auto intro!: of_inv_contexts)

section \<open>The events of a connection\<close>

lemma load_D: "load h p f = ret x \<Longrightarrow> \<exists>n y. p = Ptr n \<and> h n = Some y \<and> f n y = ret x"
  by (cases p) (auto simp: load_def split: option.splits)

lemma deref_D: "deref p f = ret x \<Longrightarrow> \<exists>y. p = Ptr y \<and> f y = ret x"
  by (cases p) auto

lemma on_rnic_chans: "on_rnic h f s = ret (st, s') \<Longrightarrow> of_chans s' = of_chans s"
  by (auto simp: on_rnic_def outcome_simps)

lemma next_event_D:
  "next_event ch e i s f = ret x \<Longrightarrow> \<exists>n c. ch = Ptr n \<and> of_chans s n = Some c
     \<and> f (s\<lparr>of_chans := (of_chans s)(n \<mapsto> c\<lparr>ch_next := e, ch_id := i\<rparr>)\<rparr>) = ret x"
  unfolding next_event_def by (auto dest!: load_D)

lemma rdma_connect_event:
  assumes "rdma_connect B i s = ret (0, s')" "of_ids s n = Some d" "i = Ptr n" "id_channel d = Ptr ch" "of_chans s ch = Some c"
  shows "of_chans s' ch = Some (c\<lparr>ch_next := EVENT_ESTABLISHED, ch_id := i\<rparr>)"
  using assms unfolding rdma_connect_def info_of_def
  by (auto dest!: load_D deref_D on_rnic_chans next_event_D simp: outcome_simps split: if_splits)

lemma get_event_step:
  assumes "of_chans s ch = Some c" "vs_mallocs (of_verbs s) = True # ms" "ch_next c = EVENT_ESTABLISHED" "ch_conn_valid c = 1"
  shows "\<exists>e s'. rdma_get_cm_event (Ptr ch) s = ret (0, Ptr e, s') \<and> of_events s' e = Some \<lparr>ev_id = ch_id c, ev_event = EVENT_ESTABLISHED\<rparr>
    \<and> of_chans s' ch = Some (c\<lparr>ch_conn_valid := 0\<rparr>) \<and> vs_mallocs (of_verbs s') = ms \<and> of_reads s' = of_reads s"
  using assms by (simp add: rdma_get_cm_event_def omalloc_def vmalloc_def load_def)

lemma get_event_again:
  assumes "of_chans s ch = Some c" "vs_mallocs (of_verbs s) = True # ms" "ch_next c = EVENT_ESTABLISHED" "ch_conn_valid c = 0"
  shows "case read_loop (of_reads s (ch_fd c)) 0 of
      None \<Rightarrow> rdma_get_cm_event (Ptr ch) s = None
    | Some k \<Rightarrow> \<exists>e s'. rdma_get_cm_event (Ptr ch) s = ret (0, Ptr e, s') \<and> of_events s' e = Some \<lparr>ev_id = ch_id c, ev_event = EVENT_DISCONNECTED\<rparr>"
  using assms by (auto simp: rdma_get_cm_event_def omalloc_def vmalloc_def load_def split: option.splits)

lemma read_loop_ends:
  assumes "read_loop a n = Some k"
  shows "\<exists>m\<ge>n. a m < 0"
proof (rule read_loop.raw_induct [OF _ assms, of "\<lambda>a n k. \<exists>m\<ge>n. a m < 0"])
  fix f :: "(nat \<Rightarrow> int) \<Rightarrow> nat \<Rightarrow> nat option" and a :: "nat \<Rightarrow> int" and n k
  assume IH: "\<And>a n k. f a n = Some k \<Longrightarrow> \<exists>m\<ge>n. a m < 0" and eq: "(if a n < 0 then Some (Suc n) else f a (Suc n)) = Some k"
  show "\<exists>m\<ge>n. a m < 0"
  proof (cases "a n < 0")
    case False
    with eq IH [of a "Suc n" k] show ?thesis by (auto intro: Suc_leD)
  qed blast
qed

lemma read_loop_stops:
  assumes "a m < (0 :: int)"
  shows "n \<le> m \<Longrightarrow> read_loop a n \<noteq> None"
proof (induction "m - n" arbitrary: n)
  case 0
  then show ?case using assms by (subst read_loop.simps) simp
next
  case (Suc k)
  then show ?case by (subst read_loop.simps) simp
qed

text \<open>What an event call does that waits for the stream of a descriptor to fail.\<close>

definition waits_for_close :: "int \<Rightarrow> ref \<Rightarrow> nat \<Rightarrow> ('c, 'm, 'w) ofab \<Rightarrow> bool" where
  "waits_for_close fd i ch s \<longleftrightarrow>
     ((\<exists>k. of_reads s fd k < 0) \<longrightarrow> (\<exists>e s'. rdma_get_cm_event (Ptr ch) s = ret (0, Ptr e, s')
        \<and> of_events s' e = Some \<lparr>ev_id = i, ev_event = EVENT_DISCONNECTED\<rparr>))
   \<and> ((\<forall>k. 0 \<le> of_reads s fd k) \<longrightarrow> rdma_get_cm_event (Ptr ch) s = None)"

lemma get_event_waits:
  assumes "of_chans s ch = Some c" "vs_mallocs (of_verbs s) = True # ms" "ch_next c = EVENT_ESTABLISHED" "ch_conn_valid c = 0"
  shows "waits_for_close (ch_fd c) (ch_id c) ch s"
proof -
  note again = get_event_again [OF assms]
  have "\<exists>e s'. rdma_get_cm_event (Ptr ch) s = ret (0, Ptr e, s') \<and> of_events s' e = Some \<lparr>ev_id = ch_id c, ev_event = EVENT_DISCONNECTED\<rparr>"
    if "of_reads s (ch_fd c) k < 0" for k
    using again read_loop_stops [where a = "of_reads s (ch_fd c)" and m = k and n = 0] that by (auto split: option.splits)
  moreover have "rdma_get_cm_event (Ptr ch) s = None" if "\<forall>k. 0 \<le> of_reads s (ch_fd c) k"
  proof -
    have "read_loop (of_reads s (ch_fd c)) 0 = None"
      using read_loop_ends [of "of_reads s (ch_fd c)" 0] that by (cases "read_loop (of_reads s (ch_fd c)) 0") (auto simp: not_less [symmetric])
    with again show ?thesis by simp
  qed
  ultimately show ?thesis unfolding waits_for_close_def by blast
qed

text \<open>
  C40. The events of a connection. When a client has connected and no connection was reported on its channel before
  (\<open>conn_event_valid\<close> is 1, as \<open>rdma_create_event_channel\<close> sets it), the next event of the channel is that the
  connection is established, for its identifier, and it is reported once: asking for one more event waits for reads on
  the descriptor of the channel to fail, and reports the connection as closed when one does; if none ever fails, as at
  the end of a stream that the peer has closed in order, where reads return 0, the call does not come back. When a
  connection was reported on the channel before (\<open>conn_event_valid\<close> is 0), a new one is not reported, and asking
  for an event waits like this at once. The descriptor is the one the channel had before the connection: on the
  connecting side nothing sets it to the new stream.
\<close>

theorem connection_reported_once:
  assumes con: "rdma_connect B i s = ret (0, s1)" and i: "i = Ptr n" "of_ids s n = Some d" "id_channel d = Ptr ch"
    and c: "of_chans s ch = Some c" and m: "vs_mallocs (of_verbs s1) = True # True # ms"
  shows "(ch_conn_valid c = 1 \<longrightarrow> (\<exists>e s2. rdma_get_cm_event (Ptr ch) s1 = ret (0, Ptr e, s2)
        \<and> of_events s2 e = Some \<lparr>ev_id = i, ev_event = EVENT_ESTABLISHED\<rparr>
        \<and> of_reads s2 = of_reads s1 \<and> waits_for_close (ch_fd c) i ch s2))
    \<and> (ch_conn_valid c = 0 \<longrightarrow> waits_for_close (ch_fd c) i ch s1)"
proof -
  note c1 = rdma_connect_event [OF con i(2,1,3) c]
  have "\<exists>e s2. rdma_get_cm_event (Ptr ch) s1 = ret (0, Ptr e, s2) \<and> of_events s2 e = Some \<lparr>ev_id = i, ev_event = EVENT_ESTABLISHED\<rparr>
      \<and> of_reads s2 = of_reads s1 \<and> waits_for_close (ch_fd c) i ch s2" if v: "ch_conn_valid c = 1"
  proof -
    from get_event_step [OF c1 m] v obtain e s2 where s2: "rdma_get_cm_event (Ptr ch) s1 = ret (0, Ptr e, s2)"
      "of_events s2 e = Some \<lparr>ev_id = i, ev_event = EVENT_ESTABLISHED\<rparr>" "vs_mallocs (of_verbs s2) = True # ms" "of_reads s2 = of_reads s1"
      "of_chans s2 ch = Some (c\<lparr>ch_next := EVENT_ESTABLISHED, ch_id := i, ch_conn_valid := 0\<rparr>)" by auto
    with get_event_waits [OF s2(5,3)] show ?thesis by auto
  qed
  moreover have "waits_for_close (ch_fd c) i ch s1" if "ch_conn_valid c = 0" using get_event_waits [OF c1 m] that by simp
  ultimately show ?thesis by blast
qed

text \<open>An identifier with its context, its adapter and its queue pair, whose peer answers.\<close>

definition demo_junk :: "'c \<Rightarrow> 'm \<Rightarrow> ('c, 'm) of_junk" where
  "demo_junk c m = \<lparr>jk_chan = \<lparr>ch_fd = 0, ch_next = 0, ch_conn_valid = 0, ch_id = Wild\<rparr>,
     jk_id = \<lparr>id_verbs = Wild, id_channel = Wild, id_context = 0, id_qp = Wild, id_port = 0, id_swinfo = Wild\<rparr>,
     jk_info = \<lparr>sw_port = 0, sw_rnic = 0, sw_host = Wild, sw_fd = 0, sw_listening = 0\<rparr>, jk_qp = \<lparr>oq_context = Wild, oq_sw = 0\<rparr>,
     jk_cq = c, jk_stag = 0, jk_md = m, jk_sgl = \<lparr>sgl_sge = [\<lparr>sge_length = 0, sge_stag = 0, sge_to = 0\<rparr>], sge_count = 0\<rparr>, jk_stack = 0x3000\<rparr>"

definition demo_ofab :: "'c \<Rightarrow> 'm \<Rightarrow> ('c, 'w) verbs \<Rightarrow> ('c, 'm, 'w) ofab" where
  "demo_ofab c m v = \<lparr>of_verbs = v, of_rnics = (\<lambda>_. Null), of_chans = Map.empty, of_ids = Map.empty, of_ctxs = Map.empty,
     of_infos = Map.empty, of_events = Map.empty, of_pds = Map.empty, of_cqs = Map.empty, of_mrs = Map.empty, of_qps = Map.empty, of_next = 1,
     of_selects = (\<lambda>_ _. 1), of_reads = (\<lambda>_ _. 0), of_junk = demo_junk c m\<rparr>"

definition demo_connecting :: "(nat option, mem_desc, vuser) ofab" where
  "demo_connecting = (demo_ofab None (0, 0) (demo_verbs demo_attrs demo_lib))\<lparr>of_rnics := (\<lambda>_. Null)(7 := Ptr (demo_adapter (Ptr demo_attrs))),
     of_chans := [1 \<mapsto> \<lparr>ch_fd = 0, ch_next = EVENT_ROUTE_RESOLVED, ch_conn_valid = 1, ch_id = Ptr 2\<rparr>],
     of_ids := [2 \<mapsto> \<lparr>id_verbs = Ptr 3, id_channel = Ptr 1, id_context = 0, id_qp = Ptr 5, id_port = 80, id_swinfo = Wild\<rparr>],
     of_ctxs := [3 \<mapsto> Ptr 4], of_infos := [4 \<mapsto> \<lparr>sw_port = 80, sw_rnic = 7, sw_host = Ptr ''peer'', sw_fd = - 1, sw_listening = 0\<rparr>],
     of_qps := [5 \<mapsto> \<lparr>oq_context = Ptr 3, oq_sw = 0\<rparr>], of_next := 8\<rparr>"

lemma demo_connects:
  assumes "length pd < 65535" "pd \<noteq> []"
  shows "\<exists>v. iwarp_qp_active_connect user_stubs 1000 0 pd 0x3000 200 (demo_verbs demo_attrs demo_lib) = ret (IWARP_OK, v)
    \<and> vs_mallocs v = [True, True]"
proof -
  let ?s = "demo_verbs demo_attrs demo_lib :: (nat option, vuser) verbs" and ?a = "demo_adapter (Ptr demo_attrs) :: nat option rnic"
  let ?r = "set_qp 0 ((rn_qp ?a ! 0)\<lparr>qp_fd := 5\<rparr>) ?a"
  have r: "(0 :: int) \<le> 0" "0 < int (length (rn_qp ?r))" "qp_fd (rn_qp ?r ! nat 0) = 5" "qp_attributes (rn_qp ?r ! nat 0) = Ptr demo_attrs"
    by (simp_all add: demo_adapter_def set_qp_def)
  have c: "api_inv (vu_world demo_lib)" "sk_map (vu_world demo_lib) (of_int 5) = None" "ip_mtu (conns (vu_world demo_lib) (of_int 5)) = Some 1500"
    "length (pollsks (vu_world demo_lib)) < MAX_SOCKETS" "\<not> mpa_freed (vu_world demo_lib)" "nodelay_ok (conns (vu_world demo_lib) (of_int 5))" "conn_ok (conns (vu_world demo_lib) (of_int 5))"
    "rx (conns (vu_world demo_lib) (of_int 5)) = mpa_frame MPA_REP_KEY [104] False False 1 @ []"
    unfolding demo_lib_ok(3,4) by (simp_all add: conn_start_def conn_ok_def no_errors_def demo_lib_ok)
  have pd: "length [104 :: u8] < 65535" "(0x3000 :: u64) \<noteq> 0" "length (pd_bytes [104]) \<le> unat (of_int 200 :: u16)" by (simp_all add: pd_bytes_def)
  from register_connection_starts [OF r c assms(1) pd assms(2)] obtain u where
    u: "u_register_connection ?r 0 pd 0x3000 200 True demo_lib = ret (IWARP_OK, u)" by blast
  let ?s2 = "?s\<lparr>vs_rnic := Ptr ?r, vs_sys := []\<rparr>"
  have k: "connect_loop 1000 v = (let (a, v) = vsys v in if a < 0 then connect_loop 999 v else (True, v))" for v :: "(nat option, vuser) verbs"
    using connect_loop.simps(2) [of 999 v] by simp
  have m: "vs_rnic ?s = Ptr ?a" "vs_sys ?s = [0, 5, 0, 0]" "vs_low ?s = demo_lib" "vs_mallocs ?s = [True, True]" by (simp_all add: demo_verbs_def)
  have "length (rn_qp ?a) = 10" by (simp add: demo_adapter_def)
  then have ne: "rn_qp ?a \<noteq> []" by auto
  have "iwarp_qp_active_connect user_stubs 1000 0 pd 0x3000 200 ?s = qp_connected_now user_stubs 0 pd 0x3000 200 True ?s2"
    using m ne by (cases ?s) (simp add: iwarp_qp_active_connect_def vsys_def qp_socket_def elem_def k set_rnic_def)
  moreover have "\<exists>v. qp_connected_now user_stubs 0 pd 0x3000 200 True ?s2 = ret (IWARP_OK, v) \<and> vs_mallocs v = [True, True]"
  proof -
    have "st_register_connection user_stubs = u_register_connection" by (simp add: user_stubs_def)
    moreover have "rn_qp ?r \<noteq> []" "qp_fd (rn_qp ?r ! 0) = 5" "rn_size (set_qp 0 q ?r) = 0" "rn_queue (set_qp 0 q ?r) \<noteq> []"
      "wr_sgl (rn_queue (set_qp 0 q ?r) ! 0) = Null" for q
      by (simp_all add: set_qp_def demo_adapter_def)
    ultimately show ?thesis
      using u m by (simp add: qp_connected_now_def elem_def low_def iwarp_recv_event_dispatcher_def set_rnic_def)
  qed
  ultimately show ?thesis by simp
qed

theorem connection_reported_once_witness:
  "\<exists>s1 e s2. rdma_connect user_stubs (Ptr 2) demo_connecting = ret (0, s1) \<and> rdma_get_cm_event (Ptr 1) s1 = ret (0, Ptr e, s2)
    \<and> of_events s2 e = Some \<lparr>ev_id = Ptr 2, ev_event = EVENT_ESTABLISHED\<rparr> \<and> rdma_get_cm_event (Ptr 1) s2 = None"
proof -
  from demo_connects [of "[99, 108, 105, 101, 110, 116]"] obtain v where
    v: "iwarp_qp_active_connect user_stubs 1000 0 [99, 108, 105, 101, 110, 116] 0x3000 200 (demo_verbs demo_attrs demo_lib) = ret (IWARP_OK, v)"
      "vs_mallocs v = [True, True]" by auto
  have d: "(demo_verbs demo_attrs demo_lib)\<lparr>vs_rnic := Ptr (demo_adapter (Ptr demo_attrs))\<rparr> = demo_verbs demo_attrs demo_lib"
    by (simp add: demo_verbs_def)
  have "\<exists>s1. rdma_connect user_stubs (Ptr 2) demo_connecting = ret (0, s1) \<and> vs_mallocs (of_verbs s1) = [True, True] \<and> of_reads s1 = (\<lambda>_ _. 0)"
    using v by (simp add: rdma_connect_def load_def info_of_def on_rnic_def next_event_def demo_connecting_def demo_ofab_def demo_junk_def d)
  then obtain s1 where s1: "rdma_connect user_stubs (Ptr 2) demo_connecting = ret (0, s1)" "vs_mallocs (of_verbs s1) = True # True # []"
    "of_reads s1 = (\<lambda>_ _. 0)" by blast
  show ?thesis
    using connection_reported_once [OF s1(1) _ _ _ _ s1(2), of 2 _ 1] s1(1,3) by (fastforce simp: demo_connecting_def waits_for_close_def)
qed

text \<open>A process that makes a channel and an identifier and resolves an address, which opens its adapter.\<close>

definition demo_of_calls :: "('c, 'm, 'w) stubs \<Rightarrow> ('c, 'm, 'w) ofab \<Rightarrow> (int \<times> ('c, 'm, 'w) ofab) call" where
  "demo_of_calls B s = bindC (rdma_create_event_channel s) (\<lambda>(ch, s). bindC (rdma_create_id ch 0 s) (\<lambda>(_, i, s).
     rdma_resolve_addr B i 80 (Some ''peer'') s))"

definition demo_process :: "(nat option, mem_desc, vuser) ofab" where
  "demo_process = demo_ofab None (0, 0) ((demo_start demo_attrs demo_lib)\<lparr>vs_mallocs := replicate 9 True\<rparr>)"

lemma demo_of_run:
  "case demo_of_calls user_stubs demo_process of
     Some (Done (st, s)) \<Rightarrow> st = 0 \<and> (case of_infos s 4 of Some i \<Rightarrow> sw_rnic i = 5 | None \<Rightarrow> False)
   | _ \<Rightarrow> False"
  by code_simp

theorem openfab_contexts_witness:
  "\<exists>s i. demo_of_calls user_stubs demo_process = ret (0, s) \<and> of_infos s 4 = Some i \<and> sw_rnic i = 5 \<and> contexts_in_order s"
proof -
  let ?k0 = "demo_ofab 0 0 (demo_start undefined undefined) :: (u64, u64, vkern) ofab"
  have "of_start demo_process" "of_start ?k0"
    by (simp_all add: of_start_def demo_process_def demo_ofab_def demo_start_def demo_adapter_def rnic_shape_def)
  note keeps = conjunct1 [OF openfab_contexts [OF this]]
  obtain s i where s: "demo_of_calls user_stubs demo_process = ret (0, s)" "of_infos s 4 = Some i" "sw_rnic i = 5"
    using demo_of_run by (auto split: option.splits outcome.splits)
  then obtain ch s1 x j s2 where "rdma_create_event_channel demo_process = ret (ch, s1)" "rdma_create_id ch 0 s1 = ret (x, j, s2)"
    "rdma_resolve_addr user_stubs j 80 (Some ''peer'') s2 = ret (0, s)"
    by (auto simp: demo_of_calls_def outcome_simps)
  then have "(of_step user_stubs)\<^sup>*\<^sup>* demo_process s"
    by (meson rtranclp.rtrancl_refl rtranclp.rtrancl_into_rtrancl of_step.intros)
  with keeps s show ?thesis by blast
qed

end
