(* ===== verification/Spec2Isabelle.thy ===== *)
theory Spec2Isabelle
  imports Iw_Crc32c Iw_Cq Iw_Ht Iw_Avl Iw_Mem Iw_Util Iw_State Iw_Mpa Iw_Ddp Iw_Rdmap_Recv Iw_Ddp_Recv Iw_Mpa_Recv Iw_Rdmap Iw_Stack Iw_List Iw_Avl_Trav
    K_Crc32c K_Cq K_Ht K_Mem K_Mem_Inv K_State K_Mpa K_Ddp K_Rdmap_Recv K_Recv K_Rdmap K_Dev K_Keeps K_Socks K_Dev_Inv K_Dev_Props K_Wire
    V_Types V_Verbs V_Qp V_User V_Kernel V_Kernel_Props V_Books V_Props V_Ofab V_Ofab_Props
begin

text \<open>
  Verification of the OSC software iWARP stack.

  The program. iWARP is remote direct memory access over TCP, in three layers: MPA cuts the stream into frames
  with optional markers and a CRC-32C, DDP places the payload of a frame into a tagged buffer (a region of memory
  named by a steering tag) or into the next buffer posted to a queue, and RDMAP gives this the operations of an
  adapter: send, receive, RDMA write, RDMA read, and completions. The repository implements it twice, as a library
  in the process (\<open>src/iwarp\<close>) and as a Linux kernel module with a character device (\<open>src/kiwarp\<close>), and puts the
  RNIC verbs on top of both (\<open>src/verbs\<close>; \<open>stubs.c\<close> is compiled once for each), with the OpenFabrics interface over the verbs.

  Conventions. The theories \<open>Iw_*\<close> hold the library, \<open>K_*\<close> the module and \<open>V_*\<close> the verbs; definitions have the names
  of the C functions, with \<open>k_\<close> in front for the module and \<open>u_\<close> and \<open>kv_\<close> for the two builds of \<open>stubs.c\<close>. C integers are
  words of their width (\<open>u8\<close>, \<open>u16\<close>, \<open>u32\<close>, \<open>u64\<close>), status values are \<open>int\<close> with the errno values negative. A call
  yields \<open>'a outcome\<close>: \<open>Done x\<close>, or \<open>Exit\<close> where the code ends the process (\<open>error\<close>, \<open>error_errno\<close>) or does something C
  leaves undefined (an index out of range, a null or dangling pointer); \<open>iw_assert\<close> is compiled to nothing (\<open>util.h\<close>) and has no
  counterpart. Where the code counts in a C \<open>int\<close>, the definitions cut to 32 signed bits (\<open>c_int\<close>), and a property that needs
  the counts to fit says so. Loops that may not end are
  \<open>partial_function\<close>s into \<open>option\<close>, with \<open>None\<close> for not coming back; a call of a verb has both (\<open>'a call\<close>).
  Memory of a process is a function from addresses to bytes in the library and pages with a page table in the module.
  What the kernel and libc decide is in the state as the list of their answers: how much of a transfer is taken, which
  addresses \<open>malloc\<close> returns and when it fails, what \<open>poll\<close> reports, which pages \<open>get_user_pages\<close> pins; the kernel's
  \<open>hash_long\<close> is a parameter of which only the range is assumed.

  The library.
  \<^item> \<open>Iw_Prelude\<close>: integer types, outcomes, byte order, memory, generic lemmas. \<open>Iw_Crc32c\<close> (\<open>crc32c.c\<close>): the table-driven
    sum equals the bit-serial division and detects bursts of up to four bytes. \<open>Iw_Cq\<close> (\<open>cq.c\<close>): rings of completions
    refine a bounded queue (locale \<open>bounded_fifo\<close>, which the module's rings interpret too). \<open>Iw_Ht\<close> (\<open>ht.c\<close>): the
    hash table refines a map (locale \<open>assoc_table\<close>), for sizes whose allocation fits 32 bits; a destroyed one is \<open>ht_null\<close>. \<open>Iw_Avl\<close> (\<open>avl.c\<close>): insertion, deletion and destruction keep order
    and balance, and the arrays of the paths do not overflow below 5702886 items. \<open>Iw_Avl_Trav\<close>: its
    traversers, which go through the items in order in both directions, also when the tree has changed since the last step, and
    its copying. \<open>Iw_List\<close>
    (\<open>list.h\<close>): rings of list nodes on a heap refine sequences (locale \<open>linked_seq\<close>). \<open>Iw_Util\<close> (\<open>util.c\<close>): transfers that
    are cut short and resumed move exactly the bytes asked for, as long as an \<open>int\<close> counts them.
  \<^item> \<open>Iw_Mem\<close> (\<open>mem.c\<close>): regions and steering tags; a placement that does not wrap passes the check exactly when it lies inside a live
    tag with the right.
  \<^item> \<open>Iw_State\<close> (\<open>iwsk.c\<close>, \<open>iwsk.h\<close>): the state of the library, the record \<open>world\<close>, and the table of sockets. A socket whose
    registration failed keeps its lists unset (\<open>lists_set\<close>), the end of the library frees the table and the blocks of MPA
    (\<open>iwsk_fin\<close>, \<open>mpa_fin\<close>).
  \<^item> \<open>Iw_Mpa\<close> and \<open>Iw_Mpa_Recv\<close> (\<open>mpa.c\<close>), \<open>Iw_Ddp\<close> and \<open>Iw_Ddp_Recv\<close> (\<open>ddp.c\<close>), \<open>Iw_Rdmap_Recv\<close> and \<open>Iw_Rdmap\<close> (\<open>rdmap.c\<close>): the layers,
    the sending side first, then receiving from RDMAP down to MPA because it is MPA that calls upwards. The lemmas give the bytes
    of every frame and segment, the agreement of the two start-up exchanges, the round trip of a frame, its
    refusal when it is damaged, that receiving writes into granted memory only, the order of completions, and the
    invariant \<open>api_inv\<close> of every reachable state. \<open>Iw_Stack\<close>: a message that one side sends or writes arrives on the other.

  The module.
  \<^item> \<open>K_Crc32c\<close>, \<open>K_Cq\<close>, \<open>K_Ht\<close> (\<open>crc32c.c\<close>, \<open>cq.c\<close>, \<open>ht.c\<close> of \<open>src/kiwarp\<close>): the sum agrees with the library's; queues have
    handles and use counts; the table is a map for any hash function (locale \<open>coded_table\<close>).
  \<^item> \<open>K_Mem\<close>, \<open>K_Mem_Inv\<close> (\<open>mem.c\<close>): regions hold their pages, tags hang off the list of their region, vectors
    filled for a range reach exactly its pages. The state knows which list nodes lie in freed memory (\<open>km_dead\<close>), and a list
    operation that writes there is \<open>Exit\<close>: it happens when the table of regions has been enlarged, which \<open>k_mem_reachable\<close>
    therefore leaves out.
  \<^item> \<open>K_State\<close> (\<open>iwsk.c\<close>, \<open>util.c\<close>, \<open>priv.h\<close>), \<open>K_Mpa\<close>, \<open>K_Ddp\<close>, \<open>K_Rdmap_Recv\<close>, \<open>K_Recv\<close>, \<open>K_Rdmap\<close> (\<open>mpa.c\<close>, \<open>ddp.c\<close>, \<open>rdmap.c\<close>): the state
    \<open>kworld\<close> and the layers. \<open>K_Keeps\<close> says what each function leaves alone, \<open>K_Wire\<close> that the module sends the bytes the
    library sends for the same message.
  \<^item> \<open>K_Dev\<close> (\<open>init.c\<close>, \<open>user.h\<close>): \<open>open\<close>, \<open>write\<close> with all commands in their byte layout, and \<open>release\<close>. \<open>K_Socks\<close> and
    \<open>K_Dev_Inv\<close> carry the invariant of the device through every call, \<open>K_Dev_Props\<close> draws the properties: what calls
    return, as on the set of processes that have the device open, that use counts and sockets agree and no file is freed under
    a socket, what a release gives back, and that the bytes of a peer reach registered pages only.

  The verbs.
  \<^item> \<open>V_Types\<close> (\<open>types.h\<close>, \<open>limits.h\<close>, \<open>errno.h\<close>, \<open>errno.c\<close>), \<open>V_Verbs\<close> (\<open>rnic.c\<close>, \<open>pd.c\<close>, \<open>cq.c\<close>) and \<open>V_Qp\<close> (\<open>qp.c\<close>, \<open>protected.c\<close>, \<open>rwr.c\<close>,
    \<open>swr.c\<close>) model the verbs over a record of functions, \<open>stubs\<close>, the interface \<open>stubs.h\<close>. \<open>V_User\<close> and \<open>V_Kernel\<close> are the two
    instances (\<open>stubs.c\<close>), over \<open>world\<close> and over the device \<open>kdev\<close>.
  \<^item> \<open>V_Kernel_Props\<close>: the structures the stubs write are the commands the module runs. \<open>V_Books\<close>: runs of verbs and the
    invariant of the adapter, proved in the locale \<open>stubs_leave_rnic\<close> for any functions below and interpreted on both builds.
    \<open>V_Props\<close>: the properties.
  \<^item> \<open>V_Ofab\<close> (\<open>openfab.c\<close>, \<open>rdma_cma.h\<close>, \<open>infiniband/verbs.h\<close>): the connection manager and the verbs of OpenFabrics. Their objects
    point to one another, so the state \<open>ofab\<close> has a map from addresses to structures for each type, and the adapters of
    the contexts by handle. \<open>V_Ofab_Props\<close>: runs of calls keep the adapter of every context in order, by the invariant
    of the verbs, and how the events of a connection are reported, with the answers of \<open>select\<close> and \<open>read\<close> for each descriptor.

  Bounds and fuel. Recursion over data and counters is structural or has a measure. \<open>avl_find\<close> and its like descend the tree
  itself. The loops of a transfer are driven by the bytes left and by the list of answers, both of which go down. Loops that need
  not end (\<open>v_poll_cq\<close> with endless retries, the search for a free tag, \<open>poll_block\<close>, the waits of
  \<open>rdma_get_cm_event\<close>) are partial functions; what is said of them is said of runs that come back, or is that they do not, and
  \<open>None\<close> is never read as success.

  Not modelled. The allocator hooks of \<open>avl.c\<close>, which are \<open>malloc\<close> and \<open>free\<close>. Spin locks and semaphores have no counterpart: a call of the device is one step.
  Pauses (\<open>usleep\<close>), host names, logging and debugging dumps are left out, as are the registration of the device
  with the kernel, and benchmarks, tests, timers and build files.
\<close>

end
